(* ===== verification/DG_Prelude.thy ===== *)
theory DG_Prelude
  imports Main "HOL-Library.Word"
begin

text \<open>
  Shared vocabulary of the development.  A Rust \<open>&str\<close> or \<open>&[u8]\<close> is an Isabelle
  \<open>string\<close>: a list of 8-bit characters, read as the UTF-8 bytes of the text, so that
  \<open>length\<close>, indices and ranges count bytes exactly as the Rust code does.  The theory
  models the pieces of the standard library the sources use: \<open>slice::get\<close>, range
  slicing, the ASCII predicates of \<open>u8\<close>, \<open>str::trim\<close> and its kin (which strip
  Unicode white space), \<open>split_whitespace\<close>, \<open>split_once\<close>, \<open>strip_prefix\<close>,
  \<open>replace\<close>, \<open>u64::from_str\<close> and integer printing.
\<close>

named_theorems scan_simps \<open>characteristic facts of the index scanners\<close>
named_theorems range_intros \<open>introduction rules for byte ranges\<close>

section \<open>Bytes\<close>

type_synonym byte_range = "nat \<times> nat"

definition bval :: "char \<Rightarrow> nat" where
  "bval c = of_char c"

definition byte_at :: "'a list \<Rightarrow> nat \<Rightarrow> 'a option" where
  "byte_at xs i = (if i < length xs then Some (xs ! i) else None)"

definition slice :: "'a list \<Rightarrow> nat \<Rightarrow> nat \<Rightarrow> 'a list" where
  "slice xs a b = take (b - a) (drop a xs)"

definition is_char_boundary :: "string \<Rightarrow> nat \<Rightarrow> bool" where
  "is_char_boundary s i =
     (if i = 0 \<or> i = length s then True
      else if i < length s then bval (s ! i) < 128 \<or> 192 \<le> bval (s ! i)
      else False)"

text \<open>Indexing a \<open>&str\<close> by a range: \<open>None\<close> is the panic.\<close>

definition str_slice :: "string \<Rightarrow> nat \<Rightarrow> nat \<Rightarrow> string option" where
  "str_slice s a b =
     (if a \<le> b \<and> b \<le> length s \<and> is_char_boundary s a \<and> is_char_boundary s b
      then Some (slice s a b) else None)"

definition in_interval :: "nat \<Rightarrow> nat \<Rightarrow> char \<Rightarrow> bool" where
  "in_interval lo hi c = (lo \<le> bval c \<and> bval c \<le> hi)"

definition is_ascii_digit :: "char \<Rightarrow> bool" where
  "is_ascii_digit c = in_interval 48 57 c"

definition is_ascii_upper :: "char \<Rightarrow> bool" where
  "is_ascii_upper c = in_interval 65 90 c"

definition is_ascii_lower :: "char \<Rightarrow> bool" where
  "is_ascii_lower c = in_interval 97 122 c"

definition is_ascii_alphabetic :: "char \<Rightarrow> bool" where
  "is_ascii_alphabetic c = (is_ascii_upper c \<or> is_ascii_lower c)"

definition is_ascii_alphanumeric :: "char \<Rightarrow> bool" where
  "is_ascii_alphanumeric c = (is_ascii_alphabetic c \<or> is_ascii_digit c)"

definition is_ascii_hexdigit :: "char \<Rightarrow> bool" where
  "is_ascii_hexdigit c = (is_ascii_digit c \<or> in_interval 65 70 c \<or> in_interval 97 102 c)"

text \<open>\<open>u8::is_ascii_whitespace\<close>: space, tab, line feed, form feed, carriage return; not
  the vertical tab, which \<open>char::is_whitespace\<close> does count.\<close>

definition is_ascii_whitespace :: "char \<Rightarrow> bool" where
  "is_ascii_whitespace c = (bval c \<in> {9, 10, 12, 13, 32})"

definition is_non_ascii :: "char \<Rightarrow> bool" where
  "is_non_ascii c = (128 \<le> bval c)"

definition ascii_upper :: "char \<Rightarrow> char" where
  "ascii_upper c = (if is_ascii_lower c then char_of (bval c - 32) else c)"

definition ascii_lower :: "char \<Rightarrow> char" where
  "ascii_lower c = (if is_ascii_upper c then char_of (bval c + 32) else c)"

definition eq_ignore_ascii_case :: "string \<Rightarrow> string \<Rightarrow> bool" where
  "eq_ignore_ascii_case s t = (map ascii_lower s = map ascii_lower t)"

definition listed :: "string list \<Rightarrow> string \<Rightarrow> bool" where
  "listed ks w = list_ex (\<lambda>k. eq_ignore_ascii_case w k) ks"

abbreviation newline :: char where "newline \<equiv> CHR 0x0A"
abbreviation carriage_return :: char where "carriage_return \<equiv> CHR 0x0D"
abbreviation quote_char :: char where "quote_char \<equiv> CHR 0x27"
abbreviation dquote :: char where "dquote \<equiv> CHR 0x22"
abbreviation backslash :: char where "backslash \<equiv> CHR 0x5C"
abbreviation backtick :: char where "backtick \<equiv> CHR 0x60"

section \<open>Unicode white space in UTF-8\<close>

text \<open>
  The number of bytes of the white-space character a byte string begins with, 0 when it
  begins with none: the ASCII ones and U+0085, U+00A0, U+1680, U+2000 to U+200A, U+2028,
  U+2029, U+202F, U+205F and U+3000, in their UTF-8 encodings.
\<close>

definition ws_pair :: "nat \<Rightarrow> nat \<Rightarrow> bool" where
  "ws_pair a b = (a = 194 \<and> (b = 133 \<or> b = 160))"

definition ws_triple :: "nat \<Rightarrow> nat \<Rightarrow> nat \<Rightarrow> bool" where
  "ws_triple a b c =
     ((a = 225 \<and> b = 154 \<and> c = 128)
      \<or> (a = 226 \<and> b = 128 \<and> ((128 \<le> c \<and> c \<le> 138) \<or> c = 168 \<or> c = 169 \<or> c = 175))
      \<or> (a = 226 \<and> b = 129 \<and> c = 159)
      \<or> (a = 227 \<and> b = 128 \<and> c = 128))"

definition ws_single :: "nat \<Rightarrow> bool" where
  "ws_single a = ((9 \<le> a \<and> a \<le> 13) \<or> a = 32)"

fun ws_len :: "string \<Rightarrow> nat" where
  "ws_len [] = 0"
| "ws_len [a] = (if ws_single (bval a) then 1 else 0)"
| "ws_len [a, b] =
     (if ws_single (bval a) then 1 else if ws_pair (bval a) (bval b) then 2 else 0)"
| "ws_len (a # b # c # _) =
     (if ws_single (bval a) then 1 else if ws_pair (bval a) (bval b) then 2
      else if ws_triple (bval a) (bval b) (bval c) then 3 else 0)"

text \<open>The same for the character a reversed byte string begins with, i.e. the last one.\<close>

fun ws_len_rev :: "string \<Rightarrow> nat" where
  "ws_len_rev [] = 0"
| "ws_len_rev [a] = (if ws_single (bval a) then 1 else 0)"
| "ws_len_rev [a, b] =
     (if ws_single (bval a) then 1 else if ws_pair (bval b) (bval a) then 2 else 0)"
| "ws_len_rev (a # b # c # _) =
     (if ws_single (bval a) then 1 else if ws_pair (bval b) (bval a) then 2
      else if ws_triple (bval c) (bval b) (bval a) then 3 else 0)"

function trim_start :: "string \<Rightarrow> string" where
  "trim_start s = (if 0 < ws_len s \<and> s \<noteq> [] then trim_start (drop (ws_len s) s) else s)"
  by pat_completeness auto
termination
  by (relation "measure length") auto

function trim_rev :: "string \<Rightarrow> string" where
  "trim_rev s = (if 0 < ws_len_rev s \<and> s \<noteq> [] then trim_rev (drop (ws_len_rev s) s) else s)"
  by pat_completeness auto
termination
  by (relation "measure length") auto

declare trim_start.simps [simp del] trim_rev.simps [simp del]

definition trim_end :: "string \<Rightarrow> string" where
  "trim_end s = rev (trim_rev (rev s))"

definition trim :: "string \<Rightarrow> string" where
  "trim s = trim_end (trim_start s)"

function split_ws :: "string \<Rightarrow> string \<Rightarrow> string list" where
  "split_ws cur [] = (if cur = [] then [] else [rev cur])"
| "split_ws cur (c # cs) =
     (case ws_len (c # cs) of
        0 \<Rightarrow> split_ws (c # cur) cs
      | Suc k \<Rightarrow> (if cur = [] then [] else [rev cur]) @ split_ws [] (drop k cs))"
  by pat_completeness auto
termination
  by (relation "measure (\<lambda>(cur, s). length s)") auto

definition split_whitespace :: "string \<Rightarrow> string list" where
  "split_whitespace s = split_ws [] s"

text \<open>\<open>str::split_once(char::is_whitespace)\<close>: the text before and after the first
  white-space character.\<close>

fun split_once_ws :: "string \<Rightarrow> (string \<times> string) option" where
  "split_once_ws [] = None"
| "split_once_ws (c # cs) =
     (case ws_len (c # cs) of
        0 \<Rightarrow> map_option (\<lambda>(a, b). (c # a, b)) (split_once_ws cs)
      | Suc k \<Rightarrow> Some ([], drop k cs))"

fun split_once_char :: "char \<Rightarrow> string \<Rightarrow> (string \<times> string) option" where
  "split_once_char d [] = None"
| "split_once_char d (c # cs) =
     (if c = d then Some ([], cs)
      else map_option (\<lambda>(a, b). (c # a, b)) (split_once_char d cs))"

fun contains_ws :: "string \<Rightarrow> bool" where
  "contains_ws [] = False"
| "contains_ws (c # cs) = (0 < ws_len (c # cs) \<or> contains_ws cs)"

fun starts_with :: "'a list \<Rightarrow> 'a list \<Rightarrow> bool" where
  "starts_with s [] = True"
| "starts_with [] (p # ps) = False"
| "starts_with (c # s) (p # ps) = (c = p \<and> starts_with s ps)"

definition strip_prefix :: "'a list \<Rightarrow> 'a list \<Rightarrow> 'a list option" where
  "strip_prefix p s = (if starts_with s p then Some (drop (length p) s) else None)"

definition strip_suffix :: "'a list \<Rightarrow> 'a list \<Rightarrow> 'a list option" where
  "strip_suffix p s =
     (if starts_with (rev s) (rev p) then Some (take (length s - length p) s) else None)"

text \<open>\<open>str::replace\<close> of a single-byte pattern.\<close>

definition replace_char :: "char \<Rightarrow> string \<Rightarrow> string \<Rightarrow> string" where
  "replace_char c r s = concat (map (\<lambda>x. if x = c then r else [x]) s)"

text \<open>\<open>str::replace\<close> of a two-byte pattern: left to right, without overlaps.\<close>

fun replace_pair :: "char \<Rightarrow> char \<Rightarrow> string \<Rightarrow> string \<Rightarrow> string" where
  "replace_pair a b r (x # y # s) =
     (if x = a \<and> y = b then r @ replace_pair a b r s else x # replace_pair a b r (y # s))"
| "replace_pair a b r s = s"

section \<open>Integers as text\<close>

fun show_digits :: "nat \<Rightarrow> nat \<Rightarrow> nat \<Rightarrow> string" where
  "show_digits 0 b n = []"
| "show_digits (Suc f) b n =
     (if n < b then [char_of (if n < 10 then 48 + n else 87 + n)]
      else show_digits f b (n div b)
        @ [char_of (if n mod b < 10 then 48 + n mod b else 87 + n mod b)])"

text \<open>Decimal (\<open>{}\<close>) and lower-case hexadecimal (\<open>{:x}\<close>) printing; the fuel
  \<open>Suc n\<close> exceeds the number of digits.\<close>

definition show_nat :: "nat \<Rightarrow> string" where
  "show_nat n = show_digits (Suc n) 10 n"

definition show_hex :: "nat \<Rightarrow> string" where
  "show_hex n = show_digits (Suc n) 16 n"

definition show_int :: "int \<Rightarrow> string" where
  "show_int i = (if i < 0 then CHR ''-'' # show_nat (nat (- i)) else show_nat (nat i))"

definition digits_value :: "string \<Rightarrow> nat" where
  "digits_value s = fold (\<lambda>c acc. acc * 10 + (bval c - 48)) s 0"

text \<open>\<open>u64::from_str\<close> and \<open>u16::from_str\<close>: an optional plus sign, at least one decimal
  digit, no overflow.\<close>

definition parse_unsigned :: "nat \<Rightarrow> string \<Rightarrow> nat option" where
  "parse_unsigned width s =
     (let d = (case s of c # r \<Rightarrow> if c = CHR ''+'' then r else s | [] \<Rightarrow> [])
      in if d \<noteq> [] \<and> list_all is_ascii_digit d \<and> digits_value d < 2 ^ width
         then Some (digits_value d) else None)"

definition parse_u64 :: "string \<Rightarrow> nat option" where
  "parse_u64 s = parse_unsigned 64 s"

definition parse_u16 :: "string \<Rightarrow> nat option" where
  "parse_u16 s = parse_unsigned 16 s"

definition u64_checked_mul :: "nat \<Rightarrow> nat \<Rightarrow> nat option" where
  "u64_checked_mul a b = (if a * b < 2 ^ 64 then Some (a * b) else None)"

section \<open>Searching lists\<close>

text \<open>\<open>Iterator::position\<close> and \<open>str::find\<close> with a byte predicate.\<close>

fun find_index :: "('a \<Rightarrow> bool) \<Rightarrow> 'a list \<Rightarrow> nat option" where
  "find_index p [] = None"
| "find_index p (x # xs) = (if p x then Some 0 else map_option Suc (find_index p xs))"

definition remove_at :: "nat \<Rightarrow> 'a list \<Rightarrow> 'a list" where
  "remove_at i xs = take i xs @ drop (Suc i) xs"

text \<open>\<open>Vec::dedup\<close>: consecutive equal elements collapse to the first.\<close>

fun dedup :: "'a list \<Rightarrow> 'a list" where
  "dedup (x # y # xs) = (if x = y then dedup (x # xs) else x # dedup (y # xs))"
| "dedup xs = xs"

fun join :: "string \<Rightarrow> string list \<Rightarrow> string" where
  "join sep [] = []"
| "join sep [s] = s"
| "join sep (s # t # ss) = s @ sep @ join sep (t # ss)"

section \<open>Shared lemmas\<close>

lemma byte_at_Some: "byte_at xs i = Some x \<longleftrightarrow> i < length xs \<and> xs ! i = x"
  by (auto simp: byte_at_def)

lemma byte_at_None: "byte_at xs i = None \<longleftrightarrow> length xs \<le> i"
  by (auto simp: byte_at_def)

lemma length_slice [simp]: "length (slice xs a b) = min (b - a) (length xs - a)"
  by (simp add: slice_def min.commute)

lemma slice_nth [simp]: "i < b - a \<Longrightarrow> b \<le> length xs \<Longrightarrow> slice xs a b ! i = xs ! (a + i)"
  by (simp add: slice_def)

lemma slice_all: "slice xs 0 (length xs) = xs"
  by (simp add: slice_def)

lemma slice_empty [simp]: "b \<le> a \<Longrightarrow> slice xs a b = []"
  by (simp add: slice_def)

lemma slice_append: "a \<le> b \<Longrightarrow> b \<le> c \<Longrightarrow> slice xs a b @ slice xs b c = slice xs a c"
proof -
  assume ab: "a \<le> b" and bc: "b \<le> c"
  have "take (c - a) (drop a xs)
      = take (b - a) (drop a xs) @ take (c - b) (drop (b - a) (drop a xs))"
    using take_add [of "b - a" "c - b" "drop a xs"] ab bc by simp
  also have "drop (b - a) (drop a xs) = drop b xs" using ab by simp
  finally show ?thesis by (simp only: slice_def)
qed

lemma set_slice: "x \<in> set (slice xs a b) \<Longrightarrow> \<exists>i. a \<le> i \<and> i < b \<and> i < length xs \<and> xs ! i = x"
proof -
  assume "x \<in> set (slice xs a b)"
  then obtain j where j: "j < length (slice xs a b)" "slice xs a b ! j = x"
    by (auto simp: in_set_conv_nth)
  then have "a + j < b" "a + j < length xs" by auto
  moreover from j this have "xs ! (a + j) = x" by (simp add: slice_def)
  ultimately show ?thesis by (intro exI [of _ "a + j"]) auto
qed

lemma ws_len_le: "ws_len s \<le> length s"
  by (cases s rule: ws_len.cases) auto

lemma ws_len_rev_le: "ws_len_rev s \<le> length s"
  by (cases s rule: ws_len_rev.cases) auto

lemma find_index_Some:
  "find_index p xs = Some i \<Longrightarrow> i < length xs \<and> p (xs ! i) \<and> (\<forall>j < i. \<not> p (xs ! j))"
proof (induction xs arbitrary: i)
  case Nil
  then show ?case by simp
next
  case (Cons x xs)
  show ?case
  proof (cases "p x")
    case True
    with Cons.prems show ?thesis by simp
  next
    case False
    with Cons.prems obtain k where k: "find_index p xs = Some k" and i: "i = Suc k" by auto
    from Cons.IH [OF k] i False show ?thesis by (auto simp: nth_Cons split: nat.splits)
  qed
qed

lemma find_index_None [simp]: "find_index p xs = None \<longleftrightarrow> (\<forall>x \<in> set xs. \<not> p x)"
  by (induction xs) auto

lemma find_index_bound: "find_index p xs = Some i \<Longrightarrow> i < length xs \<and> p (xs ! i)"
  by (induction xs arbitrary: i) (auto split: if_splits)

lemma filter_update_shrinks:
  "i < length xs \<Longrightarrow> P (xs ! i) \<Longrightarrow> \<not> P y \<Longrightarrow> length (filter P (xs[i := y])) < length (filter P xs)"
  by (induction xs arbitrary: i) (auto split: nat.splits)

lemma length_remove_at: "i < length xs \<Longrightarrow> length (remove_at i xs) = length xs - 1"
  by (simp add: remove_at_def)

lemma set_remove_at: "set (remove_at i xs) \<subseteq> set xs"
  by (auto simp: remove_at_def dest: in_set_takeD in_set_dropD)

lemma starts_with_iff: "starts_with s p \<longleftrightarrow> (\<exists>r. s = p @ r)"
  by (induction s p rule: starts_with.induct) auto

lemma starts_with_append [simp]: "starts_with (p @ r) p"
  by (auto simp: starts_with_iff)

lemma listed_iff: "listed ks w \<longleftrightarrow> (\<exists>k \<in> set ks. eq_ignore_ascii_case w k)"
  by (simp add: listed_def list_ex_iff)

lemma eq_ignore_ascii_case_refl [simp]: "eq_ignore_ascii_case s s"
  by (simp add: eq_ignore_ascii_case_def)

lemma eq_ignore_ascii_case_sym: "eq_ignore_ascii_case s t = eq_ignore_ascii_case t s"
  by (auto simp: eq_ignore_ascii_case_def)

lemma eq_ignore_ascii_case_trans:
  "eq_ignore_ascii_case s t \<Longrightarrow> eq_ignore_ascii_case t u \<Longrightarrow> eq_ignore_ascii_case s u"
  by (simp add: eq_ignore_ascii_case_def)

lemma bval_bound [simp]: "bval c < 256"
  by (simp add: bval_def)

lemma bval_inj [simp]: "bval a = bval b \<longleftrightarrow> a = b"
  by (simp add: bval_def)

lemma bval_char_of [simp]: "n < 256 \<Longrightarrow> bval (char_of n) = n"
  by (simp add: bval_def)

text \<open>Some index of an interval satisfies \<open>P\<close>; unfolds one index at a time, like the loops.\<close>

definition ex_from :: "(nat \<Rightarrow> bool) \<Rightarrow> nat \<Rightarrow> nat \<Rightarrow> bool" where
  "ex_from P i n = (\<exists>j. i \<le> j \<and> j < n \<and> P j)"

lemma ex_from_step: "i < n \<Longrightarrow> ex_from P i n = (P i \<or> ex_from P (i + 1) n)"
  unfolding ex_from_def by (metis Suc_eq_plus1 le_eq_less_or_eq less_eq_Suc_le order_refl)

lemma ex_from_end: "n \<le> i \<Longrightarrow> \<not> ex_from P i n"
  by (auto simp: ex_from_def)

lemma ex_from_0: "ex_from P 0 n = (\<exists>j < n. P j)"
  by (auto simp: ex_from_def)

section \<open>UTF-8\<close>

text \<open>The lead and continuation structure every \<open>&str\<close> has.\<close>

definition is_continuation :: "char \<Rightarrow> bool" where
  "is_continuation c = in_interval 128 191 c"

fun utf8 :: "string \<Rightarrow> bool" where
  "utf8 [] = True"
| "utf8 (a # s) =
     (if bval a < 128 then utf8 s
      else if bval a < 192 then False
      else if bval a < 224 then
        (case s of b # r \<Rightarrow> is_continuation b \<and> utf8 r | _ \<Rightarrow> False)
      else if bval a < 240 then
        (case s of b # c # r \<Rightarrow> is_continuation b \<and> is_continuation c \<and> utf8 r | _ \<Rightarrow> False)
      else
        (case s of b # c # d # r \<Rightarrow>
           is_continuation b \<and> is_continuation c \<and> is_continuation d \<and> utf8 r | _ \<Rightarrow> False))"

lemma utf8_tail:
  assumes "utf8 (a # r)"
  obtains k where "k \<le> length r" and "utf8 (drop k r)"
    and "\<forall>j < k. is_continuation (r ! j)" and "k = 0 \<or> 128 \<le> bval a"
proof -
  consider "bval a < 128" | "192 \<le> bval a" "bval a < 224" | "224 \<le> bval a" "bval a < 240"
    | "240 \<le> bval a"
    using assms by (fastforce split: if_splits)
  then show thesis
  proof cases
    case 1
    with assms show thesis by (intro that [of 0]) auto
  next
    case 2
    with assms show thesis by (intro that [of 1]) (auto split: list.splits)
  next
    case 3
    with assms show thesis by (intro that [of 2]) (auto simp: less_Suc_eq numeral_2_eq_2 split: list.splits)
  next
    case 4
    with assms show thesis by (intro that [of 3]) (auto simp: less_Suc_eq numeral_3_eq_3 split: list.splits)
  qed
qed

lemma utf8_boundary_aux:
  "utf8 s \<Longrightarrow> i < length s \<Longrightarrow> is_continuation (s ! i) \<Longrightarrow> 0 < i \<and> 128 \<le> bval (s ! (i - 1))"
proof (induction s arbitrary: i rule: length_induct)
  case (1 s)
  from "1.prems" obtain a r where s: "s = a # r" by (cases s) auto
  have cont: "is_continuation x \<Longrightarrow> 128 \<le> bval x" for x
    by (simp add: is_continuation_def in_interval_def)
  have not0: "i \<noteq> 0"
  proof
    assume "i = 0"
    with "1.prems" s show False
      by (auto simp: is_continuation_def in_interval_def split: if_splits)
  qed
  from "1.prems"(1) s obtain k where k: "k \<le> length r" "utf8 (drop k r)"
      "\<forall>j < k. is_continuation (r ! j)" "k = 0 \<or> 128 \<le> bval a"
    using utf8_tail by blast
  show ?case
  proof (cases "i \<le> k")
    case True
    then show ?thesis using k s not0 cont by (cases "i - 1") auto
  next
    case False
    with "1.IH" [rule_format, of "drop k r" "i - k - 1"] k(2) "1.prems" s
    have *: "0 < i - k - 1 \<and> 128 \<le> bval (drop k r ! (i - k - 1 - 1))" by (simp add: nth_Cons')
    then have "k + (i - k - 1 - 1) = i - 1 - 1" and "i - 1 \<noteq> 0" by arith+
    with * k(1) s not0 show ?thesis by (simp add: nth_Cons')
  qed
qed

lemma utf8_after_ascii:
  assumes "utf8 s" and "i < length s" and "bval (s ! i) < 128"
  shows "is_char_boundary s (i + 1)"
proof (cases "i + 1 = length s")
  case False
  with assms have "\<not> is_continuation (s ! (i + 1))"
    using utf8_boundary_aux [OF assms(1), of "i + 1"] by auto
  with False assms(2) show ?thesis
    by (simp add: is_char_boundary_def is_continuation_def in_interval_def) linarith
qed (simp add: is_char_boundary_def)

lemma ascii_char_boundary: "i < length s \<Longrightarrow> bval (s ! i) < 128 \<Longrightarrow> is_char_boundary s i"
  by (simp add: is_char_boundary_def)

section \<open>Trimming\<close>

lemma trim_start_nil [simp]: "trim_start [] = []"
  by (simp add: trim_start.simps)

lemma trim_nil [simp]: "trim [] = []"
  by (simp add: trim_def trim_end_def trim_rev.simps)

text \<open>An ASCII character that is not white space is not part of any white-space encoding,
  so trimming a text that begins with it keeps it.\<close>

lemma ws_len_ascii: "bval c < 128 \<Longrightarrow> \<not> ws_single (bval c) \<Longrightarrow> ws_len (c # s) = 0"
  by (cases "c # s" rule: ws_len.cases) (auto simp: ws_pair_def ws_triple_def)

lemma ws_len_rev_ascii:
  assumes "bval c < 128" and "\<not> ws_single (bval c)" and "s \<noteq> []"
  shows "ws_len_rev (s @ [c]) = ws_len_rev s"
  using assms by (cases s rule: ws_len_rev.cases) (auto simp: ws_pair_def ws_triple_def)

lemma trim_rev_ascii:
  assumes c: "bval c < 128" "\<not> ws_single (bval c)"
  shows "\<exists>t. trim_rev (s @ [c]) = t @ [c]"
proof (induction s rule: trim_rev.induct)
  case (1 s)
  show ?case
  proof (cases "s = []")
    case True
    then show ?thesis using c by (subst trim_rev.simps) simp
  next
    case False
    note eq = ws_len_rev_ascii [OF c False]
    show ?thesis
    proof (cases "0 < ws_len_rev s")
      case True
      then have "trim_rev (s @ [c]) = trim_rev (drop (ws_len_rev s) s @ [c])"
        using ws_len_rev_le [of s] by (simp add: trim_rev.simps [of "s @ [c]"] eq)
      with 1 True False show ?thesis by simp
    next
      case no: False
      then show ?thesis by (simp add: trim_rev.simps [of "s @ [c]"] eq)
    qed
  qed
qed

lemma trim_keep:
  assumes "bval c < 128" and "\<not> ws_single (bval c)"
  shows "\<exists>r. trim (c # s) = c # r"
proof -
  obtain t where "trim_rev (rev s @ [c]) = t @ [c]" using trim_rev_ascii [OF assms] by blast
  then show ?thesis
    by (simp add: trim_def trim_end_def trim_start.simps [of "c # s"] ws_len_ascii [OF assms])
qed

section \<open>Walking a UTF-8 text character by character\<close>

lemma utf8_boundary:
  assumes "utf8 (drop i s)" and "i \<le> length s"
  shows "is_char_boundary s i"
proof (cases "drop i s")
  case Nil
  with assms(2) show ?thesis by (simp add: is_char_boundary_def)
next
  case (Cons a r)
  then have "i < length s" "s ! i = a"
    using assms(2) by (auto simp: nth_via_drop intro: ccontr)
  moreover have "bval a < 128 \<or> 192 \<le> bval a" using assms(1) Cons by (auto split: if_splits)
  ultimately show ?thesis by (auto simp: is_char_boundary_def)
qed

section \<open>Bounds of scanners\<close>

definition within :: "nat \<Rightarrow> nat \<Rightarrow> nat \<Rightarrow> bool" where
  "within lo hi x = (lo \<le> x \<and> x \<le> hi)"

lemma within_if:
  "(c \<Longrightarrow> within lo hi x) \<Longrightarrow> (\<not> c \<Longrightarrow> within lo hi y) \<Longrightarrow> within lo hi (if c then x else y)"
  by simp

lemma within_trans: "within lo hi m \<Longrightarrow> (m \<le> hi \<Longrightarrow> within m hi x) \<Longrightarrow> within lo hi x"
  by (simp add: within_def)

section \<open>Decimal numbers print and parse back\<close>

lemma show_digits_digits:
  "n < f \<Longrightarrow> list_all is_ascii_digit (show_digits f 10 n) \<and> show_digits f 10 n \<noteq> []"
proof (induction f arbitrary: n)
  case (Suc f)
  have d: "is_ascii_digit (char_of (48 + k))" if "k < 10" for k :: nat
    using that by (simp add: is_ascii_digit_def in_interval_def)
  show ?case
  proof (cases "n < 10")
    case True
    then show ?thesis by (simp add: d)
  next
    case False
    then have "n div 10 < f" using Suc.prems by auto
    with Suc.IH [OF this] False show ?thesis by (simp add: d)
  qed
qed simp

lemma digits_value_snoc: "digits_value (s @ [c]) = digits_value s * 10 + (bval c - 48)"
  by (simp add: digits_value_def)

lemma show_digits_value: "n < f \<Longrightarrow> digits_value (show_digits f 10 n) = n"
proof (induction f arbitrary: n)
  case (Suc f)
  show ?case
  proof (cases "n < 10")
    case True
    then show ?thesis by (simp add: digits_value_def)
  next
    case False
    then have "n div 10 < f" using Suc.prems by auto
    with Suc.IH [OF this] False show ?thesis by (simp add: digits_value_snoc)
  qed
qed simp

lemma show_nat_digits: "list_all is_ascii_digit (show_nat n)" "show_nat n \<noteq> []"
  using show_digits_digits [of n "Suc n"] by (auto simp: show_nat_def)

lemma show_nat_value [simp]: "digits_value (show_nat n) = n"
  using show_digits_value [of n "Suc n"] by (simp add: show_nat_def)

lemma parse_unsigned_show:
  assumes "n < 2 ^ w"
  shows "parse_unsigned w (show_nat n) = Some n"
proof -
  obtain c r where cr: "show_nat n = c # r" using show_nat_digits(2) by (cases "show_nat n") auto
  have "is_ascii_digit c" using show_nat_digits(1) [of n] cr by simp
  then have "c \<noteq> CHR ''+''" by (auto simp: is_ascii_digit_def in_interval_def bval_def)
  with cr have "(case show_nat n of c # r \<Rightarrow> if c = CHR ''+'' then r else show_nat n | [] \<Rightarrow> []) = show_nat n"
    by simp
  then show ?thesis
    unfolding parse_unsigned_def using show_nat_digits [of n] assms by (simp add: Let_def)
qed

end
