(* ===== verification/Sql_Lexer.thy ===== *)
theory Sql_Lexer
  imports DG_Prelude
begin

text \<open>
  The chunk lexer of \<open>crates/datagrep-lang/src/sql/lexer.rs\<close>: it cuts a statement text
  into code, quoted and comment chunks.  Everything else of the SQL front end (splitter,
  classifier, highlighter, references) reads only the code chunks, so what this theory
  proves is that the chunks tile the source in order, that a code chunk never holds the
  start of a string or comment, and by how much a chunk may run past the text.
\<close>

section \<open>Data\<close>

datatype sql_dialect = Postgres | Mysql | Sqlite | Mssql | Clickhouse | Duckdb

datatype quote_kind = SingleString | DoubleIdent | Backtick | Bracket | DollarQuote

datatype chunk =
    Code nat nat
  | Quoted nat nat quote_kind
  | Comment nat nat

fun chunk_range :: "chunk \<Rightarrow> byte_range" where
  "chunk_range (Code a b) = (a, b)"
| "chunk_range (Quoted a b _) = (a, b)"
| "chunk_range (Comment a b) = (a, b)"

fun is_code :: "chunk \<Rightarrow> bool" where
  "is_code (Code _ _) = True"
| "is_code _ = False"

section \<open>Scanners\<close>

text \<open>The loop of \<open>scan_simple_quoted\<close>, from index \<open>i\<close>.\<close>

function scan_quoted_from :: "string \<Rightarrow> nat \<Rightarrow> char \<Rightarrow> bool \<Rightarrow> nat" where
  "scan_quoted_from bs i q esc =
     (if i < length bs then
        if esc \<and> bs ! i = backslash then scan_quoted_from bs (i + 2) q esc
        else if bs ! i = q then
          if byte_at bs (i + 1) = Some q then scan_quoted_from bs (i + 2) q esc else i + 1
        else scan_quoted_from bs (i + 1) q esc
      else i)"
  by pat_completeness auto
termination
  by (relation "measure (\<lambda>(bs, i, q, esc). length bs - i)") auto

definition scan_simple_quoted :: "string \<Rightarrow> nat \<Rightarrow> char \<Rightarrow> bool \<Rightarrow> nat" where
  "scan_simple_quoted bs start q esc = scan_quoted_from bs (start + 1) q esc"

definition scan_bracket_quoted :: "string \<Rightarrow> nat \<Rightarrow> nat" where
  "scan_bracket_quoted bs start = scan_quoted_from bs (start + 1) (CHR '']'') False"

function scan_line_comment :: "string \<Rightarrow> nat \<Rightarrow> nat" where
  "scan_line_comment bs i =
     (if i < length bs \<and> bs ! i \<noteq> newline then scan_line_comment bs (i + 1) else i)"
  by pat_completeness auto
termination
  by (relation "measure (\<lambda>(bs, i). length bs - i)") auto

text \<open>The loop of \<open>scan_block_comment\<close>; \<open>depth\<close> counts the comments still open.\<close>

function scan_block_from :: "string \<Rightarrow> nat \<Rightarrow> nat \<Rightarrow> bool \<Rightarrow> nat" where
  "scan_block_from bs i depth nest =
     (if i < length bs then
        if bs ! i = CHR ''*'' \<and> byte_at bs (i + 1) = Some (CHR ''/'') then
          if depth - 1 = 0 then i + 2 else scan_block_from bs (i + 2) (depth - 1) nest
        else if nest \<and> bs ! i = CHR ''/'' \<and> byte_at bs (i + 1) = Some (CHR ''*'') then
          scan_block_from bs (i + 2) (depth + 1) nest
        else scan_block_from bs (i + 1) depth nest
      else i)"
  by pat_completeness auto
termination
  by (relation "measure (\<lambda>(bs, i, d, n). length bs - i)") auto

definition scan_block_comment :: "string \<Rightarrow> nat \<Rightarrow> bool \<Rightarrow> nat" where
  "scan_block_comment bs start nest = scan_block_from bs (start + 2) 1 nest"

definition is_dollar_tag_start :: "char \<Rightarrow> bool" where
  "is_dollar_tag_start b = (is_ascii_alphabetic b \<or> b = CHR ''_'' \<or> is_non_ascii b)"

definition is_dollar_tag_continue :: "char \<Rightarrow> bool" where
  "is_dollar_tag_continue b = (is_dollar_tag_start b \<or> is_ascii_digit b)"

function skip_dollar_tag :: "string \<Rightarrow> nat \<Rightarrow> nat" where
  "skip_dollar_tag bs j =
     (if j < length bs \<and> is_dollar_tag_continue (bs ! j) then skip_dollar_tag bs (j + 1) else j)"
  by pat_completeness auto
termination
  by (relation "measure (\<lambda>(bs, j). length bs - j)") auto

text \<open>The search for the closing \<open>$tag$\<close>, from index \<open>k\<close>.\<close>

function find_dollar_close :: "string \<Rightarrow> string \<Rightarrow> nat \<Rightarrow> nat" where
  "find_dollar_close bs tag k =
     (if k < length bs then
        if bs ! k = CHR ''$'' \<and> k + 1 + length tag < length bs
           \<and> slice bs (k + 1) (k + 1 + length tag) = tag
           \<and> bs ! (k + 1 + length tag) = CHR ''$''
        then k + 1 + length tag + 1
        else find_dollar_close bs tag (k + 1)
      else length bs)"
  by pat_completeness auto
termination
  by (relation "measure (\<lambda>(bs, t, k). length bs - k)") auto

declare scan_quoted_from.simps [simp del] scan_line_comment.simps [simp del]
  scan_block_from.simps [simp del] skip_dollar_tag.simps [simp del]
  find_dollar_close.simps [simp del]

text \<open>
  \<open>try_scan_dollar_quote\<close>: the end of the opening tag and of the whole literal, or
  \<open>None\<close> when the dollar opens nothing (a bind parameter such as \<open>$1\<close>).
\<close>

definition try_scan_dollar_quote :: "string \<Rightarrow> nat \<Rightarrow> (nat \<times> nat) option" where
  "try_scan_dollar_quote bs start =
     (let j0 = start + 1;
          after_tag =
            (if byte_at bs j0 = Some (CHR ''$'') then Some j0
             else case byte_at bs j0 of
                    None \<Rightarrow> None
                  | Some b \<Rightarrow>
                      if \<not> is_dollar_tag_start b then None
                      else let j = skip_dollar_tag bs (j0 + 1)
                           in if byte_at bs j = Some (CHR ''$'') then Some j else None)
      in case after_tag of
           None \<Rightarrow> None
         | Some j \<Rightarrow>
             Some (j + 1, find_dollar_close bs (slice bs (start + 1) j) (j + 1)))"

section \<open>The lexer loop\<close>

text \<open>
  One turn of the \<open>match bytes[i]\<close> of \<open>lex_chunks\<close>: the end of the chunk that starts at
  \<open>i\<close> and the chunk itself, or \<open>None\<close> when the byte is code.
\<close>

definition lex_at :: "string \<Rightarrow> sql_dialect \<Rightarrow> nat \<Rightarrow> (nat \<times> chunk) option" where
  "lex_at bs d i =
     (let b = bs ! i in
      if b = quote_char then
        let e = scan_simple_quoted bs i quote_char (d = Mysql) in Some (e, Quoted i e SingleString)
      else if b = dquote then
        let e = scan_simple_quoted bs i dquote (d = Mysql) in Some (e, Quoted i e DoubleIdent)
      else if b = backtick \<and> d = Mysql then
        let e = scan_simple_quoted bs i backtick False in Some (e, Quoted i e Backtick)
      else if b = CHR ''['' \<and> (d = Sqlite \<or> d = Mssql) then
        let e = scan_bracket_quoted bs i in Some (e, Quoted i e Bracket)
      else if b = CHR ''-'' \<and> byte_at bs (i + 1) = Some (CHR ''-'') then
        let e = scan_line_comment bs i in Some (e, Comment i e)
      else if b = CHR ''#'' \<and> d = Mysql then
        let e = scan_line_comment bs i in Some (e, Comment i e)
      else if b = CHR ''/'' \<and> byte_at bs (i + 1) = Some (CHR ''*'') then
        let e = scan_block_comment bs i (d = Postgres) in Some (e, Comment i e)
      else if b = CHR ''$'' \<and> d = Postgres then
        case try_scan_dollar_quote bs i of
          Some (tag_end, e) \<Rightarrow> Some (e, Quoted i e DollarQuote)
        | None \<Rightarrow> None
      else None)"

definition flush_code :: "nat \<Rightarrow> nat \<Rightarrow> chunk list" where
  "flush_code code_start e = (if code_start < e then [Code code_start e] else [])"

section \<open>Every scanner moves forward\<close>

lemma scan_quoted_from_ge [scan_simps]: "i \<le> scan_quoted_from bs i q esc"
proof (induction bs i q esc rule: scan_quoted_from.induct)
  case (1 bs i q esc)
  then show ?case by (subst scan_quoted_from.simps) auto
qed

lemma scan_quoted_from_le:
  "i \<le> length bs + 1 \<Longrightarrow> scan_quoted_from bs i q esc \<le> length bs + 1"
proof (induction bs i q esc rule: scan_quoted_from.induct)
  case (1 bs i q esc)
  then show ?case by (subst scan_quoted_from.simps) auto
qed

lemma scan_quoted_from_plain_le:
  "i \<le> length bs \<Longrightarrow> scan_quoted_from bs i q False \<le> length bs"
proof (induction bs i q "False" rule: scan_quoted_from.induct)
  case (1 bs i q)
  then show ?case by (subst scan_quoted_from.simps) (auto simp: byte_at_Some)
qed

lemma scan_line_comment_ge: "i \<le> scan_line_comment bs i"
proof (induction bs i rule: scan_line_comment.induct)
  case (1 bs i)
  then show ?case by (subst scan_line_comment.simps) auto
qed

lemma scan_line_comment_le: "i \<le> length bs \<Longrightarrow> scan_line_comment bs i \<le> length bs"
proof (induction bs i rule: scan_line_comment.induct)
  case (1 bs i)
  then show ?case by (subst scan_line_comment.simps) auto
qed

lemma scan_line_comment_gt:
  "i < length bs \<Longrightarrow> bs ! i \<noteq> newline \<Longrightarrow> i < scan_line_comment bs i"
  using scan_line_comment_ge [of "i + 1" bs] by (subst scan_line_comment.simps) auto

lemma scan_block_from_ge: "i \<le> scan_block_from bs i depth nest"
proof (induction bs i depth nest rule: scan_block_from.induct)
  case (1 bs i depth nest)
  then show ?case by (subst scan_block_from.simps) auto
qed

lemma scan_block_from_le: "i \<le> length bs \<Longrightarrow> scan_block_from bs i depth nest \<le> length bs"
proof (induction bs i depth nest rule: scan_block_from.induct)
  case (1 bs i depth nest)
  then show ?case by (subst scan_block_from.simps) (auto simp: byte_at_Some)
qed

lemma skip_dollar_tag_ge: "j \<le> skip_dollar_tag bs j"
proof (induction bs j rule: skip_dollar_tag.induct)
  case (1 bs j)
  then show ?case by (subst skip_dollar_tag.simps) auto
qed

lemma find_dollar_close_le:
  "k \<le> length bs \<Longrightarrow> k \<le> find_dollar_close bs tag k \<and> find_dollar_close bs tag k \<le> length bs"
proof (induction bs tag k rule: find_dollar_close.induct)
  case (1 bs tag k)
  then show ?case by (subst find_dollar_close.simps, subst find_dollar_close.simps) auto
qed

lemma try_scan_dollar_quote_bounds:
  assumes "try_scan_dollar_quote bs i = Some (t, e)"
  shows "i < e \<and> e \<le> length bs"
proof -
  from assms obtain j where j: "byte_at bs j = Some (CHR ''$'')" "i + 1 \<le> j"
    and e: "e = find_dollar_close bs (slice bs (i + 1) j) (j + 1)"
    using skip_dollar_tag_ge [of "i + 2" bs]
    by (auto simp: try_scan_dollar_quote_def Let_def split: if_splits option.splits)
  then show ?thesis using find_dollar_close_le [of "j + 1" bs "slice bs (i + 1) j"] by (simp add: byte_at_Some)
qed

text \<open>How far past the text a chunk may end: one byte, in MySQL, where a backslash escape
  skips two bytes without looking.\<close>

definition overrun :: "sql_dialect \<Rightarrow> nat" where
  "overrun d = (if d = Mysql then 1 else 0)"

lemma lex_at_end:
  assumes "lex_at bs d i = Some (e, c)" and "i < length bs"
  shows "i < e \<and> e \<le> length bs + overrun d \<and> chunk_range c = (i, e) \<and> \<not> is_code c"
proof -
  have quoted: "i < scan_simple_quoted bs i q esc
      \<and> scan_simple_quoted bs i q esc \<le> length bs + (if esc then 1 else 0)" for q esc
    using scan_quoted_from_ge [of "i + 1" bs q esc] scan_quoted_from_le [of "i + 1" bs q esc]
      scan_quoted_from_plain_le [of "i + 1" bs q] assms(2)
    by (cases esc) (auto simp: scan_simple_quoted_def)
  have bracket: "i < scan_bracket_quoted bs i \<and> scan_bracket_quoted bs i \<le> length bs"
    using quoted [of "CHR '']''" False] by (simp add: scan_bracket_quoted_def scan_simple_quoted_def)
  have line: "i < scan_line_comment bs i \<and> scan_line_comment bs i \<le> length bs"
    if "bs ! i \<noteq> newline"
    using that assms(2) scan_line_comment_gt [of i bs] scan_line_comment_le [of i bs] by simp
  have block: "i < scan_block_comment bs i nest \<and> scan_block_comment bs i nest \<le> length bs"
    if "byte_at bs (i + 1) = Some x" for nest x
    using that scan_block_from_ge [of "i + 2" bs 1 nest] scan_block_from_le [of "i + 2" bs 1 nest]
    by (auto simp: byte_at_Some scan_block_comment_def)
  have q1: "i < scan_simple_quoted bs i q (d = Mysql)
      \<and> scan_simple_quoted bs i q (d = Mysql) \<le> length bs + overrun d" for q
    using quoted [of q "d = Mysql"] by (simp add: overrun_def)
  note bounds = q1 quoted bracket line block try_scan_dollar_quote_bounds
  show ?thesis
    using assms(1) q1 quoted [of backtick False] bracket line block [of "CHR ''*''"]
    by (auto simp: lex_at_def Let_def le_trans [OF _ le_add1] dest!: try_scan_dollar_quote_bounds
        split: if_splits option.splits)
qed

function lex_loop :: "string \<Rightarrow> sql_dialect \<Rightarrow> nat \<Rightarrow> nat \<Rightarrow> chunk list" where
  "lex_loop bs d code_start i =
     (if i < length bs then
        case lex_at bs d i of
          None \<Rightarrow> lex_loop bs d code_start (i + 1)
        | Some (e, c) \<Rightarrow> flush_code code_start i @ c # lex_loop bs d e e
      else flush_code code_start (length bs))"
  by pat_completeness auto
termination
  by (relation "measure (\<lambda>(bs, d, s, i). length bs - i)") (auto dest: lex_at_end)

declare lex_loop.simps [simp del]

definition lex_chunks :: "string \<Rightarrow> sql_dialect \<Rightarrow> chunk list" where
  "lex_chunks bs d = lex_loop bs d 0 0"

section \<open>What the lexer promises\<close>

text \<open>A chunk list that covers the interval from \<open>a\<close> to \<open>b\<close> without gaps or overlaps,
  with no empty chunk.\<close>

fun tiles :: "nat \<Rightarrow> nat \<Rightarrow> chunk list \<Rightarrow> bool" where
  "tiles a b [] = (a = b)"
| "tiles a b (c # cs) =
     (fst (chunk_range c) = a \<and> a < snd (chunk_range c) \<and> tiles (snd (chunk_range c)) b cs)"

text \<open>
  The abstract specification: from position \<open>a\<close>, a code chunk holds only positions where
  no quote or comment begins and is not followed by another code chunk, and every other
  chunk is the one \<open>lex_at\<close> recognises at its first byte.
\<close>

fun lexed :: "string \<Rightarrow> sql_dialect \<Rightarrow> nat \<Rightarrow> chunk list \<Rightarrow> bool" where
  "lexed bs d a [] = (length bs \<le> a)"
| "lexed bs d a (Code x y # cs) =
     (x = a \<and> a < y \<and> y \<le> length bs \<and> (\<forall>i \<in> {a..<y}. lex_at bs d i = None)
      \<and> (cs = [] \<or> \<not> is_code (hd cs)) \<and> lexed bs d y cs)"
| "lexed bs d a (c # cs) =
     (a < length bs \<and> (\<exists>e. lex_at bs d a = Some (e, c) \<and> lexed bs d e cs))"

lemmas lexed_induct = lexed.induct [case_names nil code quoted comment]

lemma lexed_noncode:
  "\<not> is_code c \<Longrightarrow> lexed bs d a (c # cs)
     = (a < length bs \<and> (\<exists>e. lex_at bs d a = Some (e, c) \<and> lexed bs d e cs))"
  by (cases c) auto

lemma lex_loop_lexed:
  assumes "code_start \<le> i" and "i \<le> length bs \<or> code_start = i"
    and "\<forall>j \<in> {code_start..<i}. lex_at bs d j = None"
  shows "lexed bs d code_start (lex_loop bs d code_start i)"
  using assms
proof (induction bs d code_start i rule: lex_loop.induct)
  case (1 bs d s i)
  show ?case
  proof (cases "i < length bs")
    case False
    with 1 show ?thesis
      by (subst lex_loop.simps) (auto simp: flush_code_def)
  next
    case True
    show ?thesis
    proof (cases "lex_at bs d i")
      case None
      have "lexed bs d s (lex_loop bs d s (i + 1))"
        using "1.prems" True None by (intro "1.IH"(1)) (auto simp: less_Suc_eq)
      with True None show ?thesis by (subst lex_loop.simps) simp
    next
      case (Some r)
      then obtain e c where r: "lex_at bs d i = Some (e, c)" by (cases r) auto
      with True have nc: "\<not> is_code c" by (auto dest: lex_at_end)
      have "lexed bs d e (lex_loop bs d e e)"
        using True r by (intro "1.IH"(2)) auto
      with True r nc have rest: "lexed bs d i (c # lex_loop bs d e e)"
        by (auto simp: lexed_noncode)
      with True r nc "1.prems" show ?thesis
        by (subst lex_loop.simps) (auto simp: flush_code_def)
    qed
  qed
qed

lemma lex_loop_skip:
  "a \<le> y \<Longrightarrow> y \<le> length bs \<Longrightarrow> \<forall>j \<in> {a..<y}. lex_at bs d j = None
   \<Longrightarrow> lex_loop bs d s a = lex_loop bs d s y"
proof (induction "y - a" arbitrary: a)
  case 0
  then show ?case by simp
next
  case (Suc n)
  from Suc(2-) have "a < length bs" "lex_at bs d a = None" by auto
  then have "lex_loop bs d s a = lex_loop bs d s (a + 1)"
    by (subst lex_loop.simps) simp
  moreover from Suc(2-) have "lex_loop bs d s (a + 1) = lex_loop bs d s y"
    by (intro Suc(1)) auto
  ultimately show ?case by simp
qed

lemma lexed_unique: "lexed bs d a cs \<Longrightarrow> cs = lex_loop bs d a a"
proof (induction bs d a cs rule: lexed_induct)
  case (nil bs d a)
  then show ?case by (subst lex_loop.simps) (simp add: flush_code_def)
next
  case (code bs d a x y cs)
  then have rest: "lexed bs d y cs" and IH: "cs = lex_loop bs d y y" by auto
  from code(2) have skip: "lex_loop bs d a a = lex_loop bs d a y" and "x = a" "a < y"
    by (auto intro: lex_loop_skip)
  have "Code a y # cs = lex_loop bs d a y"
  proof (cases cs)
    case Nil
    with rest code(2) show ?thesis by (subst lex_loop.simps) (auto simp: flush_code_def)
  next
    case (Cons c cs')
    with code(2) have nc: "\<not> is_code c" by simp
    with rest Cons obtain e where e: "y < length bs" "lex_at bs d y = Some (e, c)" "lexed bs d e cs'"
      by (auto simp: lexed_noncode)
    have "lex_loop bs d y y = c # lex_loop bs d e e"
      using e(1,2) by (subst lex_loop.simps) (simp add: flush_code_def)
    moreover have "lex_loop bs d a y = Code a y # c # lex_loop bs d e e"
      using e(1,2) \<open>a < y\<close> by (subst lex_loop.simps) (simp add: flush_code_def)
    ultimately show ?thesis using IH by simp
  qed
  with skip \<open>x = a\<close> show ?case by simp
next
  case (quoted bs d a u v q cs)
  then obtain e where e: "a < length bs" "lex_at bs d a = Some (e, Quoted u v q)" "lexed bs d e cs"
    by auto
  with quoted have "cs = lex_loop bs d e e" by simp
  with e show ?case by (subst lex_loop.simps) (simp add: flush_code_def)
next
  case (comment bs d a u v cs)
  then obtain e where e: "a < length bs" "lex_at bs d a = Some (e, Comment u v)" "lexed bs d e cs"
    by auto
  with comment have "cs = lex_loop bs d e e" by simp
  with e show ?case by (subst lex_loop.simps) (simp add: flush_code_def)
qed

lemma lex_chunks_lexed: "lexed bs d 0 (lex_chunks bs d)"
  unfolding lex_chunks_def by (rule lex_loop_lexed) auto

lemma lexed_tiles:
  "lexed bs d a cs \<Longrightarrow> a \<le> length bs + overrun d
   \<Longrightarrow> \<exists>e. tiles a e cs \<and> length bs \<le> e \<and> e \<le> length bs + overrun d"
proof (induction bs d a cs rule: lexed_induct)
  case (quoted bs d a u v q cs)
  then show ?case by (auto dest: lex_at_end)
next
  case (comment bs d a u v cs)
  then show ?case by (auto dest: lex_at_end)
qed auto

lemma lexed_members:
  assumes "lexed bs d a cs" and "c \<in> set cs"
  shows "(is_code c \<longrightarrow> a \<le> fst (chunk_range c) \<and> snd (chunk_range c) \<le> length bs
            \<and> (\<forall>i \<in> {fst (chunk_range c)..<snd (chunk_range c)}. lex_at bs d i = None))
       \<and> (\<not> is_code c \<longrightarrow> fst (chunk_range c) < length bs
            \<and> lex_at bs d (fst (chunk_range c)) = Some (snd (chunk_range c), c))"
  using assms
proof (induction bs d a cs rule: lexed_induct)
  case (quoted bs d a u v q cs)
  then obtain e where e: "a < length bs" "lex_at bs d a = Some (e, Quoted u v q)" "lexed bs d e cs"
    by auto
  with lex_at_end [OF e(2,1)] quoted show ?case by fastforce
next
  case (comment bs d a u v cs)
  then obtain e where e: "a < length bs" "lex_at bs d a = Some (e, Comment u v)" "lexed bs d e cs"
    by auto
  with lex_at_end [OF e(2,1)] comment show ?case by fastforce
qed auto

text \<open>
  The chunks of \<open>lex_chunks\<close> tile the statement: they are non-empty, follow one
  another without gap or overlap from byte 0, and end at the end of the text, or, in the
  MySQL dialect only, at most one byte past it (an unterminated string that ends in a
  backslash).
\<close>

theorem lex_chunks_tile:
  "\<exists>e. tiles 0 e (lex_chunks src d) \<and> length src \<le> e
     \<and> e \<le> length src + (if d = Mysql then 1 else 0)"
  using lexed_tiles [OF lex_chunks_lexed] by (simp add: overrun_def)

text \<open>
  \<open>lex_chunks\<close> computes the one and only chunk list that meets \<open>lexed\<close>, which speaks of
  \<open>lex_at\<close>; the theory \<open>Sql_Lexical\<close> replaces \<open>lex_at\<close> by a grammar.
\<close>

lemma lex_chunks_lexed_iff: "lexed src d 0 cs \<longleftrightarrow> cs = lex_chunks src d"
  using lexed_unique [of src d 0 cs] lex_chunks_lexed [of src d] by (auto simp: lex_chunks_def)

text \<open>
  No byte of a code chunk opens a string, a quoted identifier or a comment of the
  dialect, so text inside quotes or comments is never read as code.
\<close>

theorem lex_chunks_code_safe:
  assumes "Code a b \<in> set (lex_chunks src d)" and "a \<le> i" and "i < b"
  shows "i < length src \<and> src ! i \<noteq> quote_char \<and> src ! i \<noteq> dquote
    \<and> (d = Mysql \<longrightarrow> src ! i \<noteq> backtick \<and> src ! i \<noteq> CHR ''#'')
    \<and> (d = Sqlite \<or> d = Mssql \<longrightarrow> src ! i \<noteq> CHR ''['')
    \<and> \<not> (src ! i = CHR ''-'' \<and> byte_at src (i + 1) = Some (CHR ''-''))
    \<and> \<not> (src ! i = CHR ''/'' \<and> byte_at src (i + 1) = Some (CHR ''*''))"
proof -
  have "lex_at src d i = None" "i < length src"
    using lexed_members [OF lex_chunks_lexed assms(1)] assms(2,3) by auto
  then show ?thesis by (auto simp: lex_at_def Let_def split: if_splits)
qed

lemma lex_example: \<open>lex_chunks ''a "b"c'' Postgres = [Code 0 2, Quoted 2 5 DoubleIdent, Code 5 6]\<close>
  by code_simp

lemma lex_chunks_code_safe_witness: \<open>(''a "b"c'') ! 5 \<noteq> dquote\<close>
  using lex_chunks_code_safe [of 5 6 \<open>''a "b"c''\<close> Postgres 5] by (simp add: lex_example)

end
