(* ===== verification/Sql_Lexical.thy ===== *)
theory Sql_Lexical
  imports Sql_Lexer
begin

text \<open>
  The lexical grammar of the chunk lexer, stated over the remaining text and without its scanners:
  what a quoted text, a comment and a dollar-quoted text are, as concatenations of pieces, and where
  one that is not closed ends.  The lexer of \<open>crates/datagrep-lang/src/sql/lexer.rs\<close> is shown to cut
  a text exactly as the grammar does.
\<close>

section \<open>The grammar\<close>

text \<open>
  What is quoted by \<open>q\<close> is a sequence of pieces, which are other characters, the quote written twice
  and, where backslashes escape, a backslash with the character after it.  It ends with a quote that
  is not followed by another, or with the text; a backslash that is the last byte of the text takes
  the byte after it along.
\<close>

definition quoted_piece :: "char \<Rightarrow> bool \<Rightarrow> string \<Rightarrow> bool" where
  "quoted_piece q esc p =
     (p = [q, q] \<or> (\<exists>c. p = [c] \<and> c \<noteq> q \<and> (esc \<longrightarrow> c \<noteq> backslash)) \<or> (esc \<and> (\<exists>c. p = [backslash, c])))"

definition quoted_until :: "char \<Rightarrow> bool \<Rightarrow> string \<Rightarrow> nat \<Rightarrow> bool" where
  "quoted_until q esc t n =
     (\<exists>ps. list_all (quoted_piece q esc) ps
        \<and> ((\<exists>r. t = concat ps @ q # r \<and> (r = [] \<or> hd r \<noteq> q) \<and> n = length (concat ps) + 1)
           \<or> t = concat ps \<and> n = length t
           \<or> esc \<and> t = concat ps @ [backslash] \<and> n = length t + 1))"

text \<open>A line comment ends before the line feed.\<close>

definition line_until :: "string \<Rightarrow> nat \<Rightarrow> bool" where
  "line_until t n = (\<exists>c r. t = c @ r \<and> newline \<notin> set c \<and> (r = [] \<or> hd r = newline) \<and> n = length c)"

text \<open>What ends with the first \<open>w\<close>, or with the text when there is none.\<close>

definition occurs :: "string \<Rightarrow> string \<Rightarrow> bool" where
  "occurs w t = (\<exists>u v. t = u @ w @ v)"

definition first_until :: "string \<Rightarrow> string \<Rightarrow> nat \<Rightarrow> bool" where
  "first_until w t n =
     ((\<exists>u r. t = u @ w @ r \<and> \<not> occurs w (u @ butlast w) \<and> n = length u + length w)
      \<or> \<not> occurs w t \<and> n = length t)"

text \<open>
  The inside of a comment that nests: comments, and characters that begin neither a comment nor
  the end of one.
\<close>

inductive nested_body :: "string \<Rightarrow> bool" where
  nested_empty: "nested_body []"
| nested_char: "nested_body b \<Longrightarrow> \<not> starts_with (c # b @ ''*/'') ''*/'' \<Longrightarrow> \<not> starts_with (c # b @ ''*/'') ''/*''
    \<Longrightarrow> nested_body (c # b)"
| nested_comment: "nested_body a \<Longrightarrow> nested_body b \<Longrightarrow> nested_body (''/*'' @ a @ ''*/'' @ b)"

definition nested_until :: "string \<Rightarrow> nat \<Rightarrow> bool" where
  "nested_until t n =
     ((\<exists>b r. nested_body b \<and> t = b @ ''*/'' @ r \<and> n = length b + 2)
      \<or> (\<forall>b r. nested_body b \<longrightarrow> t \<noteq> b @ ''*/'' @ r) \<and> n = length t)"

definition dollar_tag :: "string \<Rightarrow> bool" where
  "dollar_tag tag = (tag = [] \<or> is_dollar_tag_start (hd tag) \<and> list_all is_dollar_tag_continue tag)"

text \<open>
  What begins at the head of a text in a dialect and how long it is: a quoted text of a kind, or a
  comment where there is no kind.
\<close>

definition lexeme :: "sql_dialect \<Rightarrow> string \<Rightarrow> nat \<Rightarrow> quote_kind option \<Rightarrow> bool" where
  "lexeme d t n k =
     (case k of
        Some SingleString \<Rightarrow> (\<exists>r m. t = quote_char # r \<and> quoted_until quote_char (d = Mysql) r m \<and> n = m + 1)
      | Some DoubleIdent \<Rightarrow> (\<exists>r m. t = dquote # r \<and> quoted_until dquote (d = Mysql) r m \<and> n = m + 1)
      | Some Backtick \<Rightarrow> d = Mysql \<and> (\<exists>r m. t = backtick # r \<and> quoted_until backtick False r m \<and> n = m + 1)
      | Some Bracket \<Rightarrow>
          (d = Sqlite \<or> d = Mssql) \<and> (\<exists>r m. t = CHR ''['' # r \<and> quoted_until (CHR '']'') False r m \<and> n = m + 1)
      | Some DollarQuote \<Rightarrow>
          d = Postgres \<and> (\<exists>tag r m. dollar_tag tag \<and> t = ''$'' @ tag @ ''$'' @ r
             \<and> first_until (''$'' @ tag @ ''$'') r m \<and> n = length tag + 2 + m)
      | None \<Rightarrow>
          (starts_with t ''--'' \<or> d = Mysql \<and> starts_with t ''#'') \<and> line_until t n
          \<or> (\<exists>r m. t = ''/*'' @ r \<and> (if d = Postgres then nested_until r m else first_until ''*/'' r m) \<and> n = m + 2))"

text \<open>
  A list of chunks for the text from position \<open>a\<close>: code chunks are not empty, hold no position where
  something begins and do not follow each other; every other chunk is what begins at its first
  byte, in its full length.
\<close>

fun lexical :: "string \<Rightarrow> sql_dialect \<Rightarrow> nat \<Rightarrow> chunk list \<Rightarrow> bool" where
  "lexical bs d a [] = (length bs \<le> a)"
| "lexical bs d a (Code x y # cs) =
     (x = a \<and> a < y \<and> y \<le> length bs \<and> (\<forall>i \<in> {a..<y}. \<forall>n k. \<not> lexeme d (drop i bs) n k)
      \<and> (cs = [] \<or> \<not> is_code (hd cs)) \<and> lexical bs d y cs)"
| "lexical bs d a (Quoted x y k # cs) =
     (x = a \<and> a < length bs \<and> (\<exists>n. lexeme d (drop a bs) n (Some k) \<and> y = a + n) \<and> lexical bs d y cs)"
| "lexical bs d a (Comment x y # cs) =
     (x = a \<and> a < length bs \<and> (\<exists>n. lexeme d (drop a bs) n None \<and> y = a + n) \<and> lexical bs d y cs)"

section \<open>The scanners over the remaining text\<close>

lemma drop_head: "i < length bs \<Longrightarrow> drop i bs = bs ! i # drop (Suc i) bs"
  by (simp add: Cons_nth_drop_Suc)

lemma byte_at_drop: "byte_at bs i = (case drop i bs of [] \<Rightarrow> None | a # r \<Rightarrow> Some a)"
  by (cases "i < length bs") (simp_all add: byte_at_def drop_head)

fun quoted_len :: "char \<Rightarrow> bool \<Rightarrow> string \<Rightarrow> nat" where
  "quoted_len q esc [] = 0"
| "quoted_len q esc [a] = (if esc \<and> a = backslash then 2 else 1)"
| "quoted_len q esc (a # b # r) =
     (if esc \<and> a = backslash then 2 + quoted_len q esc r
      else if a = q then (if b = q then 2 + quoted_len q esc r else 1)
      else 1 + quoted_len q esc (b # r))"

lemma scan_quoted_len: "i \<le> length bs \<Longrightarrow> scan_quoted_from bs i q esc = i + quoted_len q esc (drop i bs)"
proof (induction bs i q esc rule: scan_quoted_from.induct)
  case (1 bs i q esc)
  show ?case
  proof (cases "drop i bs")
    case Nil
    then show ?thesis by (subst scan_quoted_from.simps) simp
  next
    case (Cons a t)
    then have i: "i < length bs" "bs ! i = a" "drop (Suc i) bs = t" "i + 1 \<le> length bs"
      using drop_head [of i bs] by (cases "i < length bs"; simp)+
    show ?thesis
    proof (cases t)
      case Nil
      with i have "length bs = i + 1" by simp
      then show ?thesis
        using i Cons Nil by (subst scan_quoted_from.simps) (simp add: byte_at_def scan_quoted_from.simps)
    next
      case (Cons b r)
      then have j: "i + 1 < length bs" "bs ! (i + 1) = b" "drop (i + 2) bs = r" "i + 2 \<le> length bs"
        using i(3) drop_head [of "Suc i" bs] by (cases "Suc i < length bs"; simp)+
      show ?thesis
        using 1 i j Cons \<open>drop i bs = a # t\<close> by (subst scan_quoted_from.simps) (simp add: byte_at_def)
    qed
  qed
qed

lemma scan_line_len: "i \<le> length bs \<Longrightarrow> scan_line_comment bs i = i + length (takeWhile (\<lambda>c. c \<noteq> newline) (drop i bs))"
proof (induction bs i rule: scan_line_comment.induct)
  case (1 bs i)
  then show ?case by (cases "i < length bs") (subst scan_line_comment.simps, simp add: drop_head)+
qed

fun block_len :: "bool \<Rightarrow> nat \<Rightarrow> string \<Rightarrow> nat" where
  "block_len nest d [] = 0"
| "block_len nest d [a] = 1"
| "block_len nest d (a # b # r) =
     (if a = CHR ''*'' \<and> b = CHR ''/'' then if d - 1 = 0 then 2 else 2 + block_len nest (d - 1) r
      else if nest \<and> a = CHR ''/'' \<and> b = CHR ''*'' then 2 + block_len nest (d + 1) r
      else 1 + block_len nest d (b # r))"

lemma scan_block_len: "i \<le> length bs \<Longrightarrow> scan_block_from bs i d nest = i + block_len nest d (drop i bs)"
proof (induction bs i d nest rule: scan_block_from.induct)
  case (1 bs i d nest)
  show ?case
  proof (cases "drop i bs")
    case Nil
    then show ?thesis by (subst scan_block_from.simps) simp
  next
    case (Cons a t)
    then have i: "i < length bs" "bs ! i = a" "drop (Suc i) bs = t" "i + 1 \<le> length bs"
      using drop_head [of i bs] by (cases "i < length bs"; simp)+
    show ?thesis
    proof (cases t)
      case Nil
      with i have "length bs = i + 1" by simp
      then show ?thesis
        using i Cons Nil by (subst scan_block_from.simps) (simp add: byte_at_def scan_block_from.simps)
    next
      case (Cons b r)
      then have j: "i + 1 < length bs" "bs ! (i + 1) = b" "drop (i + 2) bs = r" "i + 2 \<le> length bs"
        using i(3) drop_head [of "Suc i" bs] by (cases "Suc i < length bs"; simp)+
      show ?thesis
        using 1 i j Cons \<open>drop i bs = a # t\<close> by (subst scan_block_from.simps) (simp add: byte_at_def)
    qed
  qed
qed

lemma skip_tag_len: "j \<le> length bs \<Longrightarrow> skip_dollar_tag bs j = j + length (takeWhile is_dollar_tag_continue (drop j bs))"
proof (induction bs j rule: skip_dollar_tag.induct)
  case (1 bs j)
  then show ?case by (cases "j < length bs") (subst skip_dollar_tag.simps, simp add: drop_head)+
qed

fun first_len :: "string \<Rightarrow> string \<Rightarrow> nat" where
  "first_len w [] = 0"
| "first_len w (a # r) = (if starts_with (a # r) w then length w else 1 + first_len w r)"

lemma starts_with_take: "starts_with s p \<longleftrightarrow> take (length p) s = p"
  by (metis append_eq_conv_conj starts_with_iff append_take_drop_id)

lemma dollar_delimiter:
  "k < length bs \<Longrightarrow>
   (bs ! k = CHR ''$'' \<and> k + 1 + length tag < length bs \<and> slice bs (k + 1) (k + 1 + length tag) = tag
      \<and> bs ! (k + 1 + length tag) = CHR ''$'')
   \<longleftrightarrow> starts_with (drop k bs) (''$'' @ tag @ ''$'')"
proof -
  assume k: "k < length bs"
  have "starts_with (drop k bs) (''$'' @ tag @ ''$'')
      \<longleftrightarrow> bs ! k = CHR ''$'' \<and> (\<exists>r. drop (Suc k) bs = tag @ CHR ''$'' # r)"
    using k by (auto simp: starts_with_iff drop_head)
  also have "(\<exists>r. drop (Suc k) bs = tag @ CHR ''$'' # r)
      \<longleftrightarrow> k + 1 + length tag < length bs \<and> slice bs (k + 1) (k + 1 + length tag) = tag \<and> bs ! (k + 1 + length tag) = CHR ''$''"
    (is "?L \<longleftrightarrow> ?R")
  proof
    assume ?L
    then obtain r where r: "drop (Suc k) bs = tag @ CHR ''$'' # r" ..
    then have len: "Suc k + length tag < length bs"
      by (metis add_Suc_right add.commute length_Cons length_append length_drop less_add_Suc1 less_diff_conv)
    moreover have "bs ! (Suc k + length tag) = drop (Suc k) bs ! length tag" using len by simp
    ultimately show ?R using r by (simp add: slice_def)
  next
    assume R: ?R
    have "drop (Suc k) bs = take (length tag) (drop (Suc k) bs) @ drop (length tag) (drop (Suc k) bs)" by (rule append_take_drop_id [symmetric])
    also have "drop (length tag) (drop (Suc k) bs) = CHR ''$'' # drop (Suc (k + 1 + length tag)) bs"
      using R drop_head [of "k + 1 + length tag" bs] by (simp add: add.commute)
    finally show ?L using R by (auto simp: slice_def)
  qed
  finally show ?thesis by blast
qed

lemma find_dollar_len:
  "k \<le> length bs \<Longrightarrow> find_dollar_close bs tag k = k + first_len (''$'' @ tag @ ''$'') (drop k bs)"
proof (induction bs tag k rule: find_dollar_close.induct)
  case (1 bs tag k)
  show ?case
  proof (cases "k < length bs")
    case False
    with 1(2) show ?thesis by (subst find_dollar_close.simps) simp
  next
    case True
    note d = dollar_delimiter [OF True, of tag]
    have "find_dollar_close bs tag k = (if starts_with (drop k bs) (''$'' @ tag @ ''$'') then k + 1 + length tag + 1
        else find_dollar_close bs tag (k + 1))"
      using True unfolding d [symmetric] by (subst find_dollar_close.simps) simp
    moreover have "\<not> starts_with (drop k bs) (''$'' @ tag @ ''$'') \<Longrightarrow>
        find_dollar_close bs tag (k + 1) = k + 1 + first_len (''$'' @ tag @ ''$'') (drop (k + 1) bs)"
      using True 1(1) [OF True] unfolding d [symmetric] by auto
    ultimately show ?thesis using True by (simp add: drop_head del: starts_with.simps append.simps)
  qed
qed

section \<open>The scanners meet the grammar\<close>

lemma quoted_len_pieces:
  assumes "q \<noteq> backslash" "list_all (quoted_piece q esc) ps"
  shows "r = [] \<or> hd r \<noteq> q \<Longrightarrow> quoted_len q esc (concat ps @ q # r) = length (concat ps) + 1"
    "quoted_len q esc (concat ps) = length (concat ps)"
    "esc \<Longrightarrow> quoted_len q esc (concat ps @ [backslash]) = length (concat ps) + 2"
proof -
  have one: "quoted_len q esc (c # t) = 1 + quoted_len q esc t" if "c \<noteq> q" "esc \<longrightarrow> c \<noteq> backslash" for c t
    using that by (cases t) auto
  have piece: "quoted_len q esc (p @ t) = length p + quoted_len q esc t" if "quoted_piece q esc p" for p t
    using that assms(1) one by (auto simp: quoted_piece_def)
  have all: "quoted_len q esc (concat ps @ t) = length (concat ps) + quoted_len q esc t" for t
    using assms(2) by (induction ps) (simp_all add: piece)
  show "r = [] \<or> hd r \<noteq> q \<Longrightarrow> quoted_len q esc (concat ps @ q # r) = length (concat ps) + 1"
    using assms(1) by (cases r) (auto simp: all)
  show "quoted_len q esc (concat ps) = length (concat ps)" using all [of "[]"] by simp
  show "esc \<Longrightarrow> quoted_len q esc (concat ps @ [backslash]) = length (concat ps) + 2"
    using all [of "[backslash]"] by simp
qed

lemma quoted_until_piece:
  assumes "quoted_until q esc t n" "quoted_piece q esc p"
  shows "quoted_until q esc (p @ t) (length p + n)"
proof -
  from assms(1) obtain ps where ps: "list_all (quoted_piece q esc) ps" and
    ends: "(\<exists>r. t = concat ps @ q # r \<and> (r = [] \<or> hd r \<noteq> q) \<and> n = length (concat ps) + 1)
      \<or> t = concat ps \<and> n = length t \<or> esc \<and> t = concat ps @ [backslash] \<and> n = length t + 1"
    unfolding quoted_until_def by blast
  show ?thesis unfolding quoted_until_def
    using ps ends assms(2) by (intro exI [of _ "p # ps"]) auto
qed

lemma quoted_until_iff:
  assumes "q \<noteq> backslash"
  shows "quoted_until q esc t n \<longleftrightarrow> n = quoted_len q esc t"
proof
  assume "quoted_until q esc t n"
  then obtain ps where ps: "list_all (quoted_piece q esc) ps" and
    "(\<exists>r. t = concat ps @ q # r \<and> (r = [] \<or> hd r \<noteq> q) \<and> n = length (concat ps) + 1)
      \<or> t = concat ps \<and> n = length t \<or> esc \<and> t = concat ps @ [backslash] \<and> n = length t + 1"
    unfolding quoted_until_def by blast
  then consider r where "t = concat ps @ q # r" "r = [] \<or> hd r \<noteq> q" "n = length (concat ps) + 1"
    | "t = concat ps" "n = length t" | esc "t = concat ps @ [backslash]" "n = length t + 1" by blast
  then show "n = quoted_len q esc t"
  proof cases
    case 3
    then show ?thesis using quoted_len_pieces(3) [OF assms ps] by simp
  qed (simp_all only: quoted_len_pieces(1,2) [OF assms ps])
next
  have "quoted_until q esc t (quoted_len q esc t)"
  proof (induction q esc t rule: quoted_len.induct)
    case (1 q esc)
    show ?case unfolding quoted_until_def by (intro exI [of _ "[]"]) simp
  next
    case (2 q esc a)
    show ?case
    proof (cases "esc \<and> a = backslash \<or> a = q")
      case True
      then show ?thesis unfolding quoted_until_def by (intro exI [of _ "[]"]) auto
    next
      case False
      then show ?thesis unfolding quoted_until_def by (intro exI [of _ "[[a]]"]) (auto simp: quoted_piece_def)
    qed
  next
    case (3 q esc a b r)
    consider "esc" "a = backslash" | "\<not> (esc \<and> a = backslash)" "a = q" "b = q"
      | "\<not> (esc \<and> a = backslash)" "a = q" "b \<noteq> q" | "\<not> (esc \<and> a = backslash)" "a \<noteq> q" by blast
    then show ?case
    proof cases
      case 1
      with 3(1) quoted_until_piece [of q esc r _ "[backslash, b]"] show ?thesis by (simp add: quoted_piece_def)
    next
      case 2
      with 3(2) quoted_until_piece [of q esc r _ "[q, q]"] show ?thesis by (auto simp: quoted_piece_def)
    next
      case 3
      then show ?thesis unfolding quoted_until_def by (intro exI [of _ "[]"]) simp
    next
      case 4
      with 3(3) quoted_until_piece [of q esc "b # r" _ "[a]"] show ?thesis by (auto simp: quoted_piece_def)
    qed
  qed
  then show "n = quoted_len q esc t \<Longrightarrow> quoted_until q esc t n" by simp
qed

lemma line_until_iff: "line_until t n \<longleftrightarrow> n = length (takeWhile (\<lambda>c. c \<noteq> newline) t)"
proof
  assume "line_until t n"
  then obtain c r where c: "t = c @ r" "newline \<notin> set c" "r = [] \<or> hd r = newline" "n = length c"
    unfolding line_until_def by blast
  have "takeWhile (\<lambda>c. c \<noteq> newline) (c @ r) = c @ takeWhile (\<lambda>c. c \<noteq> newline) r"
    using c(2) by (intro takeWhile_append2) blast
  moreover have "takeWhile (\<lambda>c. c \<noteq> newline) r = []" using c(3) by (cases r) simp_all
  ultimately show "n = length (takeWhile (\<lambda>c. c \<noteq> newline) t)" unfolding c(1,4) by simp
next
  let ?c = "takeWhile (\<lambda>c. c \<noteq> newline) t" and ?r = "dropWhile (\<lambda>c. c \<noteq> newline) t"
  assume n: "n = length ?c"
  have "newline \<notin> set ?c" using set_takeWhileD [of newline "\<lambda>c. c \<noteq> newline" t] by blast
  moreover have "?r = [] \<or> hd ?r = newline" using hd_dropWhile [of "\<lambda>c. c \<noteq> newline" t] by blast
  moreover have "t = ?c @ ?r" by (rule takeWhile_dropWhile_id [symmetric])
  ultimately have "t = ?c @ ?r \<and> newline \<notin> set ?c \<and> (?r = [] \<or> hd ?r = newline) \<and> n = length ?c"
    using n by (intro conjI)
  then show "line_until t n" unfolding line_until_def by (rule exI [of _ ?r, THEN exI [of _ ?c]])
qed

lemma occurs_Cons: "occurs w (a # t) \<longleftrightarrow> starts_with (a # t) w \<or> occurs w t"
proof
  assume "occurs w (a # t)"
  then obtain u v where "a # t = u @ w @ v" unfolding occurs_def by blast
  then show "starts_with (a # t) w \<or> occurs w t"
    by (cases u) (auto simp: starts_with_iff occurs_def simp del: starts_with.simps)
next
  assume "starts_with (a # t) w \<or> occurs w t"
  then show "occurs w (a # t)"
    unfolding occurs_def starts_with_iff by (metis append_Cons append_Nil)
qed

lemma starts_occurs: "starts_with t w \<Longrightarrow> occurs w t"
  unfolding starts_with_iff occurs_def by (metis append_Nil)

lemma occurs_Nil: "occurs w [] \<longleftrightarrow> w = []"
  by (simp add: occurs_def)

lemma starts_with_butlast:
  assumes "w \<noteq> []" "u \<noteq> []" "starts_with (u @ w @ r) w"
  shows "starts_with (u @ butlast w) w"
proof -
  have "length w \<le> length (u @ butlast w)" using assms(2) by (cases u) simp_all
  moreover have "u @ w @ r = (u @ butlast w) @ last w # r"
    by (metis assms(1) append.assoc append_Cons append_Nil append_butlast_last_id)
  ultimately show ?thesis using assms(3) unfolding starts_with_take by (metis take_append append_Nil2 diff_is_0_eq take0)
qed

lemma first_until_iff:
  assumes "w \<noteq> []"
  shows "first_until w t n \<longleftrightarrow> n = first_len w t"
proof (induction t arbitrary: n)
  case Nil
  with assms show ?case by (auto simp: first_until_def occurs_Nil)
next
  case (Cons a t)
  show ?case
  proof (cases "starts_with (a # t) w")
    case True
    have u: "u = []" if "a # t = u @ w @ r" "\<not> occurs w (u @ butlast w)" for u r
      using that True starts_with_butlast [OF assms, of u r] starts_occurs by metis
    from True obtain r where r: "a # t = w @ r" by (auto simp: starts_with_iff)
    have "\<not> occurs w (butlast w)"
      using assms by (cases w) (auto simp: occurs_def dest!: arg_cong [of _ _ length])
    then have "first_until w (a # t) n \<longleftrightarrow> n = length w"
      unfolding first_until_def using u r starts_occurs [OF True] by (metis append_Nil list.size(3) add_0)
    with True show ?thesis by simp
  next
    case False
    have "first_until w (a # t) n \<longleftrightarrow> (\<exists>m. n = Suc m \<and> first_until w t m)"
    proof
      assume "first_until w (a # t) n"
      then consider u r where "a # t = u @ w @ r" "\<not> occurs w (u @ butlast w)" "n = length u + length w"
        | "\<not> occurs w (a # t)" "n = length (a # t)" unfolding first_until_def by blast
      then show "\<exists>m. n = Suc m \<and> first_until w t m"
      proof cases
        case 1
        have "u \<noteq> []" using 1(1) False by (auto simp: starts_with_iff simp del: starts_with.simps)
        then obtain u' where u: "u = a # u'" "t = u' @ w @ r" using 1(1) by (cases u) auto
        with 1 show ?thesis unfolding first_until_def by (auto simp: occurs_Cons simp del: starts_with.simps)
      next
        case 2
        then show ?thesis unfolding first_until_def by (auto simp: occurs_Cons simp del: starts_with.simps)
      qed
    next
      assume "\<exists>m. n = Suc m \<and> first_until w t m"
      then obtain m where n: "n = Suc m" and "first_until w t m" by blast
      then consider u r where "t = u @ w @ r" "\<not> occurs w (u @ butlast w)" "m = length u + length w"
        | "\<not> occurs w t" "m = length t" unfolding first_until_def by blast
      then show "first_until w (a # t) n"
      proof cases
        case 1
        have "\<not> starts_with ((a # u) @ butlast w) w"
        proof
          assume "starts_with ((a # u) @ butlast w) w"
          then obtain v where "(a # u) @ butlast w = w @ v" by (auto simp: starts_with_iff)
          then have "a # t = w @ v @ [last w] @ r"
            using 1(1) assms by (metis append.assoc append_Cons append_butlast_last_id)
          with False show False by (auto simp: starts_with_iff simp del: starts_with.simps)
        qed
        with 1 have "a # t = (a # u) @ w @ r" "\<not> occurs w ((a # u) @ butlast w)" by (simp_all add: occurs_Cons)
        with 1 n show ?thesis unfolding first_until_def by (intro disjI1 exI [of _ "a # u"] exI [of _ r]) simp
      next
        case 2
        with n False show ?thesis unfolding first_until_def by (simp add: occurs_Cons del: starts_with.simps)
      qed
    qed
    with Cons.IH False show ?thesis by auto
  qed
qed

lemma block_len_first: "block_len False 1 t = first_len ''*/'' t"
proof (induction "False" "1 :: nat" t rule: block_len.induct)
  case (3 a b r)
  then show ?case by auto
qed simp_all

lemma block_len_char:
  assumes "\<not> starts_with (c # b @ ''*/'') ''*/''" "\<not> starts_with (c # b @ ''*/'') ''/*''"
  shows "block_len True d (c # b @ ''*/'' @ r) = 1 + block_len True d (b @ ''*/'' @ r)"
  using assms by (cases b) auto

lemma block_len_body:
  "nested_body b \<Longrightarrow> 1 \<le> d \<Longrightarrow> block_len True d (b @ ''*/'' @ r) = length b + block_len True d (''*/'' @ r)"
proof (induction b arbitrary: d r rule: nested_body.induct)
  case (nested_char b c)
  then show ?case using block_len_char [OF nested_char.hyps(2,3), of d r] by simp
next
  case (nested_comment a b)
  have "block_len True d ((''/*'' @ a @ ''*/'' @ b) @ ''*/'' @ r) = 2 + block_len True (d + 1) (a @ ''*/'' @ b @ ''*/'' @ r)"
    by simp
  also have "\<dots> = 2 + length a + block_len True (d + 1) (''*/'' @ b @ ''*/'' @ r)"
    using nested_comment.IH(1) [of "d + 1" "b @ ''*/'' @ r"] by simp
  also have "\<dots> = 4 + length a + block_len True d (b @ ''*/'' @ r)"
    using nested_comment.prems by simp
  finally show ?case using nested_comment.IH(2) [OF nested_comment.prems, of r] by simp
qed simp

text \<open>Inside \<open>d\<close> comments, the scanner finds the ends of all of them or runs to the end of the text.\<close>

definition closes :: "string list \<Rightarrow> string" where
  "closes bs = concat (map (\<lambda>b. b @ ''*/'') bs)"

lemma closes_simps [simp]: "closes [] = []" "closes (b # bs) = b @ ''*/'' @ closes bs"
  by (simp_all add: closes_def)

lemma block_len_closes:
  "1 \<le> d \<Longrightarrow> (\<exists>bs r. length bs = d \<and> list_all nested_body bs \<and> t = closes bs @ r) \<or> block_len True d t = length t"
proof (induction "True" d t rule: block_len.induct)
  case (3 d a b r)
  consider "a = CHR ''*''" "b = CHR ''/''" "d = 1" | "a = CHR ''*''" "b = CHR ''/''" "1 < d"
    | "\<not> (a = CHR ''*'' \<and> b = CHR ''/'')" "a = CHR ''/''" "b = CHR ''*''"
    | "\<not> (a = CHR ''*'' \<and> b = CHR ''/'')" "\<not> (a = CHR ''/'' \<and> b = CHR ''*'')"
    using "3.prems" by linarith
  then show ?case
  proof cases
    case 1
    then have "length [[] :: string] = d \<and> list_all nested_body [[]] \<and> a # b # r = closes [[]] @ r"
      by (simp add: nested_empty)
    then show ?thesis by blast
  next
    case 2
    with 3(1) have "(\<exists>bs q. length bs = d - 1 \<and> list_all nested_body bs \<and> r = closes bs @ q) \<or> block_len True (d - 1) r = length r"
      by simp
    then show ?thesis
    proof
      assume "\<exists>bs q. length bs = d - 1 \<and> list_all nested_body bs \<and> r = closes bs @ q"
      then obtain bs q where bs: "length bs = d - 1" "list_all nested_body bs" "r = closes bs @ q" by blast
      then have "length ([] # bs) = d \<and> list_all nested_body ([] # bs) \<and> a # b # r = closes ([] # bs) @ q"
        using 2 by (simp add: nested_empty)
      then show ?thesis by blast
    qed (use 2 in simp)
  next
    case 3
    with "3.hyps"(2) have "(\<exists>bs q. length bs = d + 1 \<and> list_all nested_body bs \<and> r = closes bs @ q)
        \<or> block_len True (d + 1) r = length r" by simp
    then show ?thesis
    proof
      assume "\<exists>bs q. length bs = d + 1 \<and> list_all nested_body bs \<and> r = closes bs @ q"
      then obtain x y bs q where bs: "length bs = d - 1" "list_all nested_body bs" "nested_body x" "nested_body y"
        "r = closes (x # y # bs) @ q"
        using "3.prems" by (auto simp: Suc_le_eq length_Suc_conv dest!: less_imp_Suc_add)
      let ?b = "''/*'' @ x @ ''*/'' @ y"
      have "length (?b # bs) = d \<and> list_all nested_body (?b # bs) \<and> a # b # r = closes (?b # bs) @ q"
        using bs nested_comment [OF bs(3,4)] 3 "3.prems" by simp
      then show ?thesis by blast
    qed (use 3 in simp)
  next
    case 4
    with "3.hyps"(3) "3.prems" have "(\<exists>bs q. length bs = d \<and> list_all nested_body bs \<and> b # r = closes bs @ q)
        \<or> block_len True d (b # r) = length (b # r)" by auto
    then show ?thesis
    proof
      assume "\<exists>bs q. length bs = d \<and> list_all nested_body bs \<and> b # r = closes bs @ q"
      then obtain x bs q where bs: "Suc (length bs) = d" "list_all nested_body bs" "nested_body x" "b # r = x @ ''*/'' @ closes bs @ q"
        using "3.prems" by (auto simp: Suc_le_eq length_Suc_conv dest!: less_imp_Suc_add)
      have "nested_body (a # x)"
        using 4 bs(4) by (intro nested_char [OF bs(3)]) (cases x; auto)+
      with bs have "length ((a # x) # bs) = d \<and> list_all nested_body ((a # x) # bs) \<and> a # b # r = closes ((a # x) # bs) @ q"
        by simp
      then show ?thesis by blast
    qed (use 4 in auto)
  qed
qed simp_all

lemma nested_until_iff: "nested_until t n \<longleftrightarrow> n = block_len True 1 t"
proof (cases "\<exists>b r. nested_body b \<and> t = b @ ''*/'' @ r")
  case True
  have "n = length b + 2 \<longleftrightarrow> n = block_len True 1 t" if "nested_body b" "t = b @ ''*/'' @ r" for b r
    using block_len_body [OF that(1), of 1 r] that(2) by simp
  with True show ?thesis unfolding nested_until_def by blast
next
  case False
  have "block_len True 1 t = length t"
    using block_len_closes [of 1 t] False by (auto simp: length_Suc_conv)
  with False show ?thesis unfolding nested_until_def by metis
qed

section \<open>The lexer meets the grammar\<close>

lemma dollar_is_no_tag: "\<not> is_dollar_tag_continue (CHR ''$'')" "\<not> is_dollar_tag_start (CHR ''$'')"
  by code_simp+

lemma tag_start_continue: "is_dollar_tag_start c \<Longrightarrow> is_dollar_tag_continue c"
  by (simp add: is_dollar_tag_continue_def)

lemma tag_takeWhile:
  "dollar_tag tag \<Longrightarrow> takeWhile is_dollar_tag_continue (tag @ CHR ''$'' # r) = tag"
  by (subst takeWhile_append2) (auto simp: dollar_tag_def list_all_iff dollar_is_no_tag)

lemma dollar_quote_scan:
  assumes "drop i bs = CHR ''$'' # t" and w: "w = takeWhile is_dollar_tag_continue t"
  shows "try_scan_dollar_quote bs i =
    (if dollar_tag w \<and> byte_at bs (i + 1 + length w) = Some (CHR ''$'')
     then Some (i + 1 + length w + 1, find_dollar_close bs (slice bs (i + 1) (i + 1 + length w)) (i + 1 + length w + 1))
     else None)"
proof -
  have i: "drop (Suc i) bs = t" "Suc i \<le> length bs"
    using assms drop_head [of i bs] by (cases "i < length bs"; simp)+
  show ?thesis
  proof (cases t)
    case Nil
    then have b: "byte_at bs (i + 1) = None" using i by (simp add: byte_at_drop)
    have "w = []" using w Nil by simp
    with b show ?thesis by (simp add: try_scan_dollar_quote_def Let_def dollar_tag_def)
  next
    case (Cons c r)
    then have b: "byte_at bs (i + 1) = Some c" using i by (simp add: byte_at_drop)
    consider "c = CHR ''$''" | "c \<noteq> CHR ''$''" "\<not> is_dollar_tag_start c" | "c \<noteq> CHR ''$''" "is_dollar_tag_start c" by blast
    then show ?thesis
    proof cases
      case 1
      have "w = []" using w Cons 1 dollar_is_no_tag by simp
      with b 1 show ?thesis by (simp add: try_scan_dollar_quote_def Let_def dollar_tag_def)
    next
      case 2
      have "w = [] \<or> hd w = c" using w Cons by simp
      with 2 have "\<not> (dollar_tag w \<and> byte_at bs (i + 1 + length w) = Some (CHR ''$''))"
        using b by (auto simp: dollar_tag_def)
      with b 2 show ?thesis by (simp add: try_scan_dollar_quote_def Let_def)
    next
      case 3
      have r: "drop (i + 2) bs = r" "i + 2 \<le> length bs"
        using i(1) Cons drop_head [of "Suc i" bs] by (cases "Suc i < length bs"; simp)+
      have wc: "w = c # takeWhile is_dollar_tag_continue r" using w Cons tag_start_continue [OF 3(2)] by simp
      have "\<forall>x \<in> set w. is_dollar_tag_continue x" unfolding w by (blast dest: set_takeWhileD)
      then have tag: "dollar_tag w" using wc 3 by (simp add: dollar_tag_def list_all_iff)
      have "skip_dollar_tag bs (i + 2) = i + 1 + length w"
        using skip_tag_len [OF r(2)] r(1) wc by simp
      then show ?thesis using b 3 tag by (simp add: try_scan_dollar_quote_def Let_def)
    qed
  qed
qed

lemma dollar_quote_iff:
  assumes "drop i bs = CHR ''$'' # t"
  shows "(\<exists>te. try_scan_dollar_quote bs i = Some (te, e)) \<longleftrightarrow>
    (\<exists>tag r. dollar_tag tag \<and> t = tag @ ''$'' @ r \<and> e = i + length tag + 2 + first_len (''$'' @ tag @ ''$'') r)"
proof -
  have i: "drop (Suc i) bs = t" "Suc i \<le> length bs"
    using assms drop_head [of i bs] by (cases "i < length bs"; simp)+
  let ?w = "takeWhile is_dollar_tag_continue t"
  note scan = dollar_quote_scan [OF assms refl]
  have close: "find_dollar_close bs (slice bs (i + 1) (i + 1 + length tag)) (i + 1 + length tag + 1)
      = i + length tag + 2 + first_len (''$'' @ tag @ ''$'') r" "byte_at bs (i + 1 + length tag) = Some (CHR ''$'')"
    if t: "t = tag @ CHR ''$'' # r" for tag r
  proof -
    have "drop (length tag) (drop (Suc i) bs) = CHR ''$'' # r" using i(1) t by simp
    then have b: "drop (i + 1 + length tag) bs = CHR ''$'' # r" by (simp add: add.commute)
    then show "byte_at bs (i + 1 + length tag) = Some (CHR ''$'')" by (simp add: byte_at_drop)
    have d: "drop (i + 1 + length tag + 1) bs = r" "i + 1 + length tag + 1 \<le> length bs"
      using b drop_head [of "i + 1 + length tag" bs] by (cases "i + 1 + length tag < length bs"; simp)+
    have "slice bs (i + 1) (i + 1 + length tag) = tag" using i(1) t by (simp add: slice_def)
    then show "find_dollar_close bs (slice bs (i + 1) (i + 1 + length tag)) (i + 1 + length tag + 1)
        = i + length tag + 2 + first_len (''$'' @ tag @ ''$'') r"
      using find_dollar_len [OF d(2), of tag] d(1) by simp
  qed
  show ?thesis
  proof
    assume "\<exists>te. try_scan_dollar_quote bs i = Some (te, e)"
    then have w: "dollar_tag ?w" "byte_at bs (i + 1 + length ?w) = Some (CHR ''$'')"
      and e: "e = find_dollar_close bs (slice bs (i + 1) (i + 1 + length ?w)) (i + 1 + length ?w + 1)"
      unfolding scan by (auto split: if_splits)
    have "drop (length ?w) t = drop (i + 1 + length ?w) bs" unfolding i(1) [symmetric] by (simp add: add.commute)
    with w(2) obtain r where "drop (length ?w) t = CHR ''$'' # r"
      unfolding byte_at_drop by (auto split: list.splits)
    then have t: "t = ?w @ CHR ''$'' # r"
      by (metis append_eq_conv_conj takeWhile_eq_take append_take_drop_id)
    have "e = i + length ?w + 2 + first_len (''$'' @ ?w @ ''$'') r" using close(1) [OF t] e by (rule trans [rotated])
    moreover have "t = ?w @ ''$'' @ r" using t by (simp only: append.simps)
    ultimately show "\<exists>tag r. dollar_tag tag \<and> t = tag @ ''$'' @ r
        \<and> e = i + length tag + 2 + first_len (''$'' @ tag @ ''$'') r"
      using w(1) by blast
  next
    assume "\<exists>tag r. dollar_tag tag \<and> t = tag @ ''$'' @ r \<and> e = i + length tag + 2 + first_len (''$'' @ tag @ ''$'') r"
    then obtain tag r where tag: "dollar_tag tag" "t = tag @ CHR ''$'' # r"
      "e = i + length tag + 2 + first_len (''$'' @ tag @ ''$'') r" by auto
    then have "?w = tag" using tag_takeWhile by simp
    with tag close [OF tag(2)] show "\<exists>te. try_scan_dollar_quote bs i = Some (te, e)" unfolding scan by simp
  qed
qed

fun lexeme_chunk :: "nat \<Rightarrow> nat \<Rightarrow> quote_kind option \<Rightarrow> chunk" where
  "lexeme_chunk a b (Some k) = Quoted a b k"
| "lexeme_chunk a b None = Comment a b"

text \<open>What the lexer recognises at a position, by its kind.\<close>

lemma quoted_at:
  assumes "drop i bs = a # t" "q \<noteq> backslash"
  shows "scan_simple_quoted bs i q' esc = i + 1 + quoted_len q' esc t"
    "scan_bracket_quoted bs i = i + 1 + quoted_len (CHR '']'') False t"
    "scan_line_comment bs i = i + length (takeWhile (\<lambda>c. c \<noteq> newline) (a # t))"
    "t = b # r \<Longrightarrow> scan_block_comment bs i nest = i + 2 + block_len nest 1 r"
proof -
  have i: "drop (i + 1) bs = t" "i + 1 \<le> length bs" "i \<le> length bs"
    using assms drop_head [of i bs] by (cases "i < length bs"; simp)+
  show "scan_simple_quoted bs i q' esc = i + 1 + quoted_len q' esc t"
    "scan_bracket_quoted bs i = i + 1 + quoted_len (CHR '']'') False t"
    using scan_quoted_len [OF i(2)] i(1) by (simp_all add: scan_simple_quoted_def scan_bracket_quoted_def)
  show "scan_line_comment bs i = i + length (takeWhile (\<lambda>c. c \<noteq> newline) (a # t))"
    using scan_line_len [OF i(3)] assms(1) by simp
  show "scan_block_comment bs i nest = i + 2 + block_len nest 1 r" if "t = b # r"
  proof -
    have "drop (i + 2) bs = r" "i + 2 \<le> length bs"
      using i(1) that drop_head [of "i + 1" bs] by (cases "i + 1 < length bs"; simp)+
    then show ?thesis using scan_block_len [of "i + 2" bs 1 nest] by (simp add: scan_block_comment_def)
  qed
qed

lemma special_chars:
  "quote_char \<noteq> backslash" "dquote \<noteq> backslash" "backtick \<noteq> backslash" "CHR '']'' \<noteq> backslash"
  by code_simp+

lemma block_at:
  assumes "drop i bs = CHR ''/'' # t"
  shows "(\<exists>r m. CHR ''/'' # t = ''/*'' @ r \<and> (if d = Postgres then nested_until r m else first_until ''*/'' r m) \<and> n = m + 2)
    \<longleftrightarrow> byte_at bs (i + 1) = Some (CHR ''*'') \<and> scan_block_comment bs i (d = Postgres) = i + n"
proof -
  have i: "drop (i + 1) bs = t"
    using assms drop_head [of i bs] by (cases "i < length bs"; simp)+
  show ?thesis
  proof (cases "\<exists>r. t = CHR ''*'' # r")
    case True
    then obtain r where r: "t = CHR ''*'' # r" ..
    have "byte_at bs (i + 1) = Some (CHR ''*'')" using i r by (simp add: byte_at_drop)
    then show ?thesis
      using quoted_at(4) [OF assms special_chars(1) r] r
      by (cases "d = Postgres") (auto simp: nested_until_iff first_until_iff block_len_first [unfolded One_nat_def])
  next
    case False
    then have "byte_at bs (i + 1) \<noteq> Some (CHR ''*'')" using i by (auto simp: byte_at_drop split: list.splits)
    with False show ?thesis by auto
  qed
qed

lemma line_at:
  assumes "drop i bs = a # t"
  shows "starts_with (a # t) ''--'' \<longleftrightarrow> a = CHR ''-'' \<and> byte_at bs (i + 1) = Some (CHR ''-'')"
proof -
  have "drop (i + 1) bs = t"
    using assms drop_head [of i bs] by (cases "i < length bs"; simp)+
  then show ?thesis by (auto simp: byte_at_drop starts_with_iff split: list.splits)
qed

lemma quoted_lexeme:
  assumes "drop i bs = a # t" "q \<noteq> backslash"
  shows "(\<exists>r m. a # t = c # r \<and> quoted_until q esc r m \<and> n = m + 1)
    \<longleftrightarrow> a = c \<and> scan_simple_quoted bs i q esc = i + n"
  using quoted_at(1) [OF assms] quoted_until_iff [OF assms(2)] by auto

lemma dollar_lexeme:
  assumes "drop i bs = a # t"
  shows "(\<exists>tag r m. dollar_tag tag \<and> a # t = ''$'' @ tag @ ''$'' @ r
        \<and> first_until (''$'' @ tag @ ''$'') r m \<and> n = length tag + 2 + m)
    \<longleftrightarrow> a = CHR ''$'' \<and> (\<exists>te. try_scan_dollar_quote bs i = Some (te, i + n))"
proof (cases "a = CHR ''$''")
  case True
  have "first_until (''$'' @ tag @ ''$'') r m \<longleftrightarrow> m = first_len (''$'' @ tag @ ''$'') r" for tag r m
    by (rule first_until_iff) simp
  then show ?thesis
    using dollar_quote_iff [OF assms [unfolded True], of "i + n"] True by auto
qed simp

text \<open>At every position the grammar and the code recognise the same thing.\<close>

lemma lexeme_lex_at:
  assumes "i < length bs"
  shows "lexeme d (drop i bs) n k \<longleftrightarrow> lex_at bs d i = Some (i + n, lexeme_chunk i (i + n) k)"
proof -
  obtain a t where at: "drop i bs = a # t" "bs ! i = a" using drop_head [OF assms] by simp
  note scans = quoted_lexeme [OF at(1)] line_at [OF at(1)] dollar_lexeme [OF at(1)]
  have bracket: "scan_bracket_quoted bs i = scan_simple_quoted bs i (CHR '']'') False"
    by (simp add: scan_bracket_quoted_def scan_simple_quoted_def)
  have line: "line_until (a # t) n \<longleftrightarrow> scan_line_comment bs i = i + n"
    using quoted_at(3) [OF at(1) special_chars(1)] unfolding line_until_iff by auto
  have block: "(\<exists>r m. a # t = ''/*'' @ r \<and> (if d = Postgres then nested_until r m else first_until ''*/'' r m) \<and> n = m + 2)
      \<longleftrightarrow> a = CHR ''/'' \<and> byte_at bs (i + 1) = Some (CHR ''*'') \<and> scan_block_comment bs i (d = Postgres) = i + n"
    using block_at [of i bs t d n] at(1) by (cases "a = CHR ''/''") auto
  have hash: "starts_with (a # t) ''#'' \<longleftrightarrow> a = CHR ''#''" by simp
  have some: "k = Some SingleString \<or> k = Some DoubleIdent \<or> k = Some Backtick \<or> k = Some Bracket \<or> k = Some DollarQuote \<or> k = None"
    by (metis option.exhaust quote_kind.exhaust)
  have "lexeme d (a # t) n k \<longleftrightarrow>
    (case k of
       Some SingleString \<Rightarrow> a = quote_char \<and> scan_simple_quoted bs i quote_char (d = Mysql) = i + n
     | Some DoubleIdent \<Rightarrow> a = dquote \<and> scan_simple_quoted bs i dquote (d = Mysql) = i + n
     | Some Backtick \<Rightarrow> d = Mysql \<and> a = backtick \<and> scan_simple_quoted bs i backtick False = i + n
     | Some Bracket \<Rightarrow> (d = Sqlite \<or> d = Mssql) \<and> a = CHR ''['' \<and> scan_bracket_quoted bs i = i + n
     | Some DollarQuote \<Rightarrow> d = Postgres \<and> a = CHR ''$'' \<and> (\<exists>te. try_scan_dollar_quote bs i = Some (te, i + n))
     | None \<Rightarrow> (a = CHR ''-'' \<and> byte_at bs (i + 1) = Some (CHR ''-'') \<or> d = Mysql \<and> a = CHR ''#'') \<and> scan_line_comment bs i = i + n
          \<or> a = CHR ''/'' \<and> byte_at bs (i + 1) = Some (CHR ''*'') \<and> scan_block_comment bs i (d = Postgres) = i + n)"
    unfolding lexeme_def bracket scans(1) [OF special_chars(1)] scans(1) [OF special_chars(2)] scans(1) [OF special_chars(3)]
      scans(1) [OF special_chars(4)] scans(3) line block hash scans(2) ..
  then show ?thesis
    using some unfolding at lex_at_def Let_def
    by (elim disjE) (auto split: option.splits)
qed

lemma lexeme_positions:
  assumes "y \<le> length bs"
  shows "(\<forall>i \<in> {a..<y}. \<forall>n k. \<not> lexeme d (drop i bs) n k) \<longleftrightarrow> (\<forall>i \<in> {a..<y}. lex_at bs d i = None)"
proof -
  have "(\<exists>n k. lexeme d (drop i bs) n k) \<longleftrightarrow> lex_at bs d i \<noteq> None" if i: "i < length bs" for i
  proof
    assume "lex_at bs d i \<noteq> None"
    then obtain e c where c: "lex_at bs d i = Some (e, c)" by auto
    from lex_at_end [OF c i] have "i < e" "chunk_range c = (i, e)" "\<not> is_code c" by auto
    then obtain k where "c = lexeme_chunk i (i + (e - i)) k"
      by (cases c) (auto intro: lexeme_chunk.simps [symmetric])
    with c \<open>i < e\<close> have "lexeme d (drop i bs) (e - i) k" unfolding lexeme_lex_at [OF i] by simp
    then show "\<exists>n k. lexeme d (drop i bs) n k" by blast
  qed (auto simp: lexeme_lex_at [OF i])
  with assms show ?thesis by (meson atLeastLessThan_iff less_le_trans)
qed

lemma lexeme_at:
  assumes "a < length bs"
  shows "(\<exists>e. lex_at bs d a = Some (e, lexeme_chunk x y k) \<and> P e)
    \<longleftrightarrow> x = a \<and> (\<exists>n. lexeme d (drop a bs) n k \<and> y = a + n) \<and> P y"
proof
  assume "\<exists>e. lex_at bs d a = Some (e, lexeme_chunk x y k) \<and> P e"
  then obtain e where e: "lex_at bs d a = Some (e, lexeme_chunk x y k)" "P e" by blast
  from lex_at_end [OF e(1) assms] have "x = a" "y = e" "a < y" by (cases k; simp)+
  with e lexeme_lex_at [OF assms, of d "y - a" k] show "x = a \<and> (\<exists>n. lexeme d (drop a bs) n k \<and> y = a + n) \<and> P y"
    by (auto intro!: exI [of _ "y - a"])
qed (auto simp: lexeme_lex_at [OF assms])

lemma lexical_lexed: "lexical bs d a cs \<longleftrightarrow> lexed bs d a cs"
proof (induction bs d a cs rule: lexical.induct)
  case (2 bs d a x y cs)
  then show ?case using lexeme_positions [of y bs a d] by auto
next
  case (3 bs d a x y k cs)
  then show ?case using lexeme_at [of a bs d x y "Some k" "\<lambda>e. lexed bs d e cs"] by auto
next
  case (4 bs d a x y cs)
  then show ?case using lexeme_at [of a bs d x y None "\<lambda>e. lexed bs d e cs"] by auto
qed simp

text \<open>
  C30.  \<open>lex_chunks\<close> computes the one and only division of a text that the lexical grammar allows:
  every quoted or comment chunk is what the grammar says begins at its first byte, in its full
  length, with doubled quotes, backslash escapes, nested comments and dollar tags as the dialect has
  them; nothing begins at any byte of a code chunk; and code chunks are not empty and never adjacent.
\<close>

theorem lex_chunks_characterised: "lexical src d 0 cs \<longleftrightarrow> cs = lex_chunks src d"
  unfolding lexical_lexed by (rule lex_chunks_lexed_iff)

lemma lexical_example: "lexical ''/*a'' Postgres 0 [Comment 0 3]"
  unfolding lexical_lexed lex_chunks_lexed_iff by code_simp

end
