(* ===== verification/Sql_Words.thy ===== *)
theory Sql_Words
  imports Sql_Lexer
begin

text \<open>
  The word tables of the SQL front end: the syntax words and vetted functions of the
  classifier (\<open>sql/classifier.rs\<close>, in the groups of its comments) and the keyword list of
  the highlighter (\<open>sql/highlight.rs\<close>), which the formatter and the completer share.
\<close>

definition SYNTAX_BEFORE_PAREN :: "string list" where
  "SYNTAX_BEFORE_PAREN =
    [''AGAINST'', ''ALL'', ''AND'', ''ANY'', ''ARRAY'', ''AS'',
     ''BETWEEN'', ''BINARY'', ''BIT'', ''BY'', ''CASE'', ''CHARACTER'',
     ''CUBE'', ''DECIMAL'', ''DISTINCT'', ''ELSE'', ''EXCEPT'', ''EXISTS'',
     ''FILTER'', ''FLOAT'', ''FROM'', ''GROUP'', ''HAVING'', ''ILIKE'',
     ''IN'', ''INDEX'', ''INTERSECT'', ''INTERVAL'', ''IS'', ''JOIN'',
     ''LATERAL'', ''LIKE'', ''LIMIT'', ''MATCH'', ''MATERIALIZED'', ''NCHAR'',
     ''NOT'', ''NUMERIC'', ''NVARCHAR'', ''OFFSET'', ''ON'', ''OR'',
     ''OVER'', ''ROLLUP'', ''ROW'', ''SELECT'', ''SETS'', ''SOME'',
     ''THEN'', ''TIMESTAMP'', ''UNION'', ''USING'', ''VALUES'', ''VARBINARY'',
     ''VARCHAR'', ''VARYING'', ''WHEN'', ''WHERE'']"

definition pure_aggregates :: "string list" where
  "pure_aggregates =
    [''any_value'', ''array_agg'', ''avg'', ''bit_and'', ''bit_or'', ''bit_xor'',
     ''bool_and'', ''bool_or'', ''count'', ''cume_dist'', ''dense_rank'', ''every'',
     ''first_value'', ''group_concat'', ''grouping'', ''json_agg'', ''json_group_array'', ''json_group_object'',
     ''json_object_agg'', ''jsonb_agg'', ''jsonb_object_agg'', ''lag'', ''last_value'', ''lead'',
     ''max'', ''min'', ''mode'', ''nth_value'', ''ntile'', ''percent_rank'',
     ''percentile_cont'', ''percentile_disc'', ''rank'', ''row_number'', ''stddev'', ''stddev_pop'',
     ''stddev_samp'', ''string_agg'', ''sum'', ''total'', ''var_pop'', ''var_samp'',
     ''variance'']"

definition pure_conditionals :: "string list" where
  "pure_conditionals =
    [''cast'', ''coalesce'', ''convert'', ''greatest'', ''if'', ''ifnull'',
     ''iif'', ''isnull'', ''least'', ''nullif'', ''try_cast'']"

definition pure_strings :: "string list" where
  "pure_strings =
    [''ascii'', ''bit_length'', ''btrim'', ''char'', ''char_length'', ''character_length'',
     ''chr'', ''concat'', ''concat_ws'', ''decode'', ''encode'', ''format'',
     ''hex'', ''initcap'', ''instr'', ''left'', ''length'', ''locate'',
     ''lower'', ''lpad'', ''ltrim'', ''md5'', ''octet_length'', ''overlay'',
     ''position'', ''quote_ident'', ''quote_literal'', ''regexp_like'', ''regexp_match'', ''regexp_matches'',
     ''regexp_replace'', ''regexp_substr'', ''repeat'', ''replace'', ''reverse'', ''right'',
     ''rpad'', ''rtrim'', ''sha1'', ''sha2'', ''soundex'', ''split_part'',
     ''starts_with'', ''strpos'', ''substr'', ''substring'', ''to_hex'', ''translate'',
     ''trim'', ''unhex'', ''upper'']"

definition pure_numbers :: "string list" where
  "pure_numbers =
    [''abs'', ''ceil'', ''ceiling'', ''cos'', ''degrees'', ''div'',
     ''exp'', ''floor'', ''ln'', ''log'', ''log10'', ''mod'',
     ''pi'', ''pow'', ''power'', ''radians'', ''rand'', ''random'',
     ''round'', ''sign'', ''sin'', ''sqrt'', ''tan'', ''trunc'',
     ''truncate'', ''width_bucket'']"

definition pure_dates :: "string list" where
  "pure_dates =
    [''age'', ''clock_timestamp'', ''convert_tz'', ''curdate'', ''current_date'', ''current_time'',
     ''current_timestamp'', ''curtime'', ''date'', ''date_add'', ''date_format'', ''date_part'',
     ''date_sub'', ''date_trunc'', ''datediff'', ''datetime'', ''day'', ''dayofmonth'',
     ''dayofweek'', ''dayofyear'', ''extract'', ''from_unixtime'', ''hour'', ''julianday'',
     ''last_day'', ''localtime'', ''localtimestamp'', ''make_date'', ''make_interval'', ''make_timestamp'',
     ''minute'', ''month'', ''now'', ''quarter'', ''second'', ''statement_timestamp'',
     ''str_to_date'', ''strftime'', ''sysdate'', ''time'', ''timestampadd'', ''timestampdiff'',
     ''timezone'', ''to_char'', ''to_date'', ''to_number'', ''to_timestamp'', ''transaction_timestamp'',
     ''unix_timestamp'', ''unixepoch'', ''utc_timestamp'', ''week'', ''weekday'', ''year'']"

definition pure_json :: "string list" where
  "pure_json =
    [''json_array'', ''json_array_elements'', ''json_array_elements_text'', ''json_array_length'', ''json_build_array'', ''json_build_object'',
     ''json_contains'', ''json_each'', ''json_each_text'', ''json_extract'', ''json_extract_path'', ''json_extract_path_text'',
     ''json_keys'', ''json_length'', ''json_object'', ''json_object_keys'', ''json_type'', ''json_typeof'',
     ''json_unquote'', ''json_valid'', ''json_value'', ''jsonb_array_elements'', ''jsonb_array_elements_text'', ''jsonb_array_length'',
     ''jsonb_build_array'', ''jsonb_build_object'', ''jsonb_each'', ''jsonb_each_text'', ''jsonb_extract_path'', ''jsonb_extract_path_text'',
     ''jsonb_object_keys'', ''jsonb_path_query'', ''jsonb_pretty'', ''jsonb_set'', ''jsonb_typeof'', ''row_to_json'',
     ''to_json'', ''to_jsonb'']"

definition pure_misc :: "string list" where
  "pure_misc =
    [''array_append'', ''array_cat'', ''array_length'', ''array_lower'', ''array_position'', ''array_remove'',
     ''array_to_string'', ''array_upper'', ''cardinality'', ''current_database'', ''current_schema'', ''gen_random_uuid'',
     ''generate_series'', ''string_to_array'', ''typeof'', ''unnest'']"

definition PURE_FUNCTIONS :: "string list" where
  "PURE_FUNCTIONS =
    pure_aggregates @ pure_conditionals @ pure_strings @ pure_numbers @ pure_dates
     @ pure_json @ pure_misc"

definition KEYWORDS :: "string list" where
  "KEYWORDS =
    [''SELECT'', ''INSERT'', ''UPDATE'', ''DELETE'', ''MERGE'', ''UPSERT'',
     ''REPLACE'', ''COPY'', ''CREATE'', ''ALTER'', ''DROP'', ''TRUNCATE'',
     ''COMMENT'', ''RENAME'', ''BEGIN'', ''COMMIT'', ''ROLLBACK'', ''SAVEPOINT'',
     ''START'', ''TRANSACTION'', ''GRANT'', ''REVOKE'', ''VACUUM'', ''ANALYZE'',
     ''SET'', ''KILL'', ''SHOW'', ''EXPLAIN'', ''VALUES'', ''WITH'',
     ''RECURSIVE'', ''MATERIALIZED'', ''FROM'', ''WHERE'', ''JOIN'', ''INNER'',
     ''OUTER'', ''LEFT'', ''RIGHT'', ''FULL'', ''CROSS'', ''ON'',
     ''GROUP'', ''BY'', ''ORDER'', ''HAVING'', ''LIMIT'', ''OFFSET'',
     ''AND'', ''OR'', ''NOT'', ''NULL'', ''IS'', ''IN'',
     ''EXISTS'', ''BETWEEN'', ''LIKE'', ''ILIKE'', ''AS'', ''DISTINCT'',
     ''UNION'', ''INTERSECT'', ''EXCEPT'', ''ALL'', ''ANY'', ''SOME'',
     ''INTO'', ''DEFAULT'', ''PRIMARY'', ''KEY'', ''FOREIGN'', ''REFERENCES'',
     ''UNIQUE'', ''CHECK'', ''INDEX'', ''VIEW'', ''FUNCTION'', ''PROCEDURE'',
     ''TRIGGER'', ''CASE'', ''WHEN'', ''THEN'', ''ELSE'', ''END'',
     ''CAST'', ''RETURNING'', ''USING'', ''CONFLICT'', ''DO'', ''NOTHING'',
     ''TABLE'', ''COLUMN'', ''CONSTRAINT'', ''CASCADE'', ''RESTRICT'', ''IF'',
     ''TEMP'', ''TEMPORARY'', ''SCHEMA'', ''DATABASE'', ''SEQUENCE'', ''TRUE'',
     ''FALSE'', ''ASC'', ''DESC'', ''NULLS'', ''FIRST'', ''LAST'',
     ''OVER'', ''PARTITION'', ''WINDOW'', ''FILTER'', ''LATERAL'', ''FOR'',
     ''OF'', ''NOWAIT'', ''SKIP'', ''LOCKED'', ''RETURN'', ''DECLARE'',
     ''LOOP'', ''WHILE'', ''DELIMITER'', ''GO'']"
definition is_word_start :: "char \<Rightarrow> bool" where
  "is_word_start b = (is_ascii_alphabetic b \<or> b = CHR ''_'' \<or> is_non_ascii b)"

definition is_word_continue :: "char \<Rightarrow> bool" where
  "is_word_continue b = (is_word_start b \<or> is_ascii_digit b)"

text \<open>The inner loops that run to the end of a word, a number or an operator: the first
  index from \<open>i\<close> that is \<open>e\<close> or where \<open>p\<close> fails.\<close>

function run_while :: "(char \<Rightarrow> bool) \<Rightarrow> string \<Rightarrow> nat \<Rightarrow> nat \<Rightarrow> nat" where
  "run_while p bs i e = (if i < e \<and> p (bs ! i) then run_while p bs (i + 1) e else i)"
  by pat_completeness auto
termination
  by (relation "measure (\<lambda>(p, bs, i, e). e - i)") auto

declare run_while.simps [simp del]

lemma run_while_bounds: "i \<le> run_while p bs i e \<and> (i \<le> e \<longrightarrow> run_while p bs i e \<le> e)"
proof (induction p bs i e rule: run_while.induct)
  case (1 p bs i e)
  then show ?case by (subst (1 2) run_while.simps) auto
qed

lemma run_while_ge [simp]: "i \<le> run_while p bs i e"
  using run_while_bounds by blast

lemma run_while_le: "i \<le> e \<Longrightarrow> run_while p bs i e \<le> e"
  using run_while_bounds by blast

lemma run_while_all: "i \<le> j \<Longrightarrow> j < run_while p bs i e \<Longrightarrow> p (bs ! j)"
proof (induction p bs i e rule: run_while.induct)
  case (1 p bs i e)
  show ?case
  proof (cases "i < e \<and> p (bs ! i)")
    case True
    with "1.prems" have "j = i \<or> i + 1 \<le> j \<and> j < run_while p bs (i + 1) e"
      by (subst (asm) run_while.simps) auto
    with True "1.IH" show ?thesis by auto
  next
    case False
    with "1.prems" show ?thesis by (subst (asm) run_while.simps) auto
  qed
qed

lemma run_while_step:
  "i < e \<Longrightarrow> i < run_while p bs (i + 1) e \<and> run_while p bs (i + 1) e \<le> e"
  by (metis Suc_eq_plus1 Suc_le_eq run_while_bounds)

end
