(* ===== verification/Sql_Classifier.thy ===== *)
theory Sql_Classifier
  imports Sql_Words
begin

text \<open>
  The statement classifier of \<open>crates/datagrep-lang/src/sql/classifier.rs\<close>.  A statement
  counts as a read only when that is proved from its lexemes; the safety gate exempts
  nothing else.  \<open>read_from\<close> is the declarative account of the statements it lets through.
\<close>

section \<open>Data\<close>

datatype statement_class = Read | Write | Ddl | Tcl | Admin | Unknown

datatype lexeme = Word string | QuotedIdent | Open | Close | Comma | Dot

section \<open>Lexemes\<close>

definition punct_lexeme :: "char \<Rightarrow> lexeme list" where
  "punct_lexeme b =
     (if b = CHR ''('' then [Open] else if b = CHR '')'' then [Close]
      else if b = CHR '','' then [Comma] else if b = CHR ''.'' then [Dot] else [])"

text \<open>The loop over one code chunk.\<close>

function code_lexemes :: "string \<Rightarrow> nat \<Rightarrow> nat \<Rightarrow> lexeme list" where
  "code_lexemes bs i e =
     (if i < e then
        let b = bs ! i in
        if is_ascii_whitespace b then code_lexemes bs (i + 1) e
        else if is_word_start b then
          let j = run_while is_word_continue bs (i + 1) e
          in Word (slice bs i j) # code_lexemes bs j e
        else punct_lexeme b @ code_lexemes bs (i + 1) e
      else [])"
  by pat_completeness auto
termination
  by (relation "measure (\<lambda>(bs, i, e). e - i)")
     (auto intro!: diff_less_mono2 less_le_trans [OF _ run_while_ge])

declare code_lexemes.simps [simp del]

fun chunk_lexemes :: "string \<Rightarrow> chunk \<Rightarrow> lexeme list" where
  "chunk_lexemes bs (Code a b) = code_lexemes bs a b"
| "chunk_lexemes bs (Quoted _ _ k) =
     (if k = DoubleIdent \<or> k = Backtick \<or> k = Bracket then [QuotedIdent] else [])"
| "chunk_lexemes bs (Comment _ _) = []"

definition significant_lexemes :: "string \<Rightarrow> sql_dialect \<Rightarrow> lexeme list" where
  "significant_lexemes stmt d = concat (map (chunk_lexemes stmt) (lex_chunks stmt d))"

text \<open>\<open>word_is ks t\<close> is the test \<open>matches!(t, Some(Lexeme::Word(w)) if ...)\<close>.\<close>

definition word_is :: "string list \<Rightarrow> lexeme option \<Rightarrow> bool" where
  "word_is ks t = (case t of Some (Word w) \<Rightarrow> listed ks w | _ \<Rightarrow> False)"

section \<open>Executable comments\<close>

text \<open>\<open>windows(3)\<close> at index \<open>i\<close>: \<open>/*!\<close>, or \<open>/*M\<close> with a \<open>!\<close> after it.\<close>

definition executable_comment_at :: "string \<Rightarrow> nat \<Rightarrow> bool" where
  "executable_comment_at s i =
     (i + 2 < length s \<and> s ! i = CHR ''/'' \<and> s ! (i + 1) = CHR ''*''
      \<and> (s ! (i + 2) = CHR ''!''
         \<or> ((s ! (i + 2) = CHR ''M'' \<or> s ! (i + 2) = CHR ''m'')
            \<and> byte_at s (i + 3) = Some (CHR ''!''))))"

definition has_executable_comment :: "string \<Rightarrow> bool" where
  "has_executable_comment s = list_ex (executable_comment_at s) [0..<length s]"

section \<open>Keywords\<close>

definition classify_keyword :: "string \<Rightarrow> statement_class option" where
  "classify_keyword w =
     (if listed [''SHOW''] w then Some Read
      else if listed [''INSERT'', ''UPDATE'', ''DELETE'', ''MERGE'', ''UPSERT'', ''REPLACE'',
                      ''COPY''] w then Some Write
      else if listed [''CREATE'', ''ALTER'', ''DROP'', ''TRUNCATE'', ''COMMENT'', ''RENAME''] w
        then Some Ddl
      else if listed [''BEGIN'', ''COMMIT'', ''ROLLBACK'', ''SAVEPOINT'', ''START''] w then Some Tcl
      else if listed [''GRANT'', ''REVOKE'', ''VACUUM'', ''ANALYZE'', ''SET'', ''KILL''] w
        then Some Admin
      else None)"

section \<open>Balanced parentheses\<close>

fun depth_after :: "int \<Rightarrow> lexeme \<Rightarrow> int" where
  "depth_after n Open = n + 1"
| "depth_after n Close = n - 1"
| "depth_after n _ = n"

function skip_balanced_from :: "lexeme list \<Rightarrow> nat \<Rightarrow> int \<Rightarrow> nat option" where
  "skip_balanced_from toks i depth =
     (if i < length toks then
        let depth' = depth_after depth (toks ! i)
        in if depth' = 0 then Some (i + 1) else skip_balanced_from toks (i + 1) depth'
      else None)"
  by pat_completeness auto
termination
  by (relation "measure (\<lambda>(toks, i, d). length toks - i)") auto

declare skip_balanced_from.simps [simp del]

definition skip_balanced :: "lexeme list \<Rightarrow> nat \<Rightarrow> nat option" where
  "skip_balanced toks idx = skip_balanced_from toks idx 0"

lemma skip_balanced_from_bounds:
  "skip_balanced_from toks i depth = Some e \<Longrightarrow> i < e \<and> e \<le> length toks"
proof (induction toks i depth rule: skip_balanced_from.induct)
  case (1 toks i depth)
  let ?d = "depth_after depth (toks ! i)"
  from "1.prems" have lt: "i < length toks" and
    e: "e = i + 1 \<or> ?d \<noteq> 0 \<and> skip_balanced_from toks (i + 1) ?d = Some e"
    by (subst (asm) skip_balanced_from.simps, simp add: Let_def split: if_splits)+
  from e show ?case
  proof
    assume "e = i + 1"
    with lt show ?thesis by simp
  next
    assume "?d \<noteq> 0 \<and> skip_balanced_from toks (i + 1) ?d = Some e"
    with lt "1.IH" [OF lt refl] show ?thesis by simp
  qed
qed

lemma skip_balanced_bounds:
  "skip_balanced toks i = Some e \<Longrightarrow> i < e \<and> e \<le> length toks"
  unfolding skip_balanced_def by (rule skip_balanced_from_bounds)

section \<open>Proving a read\<close>

definition is_write_marker :: "lexeme list \<Rightarrow> nat \<Rightarrow> bool" where
  "is_write_marker toks i =
     (word_is [''INTO''] (byte_at toks i)
      \<or> (word_is [''FOR''] (byte_at toks i)
         \<and> word_is [''UPDATE'', ''SHARE'', ''NO'', ''KEY''] (byte_at toks (i + 1)))
      \<or> (word_is [''LOCK''] (byte_at toks i) \<and> word_is [''IN''] (byte_at toks (i + 1))))"

text \<open>\<open>i.checked_sub(1).and_then(|p| toks.get(p))\<close>.\<close>

definition previous :: "lexeme list \<Rightarrow> nat \<Rightarrow> lexeme option" where
  "previous toks i = (if i = 0 then None else byte_at toks (i - 1))"

fun may_be_called :: "lexeme \<Rightarrow> bool" where
  "may_be_called (Word _) = True"
| "may_be_called QuotedIdent = True"
| "may_be_called _ = False"

definition is_unvetted_call :: "lexeme list \<Rightarrow> nat \<Rightarrow> bool" where
  "is_unvetted_call toks i =
     (may_be_called (toks ! i) \<and> byte_at toks (i + 1) = Some Open
      \<and> \<not> word_is [''AS''] (previous toks i)
      \<and> \<not> (previous toks i \<noteq> Some Dot
           \<and> word_is (SYNTAX_BEFORE_PAREN @ PURE_FUNCTIONS) (byte_at toks i)))"

text \<open>The loop of \<open>prove_read\<close>: a write marker returns at once, an unvetted call only
  lowers the class.\<close>

function prove_read_from :: "lexeme list \<Rightarrow> nat \<Rightarrow> statement_class \<Rightarrow> statement_class" where
  "prove_read_from toks i cl =
     (if i < length toks then
        if is_write_marker toks i then Write
        else if is_unvetted_call toks i then prove_read_from toks (i + 1) Unknown
        else prove_read_from toks (i + 1) cl
      else cl)"
  by pat_completeness auto
termination
  by (relation "measure (\<lambda>(toks, i, c). length toks - i)") auto

declare prove_read_from.simps [simp del]

definition prove_read :: "lexeme list \<Rightarrow> statement_class" where
  "prove_read toks = prove_read_from toks 0 Read"

section \<open>EXPLAIN options and WITH headers\<close>

definition is_analyze :: "lexeme \<Rightarrow> bool" where
  "is_analyze t = word_is [''ANALYZE'', ''ANALYSE''] (Some t)"

definition EXPLAIN_OPTIONS :: "string list" where
  "EXPLAIN_OPTIONS =
     [''ANALYZE'', ''ANALYSE'', ''VERBOSE'', ''FORMAT'', ''TREE'', ''JSON'', ''TRADITIONAL'',
      ''EXTENDED'', ''PARTITIONS'']"

function skip_words :: "string list \<Rightarrow> lexeme list \<Rightarrow> nat \<Rightarrow> nat" where
  "skip_words ks toks i =
     (if i < length toks \<and> word_is ks (byte_at toks i) then skip_words ks toks (i + 1) else i)"
  by pat_completeness auto
termination
  by (relation "measure (\<lambda>(ks, toks, i). length toks - i)") auto

declare skip_words.simps [simp del]

lemma skip_words_ge: "i \<le> skip_words ks toks i"
proof (induction ks toks i rule: skip_words.induct)
  case (1 ks toks i)
  then show ?case by (subst skip_words.simps) auto
qed

text \<open>An optional parenthesised group at \<open>i\<close>; \<open>None\<close> when it never closes.\<close>

definition skip_group :: "lexeme list \<Rightarrow> nat \<Rightarrow> nat option" where
  "skip_group toks i =
     (if byte_at toks i = Some Open then skip_balanced toks i else Some i)"

definition skip_optional :: "string list \<Rightarrow> lexeme list \<Rightarrow> nat \<Rightarrow> nat" where
  "skip_optional ks toks i = (if word_is ks (byte_at toks i) then i + 1 else i)"

text \<open>The index after the options of an EXPLAIN whose options begin at \<open>i\<close>.\<close>

definition explain_body :: "lexeme list \<Rightarrow> nat \<Rightarrow> nat option" where
  "explain_body toks i = map_option (skip_words EXPLAIN_OPTIONS toks) (skip_group toks i)"

text \<open>
  One table of a WITH list from \<open>i\<close>: a name, optional column names, AS, optional NOT and
  MATERIALIZED, and a parenthesised body; the index of its opening parenthesis and the
  index after its closing one.  \<open>None\<close> stands for each early \<open>return Unknown\<close>.
\<close>

definition cte_header :: "lexeme list \<Rightarrow> nat \<Rightarrow> (nat \<times> nat) option" where
  "cte_header toks i =
     (case byte_at toks i of
        Some (Word _) \<Rightarrow>
          (case skip_group toks (i + 1) of
             None \<Rightarrow> None
           | Some j \<Rightarrow>
               if word_is [''AS''] (byte_at toks j) then
                 let b = skip_optional [''MATERIALIZED''] toks
                           (skip_optional [''NOT''] toks (j + 1))
                 in if byte_at toks b = Some Open
                    then map_option (\<lambda>e. (b, e)) (skip_balanced toks b)
                    else None
               else None)
      | _ \<Rightarrow> None)"

lemma skip_group_ge: "skip_group toks i = Some j \<Longrightarrow> i \<le> j"
  by (auto simp: skip_group_def dest: skip_balanced_bounds split: if_splits)

lemma skip_optional_ge: "i \<le> skip_optional ks toks i"
  by (simp add: skip_optional_def)

lemma explain_body_ge: "explain_body toks i = Some j \<Longrightarrow> i \<le> j"
  by (auto simp: explain_body_def intro: le_trans [OF skip_group_ge skip_words_ge])

lemma cte_header_bounds:
  assumes "cte_header toks i = Some (b, e)"
  shows "i < b \<and> b < e \<and> e \<le> length toks"
proof -
  from assms obtain j where "skip_group toks (i + 1) = Some j"
    and b: "b = skip_optional [''MATERIALIZED''] toks (skip_optional [''NOT''] toks (j + 1))"
    and e: "skip_balanced toks b = Some e"
    by (auto simp: cte_header_def Let_def split: option.splits lexeme.splits if_splits)
  then have "i + 1 \<le> j" by (auto dest: skip_group_ge)
  moreover have "j + 1 \<le> b"
    unfolding b using skip_optional_ge le_trans by meson
  ultimately show ?thesis using skip_balanced_bounds [OF e] by auto
qed

section \<open>The classifier\<close>

text \<open>
  \<open>classify_from\<close>, \<open>classify_explain\<close> and the loop of \<open>classify_with\<close>.  Like the code,
  \<open>classify_from\<close> returns the class and an index.
\<close>

function
  classify_from :: "lexeme list \<Rightarrow> nat \<Rightarrow> statement_class \<times> nat"
and classify_explain :: "lexeme list \<Rightarrow> nat \<Rightarrow> statement_class"
and with_loop :: "lexeme list \<Rightarrow> nat \<Rightarrow> statement_class \<Rightarrow> statement_class"
where
  "classify_from toks idx =
     (case byte_at toks idx of
        Some (Word first) \<Rightarrow>
          if eq_ignore_ascii_case first ''WITH'' then
            (with_loop toks (skip_optional [''RECURSIVE''] toks (idx + 1)) Read, length toks)
          else if eq_ignore_ascii_case first ''SELECT'' \<or> eq_ignore_ascii_case first ''VALUES'' then
            (prove_read (drop idx toks), idx + 1)
          else if eq_ignore_ascii_case first ''EXPLAIN'' then
            (classify_explain toks (idx + 1), length toks)
          else (case classify_keyword first of
                  Some class \<Rightarrow> (class, idx + 1)
                | None \<Rightarrow> (Unknown, idx + 1))
      | _ \<Rightarrow> (Unknown, idx))"
| "classify_explain toks start =
     (case explain_body toks start of
        None \<Rightarrow> Unknown
      | Some idx \<Rightarrow>
          if list_ex is_analyze (slice toks start idx) then fst (classify_from toks idx)
          else Read)"
| "with_loop toks idx body =
     (case cte_header toks idx of
        None \<Rightarrow> Unknown
      | Some (b, e) \<Rightarrow>
          let body' = (if body = Read then fst (classify_from (slice toks (b + 1) (e - 1)) 0)
                       else body)
          in if byte_at toks e = Some Comma then with_loop toks (e + 1) body'
             else (case fst (classify_from toks e) of Read \<Rightarrow> body' | class \<Rightarrow> class))"
  by pat_completeness auto
termination
proof (relation "measures
    [\<lambda>x. case x of Inl (t, i) \<Rightarrow> length t - i
         | Inr (Inl (t, i)) \<Rightarrow> length t - i | Inr (Inr (t, i, c)) \<Rightarrow> length t - i,
     \<lambda>x. case x of Inl _ \<Rightarrow> (0::nat) | Inr _ \<Rightarrow> 1]", goal_cases)
  case 1
  show ?case by simp
next
  case (2 toks idx w first)
  then show ?case using skip_optional_ge [of "idx + 1" "[''RECURSIVE'']" toks]
    by (auto simp: byte_at_Some)
next
  case (3 toks idx w first)
  then show ?case by (auto simp: byte_at_Some)
next
  case (4 toks start idx)
  then show ?case using explain_body_ge [of toks start idx] by auto
next
  case (5 toks idx body p b e)
  then show ?case using cte_header_bounds [of toks idx b e] by auto
next
  case (6 toks idx body p b e)
  then show ?case using cte_header_bounds [of toks idx b e] by auto
next
  case (7 toks idx body p b e)
  then show ?case using cte_header_bounds [of toks idx b e] by auto
qed

declare classify_from.simps [simp del] classify_explain.simps [simp del] with_loop.simps [simp del]

definition classify_with :: "lexeme list \<Rightarrow> nat \<Rightarrow> statement_class" where
  "classify_with toks idx = with_loop toks (skip_optional [''RECURSIVE''] toks idx) Read"

text \<open>\<open>classify\<close>: MySQL runs the bodies of \<open>/*! */\<close> comments, so a text that holds one is
  never a proved read.\<close>

definition classify :: "string \<Rightarrow> sql_dialect \<Rightarrow> statement_class" where
  "classify stmt d =
     (case fst (classify_from (significant_lexemes stmt d) 0) of
        Read \<Rightarrow> if has_executable_comment stmt then Unknown else Read
      | class \<Rightarrow> class)"

section \<open>What is let through as a read\<close>

lemma prove_read_from_eq:
  "cl \<noteq> Write \<Longrightarrow> prove_read_from toks i cl =
     (if ex_from (is_write_marker toks) i (length toks) then Write
      else if ex_from (is_unvetted_call toks) i (length toks) then Unknown
      else cl)"
proof (induction toks i cl rule: prove_read_from.induct)
  case (1 toks i cl)
  show ?case
  proof (cases "i < length toks")
    case False
    then show ?thesis by (subst prove_read_from.simps) (simp add: ex_from_end)
  next
    case True
    note step = ex_from_step [OF True, of "is_write_marker toks"]
      ex_from_step [OF True, of "is_unvetted_call toks"]
    consider (marker) "is_write_marker toks i"
      | (call) "\<not> is_write_marker toks i" "is_unvetted_call toks i"
      | (plain) "\<not> is_write_marker toks i" "\<not> is_unvetted_call toks i" by blast
    then show ?thesis
    proof cases
      case marker
      with True show ?thesis by (subst prove_read_from.simps) (simp add: step)
    next
      case call
      with True "1.IH"(1) show ?thesis
        by (subst prove_read_from.simps) (simp add: step)
    next
      case plain
      with True "1.IH"(2) "1.prems" show ?thesis
        by (subst prove_read_from.simps) (simp add: step)
    qed
  qed
qed

lemma prove_read_eq:
  "prove_read toks =
     (if \<exists>j < length toks. is_write_marker toks j then Write
      else if \<exists>j < length toks. is_unvetted_call toks j then Unknown
      else Read)"
  by (simp add: prove_read_def prove_read_from_eq ex_from_0)

text \<open>
  The reads, declaratively.  \<open>read_from toks i\<close>: the statement at \<open>i\<close> is a SHOW, a proved
  SELECT or VALUES, an EXPLAIN that does not execute or executes a read, or a WITH;
  \<open>read_with toks i\<close>: the table list at \<open>i\<close> has only read bodies and a read main statement.
\<close>

inductive read_from :: "lexeme list \<Rightarrow> nat \<Rightarrow> bool"
  and read_with :: "lexeme list \<Rightarrow> nat \<Rightarrow> bool"
where
  read_show: "word_is [''SHOW''] (byte_at toks i) \<Longrightarrow> read_from toks i"
| read_select: "word_is [''SELECT'', ''VALUES''] (byte_at toks i) \<Longrightarrow>
    \<forall>j < length toks - i. \<not> is_write_marker (drop i toks) j \<and> \<not> is_unvetted_call (drop i toks) j
    \<Longrightarrow> read_from toks i"
| read_explain_plan: "word_is [''EXPLAIN''] (byte_at toks i) \<Longrightarrow>
    explain_body toks (i + 1) = Some j \<Longrightarrow> \<not> list_ex is_analyze (slice toks (i + 1) j)
    \<Longrightarrow> read_from toks i"
| read_explain_analyze: "word_is [''EXPLAIN''] (byte_at toks i) \<Longrightarrow>
    explain_body toks (i + 1) = Some j \<Longrightarrow> read_from toks j \<Longrightarrow> read_from toks i"
| read_with_stmt: "word_is [''WITH''] (byte_at toks i) \<Longrightarrow>
    read_with toks (skip_optional [''RECURSIVE''] toks (i + 1)) \<Longrightarrow> read_from toks i"
| read_with_more: "cte_header toks i = Some (b, e) \<Longrightarrow>
    read_from (slice toks (b + 1) (e - 1)) 0 \<Longrightarrow> byte_at toks e = Some Comma \<Longrightarrow>
    read_with toks (e + 1) \<Longrightarrow> read_with toks i"
| read_with_last: "cte_header toks i = Some (b, e) \<Longrightarrow>
    read_from (slice toks (b + 1) (e - 1)) 0 \<Longrightarrow> byte_at toks e \<noteq> Some Comma \<Longrightarrow>
    read_from toks e \<Longrightarrow> read_with toks i"

lemma word_is_one: "word_is [k] (Some (Word w)) = eq_ignore_ascii_case w k"
  by (simp add: word_is_def listed_def)

lemma word_is_cons:
  "word_is (k # ks) t = ((\<exists>w. t = Some (Word w) \<and> eq_ignore_ascii_case w k) \<or> word_is ks t)"
  by (auto simp: word_is_def listed_def split: option.splits lexeme.splits)

lemma word_is_nil [simp]: "word_is [] t = False"
  by (auto simp: word_is_def listed_def split: option.splits lexeme.splits)

lemma classify_keyword_read: "classify_keyword w = Some Read \<longleftrightarrow> eq_ignore_ascii_case w ''SHOW''"
  by (auto simp: classify_keyword_def listed_def)

text \<open>Comparing a word with the statement keywords, in lower case.\<close>

lemma lower_words:
  "map ascii_lower ''WITH'' = ''with''" "map ascii_lower ''SHOW'' = ''show''"
  "map ascii_lower ''SELECT'' = ''select''" "map ascii_lower ''VALUES'' = ''values''"
  "map ascii_lower ''EXPLAIN'' = ''explain''"
  by code_simp+

lemmas word_eqs = eq_ignore_ascii_case_def lower_words

lemma with_loop_read_body: "with_loop toks i body = Read \<Longrightarrow> body = Read"
proof (induction "length toks - i" arbitrary: i body rule: less_induct)
  case less
  from less.prems obtain b e where h: "cte_header toks i = Some (b, e)"
    by (subst (asm) with_loop.simps) (auto split: option.splits)
  note bounds = cte_header_bounds [OF h]
  show ?case
  proof (rule ccontr)
    assume body: "body \<noteq> Read"
    show False
    proof (cases "byte_at toks e = Some Comma")
      case True
      with less.prems h body have "with_loop toks (e + 1) body = Read"
        by (subst (asm) with_loop.simps) (simp add: Let_def)
      moreover have "length toks - (e + 1) < length toks - i" using bounds by linarith
      ultimately show False using less.hyps body by blast
    next
      case False
      with less.prems h body show False
        by (subst (asm) with_loop.simps) (simp add: Let_def split: statement_class.splits)
    qed
  qed
qed

lemma classify_sound:
  "(fst (classify_from toks i) = Read \<longrightarrow> read_from toks i)"
  "(classify_explain toks i = Read \<longrightarrow>
      (\<exists>j. explain_body toks i = Some j \<and>
        (\<not> list_ex is_analyze (slice toks i j) \<or> read_from toks j)))"
  "(with_loop toks i cl = Read \<longrightarrow> read_with toks i)"
proof (induction toks i and toks i and toks i cl
    rule: classify_from_classify_explain_with_loop.induct)
  case (1 toks i)
  show ?case
  proof (cases "\<exists>w. byte_at toks i = Some (Word w)")
    case False
    then show ?thesis
      by (subst classify_from.simps) (auto split: option.splits lexeme.splits)
  next
    case True
    then obtain w where w: "byte_at toks i = Some (Word w)" by blast
    show ?thesis
    proof
      assume read: "fst (classify_from toks i) = Read"
      show "read_from toks i"
      proof (cases "eq_ignore_ascii_case w ''WITH''")
        case True
        with w read "1.IH"(1) [of "Word w" w] show ?thesis
          by (subst (asm) classify_from.simps)
             (auto intro!: read_with_stmt simp: word_is_one)
      next
        case nw: False
        show ?thesis
        proof (cases "eq_ignore_ascii_case w ''SELECT'' \<or> eq_ignore_ascii_case w ''VALUES''")
          case True
          with w read nw have "prove_read (drop i toks) = Read"
            by (subst (asm) classify_from.simps) auto
          with True w show ?thesis
            by (intro read_select) (auto simp: prove_read_eq word_is_cons split: if_splits)
        next
          case ns: False
          show ?thesis
          proof (cases "eq_ignore_ascii_case w ''EXPLAIN''")
            case True
            with w read nw ns have "classify_explain toks (i + 1) = Read"
              by (subst (asm) classify_from.simps) auto
            with True w nw ns "1.IH"(2) [of "Word w" w] show ?thesis
              by (auto intro: read_explain_plan read_explain_analyze simp: word_is_one
                 )
          next
            case False
            with w read nw ns have "classify_keyword w = Some Read"
              by (subst (asm) classify_from.simps) (auto split: option.splits)
            with w show ?thesis
              by (intro read_show) (simp add: word_is_one classify_keyword_read)
          qed
        qed
      qed
    qed
  qed
next
  case (2 toks i)
  then show ?case
    by (subst classify_explain.simps) (auto split: option.splits if_splits)
next
  case (3 toks i cl)
  show ?case
  proof
    assume read: "with_loop toks i cl = Read"
    then have cl: "cl = Read" by (rule with_loop_read_body)
    from read obtain b e where h: "cte_header toks i = Some (b, e)"
      by (subst (asm) with_loop.simps) (auto split: option.splits)
    let ?body = "fst (classify_from (slice toks (b + 1) (e - 1)) 0)"
    note IHs = "3.IH" [OF h refl]
    show "read_with toks i"
    proof (cases "byte_at toks e = Some Comma")
      case True
      with read h cl have more: "with_loop toks (e + 1) ?body = Read"
        by (subst (asm) with_loop.simps) (simp add: Let_def)
      then have body: "?body = Read" by (rule with_loop_read_body)
      from body IHs(1) [OF cl] have "read_from (slice toks (b + 1) (e - 1)) 0" by simp
      moreover from more body IHs(2) [OF refl True] cl have "read_with toks (e + 1)" by simp
      ultimately show ?thesis using h True by (blast intro: read_with_more)
    next
      case False
      with read h cl have main: "fst (classify_from toks e) = Read" and body: "?body = Read"
        by (subst (asm) with_loop.simps, simp add: Let_def split: statement_class.splits)+
      from body IHs(1) [OF cl] have "read_from (slice toks (b + 1) (e - 1)) 0" by simp
      moreover from main IHs(3) [OF refl False] have "read_from toks e" by simp
      ultimately show ?thesis using h False by (blast intro: read_with_last)
    qed
  qed
qed

lemma word_is_oneE:
  assumes "word_is [k] t"
  obtains w where "t = Some (Word w)" and "map ascii_lower w = map ascii_lower k"
  using assms by (auto simp: word_is_cons eq_ignore_ascii_case_def)

lemma classify_complete:
  "read_from toks i \<Longrightarrow> fst (classify_from toks i) = Read"
  "read_with toks i \<Longrightarrow> with_loop toks i Read = Read"
proof (induction rule: read_from_read_with.inducts)
  case (read_show toks i)
  then obtain w where w: "byte_at toks i = Some (Word w)"
    and k: "map ascii_lower w = map ascii_lower ''SHOW''" by (rule word_is_oneE)
  from k have kw: "classify_keyword w = Some Read"
    by (simp only: classify_keyword_read eq_ignore_ascii_case_def)
  have "\<not> eq_ignore_ascii_case w ''WITH''" "\<not> eq_ignore_ascii_case w ''SELECT''"
    "\<not> eq_ignore_ascii_case w ''VALUES''" "\<not> eq_ignore_ascii_case w ''EXPLAIN''"
    by (simp_all add: word_eqs k del: list.map)
  with w kw show ?case by (subst classify_from.simps) simp
next
  case (read_select toks i)
  then obtain w where w: "byte_at toks i = Some (Word w)"
    and k: "map ascii_lower w = map ascii_lower ''SELECT'' \<or> map ascii_lower w = map ascii_lower ''VALUES''"
    by (auto simp: word_is_cons eq_ignore_ascii_case_def)
  from read_select(2) have "prove_read (drop i toks) = Read" by (auto simp: prove_read_eq)
  with w k show ?case
    by (subst classify_from.simps) (auto simp: word_eqs)
next
  case (read_explain_plan toks i j)
  from read_explain_plan(1) obtain w where w: "byte_at toks i = Some (Word w)"
    and k: "map ascii_lower w = map ascii_lower ''EXPLAIN''" by (rule word_is_oneE)
  from read_explain_plan have "classify_explain toks (i + 1) = Read"
    by (subst classify_explain.simps) simp
  with w k show ?case
    by (subst classify_from.simps) (auto simp: word_eqs)
next
  case (read_explain_analyze toks i j)
  from read_explain_analyze(1) obtain w where w: "byte_at toks i = Some (Word w)"
    and k: "map ascii_lower w = map ascii_lower ''EXPLAIN''" by (rule word_is_oneE)
  from read_explain_analyze have "classify_explain toks (i + 1) = Read"
    by (subst classify_explain.simps) simp
  with w k show ?case
    by (subst classify_from.simps) (auto simp: word_eqs)
next
  case (read_with_stmt toks i)
  from read_with_stmt(1) obtain w where w: "byte_at toks i = Some (Word w)"
    and k: "map ascii_lower w = map ascii_lower ''WITH''" by (rule word_is_oneE)
  with read_with_stmt.IH show ?case
    by (subst classify_from.simps) (simp add: word_eqs)
next
  case (read_with_more toks i b e)
  then show ?case by (subst with_loop.simps) (simp add: Let_def)
next
  case (read_with_last toks i b e)
  then show ?case by (subst with_loop.simps) (simp add: Let_def)
qed

text \<open>
  C6.  The classifier calls a statement a read exactly when its lexemes form one of the
  read shapes of \<open>read_from\<close> (a SHOW, a SELECT or VALUES without write marker or unvetted
  call, an EXPLAIN that runs nothing or runs a read, a WITH whose every body and main
  statement is a read) and the text holds no executable comment.
\<close>

theorem classify_read_iff:
  "classify stmt d = Read \<longleftrightarrow>
     read_from (significant_lexemes stmt d) 0 \<and> \<not> has_executable_comment stmt"
proof -
  have "fst (classify_from (significant_lexemes stmt d) 0) = Read
      \<longleftrightarrow> read_from (significant_lexemes stmt d) 0"
    using classify_sound(1) classify_complete(1) by blast
  then show ?thesis
    by (auto simp: classify_def split: statement_class.splits)
qed

text \<open>
  A statement classified as a read that begins with SELECT or VALUES holds no INTO, no
  FOR UPDATE, FOR SHARE, FOR NO KEY or FOR KEY and no LOCK IN among its lexemes, and every
  name before a parenthesis is an unqualified syntax word or vetted function, or an alias
  after AS.
\<close>

theorem read_select_is_pure:
  assumes "classify stmt d = Read"
    and "word_is [''SELECT'', ''VALUES''] (byte_at (significant_lexemes stmt d) 0)"
    and "j < length (significant_lexemes stmt d)"
  shows "\<not> is_write_marker (significant_lexemes stmt d) j
       \<and> \<not> is_unvetted_call (significant_lexemes stmt d) j"
proof -
  let ?toks = "significant_lexemes stmt d"
  have "fst (classify_from ?toks 0) = Read"
    using assms(1) by (auto simp: classify_read_iff intro: classify_complete(1))
  moreover from assms(2) obtain w where w: "byte_at ?toks 0 = Some (Word w)"
    and k: "map ascii_lower w = map ascii_lower ''SELECT'' \<or> map ascii_lower w = map ascii_lower ''VALUES''"
    by (auto simp: word_is_cons eq_ignore_ascii_case_def)
  ultimately have "prove_read (drop 0 ?toks) = Read"
    by (subst (asm) classify_from.simps) (auto simp: word_eqs)
  then show ?thesis using assms(3) by (auto simp: prove_read_eq split: if_splits)
qed

lemma classify_example: "classify ''select a'' Postgres = Read"
  by code_simp

lemma lexemes_example: "significant_lexemes ''select a'' Postgres = [Word ''select'', Word ''a'']"
  by code_simp

lemma read_select_is_pure_witness:
  "\<not> is_write_marker (significant_lexemes ''select a'' Postgres) 1"
proof -
  have "word_is [''SELECT'', ''VALUES''] (byte_at (significant_lexemes ''select a'' Postgres) 0)"
    by code_simp
  then show ?thesis
    using read_select_is_pure [of "''select a''" Postgres 1] classify_example
    by (simp add: lexemes_example)
qed

end
