(* ===== verification/Directives.thy ===== *)
theory Directives
  imports DG_Prelude
begin

text \<open>
  The directive comments of \<open>crates/datagrep-lang/src/directives.rs\<close>: the lines
  \<open>-- @limit 10\<close> directly above a statement.  \<open>extract_directive_lines\<close> collects the
  run of marker lines that ends at the statement, \<open>parse_directives\<close> turns them into a
  \<open>directives\<close> record or the error of the first line that is not one.
\<close>

section \<open>Data\<close>

text \<open>A \<open>Duration\<close> is its number of milliseconds.\<close>

record directives =
  dir_limit :: "nat option"
  dir_timeout :: "nat option"
  dir_connection :: "string option"
  dir_readonly :: bool

datatype directive_error =
    UnknownDirective string
  | InvalidValue string string string

definition default_directives :: directives where
  "default_directives =
     \<lparr>dir_limit = None, dir_timeout = None, dir_connection = None, dir_readonly = False\<rparr>"

section \<open>Parsing\<close>

definition parse_duration :: "string \<Rightarrow> nat option" where
  "parse_duration s0 =
     (let s = trim s0 in
      if s = [] then None
      else case find_index (\<lambda>c. \<not> is_ascii_digit c) s of
          None \<Rightarrow> None
        | Some k \<Rightarrow>
            if k = 0 then None
            else case parse_u64 (take k s) of
                None \<Rightarrow> None
              | Some n \<Rightarrow>
                  (let unit = drop k s in
                   if unit = ''ms'' then Some n
                   else if unit = ''s'' then Some (n * 1000)
                   else if unit = ''m'' then map_option (\<lambda>m. m * 1000) (u64_checked_mul n 60)
                   else if unit = ''h'' then map_option (\<lambda>m. m * 1000) (u64_checked_mul n 3600)
                   else None))"

text \<open>The \<open>match key\<close> of one directive line.\<close>

definition apply_directive ::
  "string \<Rightarrow> string \<Rightarrow> directives \<Rightarrow> directive_error + directives" where
  "apply_directive key val out =
     (if key = ''limit'' then
        (case parse_u64 val of
           Some n \<Rightarrow> Inr (out\<lparr>dir_limit := Some n\<rparr>)
         | None \<Rightarrow> Inl (InvalidValue ''limit'' val ''expected a non-negative integer''))
      else if key = ''timeout'' then
        (case parse_duration val of
           Some t \<Rightarrow> Inr (out\<lparr>dir_timeout := Some t\<rparr>)
         | None \<Rightarrow> Inl (InvalidValue ''timeout'' val
                          ''expected a duration like 30s, 500ms, 5m, or 2h''))
      else if key = ''connection'' then
        (if val = [] then Inl (InvalidValue ''connection'' val ''expected a connection name'')
         else Inr (out\<lparr>dir_connection := Some val\<rparr>))
      else if key = ''readonly'' then
        (if val \<noteq> [] then Inl (InvalidValue ''readonly'' val ''@readonly takes no value'')
         else Inr (out\<lparr>dir_readonly := True\<rparr>))
      else Inl (UnknownDirective key))"

definition directive_line :: "string \<Rightarrow> directives \<Rightarrow> directive_error + directives" where
  "directive_line line out =
     (case strip_prefix ''@'' (trim line) of
        None \<Rightarrow> Inl (InvalidValue ''?'' line ''directive lines must start with @'')
      | Some rest \<Rightarrow>
          (case split_once_ws rest of
             Some (k, v) \<Rightarrow> apply_directive k (trim v) out
           | None \<Rightarrow> apply_directive rest [] out))"

fun parse_lines :: "string list \<Rightarrow> directives \<Rightarrow> directive_error + directives" where
  "parse_lines [] out = Inr out"
| "parse_lines (l # ls) out =
     (case directive_line l out of Inl e \<Rightarrow> Inl e | Inr out' \<Rightarrow> parse_lines ls out')"

definition parse_directives :: "string list \<Rightarrow> directive_error + directives" where
  "parse_directives ls = parse_lines ls default_directives"

section \<open>Collecting the lines above a statement\<close>

text \<open>\<open>src[..line_end].rfind('\\n').map(|i| i + 1).unwrap_or(0)\<close>.\<close>

fun line_start_before :: "string \<Rightarrow> nat \<Rightarrow> nat" where
  "line_start_before src 0 = 0"
| "line_start_before src (Suc n) = (if src ! n = newline then Suc n else line_start_before src n)"

lemma line_start_before_le: "line_start_before src n \<le> n"
  by (induction n) auto

text \<open>The text after the marker when the line from \<open>a\<close> to \<open>b\<close> is a directive line.\<close>

definition directive_text :: "string \<Rightarrow> string \<Rightarrow> nat \<Rightarrow> nat \<Rightarrow> string option" where
  "directive_text marker src a b =
     (case strip_prefix marker (trim_start (slice src a b)) of
        None \<Rightarrow> None
      | Some rest \<Rightarrow>
          (let t = trim_start rest in if starts_with t ''@'' then Some t else None))"

text \<open>The loop of \<open>extract_directive_lines\<close>: the lines, last one first.\<close>

function directive_lines_rev :: "string \<Rightarrow> string \<Rightarrow> nat \<Rightarrow> string list" where
  "directive_lines_rev marker src pos =
     (if pos = 0 \<or> byte_at src (pos - 1) \<noteq> Some newline then []
      else case directive_text marker src (line_start_before src (pos - 1)) (pos - 1) of
             None \<Rightarrow> []
           | Some l \<Rightarrow> l # directive_lines_rev marker src (line_start_before src (pos - 1)))"
  by pat_completeness auto
termination
proof (relation "measure (\<lambda>(m, s, pos). pos)", goal_cases)
  case (2 marker src pos l)
  then show ?case using line_start_before_le [of src "pos - 1"] by auto
qed simp

declare directive_lines_rev.simps [simp del]

definition extract_directive_lines :: "string \<Rightarrow> nat \<Rightarrow> string \<Rightarrow> string list" where
  "extract_directive_lines src stmt_start marker = rev (directive_lines_rev marker src stmt_start)"

section \<open>What the parser promises\<close>

lemma parse_lines_append:
  "parse_lines (xs @ ys) out =
     (case parse_lines xs out of Inl e \<Rightarrow> Inl e | Inr out' \<Rightarrow> parse_lines ys out')"
  by (induction xs arbitrary: out) (auto split: sum.splits)

text \<open>What one line sets on its own, and what the last line of a list to set a field sets it to.\<close>

definition line_sets :: "(directives \<Rightarrow> 'a option) \<Rightarrow> string \<Rightarrow> 'a option" where
  "line_sets f l = (case directive_line l default_directives of Inr d \<Rightarrow> f d | Inl _ \<Rightarrow> None)"

definition later :: "'a option \<Rightarrow> 'a option \<Rightarrow> 'a option" where
  "later new old = (case new of None \<Rightarrow> old | Some n \<Rightarrow> Some n)"

definition last_set :: "(directives \<Rightarrow> 'a option) \<Rightarrow> string list \<Rightarrow> 'a option" where
  "last_set f ls = fold (\<lambda>l. later (line_sets f l)) ls None"

definition accepted_line :: "string \<Rightarrow> bool" where
  "accepted_line l = (\<exists>d. directive_line l default_directives = Inr d)"

definition is_readonly_line :: "string \<Rightarrow> bool" where
  "is_readonly_line l =
     (case directive_line l default_directives of Inr d \<Rightarrow> dir_readonly d | Inl _ \<Rightarrow> False)"

lemma apply_directive_simps:
  "apply_directive ''limit'' v out =
     (case parse_u64 v of Some n \<Rightarrow> Inr (out\<lparr>dir_limit := Some n\<rparr>)
      | None \<Rightarrow> Inl (InvalidValue ''limit'' v ''expected a non-negative integer''))"
  "apply_directive ''timeout'' v out =
     (case parse_duration v of Some t \<Rightarrow> Inr (out\<lparr>dir_timeout := Some t\<rparr>)
      | None \<Rightarrow> Inl (InvalidValue ''timeout'' v ''expected a duration like 30s, 500ms, 5m, or 2h''))"
  "apply_directive ''connection'' v out =
     (if v = [] then Inl (InvalidValue ''connection'' v ''expected a connection name'')
      else Inr (out\<lparr>dir_connection := Some v\<rparr>))"
  "apply_directive ''readonly'' v out =
     (if v \<noteq> [] then Inl (InvalidValue ''readonly'' v ''@readonly takes no value'')
      else Inr (out\<lparr>dir_readonly := True\<rparr>))"
  by (simp_all add: apply_directive_def)

text \<open>A key that is none of the four.\<close>

definition unknown_key :: "string \<Rightarrow> bool" where
  "unknown_key k = (\<not> (k = ''limit'' \<or> k = ''timeout'' \<or> k = ''connection'' \<or> k = ''readonly''))"

lemma apply_directive_unknown:
  "unknown_key k \<Longrightarrow> apply_directive k v out = Inl (UnknownDirective k)"
  by (simp only: unknown_key_def apply_directive_def if_False de_Morgan_disj simp_thms)

lemma five_cases: "a \<or> b \<or> c \<or> d \<or> \<not> (a \<or> b \<or> c \<or> d)"
  by blast

lemma directive_keys [case_names limit timeout connection readonly unknown]:
  assumes "P ''limit''" and "P ''timeout''" and "P ''connection''" and "P ''readonly''"
    and "unknown_key k \<Longrightarrow> P k"
  shows "P k"
proof -
  have "k = ''limit'' \<or> k = ''timeout'' \<or> k = ''connection'' \<or> k = ''readonly'' \<or> unknown_key k"
    unfolding unknown_key_def by (rule five_cases)
  then show ?thesis
    apply (elim disjE)
    apply (simp only: assms(1))
    apply (simp only: assms(2))
    apply (simp only: assms(3))
    apply (simp only: assms(4))
    apply (rule assms(5), assumption)
    done
qed

lemma apply_directive_frame:
  "apply_directive k v out = Inr out' \<Longrightarrow>
     \<exists>d. apply_directive k v default_directives = Inr d
       \<and> dir_limit out' = later (dir_limit d) (dir_limit out)
       \<and> dir_timeout out' = later (dir_timeout d) (dir_timeout out)
       \<and> dir_connection out' = later (dir_connection d) (dir_connection out)
       \<and> dir_readonly out' = (dir_readonly d \<or> dir_readonly out)"
proof (induction k rule: directive_keys)
  case unknown
  then show ?case by (simp add: apply_directive_unknown)
qed (auto simp: apply_directive_simps default_directives_def later_def
       split: if_splits option.splits)

lemma directive_line_frame:
  "directive_line l out = Inr out' \<Longrightarrow>
     dir_limit out' = later (line_sets dir_limit l) (dir_limit out)
     \<and> dir_timeout out' = later (line_sets dir_timeout l) (dir_timeout out)
     \<and> dir_connection out' = later (line_sets dir_connection l) (dir_connection out)
     \<and> dir_readonly out' = (is_readonly_line l \<or> dir_readonly out)"
proof -
  assume *: "directive_line l out = Inr out'"
  then obtain k v where out: "apply_directive k v out = Inr out'"
    and eq: "directive_line l default_directives = apply_directive k v default_directives"
    by (auto simp: directive_line_def split: option.splits prod.splits)
  from apply_directive_frame [OF out] eq show ?thesis
    by (auto simp: line_sets_def is_readonly_line_def)
qed

lemma parse_lines_frame:
  "parse_lines ls out = Inr d \<Longrightarrow>
     dir_limit d = fold (\<lambda>l. later (line_sets dir_limit l)) ls (dir_limit out)
     \<and> dir_timeout d = fold (\<lambda>l. later (line_sets dir_timeout l)) ls (dir_timeout out)
     \<and> dir_connection d = fold (\<lambda>l. later (line_sets dir_connection l)) ls (dir_connection out)
     \<and> dir_readonly d = (list_ex is_readonly_line ls \<or> dir_readonly out)"
proof (induction ls arbitrary: out)
  case (Cons l ls)
  then obtain o1 where o1: "directive_line l out = Inr o1" and rest: "parse_lines ls o1 = Inr d"
    by (auto split: sum.splits)
  from directive_line_frame [OF o1] Cons.IH [OF rest] show ?case by auto
qed simp

lemma apply_directive_ok_any:
  "(\<exists>d. apply_directive k v o1 = Inr d) = (\<exists>d. apply_directive k v o2 = Inr d)"
proof (induction k rule: directive_keys)
  case unknown
  then show ?case by (simp add: apply_directive_unknown)
qed (auto simp: apply_directive_simps split: if_splits option.splits)

lemma directive_line_ok_any:
  "(\<exists>d. directive_line l o1 = Inr d) = (\<exists>d. directive_line l o2 = Inr d)"
  using apply_directive_ok_any [of _ _ o1 o2]
  by (auto simp: directive_line_def split: option.splits prod.splits)

lemma parse_lines_ok: "(\<exists>d. parse_lines ls out = Inr d) =
    (\<forall>l \<in> set ls. \<exists>d. directive_line l default_directives = Inr d)"
proof (induction ls arbitrary: out)
  case (Cons l ls)
  show ?case
  proof (cases "directive_line l out")
    case (Inl e)
    then have "\<not> (\<exists>d. directive_line l default_directives = Inr d)"
      using directive_line_ok_any [of l out default_directives] by simp
    with Inl show ?thesis by auto
  next
    case (Inr o1)
    then have "\<exists>d. directive_line l default_directives = Inr d"
      using directive_line_ok_any [of l out default_directives] by simp
    with Inr Cons.IH [of o1] show ?thesis by auto
  qed
qed simp

text \<open>
  A block of directive lines parses exactly when every line parses on its own, and then
  each field holds what the last line that sets it sets it to, and \<open>readonly\<close> holds when any
  line is an \<open>@readonly\<close>.
\<close>

theorem parse_directives_meaning:
  "parse_directives ls = Inr d \<longleftrightarrow>
     list_all accepted_line ls
     \<and> d = \<lparr>dir_limit = last_set dir_limit ls, dir_timeout = last_set dir_timeout ls,
            dir_connection = last_set dir_connection ls,
            dir_readonly = list_ex is_readonly_line ls\<rparr>"
proof -
  have frame: "d' = \<lparr>dir_limit = last_set dir_limit ls, dir_timeout = last_set dir_timeout ls,
      dir_connection = last_set dir_connection ls,
      dir_readonly = list_ex is_readonly_line ls\<rparr>" if "parse_directives ls = Inr d'" for d'
    using parse_lines_frame [of ls default_directives d'] that
    by (auto simp: parse_directives_def default_directives_def last_set_def)
  show ?thesis
    using frame parse_lines_ok [of ls default_directives]
    by (auto simp: parse_directives_def list_all_iff accepted_line_def)
qed

section \<open>Lines collected above a statement\<close>

lemma trim_at: "\<exists>r. trim (CHR ''@'' # s) = CHR ''@'' # r"
  by (rule trim_keep) (simp_all add: ws_single_def bval_def)

lemma directive_lines_rev_at: "\<forall>l \<in> set (directive_lines_rev marker src pos). starts_with l ''@''"
proof (induction marker src pos rule: directive_lines_rev.induct)
  case (1 marker src pos)
  show ?case
  proof (cases "pos = 0 \<or> byte_at src (pos - 1) \<noteq> Some newline")
    case True
    then show ?thesis by (simp add: directive_lines_rev.simps [of marker src pos])
  next
    case False
    show ?thesis
    proof (cases "directive_text marker src (line_start_before src (pos - 1)) (pos - 1)")
      case None
      then show ?thesis by (simp add: directive_lines_rev.simps [of marker src pos])
    next
      case (Some l)
      then have "starts_with l ''@''"
        by (auto simp: directive_text_def Let_def split: option.splits if_splits)
      with "1.IH" [OF False Some] False Some show ?thesis
        by (simp add: directive_lines_rev.simps [of marker src pos])
    qed
  qed
qed

lemma apply_directive_key: "apply_directive k v out = Inl (InvalidValue n w r) \<Longrightarrow> n \<noteq> ''?''"
proof (induction k rule: directive_keys)
  case unknown
  then show ?case by (simp add: apply_directive_unknown)
qed (auto simp: apply_directive_simps split: if_splits option.splits)

lemma parse_lines_no_question:
  "\<forall>l \<in> set ls. starts_with l ''@'' \<Longrightarrow> parse_lines ls out \<noteq> Inl (InvalidValue ''?'' v r)"
proof (induction ls arbitrary: out)
  case (Cons l ls)
  from Cons.prems obtain s where "l = CHR ''@'' # s" by (auto simp: starts_with_iff)
  then obtain r' where "strip_prefix ''@'' (trim l) = Some r'"
    using trim_at [of s] by (auto simp: strip_prefix_def)
  then have "directive_line l out \<noteq> Inl (InvalidValue ''?'' v r)"
    by (auto simp: directive_line_def dest: apply_directive_key split: option.splits)
  with Cons show ?case by (auto split: sum.splits)
qed simp

text \<open>
  Every line \<open>extract_directive_lines\<close> collects is directive text, so parsing what it
  collects never fails for want of an \<open>@\<close>: only unknown names and bad values are reported.
\<close>

theorem extracted_lines_are_directives:
  "parse_directives (extract_directive_lines src p marker) \<noteq> Inl (InvalidValue ''?'' v r)"
  unfolding parse_directives_def extract_directive_lines_def
  by (rule parse_lines_no_question) (simp add: directive_lines_rev_at)

end
