(* ===== verification/Sql_Splitter.thy ===== *)
theory Sql_Splitter
  imports Sql_Lexer Directives
begin

text \<open>
  The statement splitter of \<open>crates/datagrep-lang/src/sql/splitter.rs\<close>.  It walks the code
  chunks, cuts at the terminator (\<open>;\<close> unless a MySQL DELIMITER line changes it, and a GO
  line in SQL Server), and attaches the directives above each statement.  Every slice of the
  text that Rust checks is checked here: \<open>None\<close> is the panic.
\<close>

section \<open>Data\<close>

record statement_span =
  span_start :: nat
  span_end :: nat
  span_directives :: "directive_error + directives"

record split_state =
  sp_spans :: "statement_span list"
  sp_start :: nat
  sp_terminator :: string

definition SQL_DIRECTIVE_MARKER :: string where
  "SQL_DIRECTIVE_MARKER = ''--''"

section \<open>Lines\<close>

definition skip_newline :: "string \<Rightarrow> nat \<Rightarrow> nat" where
  "skip_newline bs pos = (if byte_at bs pos = Some newline then pos + 1 else pos)"

definition line_end_at :: "string \<Rightarrow> nat \<Rightarrow> nat option" where
  "line_end_at bs start = (if length bs \<le> start then None else Some (scan_line_comment bs start))"

definition is_go_line :: "string \<Rightarrow> bool" where
  "is_go_line trimmed =
     (case split_whitespace trimmed of
        [go] \<Rightarrow> eq_ignore_ascii_case go ''go''
      | [go, n] \<Rightarrow> eq_ignore_ascii_case go ''go'' \<and> n \<noteq> [] \<and> list_all is_ascii_digit n
      | _ \<Rightarrow> False)"

definition delimiter_kw :: string where
  "delimiter_kw = ''delimiter''"

text \<open>\<open>parse_delimiter_line\<close>; the outer \<open>None\<close> is the panic of \<open>split_at\<close> inside a
  character.\<close>

definition parse_delimiter_line :: "string \<Rightarrow> string option option" where
  "parse_delimiter_line trimmed =
     (if length trimmed \<le> length delimiter_kw then Some None
      else if \<not> is_char_boundary trimmed (length delimiter_kw) then None
      else let head = take (length delimiter_kw) trimmed;
               tail = drop (length delimiter_kw) trimmed
           in Some (if \<not> eq_ignore_ascii_case head delimiter_kw then None
                    else if ws_len tail = 0 then None
                    else let rest = trim tail in if rest = [] then None else Some rest))"

section \<open>Emitting a statement\<close>

text \<open>The loop of \<open>skip_leading_trivia\<close>.\<close>

fun skip_trivia :: "chunk list \<Rightarrow> string \<Rightarrow> nat \<Rightarrow> nat \<Rightarrow> nat" where
  "skip_trivia [] bs e pos = min pos e"
| "skip_trivia (c # cs) bs e pos =
     (if snd (chunk_range c) \<le> pos then skip_trivia cs bs e pos
      else if e \<le> fst (chunk_range c) then min pos e
      else case c of
          Comment a b \<Rightarrow>
            (let pos' = min b e in if e \<le> pos' then min pos' e else skip_trivia cs bs e pos')
        | Quoted a b k \<Rightarrow> max a pos
        | Code a b \<Rightarrow>
            (let s = max a pos; e' = min b e in
             case find_index (\<lambda>x. \<not> is_ascii_whitespace x) (slice bs s e') of
               Some rel \<Rightarrow> s + rel
             | None \<Rightarrow> if e \<le> e' then min e' e else skip_trivia cs bs e e'))"

definition skip_leading_trivia :: "chunk list \<Rightarrow> string \<Rightarrow> nat \<Rightarrow> nat \<Rightarrow> nat" where
  "skip_leading_trivia chunks bs start e = skip_trivia chunks bs e start"

definition emit_span ::
  "string \<Rightarrow> chunk list \<Rightarrow> nat \<Rightarrow> nat \<Rightarrow> statement_span list \<Rightarrow> statement_span list option" where
  "emit_span src chunks start e spans =
     (if e \<le> start then Some spans
      else case str_slice src start e of
          None \<Rightarrow> None
        | Some text \<Rightarrow>
            if trim text = [] then Some spans
            else let content_start = skip_leading_trivia chunks src start e;
                     ls = extract_directive_lines src content_start SQL_DIRECTIVE_MARKER
                 in Some (spans @ [\<lparr>span_start = start, span_end = e,
                                    span_directives = parse_directives ls\<rparr>]))"

section \<open>The splitter loop\<close>

datatype line_action = NoAction | GoLine nat | DelimiterLine string nat

text \<open>What the line that begins at \<open>i\<close> asks for, with the end of the line.\<close>

definition line_action :: "string \<Rightarrow> sql_dialect \<Rightarrow> nat \<Rightarrow> nat \<Rightarrow> line_action option" where
  "line_action src d stmt_start i =
     (if \<not> (i = 0 \<or> byte_at src (i - 1) = Some newline) then Some NoAction
      else if d = Mssql then
        (case line_end_at src i of
           None \<Rightarrow> Some NoAction
         | Some line_end \<Rightarrow>
             (case str_slice src i line_end of
                None \<Rightarrow> None
              | Some l \<Rightarrow> Some (if is_go_line (trim l) then GoLine line_end else NoAction)))
      else if d = Mysql then
        (if i < stmt_start then None
         else if \<not> list_all is_ascii_whitespace (slice src stmt_start i) then Some NoAction
         else case line_end_at src i of
             None \<Rightarrow> Some NoAction
           | Some line_end \<Rightarrow>
               (case str_slice src i line_end of
                  None \<Rightarrow> None
                | Some l \<Rightarrow>
                    map_option
                      (\<lambda>r. case r of None \<Rightarrow> NoAction | Some dl \<Rightarrow> DelimiterLine dl line_end)
                      (parse_delimiter_line (trim l))))
      else Some NoAction)"

text \<open>One turn of the inner loop: the next state and the next index.\<close>

definition split_step ::
  "string \<Rightarrow> sql_dialect \<Rightarrow> chunk list \<Rightarrow> nat \<Rightarrow> split_state \<Rightarrow> nat \<Rightarrow> (split_state \<times> nat) option"
where
  "split_step src d chunks chunk_end st i =
     (case line_action src d (sp_start st) i of
        None \<Rightarrow> None
      | Some (GoLine line_end) \<Rightarrow>
          (case emit_span src chunks (sp_start st) i (sp_spans st) of
             None \<Rightarrow> None
           | Some spans \<Rightarrow>
               let nxt = skip_newline src line_end
               in Some (st\<lparr>sp_spans := spans, sp_start := nxt\<rparr>, nxt))
      | Some (DelimiterLine dl line_end) \<Rightarrow>
          (let nxt = skip_newline src line_end
           in Some (st\<lparr>sp_terminator := dl, sp_start := nxt\<rparr>, nxt))
      | Some NoAction \<Rightarrow>
          if sp_terminator st \<noteq> [] \<and> starts_with (slice src i chunk_end) (sp_terminator st) then
            (case emit_span src chunks (sp_start st) i (sp_spans st) of
               None \<Rightarrow> None
             | Some spans \<Rightarrow>
                 let nxt = i + length (sp_terminator st)
                 in Some (st\<lparr>sp_spans := spans, sp_start := nxt\<rparr>, nxt))
          else Some (st, i + 1))"

lemma line_action_end:
  assumes "line_action src d start i = Some act" and "act = GoLine e \<or> (\<exists>t. act = DelimiterLine t e)"
  shows "i < e \<and> e = scan_line_comment src i \<and> i < length src"
proof -
  have "i \<noteq> e" if "str_slice src i e = Some l" and "trim l \<noteq> []" for l
    using that by (auto simp: str_slice_def split: if_splits)
  moreover from assms obtain l where "str_slice src i e = Some l" "line_end_at src i = Some e"
      "is_go_line (trim l) \<or> (\<exists>t. parse_delimiter_line (trim l) = Some (Some t))"
    by (auto simp: line_action_def split: if_splits option.splits)
  moreover from this have "trim l \<noteq> []"
    by (auto simp: is_go_line_def split_whitespace_def parse_delimiter_line_def)
  ultimately show ?thesis using scan_line_comment_ge [of i src]
    by (auto simp: line_end_at_def split: if_splits)
qed

lemma skip_newline_ge: "p \<le> skip_newline bs p"
  by (simp add: skip_newline_def)

lemma split_step_next: "split_step src d chunks ce st i = Some (st', nxt) \<Longrightarrow> i < nxt"
  using skip_newline_ge [of _ src]
  by (auto simp: split_step_def Let_def split: option.splits line_action.splits if_splits
      dest: line_action_end intro: less_le_trans)

function scan_code ::
  "string \<Rightarrow> sql_dialect \<Rightarrow> chunk list \<Rightarrow> nat \<Rightarrow> split_state \<Rightarrow> nat \<Rightarrow> split_state option" where
  "scan_code src d chunks chunk_end st i =
     (if i < chunk_end then
        case split_step src d chunks chunk_end st i of
          None \<Rightarrow> None
        | Some (st', nxt) \<Rightarrow> scan_code src d chunks chunk_end st' nxt
      else Some st)"
  by pat_completeness auto
termination
  by (relation "measure (\<lambda>(src, d, cs, e, st, i). e - i)") (auto dest: split_step_next)

declare scan_code.simps [simp del]

fun scan_chunks ::
  "string \<Rightarrow> sql_dialect \<Rightarrow> chunk list \<Rightarrow> chunk list \<Rightarrow> split_state \<Rightarrow> split_state option" where
  "scan_chunks src d chunks [] st = Some st"
| "scan_chunks src d chunks (c # cs) st =
     (case c of
        Code a b \<Rightarrow>
          (case scan_code src d chunks b st a of
             None \<Rightarrow> None
           | Some st' \<Rightarrow> scan_chunks src d chunks cs st')
      | _ \<Rightarrow> scan_chunks src d chunks cs st)"

definition split_start :: split_state where
  "split_start = \<lparr>sp_spans = [], sp_start = 0, sp_terminator = '';''\<rparr>"

definition split_sql :: "string \<Rightarrow> sql_dialect \<Rightarrow> statement_span list option" where
  "split_sql src d =
     (case scan_chunks src d (lex_chunks src d) (lex_chunks src d) split_start of
        None \<Rightarrow> None
      | Some st \<Rightarrow> emit_span src (lex_chunks src d) (sp_start st) (length src) (sp_spans st))"

section \<open>Spans come in order\<close>

text \<open>Spans that are non-empty and follow one another between \<open>lo\<close> and \<open>hi\<close>.\<close>

fun spans_in :: "nat \<Rightarrow> statement_span list \<Rightarrow> nat \<Rightarrow> bool" where
  "spans_in lo [] hi = (lo \<le> hi)"
| "spans_in lo (s # ss) hi =
     (lo \<le> span_start s \<and> span_start s < span_end s \<and> spans_in (span_end s) ss hi)"

lemma spans_in_snoc:
  "spans_in lo ss m \<Longrightarrow> m \<le> span_start x \<Longrightarrow> span_start x < span_end x \<Longrightarrow> span_end x \<le> hi
   \<Longrightarrow> spans_in lo (ss @ [x]) hi"
  by (induction ss arbitrary: lo) auto

lemma spans_in_mono: "spans_in lo ss m \<Longrightarrow> m \<le> hi \<Longrightarrow> spans_in lo ss hi"
  by (induction ss arbitrary: lo) auto

lemma spans_in_upper: "spans_in lo ss hi \<Longrightarrow> lo \<le> hi"
proof (induction ss arbitrary: lo)
  case (Cons s ss)
  then have "span_end s \<le> hi" by simp
  with Cons.prems show ?case by simp
qed simp

lemma spans_in_member:
  "spans_in lo ss hi \<Longrightarrow> s \<in> set ss \<Longrightarrow> lo \<le> span_start s \<and> span_start s < span_end s \<and> span_end s \<le> hi"
proof (induction ss arbitrary: lo)
  case (Cons t ts)
  then have t: "lo \<le> span_start t" "span_start t < span_end t" "spans_in (span_end t) ts hi" by auto
  from Cons.prems(2) consider "s = t" | "s \<in> set ts" by auto
  then show ?case
  proof cases
    case 1
    with t spans_in_upper [OF t(3)] show ?thesis by simp
  next
    case 2
    with Cons.IH [OF t(3)] t show ?thesis by auto
  qed
qed simp

definition nonblank :: "string \<Rightarrow> statement_span \<Rightarrow> bool" where
  "nonblank src s = (trim (slice src (span_start s) (span_end s)) \<noteq> [])"

definition split_inv :: "string \<Rightarrow> split_state \<Rightarrow> nat \<Rightarrow> bool" where
  "split_inv src st q =
     (list_all (nonblank src) (sp_spans st)
      \<and> (\<exists>m. spans_in 0 (sp_spans st) m \<and> m \<le> sp_start st \<and> m \<le> q \<and> m \<le> length src))"

lemma split_invE:
  assumes "split_inv src st q"
  obtains m where "list_all (nonblank src) (sp_spans st)" "spans_in 0 (sp_spans st) m"
    "m \<le> sp_start st" "m \<le> q" "m \<le> length src"
  using assms by (auto simp: split_inv_def)

lemma split_inv_mono: "split_inv src st q \<Longrightarrow> q \<le> q' \<Longrightarrow> split_inv src st q'"
  unfolding split_inv_def by (meson order_trans)

lemma emit_span_inv:
  assumes "emit_span src chunks start e spans = Some spans'"
    and "list_all (nonblank src) spans" and "spans_in 0 spans m" and "m \<le> start" and "m \<le> e"
  shows "list_all (nonblank src) spans' \<and> spans_in 0 spans' e"
  using assms
  by (auto simp: emit_span_def Let_def str_slice_def nonblank_def
      intro: spans_in_mono spans_in_snoc split: if_splits option.splits)

lemma split_step_inv:
  assumes "split_step src d chunks ce st i = Some (st', nxt)"
    and "split_inv src st i" and "i < ce" and "ce \<le> length src"
  shows "split_inv src st' ce \<and> split_inv src st' nxt"
proof -
  from assms(2) obtain m where m: "list_all (nonblank src) (sp_spans st)"
    "spans_in 0 (sp_spans st) m" "m \<le> sp_start st" "m \<le> i" "m \<le> length src"
    by (rule split_invE)
  note nxt = split_step_next [OF assms(1)]
  have emitted: "split_inv src (st\<lparr>sp_spans := spans, sp_start := nxt\<rparr>) ce
      \<and> split_inv src (st\<lparr>sp_spans := spans, sp_start := nxt\<rparr>) nxt"
    if "emit_span src chunks (sp_start st) i (sp_spans st) = Some spans" for spans
    using emit_span_inv [OF that m(1-4)] nxt assms(3,4)
    by (auto simp: split_inv_def intro!: exI [of _ i])
  have kept: "split_inv src (st\<lparr>sp_terminator := dl, sp_start := nxt\<rparr>) ce
      \<and> split_inv src (st\<lparr>sp_terminator := dl, sp_start := nxt\<rparr>) nxt" for dl
    using m nxt assms(3,4) by (auto simp: split_inv_def intro!: exI [of _ m])
  have same: "split_inv src st ce \<and> split_inv src st nxt"
    using split_inv_mono [OF assms(2)] nxt assms(3) by simp
  show ?thesis
    using assms(1) emitted kept same
    by (auto simp: split_step_def Let_def split: option.splits line_action.splits if_splits)
qed

lemma scan_code_inv:
  assumes "scan_code src d chunks ce st i = Some st'" and "split_inv src st i"
    and "split_inv src st ce" and "ce \<le> length src"
  shows "split_inv src st' ce"
  using assms
proof (induction src d chunks ce st i rule: scan_code.induct)
  case (1 src d chunks ce st i)
  show ?case
  proof (cases "i < ce")
    case False
    with "1.prems" show ?thesis by (simp add: scan_code.simps [of src d chunks ce st i])
  next
    case True
    with "1.prems"(1) obtain st1 nxt where step: "split_step src d chunks ce st i = Some (st1, nxt)"
      and rest: "scan_code src d chunks ce st1 nxt = Some st'"
      by (auto simp: scan_code.simps [of src d chunks ce st i] split: option.splits)
    from split_step_inv [OF step "1.prems"(2) True "1.prems"(4)]
    show ?thesis using "1.IH" [OF True step refl] rest "1.prems"(4) by simp
  qed
qed

lemma scan_chunks_inv:
  assumes "scan_chunks src d chunks cs st = Some st'" and "lexed src d a cs" and "split_inv src st a"
  shows "\<exists>q. split_inv src st' q"
  using assms
proof (induction cs arbitrary: st a)
  case Nil
  then show ?case by auto
next
  case (Cons c cs)
  show ?case
  proof (cases c)
    case (Code x y)
    with Cons.prems obtain st1 where st1: "scan_code src d chunks y st x = Some st1"
      "scan_chunks src d chunks cs st1 = Some st'" and l: "x = a" "a < y" "y \<le> length src" "lexed src d y cs"
      by (auto split: option.splits)
    have "split_inv src st1 y"
      using scan_code_inv [OF st1(1)] Cons.prems(3) l split_inv_mono by simp
    with Cons.IH st1(2) l(4) show ?thesis by blast
  next
    case (Quoted x y k)
    with Cons.prems obtain e where "a < length src" "lex_at src d a = Some (e, c)" "lexed src d e cs"
      "scan_chunks src d chunks cs st = Some st'" by auto
    with Cons.IH Cons.prems(3) lex_at_end [of src d a e c] split_inv_mono show ?thesis
      by (meson less_imp_le)
  next
    case (Comment x y)
    with Cons.prems obtain e where "a < length src" "lex_at src d a = Some (e, c)" "lexed src d e cs"
      "scan_chunks src d chunks cs st = Some st'" by auto
    with Cons.IH Cons.prems(3) lex_at_end [of src d a e c] split_inv_mono show ?thesis
      by (meson less_imp_le)
  qed
qed

text \<open>
  Whatever the dialect, the statements the splitter returns are non-blank stretches of
  the text, each non-empty, in increasing order and disjoint, and inside the text.
\<close>

theorem split_sql_spans_ordered:
  assumes "split_sql src d = Some spans"
  shows "spans_in 0 spans (length src) \<and> list_all (nonblank src) spans"
proof -
  from assms obtain st where
    st: "scan_chunks src d (lex_chunks src d) (lex_chunks src d) split_start = Some st"
    and last: "emit_span src (lex_chunks src d) (sp_start st) (length src) (sp_spans st) = Some spans"
    by (auto simp: split_sql_def split: option.splits)
  have "split_inv src split_start 0" by (simp add: split_inv_def split_start_def)
  from scan_chunks_inv [OF st lex_chunks_lexed this] obtain q where "split_inv src st q" ..
  then obtain m where "list_all (nonblank src) (sp_spans st)" "spans_in 0 (sp_spans st) m"
    "m \<le> sp_start st" "m \<le> q" "m \<le> length src" by (rule split_invE)
  with emit_span_inv [OF last] show ?thesis by simp
qed

lemma split_example:
  "split_sql ''a;b'' Postgres = Some
     [\<lparr>span_start = 0, span_end = 1, span_directives = Inr default_directives\<rparr>,
      \<lparr>span_start = 2, span_end = 3, span_directives = Inr default_directives\<rparr>]"
  by code_simp

lemma split_sql_spans_ordered_witness:
  "list_all (nonblank ''a;b'')
     [\<lparr>span_start = 0, span_end = 1, span_directives = Inr default_directives\<rparr>,
      \<lparr>span_start = 2, span_end = 3, span_directives = Inr default_directives\<rparr>]"
  using split_sql_spans_ordered [OF split_example] by simp

section \<open>The splitter cuts exactly at the top-level semicolons\<close>

text \<open>The reference: the semicolons of the code chunks, and the stretches between them.\<close>

fun chunk_semicolons :: "string \<Rightarrow> chunk \<Rightarrow> nat list" where
  "chunk_semicolons src (Code a b) = filter (\<lambda>i. src ! i = CHR '';'') [a..<b]"
| "chunk_semicolons src _ = []"

definition semicolons :: "string \<Rightarrow> chunk list \<Rightarrow> nat list" where
  "semicolons src cs = concat (map (chunk_semicolons src) cs)"

fun segments :: "nat \<Rightarrow> nat list \<Rightarrow> nat \<Rightarrow> (nat \<times> nat) list" where
  "segments start [] e = [(start, e)]"
| "segments start (p # ps) e = (start, p) # segments (p + 1) ps e"

definition make_span :: "string \<Rightarrow> chunk list \<Rightarrow> nat \<times> nat \<Rightarrow> statement_span" where
  "make_span src cs r = \<lparr>span_start = fst r, span_end = snd r,
     span_directives = parse_directives (extract_directive_lines src
        (skip_leading_trivia cs src (fst r) (snd r)) SQL_DIRECTIVE_MARKER)\<rparr>"

definition reference_split :: "string \<Rightarrow> sql_dialect \<Rightarrow> statement_span list" where
  "reference_split src d =
     (let cs = lex_chunks src d
      in map (make_span src cs)
           (filter (\<lambda>(a, b). a < b \<and> trim (slice src a b) \<noteq> [])
              (segments 0 (semicolons src cs) (length src))))"

text \<open>Emitting at each position of a list.\<close>

fun emit_at :: "string \<Rightarrow> chunk list \<Rightarrow> nat list \<Rightarrow> split_state \<Rightarrow> split_state option" where
  "emit_at src chunks [] st = Some st"
| "emit_at src chunks (p # ps) st =
     (case emit_span src chunks (sp_start st) p (sp_spans st) of
        None \<Rightarrow> None
      | Some spans \<Rightarrow> emit_at src chunks ps (st\<lparr>sp_spans := spans, sp_start := p + 1\<rparr>))"

lemma emit_at_append:
  "emit_at src chunks (ps @ qs) st =
     (case emit_at src chunks ps st of None \<Rightarrow> None | Some st' \<Rightarrow> emit_at src chunks qs st')"
  by (induction ps arbitrary: st) (auto split: option.splits)

lemma emit_at_terminator: "emit_at src chunks ps st = Some st' \<Longrightarrow> sp_terminator st' = sp_terminator st"
  by (induction ps arbitrary: st) (force split: option.splits)+

definition plain_dialect :: "sql_dialect \<Rightarrow> bool" where
  "plain_dialect d = (d \<noteq> Mysql \<and> d \<noteq> Mssql)"

lemma split_step_plain:
  assumes "plain_dialect d" and "sp_terminator st = '';''" and "i < ce" and "ce \<le> length src"
  shows "split_step src d chunks ce st i =
    (if src ! i = CHR '';'' then
       map_option (\<lambda>spans. (st\<lparr>sp_spans := spans, sp_start := i + 1\<rparr>, i + 1))
         (emit_span src chunks (sp_start st) i (sp_spans st))
     else Some (st, i + 1))"
proof -
  have "slice src i ce = src ! i # slice src (i + 1) ce"
    using assms(3,4) by (simp add: slice_def Cons_nth_drop_Suc [symmetric] Suc_diff_Suc [symmetric])
  then show ?thesis
    using assms(1,2)
    by (auto simp: split_step_def line_action_def plain_dialect_def Let_def split: option.splits)
qed

lemma scan_code_plain:
  assumes "plain_dialect d" and "sp_terminator st = '';''" and "ce \<le> length src"
  shows "scan_code src d chunks ce st i =
    emit_at src chunks (filter (\<lambda>j. src ! j = CHR '';'') [i..<ce]) st"
  using assms
proof (induction "ce - i" arbitrary: st i)
  case 0
  then show ?case by (simp add: scan_code.simps [of src d chunks ce st i])
next
  case (Suc n)
  then have lt: "i < ce" by simp
  note step = split_step_plain [OF Suc.prems(1,2) lt Suc.prems(3), of chunks]
  have IH: "scan_code src d chunks ce st' (i + 1) =
      emit_at src chunks (filter (\<lambda>j. src ! j = CHR '';'') [i + 1..<ce]) st'"
    if "sp_terminator st' = '';''" for st'
    using Suc.hyps(1) [of "i + 1" st'] Suc.hyps(2) Suc.prems that by simp
  show ?case
    using lt Suc.prems IH
    by (auto simp: scan_code.simps [of src d chunks ce st i] step upt_conv_Cons split: option.splits)
qed

lemma scan_chunks_plain:
  assumes "plain_dialect d" and "lexed src d a cs" and "sp_terminator st = '';''"
  shows "scan_chunks src d chunks cs st = emit_at src chunks (semicolons src cs) st"
  using assms
proof (induction cs arbitrary: st a)
  case Nil
  then show ?case by (simp add: semicolons_def)
next
  case (Cons c cs)
  have rest: "\<exists>a'. lexed src d a' cs"
    using Cons.prems(2) by (cases c) auto
  show ?case
  proof (cases c)
    case (Code x y)
    with Cons.prems have "y \<le> length src" by simp
    from scan_code_plain [OF Cons.prems(1,3) this] rest Cons.IH [OF Cons.prems(1)] Cons.prems(3) Code
    show ?thesis
      by (auto simp: semicolons_def emit_at_append split: option.splits dest: emit_at_terminator)
  qed (use rest Cons in \<open>auto simp: semicolons_def\<close>)
qed

definition fair :: "string \<Rightarrow> nat \<Rightarrow> bool" where
  "fair src p = (is_char_boundary src p \<and> p \<le> length src)"

lemma emit_span_total:
  assumes "fair src a" and "fair src b"
  shows "emit_span src chunks a b spans =
    Some (spans @ map (make_span src chunks)
      (filter (\<lambda>(a, b). a < b \<and> trim (slice src a b) \<noteq> []) [(a, b)]))"
  using assms by (auto simp: emit_span_def str_slice_def fair_def make_span_def Let_def)

lemma emit_at_total:
  assumes "fair src (sp_start st)" and "\<forall>p \<in> set ps. fair src p \<and> fair src (p + 1)" and "fair src e"
  shows "\<exists>st'. emit_at src chunks ps st = Some st'
    \<and> emit_span src chunks (sp_start st') e (sp_spans st') =
      Some (sp_spans st @ map (make_span src chunks)
        (filter (\<lambda>(a, b). a < b \<and> trim (slice src a b) \<noteq> []) (segments (sp_start st) ps e)))"
  using assms
proof (induction ps arbitrary: st)
  case Nil
  then show ?case by (auto simp: emit_span_total)
next
  case (Cons p ps)
  then have step: "emit_at src chunks (p # ps) st =
      emit_at src chunks ps (st\<lparr>sp_spans := sp_spans st @ map (make_span src chunks)
        (filter (\<lambda>(a, b). a < b \<and> trim (slice src a b) \<noteq> []) [(sp_start st, p)]), sp_start := p + 1\<rparr>)"
    by (simp add: emit_span_total del: filter.simps)
  from Cons.prems show ?case unfolding step
    using Cons.IH [of "st\<lparr>sp_spans := sp_spans st @ map (make_span src chunks)
        (filter (\<lambda>(a, b). a < b \<and> trim (slice src a b) \<noteq> []) [(sp_start st, p)]), sp_start := p + 1\<rparr>"]
    by auto
qed

text \<open>
  C13.  For PostgreSQL, SQLite, ClickHouse and DuckDB, on every UTF-8 text, the splitter
  returns, and its result is the reference: the non-blank stretches between the semicolons
  that stand in code (outside strings, quoted names and comments), each with the directives
  above it.
\<close>

theorem split_sql_is_reference:
  assumes "utf8 src" and "d \<noteq> Mysql" and "d \<noteq> Mssql"
  shows "split_sql src d = Some (reference_split src d)"
proof -
  let ?cs = "lex_chunks src d"
  have plain: "plain_dialect d" using assms(2,3) by (simp add: plain_dialect_def)
  have semi: "p < length src \<and> src ! p = CHR '';''" if p: "p \<in> set (semicolons src ?cs)" for p
  proof -
    from p obtain c where c: "c \<in> set ?cs" "p \<in> set (chunk_semicolons src c)"
      by (auto simp: semicolons_def)
    from lexed_members [OF lex_chunks_lexed c(1)] c(2) show ?thesis by (cases c) simp_all
  qed
  have fairs: "fair src p \<and> fair src (p + 1)" if "p \<in> set (semicolons src ?cs)" for p
    using semi [OF that] utf8_after_ascii [OF assms(1), of p] ascii_char_boundary [of p src]
    by (simp add: fair_def bval_def)
  have ends: "fair src 0" "fair src (length src)" by (auto simp: fair_def is_char_boundary_def)
  have "scan_chunks src d ?cs ?cs split_start = emit_at src ?cs (semicolons src ?cs) split_start"
    by (rule scan_chunks_plain [OF plain lex_chunks_lexed]) (simp add: split_start_def)
  moreover obtain st' where "emit_at src ?cs (semicolons src ?cs) split_start = Some st'"
    "emit_span src ?cs (sp_start st') (length src) (sp_spans st') = Some (reference_split src d)"
    using emit_at_total [of src split_start "semicolons src ?cs" "length src" ?cs] fairs ends
    by (auto simp: split_start_def reference_split_def Let_def)
  ultimately show ?thesis by (simp add: split_sql_def)
qed

lemma split_sql_is_reference_witness:
  "reference_split ''a;b'' Postgres =
     [\<lparr>span_start = 0, span_end = 1, span_directives = Inr default_directives\<rparr>,
      \<lparr>span_start = 2, span_end = 3, span_directives = Inr default_directives\<rparr>]"
  using split_sql_is_reference [of "''a;b''" Postgres] split_example by (simp add: bval_def)

section \<open>The DELIMITER test panics inside a character\<close>

text \<open>
  In MySQL a text whose first line, trimmed, is longer than nine bytes and has no
  character boundary at byte nine makes the splitter panic when the text begins in code:
  \<open>parse_delimiter_line\<close> splits the line there before it looks at it.  A plain
  \<open>select 'e-acute'\<close> is such a text.
\<close>

theorem mysql_split_panics:
  assumes "Code 0 e # cs = lex_chunks src Mysql"
    and "str_slice src 0 (scan_line_comment src 0) = Some l"
    and "length delimiter_kw < length (trim l)"
    and "\<not> is_char_boundary (trim l) (length delimiter_kw)"
  shows "split_sql src Mysql = None"
proof -
  have "lexed src Mysql 0 (Code 0 e # cs)"
    unfolding assms(1) by (rule lex_chunks_lexed)
  then have e: "0 < e" "e \<le> length src" "src \<noteq> []" by auto
  have "parse_delimiter_line (trim l) = None"
    using assms(3,4) by (simp add: parse_delimiter_line_def)
  then have "line_action src Mysql 0 0 = None"
    using e assms(2) by (simp add: line_action_def line_end_at_def)
  then have "split_step src Mysql (lex_chunks src Mysql) e split_start 0 = None"
    by (simp add: split_step_def split_start_def)
  then have none: "scan_code src Mysql (lex_chunks src Mysql) e split_start 0 = None"
    using e by (simp add: scan_code.simps [of src Mysql "lex_chunks src Mysql" e split_start 0])
  have "scan_chunks src Mysql (lex_chunks src Mysql) (Code 0 e # cs) split_start = None"
    using none by simp
  then show ?thesis unfolding assms(1) by (simp add: split_sql_def)
qed

definition select_e_acute :: string where
  "select_e_acute = ''select '' @ [quote_char, CHR 0xC3, CHR 0xA9, quote_char]"

lemma mysql_split_panics_witness: "split_sql select_e_acute Mysql = None"
proof (rule mysql_split_panics)
  show "Code 0 7 # [Quoted 7 11 SingleString] = lex_chunks select_e_acute Mysql" by code_simp
  show "str_slice select_e_acute 0 (scan_line_comment select_e_acute 0) = Some select_e_acute"
    by code_simp
  show "length delimiter_kw < length (trim select_e_acute)" by code_simp
  show "\<not> is_char_boundary (trim select_e_acute) (length delimiter_kw)" by code_simp
qed

end
