(* ===== verification/Sql_Highlight.thy ===== *)
theory Sql_Highlight
  imports Sql_Words
begin

text \<open>
  Syntax highlighting of \<open>crates/datagrep-lang/src/sql/highlight.rs\<close> and the edit context
  under the cursor of \<open>crates/datagrep-lang/src/sql/mod.rs\<close>.
\<close>

datatype token_kind = TKeyword | TIdent | TString | TNumber | TComment | TOperator | TPunct

record token =
  tok_start :: nat
  tok_end :: nat
  tok_kind :: token_kind

datatype edit_context = CtxStatement | CtxStringLiteral | CtxComment | CtxIdentifier

definition mk_token :: "nat \<Rightarrow> nat \<Rightarrow> token_kind \<Rightarrow> token" where
  "mk_token a b k = \<lparr>tok_start = a, tok_end = b, tok_kind = k\<rparr>"

definition is_operator_byte :: "char \<Rightarrow> bool" where
  "is_operator_byte b = (b \<in> set ''=<>!+-*/%|&^~'')"

definition is_number_start :: "string \<Rightarrow> nat \<Rightarrow> bool" where
  "is_number_start bs i =
     (is_ascii_digit (bs ! i)
      \<or> (bs ! i = CHR ''.'' \<and> (case byte_at bs (i + 1) of Some c \<Rightarrow> is_ascii_digit c | None \<Rightarrow> False)))"

text \<open>The condition of the number loop at index \<open>i\<close>.\<close>

definition is_number_continue :: "string \<Rightarrow> nat \<Rightarrow> bool" where
  "is_number_continue bs i =
     (is_ascii_digit (bs ! i) \<or> bs ! i = CHR ''.'' \<or> bs ! i = CHR ''x'' \<or> bs ! i = CHR ''X''
      \<or> is_ascii_hexdigit (bs ! i)
      \<or> ((bs ! i = CHR ''e'' \<or> bs ! i = CHR ''E'')
         \<and> (case byte_at bs (i + 1) of
              Some c \<Rightarrow> c = CHR ''+'' \<or> c = CHR ''-'' \<or> is_ascii_digit c
            | None \<Rightarrow> False)))"

definition is_highlight_word_continue :: "char \<Rightarrow> bool" where
  "is_highlight_word_continue b = (is_word_start b \<or> is_ascii_digit b \<or> b = CHR ''$'')"

function number_end :: "string \<Rightarrow> nat \<Rightarrow> nat \<Rightarrow> nat" where
  "number_end bs i e = (if i < e \<and> is_number_continue bs i then number_end bs (i + 1) e else i)"
  by pat_completeness auto
termination
  by (relation "measure (\<lambda>(bs, i, e). e - i)") auto

declare number_end.simps [simp del]

lemma number_end_ge: "i \<le> number_end bs i e"
proof (induction bs i e rule: number_end.induct)
  case (1 bs i e)
  then show ?case by (subst number_end.simps) auto
qed

lemma number_end_le: "i \<le> e \<Longrightarrow> number_end bs i e \<le> e"
proof (induction bs i e rule: number_end.induct)
  case (1 bs i e)
  then show ?case by (subst number_end.simps) auto
qed

text \<open>One turn of \<open>tokenize_code\<close> at \<open>i\<close>: the token, if any, and the next index.\<close>

definition code_token :: "string \<Rightarrow> nat \<Rightarrow> nat \<Rightarrow> token list \<times> nat" where
  "code_token bs i e =
     (if is_ascii_whitespace (bs ! i) then ([], i + 1)
      else if is_word_start (bs ! i) then
        let j = run_while is_highlight_word_continue bs (i + 1) e
        in ([mk_token i j (if listed KEYWORDS (slice bs i j) then TKeyword else TIdent)], j)
      else if is_number_start bs i then
        let j = number_end bs (i + 1) e in ([mk_token i j TNumber], j)
      else if is_operator_byte (bs ! i) then
        let j = run_while is_operator_byte bs (i + 1) e in ([mk_token i j TOperator], j)
      else ([mk_token i (i + 1) TPunct], i + 1))"

lemma code_token_next:
  assumes "i < e"
  shows "i < snd (code_token bs i e) \<and> snd (code_token bs i e) \<le> e"
proof -
  have "i < run_while p bs (Suc i) e \<and> run_while p bs (Suc i) e \<le> e" for p
    using assms by (metis Suc_le_eq run_while_bounds)
  moreover have "i < number_end bs (Suc i) e \<and> number_end bs (Suc i) e \<le> e"
    using assms number_end_ge [of "Suc i" bs e] number_end_le [of "Suc i" e bs] by auto
  ultimately show ?thesis using assms by (auto simp: code_token_def Let_def)
qed

function tokenize_code :: "string \<Rightarrow> nat \<Rightarrow> nat \<Rightarrow> token list" where
  "tokenize_code bs i e =
     (if i < e then fst (code_token bs i e) @ tokenize_code bs (snd (code_token bs i e)) e else [])"
  by pat_completeness auto
termination
proof (relation "measure (\<lambda>(bs, i, e). e - i)", goal_cases)
  case (2 bs i e)
  then show ?case using code_token_next [of i e bs] by auto
qed simp

declare tokenize_code.simps [simp del]

fun quote_token_kind :: "quote_kind \<Rightarrow> token_kind" where
  "quote_token_kind SingleString = TString"
| "quote_token_kind DollarQuote = TString"
| "quote_token_kind DoubleIdent = TIdent"
| "quote_token_kind Backtick = TIdent"
| "quote_token_kind Bracket = TIdent"

fun chunk_tokens :: "string \<Rightarrow> chunk \<Rightarrow> token list" where
  "chunk_tokens bs (Comment a b) = [mk_token a b TComment]"
| "chunk_tokens bs (Quoted a b k) = [mk_token a b (quote_token_kind k)]"
| "chunk_tokens bs (Code a b) = tokenize_code bs a b"

definition highlight_sql :: "string \<Rightarrow> sql_dialect \<Rightarrow> token list" where
  "highlight_sql src d = concat (map (chunk_tokens src) (lex_chunks src d))"

definition is_edit_ident_byte :: "char \<Rightarrow> bool" where
  "is_edit_ident_byte b = (is_ascii_alphanumeric b \<or> b = CHR ''_'' \<or> is_non_ascii b)"

definition context_at_sql :: "string \<Rightarrow> sql_dialect \<Rightarrow> nat \<Rightarrow> edit_context" where
  "context_at_sql src d offset =
     (let containing = find (\<lambda>c. fst (chunk_range c) \<le> offset \<and> offset < snd (chunk_range c))
                         (lex_chunks src d);
          before = (if offset = 0 then None else byte_at src (offset - 1));
          at = byte_at src offset
      in case containing of
           Some (Comment _ _) \<Rightarrow> CtxComment
         | Some (Quoted _ _ _) \<Rightarrow> CtxStringLiteral
         | _ \<Rightarrow>
             if (case before of Some b \<Rightarrow> is_edit_ident_byte b | None \<Rightarrow> False)
                \<or> (case at of Some b \<Rightarrow> is_edit_ident_byte b | None \<Rightarrow> False)
             then CtxIdentifier else CtxStatement)"

section \<open>Tokens are in order and leave only white space uncovered\<close>

text \<open>
  \<open>tokens_cover bs a ts b\<close>: the tokens are non-empty, in order and disjoint between \<open>a\<close> and
  \<open>b\<close>, and every byte of the text between them is ASCII white space.
\<close>

fun tokens_cover :: "string \<Rightarrow> nat \<Rightarrow> token list \<Rightarrow> nat \<Rightarrow> bool" where
  "tokens_cover bs a [] b = (a \<le> b \<and> (\<forall>j. a \<le> j \<and> j < b \<and> j < length bs \<longrightarrow> is_ascii_whitespace (bs ! j)))"
| "tokens_cover bs a (t # ts) b =
     (a \<le> tok_start t \<and> tok_start t < tok_end t
      \<and> (\<forall>j. a \<le> j \<and> j < tok_start t \<and> j < length bs \<longrightarrow> is_ascii_whitespace (bs ! j))
      \<and> tokens_cover bs (tok_end t) ts b)"

lemma tokens_cover_skip:
  "is_ascii_whitespace (bs ! a) \<Longrightarrow> tokens_cover bs (a + 1) ts b \<Longrightarrow> tokens_cover bs a ts b"
  by (cases ts) (auto simp: le_less_Suc_eq Suc_le_eq nat_less_le)

lemma tokens_cover_append:
  "tokens_cover bs a ts b \<Longrightarrow> tokens_cover bs b us c \<Longrightarrow> tokens_cover bs a (ts @ us) c"
proof (induction ts arbitrary: a)
  case Nil
  show ?case
  proof (cases us)
    case Nil2: Nil
    with Nil show ?thesis by (auto simp: not_less) (metis le_cases not_less)
  next
    case (Cons u us')
    with Nil show ?thesis by (auto simp: not_less) (metis le_cases not_less)
  qed
qed auto

lemma code_token_one:
  "\<not> is_ascii_whitespace (bs ! i) \<Longrightarrow> \<exists>k. fst (code_token bs i e) = [mk_token i (snd (code_token bs i e)) k]"
  by (simp add: code_token_def Let_def mk_token_def)

lemma tokenize_code_cover: "i \<le> e \<Longrightarrow> tokens_cover bs i (tokenize_code bs i e) e"
proof (induction bs i e rule: tokenize_code.induct)
  case (1 bs i e)
  show ?case
  proof (cases "i < e")
    case False
    with "1.prems" show ?thesis by (auto simp: tokenize_code.simps)
  next
    case True
    note nxt = code_token_next [OF True, of bs]
    with "1.IH" [OF True] have IH:
      "tokens_cover bs (snd (code_token bs i e)) (tokenize_code bs (snd (code_token bs i e)) e) e" by simp
    show ?thesis
    proof (cases "is_ascii_whitespace (bs ! i)")
      case ws: True
      then have "code_token bs i e = ([], i + 1)" by (simp add: code_token_def)
      with IH True ws show ?thesis
        by (simp add: tokenize_code.simps [of bs i e] tokens_cover_skip)
    next
      case False
      then obtain k where "fst (code_token bs i e) = [mk_token i (snd (code_token bs i e)) k]"
        using code_token_one by blast
      with IH True nxt show ?thesis
        by (auto simp: tokenize_code.simps [of bs i e] mk_token_def)
    qed
  qed
qed

lemma chunk_tokens_cover:
  assumes "fst (chunk_range c) < snd (chunk_range c)"
  shows "tokens_cover bs (fst (chunk_range c)) (chunk_tokens bs c) (snd (chunk_range c))"
  using assms by (cases c) (auto simp: mk_token_def tokenize_code_cover)

lemma tiles_cover: "tiles a e cs \<Longrightarrow> tokens_cover bs a (concat (map (chunk_tokens bs) cs)) e"
proof (induction cs arbitrary: a)
  case (Cons c cs)
  then show ?case using chunk_tokens_cover [of c bs] by (auto intro: tokens_cover_append)
qed auto

text \<open>
  The highlighter's tokens are non-empty, in increasing order and disjoint, start at
  or after byte 0, and the only bytes of the text they leave out are ASCII white space; the
  last one ends at the end of the text, or in MySQL at most one byte past it.
\<close>

theorem highlight_covers:
  "\<exists>e. tokens_cover src 0 (highlight_sql src d) e \<and> length src \<le> e
     \<and> e \<le> length src + (if d = Mysql then 1 else 0)"
proof -
  from lexed_tiles [OF lex_chunks_lexed [of src d]] obtain e where
    "tiles 0 e (lex_chunks src d)" "length src \<le> e" "e \<le> length src + overrun d" by auto
  then show ?thesis
    using tiles_cover [of 0 e "lex_chunks src d" src]
    by (intro exI [of _ e]) (simp add: highlight_sql_def overrun_def)
qed

text \<open>The weaker order the other languages' highlighters keep: non-empty tokens, in order
  and disjoint, between \<open>lo\<close> and \<open>hi\<close>.\<close>

fun tokens_in :: "nat \<Rightarrow> token list \<Rightarrow> nat \<Rightarrow> bool" where
  "tokens_in lo [] hi = (lo \<le> hi)"
| "tokens_in lo (t # ts) hi = (lo \<le> tok_start t \<and> tok_start t < tok_end t \<and> tokens_in (tok_end t) ts hi)"

lemma tokens_in_lower: "tokens_in m ts hi \<Longrightarrow> lo \<le> m \<Longrightarrow> tokens_in lo ts hi"
  by (cases ts) auto

text \<open>One turn of a highlighter at \<open>i\<close>: at most one token, from \<open>i\<close> to the next index.\<close>

definition tok_ok :: "string \<Rightarrow> nat \<Rightarrow> token list \<times> nat \<times> 'b \<Rightarrow> bool" where
  "tok_ok bs i r =
     (case r of (ts, j, _) \<Rightarrow> i < j \<and> j \<le> length bs \<and> (ts = [] \<or> (\<exists>k. ts = [mk_token i j k])))"

lemma tok_ok_if: "(c \<Longrightarrow> tok_ok bs i x) \<Longrightarrow> (\<not> c \<Longrightarrow> tok_ok bs i y) \<Longrightarrow> tok_ok bs i (if c then x else y)"
  by simp

lemma tok_ok_none: "i < j \<Longrightarrow> j \<le> length bs \<Longrightarrow> tok_ok bs i ([], j, b)"
  by (simp add: tok_ok_def)

lemma tok_ok_one: "i < j \<Longrightarrow> j \<le> length bs \<Longrightarrow> tok_ok bs i ([mk_token i j k], j, b)"
  by (auto simp: tok_ok_def)

lemma tok_ok_run:
  "i < length bs \<Longrightarrow> tok_ok bs i ([mk_token i (run_while p bs (i + 1) (length bs)) k],
     run_while p bs (i + 1) (length bs), b)"
  using run_while_step [of i "length bs" p bs] by (auto simp: tok_ok_def)

lemma tok_ok_run_here:
  "i < length bs \<Longrightarrow> p (bs ! i) \<Longrightarrow> tok_ok bs i ([mk_token i (run_while p bs i (length bs)) k],
     run_while p bs i (length bs), b)"
  using run_while_step [of i "length bs" p bs]
  by (auto simp: tok_ok_def run_while.simps [of p bs i])

lemma tok_ok_next: "tok_ok bs i r \<Longrightarrow> i < fst (snd r) \<and> fst (snd r) \<le> length bs"
  by (auto simp: tok_ok_def split: prod.splits)

lemma tok_ok_tokens:
  "tok_ok bs i r \<Longrightarrow> tokens_in (fst (snd r)) ts hi \<Longrightarrow> tokens_in i (fst r @ ts) hi"
  by (auto simp: tok_ok_def mk_token_def intro: tokens_in_lower split: prod.splits)

end
