(* ===== verification/Sql_References.thy ===== *)
theory Sql_References
  imports Sql_Words
begin

text \<open>
  The inline database references of \<open>crates/datagrep-lang/src/sql/references.rs\<close>: which
  other databases a MySQL statement names as \<open>db.table\<close>, which the safety gate checks
  against the connection's own.
\<close>

datatype ref_lexeme = RWord string | RQuoted string | RDot | RComma | ROpen | RClose | ROther

definition SHARED_SCHEMAS :: "string list" where
  "SHARED_SCHEMAS = [''information_schema'', ''performance_schema'', ''sys'']"

definition TABLE_KEYWORDS :: "string list" where
  "TABLE_KEYWORDS = [''FROM'', ''JOIN'', ''STRAIGHT_JOIN'', ''INTO'', ''UPDATE'', ''TABLE'']"

definition LIST_ENDS :: "string list" where
  "LIST_ENDS = [''WHERE'', ''ON'', ''USING'', ''SET'', ''GROUP'', ''ORDER'', ''HAVING'', ''SELECT'',
     ''RETURNING'']"

fun ref_name :: "ref_lexeme \<Rightarrow> string option" where
  "ref_name (RWord w) = Some w"
| "ref_name (RQuoted q) = Some q"
| "ref_name _ = None"

fun is_word :: "string list \<Rightarrow> ref_lexeme \<Rightarrow> bool" where
  "is_word ks (RWord w) = listed ks w"
| "is_word ks _ = False"

definition is_ident_byte :: "char \<Rightarrow> bool" where
  "is_ident_byte b = (is_ascii_alphanumeric b \<or> b = CHR ''_'' \<or> b = CHR ''$'' \<or> is_non_ascii b)"

text \<open>The lexemes of one code chunk.\<close>

function ref_code :: "string \<Rightarrow> nat \<Rightarrow> nat \<Rightarrow> ref_lexeme list" where
  "ref_code bs i e =
     (if i < e then
        let b = bs ! i in
        if b = CHR ''.'' then RDot # ref_code bs (i + 1) e
        else if b = CHR '','' then RComma # ref_code bs (i + 1) e
        else if b = CHR ''('' then ROpen # ref_code bs (i + 1) e
        else if b = CHR '')'' then RClose # ref_code bs (i + 1) e
        else if is_ident_byte b then
          let j = run_while is_ident_byte bs (i + 1) e in RWord (slice bs i j) # ref_code bs j e
        else if is_ascii_whitespace b then ref_code bs (i + 1) e
        else ROther # ref_code bs (i + 1) e
      else [])"
  by pat_completeness auto
termination
  by (relation "measure (\<lambda>(bs, i, e). e - i)")
     (auto intro!: diff_less_mono2 less_le_trans [OF _ run_while_ge])

declare ref_code.simps [simp del]

definition unquote_backtick :: "string \<Rightarrow> string" where
  "unquote_backtick raw =
     (let inner = (case strip_suffix [backtick] raw of Some s \<Rightarrow> s | None \<Rightarrow> raw)
      in replace_pair backtick backtick [backtick] inner)"

fun ref_chunk :: "string \<Rightarrow> chunk \<Rightarrow> ref_lexeme list" where
  "ref_chunk bs (Quoted a b k) =
     (if k = Backtick then [RQuoted (unquote_backtick (slice bs (a + 1) b))] else [ROther])"
| "ref_chunk bs (Comment _ _) = []"
| "ref_chunk bs (Code a b) = ref_code bs a b"

definition ref_lexemes :: "string \<Rightarrow> ref_lexeme list" where
  "ref_lexemes stmt = concat (map (ref_chunk stmt) (lex_chunks stmt Mysql))"

section \<open>The table-position automaton\<close>

record ref_state =
  rs_in_list :: bool
  rs_expect :: bool
  rs_outer :: "bool list"
  rs_out :: "string list"

definition opens_table :: "ref_lexeme list \<Rightarrow> nat \<Rightarrow> bool" where
  "opens_table ls i =
     (is_word TABLE_KEYWORDS (ls ! i)
      \<and> \<not> (0 < i \<and> is_word [''KEY''] (ls ! (i - 1)) \<and> is_word [''UPDATE''] (ls ! i)))"

text \<open>The \<open>match lexeme\<close> of one turn, after \<open>expect_table\<close> was taken.\<close>

definition ref_match :: "ref_lexeme list \<Rightarrow> nat \<Rightarrow> ref_state \<Rightarrow> ref_state" where
  "ref_match ls i st =
     (if opens_table ls i then st\<lparr>rs_in_list := True, rs_expect := True\<rparr>
      else if is_word LIST_ENDS (ls ! i) then st\<lparr>rs_in_list := False\<rparr>
      else case ls ! i of
          RComma \<Rightarrow> st\<lparr>rs_expect := rs_in_list st\<rparr>
        | ROpen \<Rightarrow> st\<lparr>rs_outer := rs_in_list st # rs_outer st, rs_in_list := False\<rparr>
        | RClose \<Rightarrow>
            (case rs_outer st of
               [] \<Rightarrow> st\<lparr>rs_in_list := False\<rparr>
             | b # bs \<Rightarrow> st\<lparr>rs_in_list := b, rs_outer := bs\<rparr>)
        | _ \<Rightarrow> st)"

text \<open>The database of a qualified name at \<open>i\<close>: \<open>db . name\<close>.\<close>

definition qualified_at :: "ref_lexeme list \<Rightarrow> nat \<Rightarrow> string option" where
  "qualified_at ls i =
     (if byte_at ls (i + 1) = Some RDot then
        (case (ref_name (ls ! i), Option.bind (byte_at ls (i + 2)) ref_name) of
           (Some db, Some _) \<Rightarrow> Some db
         | _ \<Rightarrow> None)
      else None)"

definition ref_step :: "ref_lexeme list \<Rightarrow> nat \<Rightarrow> ref_state \<Rightarrow> ref_state" where
  "ref_step ls i st =
     (let at_table = rs_expect st;
          st1 = ref_match ls i (st\<lparr>rs_expect := False\<rparr>)
      in case (if at_table then qualified_at ls i else None) of
           Some db \<Rightarrow> st1\<lparr>rs_out := rs_out st1 @ [db]\<rparr>
         | None \<Rightarrow> st1)"

definition use_database :: "ref_lexeme list \<Rightarrow> string list" where
  "use_database ls =
     (case ls of
        first # db # _ \<Rightarrow>
          if is_word [''USE''] first then (case ref_name db of Some n \<Rightarrow> [n] | None \<Rightarrow> []) else []
      | _ \<Rightarrow> [])"

definition ref_start :: "ref_lexeme list \<Rightarrow> ref_state" where
  "ref_start ls = \<lparr>rs_in_list = False, rs_expect = False, rs_outer = [], rs_out = use_database ls\<rparr>"

definition mysql_databases :: "string \<Rightarrow> string list" where
  "mysql_databases stmt =
     (let ls = ref_lexemes stmt in rs_out (fold (ref_step ls) [0..<length ls] (ref_start ls)))"

definition is_foreign :: "string \<Rightarrow> string \<Rightarrow> bool" where
  "is_foreign current db = (\<not> eq_ignore_ascii_case db current \<and> \<not> listed SHARED_SCHEMAS db)"

definition foreign_databases :: "string \<Rightarrow> sql_dialect \<Rightarrow> string \<Rightarrow> string list" where
  "foreign_databases stmt d current =
     (if d \<noteq> Mysql then [] else dedup (filter (is_foreign current) (mysql_databases stmt)))"

section \<open>What the scan finds\<close>

lemma set_dedup [simp]: "set (dedup xs) = set xs"
  by (induction xs rule: dedup.induct) auto

lemma ref_match_out [simp]: "rs_out (ref_match ls i st) = rs_out st"
  by (auto simp: ref_match_def split: ref_lexeme.splits list.splits)

lemma ref_step_out_mono: "set (rs_out st) \<subseteq> set (rs_out (ref_step ls i st))"
  by (auto simp: ref_step_def Let_def split: option.splits)

lemma fold_ref_step_mono: "set (rs_out st) \<subseteq> set (rs_out (fold (ref_step ls) is st))"
proof (induction "is" arbitrary: st)
  case (Cons i "is")
  then show ?case using ref_step_out_mono [of st ls i] by fastforce
qed simp

lemma ref_step_expect:
  "opens_table ls i \<Longrightarrow> rs_expect (ref_step ls i st)"
  by (auto simp: ref_step_def ref_match_def Let_def split: option.splits)

lemma ref_step_found:
  "rs_expect st \<Longrightarrow> qualified_at ls i = Some db \<Longrightarrow> db \<in> set (rs_out (ref_step ls i st))"
  by (simp add: ref_step_def Let_def)

lemma fold_finds:
  assumes "opens_table ls i" and "qualified_at ls (i + 1) = Some db" and "i + 1 < length ls"
  shows "db \<in> set (rs_out (fold (ref_step ls) [0..<length ls] st))"
proof -
  have "[0..<length ls] = [0..<i] @ i # (i + 1) # [i + 2..<length ls]"
    using assms(3) upt_add_eq_append [of 0 i "length ls - i"]
    by (simp add: upt_conv_Cons)
  then have "fold (ref_step ls) [0..<length ls] st =
      fold (ref_step ls) [i + 2..<length ls]
        (ref_step ls (i + 1) (ref_step ls i (fold (ref_step ls) [0..<i] st)))"
    by simp
  moreover have "db \<in> set (rs_out (ref_step ls (i + 1) (ref_step ls i (fold (ref_step ls) [0..<i] st))))"
    using assms(1,2) by (intro ref_step_found ref_step_expect)
  ultimately show ?thesis using fold_ref_step_mono by fastforce
qed

text \<open>
  In MySQL every qualified name \<open>db.table\<close> that directly follows FROM, JOIN,
  STRAIGHT_JOIN, INTO, UPDATE or TABLE (ON DUPLICATE KEY UPDATE aside) is reported, unless
  it names the current database or a shared schema.
\<close>

theorem foreign_database_reported:
  assumes "opens_table (ref_lexemes stmt) i"
    and "qualified_at (ref_lexemes stmt) (i + 1) = Some db"
    and "i + 1 < length (ref_lexemes stmt)"
    and "is_foreign current db"
  shows "db \<in> set (foreign_databases stmt Mysql current)"
  using fold_finds [OF assms(1-3)] assms(4)
  by (simp add: foreign_databases_def mysql_databases_def Let_def)

lemma ref_example:
  "ref_lexemes ''from a.b'' = [RWord ''from'', RWord ''a'', RDot, RWord ''b'']"
  by code_simp

lemma foreign_database_reported_witness: "''a'' \<in> set (foreign_databases ''from a.b'' Mysql ''c'')"
proof (rule foreign_database_reported)
  show "opens_table (ref_lexemes ''from a.b'') 0" by code_simp
  show "qualified_at (ref_lexemes ''from a.b'') (0 + 1) = Some ''a''" by code_simp
  show "0 + 1 < length (ref_lexemes ''from a.b'')" by code_simp
  show "is_foreign ''c'' ''a''" by code_simp
qed

end
