(* ===== verification/Redis_Lang.thy ===== *)
theory Redis_Lang
  imports Sql_Classifier Sql_Splitter Sql_Highlight
begin

text \<open>
  The Redis command language of \<open>crates/datagrep-lang/src/redis.rs\<close>: the argument
  tokenizer, the line splitter, the command classifier, the highlighter and the edit
  context.  An outcome \<open>None\<close> is a panic: the code slices \<open>&str\<close> at byte offsets it
  computed.
\<close>

section \<open>The tokenizer\<close>

record arg =
  arg_value :: string
  arg_start :: nat
  arg_end :: nat
  arg_quoted :: bool

datatype redis_token_error = RedisTokenError string nat

definition utf8_len :: "char \<Rightarrow> nat" where
  "utf8_len b =
     (if bval b < 128 then 1
      else if 192 \<le> bval b \<and> bval b < 224 then 2
      else if 224 \<le> bval b \<and> bval b < 240 then 3
      else 4)"

text \<open>\<open>String::push\<close> of the character whose code point is the byte \<open>n\<close>.\<close>

definition latin1 :: "nat \<Rightarrow> string" where
  "latin1 n = (if n < 128 then [char_of n] else [char_of (192 + n div 64), char_of (128 + n mod 64)])"

definition hex_nibble :: "char \<Rightarrow> nat" where
  "hex_nibble b =
     (if in_interval 48 57 b then bval b - 48
      else if in_interval 97 102 b then bval b - 97 + 10
      else if in_interval 65 70 b then bval b - 65 + 10
      else 0)"

definition decode_double_escape :: "string \<Rightarrow> string \<times> nat" where
  "decode_double_escape rest =
     (case rest of
        [] \<Rightarrow> ([backslash], 0)
      | b # _ \<Rightarrow>
          if b = CHR ''n'' then ([CHR 0x0A], 1)
          else if b = CHR ''r'' then ([CHR 0x0D], 1)
          else if b = CHR ''t'' then ([CHR 0x09], 1)
          else if b = CHR ''b'' then ([CHR 0x08], 1)
          else if b = CHR ''a'' then ([CHR 0x07], 1)
          else if b = backslash then ([backslash], 1)
          else if b = dquote then ([dquote], 1)
          else if b = CHR ''x'' \<and> 3 \<le> length rest
                  \<and> is_ascii_hexdigit (rest ! 1) \<and> is_ascii_hexdigit (rest ! 2) then
            (latin1 (16 * hex_nibble (rest ! 1) + hex_nibble (rest ! 2)), 3)
          else (latin1 (bval b), 1))"

text \<open>\<open>&line[i..i + utf8_len(bytes[i])]\<close>.\<close>

definition take_char :: "string \<Rightarrow> nat \<Rightarrow> string option" where
  "take_char line i = str_slice line i (i + utf8_len (line ! i))"

lemma utf8_len_pos [simp]: "0 < utf8_len b"
  by (simp add: utf8_len_def)

type_synonym 'a tok_result = "(redis_token_error + 'a) option"

function scan_double :: "string \<Rightarrow> nat \<Rightarrow> nat \<Rightarrow> string \<Rightarrow> (string \<times> nat) tok_result" where
  "scan_double line start i acc =
     (if length line \<le> i then Some (Inl (RedisTokenError ''double'' start))
      else if line ! i = dquote then Some (Inr (acc, i + 1))
      else if line ! i = backslash \<and> i + 1 < length line then
        let d = decode_double_escape (drop (i + 1) line)
        in scan_double line start (i + 1 + snd d) (acc @ fst d)
      else case take_char line i of
          None \<Rightarrow> None
        | Some s \<Rightarrow> scan_double line start (i + utf8_len (line ! i)) (acc @ s))"
  by pat_completeness auto
termination
  by (relation "measure (\<lambda>(line, start, i, acc). length line - i)")
     (auto intro!: diff_less_mono2)

function scan_single :: "string \<Rightarrow> nat \<Rightarrow> nat \<Rightarrow> string \<Rightarrow> (string \<times> nat) tok_result" where
  "scan_single line start i acc =
     (if length line \<le> i then Some (Inl (RedisTokenError ''single'' start))
      else if line ! i = quote_char then Some (Inr (acc, i + 1))
      else if line ! i = backslash
              \<and> (byte_at line (i + 1) = Some backslash \<or> byte_at line (i + 1) = Some quote_char) then
        scan_single line start (i + 2) (acc @ [line ! (i + 1)])
      else case take_char line i of
          None \<Rightarrow> None
        | Some s \<Rightarrow> scan_single line start (i + utf8_len (line ! i)) (acc @ s))"
  by pat_completeness auto
termination
  by (relation "measure (\<lambda>(line, start, i, acc). length line - i)")
     (auto intro!: diff_less_mono2)

declare scan_double.simps [simp del] scan_single.simps [simp del]

fun close_quote :: "(string \<times> nat) tok_result \<Rightarrow> (string \<times> bool \<times> nat) tok_result" where
  "close_quote None = None"
| "close_quote (Some (Inl e)) = Some (Inl e)"
| "close_quote (Some (Inr (v, j))) = Some (Inr (v, True, j))"

text \<open>One turn of the loop over the bytes of an argument: the value so far, the quoted flag
  and the next index.\<close>

definition arg_step ::
  "string \<Rightarrow> nat \<Rightarrow> nat \<Rightarrow> string \<Rightarrow> bool \<Rightarrow> (string \<times> bool \<times> nat) tok_result" where
  "arg_step line start i val quoted =
     (if line ! i = dquote then
        close_quote (scan_double line start (i + 1) val)
      else if line ! i = quote_char then
        close_quote (scan_single line start (i + 1) val)
      else map_option (\<lambda>s. Inr (val @ s, quoted, i + utf8_len (line ! i))) (take_char line i))"

lemma scan_double_next: "scan_double line start i acc = Some (Inr (v, j)) \<Longrightarrow> i < j \<and> j \<le> length line"
proof (induction line start i acc rule: scan_double.induct)
  case (1 line start i acc)
  then show ?case
    by (subst (asm) (3) scan_double.simps)
       (auto simp: Let_def split: if_splits option.splits dest!: add_lessD1)
qed

lemma scan_single_next: "scan_single line start i acc = Some (Inr (v, j)) \<Longrightarrow> i < j \<and> j \<le> length line"
proof (induction line start i acc rule: scan_single.induct)
  case (1 line start i acc)
  then show ?case
    by (subst (asm) (3) scan_single.simps)
       (auto split: if_splits option.splits dest!: add_lessD1)
qed

lemma close_quote_Inr:
  "close_quote r = Some (Inr (v, q, j)) \<longleftrightarrow> r = Some (Inr (v, j)) \<and> q"
  by (cases r rule: close_quote.cases) auto

lemma arg_step_next:
  "arg_step line start i val q = Some (Inr (v, q', j)) \<Longrightarrow> i < j \<and> j \<le> length line"
  by (auto simp: arg_step_def take_char_def str_slice_def close_quote_Inr split: if_splits
      dest!: scan_double_next scan_single_next)

text \<open>The loop \<open>while i < len && !bytes[i].is_ascii_whitespace()\<close>.\<close>

function scan_arg ::
  "string \<Rightarrow> nat \<Rightarrow> nat \<Rightarrow> string \<Rightarrow> bool \<Rightarrow> (string \<times> bool \<times> nat) tok_result" where
  "scan_arg line start i val quoted =
     (if i < length line \<and> \<not> is_ascii_whitespace (line ! i) then
        case arg_step line start i val quoted of
          None \<Rightarrow> None
        | Some (Inl e) \<Rightarrow> Some (Inl e)
        | Some (Inr (v, q, j)) \<Rightarrow> scan_arg line start j v q
      else Some (Inr (val, quoted, i)))"
  by pat_completeness auto
termination
  by (relation "measure (\<lambda>(line, start, i, v, q). length line - i)") (auto dest: arg_step_next)

declare scan_arg.simps [simp del]

lemma scan_arg_next:
  "scan_arg line start i val q = Some (Inr (v, q', j)) \<Longrightarrow> i \<le> length line \<Longrightarrow> i \<le> j \<and> j \<le> length line"
proof (induction line start i val q rule: scan_arg.induct)
  case (1 line start i val q)
  show ?case
  proof (cases "i < length line \<and> \<not> is_ascii_whitespace (line ! i)")
    case True
    with "1.prems" obtain w qw k where step: "arg_step line start i val q = Some (Inr (w, qw, k))"
      and rest: "scan_arg line start k w qw = Some (Inr (v, q', j))"
      by (auto simp: scan_arg.simps [of line start i] split: option.splits sum.splits)
    from arg_step_next [OF step] "1.IH" [OF True step refl refl refl rest] show ?thesis by simp
  next
    case False
    with "1.prems" show ?thesis by (auto simp: scan_arg.simps [of line start i])
  qed
qed

lemma scan_arg_gt:
  assumes "scan_arg line i i [] False = Some (Inr (v, q, j))" and "i < length line"
    and "\<not> is_ascii_whitespace (line ! i)"
  shows "i < j \<and> j \<le> length line"
proof -
  from assms obtain w qw k where step: "arg_step line i i [] False = Some (Inr (w, qw, k))"
    and rest: "scan_arg line i k w qw = Some (Inr (v, q, j))"
    by (auto simp: scan_arg.simps [of line i i "[]" False] split: option.splits sum.splits)
  from arg_step_next [OF step] scan_arg_next [OF rest] show ?thesis by simp
qed

function tokenize_from :: "string \<Rightarrow> nat \<Rightarrow> arg list tok_result" where
  "tokenize_from line i =
     (if i < length line then
        if is_ascii_whitespace (line ! i) then tokenize_from line (i + 1)
        else case scan_arg line i i [] False of
            None \<Rightarrow> None
          | Some (Inl e) \<Rightarrow> Some (Inl e)
          | Some (Inr (v, q, j)) \<Rightarrow>
              (case tokenize_from line j of
                 Some (Inr rest) \<Rightarrow>
                   Some (Inr (\<lparr>arg_value = v, arg_start = i, arg_end = j, arg_quoted = q\<rparr> # rest))
               | r \<Rightarrow> r)
      else Some (Inr []))"
  by pat_completeness auto
termination
  by (relation "measure (\<lambda>(line, i). length line - i)") (auto dest: scan_arg_gt)

declare tokenize_from.simps [simp del]

definition tokenize_args :: "string \<Rightarrow> arg list tok_result" where
  "tokenize_args line = tokenize_from line 0"

section \<open>Splitting\<close>

definition REDIS_DIRECTIVE_MARKER :: string where
  "REDIS_DIRECTIVE_MARKER = ''#''"

definition redis_emit_span ::
  "string \<Rightarrow> nat \<Rightarrow> nat \<Rightarrow> statement_span list \<Rightarrow> statement_span list option" where
  "redis_emit_span src start e spans =
     (if e \<le> start then Some spans
      else case str_slice src start e of
          None \<Rightarrow> None
        | Some raw \<Rightarrow>
            if trim raw = [] \<or> starts_with (trim raw) ''#'' then Some spans
            else let content_start = start + (length raw - length (trim_start raw));
                     ls = extract_directive_lines src content_start REDIS_DIRECTIVE_MARKER
                 in Some (spans @ [\<lparr>span_start = start, span_end = e,
                                    span_directives = parse_directives ls\<rparr>]))"

function redis_split_from ::
  "string \<Rightarrow> nat \<Rightarrow> nat \<Rightarrow> char option \<Rightarrow> statement_span list \<Rightarrow> statement_span list option" where
  "redis_split_from src stmt_start i quote spans =
     (if i < length src then
        case quote of
          Some q \<Rightarrow>
            if src ! i = backslash \<and> i + 1 < length src then
              redis_split_from src stmt_start (i + 2) quote spans
            else if src ! i = q then redis_split_from src stmt_start (i + 1) None spans
            else redis_split_from src stmt_start (i + 1) quote spans
        | None \<Rightarrow>
            if src ! i = dquote \<or> src ! i = quote_char then
              redis_split_from src stmt_start (i + 1) (Some (src ! i)) spans
            else if src ! i = newline then
              (case redis_emit_span src stmt_start i spans of
                 None \<Rightarrow> None
               | Some spans' \<Rightarrow> redis_split_from src (i + 1) (i + 1) None spans')
            else redis_split_from src stmt_start (i + 1) None spans
      else redis_emit_span src stmt_start (length src) spans)"
  by pat_completeness auto
termination
  by (relation "measure (\<lambda>(src, s, i, q, spans). length src - i)") auto

declare redis_split_from.simps [simp del]

definition redis_split :: "string \<Rightarrow> statement_span list option" where
  "redis_split src = redis_split_from src 0 0 None []"

section \<open>Classifying commands\<close>

definition READ_COMMANDS :: "string list" where
  "READ_COMMANDS =
     [''GET'', ''MGET'', ''SCAN'', ''KEYS'', ''TTL'', ''PTTL'', ''EXISTS'', ''INFO'',
      ''HGET'', ''HGETALL'', ''HMGET'', ''HKEYS'', ''HVALS'', ''HLEN'', ''LRANGE'', ''LLEN'',
      ''LINDEX'', ''SMEMBERS'', ''SISMEMBER'', ''SCARD'', ''ZRANGE'', ''ZSCORE'', ''ZCARD'',
      ''STRLEN'', ''TYPE'', ''DBSIZE'', ''PING'', ''RANDOMKEY'', ''HSCAN'', ''SSCAN'',
      ''ZSCAN'', ''GETRANGE'', ''OBJECT'', ''MEMORY'', ''DUMP'']"

definition WRITE_COMMANDS :: "string list" where
  "WRITE_COMMANDS =
     [''SET'', ''SETEX'', ''PSETEX'', ''SETNX'', ''DEL'', ''UNLINK'', ''EXPIRE'',
      ''PEXPIRE'', ''EXPIREAT'', ''PERSIST'', ''RENAME'', ''APPEND'', ''INCR'', ''DECR'',
      ''INCRBY'', ''DECRBY'', ''HSET'', ''HDEL'', ''HINCRBY'', ''LPUSH'', ''RPUSH'',
      ''LPOP'', ''RPOP'', ''LSET'', ''LTRIM'', ''SADD'', ''SREM'', ''SPOP'', ''ZADD'',
      ''ZREM'', ''ZINCRBY'', ''MSET'', ''MSETNX'', ''GETSET'', ''COPY'', ''MOVE'', ''RESTORE'']"

definition ADMIN_COMMANDS :: "string list" where
  "ADMIN_COMMANDS =
     [''FLUSHDB'', ''FLUSHALL'', ''CONFIG'', ''SHUTDOWN'', ''DEBUG'', ''SAVE'', ''BGSAVE'',
      ''BGREWRITEAOF'', ''SLAVEOF'', ''REPLICAOF'', ''CLIENT'', ''CLUSTER'', ''ACL'',
      ''MONITOR'', ''LATENCY'', ''SLOWLOG'']"

definition redis_class_of :: "string \<Rightarrow> statement_class" where
  "redis_class_of cmd =
     (if listed READ_COMMANDS cmd then Read
      else if listed WRITE_COMMANDS cmd then Write
      else if listed ADMIN_COMMANDS cmd then Admin
      else Unknown)"

definition redis_classify :: "string \<Rightarrow> statement_class option" where
  "redis_classify stmt =
     (case tokenize_args stmt of
        None \<Rightarrow> None
      | Some (Inl _) \<Rightarrow> Some Unknown
      | Some (Inr []) \<Rightarrow> Some Unknown
      | Some (Inr (cmd # _)) \<Rightarrow> Some (redis_class_of (arg_value cmd)))"

section \<open>Edit context\<close>

text \<open>\<open>is_line_start_ws\<close>: only white space between the previous line feed and \<open>pos\<close>.\<close>

fun is_line_start_ws :: "string \<Rightarrow> nat \<Rightarrow> bool" where
  "is_line_start_ws bs 0 = True"
| "is_line_start_ws bs (Suc j) =
     (if bs ! j = newline then True
      else if is_ascii_whitespace (bs ! j) then is_line_start_ws bs j
      else False)"

function redis_context_from ::
  "string \<Rightarrow> nat \<Rightarrow> nat \<Rightarrow> char option \<Rightarrow> bool \<Rightarrow> bool \<times> char option" where
  "redis_context_from bs offset i quote in_comment =
     (if i < offset \<and> i < length bs then
        if in_comment then redis_context_from bs offset (i + 1) quote (bs ! i \<noteq> newline)
        else case quote of
            Some q \<Rightarrow>
              if bs ! i = backslash \<and> i + 1 < length bs then
                redis_context_from bs offset (i + 2) quote False
              else if bs ! i = q then redis_context_from bs offset (i + 1) None False
              else redis_context_from bs offset (i + 1) quote False
          | None \<Rightarrow>
              if bs ! i = dquote \<or> bs ! i = quote_char then
                redis_context_from bs offset (i + 1) (Some (bs ! i)) False
              else if bs ! i = CHR ''#'' \<and> is_line_start_ws bs i then
                redis_context_from bs offset (i + 1) None True
              else redis_context_from bs offset (i + 1) None False
      else (in_comment, quote))"
  by pat_completeness auto
termination
  by (relation "measure (\<lambda>(bs, off, i, q, c). length bs - i)") auto

declare redis_context_from.simps [simp del]

definition is_redis_ident_byte :: "char \<Rightarrow> bool" where
  "is_redis_ident_byte b =
     (\<not> is_ascii_whitespace b \<and> b \<noteq> dquote \<and> b \<noteq> quote_char \<and> b \<noteq> CHR ''#'')"

definition byte_is :: "(char \<Rightarrow> bool) \<Rightarrow> char option \<Rightarrow> bool" where
  "byte_is p b = (case b of Some c \<Rightarrow> p c | None \<Rightarrow> False)"

definition redis_context_at :: "string \<Rightarrow> nat \<Rightarrow> edit_context" where
  "redis_context_at src offset =
     (let (in_comment, quote) = redis_context_from src offset 0 None False
      in if in_comment then CtxComment
         else if quote \<noteq> None then CtxStringLiteral
         else if byte_is is_redis_ident_byte (if offset = 0 then None else byte_at src (offset - 1))
                 \<or> byte_is is_redis_ident_byte (byte_at src offset)
           then CtxIdentifier
         else CtxStatement)"

section \<open>Highlighting\<close>

text \<open>\<open>line_ranges\<close>: the ranges between line feeds, the last one to the end.\<close>

fun line_ranges_from :: "string \<Rightarrow> nat \<Rightarrow> nat \<Rightarrow> (nat \<times> nat) list" where
  "line_ranges_from [] start i = [(start, i)]"
| "line_ranges_from (b # bs) start i =
     (if b = newline then (start, i) # line_ranges_from bs (i + 1) (i + 1)
      else line_ranges_from bs start (i + 1))"

definition line_ranges :: "string \<Rightarrow> (nat \<times> nat) list" where
  "line_ranges src = line_ranges_from src 0 0"

fun arg_tokens :: "nat \<Rightarrow> nat \<Rightarrow> arg list \<Rightarrow> token list" where
  "arg_tokens base idx [] = []"
| "arg_tokens base idx (a # as) =
     mk_token (base + arg_start a) (base + arg_end a)
       (if arg_quoted a then TString else if idx = 0 then TKeyword else TIdent)
     # arg_tokens base (idx + 1) as"

definition line_tokens :: "string \<Rightarrow> nat \<times> nat \<Rightarrow> token list option" where
  "line_tokens src r =
     (case str_slice src (fst r) (snd r) of
        None \<Rightarrow> None
      | Some line \<Rightarrow>
          let trimmed = trim_start line; leading_ws = length line - length trimmed
          in if starts_with trimmed ''#'' then Some [mk_token (fst r + leading_ws) (snd r) TComment]
             else case tokenize_args line of
                 None \<Rightarrow> None
               | Some (Inl _) \<Rightarrow> Some []
               | Some (Inr args) \<Rightarrow> Some (arg_tokens (fst r) 0 args))"

fun concat_lines :: "string \<Rightarrow> (nat \<times> nat) list \<Rightarrow> token list option" where
  "concat_lines src [] = Some []"
| "concat_lines src (r # rs) =
     (case line_tokens src r of
        None \<Rightarrow> None
      | Some ts \<Rightarrow> map_option (\<lambda>us. ts @ us) (concat_lines src rs))"

definition redis_highlight :: "string \<Rightarrow> token list option" where
  "redis_highlight src = concat_lines src (line_ranges src)"

section \<open>Arguments cover the line\<close>

lemma take_char_slice:
  "take_char line i = Some s \<Longrightarrow>
     s = slice line i (i + utf8_len (line ! i)) \<and> i + utf8_len (line ! i) \<le> length line"
  by (auto simp: take_char_def str_slice_def split: if_splits)

lemma arg_step_unquoted:
  assumes "arg_step line start i val q = Some (Inr (v, False, j))"
  shows "\<not> q \<and> v = val @ slice line i j \<and> i < j"
  using assms take_char_slice [of line i]
  by (auto simp: arg_step_def close_quote_Inr split: if_splits)

lemma scan_arg_unquoted:
  "scan_arg line start i val q = Some (Inr (v, False, j)) \<Longrightarrow> i \<le> length line
   \<Longrightarrow> \<not> q \<and> v = val @ slice line i j"
proof (induction line start i val q rule: scan_arg.induct)
  case (1 line start i val q)
  show ?case
  proof (cases "i < length line \<and> \<not> is_ascii_whitespace (line ! i)")
    case True
    with "1.prems" obtain w qw k where step: "arg_step line start i val q = Some (Inr (w, qw, k))"
      and rest: "scan_arg line start k w qw = Some (Inr (v, False, j))"
      by (auto simp: scan_arg.simps [of line start i] split: option.splits sum.splits)
    from arg_step_next [OF step] have k: "i < k" "k \<le> length line" by auto
    from "1.IH" [OF True step refl refl refl rest k(2)] have *: "\<not> qw" "v = w @ slice line k j" by auto
    with step have "arg_step line start i val q = Some (Inr (w, False, k))" by simp
    from arg_step_unquoted [OF this] have "\<not> q" "w = val @ slice line i k" by auto
    with * k scan_arg_next [OF rest k(2)] show ?thesis by (simp add: slice_append)
  next
    case False
    with "1.prems" show ?thesis by (auto simp: scan_arg.simps [of line start i])
  qed
qed

text \<open>
  \<open>args_cover line i args\<close>: from byte \<open>i\<close> the arguments are non-empty, in order and disjoint
  inside the line, only ASCII white space stands between them, and the value of an argument
  without quotes is the text of its range.
\<close>

fun args_cover :: "string \<Rightarrow> nat \<Rightarrow> arg list \<Rightarrow> bool" where
  "args_cover line i [] = (\<forall>j. i \<le> j \<and> j < length line \<longrightarrow> is_ascii_whitespace (line ! j))"
| "args_cover line i (a # as) =
     (i \<le> arg_start a \<and> arg_start a < arg_end a \<and> arg_end a \<le> length line
      \<and> (\<forall>j. i \<le> j \<and> j < arg_start a \<longrightarrow> is_ascii_whitespace (line ! j))
      \<and> (\<not> arg_quoted a \<longrightarrow> arg_value a = slice line (arg_start a) (arg_end a))
      \<and> args_cover line (arg_end a) as)"

lemma args_cover_skip:
  "is_ascii_whitespace (line ! i) \<Longrightarrow> args_cover line (i + 1) args \<Longrightarrow> args_cover line i args"
  by (cases args) (auto simp: Suc_le_eq nat_less_le)

lemma tokenize_from_cover:
  "tokenize_from line i = Some (Inr args) \<Longrightarrow> args_cover line i args"
proof (induction line i arbitrary: args rule: tokenize_from.induct)
  case (1 line i)
  show ?case
  proof (cases "i < length line")
    case False
    with "1.prems" show ?thesis by (auto simp: tokenize_from.simps [of line i])
  next
    case lt: True
    show ?thesis
    proof (cases "is_ascii_whitespace (line ! i)")
      case True
      with lt "1.prems" have "tokenize_from line (i + 1) = Some (Inr args)"
        by (simp add: tokenize_from.simps [of line i])
      from "1.IH"(1) [OF lt True this] True show ?thesis by (rule args_cover_skip [rotated])
    next
      case False
      with lt "1.prems" obtain v q j rest where
        arg: "scan_arg line i i [] False = Some (Inr (v, q, j))"
        and rest: "tokenize_from line j = Some (Inr rest)"
        and args: "args = \<lparr>arg_value = v, arg_start = i, arg_end = j, arg_quoted = q\<rparr> # rest"
        by (auto simp: tokenize_from.simps [of line i] split: option.splits sum.splits)
      from "1.IH"(2) [OF lt False arg refl refl refl rest] have "args_cover line j rest" .
      moreover have "\<not> q \<Longrightarrow> v = slice line i j"
        using scan_arg_unquoted [of line i i "[]" False v j] arg lt by simp
      ultimately show ?thesis using scan_arg_gt [OF arg lt False] args by auto
    qed
  qed
qed

text \<open>
  When the Redis tokenizer accepts a line, its arguments come in order, are non-empty
  and disjoint, leave out only ASCII white space, and an argument without quotes has as its
  value exactly the text of its range.
\<close>

theorem tokenize_args_cover:
  assumes "tokenize_args line = Some (Inr args)"
  shows "args_cover line 0 args"
  using tokenize_from_cover assms by (simp add: tokenize_args_def)

lemma tokenize_example:
  "tokenize_args ''get a'' = Some (Inr
     [\<lparr>arg_value = ''get'', arg_start = 0, arg_end = 3, arg_quoted = False\<rparr>,
      \<lparr>arg_value = ''a'', arg_start = 4, arg_end = 5, arg_quoted = False\<rparr>])"
  by code_simp

lemma tokenize_args_cover_witness:
  "args_cover ''get a'' 0
     [\<lparr>arg_value = ''get'', arg_start = 0, arg_end = 3, arg_quoted = False\<rparr>,
      \<lparr>arg_value = ''a'', arg_start = 4, arg_end = 5, arg_quoted = False\<rparr>]"
  by (rule tokenize_args_cover [OF tokenize_example])

section \<open>When the tokenizer panics\<close>

lemma utf8_take_char:
  assumes "utf8 (drop i line)" and "i < length line"
  shows "\<exists>s. take_char line i = Some s" and "utf8 (drop (i + utf8_len (line ! i)) line)"
proof -
  obtain r where d: "drop i line = line ! i # r"
    using assms(2) by (metis Cons_nth_drop_Suc)
  have "utf8_len (line ! i) \<le> length (line ! i # r) \<and> utf8 (drop (utf8_len (line ! i)) (line ! i # r))"
    using assms(1) unfolding d
    by (auto simp: utf8_len_def numeral_2_eq_2 numeral_3_eq_3 eval_nat_numeral
        split: if_splits list.splits)
  then have le: "i + utf8_len (line ! i) \<le> length line"
    and next_ok: "utf8 (drop (i + utf8_len (line ! i)) line)"
    using assms(2) arg_cong [OF d, of length] by (auto simp flip: d simp: add.commute)
  show "utf8 (drop (i + utf8_len (line ! i)) line)" by (rule next_ok)
  show "\<exists>s. take_char line i = Some s"
    using utf8_boundary [OF assms(1)] utf8_boundary [OF next_ok le] assms(2) le
    by (simp add: take_char_def str_slice_def)
qed

lemma utf8_step_ascii:
  "utf8 (drop i s) \<Longrightarrow> i < length s \<Longrightarrow> bval (s ! i) < 128 \<Longrightarrow> utf8 (drop (i + 1) s)"
  using Cons_nth_drop_Suc [of i s] by (metis Suc_eq_plus1 utf8.simps(2))

lemma drop_Suc_nth: "i + k < length s \<Longrightarrow> drop i s ! k = s ! (i + k)"
  by simp

text \<open>Every backslash that has a byte after it has an ASCII byte after it.\<close>

definition ascii_escapes :: "string \<Rightarrow> bool" where
  "ascii_escapes line =
     (\<forall>i. i + 1 < length line \<and> line ! i = backslash \<longrightarrow> bval (line ! (i + 1)) < 128)"

lemma hexdigit_ascii: "is_ascii_hexdigit c \<Longrightarrow> bval c < 128"
  by (auto simp: is_ascii_hexdigit_def is_ascii_digit_def in_interval_def)

lemma decode_escape_ascii:
  assumes "utf8 (drop k line)" and "k < length line" and "bval (line ! k) < 128"
    and "decode_double_escape (drop k line) = (s, n)"
  shows "utf8 (drop (k + n) line)"
proof -
  have one: "utf8 (drop (k + 1) line)" by (rule utf8_step_ascii [OF assms(1-3)])
  have d: "drop k line = line ! k # drop (k + 1) line"
    using assms(2) by (simp add: Cons_nth_drop_Suc)
  have "n = 1 \<or> (n = 3 \<and> k + 2 < length line
      \<and> is_ascii_hexdigit (line ! (k + 1)) \<and> is_ascii_hexdigit (line ! (k + 2)))"
    using assms(4) assms(2)
    by (auto simp: decode_double_escape_def d nth_Cons' split: if_splits)
  then show ?thesis
  proof
    assume "n = 1"
    with one show ?thesis by simp
  next
    assume *: "n = 3 \<and> k + 2 < length line
      \<and> is_ascii_hexdigit (line ! (k + 1)) \<and> is_ascii_hexdigit (line ! (k + 2))"
    then have "utf8 (drop (k + 1 + 1) line)"
      by (intro utf8_step_ascii [OF one] hexdigit_ascii) auto
    then have "utf8 (drop (k + 1 + 1 + 1) line)"
      by (rule utf8_step_ascii) (use * hexdigit_ascii in auto)
    with * show ?thesis by (simp add: numeral_3_eq_3)
  qed
qed

definition walks :: "string \<Rightarrow> (string \<times> nat) tok_result \<Rightarrow> bool" where
  "walks line r = (r \<noteq> None \<and> (\<forall>v j. r = Some (Inr (v, j)) \<longrightarrow> utf8 (drop j line)))"

lemma scan_double_walks:
  assumes "ascii_escapes line" and "utf8 (drop i line)"
  shows "walks line (scan_double line start i acc)"
  using assms
proof (induction line start i acc rule: scan_double.induct)
  case (1 line start i acc)
  note unfold = scan_double.simps [of line start i acc]
  consider (eof) "length line \<le> i" | (close) "i < length line" "line ! i = dquote"
    | (escape) "i < length line" "line ! i = backslash" "i + 1 < length line"
    | (char) "i < length line" "line ! i \<noteq> dquote" "\<not> (line ! i = backslash \<and> i + 1 < length line)"
    by linarith
  then show ?case
  proof cases
    case eof
    then show ?thesis by (simp add: unfold walks_def)
  next
    case close
    with utf8_step_ascii [OF "1.prems"(2)] show ?thesis by (simp add: unfold walks_def bval_def)
  next
    case escape
    obtain s n where d: "decode_double_escape (drop (i + 1) line) = (s, n)" by fastforce
    have "utf8 (drop (i + 1) line)"
      using utf8_step_ascii [OF "1.prems"(2)] escape by (simp add: bval_def)
    moreover have "bval (line ! (i + 1)) < 128"
      using "1.prems"(1) escape by (simp add: ascii_escapes_def)
    ultimately have ok: "utf8 (drop (i + 1 + n) line)"
      using escape d by (intro decode_escape_ascii [of "i + 1" line s n]) auto
    have "walks line (scan_double line start (i + 1 + n) (acc @ s))"
      using "1.IH"(1) escape d ok "1.prems"(1) by simp
    with escape d show ?thesis by (simp add: unfold)
  next
    case char
    from utf8_take_char [OF "1.prems"(2) char(1)] obtain s where
      s: "take_char line i = Some s" "utf8 (drop (i + utf8_len (line ! i)) line)" by blast
    have "walks line (scan_double line start (i + utf8_len (line ! i)) (acc @ s))"
      using "1.IH"(2) char s "1.prems"(1) by simp
    with char s(1) show ?thesis by (auto simp: unfold)
  qed
qed

lemma scan_single_walks:
  assumes "utf8 (drop i line)"
  shows "walks line (scan_single line start i acc)"
  using assms
proof (induction line start i acc rule: scan_single.induct)
  case (1 line start i acc)
  note unfold = scan_single.simps [of line start i acc]
  let ?esc = "line ! i = backslash
     \<and> (byte_at line (i + 1) = Some backslash \<or> byte_at line (i + 1) = Some quote_char)"
  consider (eof) "length line \<le> i" | (close) "i < length line" "line ! i = quote_char"
    | (escape) "i < length line" "line ! i \<noteq> quote_char" ?esc
    | (char) "i < length line" "line ! i \<noteq> quote_char" "\<not> ?esc"
    by linarith
  then show ?case
  proof cases
    case eof
    then show ?thesis by (simp add: unfold walks_def)
  next
    case close
    with utf8_step_ascii [OF "1.prems"] show ?thesis by (simp add: unfold walks_def bval_def)
  next
    case escape
    then have "utf8 (drop (i + 1) line)" and b: "i + 1 < length line" "bval (line ! (i + 1)) < 128"
      using utf8_step_ascii [OF "1.prems"] by (auto simp: bval_def byte_at_Some)
    then have "utf8 (drop (i + 2) line)" using utf8_step_ascii [of "i + 1" line] by simp
    with "1.IH"(1) escape have "walks line (scan_single line start (i + 2) (acc @ [line ! (i + 1)]))"
      by (simp add: not_le)
    with escape show ?thesis by (simp add: unfold)
  next
    case char
    from utf8_take_char [OF "1.prems" char(1)] obtain s where
      s: "take_char line i = Some s" "utf8 (drop (i + utf8_len (line ! i)) line)" by blast
    have "walks line (scan_single line start (i + utf8_len (line ! i)) (acc @ s))"
      using "1.IH"(2) char s by (simp add: not_le)
    with char s(1) show ?thesis by (auto simp: unfold)
  qed
qed

lemma arg_step_walks:
  assumes "ascii_escapes line" and "utf8 (drop i line)" and "i < length line"
  shows "arg_step line start i val q \<noteq> None
    \<and> (\<forall>v q' j. arg_step line start i val q = Some (Inr (v, q', j)) \<longrightarrow> utf8 (drop j line))"
proof -
  consider (quoted) "line ! i = dquote \<or> line ! i = quote_char"
    | (plain) "line ! i \<noteq> dquote" "line ! i \<noteq> quote_char" by blast
  then show ?thesis
  proof cases
    case quoted
    then have "utf8 (drop (i + 1) line)"
      using utf8_step_ascii [OF assms(2,3)] by (auto simp: bval_def)
    note w = scan_double_walks [OF assms(1) this, of start val] scan_single_walks [OF this, of start val]
    have ne: "close_quote r \<noteq> None" if "r \<noteq> None" for r
      using that by (cases r rule: close_quote.cases) auto
    from w quoted ne show ?thesis
      by (auto simp: arg_step_def walks_def close_quote_Inr simp del: not_None_eq)
  next
    case plain
    with utf8_take_char [OF assms(2,3)] show ?thesis by (auto simp: arg_step_def)
  qed
qed

lemma scan_arg_walks:
  assumes "ascii_escapes line" and "utf8 (drop i line)"
  shows "scan_arg line start i val q \<noteq> None
    \<and> (\<forall>v q' j. scan_arg line start i val q = Some (Inr (v, q', j)) \<longrightarrow> utf8 (drop j line))"
  using assms
proof (induction line start i val q rule: scan_arg.induct)
  case (1 line start i val q)
  show ?case
  proof (cases "i < length line \<and> \<not> is_ascii_whitespace (line ! i)")
    case False
    with "1.prems" show ?thesis by (auto simp: scan_arg.simps [of line start i])
  next
    case True
    then have lt: "i < length line" by simp
    from arg_step_walks [OF "1.prems" lt, of start val q]
    consider e where "arg_step line start i val q = Some (Inl e)"
      | v q' j where "arg_step line start i val q = Some (Inr (v, q', j))" "utf8 (drop j line)"
      by (metis option.exhaust prod_cases3 sum.exhaust)
    then show ?thesis
    proof cases
      case 1
      with True show ?thesis by (simp add: scan_arg.simps [of line start i])
    next
      case 2
      from "1.IH" [OF True 2(1) refl refl refl "1.prems"(1) 2(2)] True 2(1) show ?thesis
        by (simp add: scan_arg.simps [of line start i])
    qed
  qed
qed

lemma tokenize_from_walks:
  assumes "ascii_escapes line" and "utf8 (drop i line)"
  shows "tokenize_from line i \<noteq> None"
  using assms
proof (induction line i rule: tokenize_from.induct)
  case (1 line i)
  show ?case
  proof (cases "i < length line")
    case False
    then show ?thesis by (simp add: tokenize_from.simps [of line i])
  next
    case lt: True
    show ?thesis
    proof (cases "is_ascii_whitespace (line ! i)")
      case True
      then have "bval (line ! i) < 128" by (auto simp: is_ascii_whitespace_def)
      with "1.IH"(1) [OF lt True "1.prems"(1)] utf8_step_ascii [OF "1.prems"(2) lt] lt True
      show ?thesis by (simp add: tokenize_from.simps [of line i])
    next
      case False
      from scan_arg_walks [OF "1.prems", of i "[]" False]
      consider e where "scan_arg line i i [] False = Some (Inl e)"
        | v q' j where "scan_arg line i i [] False = Some (Inr (v, q', j))" "utf8 (drop j line)"
        by (metis option.exhaust prod_cases3 sum.exhaust)
      then show ?thesis
      proof cases
        case 1
        with lt False show ?thesis by (simp add: tokenize_from.simps [of line i])
      next
        case 2
        from "1.IH"(2) [OF lt False 2(1) refl refl refl "1.prems"(1) 2(2)] lt False 2(1)
        show ?thesis by (auto simp: tokenize_from.simps [of line i] split: option.splits sum.splits)
      qed
    qed
  qed
qed

text \<open>
  On a UTF-8 line whose backslashes are each followed by an ASCII byte, the Redis
  tokenizer and so the classifier never panic.
\<close>

theorem redis_classify_total:
  assumes "utf8 stmt" and "ascii_escapes stmt"
  shows "tokenize_args stmt \<noteq> None \<and> redis_classify stmt \<noteq> None"
proof -
  have "tokenize_args stmt \<noteq> None"
    using tokenize_from_walks [OF assms(2), of 0] assms(1) by (simp add: tokenize_args_def)
  then show ?thesis by (auto simp: redis_classify_def split: option.splits sum.splits list.splits)
qed

lemma redis_classify_total_witness: "redis_classify ''get a'' \<noteq> None"
  using redis_classify_total [of "''get a''"]
  by (simp add: ascii_escapes_def bval_def nth_Cons')

text \<open>
  A double-quoted argument with a backslash before a non-ASCII character makes the
  tokenizer, and so the classifier the safety gate calls, panic: the escape consumes one
  byte of the character and the next slice begins inside it.
\<close>

theorem redis_classify_panics:
  assumes "192 \<le> bval a" and "is_continuation b"
  shows "redis_classify (dquote # backslash # a # b # rest) = None"
proof -
  let ?line = "dquote # backslash # a # b # rest"
  have "utf8_len b = 4" using assms(2) by (simp add: utf8_len_def is_continuation_def in_interval_def)
  moreover have "\<not> is_char_boundary ?line 3"
    using assms(2) by (simp add: is_char_boundary_def is_continuation_def in_interval_def)
  ultimately have t: "take_char ?line 3 = None" by (simp add: take_char_def str_slice_def)
  have nb: "b \<noteq> dquote" "b \<noteq> backslash" "a \<noteq> CHR ''n''" "a \<noteq> CHR ''r''" "a \<noteq> CHR ''t''"
    "a \<noteq> CHR ''b''" "a \<noteq> CHR ''a''" "a \<noteq> backslash" "a \<noteq> dquote" "a \<noteq> CHR ''x''"
    using assms by (auto simp: is_continuation_def in_interval_def bval_def)
  then have d: "decode_double_escape (drop 2 ?line) = (latin1 (bval a), 1)"
    by (simp add: decode_double_escape_def)
  have "scan_double ?line 0 3 acc = None" for acc
  proof -
    have "?line ! 3 = b" by (simp add: numeral_3_eq_3)
    with t nb show ?thesis unfolding scan_double.simps [of ?line 0 3 acc] by simp
  qed
  moreover have "scan_double ?line 0 1 [] = scan_double ?line 0 (1 + 1 + 1) ([] @ latin1 (bval a))"
    using d by (subst scan_double.simps) (simp add: numeral_2_eq_2)
  ultimately have "scan_double ?line 0 1 [] = None" by (simp add: numeral_3_eq_3)
  then have "scan_arg ?line 0 0 [] False = None"
    by (simp add: scan_arg.simps [of ?line 0 0] arg_step_def is_ascii_whitespace_def bval_def)
  then show ?thesis
    by (simp add: redis_classify_def tokenize_args_def tokenize_from.simps [of ?line 0]
        is_ascii_whitespace_def bval_def)
qed

lemma redis_classify_panics_witness:
  "redis_classify [dquote, backslash, CHR 0xC3, CHR 0xA9, dquote] = None"
  using redis_classify_panics [of "CHR 0xC3" "CHR 0xA9" "[dquote]"]
  by (simp add: is_continuation_def in_interval_def bval_def)

section \<open>What the splitter returns\<close>

lemma redis_emit_inv:
  assumes "redis_emit_span src start e spans = Some spans'"
    and "list_all (nonblank src) spans" and "spans_in 0 spans m" and "m \<le> start" and "start \<le> e"
  shows "list_all (nonblank src) spans' \<and> spans_in 0 spans' e"
  using assms
  by (auto simp: redis_emit_span_def Let_def str_slice_def nonblank_def
      intro: spans_in_mono spans_in_snoc split: if_splits option.splits)

lemma redis_split_inv:
  assumes "redis_split_from src start i quote spans = Some spans'"
    and "list_all (nonblank src) spans" and "spans_in 0 spans m" and "m \<le> start" and "start \<le> i"
    and "start \<le> length src"
  shows "list_all (nonblank src) spans' \<and> spans_in 0 spans' (length src)"
  using assms
proof (induction src start i quote spans arbitrary: m rule: redis_split_from.induct)
  case (1 src start i quote spans)
  note unfold = redis_split_from.simps [of src start i quote spans]
  show ?case
  proof (cases "i < length src")
    case False
    with "1.prems" have "redis_emit_span src start (length src) spans = Some spans'"
      by (simp add: unfold)
    from redis_emit_inv [OF this "1.prems"(2-4,6)] show ?thesis .
  next
    case lt: True
    show ?thesis
    proof (cases quote)
      case (Some q)
      with "1.IH"(4,5,6) [OF lt Some] "1.prems"(2-) "1.prems"(1) [unfolded unfold] lt show ?thesis
        by (auto split: if_splits)
    next
      case None
      show ?thesis
      proof (cases "src ! i = dquote \<or> src ! i = quote_char \<or> src ! i \<noteq> newline")
        case True
        with "1.IH"(1,3) [OF lt None] "1.prems"(2-) "1.prems"(1) [unfolded unfold] lt None show ?thesis
          by (auto split: if_splits)
      next
        case False
        with lt None "1.prems"(1) [unfolded unfold] obtain sp where
          sp: "redis_emit_span src start i spans = Some sp"
          and rest: "redis_split_from src (i + 1) (i + 1) None sp = Some spans'"
          by (auto split: option.splits)
        from redis_emit_inv [OF sp "1.prems"(2-5)]
        have "list_all (nonblank src) sp" "spans_in 0 sp i" by auto
        then show ?thesis
          using "1.IH"(2) [OF lt None _ _ sp rest, of i] False lt by auto
      qed
    qed
  qed
qed

text \<open>
  The Redis commands the splitter returns are non-blank stretches of the text, in
  increasing order and disjoint.
\<close>

theorem redis_split_ordered:
  assumes "redis_split src = Some spans"
  shows "spans_in 0 spans (length src) \<and> list_all (nonblank src) spans"
  using redis_split_inv [of src 0 0 None "[]" spans 0] assms by (simp add: redis_split_def)

lemma redis_split_example:
  "redis_split ''ping'' = Some [\<lparr>span_start = 0, span_end = 4, span_directives = Inr default_directives\<rparr>]"
  by code_simp

lemma redis_split_ordered_witness:
  "spans_in 0 [\<lparr>span_start = 0, span_end = 4, span_directives = Inr default_directives\<rparr>] 4"
  using redis_split_ordered [OF redis_split_example] by simp

lemma redis_split_plain:
  "list_all (\<lambda>c. c \<noteq> dquote \<and> c \<noteq> quote_char \<and> c \<noteq> newline) (slice src i j) \<Longrightarrow> i \<le> j \<Longrightarrow> j \<le> length src
   \<Longrightarrow> redis_split_from src s i None spans = redis_split_from src s j None spans"
proof (induction "j - i" arbitrary: i)
  case (Suc n)
  then have lt: "i < j" by simp
  have "slice src i j = src ! i # slice src (i + 1) j"
    using lt Suc.prems(3)
    by (simp add: slice_def Cons_nth_drop_Suc [symmetric] Suc_diff_Suc [symmetric])
  with Suc.prems have c: "src ! i \<noteq> dquote" "src ! i \<noteq> quote_char" "src ! i \<noteq> newline"
    and rest: "list_all (\<lambda>c. c \<noteq> dquote \<and> c \<noteq> quote_char \<and> c \<noteq> newline) (slice src (i + 1) j)" by auto
  have "redis_split_from src s i None spans = redis_split_from src s (i + 1) None spans"
    using c lt Suc.prems(3) by (simp add: redis_split_from.simps [of src s i])
  also have "\<dots> = redis_split_from src s j None spans"
    using Suc.hyps(1) [of "i + 1"] Suc.hyps(2) rest lt Suc.prems(3) by simp
  finally show ?case .
qed simp

lemma redis_split_open_quote:
  "\<forall>k. i \<le> k \<and> k < length src \<longrightarrow> src ! k \<noteq> q \<Longrightarrow>
   redis_split_from src s i (Some q) spans = redis_emit_span src s (length src) spans"
proof (induction src s i "Some q" spans rule: redis_split_from.induct)
  case (1 src s i spans)
  then show ?case by (auto simp: redis_split_from.simps [of src s i])
qed

text \<open>
  An apostrophe in a comment line swallows the rest of the script: a UTF-8 text that
  begins with a comment line holding one apostrophe, and none after it, splits into no
  commands at all, whatever commands follow on the next lines.
\<close>

theorem redis_comment_apostrophe:
  assumes "src = CHR ''#'' # note @ quote_char # rest"
    and "list_all (\<lambda>c. c \<noteq> dquote \<and> c \<noteq> quote_char \<and> c \<noteq> newline) note"
    and "quote_char \<notin> set rest" and "utf8 src"
  shows "redis_split src = Some []"
proof -
  let ?n = "length note + 1"
  have len: "?n < length src" "src ! ?n = quote_char"
    using assms(1) by (auto simp: nth_append)
  have "slice src 0 ?n = CHR ''#'' # note" using assms(1) by (simp add: slice_def)
  with assms(2) len have "redis_split_from src 0 0 None [] = redis_split_from src 0 ?n None []"
    by (intro redis_split_plain) auto
  also have "\<dots> = redis_split_from src 0 (?n + 1) (Some quote_char) []"
    using len by (subst redis_split_from.simps) simp
  also have "\<dots> = redis_emit_span src 0 (length src) []"
  proof (rule redis_split_open_quote, intro allI impI)
    fix k assume k: "?n + 1 \<le> k \<and> k < length src"
    then obtain m where m: "k = ?n + 1 + m" using le_Suc_ex by blast
    then have "src ! k = rest ! m" "m < length rest" using assms(1) k by (auto simp: nth_append)
    with assms(3) show "src ! k \<noteq> quote_char" by (metis nth_mem)
  qed
  also have "\<dots> = Some []"
  proof -
    have "\<exists>r. trim src = CHR ''#'' # r"
      unfolding assms(1) by (rule trim_keep) (simp_all add: ws_single_def bval_def)
    then obtain r where "trim src = CHR ''#'' # r" ..
    moreover have "str_slice src 0 (length src) = Some src"
      by (simp add: str_slice_def is_char_boundary_def slice_all)
    ultimately show ?thesis using len by (simp add: redis_emit_span_def)
  qed
  finally show ?thesis by (simp add: redis_split_def)
qed

definition dont_script :: string where
  "dont_script = ''# don'' @ [quote_char] @ ''t'' @ [newline] @ ''FLUSHALL''"

lemma redis_comment_apostrophe_witness: "redis_split dont_script = Some []"
  by (rule redis_comment_apostrophe [of _ "'' don''" "''t'' @ [newline] @ ''FLUSHALL''"])
     (simp_all add: dont_script_def bval_def)

end
