(* ===== verification/Api_Value.thy ===== *)
theory Api_Value
  imports Sql_Words
begin

text \<open>
  The value model of \<open>crates/datagrep-api/src/value.rs\<close> and \<open>shape.rs\<close>: values, documents
  with first-occurrence lookup, and field paths with their printer and parser.
\<close>

section \<open>Data\<close>

datatype tz_spec = TzNaive | TzUtc | TzNamed string | TzOffset int

text \<open>A double is kept as a decimal text that denotes it: no operation of the value model
  computes with it.\<close>

type_synonym f64 = string

datatype geometry =
    GeoPoint f64 f64
  | GeoLineString "(f64 \<times> f64) list"
  | GeoPolygon "(f64 \<times> f64) list list"
  | GeoRaw string

datatype db_value =
    VNull
  | VAbsent
  | VBool bool
  | VI64 int
  | VU64 nat
  | VF64 f64
  | VDecimal string
  | VStr string
  | VBytes string
  | VDate int
  | VTime int
  | VTimestamp int tz_spec
  | VInterval int int int
  | VUuid string
  | VJson string
  | VArray "db_value list"
  | VDocument "(string \<times> db_value) list"
  | VRef "string list" "db_value list"
  | VGeo geometry
  | VVector "f64 list"
  | VUnsupported string string string

datatype logical_type =
    LNull | LBool | LI64 | LU64 | LF64 | LDecimal | LStr | LBytes | LDate | LTime | LTimestamp
  | LInterval | LUuid | LJson | LArray | LDocument | LRef | LGeo | LVector | LUnknown

fun logical_type_of :: "db_value \<Rightarrow> logical_type option" where
  "logical_type_of VNull = Some LNull"
| "logical_type_of VAbsent = None"
| "logical_type_of (VBool _) = Some LBool"
| "logical_type_of (VI64 _) = Some LI64"
| "logical_type_of (VU64 _) = Some LU64"
| "logical_type_of (VF64 _) = Some LF64"
| "logical_type_of (VDecimal _) = Some LDecimal"
| "logical_type_of (VStr _) = Some LStr"
| "logical_type_of (VBytes _) = Some LBytes"
| "logical_type_of (VDate _) = Some LDate"
| "logical_type_of (VTime _) = Some LTime"
| "logical_type_of (VTimestamp _ _) = Some LTimestamp"
| "logical_type_of (VInterval _ _ _) = Some LInterval"
| "logical_type_of (VUuid _) = Some LUuid"
| "logical_type_of (VJson _) = Some LJson"
| "logical_type_of (VArray _) = Some LArray"
| "logical_type_of (VDocument _) = Some LDocument"
| "logical_type_of (VRef _ _) = Some LRef"
| "logical_type_of (VGeo _) = Some LGeo"
| "logical_type_of (VVector _) = Some LVector"
| "logical_type_of (VUnsupported _ _ _) = Some LUnknown"

section \<open>Documents\<close>

text \<open>A document is its fields in order and an index from key to position.\<close>

record document =
  doc_fields :: "(string \<times> db_value) list"
  doc_index :: "string \<Rightarrow> nat option"

definition or_insert :: "string \<Rightarrow> nat \<Rightarrow> (string \<Rightarrow> nat option) \<Rightarrow> (string \<Rightarrow> nat option)" where
  "or_insert k i idx = (if idx k = None then idx(k \<mapsto> i) else idx)"

fun index_from :: "nat \<Rightarrow> (string \<times> db_value) list \<Rightarrow> (string \<Rightarrow> nat option) \<Rightarrow> (string \<Rightarrow> nat option)"
where
  "index_from i [] idx = idx"
| "index_from i (f # fs) idx = index_from (i + 1) fs (or_insert (fst f) i idx)"

definition from_fields :: "(string \<times> db_value) list \<Rightarrow> document" where
  "from_fields fs = \<lparr>doc_fields = fs, doc_index = index_from 0 fs (\<lambda>_. None)\<rparr>"

definition doc_push :: "string \<Rightarrow> db_value \<Rightarrow> document \<Rightarrow> document" where
  "doc_push k v d =
     \<lparr>doc_fields = doc_fields d @ [(k, v)],
      doc_index = or_insert k (length (doc_fields d)) (doc_index d)\<rparr>"

definition doc_get :: "document \<Rightarrow> string \<Rightarrow> db_value option" where
  "doc_get d k = (case doc_index d k of None \<Rightarrow> None | Some i \<Rightarrow> Some (snd (doc_fields d ! i)))"

datatype path_seg = PField string | PIndex nat

text \<open>\<open>get_path\<close>; a nested document is read through \<open>from_fields\<close>, as it was built.\<close>

fun get_path_from :: "document \<Rightarrow> db_value option \<Rightarrow> path_seg list \<Rightarrow> db_value option" where
  "get_path_from self cur [] = cur"
| "get_path_from self cur (PField name # segs) =
     (case (case cur of
              None \<Rightarrow> Some self
            | Some (VDocument fs) \<Rightarrow> Some (from_fields fs)
            | Some _ \<Rightarrow> None) of
        None \<Rightarrow> None
      | Some d \<Rightarrow>
          (case doc_get d name of
             None \<Rightarrow> None
           | Some v \<Rightarrow> get_path_from self (Some v) segs))"
| "get_path_from self cur (PIndex n # segs) =
     (case cur of
        Some (VArray items) \<Rightarrow>
          (case byte_at items n of
             None \<Rightarrow> None
           | Some v \<Rightarrow> get_path_from self (Some v) segs)
      | _ \<Rightarrow> None)"

definition get_path :: "document \<Rightarrow> path_seg list \<Rightarrow> db_value option" where
  "get_path d segs = get_path_from d None segs"

lemma index_from_find:
  "index_from i fs idx k =
     (case idx k of
        Some j \<Rightarrow> Some j
      | None \<Rightarrow> (case find_index (\<lambda>f. fst f = k) fs of None \<Rightarrow> None | Some j \<Rightarrow> Some (i + j)))"
proof (induction fs arbitrary: i idx)
  case Nil
  then show ?case by (auto split: option.splits)
next
  case (Cons f fs)
  then show ?case
    by (auto simp: or_insert_def simp del: find_index_None split: option.splits)
qed

text \<open>What a document promises: the index holds the first position of every key.\<close>

definition doc_ok :: "document \<Rightarrow> bool" where
  "doc_ok d = (doc_index d = (\<lambda>k. find_index (\<lambda>f. fst f = k) (doc_fields d)))"

lemma find_index_append:
  "find_index p (xs @ ys) =
     (case find_index p xs of Some i \<Rightarrow> Some i
      | None \<Rightarrow> (case find_index p ys of None \<Rightarrow> None | Some j \<Rightarrow> Some (length xs + j)))"
  by (induction xs) (auto simp del: find_index_None split: option.splits)

lemma from_fields_ok: "doc_ok (from_fields fs)"
  by (simp add: doc_ok_def from_fields_def fun_eq_iff index_from_find del: find_index_None
      split: option.splits)

lemma doc_push_ok: "doc_ok d \<Longrightarrow> doc_ok (doc_push k v d)"
  by (auto simp: doc_ok_def doc_push_def or_insert_def fun_eq_iff find_index_append
      simp del: find_index_None split: option.splits)

lemma find_index_map_of:
  "map_of fs k = map_option (\<lambda>i. snd (fs ! i)) (find_index (\<lambda>f. fst f = k) fs)"
  by (induction fs) (auto simp: option.map_comp comp_def)

lemma doc_get_map_of: "doc_ok d \<Longrightarrow> doc_get d k = map_of (doc_fields d) k"
  by (simp add: doc_get_def doc_ok_def find_index_map_of split: option.splits)

text \<open>Documents built by the code: from a field list, or by pushing fields one by one.\<close>

inductive built :: "document \<Rightarrow> bool" where
  built_from: "built (from_fields fs)"
| built_push: "built d \<Longrightarrow> built (doc_push k v d)"

lemma built_ok: "built d \<Longrightarrow> doc_ok d"
  by (induction rule: built.induct) (auto intro: from_fields_ok doc_push_ok)

text \<open>
  In every document the code can build, by \<open>from_fields\<close> and any sequence of pushes,
  \<open>get\<close> returns the value of the first field with the key, duplicates notwithstanding.
\<close>

theorem document_get_first:
  assumes "built d"
  shows "doc_get d k = map_of (doc_fields d) k"
  using doc_get_map_of [OF built_ok [OF assms]] .

lemma document_get_first_witness:
  "doc_get (doc_push ''a'' (VI64 2) (from_fields [(''a'', VI64 1)])) ''a'' = Some (VI64 1)"
  using document_get_first [OF built_push [OF built_from], of "''a''" "VI64 2" "[(''a'', VI64 1)]" "''a''"]
  by (simp add: doc_push_def from_fields_def)

section \<open>Field paths\<close>

datatype path_error = PathParseError nat string

definition is_path_delim :: "char \<Rightarrow> bool" where
  "is_path_delim b = (b = CHR ''.'' \<or> b = CHR ''['' \<or> b = CHR '']'')"

text \<open>One segment at \<open>i\<close>: the first \<open>match\<close> of the loop.\<close>

definition parse_segment :: "string \<Rightarrow> nat \<Rightarrow> path_error + (path_seg \<times> nat)" where
  "parse_segment s i =
     (case byte_at s i of
        None \<Rightarrow> Inl (PathParseError i ''expected a segment'')
      | Some b \<Rightarrow>
          if b = CHR ''['' then
            (let start = i + 1; j = run_while is_ascii_digit s start (length s) in
             if j = start then Inl (PathParseError start ''expected digits inside []'')
             else if byte_at s j \<noteq> Some (CHR '']'') then
               Inl (PathParseError j ''unterminated index, expected ]'')
             else case parse_u64 (slice s start j) of
                 None \<Rightarrow> Inl (PathParseError start ''index out of range'')
               | Some n \<Rightarrow> Inr (PIndex n, j + 1))
          else if b = CHR ''.'' then Inl (PathParseError i ''empty field name'')
          else if b = CHR '']'' then Inl (PathParseError i ''unexpected ]'')
          else let j = run_while (\<lambda>c. \<not> is_path_delim c) s i (length s)
               in Inr (PField (slice s i j), j))"

text \<open>What follows a segment: \<open>Inr None\<close> is the end, \<open>Inr (Some j)\<close> the next segment.\<close>

definition after_segment :: "string \<Rightarrow> nat \<Rightarrow> path_error + nat option" where
  "after_segment s i =
     (case byte_at s i of
        None \<Rightarrow> Inr None
      | Some b \<Rightarrow>
          if b = CHR ''.'' then
            if i + 1 = length s then Inl (PathParseError (i + 1) ''trailing dot'')
            else if s ! (i + 1) = CHR ''['' then
              Inl (PathParseError (i + 1) ''index must not follow a dot'')
            else Inr (Some (i + 1))
          else if b = CHR ''['' then Inr (Some i)
          else Inl (PathParseError i ''expected . or [ after index''))"

lemma parse_segment_next: "parse_segment s i = Inr (seg, j) \<Longrightarrow> i < j \<and> i < length s"
  using run_while_bounds [of "i + 1" is_ascii_digit s "length s"]
    run_while_step [of i "length s" "\<lambda>c. \<not> is_path_delim c" s]
  by (auto simp: parse_segment_def Let_def byte_at_Some is_path_delim_def
      run_while.simps [of _ s i] intro: less_SucI less_le_trans [OF lessI run_while_ge]
      split: option.splits if_splits)

lemma after_segment_next: "after_segment s j = Inr (Some k) \<Longrightarrow> j \<le> k"
  by (auto simp: after_segment_def split: option.splits if_splits)

function parse_path_from :: "string \<Rightarrow> nat \<Rightarrow> path_error + path_seg list" where
  "parse_path_from s i =
     (case parse_segment s i of
        Inl e \<Rightarrow> Inl e
      | Inr (seg, j) \<Rightarrow>
          (case after_segment s j of
             Inl e \<Rightarrow> Inl e
           | Inr None \<Rightarrow> Inr [seg]
           | Inr (Some k) \<Rightarrow>
               (case parse_path_from s k of Inl e \<Rightarrow> Inl e | Inr segs \<Rightarrow> Inr (seg # segs))))"
  by pat_completeness auto
termination
proof (relation "measure (\<lambda>(s, i). length s - i)", goal_cases)
  case (2 s i r seg j o' k)
  then show ?case using parse_segment_next [of s i seg j] after_segment_next [of s j k] by auto
qed simp

declare parse_path_from.simps [simp del]

definition parse_field_path :: "string \<Rightarrow> path_error + path_seg list" where
  "parse_field_path s =
     (if s = [] then Inl (PathParseError 0 ''empty path'') else parse_path_from s 0)"

text \<open>\<open>Display\<close>: the flag tells whether the segment is the first.\<close>

fun show_segments :: "bool \<Rightarrow> path_seg list \<Rightarrow> string" where
  "show_segments first [] = []"
| "show_segments first (PField name # segs) =
     (if first then [] else ''.'') @ name @ show_segments False segs"
| "show_segments first (PIndex n # segs) = ''['' @ show_nat n @ '']'' @ show_segments False segs"

definition show_field_path :: "path_seg list \<Rightarrow> string" where
  "show_field_path segs = show_segments True segs"

text \<open>A segment the printer can print unambiguously: a field name is not empty and holds no
  delimiter, an index is a \<open>u64\<close>.\<close>

fun good_segment :: "path_seg \<Rightarrow> bool" where
  "good_segment (PField name) = (name \<noteq> [] \<and> list_all (\<lambda>c. \<not> is_path_delim c) name)"
| "good_segment (PIndex n) = (n < 2 ^ 64)"

lemma run_while_block:
  assumes "list_all p xs" and "ys = [] \<or> \<not> p (hd ys)" and "s = pre @ xs @ ys"
  shows "run_while p s (length pre) (length s) = length pre + length xs"
  using assms
proof (induction xs arbitrary: pre)
  case Nil
  then show ?case by (cases ys) (auto simp: run_while.simps nth_append)
next
  case (Cons x xs)
  then have "run_while p s (length (pre @ [x])) (length s) = length (pre @ [x]) + length xs"
    by (intro Cons.IH) auto
  moreover have "s ! length pre = x" "length pre < length s" using Cons.prems(3) by (auto simp: nth_append)
  ultimately show ?case using Cons.prems(1) by (subst run_while.simps) simp
qed

lemma parse_segment_field:
  assumes "good_segment (PField n)" and "rest = [] \<or> is_path_delim (hd rest)" and "s = pre @ n @ rest"
  shows "parse_segment s (length pre) = Inr (PField n, length pre + length n)"
proof -
  obtain c r where n: "n = c # r" using assms(1) by (cases n) auto
  have "byte_at s (length pre) = Some c" using assms(3) n by (simp add: byte_at_def nth_append)
  moreover have "run_while (\<lambda>c. \<not> is_path_delim c) s (length pre) (length s) = length pre + length n"
    by (rule run_while_block [OF _ _ assms(3)]) (use assms(1,2) in auto)
  moreover have "slice s (length pre) (length pre + length n) = n" using assms(3) by (simp add: slice_def)
  ultimately show ?thesis using assms(1) n by (simp add: parse_segment_def is_path_delim_def)
qed

lemma parse_segment_index:
  assumes "n < 2 ^ 64" and "s = pre @ ''['' @ show_nat n @ '']'' @ rest"
  shows "parse_segment s (length pre) = Inr (PIndex n, length pre + length (show_nat n) + 2)"
proof -
  let ?j = "length pre + 1 + length (show_nat n)"
  have "byte_at s (length pre) = Some (CHR ''['')" using assms(2) by (simp add: byte_at_def nth_append)
  moreover have "run_while is_ascii_digit s (length (pre @ ''['')) (length s)
      = length (pre @ ''['') + length (show_nat n)"
    by (rule run_while_block [of _ _ "'']'' @ rest"])
       (use assms(2) show_nat_digits in \<open>auto simp: is_ascii_digit_def in_interval_def bval_def\<close>)
  moreover have "byte_at s ?j = Some (CHR '']'')" using assms(2) by (simp add: byte_at_def nth_append)
  moreover have "slice s (length pre + 1) ?j = show_nat n" using assms(2) by (simp add: slice_def)
  moreover have "parse_u64 (show_nat n) = Some n"
    unfolding parse_u64_def by (rule parse_unsigned_show [OF assms(1)])
  ultimately show ?thesis using show_nat_digits(2) [of n] by (simp add: parse_segment_def)
qed

lemma show_segments_hd:
  "list_all good_segment segs \<Longrightarrow> show_segments False segs = [] \<or> is_path_delim (hd (show_segments False segs))"
  by (cases segs; cases "hd segs") (auto simp: is_path_delim_def)

text \<open>The text of one segment and of the segments after it.\<close>

fun segment_body :: "path_seg \<Rightarrow> string" where
  "segment_body (PField n) = n"
| "segment_body (PIndex n) = ''['' @ show_nat n @ '']''"

lemma parse_segment_body:
  assumes "good_segment seg" and "list_all good_segment segs"
    and "s = pre @ segment_body seg @ show_segments False segs"
  shows "parse_segment s (length pre) = Inr (seg, length pre + length (segment_body seg))"
proof (cases seg)
  case (PField n)
  then show ?thesis
    using parse_segment_field [of n "show_segments False segs" s pre] show_segments_hd [OF assms(2)] assms
    by simp
next
  case (PIndex n)
  then show ?thesis
    using parse_segment_index [of n s pre "show_segments False segs"] assms by simp
qed

lemma parse_path_body:
  assumes "good_segment seg" and "list_all good_segment segs"
    and "s = pre @ segment_body seg @ show_segments False segs"
  shows "parse_path_from s (length pre) = Inr (seg # segs)"
  using assms
proof (induction segs arbitrary: seg pre)
  case Nil
  let ?j = "length pre + length (segment_body seg)"
  have "byte_at s ?j = None" using Nil.prems(3) by (simp add: byte_at_def)
  then have "after_segment s ?j = Inr None" by (simp add: after_segment_def)
  with parse_segment_body [OF Nil.prems] show ?case by (simp add: parse_path_from.simps)
next
  case (Cons seg' segs)
  let ?j = "length pre + length (segment_body seg)"
  let ?pre = "pre @ segment_body seg @ (case seg' of PField _ \<Rightarrow> ''.'' | PIndex _ \<Rightarrow> [])"
  have s': "s = ?pre @ segment_body seg' @ show_segments False segs"
    using Cons.prems(3) by (cases seg') auto
  from Cons.prems(2) have good: "good_segment seg'" "list_all good_segment segs" by auto
  have "after_segment s ?j = Inr (Some (length ?pre))"
  proof (cases seg')
    case (PField n)
    with good(1) obtain c r where n: "n = c # r" "\<not> is_path_delim c" by (cases n) auto
    have "byte_at s ?j = Some (CHR ''.'')" "s ! (?j + 1) = c" "?j + 1 < length s"
      using s' PField n by (simp_all add: byte_at_def nth_append)
    with n PField show ?thesis by (simp add: after_segment_def is_path_delim_def)
  next
    case (PIndex n)
    then have "byte_at s ?j = Some (CHR ''['')" using s' by (simp add: byte_at_def nth_append)
    with PIndex show ?thesis by (simp add: after_segment_def)
  qed
  moreover have "parse_path_from s (length ?pre) = Inr (seg' # segs)"
    by (rule Cons.IH [OF good s'])
  ultimately show ?case
    using parse_segment_body [OF Cons.prems] by (simp add: parse_path_from.simps [of s "length pre"])
qed

text \<open>
  A field path prints to a text that parses back to it: for every non-empty path whose
  field names are non-empty and free of dots and brackets and whose indices are \<open>u64\<close>.
\<close>

theorem field_path_roundtrip:
  assumes "segs \<noteq> []" and "list_all good_segment segs"
  shows "parse_field_path (show_field_path segs) = Inr segs"
proof -
  obtain seg rest where segs: "segs = seg # rest" using assms(1) by (cases segs) auto
  have body: "show_field_path segs = segment_body seg @ show_segments False rest"
    using segs by (cases seg) (auto simp: show_field_path_def)
  have "segment_body seg \<noteq> []" using assms(2) segs by (cases seg) auto
  with parse_path_body [of seg rest "show_field_path segs" "[]"] assms(2) segs body
  show ?thesis by (simp add: parse_field_path_def)
qed

lemma field_path_roundtrip_witness:
  "parse_field_path (show_field_path [PField ''a'', PIndex 3, PField ''b'']) =
     Inr [PField ''a'', PIndex 3, PField ''b'']"
  by (rule field_path_roundtrip) (simp_all add: is_path_delim_def)

end
