(* ===== verification/Mongo_Parser.thy ===== *)
theory Mongo_Parser
  imports Redis_Lang Api_Value
begin

text \<open>
  The mongo-shell statement parser of \<open>crates/datagrep-lang/src/mongo/parser.rs\<close> and the
  ISO date reader of \<open>date.rs\<close>.  A parser position is a byte index; the outcome of a step is a
  value and the next position, an error, a panic (a \<open>&str\<close> slice off a character boundary)
  or, for the recursive steps, running out of fuel.  The fuel counts nested calls and loop
  turns; \<open>mongo_parse\<close> starts with twice the length of the text, which is shown to suffice.
\<close>

section \<open>Results\<close>

datatype mongo_error =
    UnsupportedJs
  | UnexpectedEof nat string
  | Unexpected nat string string
  | InvalidLiteral string string nat string
  | TrailingInput nat string

datatype 'a presult = Panics | OutOfFuel | Fails mongo_error | Parsed 'a nat

fun pbind :: "'a presult \<Rightarrow> ('a \<Rightarrow> nat \<Rightarrow> 'b presult) \<Rightarrow> 'b presult" where
  "pbind Panics f = Panics"
| "pbind OutOfFuel f = OutOfFuel"
| "pbind (Fails e) f = Fails e"
| "pbind (Parsed a i) f = f a i"

record mongo_statement =
  ms_collection :: string
  ms_method :: string
  ms_args :: "db_value list"
  ms_modifiers :: "(string \<times> db_value list) list"

datatype parsed_mongo = Chain mongo_statement | RawCommand "db_value"

section \<open>Dates\<close>

text \<open>Rust's \<open>/\<close> on a year: it truncates toward zero.\<close>

definition trunc_div :: "int \<Rightarrow> int \<Rightarrow> int" where
  "trunc_div a b = (if 0 \<le> a then a div b else - ((- a) div b))"

definition days_from_civil :: "int \<Rightarrow> int \<Rightarrow> int \<Rightarrow> int" where
  "days_from_civil y0 m d =
     (let y = (if m \<le> 2 then y0 - 1 else y0);
          era = trunc_div (if 0 \<le> y then y else y - 399) 400;
          yoe = y - era * 400;
          mp = (m + 9) mod 12;
          doy = (153 * mp + 2) div 5 + d - 1;
          doe = yoe * 365 + yoe div 4 - yoe div 100 + doy
      in era * 146097 + doe - 719468)"

text \<open>\<open>s.get(a..b)\<close>, and \<open>i64::from_str\<close>, which takes a sign.\<close>

definition str_get :: "string \<Rightarrow> nat \<Rightarrow> nat \<Rightarrow> string option" where
  "str_get s a b = str_slice s a b"

definition parse_signed :: "nat \<Rightarrow> string \<Rightarrow> int option" where
  "parse_signed width s =
     (let neg = (s \<noteq> [] \<and> hd s = CHR ''-'');
          d = (case s of c # r \<Rightarrow> if c = CHR ''+'' \<or> c = CHR ''-'' then r else s | [] \<Rightarrow> []);
          n = int (digits_value d)
      in if d = [] \<or> \<not> list_all is_ascii_digit d then None
         else if neg then (if n \<le> 2 ^ (width - 1) then Some (- n) else None)
         else (if n < 2 ^ (width - 1) then Some n else None))"

definition date_digits :: "string \<Rightarrow> nat \<Rightarrow> nat \<Rightarrow> int option" where
  "date_digits s a b =
     (case str_get s a b of
        None \<Rightarrow> None
      | Some t \<Rightarrow> if list_all is_ascii_digit t then parse_signed 64 t else None)"

text \<open>The fraction digits, cut or padded to six.\<close>

definition micros_of :: "string \<Rightarrow> string" where
  "micros_of ds = take 6 ds @ replicate (6 - length ds) (CHR ''0'')"

text \<open>The optional fraction and zone of a time: \<open>None\<close> rejects the text.\<close>

definition parse_fraction :: "string \<Rightarrow> (int \<times> string) option" where
  "parse_fraction rest =
     (case strip_prefix ''.'' rest of
        None \<Rightarrow> Some (0, rest)
      | Some frac \<Rightarrow>
          (let ds = takeWhile is_ascii_digit frac in
           if ds = [] then None
           else map_option (\<lambda>us. (us, drop (length ds) frac)) (parse_signed 64 (micros_of ds))))"

text \<open>The time of day after the separator; \<open>None\<close> outside is the panic of \<open>rest[8..]\<close>.\<close>

definition parse_time :: "string \<Rightarrow> (int \<times> int \<times> int \<times> int) option option" where
  "parse_time rest =
     (if length rest < 8 \<or> rest ! 2 \<noteq> CHR '':'' \<or> rest ! 5 \<noteq> CHR '':'' then Some None
      else case (Option.bind (str_get rest 0 2) (parse_signed 64),
                 Option.bind (str_get rest 3 5) (parse_signed 64),
                 Option.bind (str_get rest 6 8) (parse_signed 64)) of
          (Some h, Some m, Some sec) \<Rightarrow>
            (case str_slice rest 8 (length rest) of
               None \<Rightarrow> None
             | Some after \<Rightarrow>
                 Some (case parse_fraction after of
                         None \<Rightarrow> None
                       | Some (us, zone) \<Rightarrow>
                           if zone = [] \<or> zone = ''Z'' then Some (h, m, sec, us) else None))
        | _ \<Rightarrow> Some None)"

definition date_micros :: "int \<Rightarrow> int \<Rightarrow> int \<Rightarrow> int \<times> int \<times> int \<times> int \<Rightarrow> int option" where
  "date_micros y m d t =
     (case t of (hh, mm, ss, us) \<Rightarrow>
        if 0 \<le> hh \<and> hh < 24 \<and> 0 \<le> mm \<and> mm < 60 \<and> 0 \<le> ss \<and> ss < 60 then
          Some ((days_from_civil y m d * 86400 + (hh * 3600 + mm * 60 + ss)) * 1000000 + us)
        else None)"

text \<open>\<open>parse_iso8601_utc_micros\<close>; the outer \<open>None\<close> is a panic.\<close>

definition parse_iso8601_utc_micros :: "string \<Rightarrow> int option option" where
  "parse_iso8601_utc_micros s0 =
     (let s = trim s0 in
      if length s < 10 \<or> s ! 4 \<noteq> CHR ''-'' \<or> s ! 7 \<noteq> CHR ''-'' then Some None
      else case (date_digits s 0 4, date_digits s 5 7, date_digits s 8 10) of
          (Some y, Some m, Some d) \<Rightarrow>
            if \<not> (1 \<le> m \<and> m \<le> 12) \<or> \<not> (1 \<le> d \<and> d \<le> 31) then Some None
            else (case str_slice s 10 (length s) of
                    None \<Rightarrow> None
                  | Some rest \<Rightarrow>
                      (case rest of
                         [] \<Rightarrow> Some (date_micros y m d (0, 0, 0, 0))
                       | c # after \<Rightarrow>
                           if c = CHR ''T'' \<or> c = CHR '' '' then
                             (case parse_time after of
                                None \<Rightarrow> None
                              | Some None \<Rightarrow> Some None
                              | Some (Some t) \<Rightarrow> Some (date_micros y m d t))
                           else Some None))
        | _ \<Rightarrow> Some None)"

text \<open>The Gregorian calendar, by counting: leap years and month lengths.\<close>

definition leap :: "int \<Rightarrow> bool" where
  "leap y = (4 dvd y \<and> (100 dvd y \<longrightarrow> 400 dvd y))"

definition month_length :: "int \<Rightarrow> int \<Rightarrow> int" where
  "month_length y m =
     (if m = 2 then (if leap y then 29 else 28)
      else if m = 4 \<or> m = 6 \<or> m = 9 \<or> m = 11 then 30 else 31)"

lemma trunc_era: "trunc_div (if 0 \<le> y then y else y - 399) 400 = y div 400"
proof (cases "0 \<le> y")
  case False
  define e r where "e = y div 400" and "r = y mod 400"
  have y: "y = 400 * e + r" and r: "0 \<le> r" "r < 400" unfolding e_def r_def by simp_all
  have "(399 - y) div 400 = (399 - r + - e * 400) div 400" unfolding y by (simp add: algebra_simps)
  also have "\<dots> = - e + (399 - r) div 400" by (rule div_mult_self1) simp
  also have "(399 - r) div 400 = 0" using r by (intro div_pos_pos_trivial) auto
  finally have "(399 - y) div 400 = - e" by simp
  with False show ?thesis by (simp add: trunc_div_def e_def)
qed (simp add: trunc_div_def)

lemma era_days:
  fixes y :: int
  defines "e \<equiv> y div 400"
  shows "e * 146097 + ((y - e * 400) * 365 + (y - e * 400) div 4 - (y - e * 400) div 100)
    = y * 365 + y div 4 - y div 100 + y div 400"
proof -
  define r where "r = y mod 400"
  have y: "y = 400 * e + r" unfolding e_def r_def by simp
  have "(400 * e + r) div 4 = 100 * e + r div 4"
    using div_mult_self1 [of 4 r "100 * e"] by (simp add: algebra_simps)
  moreover have "(400 * e + r) div 100 = 4 * e + r div 100"
    using div_mult_self1 [of 100 r "4 * e"] by (simp add: algebra_simps)
  moreover have "(400 * e + r) div 400 = e" using y unfolding e_def by simp
  ultimately show ?thesis unfolding y by (simp add: algebra_simps)
qed

text \<open>The leap days up to a year.\<close>

definition leap_days :: "int \<Rightarrow> int" where
  "leap_days y = y div 4 - y div 100 + y div 400"

lemma days_from_civil_eq:
  "days_from_civil y0 m d =
     (let y = (if m \<le> 2 then y0 - 1 else y0)
      in y * 365 + leap_days y + (153 * ((m + 9) mod 12) + 2) div 5 + d - 1 - 719468)"
  using era_days [of "if m \<le> 2 then y0 - 1 else y0"]
  unfolding days_from_civil_def trunc_era Let_def leap_days_def by linarith

lemma leap_sum:
  fixes a b c :: int
  assumes "a - a' = (if P then 1 else 0)" and "b - b' = (if Q then 1 else 0)"
    and "c - c' = (if R then 1 else 0)" and "Q \<Longrightarrow> P" and "R \<Longrightarrow> Q"
  shows "a - b + c - (a' - b' + c') = (if P \<and> (Q \<longrightarrow> R) then 1 else 0)"
  using assms by (auto split: if_splits)

lemma leap_step:
  fixes y :: int
  shows "leap_days y = leap_days (y - 1) + (if leap y then 1 else 0)"
proof -
  have step: "y div k - (y - 1) div k = (if k dvd y then 1 else 0)" if "0 < k" for k :: int
  proof -
    have "(y - 1) div k = (if k dvd y then y div k - 1 else y div k)"
    proof (cases "k dvd y")
      case True
      then obtain q where q: "y = k * q" ..
      have "(k * q - 1) div k = q - 1"
        using that by (intro int_div_pos_eq [of _ _ _ "k - 1"]) (auto simp: algebra_simps)
      with q that True show ?thesis by simp
    next
      case False
      then have "0 < y mod k" using that by (simp add: dvd_eq_mod_eq_0 order_less_le)
      then have "(y - 1) div k = y div k"
        using that by (intro int_div_pos_eq [of _ _ _ "y mod k - 1"])
          (use pos_mod_bound [OF that, of y] in \<open>auto simp: algebra_simps\<close>)
      with False show ?thesis by simp
    qed
    then show ?thesis by simp
  qed
  have "4 dvd y" if "100 dvd y" by (rule dvd_trans [OF _ that]) simp
  moreover have "100 dvd y" if "400 dvd y" by (rule dvd_trans [OF _ that]) simp
  ultimately have "leap_days y - leap_days (y - 1) = (if leap y then 1 else 0)"
    unfolding leap_days_def leap_def by (intro leap_sum step) simp_all
  then show ?thesis by linarith
qed

text \<open>
  The day numbers follow the Gregorian calendar: 1970-01-01 is day 0, the first day of
  the next month comes one month length after the first of this one, and the days of a month
  are consecutive.
\<close>

theorem days_from_civil_calendar:
  "days_from_civil 1970 1 1 = 0
   \<and> days_from_civil y m (d + 1) = days_from_civil y m d + 1
   \<and> (m \<in> {1..11} \<longrightarrow> days_from_civil y (m + 1) 1 = days_from_civil y m 1 + month_length y m)
   \<and> days_from_civil (y + 1) 1 1 = days_from_civil y 12 1 + month_length y 12"
proof (intro conjI impI)
  show "days_from_civil 1970 1 1 = 0" by code_simp
  show "days_from_civil y m (d + 1) = days_from_civil y m d + 1"
    by (simp add: days_from_civil_eq Let_def)
  assume "m \<in> {1..11}"
  then have "1 \<le> m" "m \<le> 11" by auto
  then have "m = 1 \<or> m = 2 \<or> m = 3 \<or> m = 4 \<or> m = 5 \<or> m = 6 \<or> m = 7 \<or> m = 8 \<or> m = 9 \<or> m = 10 \<or> m = 11"
    by presburger
  then show "days_from_civil y (m + 1) 1 = days_from_civil y m 1 + month_length y m"
    using leap_step [of y]
    by (cases "leap y"; elim disjE) (simp_all add: days_from_civil_eq Let_def month_length_def)
next
  show "days_from_civil (y + 1) 1 1 = days_from_civil y 12 1 + month_length y 12"
    by (simp add: days_from_civil_eq Let_def month_length_def)
qed

lemma days_from_civil_calendar_witness:
  "days_from_civil 2024 3 1 = days_from_civil 2024 2 1 + 29"
proof -
  have "month_length 2024 2 = 29" by code_simp
  then show ?thesis using days_from_civil_calendar [of 2024 2] by simp
qed

section \<open>Bytes and trivia\<close>

definition is_js_operator_byte :: "char \<Rightarrow> bool" where
  "is_js_operator_byte b = (b \<in> set ''+-*/%<>=&|?!~^'')"

definition is_ident_start :: "char \<Rightarrow> bool" where
  "is_ident_start b = (is_ascii_alphabetic b \<or> b = CHR ''_'' \<or> b = CHR ''$'' \<or> is_non_ascii b)"

definition is_ident_continue :: "char \<Rightarrow> bool" where
  "is_ident_continue b = (is_ident_start b \<or> is_ascii_digit b)"

text \<open>The loop over a block comment from \<open>i\<close>, after its opening.\<close>

function trivia_block :: "string \<Rightarrow> nat \<Rightarrow> nat" where
  "trivia_block bs i =
     (if i < length bs \<and> \<not> (bs ! i = CHR ''*'' \<and> byte_at bs (i + 1) = Some (CHR ''/''))
      then trivia_block bs (i + 1) else i)"
  by pat_completeness auto
termination
  by (relation "measure (\<lambda>(bs, i). length bs - i)") auto

declare trivia_block.simps [simp del]

lemma trivia_block_ge: "i \<le> trivia_block bs i"
proof (induction bs i rule: trivia_block.induct)
  case (1 bs i)
  let ?c = "i < length bs \<and> \<not> (bs ! i = CHR ''*'' \<and> byte_at bs (i + 1) = Some (CHR ''/''))"
  show ?case
  proof (cases ?c)
    case True
    then have "trivia_block bs i = trivia_block bs (i + 1)" by (subst trivia_block.simps) (rule if_P)
    with "1.IH" [OF True] show ?thesis by simp
  next
    case False
    then have "trivia_block bs i = i" by (subst trivia_block.simps) (rule if_not_P)
    then show ?thesis by simp
  qed
qed

definition trivia_block_end :: "string \<Rightarrow> nat \<Rightarrow> nat" where
  "trivia_block_end bs i = min (trivia_block bs (i + 2) + 2) (length bs)"

definition slash_then :: "string \<Rightarrow> nat \<Rightarrow> char \<Rightarrow> bool" where
  "slash_then bs i c = (bs ! i = CHR ''/'' \<and> byte_at bs (i + 1) = Some c)"

lemma trivia_block_end_bounds:
  "i < length bs \<Longrightarrow> i < trivia_block_end bs i \<and> trivia_block_end bs i \<le> length bs"
  using trivia_block_ge [of "i + 2" bs] by (simp add: trivia_block_end_def)

lemma comment_line_bounds:
  "i + k \<le> length bs \<Longrightarrow> i + k \<le> scan_line_comment bs (i + k) \<and> scan_line_comment bs (i + k) \<le> length bs"
  by (simp add: scan_line_comment_ge scan_line_comment_le)

function skip_trivia_from :: "string \<Rightarrow> nat \<Rightarrow> nat" where
  "skip_trivia_from bs i =
     (if i < length bs then
        if is_ascii_whitespace (bs ! i) then skip_trivia_from bs (i + 1)
        else if slash_then bs i (CHR ''/'') then skip_trivia_from bs (scan_line_comment bs (i + 2))
        else if bs ! i = CHR ''#'' then skip_trivia_from bs (scan_line_comment bs (i + 1))
        else if slash_then bs i (CHR ''*'') then skip_trivia_from bs (trivia_block_end bs i)
        else i
      else i)"
  by pat_completeness auto
termination
proof (relation "measure (\<lambda>(bs, i). length bs - i)", goal_cases)
  case (3 bs i)
  then show ?case using scan_line_comment_ge [of "i + 2" bs] by auto
next
  case (4 bs i)
  then show ?case using scan_line_comment_ge [of "i + 1" bs] by auto
next
  case (5 bs i)
  then show ?case using trivia_block_end_bounds [of i bs] by auto
qed auto

declare skip_trivia_from.simps [simp del]

lemma skip_trivia_within: "i \<le> length bs \<Longrightarrow> within i (length bs) (skip_trivia_from bs i)"
proof (induction bs i rule: skip_trivia_from.induct)
  case (1 bs i)
  show ?case
  proof (cases "i < length bs")
    case lt: True
    have one: "within i (length bs) (i + 1)" using lt by (simp add: within_def)
    have two: "within i (length bs) (scan_line_comment bs (i + 2))" if "slash_then bs i (CHR ''/'')"
      using comment_line_bounds [of i 2 bs] that by (auto simp: slash_then_def byte_at_Some within_def)
    have hash: "within i (length bs) (scan_line_comment bs (i + 1))"
      using comment_line_bounds [of i 1 bs] lt by (auto simp: within_def)
    have blk: "within i (length bs) (trivia_block_end bs i)"
      using trivia_block_end_bounds [OF lt] by (simp add: within_def)
    have stay: "within i (length bs) i" using lt by (simp add: within_def)
    show ?thesis
      unfolding skip_trivia_from.simps [of bs i] if_P [OF lt]
    proof (intro within_if)
      assume c: "is_ascii_whitespace (bs ! i)"
      show "within i (length bs) (skip_trivia_from bs (i + 1))"
        using within_trans [OF one "1.IH"(1) [OF lt c]] .
    next
      assume c: "\<not> is_ascii_whitespace (bs ! i)" "slash_then bs i (CHR ''/'')"
      show "within i (length bs) (skip_trivia_from bs (scan_line_comment bs (i + 2)))"
        using within_trans [OF two [OF c(2)] "1.IH"(2) [OF lt c]] .
    next
      assume c: "\<not> is_ascii_whitespace (bs ! i)" "\<not> slash_then bs i (CHR ''/'')" "bs ! i = CHR ''#''"
      show "within i (length bs) (skip_trivia_from bs (scan_line_comment bs (i + 1)))"
        using within_trans [OF hash "1.IH"(3) [OF lt c]] .
    next
      assume c: "\<not> is_ascii_whitespace (bs ! i)" "\<not> slash_then bs i (CHR ''/'')" "bs ! i \<noteq> CHR ''#''"
        "slash_then bs i (CHR ''*'')"
      show "within i (length bs) (skip_trivia_from bs (trivia_block_end bs i))"
        using within_trans [OF blk "1.IH"(4) [OF lt c]] .
    qed (rule stay)
  next
    case False
    with "1.prems" show ?thesis by (auto simp: skip_trivia_from.simps within_def)
  qed
qed

definition remaining_preview :: "string \<Rightarrow> nat \<Rightarrow> string option" where
  "remaining_preview src i = str_slice src i (min (i + 20) (length src))"

definition err_here :: "string \<Rightarrow> nat \<Rightarrow> string \<Rightarrow> 'a presult" where
  "err_here src i expected =
     (case byte_at src i of
        None \<Rightarrow> Fails (UnexpectedEof i expected)
      | Some _ \<Rightarrow>
          (case remaining_preview src i of
             None \<Rightarrow> Panics
           | Some found \<Rightarrow> Fails (Unexpected i expected found)))"

definition expect_byte :: "string \<Rightarrow> nat \<Rightarrow> char \<Rightarrow> string \<Rightarrow> unit presult" where
  "expect_byte src i b expected =
     (let j = skip_trivia_from src i in
      if byte_at src j = Some b then Parsed () (j + 1) else err_here src j expected)"

definition slice_result :: "string \<Rightarrow> nat \<Rightarrow> nat \<Rightarrow> string presult" where
  "slice_result src a b = (case str_slice src a b of None \<Rightarrow> Panics | Some t \<Rightarrow> Parsed t b)"

definition parse_ident :: "string \<Rightarrow> nat \<Rightarrow> string presult" where
  "parse_ident src i =
     (let start = skip_trivia_from src i in
      if byte_is is_ident_start (byte_at src start) then
        slice_result src start (run_while is_ident_continue src (start + 1) (length src))
      else err_here src start ''an identifier'')"

section \<open>Strings\<close>

definition hex_value :: "string \<Rightarrow> nat" where
  "hex_value s = fold (\<lambda>c acc. acc * 16 + hex_nibble c) s 0"

text \<open>\<open>char::from_u32(code).unwrap_or('\\u{FFFD}')\<close> for a 16-bit code, in UTF-8.\<close>

definition encode_utf16_unit :: "nat \<Rightarrow> string" where
  "encode_utf16_unit n =
     (let code = (if 0xD800 \<le> n \<and> n < 0xE000 then 0xFFFD else n) in
      if code < 0x80 then [char_of code]
      else if code < 0x800 then [char_of (192 + code div 64), char_of (128 + code mod 64)]
      else [char_of (224 + code div 4096), char_of (128 + code div 64 mod 64),
            char_of (128 + code mod 64)])"

text \<open>The escape whose letter is at \<open>i\<close>: the text it adds and the next position.\<close>

definition mongo_escape :: "string \<Rightarrow> nat \<Rightarrow> string presult" where
  "mongo_escape src i =
     (case byte_at src i of
        None \<Rightarrow> Fails (UnexpectedEof i ''an escape sequence'')
      | Some b \<Rightarrow>
          if b = CHR ''n'' then Parsed [CHR 0x0A] (i + 1)
          else if b = CHR ''r'' then Parsed [CHR 0x0D] (i + 1)
          else if b = CHR ''t'' then Parsed [CHR 0x09] (i + 1)
          else if b = CHR ''b'' then Parsed [CHR 0x08] (i + 1)
          else if b = CHR ''f'' then Parsed [CHR 0x0C] (i + 1)
          else if b = CHR ''u'' then
            (case str_get src (i + 1) (i + 5) of
               Some h \<Rightarrow>
                 if list_all is_ascii_hexdigit h then Parsed (encode_utf16_unit (hex_value h)) (i + 5)
                 else Fails (InvalidLiteral ''string'' [backslash, CHR ''u''] (i + 1)
                              (''expected 4 hex digits after '' @ [backslash, CHR ''u'']))
             | None \<Rightarrow> Fails (InvalidLiteral ''string'' [backslash, CHR ''u''] (i + 1)
                              (''expected 4 hex digits after '' @ [backslash, CHR ''u''])))
          else Parsed (latin1 (bval b)) (i + 1))"

lemma str_slice_bound: "str_slice s a b = Some t \<Longrightarrow> a \<le> b \<and> b \<le> length s"
  by (simp add: str_slice_def split: if_splits)

lemma mongo_escape_next: "mongo_escape src i = Parsed t j \<Longrightarrow> i < j \<and> j \<le> length src"
  by (auto simp: mongo_escape_def byte_at_Some str_get_def dest!: str_slice_bound
      split: option.splits if_splits)

function mongo_string_from :: "string \<Rightarrow> nat \<Rightarrow> char \<Rightarrow> nat \<Rightarrow> string \<Rightarrow> string presult" where
  "mongo_string_from src start quote i acc =
     (if length src \<le> i then Fails (UnexpectedEof start ''a closing quote'')
      else if src ! i = quote then Parsed acc (i + 1)
      else if src ! i = backslash then
        (case mongo_escape src (i + 1) of
           Parsed t j \<Rightarrow> mongo_string_from src start quote j (acc @ t)
         | Fails e \<Rightarrow> Fails e
         | Panics \<Rightarrow> Panics
         | OutOfFuel \<Rightarrow> OutOfFuel)
      else case take_char src i of
          None \<Rightarrow> Panics
        | Some t \<Rightarrow> mongo_string_from src start quote (i + utf8_len (src ! i)) (acc @ t))"
  by pat_completeness auto
termination
  by (relation "measure (\<lambda>(src, s, q, i, acc). length src - i)")
     (auto dest!: mongo_escape_next intro!: diff_less_mono2)

declare mongo_string_from.simps [simp del]

definition parse_string :: "string \<Rightarrow> nat \<Rightarrow> string presult" where
  "parse_string src i =
     (let start = skip_trivia_from src i in
      case byte_at src start of
        Some b \<Rightarrow>
          if b = dquote \<or> b = quote_char then mongo_string_from src start b (start + 1) []
          else err_here src start ''a quoted string''
      | None \<Rightarrow> err_here src start ''a quoted string'')"

section \<open>Numbers\<close>

definition skip_sign :: "string \<Rightarrow> nat \<Rightarrow> nat" where
  "skip_sign src i =
     (if byte_at src i = Some (CHR ''-'') \<or> byte_at src i = Some (CHR ''+'') then i + 1 else i)"

definition skip_digits :: "string \<Rightarrow> nat \<Rightarrow> nat" where
  "skip_digits src i = run_while is_ascii_digit src i (length src)"

text \<open>The end of the digits from \<open>i\<close> with their fraction, and with their exponent; the flag
  tells whether there was one.\<close>

definition number_fraction :: "string \<Rightarrow> nat \<Rightarrow> nat \<times> bool" where
  "number_fraction src i =
     (if byte_at src i = Some (CHR ''.'') \<and> byte_is is_ascii_digit (byte_at src (i + 1))
      then (skip_digits src (i + 1), True) else (i, False))"

definition number_exponent :: "string \<Rightarrow> nat \<Rightarrow> nat \<times> bool" where
  "number_exponent src i =
     (if byte_at src i = Some (CHR ''e'') \<or> byte_at src i = Some (CHR ''E'') then
        let la = skip_sign src (i + 1)
        in if byte_is is_ascii_digit (byte_at src la) then (skip_digits src la, True) else (i, False)
      else (i, False))"

text \<open>Every text scanned here is a decimal literal, so \<open>f64::from_str\<close> accepts it.\<close>

definition parse_number :: "string \<Rightarrow> nat \<Rightarrow> db_value presult" where
  "parse_number src start =
     (let (i3, frac) = number_fraction src (skip_digits src (skip_sign src start));
          (i4, ex) = number_exponent src i3
      in pbind (slice_result src start i4)
           (\<lambda>text _.
              if frac \<or> ex then Parsed (VF64 text) i4
              else case parse_signed 64 text of
                  Some n \<Rightarrow> Parsed (VI64 n) i4
                | None \<Rightarrow> Parsed (VF64 text) i4))"

section \<open>Constructors\<close>

definition is_ctor_number_byte :: "char \<Rightarrow> bool" where
  "is_ctor_number_byte b =
     (is_ascii_digit b \<or> b = CHR ''.'' \<or> b = CHR ''e'' \<or> b = CHR ''E'' \<or> b = CHR ''+'' \<or> b = CHR ''-'')"

text \<open>The messages that name a quoted token.\<close>

definition expecting :: "string \<Rightarrow> string \<Rightarrow> string" where
  "expecting token what = [quote_char] @ token @ [quote_char] @ what"

definition open_ctor :: "string \<Rightarrow> nat \<Rightarrow> unit presult" where
  "open_ctor src i =
     expect_byte src i (CHR ''('') (expecting ''('' '' to start a constructor argument'')"

definition close_ctor :: "string \<Rightarrow> nat \<Rightarrow> unit presult" where
  "close_ctor src i =
     expect_byte src i (CHR '')'') (expecting '')'' '' to close a constructor call'')"

definition parse_ctor_string_arg :: "string \<Rightarrow> nat \<Rightarrow> (string \<times> nat) presult" where
  "parse_ctor_string_arg src i =
     pbind (open_ctor src i) (\<lambda>_ i1.
       let at = skip_trivia_from src i1 in
       pbind (parse_string src at) (\<lambda>t i2.
         pbind (close_ctor src (skip_trivia_from src i2)) (\<lambda>_ i3. Parsed (t, at) i3)))"

definition parse_object_id :: "string \<Rightarrow> nat \<Rightarrow> db_value presult" where
  "parse_object_id src i =
     pbind (parse_ctor_string_arg src i) (\<lambda>(hex, at) j.
       if length hex \<noteq> 24 \<or> \<not> list_all is_ascii_hexdigit hex then
         Fails (InvalidLiteral ''ObjectId'' hex at ''expected exactly 24 hex characters'')
       else Parsed (VStr (map ascii_lower hex)) j)"

definition parse_iso_date :: "string \<Rightarrow> nat \<Rightarrow> db_value presult" where
  "parse_iso_date src i =
     pbind (parse_ctor_string_arg src i) (\<lambda>(t, at) j.
       case parse_iso8601_utc_micros t of
         None \<Rightarrow> Panics
       | Some None \<Rightarrow>
           Fails (InvalidLiteral ''ISODate'' t at
             ''expected an ISO-8601 UTC timestamp, e.g. 2024-01-15T10:30:00Z'')
       | Some (Some micros) \<Rightarrow> Parsed (VTimestamp micros TzUtc) j)"

definition parse_ctor_inner :: "string \<Rightarrow> nat \<Rightarrow> (string \<times> nat) presult" where
  "parse_ctor_inner src at =
     (case byte_at src at of
        Some b \<Rightarrow>
          if b = dquote \<or> b = quote_char then pbind (parse_string src at) (\<lambda>t j. Parsed (t, at) j)
          else if is_ascii_digit b \<or> b = CHR ''-'' \<or> b = CHR ''+'' then
            let j = run_while is_ctor_number_byte src (at + 1) (length src)
            in pbind (slice_result src at j) (\<lambda>t _. Parsed (t, at) j)
          else err_here src at ''a number or a quoted string''
      | None \<Rightarrow> err_here src at ''a number or a quoted string'')"

definition ctor_number :: "string \<Rightarrow> nat \<Rightarrow> (string \<times> nat) presult" where
  "ctor_number src i =
     pbind (open_ctor src i) (\<lambda>_ i1.
       pbind (parse_ctor_inner src (skip_trivia_from src i1)) (\<lambda>t i2.
         pbind (close_ctor src (skip_trivia_from src i2)) (\<lambda>_ i3. Parsed t i3)))"

definition parse_number_long :: "string \<Rightarrow> nat \<Rightarrow> db_value presult" where
  "parse_number_long src i =
     pbind (ctor_number src i) (\<lambda>(t, at) j.
       case parse_signed 64 (trim t) of
         Some n \<Rightarrow> Parsed (VI64 n) j
       | None \<Rightarrow> Fails (InvalidLiteral ''NumberLong'' t at ''expected an integer''))"

definition parse_number_int :: "string \<Rightarrow> nat \<Rightarrow> db_value presult" where
  "parse_number_int src i =
     pbind (ctor_number src i) (\<lambda>(t, at) j.
       case parse_signed 32 (trim t) of
         Some n \<Rightarrow> Parsed (VI64 n) j
       | None \<Rightarrow> Fails (InvalidLiteral ''NumberInt'' t at ''expected a 32-bit integer''))"

definition looks_like_number :: "string \<Rightarrow> bool" where
  "looks_like_number s =
     (let d = (case s of c # r \<Rightarrow> if c = CHR ''+'' \<or> c = CHR ''-'' then r else s | [] \<Rightarrow> [])
      in d \<noteq> [] \<and> list_all is_ctor_number_byte d)"

definition parse_number_decimal :: "string \<Rightarrow> nat \<Rightarrow> db_value presult" where
  "parse_number_decimal src i =
     pbind (ctor_number src i) (\<lambda>(t, at) j.
       if trim t = [] \<or> \<not> looks_like_number (trim t) then
         Fails (InvalidLiteral ''NumberDecimal'' t at ''expected a decimal number'')
       else Parsed (VDecimal (trim t)) j)"

definition parse_ident_value :: "string \<Rightarrow> nat \<Rightarrow> db_value presult" where
  "parse_ident_value src i =
     pbind (parse_ident src i) (\<lambda>ident j.
       if ident = ''true'' then Parsed (VBool True) j
       else if ident = ''false'' then Parsed (VBool False) j
       else if ident = ''null'' then Parsed VNull j
       else if ident = ''ObjectId'' then parse_object_id src j
       else if ident = ''ISODate'' then parse_iso_date src j
       else if ident = ''NumberLong'' then parse_number_long src j
       else if ident = ''NumberDecimal'' then parse_number_decimal src j
       else if ident = ''NumberInt'' then parse_number_int src j
       else Fails UnsupportedJs)"

definition parse_object_key :: "string \<Rightarrow> nat \<Rightarrow> string presult" where
  "parse_object_key src i =
     (case byte_at src i of
        Some b \<Rightarrow>
          if b = dquote \<or> b = quote_char then parse_string src i
          else if is_ident_start b \<or> is_ascii_digit b then
            slice_result src i
              (run_while (\<lambda>c. is_ident_continue c \<or> c = CHR ''-'') src i (length src))
          else err_here src i ''an object key''
      | None \<Rightarrow> err_here src i ''an object key'')"

section \<open>Values\<close>

text \<open>
  \<open>parse_value\<close>, the loop of \<open>parse_value_list\<close> (after its test for an empty list) and the
  loop of \<open>parse_object\<close> (after its test for an empty object).  Each returns with the position
  before the closing byte.
\<close>

fun parse_value :: "nat \<Rightarrow> string \<Rightarrow> nat \<Rightarrow> db_value presult"
  and parse_items :: "nat \<Rightarrow> string \<Rightarrow> char \<Rightarrow> nat \<Rightarrow> db_value list presult"
  and parse_fields :: "nat \<Rightarrow> string \<Rightarrow> nat \<Rightarrow> (string \<times> db_value) list presult"
where
  "parse_value 0 src i0 = OutOfFuel"
| "parse_value (Suc n) src i0 =
     (let i = skip_trivia_from src i0 in
      case byte_at src i of
        None \<Rightarrow> Fails (UnexpectedEof i ''a value'')
      | Some b \<Rightarrow>
          if b = CHR ''{'' then
            let j = skip_trivia_from src (i + 1) in
            if byte_at src j = Some (CHR ''}'') then Parsed (VDocument []) (j + 1)
            else pbind (parse_fields n src j) (\<lambda>fs k.
                   pbind (expect_byte src k (CHR ''}'') (expecting ''}'' '' to close an object''))
                     (\<lambda>_ k'. Parsed (VDocument fs) k'))
          else if b = CHR ''['' then
            let j = skip_trivia_from src (i + 1) in
            pbind (if byte_at src j = Some (CHR '']'') then Parsed [] j
                   else parse_items n src (CHR '']'') j) (\<lambda>vs k.
              pbind (expect_byte src k (CHR '']'') (expecting '']'' '' to close an array''))
                (\<lambda>_ k'. Parsed (VArray vs) k'))
          else if b = dquote \<or> b = quote_char then
            pbind (parse_string src i) (\<lambda>t j. Parsed (VStr t) j)
          else if is_ascii_digit b then parse_number src i
          else if (b = CHR ''-'' \<or> b = CHR ''+'') \<and> byte_is is_ascii_digit (byte_at src (i + 1)) then
            parse_number src i
          else if is_ident_start b then parse_ident_value src i
          else Fails UnsupportedJs)"
| "parse_items 0 src e i = OutOfFuel"
| "parse_items (Suc n) src e i =
     pbind (parse_value n src i) (\<lambda>v i1.
       let i2 = skip_trivia_from src i1 in
       case byte_at src i2 of
         Some b \<Rightarrow>
           if b = CHR '','' then
             let i3 = skip_trivia_from src (i2 + 1) in
             if byte_at src i3 = Some e then Parsed [v] i3
             else pbind (parse_items n src e i3) (\<lambda>vs j. Parsed (v # vs) j)
           else if b = e then Parsed [v] i2
           else if is_js_operator_byte b then Fails UnsupportedJs
           else err_here src i2 ([quote_char, CHR '','', quote_char] @ '' or the end of the argument list'')
       | None \<Rightarrow> err_here src i2 ([quote_char, CHR '','', quote_char] @ '' or the end of the argument list''))"
| "parse_fields 0 src i = OutOfFuel"
| "parse_fields (Suc n) src i =
     pbind (parse_object_key src (skip_trivia_from src i)) (\<lambda>key i1.
       pbind (expect_byte src (skip_trivia_from src i1) (CHR '':'')
                (expecting '':'' '' after an object key'')) (\<lambda>_ i2.
         pbind (parse_value n src i2) (\<lambda>v i3.
           let i4 = skip_trivia_from src i3 in
           case byte_at src i4 of
             Some b \<Rightarrow>
               if b = CHR '','' then
                 let i5 = skip_trivia_from src (i4 + 1) in
                 if byte_at src i5 = Some (CHR ''}'') then Parsed [(key, v)] i5
                 else pbind (parse_fields n src i5) (\<lambda>fs j. Parsed ((key, v) # fs) j)
               else if b = CHR ''}'' then Parsed [(key, v)] i4
               else if is_js_operator_byte b then Fails UnsupportedJs
               else err_here src i4 (expecting '','' '' or '' @ expecting ''}'' [])
           | None \<Rightarrow> err_here src i4 (expecting '','' '' or '' @ expecting ''}'' []))))"

section \<open>Statements\<close>

definition parse_value_list :: "nat \<Rightarrow> string \<Rightarrow> char \<Rightarrow> nat \<Rightarrow> db_value list presult" where
  "parse_value_list n src e i =
     (let j = skip_trivia_from src i in
      if byte_at src j = Some e then Parsed [] j else parse_items n src e j)"

definition parse_method_call :: "nat \<Rightarrow> string \<Rightarrow> nat \<Rightarrow> (string \<times> db_value list) presult" where
  "parse_method_call n src i =
     pbind (parse_ident src i) (\<lambda>name i1.
       pbind (expect_byte src i1 (CHR ''('') (expecting ''('' '' to start an argument list'')) (\<lambda>_ i2.
         pbind (parse_value_list n src (CHR '')'') i2) (\<lambda>args i3.
           pbind (expect_byte src i3 (CHR '')'') (expecting '')'' '' to close an argument list''))
             (\<lambda>_ i4. Parsed (name, args) i4))))"

definition parse_collection_ref :: "string \<Rightarrow> nat \<Rightarrow> string presult" where
  "parse_collection_ref src i =
     pbind (parse_ident src i) (\<lambda>ident i1.
       if ident = ''getCollection'' then
         pbind (expect_byte src i1 (CHR ''('') (expecting ''('' '' after getCollection'')) (\<lambda>_ i2.
           pbind (parse_string src (skip_trivia_from src i2)) (\<lambda>name i3.
             pbind (expect_byte src i3 (CHR '')'') (expecting '')'' '' to close getCollection(...)''))
               (\<lambda>_ i4. Parsed name i4)))
       else Parsed ident i1)"

text \<open>The loop over the chained calls; the first argument is its fuel, the second that of the
  values.\<close>

fun parse_modifiers :: "nat \<Rightarrow> nat \<Rightarrow> string \<Rightarrow> nat \<Rightarrow> (string \<times> db_value list) list presult" where
  "parse_modifiers 0 n src i = OutOfFuel"
| "parse_modifiers (Suc k) n src i =
     (let j = skip_trivia_from src i in
      if byte_at src j = Some (CHR ''.'') then
        pbind (parse_method_call n src (j + 1)) (\<lambda>m i1.
          pbind (parse_modifiers k n src i1) (\<lambda>ms i2. Parsed (m # ms) i2))
      else Parsed [] j)"

definition parse_chain :: "nat \<Rightarrow> string \<Rightarrow> nat \<Rightarrow> mongo_statement presult" where
  "parse_chain n src i =
     pbind (parse_ident src i) (\<lambda>head i1.
       if head \<noteq> ''db'' then Fails UnsupportedJs
       else pbind (expect_byte src i1 (CHR ''.'') (expecting ''.'' '' after db'')) (\<lambda>_ i2.
         pbind (parse_collection_ref src i2) (\<lambda>coll i3.
           pbind (expect_byte src i3 (CHR ''.'') (expecting ''.'' '' after collection name'')) (\<lambda>_ i4.
             pbind (parse_method_call n src i4) (\<lambda>(name, args) i5.
               pbind (parse_modifiers n n src i5) (\<lambda>mods i6.
                 Parsed \<lparr>ms_collection = coll, ms_method = name, ms_args = args, ms_modifiers = mods\<rparr>
                   i6))))))"

definition mongo_fuel :: "string \<Rightarrow> nat" where
  "mongo_fuel src = 2 * length src + 4"

definition mongo_parse :: "string \<Rightarrow> parsed_mongo presult" where
  "mongo_parse src =
     (let start = skip_trivia_from src 0; n = mongo_fuel src in
      pbind (if byte_at src start = Some (CHR ''{'')
             then pbind (parse_value n src start) (\<lambda>v i. Parsed (RawCommand v) i)
             else pbind (parse_chain n src start) (\<lambda>c i. Parsed (Chain c) i))
        (\<lambda>result i1.
          let i2 = skip_trivia_from src i1 in
          if i2 \<noteq> length src then
            (case remaining_preview src i2 of
               None \<Rightarrow> Panics
             | Some found \<Rightarrow> Fails (TrailingInput i2 found))
          else Parsed result i2))"

section \<open>The parser moves forward\<close>

text \<open>A result that parsed something between \<open>i\<close> and the end of the text, at least \<open>k\<close> bytes.\<close>

definition moves :: "string \<Rightarrow> nat \<Rightarrow> nat \<Rightarrow> 'a presult \<Rightarrow> bool" where
  "moves src k i r = (\<forall>a j. r = Parsed a j \<longrightarrow> i + k \<le> j \<and> j \<le> length src)"

definition fueled :: "'a presult \<Rightarrow> bool" where
  "fueled r = (r \<noteq> OutOfFuel)"

lemma moves_Parsed [simp]: "moves src k i (Parsed a j) = (i + k \<le> j \<and> j \<le> length src)"
  by (simp add: moves_def)

lemma moves_fails [simp]: "moves src k i (Fails e)" "moves src k i Panics" "moves src k i OutOfFuel"
  by (simp_all add: moves_def)

lemma fueled_simps [simp]: "fueled (Parsed a j)" "fueled (Fails e)" "fueled Panics" "\<not> fueled OutOfFuel"
  by (simp_all add: fueled_def)

lemma moves_bind:
  assumes "moves src k i r" and "\<And>a j. r = Parsed a j \<Longrightarrow> i + k \<le> j \<Longrightarrow> j \<le> length src \<Longrightarrow> moves src k' i (f a j)"
  shows "moves src k' i (pbind r f)"
  using assms by (cases r) auto

lemma moves_weaken: "moves src k i r \<Longrightarrow> i' + k' \<le> i + k \<Longrightarrow> moves src k' i' r"
  by (fastforce simp: moves_def)

text \<open>One step of a chain: it starts at or after \<open>i\<close> and consumes at least a byte.\<close>

lemma moves_step:
  assumes "moves src 1 m r" and "i \<le> m" and "k \<le> 1"
    and "\<And>a j. r = Parsed a j \<Longrightarrow> m < j \<Longrightarrow> j \<le> length src \<Longrightarrow> moves src 0 j (f a j)"
  shows "moves src k i (pbind r f)"
proof (cases r)
  case (Parsed a j)
  with assms(1) have "m < j" "j \<le> length src" by auto
  with assms(4) [OF Parsed] have "moves src 0 j (f a j)" by simp
  moreover have "i + k \<le> j + 0" using \<open>m < j\<close> assms(2,3) by simp
  ultimately show ?thesis using Parsed by (simp add: moves_weaken)
qed simp_all

lemma moves_if: "(c \<Longrightarrow> moves src k i x) \<Longrightarrow> (\<not> c \<Longrightarrow> moves src k i y) \<Longrightarrow> moves src k i (if c then x else y)"
  by simp

lemma fueled_if: "fueled x \<Longrightarrow> fueled y \<Longrightarrow> fueled (if c then x else y)"
  by simp

lemma fueled_bind:
  assumes "fueled r" and "\<And>a j. r = Parsed a j \<Longrightarrow> fueled (f a j)"
  shows "fueled (pbind r f)"
  using assms by (cases r) auto

lemma err_here_simps [simp]: "moves src k i (err_here src j m)" "fueled (err_here src j m)"
  by (auto simp: err_here_def split: option.splits)

lemma skip_trivia_bounds:
  "i \<le> length src \<Longrightarrow> i \<le> skip_trivia_from src i \<and> skip_trivia_from src i \<le> length src"
  using skip_trivia_within [of i src] by (simp add: within_def)

lemma expect_byte_moves: "i \<le> length src \<Longrightarrow> moves src 1 i (expect_byte src i b m)"
  using skip_trivia_bounds [of i src] by (auto simp: expect_byte_def Let_def byte_at_Some)

lemma expect_byte_fueled [simp]: "fueled (expect_byte src i b m)"
  by (simp add: expect_byte_def Let_def)

lemma slice_result_fueled [simp]: "fueled (slice_result src a b)"
  by (simp add: slice_result_def split: option.splits)

lemma slice_result_moves: "a + k \<le> b \<Longrightarrow> i \<le> a \<Longrightarrow> moves src k i (slice_result src a b)"
  by (auto simp: slice_result_def dest: str_slice_bound split: option.splits)

lemma parse_ident_moves: "i \<le> length src \<Longrightarrow> moves src 1 i (parse_ident src i)"
  using skip_trivia_bounds [of i src]
  by (auto simp: parse_ident_def Let_def byte_is_def byte_at_Some intro!: slice_result_moves
      split: option.splits)

lemma parse_ident_fueled [simp]: "fueled (parse_ident src i)"
  by (simp add: parse_ident_def Let_def)

lemma mongo_string_moves:
  "fueled (mongo_string_from src start q i acc) \<and> moves src 1 i (mongo_string_from src start q i acc)"
proof (induction src start q i acc rule: mongo_string_from.induct)
  case (1 src start q i acc)
  note unfold = mongo_string_from.simps [of src start q i acc]
  consider (eof) "length src \<le> i" | (close) "i < length src" "src ! i = q"
    | (escape) "i < length src" "src ! i \<noteq> q" "src ! i = backslash"
    | (char) "i < length src" "src ! i \<noteq> q" "src ! i \<noteq> backslash" by linarith
  then show ?case
  proof cases
    case eof
    then show ?thesis by (simp add: unfold)
  next
    case close
    then show ?thesis by (simp add: unfold)
  next
    case escape
    show ?thesis
    proof (cases "mongo_escape src (i + 1)")
      case (Parsed t j)
      with "1.IH"(1) [OF _ escape(2,3) Parsed] escape mongo_escape_next [OF Parsed]
      show ?thesis by (auto simp: unfold moves_def)
    next
      case OutOfFuel
      then show ?thesis by (auto simp: mongo_escape_def split: option.splits if_splits)
    qed (use escape in \<open>simp_all add: unfold\<close>)
  next
    case char
    show ?thesis
    proof (cases "take_char src i")
      case None
      with char show ?thesis by (simp add: unfold)
    next
      case (Some t)
      with "1.IH"(2) [OF _ char(2,3) Some] char show ?thesis
        by (auto simp: unfold moves_def Suc_le_eq intro: less_le_trans)
    qed
  qed
qed

lemma parse_string_moves:
  assumes "i \<le> length src"
  shows "moves src 1 i (parse_string src i)"
proof -
  let ?s = "skip_trivia_from src i"
  have "moves src 1 i (mongo_string_from src ?s b (?s + 1) [])" for b
  proof (rule moves_weaken)
    show "moves src 1 (?s + 1) (mongo_string_from src ?s b (?s + 1) [])"
      using mongo_string_moves by blast
  qed (use skip_trivia_bounds [OF assms] in simp)
  then show ?thesis by (auto simp: parse_string_def Let_def split: option.splits)
qed

lemma parse_string_fueled [simp]: "fueled (parse_string src i)"
  using mongo_string_moves by (simp add: parse_string_def Let_def split: option.splits)

lemma skip_digits_ge: "i \<le> length src \<Longrightarrow> i \<le> skip_digits src i \<and> skip_digits src i \<le> length src"
  using run_while_bounds [of i is_ascii_digit src "length src"] by (simp add: skip_digits_def)

lemma skip_sign_bounds: "i \<le> length src \<Longrightarrow> i \<le> skip_sign src i \<and> skip_sign src i \<le> length src"
  by (auto simp: skip_sign_def byte_at_Some)

lemma number_fraction_bounds:
  "i \<le> length src \<Longrightarrow> i \<le> fst (number_fraction src i) \<and> fst (number_fraction src i) \<le> length src"
  using skip_digits_ge [of "i + 1" src] by (auto simp: number_fraction_def byte_at_Some)

lemma number_exponent_bounds:
  assumes "i \<le> length src"
  shows "i \<le> fst (number_exponent src i) \<and> fst (number_exponent src i) \<le> length src"
proof (cases "i < length src")
  case True
  then have "i + 1 \<le> skip_sign src (i + 1) \<and> skip_sign src (i + 1) \<le> length src"
    using skip_sign_bounds [of "i + 1" src] by simp
  then show ?thesis
    using skip_digits_ge [of "skip_sign src (i + 1)" src] assms
    by (auto simp: number_exponent_def Let_def)
next
  case False
  with assms show ?thesis by (auto simp: number_exponent_def byte_at_Some)
qed

text \<open>A number starts with a digit, or with a sign and a digit.\<close>

lemma number_start:
  assumes "i < length src"
    and "is_ascii_digit (src ! i) \<or> ((src ! i = CHR ''-'' \<or> src ! i = CHR ''+'')
           \<and> byte_is is_ascii_digit (byte_at src (i + 1)))"
  shows "i < skip_digits src (skip_sign src i) \<and> skip_digits src (skip_sign src i) \<le> length src"
proof (cases "src ! i = CHR ''-'' \<or> src ! i = CHR ''+''")
  case True
  then have "skip_sign src i = i + 1" using assms(1) by (simp add: skip_sign_def byte_at_def)
  with skip_digits_ge [of "i + 1" src] assms(1) show ?thesis by simp
next
  case False
  then have "skip_sign src i = i" "is_ascii_digit (src ! i)"
    using assms by (auto simp: skip_sign_def byte_at_def)
  with run_while_step [OF assms(1), of is_ascii_digit src] assms(1) show ?thesis
    by (simp add: skip_digits_def run_while.simps [of is_ascii_digit src i])
qed

lemma parse_number_moves:
  assumes "i < length src"
    and "is_ascii_digit (src ! i) \<or> ((src ! i = CHR ''-'' \<or> src ! i = CHR ''+'')
           \<and> byte_is is_ascii_digit (byte_at src (i + 1)))"
  shows "moves src 1 i (parse_number src i)"
proof -
  let ?i2 = "skip_digits src (skip_sign src i)"
  let ?i3 = "fst (number_fraction src ?i2)"
  let ?i4 = "fst (number_exponent src ?i3)"
  have "i < ?i4 \<and> ?i4 \<le> length src"
    using number_start [OF assms] number_fraction_bounds [of ?i2 src] number_exponent_bounds [of ?i3 src]
    by linarith
  then show ?thesis
    by (auto simp: parse_number_def Let_def case_prod_unfold intro!: moves_bind [where k = 1]
        slice_result_moves split: option.splits)
qed

lemma parse_number_fueled [simp]: "fueled (parse_number src i)"
  by (auto simp: parse_number_def Let_def case_prod_unfold intro!: fueled_bind split: option.splits)

lemma ctor_fueled [simp]:
  "fueled (parse_ctor_string_arg src i)" "fueled (ctor_number src i)"
  by (auto simp: parse_ctor_string_arg_def open_ctor_def close_ctor_def ctor_number_def
      parse_ctor_inner_def Let_def intro!: fueled_bind split: option.splits)

lemma parse_ctor_string_arg_moves:
  assumes "i \<le> length src"
  shows "moves src 1 i (parse_ctor_string_arg src i)"
  unfolding parse_ctor_string_arg_def open_ctor_def close_ctor_def Let_def
proof (rule moves_step [OF expect_byte_moves [OF assms]], goal_cases)
  case (3 u i1)
  note s1 = skip_trivia_bounds [OF 3(3)]
  show ?case
  proof (rule moves_step [OF parse_string_moves [OF conjunct2 [OF s1]]], goal_cases)
    case (3 t i2)
    note s2 = skip_trivia_bounds [OF 3(3)]
    show ?case by (rule moves_step [OF expect_byte_moves [OF conjunct2 [OF s2]]]) (use s2 in auto)
  qed (use s1 in auto)
qed auto

lemma parse_ctor_inner_moves:
  assumes "i \<le> length src"
  shows "moves src 1 i (parse_ctor_inner src i)"
proof (cases "byte_at src i")
  case (Some b)
  then have lt: "i < length src" by (simp add: byte_at_Some)
  note st = run_while_step [OF lt, of is_ctor_number_byte src]
  have "moves src 1 i (pbind (slice_result src i (run_while is_ctor_number_byte src (i + 1) (length src)))
      (\<lambda>t _. Parsed (t, i) (run_while is_ctor_number_byte src (i + 1) (length src))))"
    using st by (intro moves_bind [where k = 1] slice_result_moves) auto
  moreover have "moves src 1 i (pbind (parse_string src i) (\<lambda>t j. Parsed (t, i) j))"
    by (rule moves_bind [OF parse_string_moves [OF assms]]) simp
  ultimately show ?thesis using Some by (simp add: parse_ctor_inner_def Let_def)
qed (simp add: parse_ctor_inner_def)

lemma ctor_number_moves:
  assumes "i \<le> length src"
  shows "moves src 1 i (ctor_number src i)"
  unfolding ctor_number_def open_ctor_def close_ctor_def
proof (rule moves_step [OF expect_byte_moves [OF assms]], goal_cases)
  case (3 u i1)
  note s1 = skip_trivia_bounds [OF 3(3)]
  show ?case
  proof (rule moves_step [OF parse_ctor_inner_moves [OF conjunct2 [OF s1]]], goal_cases)
    case (3 t i2)
    note s2 = skip_trivia_bounds [OF 3(3)]
    show ?case by (rule moves_step [OF expect_byte_moves [OF conjunct2 [OF s2]]]) (use s2 in auto)
  qed (use s1 in auto)
qed auto

lemma constructor_moves:
  assumes "j \<le> length src"
  shows "moves src 0 j (parse_object_id src j)" "moves src 0 j (parse_iso_date src j)"
    "moves src 0 j (parse_number_long src j)" "moves src 0 j (parse_number_int src j)"
    "moves src 0 j (parse_number_decimal src j)"
  unfolding parse_object_id_def parse_iso_date_def parse_number_long_def parse_number_int_def
    parse_number_decimal_def
  by (rule moves_step [OF parse_ctor_string_arg_moves [OF assms]]
        moves_step [OF ctor_number_moves [OF assms]];
      simp split: option.splits prod.splits)+

lemma constructor_fueled [simp]:
  "fueled (parse_object_id src j)" "fueled (parse_iso_date src j)" "fueled (parse_number_long src j)"
  "fueled (parse_number_int src j)" "fueled (parse_number_decimal src j)"
  unfolding parse_object_id_def parse_iso_date_def parse_number_long_def parse_number_int_def
    parse_number_decimal_def
  by (rule fueled_bind; simp split: option.splits prod.splits)+

lemma parse_ident_value_moves:
  assumes "i \<le> length src"
  shows "moves src 1 i (parse_ident_value src i)"
  unfolding parse_ident_value_def
proof (rule moves_step [OF parse_ident_moves [OF assms]], goal_cases)
  case (3 ident j)
  have here: "moves src 0 j (Parsed v j)" for v :: "db_value" using 3(3) by simp
  show ?case by (intro moves_if here constructor_moves 3(3) moves_fails)
qed auto

lemma parse_ident_value_fueled [simp]: "fueled (parse_ident_value src i)"
  unfolding parse_ident_value_def
  by (intro fueled_bind parse_ident_fueled fueled_if fueled_simps constructor_fueled)

lemma parse_object_key_moves:
  assumes "i \<le> length src"
  shows "moves src 1 i (parse_object_key src i)"
proof (cases "byte_at src i")
  case (Some b)
  then have lt: "i < length src" and b: "src ! i = b" by (auto simp: byte_at_Some)
  let ?p = "\<lambda>c. is_ident_continue c \<or> c = CHR ''-''"
  have "moves src 1 i (slice_result src i (run_while ?p src i (length src)))"
    if "is_ident_start b \<or> is_ascii_digit b"
  proof -
    have "?p (src ! i)" using that b by (auto simp: is_ident_continue_def)
    then have "run_while ?p src i (length src) = run_while ?p src (i + 1) (length src)"
      using lt by (simp add: run_while.simps [of ?p src i])
    then show ?thesis using run_while_step [OF lt, of ?p src] by (intro slice_result_moves) auto
  qed
  then show ?thesis using Some parse_string_moves [OF assms] by (simp add: parse_object_key_def)
qed (simp add: parse_object_key_def)

lemma parse_object_key_fueled [simp]: "fueled (parse_object_key src i)"
  by (simp add: parse_object_key_def split: option.splits)

lemma value_moves:
  "(\<forall>i \<le> length src. moves src 1 i (parse_value n src i))
   \<and> (\<forall>i \<le> length src. moves src 1 i (parse_items n src e i))
   \<and> (\<forall>i \<le> length src. moves src 1 i (parse_fields n src i))"
proof (induction n arbitrary: e)
  case 0
  then show ?case by simp
next
  case (Suc n)
  have V: "moves src 1 i (parse_value n src i)" if "i \<le> length src" for i using Suc.IH that by blast
  have I: "moves src 1 i (parse_items n src e i)" if "i \<le> length src" for i e using Suc.IH that by blast
  have F: "moves src 1 i (parse_fields n src i)" if "i \<le> length src" for i using Suc.IH that by blast
  have skip: "skip_trivia_from src i \<le> length src" "i \<le> skip_trivia_from src i"
    if "i \<le> length src" for i using skip_trivia_bounds [OF that] by auto
  have value_ok: "moves src 1 i0 (parse_value (Suc n) src i0)" if i0: "i0 \<le> length src" for i0
  proof -
    let ?i = "skip_trivia_from src i0"
    note i = skip [OF i0]
    show ?thesis
    proof (cases "byte_at src ?i")
      case (Some b)
      then have lt: "?i < length src" and b: "src ! ?i = b" by (auto simp: byte_at_Some)
      let ?j = "skip_trivia_from src (?i + 1)"
      have j: "?i + 1 \<le> ?j" "?j \<le> length src" using skip [of "?i + 1"] lt by auto
      have obj: "moves src 1 i0 (pbind (parse_fields n src ?j) (\<lambda>fs k.
          pbind (expect_byte src k (CHR ''}'') m) (\<lambda>_ k'. Parsed (VDocument fs) k')))" for m
        by (rule moves_step [OF F [OF j(2)]])
           (use i j in \<open>auto intro!: moves_step [OF expect_byte_moves]\<close>)
      have arr: "moves src 1 i0 (pbind (if byte_at src ?j = Some (CHR '']'') then Parsed [] ?j
            else parse_items n src (CHR '']'') ?j) (\<lambda>vs k.
          pbind (expect_byte src k (CHR '']'') m) (\<lambda>_ k'. Parsed (VArray vs) k')))" for m
      proof (cases "byte_at src ?j = Some (CHR '']'')")
        case True
        then show ?thesis
          using i j by (auto intro!: moves_step [OF expect_byte_moves])
      next
        case False
        then show ?thesis
          by (simp only: if_False) (rule moves_step [OF I [OF j(2)]],
            use i j in \<open>auto intro!: moves_step [OF expect_byte_moves]\<close>)
      qed
      have str: "moves src 1 i0 (pbind (parse_string src ?i) (\<lambda>t j. Parsed (VStr t) j))"
        by (rule moves_step [OF parse_string_moves]) (use i in auto)
      have num: "moves src 1 i0 (parse_number src ?i)"
        if "is_ascii_digit b \<or> ((b = CHR ''-'' \<or> b = CHR ''+'') \<and> byte_is is_ascii_digit (byte_at src (?i + 1)))"
        by (rule moves_weaken [OF parse_number_moves [OF lt]]) (use that b i in auto)
      have idv: "moves src 1 i0 (parse_ident_value src ?i)"
        by (rule moves_weaken [OF parse_ident_value_moves]) (use i in auto)
      have empty: "moves src 1 i0 (Parsed (VDocument []) (?j + 1))" if "byte_at src ?j = Some (CHR ''}'')"
        using that i j by (simp add: byte_at_Some)
      show ?thesis
        unfolding parse_value.simps Let_def Some option.case
        by (intro moves_if moves_fails obj arr str num idv empty; blast)
    qed (simp add: Let_def)
  qed
  have items_ok: "moves src 1 i (parse_items (Suc n) src e i)" if i: "i \<le> length src" for i e
    unfolding parse_items.simps Let_def
  proof (rule moves_step [OF V [OF i]], goal_cases)
    case (3 v i1)
    let ?i2 = "skip_trivia_from src i1"
    note i2 = skip [OF 3(3)]
    show ?case
    proof (cases "byte_at src ?i2")
      case (Some b)
      then have lt: "?i2 < length src" by (simp add: byte_at_Some)
      let ?i3 = "skip_trivia_from src (?i2 + 1)"
      have i3: "?i2 + 1 \<le> ?i3" "?i3 \<le> length src" using skip [of "?i2 + 1"] lt by auto
      have more_items: "moves src 0 i1 (pbind (parse_items n src e ?i3) (\<lambda>vs j. Parsed (v # vs) j))"
        by (rule moves_step [OF I [OF i3(2)]]) (use i2 i3 in auto)
      have last: "moves src 0 i1 (Parsed [v] ?i3)" "moves src 0 i1 (Parsed [v] ?i2)"
        using i2 i3 by auto
      show ?thesis
        unfolding Some option.case
        by (intro moves_if moves_fails err_here_simps more_items last)
    qed simp
  qed (use i in auto)
  have fields_ok: "moves src 1 i (parse_fields (Suc n) src i)" if i: "i \<le> length src" for i
    unfolding parse_fields.simps Let_def
  proof (rule moves_step [OF parse_object_key_moves [OF skip(1) [OF i]]], goal_cases)
    case (3 key i1)
    show ?case
    proof (rule moves_step [OF expect_byte_moves [OF skip(1) [OF 3(3)]]], goal_cases)
      case (3 u i2)
      show ?case
      proof (rule moves_step [OF V [OF 3(3)]], goal_cases)
        case (3 v i3)
        let ?i4 = "skip_trivia_from src i3"
        note i4 = skip [OF 3(3)]
        show ?case
        proof (cases "byte_at src ?i4")
          case (Some b)
          then have lt: "?i4 < length src" by (simp add: byte_at_Some)
          let ?i5 = "skip_trivia_from src (?i4 + 1)"
          have i5: "?i4 + 1 \<le> ?i5" "?i5 \<le> length src" using skip [of "?i4 + 1"] lt by auto
          have more_fields: "moves src 0 i3 (pbind (parse_fields n src ?i5) (\<lambda>fs j. Parsed ((key, v) # fs) j))"
            by (rule moves_step [OF F [OF i5(2)]]) (use i4 i5 in auto)
          have last: "moves src 0 i3 (Parsed [(key, v)] ?i5)" "moves src 0 i3 (Parsed [(key, v)] ?i4)"
            using i4 i5 by auto
          show ?thesis
            unfolding Some option.case
            by (intro moves_if moves_fails err_here_simps more_fields last)
        qed simp
      qed auto
    qed (use skip [OF 3(3)] in auto)
  qed (use skip [OF i] in auto)
  show ?case using value_ok items_ok fields_ok by blast
qed

lemma value_moves': "i \<le> length src \<Longrightarrow> moves src 1 i (parse_value n src i)"
  and items_moves': "i \<le> length src \<Longrightarrow> moves src 1 i (parse_items n src e i)"
  and fields_moves': "i \<le> length src \<Longrightarrow> moves src 1 i (parse_fields n src i)"
  using value_moves by blast+

text \<open>\<open>moves\<close> as a bound on the position a step ends at.\<close>

lemma moves_ParsedD: "moves src 1 i (Parsed a j) \<Longrightarrow> i < j \<and> j \<le> length src"
  by simp

lemma fueled_step:
  assumes "fueled r" and "moves src 1 m r"
    and "\<And>a j. r = Parsed a j \<Longrightarrow> m < j \<Longrightarrow> j \<le> length src \<Longrightarrow> fueled (f a j)"
  shows "fueled (pbind r f)"
  using assms by (cases r) auto

lemma value_fueled:
  "(\<forall>i. i \<le> length src \<and> 2 * (length src - i) + 2 \<le> n \<longrightarrow> fueled (parse_value n src i))
   \<and> (\<forall>i. i \<le> length src \<and> 2 * (length src - i) + 3 \<le> n \<longrightarrow> fueled (parse_items n src e i))
   \<and> (\<forall>i. i \<le> length src \<and> 2 * (length src - i) + 3 \<le> n \<longrightarrow> fueled (parse_fields n src i))"
proof (induction n arbitrary: e)
  case 0
  then show ?case by simp
next
  case (Suc n)
  have V: "fueled (parse_value n src i)" if "i \<le> length src" "2 * (length src - i) + 2 \<le> n" for i
    using Suc.IH that by blast
  have I: "fueled (parse_items n src e i)" if "i \<le> length src" "2 * (length src - i) + 3 \<le> n" for i e
    using Suc.IH that by blast
  have F: "fueled (parse_fields n src i)" if "i \<le> length src" "2 * (length src - i) + 3 \<le> n" for i
    using Suc.IH that by blast
  have skip: "skip_trivia_from src i \<le> length src" "i \<le> skip_trivia_from src i"
    if "i \<le> length src" for i using skip_trivia_bounds [OF that] by auto
  have value_ok: "fueled (parse_value (Suc n) src i0)"
    if i0: "i0 \<le> length src" "2 * (length src - i0) + 2 \<le> Suc n" for i0
  proof -
    let ?i = "skip_trivia_from src i0"
    note i = skip [OF i0(1)]
    show ?thesis
    proof (cases "byte_at src ?i")
      case (Some b)
      then have lt: "?i < length src" by (simp add: byte_at_Some)
      let ?j = "skip_trivia_from src (?i + 1)"
      have j: "?i + 1 \<le> ?j" "?j \<le> length src" using skip [of "?i + 1"] lt by auto
      have fuel: "2 * (length src - ?j) + 3 \<le> n" using i0(2) i j by linarith
      have obj: "fueled (pbind (parse_fields n src ?j) (\<lambda>fs k.
          pbind (expect_byte src k (CHR ''}'') m) (\<lambda>_ k'. Parsed (VDocument fs) k')))" for m
        by (intro fueled_bind F [OF j(2) fuel] expect_byte_fueled fueled_simps)
      have arr: "fueled (pbind (if byte_at src ?j = Some (CHR '']'') then Parsed [] ?j
            else parse_items n src (CHR '']'') ?j) (\<lambda>vs k.
          pbind (expect_byte src k (CHR '']'') m) (\<lambda>_ k'. Parsed (VArray vs) k')))" for m
        by (intro fueled_bind fueled_if I [OF j(2) fuel] expect_byte_fueled fueled_simps)
      have str: "fueled (pbind (parse_string src ?i) (\<lambda>t j. Parsed (VStr t) j))"
        by (intro fueled_bind parse_string_fueled fueled_simps)
      show ?thesis
        unfolding parse_value.simps Let_def Some option.case
        by (intro fueled_if fueled_simps obj arr str parse_number_fueled parse_ident_value_fueled)
    qed (simp add: Let_def)
  qed
  have items_ok: "fueled (parse_items (Suc n) src e i)"
    if i: "i \<le> length src" "2 * (length src - i) + 3 \<le> Suc n" for i e
    unfolding parse_items.simps Let_def
  proof (rule fueled_step [OF V value_moves' [OF i(1)]], goal_cases)
    case (3 v i1)
    let ?i2 = "skip_trivia_from src i1"
    note i2 = skip [OF 3(3)]
    show ?case
    proof (cases "byte_at src ?i2")
      case (Some b)
      then have lt: "?i2 < length src" by (simp add: byte_at_Some)
      let ?i3 = "skip_trivia_from src (?i2 + 1)"
      have i3: "?i2 + 1 \<le> ?i3" "?i3 \<le> length src" using skip [of "?i2 + 1"] lt by auto
      have fuel: "2 * (length src - ?i3) + 3 \<le> n" using i i2 i3 3 by linarith
      show ?thesis
        unfolding Some option.case
        by (intro fueled_if fueled_simps err_here_simps fueled_bind I [OF i3(2) fuel])
    qed simp
  qed (use i in auto)
  have fields_ok: "fueled (parse_fields (Suc n) src i)"
    if i: "i \<le> length src" "2 * (length src - i) + 3 \<le> Suc n" for i
    unfolding parse_fields.simps Let_def
  proof (rule fueled_step [OF parse_object_key_fueled parse_object_key_moves [OF skip(1) [OF i(1)]]],
      goal_cases)
    case (1 key i1)
    note k = 1(2,3) skip [OF i(1)]
    show ?case
    proof (rule fueled_step [OF expect_byte_fueled expect_byte_moves [OF skip(1) [OF 1(3)]]], goal_cases)
      case (1 u i2)
      note k2 = 1(2,3) skip [OF k(2)]
      show ?case
      proof (rule fueled_step [OF V value_moves' [OF 1(3)]], goal_cases)
        case (3 v i3)
        let ?i4 = "skip_trivia_from src i3"
        note i4 = skip [OF 3(3)]
        show ?case
        proof (cases "byte_at src ?i4")
          case (Some b)
          then have lt: "?i4 < length src" by (simp add: byte_at_Some)
          let ?i5 = "skip_trivia_from src (?i4 + 1)"
          have i5: "?i4 + 1 \<le> ?i5" "?i5 \<le> length src" using skip [of "?i4 + 1"] lt by auto
          have fuel: "2 * (length src - ?i5) + 3 \<le> n" using i k k2 i4 i5 3 by linarith
          show ?thesis
            unfolding Some option.case
            by (intro fueled_if fueled_simps err_here_simps fueled_bind F [OF i5(2) fuel])
        qed simp
      qed (use i k k2 in linarith)+
    qed
  qed
  show ?case using value_ok items_ok fields_ok by blast
qed

lemma parse_value_fueled: "i \<le> length src \<Longrightarrow> mongo_fuel src \<le> n \<Longrightarrow> fueled (parse_value n src i)"
  using value_fueled [of src n] by (simp add: mongo_fuel_def)

lemma parse_value_list_fueled:
  assumes "i \<le> length src" and "mongo_fuel src \<le> n"
  shows "fueled (parse_value_list n src e i)"
proof -
  have "fueled (parse_items n src e (skip_trivia_from src i))"
    using value_fueled [of src n e] skip_trivia_bounds [OF assms(1)] assms(2)
    by (simp add: mongo_fuel_def)
  then show ?thesis by (simp add: parse_value_list_def Let_def)
qed

lemma parse_value_list_moves: "i \<le> length src \<Longrightarrow> moves src 0 i (parse_value_list n src e i)"
  using skip_trivia_bounds [of i src] items_moves' [of "skip_trivia_from src i" src n e]
  by (auto simp: parse_value_list_def Let_def intro: moves_weaken)

lemma parse_method_call_ok:
  assumes "i \<le> length src"
  shows "moves src 1 i (parse_method_call n src i)"
    and "mongo_fuel src \<le> n \<Longrightarrow> fueled (parse_method_call n src i)"
proof -
  note id = parse_ident_moves [OF assms]
  show "moves src 1 i (parse_method_call n src i)"
    unfolding parse_method_call_def
  proof (rule moves_step [OF id], goal_cases)
    case (3 name i1)
    show ?case
    proof (rule moves_step [OF expect_byte_moves [OF 3(3)]], goal_cases)
      case (3 u i2)
      show ?case
        by (rule moves_bind [OF parse_value_list_moves [OF 3(3)]])
           (auto intro!: moves_step [OF expect_byte_moves])
    qed auto
  qed auto
  assume fuel: "mongo_fuel src \<le> n"
  show "fueled (parse_method_call n src i)"
    unfolding parse_method_call_def
  proof (rule fueled_step [OF parse_ident_fueled id], goal_cases)
    case (1 name i1)
    show ?case
    proof (rule fueled_step [OF expect_byte_fueled expect_byte_moves [OF 1(3)]], goal_cases)
      case (1 u i2)
      show ?case
        by (intro fueled_bind parse_value_list_fueled [OF 1(3) fuel] expect_byte_fueled fueled_simps)
    qed
  qed
qed

lemma parse_modifiers_fueled:
  "i \<le> length src \<Longrightarrow> length src - i < k \<Longrightarrow> mongo_fuel src \<le> n \<Longrightarrow> fueled (parse_modifiers k n src i)"
proof (induction k arbitrary: i)
  case (Suc k)
  let ?j = "skip_trivia_from src i"
  note j = skip_trivia_bounds [OF Suc.prems(1)]
  show ?case
  proof (cases "byte_at src ?j = Some (CHR ''.'')")
    case True
    then have lt: "?j < length src" by (simp add: byte_at_Some)
    then have "?j + 1 \<le> length src" by simp
    note m = parse_method_call_ok [OF this]
    have "fueled (pbind (parse_method_call n src (?j + 1)) (\<lambda>m i1.
        pbind (parse_modifiers k n src i1) (\<lambda>ms i2. Parsed (m # ms) i2)))"
    proof (rule fueled_step [OF m(2) [OF Suc.prems(3)] m(1)], goal_cases)
      case (1 m i1)
      then have "length src - i1 < k" using Suc.prems(2) j lt by linarith
      from Suc.IH [OF 1(3) this Suc.prems(3)] show ?case by (intro fueled_bind fueled_simps)
    qed
    with True show ?thesis by (simp add: Let_def)
  qed (simp add: Let_def)
qed simp

lemma parse_collection_ref_ok:
  assumes "i \<le> length src"
  shows "moves src 1 i (parse_collection_ref src i)" and "fueled (parse_collection_ref src i)"
proof -
  show "moves src 1 i (parse_collection_ref src i)"
    unfolding parse_collection_ref_def
  proof (rule moves_step [OF parse_ident_moves [OF assms]], goal_cases)
    case (3 ident i1)
    have here: "moves src 0 i1 (Parsed ident i1)" using 3(3) by simp
    show ?case
    proof (intro moves_if here, rule moves_step [OF expect_byte_moves [OF 3(3)]], goal_cases)
      case (3 u i2)
      note s = skip_trivia_bounds [OF 3(4)]
      show ?case
        by (rule moves_step [OF parse_string_moves [OF conjunct2 [OF s]]])
           (use s in \<open>auto intro!: moves_step [OF expect_byte_moves]\<close>)
    qed auto
  qed auto
  show "fueled (parse_collection_ref src i)"
    unfolding parse_collection_ref_def
    by (intro fueled_bind parse_ident_fueled fueled_if expect_byte_fueled parse_string_fueled fueled_simps)
qed

lemma parse_chain_fueled:
  assumes "i \<le> length src"
  shows "fueled (parse_chain (mongo_fuel src) src i)"
  unfolding parse_chain_def
proof (rule fueled_step [OF parse_ident_fueled parse_ident_moves [OF assms]], goal_cases)
  case (1 head i1)
  show ?case
  proof (intro fueled_if fueled_simps,
      rule fueled_step [OF expect_byte_fueled expect_byte_moves [OF 1(3)]], goal_cases)
    case (1 u i2)
    note c = parse_collection_ref_ok [OF 1(3)]
    show ?case
    proof (rule fueled_step [OF c(2) c(1)], goal_cases)
      case (1 coll i3)
      show ?case
      proof (rule fueled_step [OF expect_byte_fueled expect_byte_moves [OF 1(3)]], goal_cases)
        case (1 u i4)
        note m = parse_method_call_ok [OF 1(3), of "mongo_fuel src"]
        show ?case
        proof (rule fueled_step [OF m(2) [OF order_refl] m(1)], goal_cases)
          case (1 m i5)
          have "fueled (parse_modifiers (mongo_fuel src) (mongo_fuel src) src i5)"
            by (rule parse_modifiers_fueled [OF 1(3)]) (simp_all add: mongo_fuel_def)
          then show ?case by (auto intro!: fueled_bind split: prod.splits)
        qed
      qed
    qed
  qed
qed

text \<open>
  C40.  The fuel of the mongo-shell parser always suffices: on every text \<open>mongo_parse\<close>
  returns a statement or an error (or panics on a slice), it never runs out of fuel, so the
  recursion of the code ends.
\<close>

theorem mongo_parse_fueled: "mongo_parse src \<noteq> OutOfFuel"
proof -
  have s: "skip_trivia_from src 0 \<le> length src" using skip_trivia_bounds [of 0 src] by simp
  have "fueled (mongo_parse src)"
    unfolding mongo_parse_def Let_def
    by (intro fueled_bind fueled_if parse_value_fueled [OF s] parse_chain_fueled [OF s] order_refl)
       (auto split: option.splits)
  then show ?thesis by (simp add: fueled_def)
qed

end
