(* ===== verification/Es_Lang.thy ===== *)
theory Es_Lang
  imports Redis_Lang
begin

text \<open>
  The Elasticsearch console language of \<open>crates/datagrep-lang/src/esdsl.rs\<close>: requests made
  of a request line and JSON bodies, their splitting, classification, highlighting and edit
  context.
\<close>

definition ES_DIRECTIVE_MARKER :: string where
  "ES_DIRECTIVE_MARKER = ''#''"

definition ES_SLASH_DIRECTIVE_MARKER :: string where
  "ES_SLASH_DIRECTIVE_MARKER = ''//''"

definition METHODS :: "string list" where
  "METHODS =
     [''GET'', ''POST'', ''PUT'', ''DELETE'', ''HEAD'', ''PATCH'']"

definition READ_ACTIONS :: "string list" where
  "READ_ACTIONS =
     [''_search'', ''_msearch'', ''_count'', ''_explain'', ''_validate'', ''_field_caps'',
      ''_analyze'', ''_pit'', ''_async_search'', ''_terms_enum'', ''_rank_eval'',
      ''_search_shards'', ''_resolve'', ''_mget'', ''_termvectors'', ''_mtermvectors'']"

definition ADMIN_ACTIONS :: "string list" where
  "ADMIN_ACTIONS =
     [''_cluster'', ''_snapshot'', ''_slm'', ''_nodes'', ''_tasks'', ''_ilm'', ''_ingest'',
      ''_security'', ''_reroute'', ''_ccr'', ''_watcher'']"

definition DDL_ACTIONS :: "string list" where
  "DDL_ACTIONS =
     [''_mapping'', ''_mappings'', ''_settings'', ''_alias'', ''_aliases'', ''_template'',
      ''_index_template'', ''_component_template'', ''_open'', ''_close'', ''_clone'',
      ''_shrink'', ''_split'', ''_rollover'', ''_refresh'', ''_flush'', ''_forcemerge'',
      ''_cache'']"

definition WRITE_ACTIONS :: "string list" where
  "WRITE_ACTIONS =
     [''_doc'', ''_create'', ''_update'', ''_bulk'', ''_delete_by_query'',
      ''_update_by_query'', ''_reindex'']"

section \<open>Scanners\<close>

definition end_of_line :: "string \<Rightarrow> nat \<Rightarrow> nat" where
  "end_of_line bs i = scan_line_comment bs i"

definition next_line :: "string \<Rightarrow> nat \<Rightarrow> nat" where
  "next_line bs i = min (end_of_line bs i + 1) (length bs)"

text \<open>\<open>read_method\<close>: the end of the HTTP method at \<open>i\<close>, when white space follows it.\<close>

fun read_method_of :: "string list \<Rightarrow> string \<Rightarrow> nat \<Rightarrow> nat option" where
  "read_method_of [] bs i = None"
| "read_method_of (m # ms) bs i =
     (let e = i + length m in
      if e \<le> length bs \<and> eq_ignore_ascii_case (slice bs i e) m
         \<and> byte_is is_ascii_whitespace (byte_at bs e)
      then Some e else read_method_of ms bs i)"

definition read_method :: "string \<Rightarrow> nat \<Rightarrow> nat option" where
  "read_method bs i = read_method_of METHODS bs i"

text \<open>The loop over a block comment from \<open>i\<close>, after its opening, and its end.\<close>

function block_close :: "string \<Rightarrow> nat \<Rightarrow> nat" where
  "block_close bs i =
     (if i + 1 < length bs \<and> \<not> (bs ! i = CHR ''*'' \<and> bs ! (i + 1) = CHR ''/'')
      then block_close bs (i + 1) else i)"
  by pat_completeness auto
termination
  by (relation "measure (\<lambda>(bs, i). length bs - i)") auto

declare block_close.simps [simp del]

definition block_end :: "string \<Rightarrow> nat \<Rightarrow> nat" where
  "block_end bs i = min (block_close bs (i + 2) + 2) (length bs)"

definition at_slash :: "string \<Rightarrow> nat \<Rightarrow> char \<Rightarrow> bool" where
  "at_slash bs i c = (bs ! i = CHR ''/'' \<and> byte_at bs (i + 1) = Some c)"

lemma block_close_ge: "i \<le> block_close bs i"
proof (induction bs i rule: block_close.induct)
  case (1 bs i)
  let ?c = "i + 1 < length bs \<and> \<not> (bs ! i = CHR ''*'' \<and> bs ! (i + 1) = CHR ''/'')"
  show ?case
  proof (cases ?c)
    case True
    then have "block_close bs i = block_close bs (i + 1)" by (subst block_close.simps) (rule if_P)
    with "1.IH" [OF True] show ?thesis by simp
  next
    case False
    then have "block_close bs i = i" by (subst block_close.simps) (rule if_not_P)
    then show ?thesis by simp
  qed
qed

lemma block_end_bounds: "i < length bs \<Longrightarrow> i < block_end bs i \<and> block_end bs i \<le> length bs"
  using block_close_ge [of "i + 2" bs] by (simp add: block_end_def)

lemma end_of_line_bounds: "i \<le> length bs \<Longrightarrow> i \<le> end_of_line bs i \<and> end_of_line bs i \<le> length bs"
  by (simp add: end_of_line_def scan_line_comment_ge scan_line_comment_le)

lemma end_of_line_gt: "i < length bs \<Longrightarrow> bs ! i \<noteq> newline \<Longrightarrow> i < end_of_line bs i"
  by (simp add: end_of_line_def scan_line_comment_gt)

lemma next_line_bounds: "i < length bs \<Longrightarrow> i < next_line bs i \<and> next_line bs i \<le> length bs"
  using end_of_line_bounds [of i bs] by (auto simp: next_line_def)

function skip_ws_and_comments :: "string \<Rightarrow> nat \<Rightarrow> nat" where
  "skip_ws_and_comments bs i =
     (if i < length bs then
        if is_ascii_whitespace (bs ! i) then skip_ws_and_comments bs (i + 1)
        else if bs ! i = CHR ''#'' then skip_ws_and_comments bs (end_of_line bs i)
        else if at_slash bs i (CHR ''/'') then skip_ws_and_comments bs (end_of_line bs i)
        else if at_slash bs i (CHR ''*'') then skip_ws_and_comments bs (block_end bs i)
        else i
      else i)"
  by pat_completeness auto
termination
proof (relation "measure (\<lambda>(bs, i). length bs - i)", goal_cases)
  case (3 bs i)
  then show ?case using end_of_line_gt [of i bs] by auto
next
  case (4 bs i)
  then show ?case using end_of_line_gt [of i bs] by (auto simp: at_slash_def)
next
  case (5 bs i)
  then show ?case using block_end_bounds [of i bs] by auto
qed auto

declare skip_ws_and_comments.simps [simp del]

lemma skip_ws_bounds:
  "i \<le> length bs \<Longrightarrow> i \<le> skip_ws_and_comments bs i \<and> skip_ws_and_comments bs i \<le> length bs"
proof (induction bs i rule: skip_ws_and_comments.induct)
  case (1 bs i)
  note unfold = skip_ws_and_comments.simps [of bs i]
  show ?case
  proof (cases "i < length bs")
    case True
    with 1 end_of_line_bounds [of i bs] block_end_bounds [of i bs] show ?thesis
      unfolding unfold by auto
  qed (use 1 unfold in auto)
qed

text \<open>The loop over a string after its opening quote, and over a triple-quoted one.\<close>

function string_close :: "string \<Rightarrow> nat \<Rightarrow> nat" where
  "string_close bs i =
     (if i < length bs then
        if bs ! i = backslash \<and> i + 1 < length bs then string_close bs (i + 2)
        else if bs ! i = dquote then i + 1
        else string_close bs (i + 1)
      else length bs)"
  by pat_completeness auto
termination
  by (relation "measure (\<lambda>(bs, i). length bs - i)") auto

function triple_close :: "string \<Rightarrow> nat \<Rightarrow> nat" where
  "triple_close bs i =
     (if i + 2 < length bs then
        if bs ! i = dquote \<and> bs ! (i + 1) = dquote \<and> bs ! (i + 2) = dquote then i + 3
        else triple_close bs (i + 1)
      else length bs)"
  by pat_completeness auto
termination
  by (relation "measure (\<lambda>(bs, i). length bs - i)") auto

declare string_close.simps [simp del] triple_close.simps [simp del]

definition scan_string :: "string \<Rightarrow> nat \<Rightarrow> nat" where
  "scan_string bs start =
     (if byte_at bs (start + 1) = Some dquote \<and> byte_at bs (start + 2) = Some dquote
      then triple_close bs (start + 3) else string_close bs (start + 1))"

lemma string_close_bounds: "i \<le> length bs \<Longrightarrow> i \<le> string_close bs i \<and> string_close bs i \<le> length bs"
proof (induction bs i rule: string_close.induct)
  case (1 bs i)
  then show ?case unfolding string_close.simps [of bs i] by auto
qed

lemma triple_close_bounds: "i \<le> length bs \<Longrightarrow> i \<le> triple_close bs i \<and> triple_close bs i \<le> length bs"
proof (induction bs i rule: triple_close.induct)
  case (1 bs i)
  then show ?case unfolding triple_close.simps [of bs i] by auto
qed

lemma scan_string_bounds: "i < length bs \<Longrightarrow> i < scan_string bs i \<and> scan_string bs i \<le> length bs"
  using string_close_bounds [of "i + 1" bs] triple_close_bounds [of "i + 3" bs]
  by (auto simp: scan_string_def byte_at_Some)

text \<open>The spaces and tabs at the beginning of a line.\<close>

function skip_blanks :: "string \<Rightarrow> nat \<Rightarrow> nat" where
  "skip_blanks bs j =
     (if j < length bs \<and> (bs ! j = CHR '' '' \<or> bs ! j = CHR 0x09) then skip_blanks bs (j + 1) else j)"
  by pat_completeness auto
termination
  by (relation "measure (\<lambda>(bs, j). length bs - j)") auto

declare skip_blanks.simps [simp del]

text \<open>The loop of \<open>scan_json_object\<close>; it stops at a line that begins a new request.\<close>

function json_end :: "string \<Rightarrow> nat \<Rightarrow> nat \<Rightarrow> nat" where
  "json_end bs i depth =
     (if i < length bs then
        if bs ! i = dquote then json_end bs (scan_string bs i) depth
        else if bs ! i = CHR ''#'' then json_end bs (end_of_line bs i) depth
        else if at_slash bs i (CHR ''/'') then json_end bs (end_of_line bs i) depth
        else if at_slash bs i (CHR ''*'') then json_end bs (block_end bs i) depth
        else if bs ! i = newline then
          if read_method bs (skip_blanks bs (i + 1)) \<noteq> None then i + 1
          else json_end bs (i + 1) depth
        else if bs ! i = CHR ''{'' \<or> bs ! i = CHR ''['' then json_end bs (i + 1) (depth + 1)
        else if bs ! i = CHR ''}'' \<or> bs ! i = CHR '']'' then
          if depth - 1 = 0 then i + 1 else json_end bs (i + 1) (depth - 1)
        else json_end bs (i + 1) depth
      else length bs)"
  by pat_completeness auto
termination
proof (relation "measure (\<lambda>(bs, i, d). length bs - i)", goal_cases)
  case (2 bs i depth)
  then show ?case using scan_string_bounds [of i bs] by auto
next
  case (3 bs i depth)
  then show ?case using end_of_line_gt [of i bs] by auto
next
  case (4 bs i depth)
  then show ?case using end_of_line_gt [of i bs] by (auto simp: at_slash_def)
next
  case (5 bs i depth)
  then show ?case using block_end_bounds [of i bs] by auto
qed auto

declare json_end.simps [simp del]

definition scan_json_object :: "string \<Rightarrow> nat \<Rightarrow> nat" where
  "scan_json_object bs start = json_end bs start 0"

lemma json_end_within: "i \<le> length bs \<Longrightarrow> within i (length bs) (json_end bs i d)"
proof (induction bs i d rule: json_end.induct)
  case (1 bs i d)
  show ?case
  proof (cases "i < length bs")
    case lt: True
    have step: "within i (length bs) m" if "i < m \<and> m \<le> length bs" for m
      using that by (simp add: within_def)
    have eol: "within i (length bs) (end_of_line bs i)"
      using end_of_line_bounds [of i bs] lt by (simp add: within_def)
    have str: "within i (length bs) (scan_string bs i)"
      and blk: "within i (length bs) (block_end bs i)"
      and one: "within i (length bs) (i + 1)"
      using scan_string_bounds block_end_bounds lt by (auto intro: step)
    note IH = "1.IH" [OF lt]
    show ?thesis
      unfolding json_end.simps [of bs i d] if_P [OF lt]
      by (intro within_if)
         (erule IH within_trans [OF str] within_trans [OF eol] within_trans [OF blk]
           within_trans [OF one] | assumption | rule one
           | rule within_trans [OF str] within_trans [OF eol] within_trans [OF blk]
              within_trans [OF one])+
  qed (simp add: json_end.simps [of bs i d] within_def "1.prems")
qed

lemma json_end_bounds: "i \<le> length bs \<Longrightarrow> i \<le> json_end bs i d \<and> json_end bs i d \<le> length bs"
  using json_end_within [of i bs d] by (simp add: within_def)

lemma scan_json_object_bounds:
  assumes "i < length bs" and "bs ! i = CHR ''{''"
  shows "i < scan_json_object bs i \<and> scan_json_object bs i \<le> length bs"
proof -
  have "scan_json_object bs i = json_end bs (i + 1) 1"
    using assms by (simp add: scan_json_object_def json_end.simps [of bs i 0] at_slash_def)
  then show ?thesis using json_end_bounds [of "i + 1" bs 1] assms(1) by simp
qed

section \<open>Splitting\<close>

text \<open>The bodies after a request line: each JSON object that begins after white space and
  comments extends the statement.  The test \<open>e \<le> length bs\<close> always holds where the code
  calls the loop.\<close>

function body_end :: "string \<Rightarrow> nat \<Rightarrow> nat" where
  "body_end bs e =
     (let peek = skip_ws_and_comments bs e in
      if e \<le> length bs \<and> peek < length bs \<and> bs ! peek = CHR ''{'' then
        let obj_end = scan_json_object bs peek
        in if length bs \<le> obj_end then obj_end else body_end bs obj_end
      else e)"
  by pat_completeness auto
termination
proof (relation "measure (\<lambda>(bs, e). length bs - e)", goal_cases)
  case (2 bs e p o)
  then show ?case
    using skip_ws_bounds [of e bs] scan_json_object_bounds [of p bs] by auto
qed simp

declare body_end.simps [simp del]

lemma body_end_bounds: "e \<le> length bs \<Longrightarrow> e \<le> body_end bs e \<and> body_end bs e \<le> length bs"
proof (induction bs e rule: body_end.induct)
  case (1 bs e)
  let ?p = "skip_ws_and_comments bs e"
  show ?case
  proof (cases "?p < length bs \<and> bs ! ?p = CHR ''{''")
    case True
    then have o: "?p < scan_json_object bs ?p \<and> scan_json_object bs ?p \<le> length bs"
      by (intro scan_json_object_bounds) auto
    with skip_ws_bounds [OF "1.prems"] "1.IH" [OF refl _ refl] True "1.prems" show ?thesis
      by (subst (1 2) body_end.simps) (auto simp: Let_def)
  next
    case False
    then have "body_end bs e = e" by (subst body_end.simps) (auto simp: Let_def)
    with "1.prems" show ?thesis by simp
  qed
qed

definition es_emit_span ::
  "string \<Rightarrow> nat \<Rightarrow> nat \<Rightarrow> statement_span list \<Rightarrow> statement_span list option" where
  "es_emit_span src start e spans =
     (if e \<le> start then Some spans
      else let floor = (if spans = [] then 0 else span_end (last spans))
           in case str_slice src floor (length src) of
                None \<Rightarrow> None
              | Some scoped \<Rightarrow>
                  let hash = extract_directive_lines scoped (start - floor) ES_DIRECTIVE_MARKER;
                      ls = (if hash = []
                            then extract_directive_lines scoped (start - floor) ES_SLASH_DIRECTIVE_MARKER
                            else hash)
                  in Some (spans @ [\<lparr>span_start = start, span_end = e,
                                     span_directives = parse_directives ls\<rparr>]))"

lemma read_method_of_bounds: "read_method_of ms bs i = Some e \<Longrightarrow> i \<le> e \<and> e \<le> length bs"
  by (induction ms) (auto simp: Let_def split: if_splits)

lemma read_method_of_gt:
  "read_method_of ms bs i = Some e \<Longrightarrow> list_all (\<lambda>m. m \<noteq> []) ms \<Longrightarrow> i < e"
  by (induction ms) (auto simp: Let_def split: if_splits)

lemma read_method_bounds: "read_method bs i = Some e \<Longrightarrow> i < e \<and> e \<le> length bs"
  using read_method_of_bounds [of METHODS bs i e] read_method_of_gt [of METHODS bs i e]
  by (simp add: read_method_def METHODS_def)

text \<open>The end of the statement whose method ends at \<open>method_end\<close>.\<close>

definition request_end :: "string \<Rightarrow> nat \<Rightarrow> nat" where
  "request_end bs method_end = body_end bs (end_of_line bs method_end)"

lemma request_end_bounds: "m \<le> length bs \<Longrightarrow> m \<le> request_end bs m \<and> request_end bs m \<le> length bs"
  using end_of_line_bounds [of m bs] body_end_bounds [of "end_of_line bs m" bs]
  by (simp add: request_end_def)

function es_split_from :: "string \<Rightarrow> nat \<Rightarrow> statement_span list \<Rightarrow> statement_span list option" where
  "es_split_from src i0 spans =
     (if i0 < length src then
        let i = skip_ws_and_comments src i0 in
        if length src \<le> i then Some spans
        else case read_method src i of
            None \<Rightarrow> es_split_from src (next_line src i) spans
          | Some method_end \<Rightarrow>
              (let e = request_end src method_end in
               case es_emit_span src i e spans of
                 None \<Rightarrow> None
               | Some spans' \<Rightarrow> es_split_from src e spans')
      else Some spans)"
  by pat_completeness auto
termination
proof (relation "measure (\<lambda>(src, i, spans). length src - i)", goal_cases)
  case (2 src i0 spans i)
  then show ?case using skip_ws_bounds [of i0 src] next_line_bounds [of i src] by auto
next
  case (3 src i0 spans i m e spans')
  then show ?case
    using skip_ws_bounds [of i0 src] read_method_bounds [of src i m] request_end_bounds [of m src]
    by auto
qed simp

declare es_split_from.simps [simp del]

definition es_split :: "string \<Rightarrow> statement_span list option" where
  "es_split src = es_split_from src 0 []"

section \<open>Classification\<close>

text \<open>\<open>str::split\<close> at a byte, and \<open>str::lines\<close>.\<close>

fun split_char :: "char \<Rightarrow> string \<Rightarrow> string list" where
  "split_char d [] = [[]]"
| "split_char d (c # cs) =
     (if c = d then [] # split_char d cs
      else case split_char d cs of s # ss \<Rightarrow> (c # s) # ss | [] \<Rightarrow> [[c]])"

definition drop_cr :: "string \<Rightarrow> string" where
  "drop_cr l = (case strip_suffix [carriage_return] l of Some s \<Rightarrow> s | None \<Rightarrow> l)"

definition lines :: "string \<Rightarrow> string list" where
  "lines s =
     (let parts = split_char newline s
      in map drop_cr (butlast parts) @ (if last parts = [] then [] else [last parts]))"

fun request_line_of :: "string list \<Rightarrow> (string \<times> string) option" where
  "request_line_of [] = None"
| "request_line_of (l # ls) =
     (let line = trim l in
      if line = [] \<or> starts_with line ''#'' \<or> starts_with line ''//'' \<or> starts_with line ''/*''
      then request_line_of ls
      else case split_whitespace line of
          [] \<Rightarrow> None
        | http # parts \<Rightarrow>
            if \<not> listed METHODS http then None
            else let target = (case parts of t # _ \<Rightarrow> t | [] \<Rightarrow> [])
                 in Some (http, takeWhile (\<lambda>c. c \<noteq> CHR ''?'') target))"

definition parse_request_line :: "string \<Rightarrow> (string \<times> string) option" where
  "parse_request_line stmt = request_line_of (lines stmt)"

definition path_segments :: "string \<Rightarrow> string list" where
  "path_segments path =
     filter (\<lambda>s. s \<noteq> []) (split_char (CHR ''/'') (dropWhile (\<lambda>c. c = CHR ''/'') path))"

definition has_action :: "string list \<Rightarrow> string list \<Rightarrow> bool" where
  "has_action segs actions = list_ex (\<lambda>s. s \<in> set actions) segs"

definition es_classify :: "string \<Rightarrow> statement_class" where
  "es_classify stmt =
     (case parse_request_line stmt of
        None \<Rightarrow> Unknown
      | Some (http, path) \<Rightarrow>
          if eq_ignore_ascii_case http ''GET'' \<or> eq_ignore_ascii_case http ''HEAD'' then Read
          else let segs = path_segments path in
               if eq_ignore_ascii_case http ''POST'' \<and> has_action segs READ_ACTIONS then Read
               else if has_action segs ADMIN_ACTIONS then Admin
               else if has_action segs DDL_ACTIONS then Ddl
               else if has_action segs WRITE_ACTIONS then Write
               else if segs = [] then Unknown
               else if eq_ignore_ascii_case http ''PUT'' \<or> eq_ignore_ascii_case http ''DELETE'' then Ddl
               else Write)"

section \<open>Edit context\<close>

text \<open>The scan up to the cursor: the context it returns early, if it does.  \<open>e\<close> is
  \<open>offset.min(bytes.len())\<close>.\<close>

function es_context_from :: "string \<Rightarrow> nat \<Rightarrow> nat \<Rightarrow> edit_context option" where
  "es_context_from bs e i =
     (if i < e \<and> e \<le> length bs then
        if bs ! i = CHR ''#'' \<or> at_slash bs i (CHR ''/'') then
          if e \<le> end_of_line bs i then Some CtxComment
          else es_context_from bs e (end_of_line bs i)
        else if at_slash bs i (CHR ''*'') then
          if e < block_end bs i then Some CtxComment else es_context_from bs e (block_end bs i)
        else if bs ! i = dquote then
          if e < scan_string bs i then Some CtxStringLiteral
          else es_context_from bs e (scan_string bs i)
        else es_context_from bs e (i + 1)
      else None)"
  by pat_completeness auto
termination
proof (relation "measure (\<lambda>(bs, e, i). length bs - i)", goal_cases)
  case (2 bs e i)
  then show ?case using end_of_line_gt [of i bs] by (auto simp: at_slash_def)
next
  case (3 bs e i)
  then show ?case using block_end_bounds [of i bs] by auto
next
  case (4 bs e i)
  then show ?case using scan_string_bounds [of i bs] by auto
qed auto

declare es_context_from.simps [simp del]

definition is_es_ident_byte :: "char \<Rightarrow> bool" where
  "is_es_ident_byte b =
     (is_ascii_alphanumeric b \<or> b = CHR ''_'' \<or> b = CHR ''-'' \<or> b = CHR ''.'' \<or> b = CHR ''*'')"

definition es_context_at :: "string \<Rightarrow> nat \<Rightarrow> edit_context" where
  "es_context_at src offset =
     (case es_context_from src (min offset (length src)) 0 of
        Some ctx \<Rightarrow> ctx
      | None \<Rightarrow>
          if byte_is is_es_ident_byte (if offset = 0 then None else byte_at src (offset - 1))
             \<or> byte_is is_es_ident_byte (byte_at src offset)
          then CtxIdentifier else CtxStatement)"

section \<open>Highlighting\<close>

definition is_es_word_byte :: "char \<Rightarrow> bool" where
  "is_es_word_byte b = (is_ascii_alphanumeric b \<or> b = CHR ''_'' \<or> b = CHR ''.'' \<or> b = CHR ''*'')"

definition is_es_number_byte :: "char \<Rightarrow> bool" where
  "is_es_number_byte b =
     (is_ascii_digit b \<or> b = CHR ''.'' \<or> b = CHR ''e'' \<or> b = CHR ''E'' \<or> b = CHR ''+'' \<or> b = CHR ''-'')"

text \<open>One turn of the highlighter: the tokens, the next index and \<open>at_line_start\<close>.\<close>

definition es_token :: "string \<Rightarrow> nat \<Rightarrow> bool \<Rightarrow> token list \<times> nat \<times> bool" where
  "es_token bs i at_start =
     (let b = bs ! i; n = length bs in
      if b = newline then ([], i + 1, True)
      else if is_ascii_whitespace b then ([], i + 1, at_start)
      else if b = CHR ''#'' \<or> at_slash bs i (CHR ''/'') then
        ([mk_token i (end_of_line bs i) TComment], end_of_line bs i, at_start)
      else if at_slash bs i (CHR ''*'') then
        ([mk_token i (block_end bs i) TComment], block_end bs i, at_start)
      else if b = CHR ''/'' then ([mk_token i (i + 1) TPunct], i + 1, False)
      else if b = dquote then
        ([mk_token i (scan_string bs i) TString], scan_string bs i, False)
      else if b = CHR ''?'' \<or> b = CHR ''&'' \<or> b = CHR ''='' then
        ([mk_token i (i + 1) TOperator], i + 1, False)
      else if b \<in> set ''{}[]:,'' then ([mk_token i (i + 1) TPunct], i + 1, False)
      else if b = CHR ''-'' \<or> is_ascii_digit b then
        let j = run_while is_es_number_byte bs (i + 1) n in ([mk_token i j TNumber], j, False)
      else if is_es_word_byte b then
        let j = run_while is_es_word_byte bs i n;
            word = slice bs i j;
            is_method = at_start \<and> listed METHODS word;
            kind = (if is_method \<or> word = ''true'' \<or> word = ''false'' \<or> word = ''null''
                    then TKeyword else TIdent)
        in ([mk_token i j kind], j, False)
      else ([], i + 1, False))"

lemma es_token_ok:
  assumes "i < length bs"
  shows "tok_ok bs i (es_token bs i s)"
proof -
  have eol: "tok_ok bs i ([mk_token i (end_of_line bs i) TComment], end_of_line bs i, s)"
    if "bs ! i \<noteq> newline"
    using end_of_line_gt [OF assms that] end_of_line_bounds [of i bs] assms by (intro tok_ok_one) auto
  have blk: "tok_ok bs i ([mk_token i (block_end bs i) TComment], block_end bs i, s)"
    using block_end_bounds [OF assms] by (intro tok_ok_one) auto
  have str: "tok_ok bs i ([mk_token i (scan_string bs i) TString], scan_string bs i, b)" for b :: bool
    using scan_string_bounds [OF assms] by (intro tok_ok_one) auto
  have skip: "tok_ok bs i ([], i + 1, b)" for b :: bool using assms by (intro tok_ok_none) auto
  have one: "tok_ok bs i ([mk_token i (i + 1) k], i + 1, b)" for k and b :: bool
    using assms by (intro tok_ok_one) auto
  show ?thesis
    unfolding es_token_def Let_def
    by (intro tok_ok_if)
       (rule skip one str blk | rule eol, assumption | rule tok_ok_run, rule assms
        | rule tok_ok_run_here, rule assms, assumption)+
qed

function es_highlight_from :: "string \<Rightarrow> nat \<Rightarrow> bool \<Rightarrow> token list" where
  "es_highlight_from bs i at_start =
     (if i < length bs then
        fst (es_token bs i at_start)
        @ es_highlight_from bs (fst (snd (es_token bs i at_start))) (snd (snd (es_token bs i at_start)))
      else [])"
  by pat_completeness auto
termination
proof (relation "measure (\<lambda>(bs, i, s). length bs - i)", goal_cases)
  case (2 bs i s)
  then show ?case using tok_ok_next [OF es_token_ok [of i bs s]]
    by (simp add: case_prod_unfold) linarith
qed simp

declare es_highlight_from.simps [simp del]

definition es_highlight :: "string \<Rightarrow> token list" where
  "es_highlight src = es_highlight_from src 0 True"

section \<open>What the Elasticsearch front end promises\<close>

lemma es_emit_spans:
  assumes "es_emit_span src start e spans = Some spans'" and "spans_in 0 spans m" and "m \<le> start"
    and "start < e"
  shows "spans_in 0 spans' e"
  using assms by (auto simp: es_emit_span_def Let_def intro: spans_in_snoc split: option.splits)

lemma es_split_spans:
  assumes "es_split_from src i spans = Some spans'" and "spans_in 0 spans i" and "i \<le> length src"
  shows "spans_in 0 spans' (length src)"
  using assms
proof (induction src i spans rule: es_split_from.induct)
  case (1 src i0 spans)
  note unfold = es_split_from.simps [of src i0 spans]
  let ?i = "skip_ws_and_comments src i0"
  have i: "i0 \<le> ?i" "?i \<le> length src" using skip_ws_bounds "1.prems"(3) by auto
  show ?case
  proof (cases "i0 < length src \<and> ?i < length src")
    case False
    with "1.prems" i show ?thesis
      by (auto simp: unfold Let_def intro: spans_in_mono split: if_splits)
  next
    case lt: True
    show ?thesis
    proof (cases "read_method src ?i")
      case None
      have nl: "?i < next_line src ?i" "next_line src ?i \<le> length src"
        using next_line_bounds lt by auto
      have "spans_in 0 spans (next_line src ?i)"
        using "1.prems"(2) nl i by (auto intro: spans_in_mono)
      with "1.IH"(1) [OF _ refl _ None] "1.prems"(1) lt None nl show ?thesis
        by (simp add: unfold Let_def)
    next
      case (Some m)
      let ?e = "request_end src m"
      from lt Some "1.prems"(1) obtain sp where sp: "es_emit_span src ?i ?e spans = Some sp"
        and rest: "es_split_from src ?e sp = Some spans'"
        by (auto simp: unfold Let_def split: option.splits)
      have m: "?i < m" "m \<le> ?e" "?e \<le> length src"
        using read_method_bounds [OF Some] request_end_bounds [of m src] by auto
      then have "spans_in 0 sp ?e"
        using es_emit_spans [OF sp "1.prems"(2) i(1)] by simp
      with "1.IH"(2) [OF _ refl _ Some refl sp rest] lt m show ?thesis by simp
    qed
  qed
qed

text \<open>
  The Elasticsearch requests the splitter returns are non-empty stretches of the text,
  in increasing order and disjoint.
\<close>

theorem es_split_ordered:
  assumes "es_split src = Some spans"
  shows "spans_in 0 spans (length src)"
  using es_split_spans [of src 0 "[]" spans] assms by (simp add: es_split_def)

lemma es_split_example:
  "es_split ''GET /a {}'' = Some [\<lparr>span_start = 0, span_end = 9, span_directives = Inr default_directives\<rparr>]"
  by code_simp

lemma es_split_ordered_witness:
  "spans_in 0 [\<lparr>span_start = 0, span_end = 9, span_directives = Inr default_directives\<rparr>] 9"
  using es_split_ordered [OF es_split_example] by simp

text \<open>
  An Elasticsearch request counts as a read exactly when its method is GET or HEAD, or
  it is a POST whose path has a read endpoint as one of its segments.
\<close>

theorem es_classify_read_iff:
  "es_classify stmt = Read \<longleftrightarrow>
     (\<exists>http path. parse_request_line stmt = Some (http, path)
        \<and> (eq_ignore_ascii_case http ''GET'' \<or> eq_ignore_ascii_case http ''HEAD''
           \<or> (eq_ignore_ascii_case http ''POST'' \<and> has_action (path_segments path) READ_ACTIONS)))"
  by (simp add: es_classify_def Let_def split: option.splits prod.splits)

text \<open>
  The segment may be anything in the path, a document id included: a POST that writes
  a document whose id is the name of a read endpoint is classified as a read.
\<close>

theorem es_document_id_read:
  "es_classify ''POST /logs/_doc/_search'' = Read \<and> es_classify ''POST /logs/_update/_count'' = Read"
  by code_simp

lemma es_highlight_in: "i \<le> length bs \<Longrightarrow> tokens_in i (es_highlight_from bs i s) (length bs)"
proof (induction bs i s rule: es_highlight_from.induct)
  case (1 bs i s)
  show ?case
  proof (cases "i < length bs")
    case True
    note ok = es_token_ok [OF True, of s]
    from tok_ok_tokens [OF ok "1.IH" [OF True]] tok_ok_next [OF ok] True show ?thesis
      by (simp add: es_highlight_from.simps [of bs i s])
  next
    case False
    with "1.prems" show ?thesis by (auto simp: es_highlight_from.simps)
  qed
qed

text \<open>
  The highlighter's tokens for an Elasticsearch script are non-empty, in increasing
  order and disjoint, and lie inside the text.
\<close>

theorem es_highlight_ordered: "tokens_in 0 (es_highlight src) (length src)"
  unfolding es_highlight_def by (rule es_highlight_in) simp

end
