(* ===== verification/Mongo_Lang.thy ===== *)
theory Mongo_Lang
  imports Mongo_Parser Es_Lang
begin

text \<open>
  The mongo-shell language of \<open>crates/datagrep-lang/src/mongo/mod.rs\<close>: splitting at top-level
  semicolons, classification by method name, highlighting and edit context.
\<close>

definition MONGO_DIRECTIVE_MARKER :: string where
  "MONGO_DIRECTIVE_MARKER = ''#''"

definition MONGO_KEYWORDS :: "string list" where
  "MONGO_KEYWORDS =
     [''db'', ''true'', ''false'', ''null'', ''undefined'', ''ObjectId'', ''ISODate'',
      ''NumberLong'', ''NumberDecimal'', ''NumberInt'', ''getCollection'']"

section \<open>The mode automaton\<close>

datatype mode = CodeMode | SingleString | DoubleString | LineComment | BlockComment

text \<open>One turn of the loops of \<open>split\<close> and \<open>context_at\<close> outside the cases of \<open>split\<close> that act
  on brackets and semicolons: the next mode and the next index.\<close>

definition mode_step :: "string \<Rightarrow> mode \<Rightarrow> nat \<Rightarrow> mode \<times> nat" where
  "mode_step bs md i =
     (let b = bs ! i in
      case md of
        SingleString \<Rightarrow>
          if b = backslash \<and> i + 1 < length bs then (SingleString, i + 2)
          else (if b = quote_char then CodeMode else SingleString, i + 1)
      | DoubleString \<Rightarrow>
          if b = backslash \<and> i + 1 < length bs then (DoubleString, i + 2)
          else (if b = dquote then CodeMode else DoubleString, i + 1)
      | LineComment \<Rightarrow> (if b = newline then CodeMode else LineComment, i + 1)
      | BlockComment \<Rightarrow>
          if b = CHR ''*'' \<and> byte_at bs (i + 1) = Some (CHR ''/'') then (CodeMode, i + 2)
          else (BlockComment, i + 1)
      | CodeMode \<Rightarrow>
          if b = quote_char then (SingleString, i + 1)
          else if b = dquote then (DoubleString, i + 1)
          else if slash_then bs i (CHR ''/'') then (LineComment, i + 2)
          else if b = CHR ''#'' then (LineComment, i + 1)
          else if slash_then bs i (CHR ''*'') then (BlockComment, i + 2)
          else (CodeMode, i + 1))"

lemma mode_step_next: "i < snd (mode_step bs md i)"
  by (cases md) (auto simp: mode_step_def Let_def)

section \<open>Splitting\<close>

definition mongo_emit_span ::
  "string \<Rightarrow> nat \<Rightarrow> nat \<Rightarrow> statement_span list \<Rightarrow> statement_span list option" where
  "mongo_emit_span src start e spans =
     (if e \<le> start then Some spans
      else case str_slice src start e of
          None \<Rightarrow> None
        | Some raw \<Rightarrow>
            if trim raw = [] then Some spans
            else let trimmed_start = start + (length raw - length (trim_start raw));
                     ls = extract_directive_lines src trimmed_start MONGO_DIRECTIVE_MARKER
                 in Some (spans @ [\<lparr>span_start = start, span_end = e,
                                    span_directives = parse_directives ls\<rparr>]))"

text \<open>The change of depth at a code byte: \<open>(depth - 1).max(0)\<close> stops at zero.\<close>

definition bracket_depth :: "char \<Rightarrow> nat \<Rightarrow> nat" where
  "bracket_depth b depth =
     (if b = CHR ''{'' \<or> b = CHR ''['' \<or> b = CHR ''('' then depth + 1
      else if b = CHR ''}'' \<or> b = CHR '']'' \<or> b = CHR '')'' then depth - 1
      else depth)"

function mongo_split_from ::
  "string \<Rightarrow> nat \<Rightarrow> nat \<Rightarrow> mode \<Rightarrow> nat \<Rightarrow> statement_span list \<Rightarrow> statement_span list option" where
  "mongo_split_from src stmt_start i md depth spans =
     (if i < length src then
        if md = CodeMode \<and> src ! i = CHR '';'' \<and> depth = 0 then
          (case mongo_emit_span src stmt_start i spans of
             None \<Rightarrow> None
           | Some spans' \<Rightarrow> mongo_split_from src (i + 1) (i + 1) md depth spans')
        else mongo_split_from src stmt_start (snd (mode_step src md i)) (fst (mode_step src md i))
               (if md = CodeMode then bracket_depth (src ! i) depth else depth) spans
      else mongo_emit_span src stmt_start (length src) spans)"
  by pat_completeness auto
termination
proof (relation "measure (\<lambda>(src, s, i, md, d, spans). length src - i)", goal_cases)
  case (3 src s i md d spans)
  then show ?case using mode_step_next [of i src md] by (auto intro!: diff_less_mono2)
qed auto

declare mongo_split_from.simps [simp del]

definition mongo_split :: "string \<Rightarrow> statement_span list option" where
  "mongo_split src = mongo_split_from src 0 0 CodeMode 0 []"

section \<open>Classification\<close>

text \<open>\<open>method.get(..p.len())\<close> compared without case.\<close>

definition begins_ci :: "string \<Rightarrow> string \<Rightarrow> bool" where
  "begins_ci name p =
     (case str_get name 0 (length p) of
        None \<Rightarrow> False
      | Some h \<Rightarrow> eq_ignore_ascii_case h p)"

definition classify_method :: "string \<Rightarrow> statement_class" where
  "classify_method name =
     (if begins_ci name ''insert'' \<or> begins_ci name ''update'' \<or> begins_ci name ''delete'' then Write
      else if begins_ci name ''drop'' then Ddl
      else if begins_ci name ''find'' \<or> begins_ci name ''aggregate'' \<or> begins_ci name ''count''
              \<or> begins_ci name ''distinct'' then Read
      else Unknown)"

text \<open>\<open>None\<close> is a panic of the parser.\<close>

definition mongo_classify :: "string \<Rightarrow> statement_class option" where
  "mongo_classify stmt =
     (case mongo_parse stmt of
        Panics \<Rightarrow> None
      | Parsed (Chain c) _ \<Rightarrow> Some (classify_method (ms_method c))
      | Parsed (RawCommand (VDocument ((key, _) # _))) _ \<Rightarrow> Some (classify_method key)
      | _ \<Rightarrow> Some Unknown)"

section \<open>Edit context\<close>

function mongo_mode_at :: "string \<Rightarrow> nat \<Rightarrow> nat \<Rightarrow> mode \<Rightarrow> mode" where
  "mongo_mode_at bs offset i md =
     (if i < offset \<and> i < length bs then
        mongo_mode_at bs offset (snd (mode_step bs md i)) (fst (mode_step bs md i))
      else md)"
  by pat_completeness auto
termination
proof (relation "measure (\<lambda>(bs, off, i, md). length bs - i)", goal_cases)
  case (2 bs off i md)
  then show ?case using mode_step_next [of i bs md] by (auto intro!: diff_less_mono2)
qed simp

declare mongo_mode_at.simps [simp del]

definition mongo_context_at :: "string \<Rightarrow> nat \<Rightarrow> edit_context" where
  "mongo_context_at src offset =
     (case mongo_mode_at src offset 0 CodeMode of
        SingleString \<Rightarrow> CtxStringLiteral
      | DoubleString \<Rightarrow> CtxStringLiteral
      | LineComment \<Rightarrow> CtxComment
      | BlockComment \<Rightarrow> CtxComment
      | CodeMode \<Rightarrow>
          if byte_is is_ident_continue (if offset = 0 then None else byte_at src (offset - 1))
             \<or> byte_is is_ident_continue (byte_at src offset)
          then CtxIdentifier else CtxStatement)"

section \<open>Highlighting\<close>

function mongo_quote_from :: "string \<Rightarrow> char \<Rightarrow> nat \<Rightarrow> nat" where
  "mongo_quote_from bs q i =
     (if i < length bs \<and> bs ! i \<noteq> q then
        if bs ! i = backslash \<and> i + 1 < length bs then mongo_quote_from bs q (i + 2)
        else mongo_quote_from bs q (i + 1)
      else i)"
  by pat_completeness auto
termination
  by (relation "measure (\<lambda>(bs, q, i). length bs - i)") auto

declare mongo_quote_from.simps [simp del]

definition mongo_quote_end :: "string \<Rightarrow> nat \<Rightarrow> nat" where
  "mongo_quote_end bs i = min (mongo_quote_from bs (bs ! i) (i + 1) + 1) (length bs)"

lemma mongo_quote_from_ge: "i \<le> mongo_quote_from bs q i"
proof (induction bs q i rule: mongo_quote_from.induct)
  case (1 bs q i)
  show ?case
  proof (cases "i < length bs \<and> bs ! i \<noteq> q")
    case True
    have "i \<le> (if bs ! i = backslash \<and> i + 1 < length bs
        then mongo_quote_from bs q (i + 2) else mongo_quote_from bs q (i + 1))" (is "_ \<le> (if ?esc then _ else _)")
    proof (cases ?esc)
      case esc: True
      from "1.IH"(1) [OF True esc] esc show ?thesis by simp
    next
      case False
      from "1.IH"(2) [OF True False] False show ?thesis by (simp only: if_False)
    qed
    then show ?thesis unfolding mongo_quote_from.simps [of bs q i] if_P [OF True] .
  next
    case False
    show ?thesis unfolding mongo_quote_from.simps [of bs q i] if_not_P [OF False] by simp
  qed
qed

lemma mongo_quote_end_bounds:
  "i < length bs \<Longrightarrow> i < mongo_quote_end bs i \<and> mongo_quote_end bs i \<le> length bs"
  using mongo_quote_from_ge [of "i + 1" bs "bs ! i"] by (simp add: mongo_quote_end_def)

definition mongo_number_at :: "string \<Rightarrow> nat \<Rightarrow> bool" where
  "mongo_number_at bs i =
     (is_ascii_digit (bs ! i)
      \<or> (bs ! i = CHR ''-'' \<and> byte_is is_ascii_digit (byte_at bs (i + 1))))"

definition mongo_token :: "string \<Rightarrow> nat \<Rightarrow> token list \<times> nat \<times> unit" where
  "mongo_token bs i =
     (let b = bs ! i; n = length bs in
      if is_ascii_whitespace b then ([], i + 1, ())
      else if slash_then bs i (CHR ''/'') then
        ([mk_token i (scan_line_comment bs (i + 2)) TComment], scan_line_comment bs (i + 2), ())
      else if b = CHR ''#'' then
        ([mk_token i (scan_line_comment bs i) TComment], scan_line_comment bs i, ())
      else if slash_then bs i (CHR ''*'') then
        ([mk_token i (trivia_block_end bs i) TComment], trivia_block_end bs i, ())
      else if b = quote_char \<or> b = dquote then
        ([mk_token i (mongo_quote_end bs i) TString], mongo_quote_end bs i, ())
      else if mongo_number_at bs i then
        ([mk_token i (run_while is_ctor_number_byte bs (i + 1) n) TNumber],
         run_while is_ctor_number_byte bs (i + 1) n, ())
      else if is_ident_start b then
        ([mk_token i (run_while is_ident_continue bs (i + 1) n)
           (if slice bs i (run_while is_ident_continue bs (i + 1) n) \<in> set MONGO_KEYWORDS
            then TKeyword else TIdent)],
         run_while is_ident_continue bs (i + 1) n, ())
      else if b \<in> set ''{}[](),:.;'' then ([mk_token i (i + 1) TPunct], i + 1, ())
      else if b \<in> set ''=<>!+-*/%&|^~?'' then ([mk_token i (i + 1) TOperator], i + 1, ())
      else ([], i + 1, ()))"

lemma mongo_token_ok:
  assumes "i < length bs"
  shows "tok_ok bs i (mongo_token bs i)"
proof -
  have line2: "tok_ok bs i ([mk_token i (scan_line_comment bs (i + 2)) k], scan_line_comment bs (i + 2), ())"
    if "slash_then bs i (CHR ''/'')" for k
    using comment_line_bounds [of i 2 bs] that
    by (intro tok_ok_one) (auto simp: slash_then_def byte_at_Some)
  have line: "tok_ok bs i ([mk_token i (scan_line_comment bs i) k], scan_line_comment bs i, ())"
    if "bs ! i = CHR ''#''" for k
    using scan_line_comment_gt [OF assms] scan_line_comment_le [of i bs] that assms
    by (intro tok_ok_one) auto
  have blk: "tok_ok bs i ([mk_token i (trivia_block_end bs i) k], trivia_block_end bs i, ())" for k
    using trivia_block_end_bounds [OF assms] by (intro tok_ok_one) auto
  have str: "tok_ok bs i ([mk_token i (mongo_quote_end bs i) k], mongo_quote_end bs i, ())" for k
    using mongo_quote_end_bounds [OF assms] by (intro tok_ok_one) auto
  have skip: "tok_ok bs i ([], i + 1, ())" using assms by (intro tok_ok_none) auto
  have one: "tok_ok bs i ([mk_token i (i + 1) k], i + 1, ())" for k
    using assms by (intro tok_ok_one) auto
  show ?thesis
    unfolding mongo_token_def Let_def
    by (intro tok_ok_if)
       (rule skip one str blk | rule line2, assumption | rule line, assumption
        | rule tok_ok_run, rule assms)+
qed

function mongo_highlight_from :: "string \<Rightarrow> nat \<Rightarrow> token list" where
  "mongo_highlight_from bs i =
     (if i < length bs then
        fst (mongo_token bs i) @ mongo_highlight_from bs (fst (snd (mongo_token bs i)))
      else [])"
  by pat_completeness auto
termination
proof (relation "measure (\<lambda>(bs, i). length bs - i)", goal_cases)
  case (2 bs i)
  then show ?case using tok_ok_next [OF mongo_token_ok [of i bs]] by simp linarith
qed simp

declare mongo_highlight_from.simps [simp del]

definition mongo_highlight :: "string \<Rightarrow> token list" where
  "mongo_highlight src = mongo_highlight_from src 0"

section \<open>What the mongo front end promises\<close>

lemma mongo_highlight_in: "i \<le> length bs \<Longrightarrow> tokens_in i (mongo_highlight_from bs i) (length bs)"
proof (induction bs i rule: mongo_highlight_from.induct)
  case (1 bs i)
  show ?case
  proof (cases "i < length bs")
    case True
    note ok = mongo_token_ok [OF True]
    from tok_ok_tokens [OF ok "1.IH" [OF True]] tok_ok_next [OF ok] True show ?thesis
      by (simp add: mongo_highlight_from.simps [of bs i])
  next
    case False
    with "1.prems" show ?thesis by (auto simp: mongo_highlight_from.simps)
  qed
qed

text \<open>
  The highlighter's tokens for a mongo script are non-empty, in increasing order and
  disjoint, and lie inside the text.
\<close>

theorem mongo_highlight_ordered: "tokens_in 0 (mongo_highlight src) (length src)"
  unfolding mongo_highlight_def by (rule mongo_highlight_in) simp

lemma mongo_emit_inv:
  assumes "mongo_emit_span src start e spans = Some spans'"
    and "list_all (nonblank src) spans" and "spans_in 0 spans m" and "m \<le> start" and "start \<le> e"
  shows "list_all (nonblank src) spans' \<and> spans_in 0 spans' e"
  using assms
  by (auto simp: mongo_emit_span_def Let_def str_slice_def nonblank_def
      intro: spans_in_mono spans_in_snoc split: if_splits option.splits)

lemma mongo_split_inv:
  assumes "mongo_split_from src start i md depth spans = Some spans'"
    and "list_all (nonblank src) spans" and "spans_in 0 spans m" and "m \<le> start" and "start \<le> i"
    and "start \<le> length src"
  shows "list_all (nonblank src) spans' \<and> spans_in 0 spans' (length src)"
  using assms
proof (induction src start i md depth spans arbitrary: m rule: mongo_split_from.induct)
  case (1 src start i md depth spans)
  note unfold = mongo_split_from.simps [of src start i md depth spans]
  show ?case
  proof (cases "i < length src")
    case False
    with "1.prems"(1) have "mongo_emit_span src start (length src) spans = Some spans'"
      by (simp add: unfold)
    from mongo_emit_inv [OF this "1.prems"(2-4,6)] show ?thesis .
  next
    case lt: True
    show ?thesis
    proof (cases "md = CodeMode \<and> src ! i = CHR '';'' \<and> depth = 0")
      case True
      with "1.prems"(1) lt obtain sp where sp: "mongo_emit_span src start i spans = Some sp"
        and rest: "mongo_split_from src (i + 1) (i + 1) md depth sp = Some spans'"
        unfolding unfold by (auto split: option.splits)
      from mongo_emit_inv [OF sp "1.prems"(2-5)] have "list_all (nonblank src) sp" "spans_in 0 sp i" by auto
      with "1.IH"(1) [OF lt True sp rest, of i] lt show ?thesis by simp
    next
      case False
      with "1.prems"(1) [unfolded unfold if_P [OF lt] if_not_P [OF False]]
        "1.IH"(2) [OF lt False _ "1.prems"(2-4)] "1.prems"(5,6) mode_step_next [of i src md]
      show ?thesis by simp
    qed
  qed
qed

text \<open>
  The mongo statements the splitter returns are non-blank stretches of the text, in
  increasing order and disjoint.
\<close>

theorem mongo_split_ordered:
  assumes "mongo_split src = Some spans"
  shows "spans_in 0 spans (length src) \<and> list_all (nonblank src) spans"
  using mongo_split_inv [of src 0 0 CodeMode 0 "[]" spans 0] assms by (simp add: mongo_split_def)

lemma mongo_split_example:
  "mongo_split ''a(;);b'' = Some
     [\<lparr>span_start = 0, span_end = 4, span_directives = Inr default_directives\<rparr>,
      \<lparr>span_start = 5, span_end = 6, span_directives = Inr default_directives\<rparr>]"
  by code_simp

lemma mongo_split_ordered_witness:
  "spans_in 0
     [\<lparr>span_start = 0, span_end = 4, span_directives = Inr default_directives\<rparr>,
      \<lparr>span_start = 5, span_end = 6, span_directives = Inr default_directives\<rparr>] 6"
  using mongo_split_ordered [OF mongo_split_example] by simp

text \<open>
  The mongo classifier looks only at the beginning of the method name: the command
  findAndModify, which writes, and an aggregation that ends in an out stage are classified
  as reads, so the safety gate lets them pass.
\<close>

theorem mongo_writes_classified_read:
  "mongo_classify ''{findAndModify:1,remove:true}'' = Some Read
   \<and> mongo_classify ''db.c.aggregate([{$out:1}])'' = Some Read"
  by code_simp

text \<open>
  Text after a complete mongo statement whose twentieth byte falls inside a character
  makes the parser, and so the classifier, panic: the error message slices twenty bytes.
\<close>

theorem mongo_trailing_panics:
  "mongo_classify (''{}'' @ replicate 19 (CHR ''x'') @ [CHR 0xC3, CHR 0xA9]) = None"
  by code_simp

end
