(* ===== verification/Languages.thy ===== *)
theory Languages
  imports Sql_References Mongo_Lang
begin

text \<open>
  The language registry of \<open>crates/datagrep-lang/src/lib.rs\<close>.  The trait \<open>Language\<close> is the
  record \<open>language\<close> of its operations, \<open>None\<close> standing for a panic; the contract every
  implementation keeps is the locale \<open>statement_language\<close>.
\<close>

section \<open>The trait and its implementations\<close>

datatype language_id =
    LangSql sql_dialect | MongoShell | RedisCli | EsDsl | Cypher | PartiQl | Unclassified

record language =
  lang_id :: language_id
  lang_split :: "string \<Rightarrow> statement_span list option"
  lang_classify :: "string \<Rightarrow> statement_class option"
  lang_context_at :: "string \<Rightarrow> nat \<Rightarrow> edit_context"
  lang_highlight :: "string \<Rightarrow> token list option"

definition sql_language :: "sql_dialect \<Rightarrow> language" where
  "sql_language d =
     \<lparr>lang_id = LangSql d, lang_split = (\<lambda>src. split_sql src d),
      lang_classify = (\<lambda>stmt. Some (classify stmt d)),
      lang_context_at = (\<lambda>src. context_at_sql src d),
      lang_highlight = (\<lambda>src. Some (highlight_sql src d))\<rparr>"

definition redis_language :: language where
  "redis_language =
     \<lparr>lang_id = RedisCli, lang_split = redis_split, lang_classify = redis_classify,
      lang_context_at = redis_context_at, lang_highlight = redis_highlight\<rparr>"

definition es_language :: language where
  "es_language =
     \<lparr>lang_id = EsDsl, lang_split = es_split, lang_classify = (\<lambda>stmt. Some (es_classify stmt)),
      lang_context_at = es_context_at, lang_highlight = (\<lambda>src. Some (es_highlight src))\<rparr>"

definition mongo_language :: language where
  "mongo_language =
     \<lparr>lang_id = MongoShell, lang_split = mongo_split, lang_classify = mongo_classify,
      lang_context_at = mongo_context_at, lang_highlight = (\<lambda>src. Some (mongo_highlight src))\<rparr>"

definition fallback_split :: "string \<Rightarrow> statement_span list option" where
  "fallback_split src =
     Some (if trim src = [] then []
           else [\<lparr>span_start = 0, span_end = length src, span_directives = Inr default_directives\<rparr>])"

definition fallback_language :: language where
  "fallback_language =
     \<lparr>lang_id = Cypher, lang_split = fallback_split, lang_classify = (\<lambda>stmt. Some Unknown),
      lang_context_at = (\<lambda>src i. CtxStatement), lang_highlight = (\<lambda>src. Some [])\<rparr>"

fun language_for :: "language_id \<Rightarrow> language" where
  "language_for (LangSql Postgres) = sql_language Postgres"
| "language_for (LangSql Mysql) = sql_language Mysql"
| "language_for (LangSql Sqlite) = sql_language Sqlite"
| "language_for (LangSql Mssql) = sql_language Mssql"
| "language_for (LangSql Clickhouse) = sql_language Postgres"
| "language_for (LangSql Duckdb) = sql_language Postgres"
| "language_for MongoShell = mongo_language"
| "language_for RedisCli = redis_language"
| "language_for EsDsl = es_language"
| "language_for Cypher = fallback_language"
| "language_for PartiQl = fallback_language"
| "language_for Unclassified = fallback_language"

text \<open>\<open>StatementSpan::text\<close>.\<close>

definition span_text :: "string \<Rightarrow> statement_span \<Rightarrow> string option" where
  "span_text src s = str_slice src (span_start s) (span_end s)"

section \<open>The contract of a language\<close>

locale statement_language =
  fixes split :: "string \<Rightarrow> statement_span list option"
  assumes split_in: "split src = Some spans \<Longrightarrow> spans_in 0 spans (length src)"
begin

lemma span_bounds:
  "split src = Some spans \<Longrightarrow> s \<in> set spans \<Longrightarrow> span_start s < span_end s \<and> span_end s \<le> length src"
  using split_in spans_in_member by blast

lemma empty_text: "split [] = Some spans \<Longrightarrow> spans = []"
  using span_bounds [of "[]" spans] by (cases spans) fastforce+

lemma spans_disjoint:
  assumes "split src = Some spans" and "i < j" and "j < length spans"
  shows "span_end (spans ! i) \<le> span_start (spans ! j)"
proof -
  have "spans_in lo ss hi \<Longrightarrow> i < j \<Longrightarrow> j < length ss \<Longrightarrow> span_end (ss ! i) \<le> span_start (ss ! j)"
    for lo ss hi i j
  proof (induction ss arbitrary: lo i j)
    case (Cons s ss)
    show ?case
    proof (cases i)
      case 0
      with Cons.prems spans_in_member [of "span_end s" ss hi "ss ! (j - 1)"] show ?thesis by auto
    next
      case (Suc k)
      with Cons.prems Cons.IH [of "span_end s" k "j - 1"] show ?thesis by auto
    qed
  qed simp
  with split_in [OF assms(1)] assms(2,3) show ?thesis by blast
qed

end

lemma split_sql_in: "split_sql src d = Some spans \<Longrightarrow> spans_in 0 spans (length src)"
  using split_sql_spans_ordered by blast

lemma fallback_split_in: "fallback_split src = Some spans \<Longrightarrow> spans_in 0 spans (length src)"
  by (auto simp: fallback_split_def split: if_splits)

interpretation sql: statement_language "\<lambda>src. split_sql src d" for d
  by unfold_locales (rule split_sql_in)

interpretation redis: statement_language redis_split
  by unfold_locales (use redis_split_ordered in blast)

interpretation es: statement_language es_split
  by unfold_locales (rule es_split_ordered)

interpretation mongo: statement_language mongo_split
  by unfold_locales (use mongo_split_ordered in blast)

interpretation fallback: statement_language fallback_split
  by unfold_locales (rule fallback_split_in)

lemma language_for_contract: "statement_language (lang_split (language_for lid))"
proof -
  note contracts = sql.statement_language_axioms redis.statement_language_axioms
    es.statement_language_axioms mongo.statement_language_axioms fallback.statement_language_axioms
  show ?thesis
    by (cases lid rule: language_for.cases)
       (simp_all add: sql_language_def redis_language_def es_language_def mongo_language_def
          fallback_language_def contracts)
qed

text \<open>
  C7.  In every language the registry knows, the statements a script splits into are non-empty
  stretches of the text, inside it, in increasing order and pairwise disjoint.
\<close>

theorem language_spans:
  assumes "lang_split (language_for lid) src = Some spans"
  shows "spans_in 0 spans (length src)
    \<and> (i < j \<and> j < length spans \<longrightarrow> span_end (spans ! i) \<le> span_start (spans ! j))"
  using statement_language.split_in [OF language_for_contract assms]
    statement_language.spans_disjoint [OF language_for_contract assms] by blast

lemma language_spans_witness:
  "spans_in 0
     [\<lparr>span_start = 0, span_end = 4, span_directives = Inr default_directives\<rparr>,
      \<lparr>span_start = 5, span_end = 6, span_directives = Inr default_directives\<rparr>] 6"
proof -
  have "lang_split (language_for MongoShell) ''a(;);b'' = Some
     [\<lparr>span_start = 0, span_end = 4, span_directives = Inr default_directives\<rparr>,
      \<lparr>span_start = 5, span_end = 6, span_directives = Inr default_directives\<rparr>]"
    by code_simp
  from language_spans [OF this, of 0 1] show ?thesis by simp
qed

end
