(* ===== verification/Safety_Api.thy ===== *)
theory Safety_Api
  imports Api_Value
begin

text \<open>
  The vocabulary of safe mode, \<open>crates/datagrep-api/src/safety.rs\<close>, of requests,
  \<open>request.rs\<close>, and of errors, \<open>error.rs\<close>.
\<close>

section \<open>Safety levels and requirements\<close>

datatype safety_level = Silent | WarnAll | WarnWrites | AuthAll | AuthWrites

datatype requirement = ReqNone | ReqWarn | ReqAuthenticate

fun req_rank :: "requirement \<Rightarrow> nat" where
  "req_rank ReqNone = 0"
| "req_rank ReqWarn = 1"
| "req_rank ReqAuthenticate = 2"

instantiation requirement :: linorder
begin

definition less_eq_requirement :: "requirement \<Rightarrow> requirement \<Rightarrow> bool" where
  "less_eq_requirement a b = (req_rank a \<le> req_rank b)"

definition less_requirement :: "requirement \<Rightarrow> requirement \<Rightarrow> bool" where
  "less_requirement a b = (req_rank a < req_rank b)"

instance
proof
  fix a b :: requirement
  assume "a \<le> b" "b \<le> a"
  then show "a = b" by (cases a; cases b) (auto simp: less_eq_requirement_def)
qed (auto simp: less_eq_requirement_def less_requirement_def)

end

definition ALL_LEVELS :: "safety_level list" where
  "ALL_LEVELS = [Silent, WarnAll, WarnWrites, AuthAll, AuthWrites]"

fun level_str :: "safety_level \<Rightarrow> string" where
  "level_str Silent = ''silent''"
| "level_str WarnAll = ''warn_all''"
| "level_str WarnWrites = ''warn_writes''"
| "level_str AuthAll = ''auth_all''"
| "level_str AuthWrites = ''auth_writes''"

definition parse_level :: "string \<Rightarrow> safety_level option" where
  "parse_level s = find (\<lambda>l. level_str l = s) ALL_LEVELS"

fun requirement_of :: "safety_level \<Rightarrow> bool \<Rightarrow> requirement" where
  "requirement_of Silent read = ReqNone"
| "requirement_of WarnAll read = ReqWarn"
| "requirement_of AuthAll read = ReqAuthenticate"
| "requirement_of WarnWrites read = (if read then ReqNone else ReqWarn)"
| "requirement_of AuthWrites read = (if read then ReqNone else ReqAuthenticate)"

definition from_confirm_writes :: "bool \<Rightarrow> safety_level" where
  "from_confirm_writes c = (if c then WarnWrites else Silent)"

definition confirms_writes :: "safety_level \<Rightarrow> bool" where
  "confirms_writes l = (requirement_of l False \<noteq> ReqNone)"

fun requirement_str :: "requirement \<Rightarrow> string" where
  "requirement_str ReqNone = ''none''"
| "requirement_str ReqWarn = ''warn''"
| "requirement_str ReqAuthenticate = ''authenticate''"

definition parse_requirement :: "string \<Rightarrow> requirement option" where
  "parse_requirement s =
     (if s = ''none'' then Some ReqNone
      else if s = ''warn'' then Some ReqWarn
      else if s = ''authenticate'' then Some ReqAuthenticate
      else None)"

fun show_requirement :: "requirement \<Rightarrow> string" where
  "show_requirement ReqNone = ''nothing''"
| "show_requirement ReqWarn = ''a warning''"
| "show_requirement ReqAuthenticate = ''authentication''"

section \<open>Attestations\<close>

datatype attestation = Acknowledged | TypedPhrase string | SystemAuth string

fun strength :: "attestation \<Rightarrow> requirement" where
  "strength Acknowledged = ReqWarn"
| "strength (TypedPhrase _) = ReqAuthenticate"
| "strength (SystemAuth _) = ReqAuthenticate"

definition attestation_satisfies :: "attestation \<Rightarrow> requirement \<Rightarrow> string \<Rightarrow> bool" where
  "attestation_satisfies att req phrase =
     (if strength att < req then False
      else case att of
          Acknowledged \<Rightarrow> True
        | TypedPhrase typed \<Rightarrow> typed = phrase
        | SystemAuth how \<Rightarrow> trim how \<noteq> [])"

section \<open>Requests\<close>

datatype predicate =
    PEq "path_seg list" "db_value"
  | PNe "path_seg list" "db_value"
  | PLt "path_seg list" "db_value"
  | PLe "path_seg list" "db_value"
  | PGt "path_seg list" "db_value"
  | PGe "path_seg list" "db_value"
  | PIn "path_seg list" "db_value list"
  | PLike "path_seg list" string
  | PExists "path_seg list"
  | PIsNull "path_seg list"
  | PAnd "predicate list"
  | POr "predicate list"
  | PNot predicate

record sort_key =
  sk_path :: "path_seg list"
  sk_desc :: bool
  sk_nulls_first :: bool

record exec_opts =
  opt_timeout :: "nat option"
  opt_row_limit :: "nat option"
  opt_read_only_assert :: bool

text \<open>An \<open>ObjectPath\<close> is its parts.\<close>

type_synonym object_path = "string list"

datatype mutation =
    MUpdate object_path "(path_seg list \<times> db_value) list" "(path_seg list \<times> db_value) list"
      "(path_seg list \<times> db_value) list"
  | MInsert object_path "db_value"
  | MDelete object_path "(path_seg list \<times> db_value) list" "(path_seg list \<times> db_value) list"

datatype object_kind =
    KDatabase | KSchema | KTable | KView | KCollection | KColumn | KField | KIndex | KKey
  | KFunction | KOther

datatype ddl_op =
    DdlNative string
  | DdlDrop object_path object_kind bool
  | DdlRename object_path object_path object_kind
  | DdlCreateIndex object_path string "path_seg list list" bool bool

datatype request =
    Native string "db_value list" exec_opts
  | Operation op
and op =
    Scan object_path "predicate option" "sort_key list" "path_seg list list option" "nat option"
      "string option"
  | Count object_path "predicate option" bool
  | Mutate "mutation list"
  | Explain request bool
  | Ddl_Op ddl_op

definition show_object_path :: "object_path \<Rightarrow> string" where
  "show_object_path parts = join ''.'' parts"

section \<open>Errors\<close>

text \<open>\<open>Io\<close> and \<open>Config\<close> keep the message of the error they wrap.\<close>

datatype db_error =
    EConnect string
  | EIo string
  | ETimeout
  | ECancelled
  | EUnsupported string
  | EAuth string
  | ETls string
  | EQuery "string option" string "nat option"
  | EConflict "string option" string
  | EDriverPanic string
  | EProtocol string
  | EConfig string
  | EResourceExhausted string
  | ESafety string requirement string
  | EClosed

fun is_recoverable :: "db_error \<Rightarrow> bool" where
  "is_recoverable ETimeout = True"
| "is_recoverable ECancelled = True"
| "is_recoverable (EUnsupported _) = True"
| "is_recoverable (EQuery _ _ _) = True"
| "is_recoverable (EConflict _ _) = True"
| "is_recoverable (EConfig _) = True"
| "is_recoverable (EResourceExhausted _) = True"
| "is_recoverable (ESafety _ _ _) = True"
| "is_recoverable _ = False"

text \<open>\<open>DdlOp::rename_target\<close>.\<close>

definition rename_target :: "object_path \<Rightarrow> object_path \<Rightarrow> db_error + string" where
  "rename_target src dst =
     (if src = [] then Inl (EUnsupported ''rename from an empty object path'')
      else if dst = [] then Inl (EUnsupported ''rename to an empty object path'')
      else if butlast src \<noteq> butlast dst then
        Inl (EUnsupported (''rename moves '' @ show_object_path src @ '' to a different parent (''
               @ show_object_path dst @ ''): a rename changes the name, not the namespace''))
      else if last src = last dst then
        Inl (EUnsupported (''rename of '' @ show_object_path src @ '' to the name it already has''))
      else Inr (last dst))"

section \<open>What they promise\<close>

text \<open>
  The safety levels and requirements print to texts that parse back, and nothing else
  parses.
\<close>

theorem safety_text_roundtrip:
  "(parse_level s = Some l \<longleftrightarrow> s = level_str l)
   \<and> (parse_requirement t = Some r \<longleftrightarrow> t = requirement_str r)"
proof
  show "parse_level s = Some l \<longleftrightarrow> s = level_str l"
    by (cases l) (auto simp: parse_level_def ALL_LEVELS_def)
  show "parse_requirement t = Some r \<longleftrightarrow> t = requirement_str r"
    by (cases r) (auto simp: parse_requirement_def)
qed

text \<open>
  An attestation clears a requirement only when it is strong enough, and clears
  authentication only as the typed connection name or a named system method: an
  acknowledgement never does.
\<close>

theorem attestation_strength:
  "attestation_satisfies att req phrase =
     (req \<le> strength att
      \<and> (att = TypedPhrase phrase \<or> att = Acknowledged \<or> (\<exists>how. att = SystemAuth how \<and> trim how \<noteq> [])))"
  by (cases att) (auto simp: attestation_satisfies_def not_less)

text \<open>
  A rename is accepted exactly when it changes the last name of a path and nothing
  else, and then it returns the new name.
\<close>

theorem rename_target_iff:
  "rename_target src dst = Inr new \<longleftrightarrow>
     (\<exists>parent old. src = parent @ [old] \<and> dst = parent @ [new] \<and> old \<noteq> new)"
proof
  assume "rename_target src dst = Inr new"
  then have "src \<noteq> []" "dst \<noteq> []" "butlast src = butlast dst" "last src \<noteq> last dst" "new = last dst"
    by (auto simp: rename_target_def split: if_splits)
  then show "\<exists>parent old. src = parent @ [old] \<and> dst = parent @ [new] \<and> old \<noteq> new"
    by (metis append_butlast_last_id)
qed (auto simp: rename_target_def)

end
