(* ===== verification/Safety_Gate.thy ===== *)
theory Safety_Gate
  imports Languages Safety_Api
begin

text \<open>
  The safety gate of \<open>crates/datagrep-core/src/safety.rs\<close>, which every request passes.  It
  decides from the connection's level and the statement class what a request requires, mints
  challenges, turns an attested challenge into single-use grants, and admits a gated request
  only against a grant bound to exactly that request.

  An operation takes the gate and the time (milliseconds of the monotonic clock) and returns
  its result and the gate after it; \<open>None\<close> is a panic of the language front end.  The derived
  \<open>Debug\<close> printers, which bindings of parametrised requests use, are a parameter.
\<close>

section \<open>Data\<close>

definition CHALLENGE_TTL :: nat where "CHALLENGE_TTL = 300000"
definition GRANT_TTL :: nat where "GRANT_TTL = 120000"
definition MAX_PENDING :: nat where "MAX_PENDING = 16"
definition MAX_GRANTS :: nat where "MAX_GRANTS = 64"

record safety_statement =
  st_text :: string
  st_class :: statement_class
  st_requirement :: requirement

record safety_decision =
  dc_profile :: string
  dc_level :: safety_level
  dc_requirement :: requirement
  dc_statements :: "safety_statement list"
  dc_challenge :: "string option"

record pending =
  pe_decision :: safety_decision
  pe_bindings :: "string list"
  pe_born :: nat

record grant =
  gr_binding :: string
  gr_requirement :: requirement
  gr_born :: nat

record gate =
  gate_name :: string
  gate_language :: language_id
  gate_database :: "string option"
  gate_seed :: nat
  gate_level :: safety_level
  gate_pending :: "pending list"
  gate_grants :: "grant list"
  gate_next :: nat

record debug_printers =
  dbg_params :: "db_value list \<Rightarrow> string"
  dbg_op :: "op \<Rightarrow> string"
  dbg_ddl :: "ddl_op \<Rightarrow> string"

definition new_gate ::
  "string \<Rightarrow> language_id \<Rightarrow> string option \<Rightarrow> nat \<Rightarrow> safety_level \<Rightarrow> gate" where
  "new_gate name lid database seed level =
     \<lparr>gate_name = name, gate_language = lid, gate_database = database, gate_seed = seed,
      gate_level = level, gate_pending = [], gate_grants = [], gate_next = 1\<rparr>"

section \<open>State changes\<close>

definition prune :: "nat \<Rightarrow> gate \<Rightarrow> gate" where
  "prune now g =
     g\<lparr>gate_pending := filter (\<lambda>p. now - pe_born p < CHALLENGE_TTL) (gate_pending g),
       gate_grants := filter (\<lambda>r. now - gr_born r < GRANT_TTL) (gate_grants g)\<rparr>"

text \<open>\<open>while xs.len() > max { xs.remove(0) }\<close>.\<close>

definition keep_newest :: "nat \<Rightarrow> 'a list \<Rightarrow> 'a list" where
  "keep_newest k xs = drop (length xs - k) xs"

definition set_level :: "safety_level \<Rightarrow> gate \<Rightarrow> gate" where
  "set_level level g =
     (if gate_level g = level then g
      else g\<lparr>gate_level := level, gate_pending := [], gate_grants := []\<rparr>)"

definition challenge_id :: "nat \<Rightarrow> nat \<Rightarrow> string" where
  "challenge_id seed n = show_hex seed @ ''-'' @ show_hex n"

definition mint :: "nat \<Rightarrow> safety_decision \<Rightarrow> string list \<Rightarrow> gate \<Rightarrow> string \<times> gate" where
  "mint now decision bindings g =
     (let n = gate_next g;
          cid = challenge_id (gate_seed g) n;
          entry = \<lparr>pe_decision = decision\<lparr>dc_challenge := Some cid\<rparr>, pe_bindings = bindings,
                   pe_born = now\<rparr>;
          g1 = prune now (g\<lparr>gate_next := (n + 1) mod 2 ^ 64\<rparr>)
      in (cid, g1\<lparr>gate_pending := keep_newest MAX_PENDING (gate_pending g1 @ [entry])\<rparr>))"

section \<open>Reads\<close>

definition leaves_database :: "gate \<Rightarrow> string \<Rightarrow> bool" where
  "leaves_database g stmt =
     (case (gate_database g, gate_language g) of
        (Some current, LangSql d) \<Rightarrow> foreign_databases stmt d current \<noteq> []
      | _ \<Rightarrow> False)"

definition gate_classify :: "gate \<Rightarrow> string \<Rightarrow> statement_class option" where
  "gate_classify g stmt = lang_classify (language_for (gate_language g)) stmt"

definition stmt_is_read :: "gate \<Rightarrow> string \<Rightarrow> statement_class \<Rightarrow> bool" where
  "stmt_is_read g stmt c = (c = Read \<and> \<not> leaves_database g stmt)"

text \<open>The loop of \<open>is_read\<close> over the statements of a script.\<close>

fun spans_read :: "gate \<Rightarrow> string \<Rightarrow> statement_span list \<Rightarrow> bool \<Rightarrow> bool option" where
  "spans_read g text [] seen = Some seen"
| "spans_read g text (s # ss) seen =
     (case span_text text s of
        None \<Rightarrow> None
      | Some t \<Rightarrow>
          (let stmt = trim t in
           if stmt = [] then spans_read g text ss seen
           else case gate_classify g stmt of
               None \<Rightarrow> None
             | Some c \<Rightarrow> if \<not> stmt_is_read g stmt c then Some False else spans_read g text ss True))"

definition native_is_read :: "gate \<Rightarrow> string \<Rightarrow> bool option" where
  "native_is_read g text =
     (case lang_split (language_for (gate_language g)) text of
        None \<Rightarrow> None
      | Some spans \<Rightarrow> spans_read g text spans False)"

fun is_read :: "gate \<Rightarrow> request \<Rightarrow> bool option"
  and op_is_read :: "gate \<Rightarrow> op \<Rightarrow> bool option" where
  "is_read g (Native text params opts) = native_is_read g text"
| "is_read g (Operation op) = op_is_read g op"
| "op_is_read g (Scan _ _ _ _ _ _) = Some True"
| "op_is_read g (Count _ _ _) = Some True"
| "op_is_read g (Explain inner analyze) = (if \<not> analyze then Some True else is_read g inner)"
| "op_is_read g (Mutate _) = Some False"
| "op_is_read g (Ddl_Op _) = Some False"

section \<open>Planning\<close>

text \<open>The loop of \<open>plan\<close>: the requirement, the statements and the bindings, in order.\<close>

fun plan_spans ::
  "gate \<Rightarrow> string \<Rightarrow> statement_span list \<Rightarrow> (requirement \<times> safety_statement list) option" where
  "plan_spans g sql [] = Some (ReqNone, [])"
| "plan_spans g sql (s # ss) =
     (case span_text sql s of
        None \<Rightarrow> None
      | Some t \<Rightarrow>
          (let text = trim t in
           if text = [] then plan_spans g sql ss
           else case gate_classify g text of
               None \<Rightarrow> None
             | Some c \<Rightarrow>
                 (case plan_spans g sql ss of
                    None \<Rightarrow> None
                  | Some (req, stmts) \<Rightarrow>
                      let r = requirement_of (gate_level g) (stmt_is_read g text c)
                      in Some (max r req,
                           \<lparr>st_text = text, st_class = c, st_requirement = r\<rparr> # stmts))))"

text \<open>A script of several statements is also bound as a whole.\<close>

definition plan_bindings :: "string \<Rightarrow> safety_statement list \<Rightarrow> string list" where
  "plan_bindings sql stmts =
     map st_text stmts @ (if 1 < length stmts then [trim sql] else [])"

definition plan :: "nat \<Rightarrow> string \<Rightarrow> gate \<Rightarrow> (safety_decision \<times> gate) option" where
  "plan now sql g =
     (case lang_split (language_for (gate_language g)) sql of
        None \<Rightarrow> None
      | Some spans \<Rightarrow>
          (case plan_spans g sql spans of
             None \<Rightarrow> None
           | Some (req, stmts) \<Rightarrow>
               let decision = \<lparr>dc_profile = gate_name g, dc_level = gate_level g,
                               dc_requirement = req, dc_statements = stmts, dc_challenge = None\<rparr>
               in if ReqNone < req then
                    (let (cid, g') = mint now decision (plan_bindings sql stmts) g
                     in Some (decision\<lparr>dc_challenge := Some cid\<rparr>, g'))
                  else Some (decision, g)))"

definition pending_decisions :: "nat \<Rightarrow> gate \<Rightarrow> safety_decision list \<times> gate" where
  "pending_decisions now g =
     (let g' = prune now g in (map pe_decision (gate_pending g'), g'))"

definition has_challenge :: "string \<Rightarrow> pending \<Rightarrow> bool" where
  "has_challenge c p = (dc_challenge (pe_decision p) = Some c)"

definition decision_of :: "nat \<Rightarrow> string \<Rightarrow> gate \<Rightarrow> safety_decision option \<times> gate" where
  "decision_of now c g =
     (let g' = prune now g in (map_option pe_decision (find (has_challenge c) (gate_pending g')), g'))"

section \<open>Satisfying a challenge\<close>

definition satisfy :: "nat \<Rightarrow> string \<Rightarrow> attestation \<Rightarrow> gate \<Rightarrow> (db_error + unit) \<times> gate" where
  "satisfy now c att g0 =
     (let g = prune now g0 in
      case find_index (has_challenge c) (gate_pending g) of
        None \<Rightarrow>
          (Inl (EAuth (''no open safety challenge `'' @ c @ ''` on `'' @ gate_name g
             @ ''`: it expired, was already used, or was never issued'')), g)
      | Some i \<Rightarrow>
          (let entry = gate_pending g ! i; req = dc_requirement (pe_decision entry) in
           if \<not> attestation_satisfies att req (gate_name g) then
             (Inl (EAuth (''`'' @ gate_name g @ ''` requires '' @ show_requirement req
                @ '' and this did not provide it'')), g)
           else
             let fresh = map (\<lambda>b. \<lparr>gr_binding = b, gr_requirement = req, gr_born = now\<rparr>)
                           (pe_bindings entry)
             in (Inr (), g\<lparr>gate_pending := remove_at i (gate_pending g),
                          gate_grants := keep_newest MAX_GRANTS (gate_grants g @ fresh)\<rparr>)))"

section \<open>Admission\<close>

definition nul :: char where "nul = CHR 0x00"

definition binding_of :: "debug_printers \<Rightarrow> request \<Rightarrow> string" where
  "binding_of dbg req =
     (case req of
        Native text params opts \<Rightarrow>
          if params = [] then trim text else trim text @ [nul] @ dbg_params dbg params
      | Operation op \<Rightarrow> ''op'' @ [nul] @ dbg_op dbg op)"

definition describe_op :: "debug_printers \<Rightarrow> op \<Rightarrow> string" where
  "describe_op dbg op =
     (case op of
        Scan path _ _ _ _ _ \<Rightarrow> ''scan '' @ show_object_path path
      | Count path _ _ \<Rightarrow> ''count '' @ show_object_path path
      | Mutate ms \<Rightarrow> ''write '' @ show_nat (length ms) @ '' document(s)''
      | Explain _ _ \<Rightarrow> ''explain''
      | Ddl_Op ddl \<Rightarrow> dbg_ddl dbg ddl)"

definition decision_for ::
  "debug_printers \<Rightarrow> gate \<Rightarrow> request \<Rightarrow> requirement \<Rightarrow> safety_decision option" where
  "decision_for dbg g req r =
     (case (case req of
              Native text _ _ \<Rightarrow> map_option (\<lambda>c. (trim text, c)) (gate_classify g text)
            | Operation op \<Rightarrow>
                map_option (\<lambda>b. (describe_op dbg op, if b then Read else Write)) (op_is_read g op)) of
        None \<Rightarrow> None
      | Some (text, c) \<Rightarrow>
          Some \<lparr>dc_profile = gate_name g, dc_level = gate_level g, dc_requirement = r,
                dc_statements = [\<lparr>st_text = text, st_class = c, st_requirement = r\<rparr>],
                dc_challenge = None\<rparr>)"

definition request_requirement :: "gate \<Rightarrow> request \<Rightarrow> requirement option" where
  "request_requirement g req = map_option (requirement_of (gate_level g)) (is_read g req)"

definition clears :: "string \<Rightarrow> requirement \<Rightarrow> grant \<Rightarrow> bool" where
  "clears b r gr = (gr_binding gr = b \<and> r \<le> gr_requirement gr)"

definition admit ::
  "debug_printers \<Rightarrow> nat \<Rightarrow> request \<Rightarrow> gate \<Rightarrow> ((db_error + unit) \<times> gate) option" where
  "admit dbg now req g0 =
     (case request_requirement g0 req of
        None \<Rightarrow> None
      | Some r \<Rightarrow>
          if r = ReqNone then Some (Inr (), g0)
          else let g = prune now g0 in
               case find_index (clears (binding_of dbg req) r) (gate_grants g) of
                 Some i \<Rightarrow> Some (Inr (), g\<lparr>gate_grants := remove_at i (gate_grants g)\<rparr>)
               | None \<Rightarrow>
                   (case decision_for dbg g req r of
                      None \<Rightarrow> None
                    | Some d \<Rightarrow>
                        (let (cid, g') = mint now d [binding_of dbg req] g
                         in Some (Inl (ESafety (gate_name g) r cid), g'))))"

end
