(* ===== verification/Safety_Props.thy ===== *)
theory Safety_Props
  imports Safety_Gate
begin

text \<open>
  What the safety gate promises over any sequence of calls: \<open>gate_run\<close> is the transition
  relation of one gate together with a history of the clearances (satisfied challenges) and
  of the gated admissions since the level last changed.
\<close>

section \<open>Runs of a gate\<close>

record clearance =
  cl_time :: nat
  cl_attestation :: attestation
  cl_requirement :: requirement
  cl_bindings :: "string list"

record history =
  h_clearances :: "clearance list"
  h_admitted :: "string list"

definition no_history :: history where
  "no_history = \<lparr>h_clearances = [], h_admitted = []\<rparr>"

text \<open>The clearance a successful \<open>satisfy\<close> grants.\<close>

definition cleared_entry :: "nat \<Rightarrow> string \<Rightarrow> attestation \<Rightarrow> gate \<Rightarrow> clearance" where
  "cleared_entry now c att g =
     (let p = the (find (has_challenge c) (gate_pending (prune now g)))
      in \<lparr>cl_time = now, cl_attestation = att, cl_requirement = dc_requirement (pe_decision p),
          cl_bindings = pe_bindings p\<rparr>)"

inductive gate_step ::
  "debug_printers \<Rightarrow> nat \<Rightarrow> gate \<times> history \<Rightarrow> gate \<times> history \<Rightarrow> bool" for dbg now where
  step_plan: "plan now sql g = Some (d, g') \<Longrightarrow> gate_step dbg now (g, h) (g', h)"
| step_pending: "pending_decisions now g = (ds, g') \<Longrightarrow> gate_step dbg now (g, h) (g', h)"
| step_rejected: "satisfy now c att g = (Inl e, g') \<Longrightarrow> gate_step dbg now (g, h) (g', h)"
| step_satisfied: "satisfy now c att g = (Inr (), g') \<Longrightarrow>
    gate_step dbg now (g, h) (g', h\<lparr>h_clearances := cleared_entry now c att g # h_clearances h\<rparr>)"
| step_free: "request_requirement g req = Some ReqNone \<Longrightarrow> admit dbg now req g = Some (Inr (), g') \<Longrightarrow>
    gate_step dbg now (g, h) (g', h)"
| step_admitted: "request_requirement g req = Some r \<Longrightarrow> r \<noteq> ReqNone \<Longrightarrow>
    admit dbg now req g = Some (Inr (), g') \<Longrightarrow>
    gate_step dbg now (g, h) (g', h\<lparr>h_admitted := binding_of dbg req # h_admitted h\<rparr>)"
| step_refused: "admit dbg now req g = Some (Inl e, g') \<Longrightarrow> gate_step dbg now (g, h) (g', h)"
| step_level: "gate_step dbg now (g, h)
    (set_level l g, if gate_level g = l then h else no_history)"

inductive gate_run :: "debug_printers \<Rightarrow> nat \<Rightarrow> gate \<times> history \<Rightarrow> bool" for dbg where
  run_new: "gate_run dbg 0 (new_gate name lid db seed level, no_history)"
| run_step: "gate_run dbg t s \<Longrightarrow> t \<le> now \<Longrightarrow> gate_step dbg now s s' \<Longrightarrow> gate_run dbg now s'"

section \<open>The invariant\<close>

definition justified :: "string \<Rightarrow> nat \<Rightarrow> clearance list \<Rightarrow> grant \<Rightarrow> bool" where
  "justified name t cls gr =
     (\<exists>cl \<in> set cls. cl_time cl = gr_born gr \<and> cl_time cl \<le> t
        \<and> gr_binding gr \<in> set (cl_bindings cl) \<and> gr_requirement gr = cl_requirement cl
        \<and> attestation_satisfies (cl_attestation cl) (cl_requirement cl) name)"

definition grants_for :: "string \<Rightarrow> grant list \<Rightarrow> nat" where
  "grants_for b grs = length (filter (\<lambda>gr. gr_binding gr = b) grs)"

definition cleared_for :: "string \<Rightarrow> clearance list \<Rightarrow> nat" where
  "cleared_for b cls = sum_list (map (\<lambda>cl. count_list (cl_bindings cl) b) cls)"

definition gate_inv :: "nat \<Rightarrow> gate \<times> history \<Rightarrow> bool" where
  "gate_inv t s =
     (case s of (g, h) \<Rightarrow>
        list_all (justified (gate_name g) t (h_clearances h)) (gate_grants g)
        \<and> (\<forall>b. grants_for b (gate_grants g) + count_list (h_admitted h) b
                 \<le> cleared_for b (h_clearances h))
        \<and> length (gate_pending g) \<le> MAX_PENDING \<and> length (gate_grants g) \<le> MAX_GRANTS)"

lemma gate_invI:
  assumes "list_all (justified (gate_name g) t (h_clearances h)) (gate_grants g)"
    and "\<And>b. grants_for b (gate_grants g) + count_list (h_admitted h) b \<le> cleared_for b (h_clearances h)"
    and "length (gate_pending g) \<le> MAX_PENDING" and "length (gate_grants g) \<le> MAX_GRANTS"
  shows "gate_inv t (g, h)"
  using assms by (simp add: gate_inv_def)

lemma gate_invE:
  assumes "gate_inv t (g, h)"
  obtains "list_all (justified (gate_name g) t (h_clearances h)) (gate_grants g)"
    and "\<And>b. grants_for b (gate_grants g) + count_list (h_admitted h) b \<le> cleared_for b (h_clearances h)"
    and "length (gate_pending g) \<le> MAX_PENDING" and "length (gate_grants g) \<le> MAX_GRANTS"
  using assms by (simp add: gate_inv_def)

lemma justified_mono: "justified name t cls gr \<Longrightarrow> t \<le> t' \<Longrightarrow> set cls \<subseteq> set cls' \<Longrightarrow> justified name t' cls' gr"
  unfolding justified_def by (meson order_trans subsetD)

lemma gate_inv_time: "gate_inv t s \<Longrightarrow> t \<le> t' \<Longrightarrow> gate_inv t' s"
  unfolding gate_inv_def by (auto simp: list_all_iff intro: justified_mono)

lemma grants_for_simps [simp]:
  "grants_for b [] = 0"
  "grants_for b (xs @ ys) = grants_for b xs + grants_for b ys"
  by (simp_all add: grants_for_def)

lemma grants_for_filter: "grants_for b (filter p xs) \<le> grants_for b xs"
  by (induction xs) (auto simp: grants_for_def)

lemma grants_for_drop: "grants_for b (drop n xs) \<le> grants_for b xs"
proof -
  have "grants_for b xs = grants_for b (take n xs @ drop n xs)" by simp
  also have "\<dots> = grants_for b (take n xs) + grants_for b (drop n xs)"
    by (simp only: grants_for_simps)
  finally show ?thesis by simp
qed

lemma grants_for_keep: "grants_for b (keep_newest k xs) \<le> grants_for b xs"
  by (simp add: keep_newest_def grants_for_drop)

lemma keep_newest_length [simp]: "length (keep_newest k xs) = min k (length xs)"
  by (simp add: keep_newest_def)

lemma keep_newest_set: "set (keep_newest k xs) \<subseteq> set xs"
  by (simp add: keep_newest_def set_drop_subset)

lemma remove_at_split: "i < length xs \<Longrightarrow> xs = take i xs @ xs ! i # drop (Suc i) xs"
  by (rule id_take_nth_drop)

lemma grants_for_remove:
  assumes "i < length xs"
  shows "grants_for b xs = grants_for b (remove_at i xs) + (if gr_binding (xs ! i) = b then 1 else 0)"
  using arg_cong [OF remove_at_split [OF assms], of "grants_for b"]
  by (simp add: remove_at_def grants_for_def)

lemma prune_simps [simp]:
  "gate_name (prune now g) = gate_name g" "gate_level (prune now g) = gate_level g"
  "gate_language (prune now g) = gate_language g" "gate_database (prune now g) = gate_database g"
  "gate_next (prune now g) = gate_next g" "gate_seed (prune now g) = gate_seed g"
  by (simp_all add: prune_def)

text \<open>Shrinking the state keeps the invariant.\<close>

lemma gate_inv_shrink:
  assumes "gate_inv t (g, h)" and "gate_name g' = gate_name g"
    and "set (gate_grants g') \<subseteq> set (gate_grants g)"
    and "\<And>b. grants_for b (gate_grants g') \<le> grants_for b (gate_grants g)"
    and "length (gate_grants g') \<le> length (gate_grants g)"
    and "length (gate_pending g') \<le> MAX_PENDING"
  shows "gate_inv t (g', h)"
proof (rule gate_invE [OF assms(1)], rule gate_invI)
  assume inv: "\<And>b. grants_for b (gate_grants g) + count_list (h_admitted h) b \<le> cleared_for b (h_clearances h)"
  show "grants_for b (gate_grants g') + count_list (h_admitted h) b \<le> cleared_for b (h_clearances h)" for b
    using inv [of b] assms(4) [of b] by linarith
qed (use assms in \<open>auto simp: list_all_iff\<close>)

lemma prune_lengths:
  "length (gate_pending (prune now g)) \<le> length (gate_pending g)"
  "length (gate_grants (prune now g)) \<le> length (gate_grants g)"
  by (simp_all add: prune_def)

lemma prune_grants:
  "set (gate_grants (prune now g)) \<subseteq> set (gate_grants g)"
  "grants_for b (gate_grants (prune now g)) \<le> grants_for b (gate_grants g)"
  by (auto simp: prune_def grants_for_filter)

lemma prune_inv:
  assumes "gate_inv t (g, h)"
  shows "gate_inv t (prune now g, h)"
  using assms
proof (rule gate_inv_shrink)
  show "length (gate_pending (prune now g)) \<le> MAX_PENDING"
    using assms prune_lengths(1) [of now g] by (auto elim: gate_invE)
qed (simp_all add: prune_grants prune_lengths)

lemma mint_fields:
  assumes "mint now d bs g = (cid, g')"
  shows "gate_name g' = gate_name g" "gate_level g' = gate_level g"
    "gate_grants g' = gate_grants (prune now g)" "length (gate_pending g') \<le> MAX_PENDING"
    "cid = challenge_id (gate_seed g) (gate_next g)"
    "gate_pending g' = keep_newest MAX_PENDING (gate_pending (prune now g)
       @ [\<lparr>pe_decision = d\<lparr>dc_challenge := Some cid\<rparr>, pe_bindings = bs, pe_born = now\<rparr>])"
  using assms by (auto simp: mint_def Let_def prune_def)

lemma mint_inv:
  assumes "gate_inv t (g, h)" and "mint now d bs g = (cid, g')"
  shows "gate_inv t (g', h)"
  using prune_inv [OF assms(1), of now] mint_fields [OF assms(2)]
  by (auto simp: gate_inv_def)

lemma find_index_find: "find_index p xs = Some i \<Longrightarrow> find p xs = Some (xs ! i)"
  by (induction xs arbitrary: i) (auto split: if_splits)

lemma satisfy_ok:
  assumes "satisfy now c att g = (Inr (), g')"
  obtains i where "find_index (has_challenge c) (gate_pending (prune now g)) = Some i"
    and "attestation_satisfies att (cl_requirement (cleared_entry now c att g)) (gate_name g)"
    and "g' = (prune now g)\<lparr>gate_pending := remove_at i (gate_pending (prune now g)),
       gate_grants := keep_newest MAX_GRANTS (gate_grants (prune now g)
         @ map (\<lambda>b. \<lparr>gr_binding = b, gr_requirement = cl_requirement (cleared_entry now c att g),
             gr_born = now\<rparr>) (cl_bindings (cleared_entry now c att g)))\<rparr>"
  using assms
  by (auto simp: satisfy_def Let_def cleared_entry_def find_index_find simp del: find_index_None
      split: option.splits if_splits)

lemma grants_for_fresh:
  "grants_for b (map (\<lambda>x. \<lparr>gr_binding = x, gr_requirement = r, gr_born = n\<rparr>) bs) = count_list bs b"
  by (induction bs) (auto simp: grants_for_def)

lemma satisfied_inv:
  assumes "gate_inv now (g, h)" and "satisfy now c att g = (Inr (), g')"
  shows "gate_inv now (g', h\<lparr>h_clearances := cleared_entry now c att g # h_clearances h\<rparr>)"
proof -
  let ?cl = "cleared_entry now c att g"
  let ?fresh = "map (\<lambda>b. \<lparr>gr_binding = b, gr_requirement = cl_requirement ?cl, gr_born = now\<rparr>) (cl_bindings ?cl)"
  from assms(2) obtain i where i: "find_index (has_challenge c) (gate_pending (prune now g)) = Some i"
    and att: "attestation_satisfies att (cl_requirement ?cl) (gate_name g)"
    and g': "g' = (prune now g)\<lparr>gate_pending := remove_at i (gate_pending (prune now g)),
       gate_grants := keep_newest MAX_GRANTS (gate_grants (prune now g) @ ?fresh)\<rparr>"
    by (rule satisfy_ok)
  from prune_inv [OF assms(1), of now] have inv:
    "list_all (justified (gate_name g) now (h_clearances h)) (gate_grants (prune now g))"
    "\<And>b. grants_for b (gate_grants (prune now g)) + count_list (h_admitted h) b \<le> cleared_for b (h_clearances h)"
    "length (gate_pending (prune now g)) \<le> MAX_PENDING"
    by (auto elim: gate_invE)
  have entry: "cl_time ?cl = now" "cl_attestation ?cl = att" by (simp_all add: cleared_entry_def Let_def)
  show ?thesis
  proof (rule gate_invI)
    have "justified (gate_name g) now (?cl # h_clearances h) gr" if "gr \<in> set ?fresh" for gr
      using that att entry by (auto simp: justified_def)
    moreover have "justified (gate_name g) now (?cl # h_clearances h) gr"
      if "gr \<in> set (gate_grants (prune now g))" for gr
      using inv(1) that by (auto simp: list_all_iff intro: justified_mono)
    ultimately show "list_all (justified (gate_name g') now
        (h_clearances (h\<lparr>h_clearances := ?cl # h_clearances h\<rparr>))) (gate_grants g')"
      using keep_newest_set [of MAX_GRANTS "gate_grants (prune now g) @ ?fresh"]
      by (auto simp: g' list_all_iff)
  next
    fix b
    have "grants_for b (gate_grants g') \<le> grants_for b (gate_grants (prune now g)) + count_list (cl_bindings ?cl) b"
      using grants_for_keep [of b MAX_GRANTS "gate_grants (prune now g) @ ?fresh"]
      by (simp add: g' grants_for_fresh)
    with inv(2) [of b] show "grants_for b (gate_grants g')
        + count_list (h_admitted (h\<lparr>h_clearances := ?cl # h_clearances h\<rparr>)) b
        \<le> cleared_for b (h_clearances (h\<lparr>h_clearances := ?cl # h_clearances h\<rparr>))"
      by (simp add: cleared_for_def)
  next
    show "length (gate_pending g') \<le> MAX_PENDING"
      using inv(3) i by (simp add: g' remove_at_def)
  qed (simp add: g')
qed


lemma remove_at_shrink:
  assumes "i < length xs"
  shows "set (remove_at i xs) \<subseteq> set xs" and "length (remove_at i xs) < length xs"
  using assms by (auto simp: remove_at_def dest: in_set_takeD in_set_dropD)

text \<open>What a successful gated admission does: one clearing grant is removed.\<close>

lemma admit_ok:
  assumes "admit dbg now req g = Some (Inr (), g')"
    and "request_requirement g req = Some r" and "r \<noteq> ReqNone"
  obtains i where "i < length (gate_grants (prune now g))"
    and "clears (binding_of dbg req) r (gate_grants (prune now g) ! i)"
    and "g' = (prune now g)\<lparr>gate_grants := remove_at i (gate_grants (prune now g))\<rparr>"
  using assms
  by (auto simp: admit_def Let_def simp del: find_index_None dest: find_index_bound
      split: option.splits if_splits prod.splits)

lemma admitted_inv:
  assumes inv: "gate_inv now (g, h)" and adm: "admit dbg now req g = Some (Inr (), g')"
    and r: "request_requirement g req = Some r" "r \<noteq> ReqNone"
  shows "gate_inv now (g', h\<lparr>h_admitted := binding_of dbg req # h_admitted h\<rparr>)"
proof -
  let ?gs = "gate_grants (prune now g)"
  obtain i where i: "i < length ?gs" "clears (binding_of dbg req) r (?gs ! i)"
    and g': "g' = (prune now g)\<lparr>gate_grants := remove_at i ?gs\<rparr>"
    using adm r by (rule admit_ok)
  note shrink = remove_at_shrink [OF i(1)]
  show ?thesis
  proof (rule gate_invE [OF prune_inv [OF inv, of now]], rule gate_invI)
    fix b
    assume "\<And>b. grants_for b ?gs + count_list (h_admitted h) b \<le> cleared_for b (h_clearances h)"
    from this [of b] grants_for_remove [OF i(1), of b] i(2)
    show "grants_for b (gate_grants g')
        + count_list (h_admitted (h\<lparr>h_admitted := binding_of dbg req # h_admitted h\<rparr>)) b
        \<le> cleared_for b (h_clearances (h\<lparr>h_admitted := binding_of dbg req # h_admitted h\<rparr>))"
      by (auto simp: g' clears_def split: if_splits)
  qed (use shrink in \<open>auto simp: g' list_all_iff\<close>)
qed

lemma refused_inv:
  assumes inv: "gate_inv now (g, h)" and "admit dbg now req g = Some (Inl e, g')"
  shows "gate_inv now (g', h)"
proof -
  from assms(2) obtain d bs cid where "mint now d bs (prune now g) = (cid, g')"
    by (auto simp: admit_def Let_def simp del: find_index_None split: option.splits if_splits prod.splits)
  with prune_inv [OF inv] show ?thesis by (rule mint_inv)
qed

lemma plan_inv:
  assumes inv: "gate_inv now (g, h)" and "plan now sql g = Some (d, g')"
  shows "gate_inv now (g', h)"
proof -
  from assms(2) have "g' = g \<or> (\<exists>d bs cid. mint now d bs g = (cid, g'))"
    by (auto simp: plan_def Let_def split: option.splits if_splits prod.splits)
  with inv show ?thesis using mint_inv by blast
qed

lemma rejected_inv:
  assumes inv: "gate_inv now (g, h)" and "satisfy now c att g = (Inl e, g')"
  shows "gate_inv now (g', h)"
proof -
  from assms(2) have "g' = prune now g"
    by (auto simp: satisfy_def Let_def simp del: find_index_None split: option.splits if_splits)
  with prune_inv [OF inv] show ?thesis by simp
qed

lemma level_inv:
  assumes "gate_inv now (g, h)"
  shows "gate_inv now (set_level l g, if gate_level g = l then h else no_history)"
  using assms by (simp add: set_level_def gate_inv_def no_history_def)

lemma gate_step_inv: "gate_step dbg now s s' \<Longrightarrow> gate_inv now s \<Longrightarrow> gate_inv now s'"
proof (induction rule: gate_step.induct)
  case (step_pending g ds g' h)
  then show ?case using prune_inv by (auto simp: pending_decisions_def Let_def)
next
  case (step_free g req g' h)
  then show ?case by (auto simp: admit_def)
next
  case (step_level g h l)
  then show ?case by (rule level_inv)
qed (auto intro: plan_inv rejected_inv satisfied_inv admitted_inv refused_inv level_inv)

lemma gate_run_inv: "gate_run dbg t s \<Longrightarrow> gate_inv t s"
proof (induction rule: gate_run.induct)
  case (run_new name lid db seed level)
  show ?case by (simp add: gate_inv_def new_gate_def no_history_def)
next
  case (run_step t s now s')
  then show ?case by (blast intro: gate_step_inv gate_inv_time)
qed

section \<open>What the runs promise\<close>

lemma prune_grant_fresh: "gr \<in> set (gate_grants (prune now g)) \<Longrightarrow> now - gr_born gr < GRANT_TTL"
  by (simp add: prune_def)

lemma admission_cleared:
  assumes "gate_run dbg t (g, h)" and "t \<le> now"
    and "request_requirement g req = Some r" and "r \<noteq> ReqNone"
    and "admit dbg now req g = Some (Inr (), g')"
  shows "\<exists>cl \<in> set (h_clearances h). cl_time cl \<le> t \<and> now - cl_time cl < GRANT_TTL
    \<and> binding_of dbg req \<in> set (cl_bindings cl) \<and> r \<le> cl_requirement cl
    \<and> attestation_satisfies (cl_attestation cl) (cl_requirement cl) (gate_name g)"
proof -
  obtain i where i: "i < length (gate_grants (prune now g))"
    and clears: "clears (binding_of dbg req) r (gate_grants (prune now g) ! i)"
    using assms(5,3,4) by (rule admit_ok)
  let ?gr = "gate_grants (prune now g) ! i"
  from i have mem: "?gr \<in> set (gate_grants (prune now g))" by simp
  with prune_grants(1) have "?gr \<in> set (gate_grants g)" by blast
  with gate_run_inv [OF assms(1)] have "justified (gate_name g) t (h_clearances h) ?gr"
    by (auto simp: gate_inv_def list_all_iff)
  with clears prune_grant_fresh [OF mem] show ?thesis
    by (auto simp: justified_def clears_def)
qed

text \<open>
  No gated request runs unless a human cleared it: in any run of a gate, a request with a
  requirement that is admitted has its binding in a challenge that was satisfied less than two
  minutes ago, since the level last changed, at a requirement at least as strong and with an
  attestation that meets it.
\<close>

theorem gated_admission_justified:
  assumes "gate_run dbg t (g, h)" and "t \<le> now"
    and "request_requirement g req = Some r" and "r \<noteq> ReqNone"
    and "admit dbg now req g = Some (Inr (), g')"
  shows "\<exists>cl \<in> set (h_clearances h). cl_time cl \<le> t \<and> now - cl_time cl < GRANT_TTL
    \<and> binding_of dbg req \<in> set (cl_bindings cl) \<and> r \<le> cl_requirement cl
    \<and> attestation_satisfies (cl_attestation cl) (cl_requirement cl) (gate_name g)"
  using assms by (rule admission_cleared)

text \<open>
  C3.  Each clearance is spent at most once per statement it lists: in any run, a request has
  been admitted at most as often as the satisfied challenges since the last change of level
  listed it.
\<close>

theorem clearances_single_use:
  assumes "gate_run dbg t (g, h)"
  shows "count_list (h_admitted h) b \<le> cleared_for b (h_clearances h)"
  using gate_run_inv [OF assms] by (auto simp: gate_inv_def intro: le_trans [OF le_add2])

text \<open>
  C32.  The gate's memory is bounded: at most sixteen open challenges and sixty-four unspent
  grants, whatever the sequence of calls.
\<close>

theorem gate_bounded:
  assumes "gate_run dbg t (g, h)"
  shows "length (gate_pending g) \<le> 16 \<and> length (gate_grants g) \<le> 64"
  using gate_run_inv [OF assms] by (auto simp: gate_inv_def MAX_PENDING_def MAX_GRANTS_def)

section \<open>The preview and the gate agree\<close>






section \<open>A cleared challenge opens the gate\<close>

lemma plan_challenge:
  assumes "plan now sql g = Some (d, g')" and "dc_challenge d = Some c"
  shows "c = challenge_id (gate_seed g) (gate_next g)" and "gate_name g' = gate_name g"
    and "gate_level g' = gate_level g"
    and "\<exists>d'. dc_requirement d' = dc_requirement d \<and> dc_challenge d' = Some c \<and>
      gate_pending g' = keep_newest MAX_PENDING (gate_pending (prune now g)
        @ [\<lparr>pe_decision = d', pe_bindings = plan_bindings sql (dc_statements d), pe_born = now\<rparr>])"
proof -
  from assms obtain d0 where m: "mint now d0 (plan_bindings sql (dc_statements d)) g = (c, g')"
    and d: "d = d0\<lparr>dc_challenge := Some c\<rparr>"
  proof -
    obtain req stmts where "mint now \<lparr>dc_profile = gate_name g, dc_level = gate_level g,
        dc_requirement = req, dc_statements = stmts, dc_challenge = None\<rparr> (plan_bindings sql stmts) g = (c, g')"
      and "d = \<lparr>dc_profile = gate_name g, dc_level = gate_level g,
        dc_requirement = req, dc_statements = stmts, dc_challenge = Some c\<rparr>"
      using assms by (auto simp: plan_def Let_def split: option.splits if_splits prod.splits)
    then show ?thesis by (auto intro: that)
  qed
  show "c = challenge_id (gate_seed g) (gate_next g)" "gate_name g' = gate_name g"
    "gate_level g' = gate_level g"
    using mint_fields [OF m] by simp_all
  show "\<exists>d'. dc_requirement d' = dc_requirement d \<and> dc_challenge d' = Some c \<and>
      gate_pending g' = keep_newest MAX_PENDING (gate_pending (prune now g)
        @ [\<lparr>pe_decision = d', pe_bindings = plan_bindings sql (dc_statements d), pe_born = now\<rparr>])"
    by (rule exI [of _ d]) (use mint_fields [OF m] d in simp)
qed

lemma find_last: "(\<forall>x \<in> set xs. \<not> p x) \<Longrightarrow> p y \<Longrightarrow> find p (xs @ [y]) = Some y"
  by (induction xs) auto

lemma find_index_of_find: "find p xs = Some x \<Longrightarrow> \<exists>i. find_index p xs = Some i \<and> xs ! i = x"
proof (induction xs)
  case (Cons y ys)
  then show ?case by (cases "p y") auto
qed simp

lemma keep_newest_snoc: "0 < k \<Longrightarrow> keep_newest k (xs @ [y]) = keep_newest (k - 1) xs @ [y]"
  by (cases k) (auto simp: keep_newest_def)

text \<open>
  C31.  Clearing works: when the challenge of a previewed script is fresh, satisfying it within
  its five minutes with a sufficient attestation succeeds and leaves one grant for each of the
  script's bindings (its statements, and the script as a whole), strong enough for the
  requirement shown.
\<close>

theorem challenge_grants_bindings:
  assumes "plan now sql g = Some (d, g1)" and "dc_challenge d = Some c"
    and "list_all (\<lambda>p. \<not> has_challenge (challenge_id (gate_seed g) (gate_next g)) p) (gate_pending g)"
    and "t2 - now < CHALLENGE_TTL"
    and "attestation_satisfies att (dc_requirement d) (gate_name g)"
    and "length (plan_bindings sql (dc_statements d)) \<le> MAX_GRANTS"
  shows "\<exists>g2. satisfy t2 c att g1 = (Inr (), g2)
    \<and> list_all (\<lambda>b. list_ex (clears b (dc_requirement d)) (gate_grants g2))
        (plan_bindings sql (dc_statements d))"
proof -
  let ?bs = "plan_bindings sql (dc_statements d)"
  note ch = plan_challenge [OF assms(1,2)]
  from ch(4) obtain d' where d': "dc_requirement d' = dc_requirement d" "dc_challenge d' = Some c"
    and pend: "gate_pending g1 = keep_newest MAX_PENDING (gate_pending (prune now g)
        @ [\<lparr>pe_decision = d', pe_bindings = ?bs, pe_born = now\<rparr>])" by blast
  let ?e = "\<lparr>pe_decision = d', pe_bindings = ?bs, pe_born = now\<rparr>"
  obtain xs where xs: "gate_pending g1 = xs @ [?e]" "set xs \<subseteq> set (gate_pending g)"
  proof
    show "gate_pending g1 = keep_newest (MAX_PENDING - 1) (gate_pending (prune now g)) @ [?e]"
      by (simp add: pend keep_newest_snoc MAX_PENDING_def)
    show "set (keep_newest (MAX_PENDING - 1) (gate_pending (prune now g))) \<subseteq> set (gate_pending g)"
      using keep_newest_set [of "MAX_PENDING - 1" "gate_pending (prune now g)"]
      by (auto simp: prune_def)
  qed
  let ?P = "gate_pending (prune t2 g1)"
  have "find (has_challenge c) ?P = Some ?e"
  proof -
    have P: "?P = filter (\<lambda>p. t2 - pe_born p < CHALLENGE_TTL) xs @ [?e]"
      using assms(4) by (simp add: prune_def xs(1))
    moreover have "\<forall>p \<in> set (filter (\<lambda>p. t2 - pe_born p < CHALLENGE_TTL) xs). \<not> has_challenge c p"
      using xs(2) assms(3) by (auto simp: list_all_iff ch(1))
    moreover have "has_challenge c ?e" using d'(2) by (simp add: has_challenge_def)
    ultimately show ?thesis unfolding P by (intro find_last)
  qed
  from find_index_of_find [OF this] obtain i
    where i: "find_index (has_challenge c) ?P = Some i" "?P ! i = ?e" by (elim exE conjE)
  define fresh where "fresh = map (\<lambda>b. \<lparr>gr_binding = b, gr_requirement = dc_requirement d, gr_born = t2\<rparr>) ?bs"
  define g2 where "g2 = (prune t2 g1)\<lparr>gate_pending := remove_at i ?P,
      gate_grants := keep_newest MAX_GRANTS (gate_grants (prune t2 g1) @ fresh)\<rparr>"
  have "satisfy t2 c att g1 = (Inr (), g2)"
    using i assms(5) d'(1) ch(2) by (simp add: satisfy_def Let_def g2_def fresh_def)
  moreover have "set fresh \<subseteq> set (gate_grants g2)"
    using assms(6) by (simp add: g2_def fresh_def keep_newest_def)
  then have "list_all (\<lambda>b. list_ex (clears b (dc_requirement d)) (gate_grants g2)) ?bs"
  proof (unfold list_all_iff list_ex_iff, intro ballI)
    fix b assume sub: "set fresh \<subseteq> set (gate_grants g2)" and "b \<in> set ?bs"
    then have "\<lparr>gr_binding = b, gr_requirement = dc_requirement d, gr_born = t2\<rparr> \<in> set (gate_grants g2)"
      by (intro subsetD [OF sub]) (simp add: fresh_def)
    then show "\<exists>gr \<in> set (gate_grants g2). clears b (dc_requirement d) gr"
      by (rule bexI [rotated]) (simp add: clears_def)
  qed
  ultimately show ?thesis by (intro exI conjI)
qed

section \<open>The theorems at concrete inputs\<close>

text \<open>A gate on a confirm-writes connection, and a request that writes nothing but is gated.\<close>

definition sample_gate :: gate where
  "sample_gate = new_gate ''db'' MongoShell None 7 WarnWrites"

definition sample_printers :: debug_printers where
  "sample_printers = \<lparr>dbg_params = (\<lambda>_. ''p''), dbg_op = (\<lambda>_. ''o''), dbg_ddl = (\<lambda>_. ''d'')\<rparr>"

definition sample_refused :: gate where
  "sample_refused = snd (the (admit sample_printers 1000 (Operation (Mutate [])) sample_gate))"

definition sample_cleared :: gate where
  "sample_cleared = snd (satisfy 2000 ''7-1'' Acknowledged sample_refused)"

definition sample_clearance :: clearance where
  "sample_clearance = cleared_entry 2000 ''7-1'' Acknowledged sample_refused"

lemmas sample_eval = sample_gate_def sample_refused_def sample_cleared_def sample_clearance_def
  sample_printers_def new_gate_def admit_def request_requirement_def satisfy_def mint_def
  prune_def keep_newest_def challenge_id_def has_challenge_def decision_for_def cleared_entry_def
  binding_of_def clears_def remove_at_def attestation_satisfies_def less_requirement_def
  less_eq_requirement_def MAX_PENDING_def MAX_GRANTS_def CHALLENGE_TTL_def GRANT_TTL_def Let_def

lemma sample_ids: "show_hex 7 = ''7''" "show_hex 1 = ''1''"
  by code_simp+

lemma sample_run:
  "gate_run sample_printers 2000 (sample_cleared, no_history\<lparr>h_clearances := [sample_clearance]\<rparr>)"
proof -
  have "gate_run sample_printers 0 (sample_gate, no_history)"
    unfolding sample_gate_def by (rule run_new)
  moreover have "\<exists>e. admit sample_printers 1000 (Operation (Mutate [])) sample_gate = Some (Inl e, sample_refused)"
    by (simp add: sample_eval)
  then have "gate_step sample_printers 1000 (sample_gate, no_history) (sample_refused, no_history)"
    by (auto intro: step_refused)
  ultimately have "gate_run sample_printers 1000 (sample_refused, no_history)"
    by (auto intro: run_step)
  moreover have "satisfy 2000 ''7-1'' Acknowledged sample_refused = (Inr (), sample_cleared)"
    by (simp add: sample_eval sample_ids sample_ids [unfolded One_nat_def])
  from step_satisfied [OF this, of sample_printers no_history]
  have "gate_step sample_printers 2000 (sample_refused, no_history)
      (sample_cleared, no_history\<lparr>h_clearances := [sample_clearance]\<rparr>)"
    by (simp add: sample_clearance_def no_history_def)
  ultimately show ?thesis by (auto intro: run_step)
qed

lemma gated_admission_justified_witness:
  "\<exists>cl \<in> {sample_clearance}. 3000 - cl_time cl < GRANT_TTL
     \<and> binding_of sample_printers (Operation (Mutate [])) \<in> set (cl_bindings cl)"
proof -
  have "request_requirement sample_cleared (Operation (Mutate [])) = Some ReqWarn"
    "\<exists>g. admit sample_printers 3000 (Operation (Mutate [])) sample_cleared = Some (Inr (), g)"
    by (simp_all add: sample_eval sample_ids sample_ids [unfolded One_nat_def])
  then show ?thesis
    using gated_admission_justified [OF sample_run, of 3000 "Operation (Mutate [])" ReqWarn]
    by (auto simp: no_history_def)
qed

lemma clearances_single_use_witness:
  "count_list ([] :: string list) ''x'' \<le> cleared_for ''x'' [sample_clearance]"
  using clearances_single_use [OF sample_run, of "''x''"] by (simp add: no_history_def)

lemma gate_bounded_witness:
  "length (gate_pending sample_cleared) \<le> 16 \<and> length (gate_grants sample_cleared) \<le> 64"
  by (rule gate_bounded [OF sample_run])

definition sample_plan :: "safety_decision \<times> gate" where
  "sample_plan = the (plan 1000 ''db.a.drop()'' sample_gate)"

lemma sample_spans:
  "lang_split (language_for MongoShell) ''db.a.drop()'' =
     Some [\<lparr>span_start = 0, span_end = 11, span_directives = Inr default_directives\<rparr>]"
  "lang_classify (language_for MongoShell) ''db.a.drop()'' = Some Ddl"
  "trim ''db.a.drop()'' = ''db.a.drop()''"
  "span_text ''db.a.drop()'' \<lparr>span_start = 0, span_end = 11, span_directives = Inr default_directives\<rparr>
     = Some ''db.a.drop()''"
  by code_simp+

lemma sample_plan_facts:
  "plan 1000 ''db.a.drop()'' sample_gate = Some (fst sample_plan, snd sample_plan)"
  "dc_statements (fst sample_plan) \<noteq> []" "dc_challenge (fst sample_plan) = Some ''7-1''"
  "dc_requirement (fst sample_plan) = ReqWarn" "length (dc_statements (fst sample_plan)) = 1"
  by (simp_all add: sample_plan_def plan_def sample_spans [unfolded language_for.simps] gate_classify_def stmt_is_read_def
      sample_eval sample_ids sample_ids [unfolded One_nat_def] max_def)


lemma challenge_grants_bindings_witness:
  "\<exists>g2. satisfy 2000 ''7-1'' Acknowledged (snd sample_plan) = (Inr (), g2)"
proof -
  have "list_all (\<lambda>p. \<not> has_challenge (challenge_id (gate_seed sample_gate) (gate_next sample_gate)) p)
      (gate_pending sample_gate)"
    "(2000::nat) - 1000 < CHALLENGE_TTL"
    "attestation_satisfies Acknowledged (dc_requirement (fst sample_plan)) (gate_name sample_gate)"
    "length (plan_bindings ''db.a.drop()'' (dc_statements (fst sample_plan))) \<le> MAX_GRANTS"
    using sample_plan_facts(4,5) by (simp_all add: sample_eval plan_bindings_def)
  from challenge_grants_bindings [OF sample_plan_facts(1,3) this] show ?thesis by (elim exE conjE) (rule exI)
qed

end
