(* ===== verification/Value_Text.thy ===== *)
theory Value_Text
  imports Mongo_Parser Safety_Api
begin

text \<open>
  How a value prints: \<open>display_value\<close> and its helpers of
  \<open>crates/datagrep-core/src/convert.rs\<close>.  The date printer is inverse to the date reader of
  the mongo-shell language (\<open>Mongo_Parser.days_from_civil\<close>), which the last section proves.
\<close>

section \<open>Padded numbers\<close>

text \<open>\<open>{:0w}\<close> of an integer, the sign counted in the width, and \<open>{:02x}\<close> of a byte.\<close>

definition zero_pad :: "nat \<Rightarrow> string \<Rightarrow> string" where
  "zero_pad w s = replicate (w - length s) (CHR ''0'') @ s"

definition pad_int :: "nat \<Rightarrow> int \<Rightarrow> string" where
  "pad_int w i =
     (if i < 0 then CHR ''-'' # zero_pad (w - 1) (show_nat (nat (- i)))
      else zero_pad w (show_nat (nat i)))"

definition hex_byte :: "char \<Rightarrow> string" where
  "hex_byte c = zero_pad 2 (show_hex (bval c))"

text \<open>\<open>as i32\<close> of an \<open>i64\<close>.\<close>

definition as_i32 :: "int \<Rightarrow> int" where
  "as_i32 i = (i + 2 ^ 31) mod 2 ^ 32 - 2 ^ 31"

section \<open>Dates and times\<close>

definition civil_from_days :: "int \<Rightarrow> int \<times> int \<times> int" where
  "civil_from_days days =
     (let z = days + 719468;
          era = z div 146097;
          doe = z mod 146097;
          yoe = (doe - doe div 1460 + doe div 36524 - doe div 146096) div 365;
          y = yoe + era * 400;
          doy = doe - (365 * yoe + yoe div 4 - yoe div 100);
          mp = (5 * doy + 2) div 153;
          d = doy - (153 * mp + 2) div 5 + 1;
          m = (if mp < 10 then mp + 3 else mp - 9)
      in (if m \<le> 2 then y + 1 else y, m, d))"

definition write_date :: "int \<Rightarrow> string" where
  "write_date days =
     (case civil_from_days days of (y, m, d) \<Rightarrow>
        pad_int 4 y @ ''-'' @ pad_int 2 m @ ''-'' @ pad_int 2 d)"

definition write_time :: "int \<Rightarrow> string" where
  "write_time nanos =
     (let n = nanos mod 86400000000000;
          h = n div 3600000000000; r1 = n mod 3600000000000;
          m = r1 div 60000000000; r2 = r1 mod 60000000000;
          s = r2 div 1000000000; frac = r2 mod 1000000000
      in pad_int 2 h @ '':'' @ pad_int 2 m @ '':'' @ pad_int 2 s
         @ (if frac \<noteq> 0 then ''.'' @ pad_int 9 frac else []))"

fun tz_name :: "tz_spec \<Rightarrow> string option" where
  "tz_name TzNaive = None"
| "tz_name TzUtc = Some ''UTC''"
| "tz_name (TzNamed n) = Some n"
| "tz_name (TzOffset mins) =
     (let m = \<bar>mins\<bar>
      in Some ((if mins < 0 then CHR ''-'' else CHR ''+'') # pad_int 2 (m div 60) @ '':'' @ pad_int 2 (m mod 60)))"

definition write_zone :: "tz_spec \<Rightarrow> string" where
  "write_zone tz =
     (case tz of
        TzNaive \<Rightarrow> []
      | TzUtc \<Rightarrow> ''Z''
      | TzNamed n \<Rightarrow> ''['' @ n @ '']''
      | TzOffset mins \<Rightarrow> (case tz_name tz of Some name \<Rightarrow> name | None \<Rightarrow> []))"

definition write_timestamp :: "int \<Rightarrow> tz_spec \<Rightarrow> string" where
  "write_timestamp micros tz =
     (let days = micros div 86400000000; rem = micros mod 86400000000
      in write_date (as_i32 days) @ ''T'' @ write_time (rem * 1000) @ write_zone tz)"

section \<open>Values\<close>

definition write_points :: "(f64 \<times> f64) list \<Rightarrow> string" where
  "write_points ps = ''('' @ join '', '' (map (\<lambda>(x, y). x @ '' '' @ y) ps) @ '')''"

fun write_geometry :: "geometry \<Rightarrow> string" where
  "write_geometry (GeoPoint x y) = ''POINT('' @ x @ '' '' @ y @ '')''"
| "write_geometry (GeoLineString ps) = ''LINESTRING'' @ write_points ps"
| "write_geometry (GeoPolygon rings) = ''POLYGON('' @ join '', '' (map write_points rings) @ '')''"
| "write_geometry (GeoRaw wkb) = ''WKB['' @ show_nat (length wkb) @ '' bytes]''"

text \<open>A dash before the bytes 4, 6, 8 and 10 of a UUID.\<close>

definition write_uuid :: "string \<Rightarrow> string" where
  "write_uuid b =
     concat (map (\<lambda>i. (if i \<in> {4, 6, 8, 10} then ''-'' else []) @ hex_byte (b ! i)) [0..<length b])"

text \<open>\<open>write_value\<close>: \<open>None\<close> is the value without a text, which prints as \<open>null\<close> inside
  a container.\<close>

definition or_null :: "string option \<Rightarrow> string" where
  "or_null t = (case t of None \<Rightarrow> ''null'' | Some s \<Rightarrow> s)"

fun display_value :: "db_value \<Rightarrow> string option" where
  "display_value VNull = None"
| "display_value VAbsent = None"
| "display_value (VBool b) = Some (if b then ''true'' else ''false'')"
| "display_value (VI64 n) = Some (show_int n)"
| "display_value (VU64 n) = Some (show_nat n)"
| "display_value (VF64 x) = Some x"
| "display_value (VDecimal s) = Some s"
| "display_value (VStr s) = Some s"
| "display_value (VJson s) = Some s"
| "display_value (VBytes b) = Some (''0x'' @ concat (map hex_byte b))"
| "display_value (VDate days) = Some (write_date days)"
| "display_value (VTime nanos) = Some (write_time nanos)"
| "display_value (VTimestamp micros tz) = Some (write_timestamp micros tz)"
| "display_value (VInterval months days nanos) =
     Some (show_int months @ '' mons '' @ show_int days @ '' days '' @ show_int nanos @ '' ns'')"
| "display_value (VUuid b) = Some (write_uuid b)"
| "display_value (VArray items) =
     Some (''['' @ join '', '' (map (\<lambda>v. or_null (display_value v)) items) @ '']'')"
| "display_value (VDocument fs) =
     Some (''{'' @ join '', '' (map (\<lambda>(k, v). k @ '': '' @ or_null (display_value v)) fs) @ ''}'')"
| "display_value (VRef target ks) =
     Some (show_object_path target @ ''#'' @ join '','' (map (\<lambda>v. or_null (display_value v)) ks))"
| "display_value (VGeo g) = Some (write_geometry g)"
| "display_value (VVector items) = Some (''['' @ join '', '' items @ '']'')"
| "display_value (VUnsupported type_name raw display) = Some display"

section \<open>Printing is inverse to reading\<close>

lemma int_div_eq:
  fixes a b q :: int
  assumes "b * q \<le> a" and "a < b * q + b"
  shows "a div b = q"
  using assms by (intro int_div_pos_eq [of _ _ _ "a - b * q"]) auto

text \<open>
  The day within an era in centuries, quadrennia, years and days: only the last day of an era
  has century four, and only the last day of a quadrennium has year four.
\<close>

lemma year_of_era:
  fixes doe :: int
  assumes "0 \<le> doe" and "doe < 146097"
  defines "yoe \<equiv> (doe - doe div 1460 + doe div 36524 - doe div 146096) div 365"
  shows "0 \<le> yoe \<and> yoe \<le> 399 \<and> 0 \<le> doe - (365 * yoe + yoe div 4 - yoe div 100)
    \<and> doe - (365 * yoe + yoe div 4 - yoe div 100) \<le> 365"
proof (cases "doe = 146096")
  case True
  then have "yoe = 399" unfolding yoe_def by simp
  with True show ?thesis by simp
next
  case False
  define c r where "c = doe div 36524" and "r = doe mod 36524"
  define q s where "q = r div 1461" and "s = r mod 1461"
  define t where "t = (if s = 1460 then 3 else s div 365)"
  have doe: "doe = 36524 * c + 1461 * q + s" unfolding c_def q_def s_def r_def by simp
  have r: "0 \<le> r" "r < 36524" and s: "0 \<le> s" "s < 1461" unfolding r_def s_def by simp_all
  have cr: "doe = 36524 * c + r" and rqs: "r = 1461 * q + s"
    unfolding c_def r_def q_def s_def by simp_all
  have c: "0 \<le> c" "c \<le> 3" using assms(1,2) False r cr by linarith+
  have q: "0 \<le> q" "q \<le> 24" using r s rqs by linarith+
  have t: "0 \<le> t \<and> t \<le> 3 \<and> 365 * t \<le> s \<and> s - 365 * t \<le> 365 \<and> (s < 1460 \<longrightarrow> s - 365 * t < 365)"
  proof (cases "s = 1460")
    case False
    define k where "k = s div 365"
    have "365 * k \<le> s" "s < 365 * k + 365" using s unfolding k_def by simp_all
    with False s show ?thesis by (simp add: t_def k_def [symmetric])
  qed (simp add: t_def)
  define e where "e = (if 24 * c + q + s < 1460 then 0 else 1 :: int)"
  have "doe div 1460 = 25 * c + q + e"
    using doe s c q unfolding e_def by (intro int_div_eq) (auto split: if_splits)
  moreover have "doe div 36524 = c" unfolding c_def ..
  moreover have "doe div 146096 = 0" using assms(1,2) False by (intro div_pos_pos_trivial) auto
  ultimately have "yoe = (365 * (100 * c + 4 * q) + (s - e)) div 365"
    unfolding yoe_def doe by (simp add: algebra_simps)
  also have "\<dots> = 100 * c + 4 * q + t"
  proof (rule int_div_eq)
    show "365 * (100 * c + 4 * q + t) \<le> 365 * (100 * c + 4 * q) + (s - e)"
      using t s c q unfolding e_def by (cases "s = 1460") (auto split: if_splits)
    show "365 * (100 * c + 4 * q) + (s - e) < 365 * (100 * c + 4 * q + t) + 365"
      using t s c q unfolding e_def by (cases "s = 1460") (auto split: if_splits)
  qed
  finally have yoe: "yoe = 100 * c + 4 * q + t" .
  have "yoe div 4 = 25 * c + q" unfolding yoe using t c q by (intro int_div_eq) auto
  moreover have "yoe div 100 = c" unfolding yoe using t c q by (intro int_div_eq) auto
  ultimately show ?thesis using yoe doe t c q by auto
qed

lemma month_of_year:
  fixes doy :: int
  assumes "0 \<le> doy" and "doy \<le> 365"
  defines "mp \<equiv> (5 * doy + 2) div 153"
  defines "d \<equiv> doy - (153 * mp + 2) div 5 + 1"
  shows "0 \<le> mp \<and> mp \<le> 11 \<and> 1 \<le> d \<and> d \<le> 31"
proof -
  define k where "k = (153 * mp + 2) div 5"
  have mp: "153 * mp \<le> 5 * doy + 2" "5 * doy + 2 < 153 * mp + 153" unfolding mp_def by simp_all
  have k: "5 * k \<le> 153 * mp + 2" "153 * mp + 2 < 5 * k + 5" unfolding k_def by simp_all
  from mp k assms(1,2) show ?thesis unfolding d_def k_def [symmetric] by auto
qed

text \<open>
  The civil date a day number prints as is a date of the calendar (a month from 1 to 12, a
  day from 1 to 31), and the date reader takes it back to the same day number, for every day
  before and after the epoch.
\<close>

theorem civil_date_roundtrip:
  "case civil_from_days days of (y, m, d) \<Rightarrow>
     days_from_civil y m d = days \<and> 1 \<le> m \<and> m \<le> 12 \<and> 1 \<le> d \<and> d \<le> 31"
proof -
  define era doe where "era = (days + 719468) div 146097" and "doe = (days + 719468) mod 146097"
  define yoe where "yoe = (doe - doe div 1460 + doe div 36524 - doe div 146096) div 365"
  define doy where "doy = doe - (365 * yoe + yoe div 4 - yoe div 100)"
  define mp where "mp = (5 * doy + 2) div 153"
  define d where "d = doy - (153 * mp + 2) div 5 + 1"
  define m where "m = (if mp < 10 then mp + 3 else mp - 9)"
  define y where "y = yoe + era * 400"
  have days: "era * 146097 + doe = days + 719468" unfolding era_def doe_def by simp
  have "0 \<le> doe" "doe < 146097" unfolding doe_def by simp_all
  from year_of_era [OF this] have yoe: "0 \<le> yoe" "yoe \<le> 399" and doy: "0 \<le> doy" "doy \<le> 365"
    unfolding doy_def yoe_def by simp_all
  from month_of_year [OF doy] have mp: "0 \<le> mp" "mp \<le> 11" and d: "1 \<le> d" "d \<le> 31"
    unfolding d_def mp_def by simp_all
  have m: "1 \<le> m" "m \<le> 12" "(m + 9) mod 12 = mp"
    using mp unfolding m_def by (auto simp: mod_pos_pos_trivial)
  have e: "y div 400 = era" unfolding y_def using yoe by (intro int_div_eq) auto
  have "days_from_civil (if m \<le> 2 then y + 1 else y) m d = days"
  proof -
    have y0: "(if m \<le> 2 then (if m \<le> 2 then y + 1 else y) - 1 else (if m \<le> 2 then y + 1 else y)) = y"
      by simp
    have yo: "y - era * 400 = yoe" unfolding y_def by simp
    have sum: "era * 146097 + (yoe * 365 + A - B + (K + (doe - (365 * yoe + A - B) - K + 1) - 1)) - 719468 = days"
      for A B K :: int using days by simp
    show ?thesis
      unfolding days_from_civil_def Let_def y0 trunc_era e m(3) yo d_def doy_def by (rule sum)
  qed
  moreover have "civil_from_days days = (if m \<le> 2 then y + 1 else y, m, d)"
    unfolding civil_from_days_def Let_def era_def doe_def yoe_def doy_def mp_def d_def m_def y_def by (rule refl)
  ultimately show ?thesis using m d by simp
qed

section \<open>Timestamps print and read back\<close>

definition padded :: "nat \<Rightarrow> nat \<Rightarrow> string" where
  "padded w n = zero_pad w (show_nat n)"

lemma pad_int_padded: "0 \<le> i \<Longrightarrow> pad_int w i = padded w (nat i)"
  by (simp add: pad_int_def padded_def)

lemma length_show_digits: "n < f \<Longrightarrow> n < 10 ^ w \<Longrightarrow> 0 < w \<Longrightarrow> length (show_digits f 10 n) \<le> w"
proof (induction f arbitrary: n w)
  case (Suc f)
  show ?case
  proof (cases "n < 10")
    case False
    then obtain v where w: "w = Suc v" "0 < v"
      using Suc.prems by (cases w; cases "w - 1") auto
    have "n div 10 < 10 ^ v" using Suc.prems(2) w by (simp add: div_less_iff_less_mult mult.commute)
    with Suc.IH [of "n div 10" v] Suc.prems False w show ?thesis by simp
  qed (use Suc.prems in simp)
qed simp

lemma length_show_nat: "n < 10 ^ w \<Longrightarrow> 0 < w \<Longrightarrow> length (show_nat n) \<le> w"
  unfolding show_nat_def by (rule length_show_digits) auto

lemma padded_length: "n < 10 ^ w \<Longrightarrow> 0 < w \<Longrightarrow> length (padded w n) = w"
  using length_show_nat [of n w] by (simp add: padded_def zero_pad_def)

lemma padded_digits: "list_all is_ascii_digit (padded w n)"
proof -
  have "is_ascii_digit (CHR ''0'')" by code_simp
  then show ?thesis using show_nat_digits(1) [of n]
    by (auto simp: padded_def zero_pad_def list_all_iff)
qed

lemma digits_value_zeros: "digits_value (replicate k (CHR ''0'') @ s) = digits_value s"
proof (induction k)
  case (Suc k)
  have "bval (CHR ''0'') - 48 = 0" by code_simp
  with Suc show ?case by (simp add: digits_value_def)
qed simp

lemma padded_value: "digits_value (padded w n) = n"
  by (simp add: padded_def zero_pad_def digits_value_zeros)

lemma digit_ascii: "is_ascii_digit c \<Longrightarrow> bval c < 128 \<and> \<not> ws_single (bval c) \<and> c \<noteq> CHR ''+'' \<and> c \<noteq> CHR ''-''"
  by (auto simp: is_ascii_digit_def in_interval_def ws_single_def bval_def)

lemma parse_signed_digits:
  assumes "s \<noteq> []" and "list_all is_ascii_digit s" and "digits_value s < 2 ^ (k - 1)"
  shows "parse_signed k s = Some (int (digits_value s))"
proof -
  obtain c r where s: "s = c # r" using assms(1) by (cases s) auto
  with assms(2) digit_ascii [of c] have "c \<noteq> CHR ''+''" "c \<noteq> CHR ''-''" by auto
  with s assms show ?thesis by (simp add: parse_signed_def Let_def)
qed

lemma parse_padded:
  assumes "n < 10 ^ w" and "0 < w" and "n < 2 ^ 63"
  shows "parse_signed 64 (padded w n) = Some (int n)"
  using assms padded_length [OF assms(1,2)] padded_digits [of w n]
  by (subst parse_signed_digits) (auto simp: padded_value)

lemma show_nat_tens:
  assumes "0 < n"
  shows "show_nat (n * 10) = show_nat n @ ''0''"
proof -
  have more: "show_digits f 10 m = show_digits g 10 m" if "m < f" "m < g" for f g m :: nat
    using that
  proof (induction f arbitrary: g m)
    case (Suc f)
    then obtain h where g: "g = Suc h" by (cases g) auto
    show ?case
    proof (cases "m < 10")
      case False
      then have "m div 10 < f" "m div 10 < h" using Suc.prems g by auto
      from Suc.IH [OF this] False g show ?thesis by simp
    qed (simp add: g)
  qed simp
  have "show_nat (n * 10) = show_digits (n * 10) 10 n @ [char_of (48 :: nat)]"
    using assms by (simp add: show_nat_def)
  also have "show_digits (n * 10) 10 n = show_nat n"
    unfolding show_nat_def using assms by (intro more) auto
  also have "char_of (48 :: nat) = CHR ''0''" by code_simp
  finally show ?thesis .
qed

lemma padded_tens:
  assumes "n < 10 ^ w" and "0 < w"
  shows "padded (Suc w) (n * 10) = padded w n @ ''0''"
proof (cases "n = 0")
  case True
  have "show_nat 0 = ''0''" by code_simp
  with True assms show ?thesis by (cases w) (auto simp: padded_def zero_pad_def replicate_append_same)
next
  case False
  with assms length_show_nat [of n w] show ?thesis
    by (auto simp: padded_def zero_pad_def show_nat_tens)
qed

lemma padded_thousands:
  assumes "n < 10 ^ 6"
  shows "padded 9 (n * 1000) = padded 6 n @ ''000''"
proof -
  have "padded (Suc 6) (n * 10) = padded 6 n @ ''0''" using assms by (intro padded_tens) auto
  moreover have "padded (Suc (Suc 6)) (n * 10 * 10) = padded (Suc 6) (n * 10) @ ''0''"
    using assms by (intro padded_tens) auto
  moreover have "padded (Suc (Suc (Suc 6))) (n * 10 * 10 * 10) = padded (Suc (Suc 6)) (n * 10 * 10) @ ''0''"
    using assms by (intro padded_tens) auto
  ultimately show ?thesis by (simp add: mult.commute)
qed

lemma str_slice_ascii:
  assumes "list_all (\<lambda>c. bval c < 128) s" and "a \<le> b" and "b \<le> length s"
  shows "str_slice s a b = Some (slice s a b)"
proof -
  have "is_char_boundary s i" if "i \<le> length s" for i
  proof (cases "i = length s")
    case False
    with that assms(1) show ?thesis by (intro ascii_char_boundary) (auto simp: list_all_length)
  qed (simp add: is_char_boundary_def)
  with assms show ?thesis by (simp add: str_slice_def)
qed

lemma trim_ascii_ends:
  assumes "bval c < 128 \<and> \<not> ws_single (bval c)" and "bval z < 128 \<and> \<not> ws_single (bval z)"
  shows "trim (c # s @ [z]) = c # s @ [z]"
proof -
  have "ws_len_rev (z # t) = 0" for t
    using assms(2) by (cases "z # t" rule: ws_len_rev.cases) (auto simp: ws_pair_def ws_triple_def)
  then have "trim_rev (z # t) = z # t" for t by (simp add: trim_rev.simps [of "z # t"])
  moreover have "ws_len (c # t) = 0" for t using assms(1) by (intro ws_len_ascii) auto
  then have "trim_start (c # t) = c # t" for t by (simp add: trim_start.simps [of "c # t"])
  ultimately show ?thesis by (simp add: trim_def trim_end_def)
qed

lemma list2: "length s = 2 \<Longrightarrow> \<exists>a b. s = [a, b]"
  by (auto simp: length_Suc_conv numeral_2_eq_2)

lemma list4: "length s = 4 \<Longrightarrow> \<exists>a b c d. s = [a, b, c, d]"
  by (auto simp: length_Suc_conv numeral_eq_Suc)

text \<open>The fraction a time prints with, and its reading.\<close>

definition fraction :: "nat \<Rightarrow> string" where
  "fraction us = (if us \<noteq> 0 then CHR ''.'' # padded 9 (us * 1000) else [])"

lemma parse_fraction_written:
  assumes "us < 10 ^ 6"
  shows "parse_fraction (fraction us @ ''Z'') = Some (int us, ''Z'')"
proof (cases "us = 0")
  case True
  then show ?thesis by (simp add: fraction_def parse_fraction_def strip_prefix_def)
next
  case False
  have z: "\<not> is_ascii_digit (CHR ''Z'')" by code_simp
  have len: "length (padded 9 (us * 1000)) = 9" using assms by (intro padded_length) auto
  have "takeWhile is_ascii_digit (padded 9 (us * 1000) @ ''Z'') = padded 9 (us * 1000)"
    using padded_digits [of 9 "us * 1000"] z by (simp add: takeWhile_append list_all_iff)
  moreover have "micros_of (padded 9 (us * 1000)) = padded 6 us"
    using assms padded_length [of us 6] by (simp add: micros_of_def len padded_thousands)
  moreover have "parse_signed 64 (padded 6 us) = Some (int us)"
    using assms by (intro parse_padded) auto
  moreover have "padded 9 (us * 1000) \<noteq> []" using len by auto
  ultimately show ?thesis
    using False len by (simp add: fraction_def parse_fraction_def strip_prefix_def Let_def)
qed

lemma fraction_ascii: "list_all (\<lambda>c. bval c < 128) (fraction us)"
proof -
  have "bval (CHR ''.'') < 128" by code_simp
  with padded_digits [of 9 "us * 1000"] show ?thesis
    by (auto simp: fraction_def list_all_iff digit_ascii)
qed

lemma padded_ascii: "list_all (\<lambda>c. bval c < 128) (padded w n)"
  using padded_digits [of w n] by (auto simp: list_all_iff digit_ascii)

lemma write_time_padded:
  fixes h m s us :: nat
  assumes "h < 24" "m < 60" "s < 60" "us < 10 ^ 6"
  shows "write_time ((((int h * 60 + int m) * 60 + int s) * 1000000 + int us) * 1000)
    = padded 2 h @ '':'' @ padded 2 m @ '':'' @ padded 2 s @ fraction us"
proof -
  define n where "n = (((int h * 60 + int m) * 60 + int s) * 1000000 + int us) * 1000"
  define r1 r2 where "r1 = ((int m * 60 + int s) * 1000000 + int us) * 1000"
    and "r2 = (int s * 1000000 + int us) * 1000"
  have day: "n mod 86400000000000 = n" using assms unfolding n_def by (intro mod_pos_pos_trivial) auto
  have h: "n div 3600000000000 = int h" using assms unfolding n_def by (intro int_div_eq) auto
  have h': "n mod 3600000000000 = r1"
    using minus_mult_div_eq_mod [of n 3600000000000] unfolding h unfolding n_def r1_def by simp
  have m: "r1 div 60000000000 = int m" using assms unfolding r1_def by (intro int_div_eq) auto
  have m': "r1 mod 60000000000 = r2"
    using minus_mult_div_eq_mod [of r1 60000000000] unfolding m unfolding r1_def r2_def by simp
  have s: "r2 div 1000000000 = int s" using assms unfolding r2_def by (intro int_div_eq) auto
  have s': "r2 mod 1000000000 = int us * 1000"
    using minus_mult_div_eq_mod [of r2 1000000000] unfolding s unfolding r2_def by simp
  have "write_time n = pad_int 2 (int h) @ '':'' @ pad_int 2 (int m) @ '':''
      @ pad_int 2 (int s) @ (if int us * 1000 \<noteq> 0 then ''.'' @ pad_int 9 (int us * 1000) else [])"
    unfolding write_time_def Let_def day h h' m m' s s' by (rule refl)
  moreover have "nat (int us * 1000) = us * 1000" by simp
  ultimately show ?thesis unfolding n_def by (simp add: pad_int_padded fraction_def)
qed

lemma parse_time_written:
  assumes "h < 24" "m < 60" "s < 60" "us < 10 ^ 6"
  shows "parse_time (padded 2 h @ '':'' @ padded 2 m @ '':'' @ padded 2 s @ fraction us @ ''Z'')
    = Some (Some (int h, int m, int s, int us))"
proof -
  have two: "n < 10 ^ 2 \<Longrightarrow> parse_signed 64 (padded 2 n) = Some (int n)"
    "n < 10 ^ 2 \<Longrightarrow> \<exists>a b. padded 2 n = [a, b]" for n
    using padded_length [of n 2] by (auto intro!: parse_padded list2)
  obtain h1 h2 m1 m2 s1 s2 where
    e: "padded 2 h = [h1, h2]" "padded 2 m = [m1, m2]" "padded 2 s = [s1, s2]"
    using two(2) [of h] two(2) [of m] two(2) [of s] assms by auto
  let ?r = "[h1, h2, CHR '':'', m1, m2, CHR '':'', s1, s2] @ fraction us @ ''Z''"
  have "list_all (\<lambda>c. bval c < 128) [CHR '':'', CHR ''Z'']" by code_simp
  then have "list_all (\<lambda>c. bval c < 128) ?r"
    using padded_ascii [of 2 h] padded_ascii [of 2 m] padded_ascii [of 2 s] fraction_ascii [of us]
    by (simp add: e)
  note sl = str_slice_ascii [OF this]
  have "str_get ?r 0 2 = Some [h1, h2]" "str_get ?r 3 5 = Some [m1, m2]" "str_get ?r 6 8 = Some [s1, s2]"
    "str_slice ?r 8 (length ?r) = Some (fraction us @ ''Z'')"
    unfolding str_get_def by (subst sl; simp add: slice_def numeral_eq_Suc)+
  moreover have "parse_signed 64 [h1, h2] = Some (int h)" "parse_signed 64 [m1, m2] = Some (int m)"
    "parse_signed 64 [s1, s2] = Some (int s)"
    using two(1) [of h] two(1) [of m] two(1) [of s] assms e by auto
  ultimately show ?thesis
    using parse_fraction_written [OF assms(4)] by (simp add: parse_time_def e)
qed

lemma day_split:
  fixes us :: int
  assumes "0 \<le> us" and "us < 86400000000"
  shows "\<exists>h m s u :: nat. h < 24 \<and> m < 60 \<and> s < 60 \<and> u < 10 ^ 6
    \<and> us = ((int h * 60 + int m) * 60 + int s) * 1000000 + int u"
proof -
  define t where "t = us div 1000000"
  define k where "k = t div 60"
  have us: "us = t * 1000000 + us mod 1000000" "0 \<le> us mod 1000000" "us mod 1000000 < 1000000"
    unfolding t_def by simp_all
  have t: "t = k * 60 + t mod 60" "0 \<le> t mod 60" "t mod 60 < 60" unfolding k_def by simp_all
  have k: "k = k div 60 * 60 + k mod 60" "0 \<le> k mod 60" "k mod 60 < 60" by simp_all
  have "0 \<le> t" "t < 86400" using us assms by linarith+
  with t have "0 \<le> k" "k < 1440" by linarith+
  with k have h: "0 \<le> k div 60" "k div 60 < 24" by linarith+
  show ?thesis
  proof (intro exI conjI)
    show "nat (k div 60) < 24" "nat (k mod 60) < 60" "nat (t mod 60) < 60" "nat (us mod 1000000) < 10 ^ 6"
      using h k t us by simp_all
    show "us = ((int (nat (k div 60)) * 60 + int (nat (k mod 60))) * 60 + int (nat (t mod 60))) * 1000000
        + int (nat (us mod 1000000))"
      using h k(2) t(2) us(2) k(1) t(1) us(1) by simp
  qed
qed

lemma as_i32_small: "- (2 ^ 31) \<le> i \<Longrightarrow> i < 2 ^ 31 \<Longrightarrow> as_i32 i = i"
  unfolding as_i32_def by (subst mod_pos_pos_trivial) auto

text \<open>
  C35.  A timestamp survives a round trip through its text: an \<open>i64\<close> of microseconds whose
  year is 0 to 9999 prints, in UTC, as a text the mongo-shell date reader parses to the same
  microseconds.
\<close>

theorem timestamp_text_roundtrip:
  assumes "- (2 ^ 63) \<le> micros" and "micros < 2 ^ 63"
    and "0 \<le> fst (civil_from_days (micros div 86400000000))"
    and "fst (civil_from_days (micros div 86400000000)) \<le> 9999"
  shows "parse_iso8601_utc_micros (write_timestamp micros TzUtc) = Some (Some micros)"
proof -
  define days us where "days = micros div 86400000000" and "us = micros mod 86400000000"
  have micros: "micros = days * 86400000000 + us" and us: "0 \<le> us" "us < 86400000000"
    unfolding days_def us_def by simp_all
  have i32: "as_i32 days = days" using micros us assms(1,2) by (intro as_i32_small) auto
  obtain h m s u where t: "h < 24" "m < 60" "s < 60" "u < 10 ^ 6"
    and us_eq: "us = ((int h * 60 + int m) * 60 + int s) * 1000000 + int u"
    using day_split [OF us] by blast
  obtain y mo d where civil: "civil_from_days days = (y, mo, d)" by (cases "civil_from_days days")
  have date: "days_from_civil y mo d = days" "1 \<le> mo" "mo \<le> 12" "1 \<le> d" "d \<le> 31"
    using civil_date_roundtrip [of days] civil by simp_all
  have y: "0 \<le> y" "y \<le> 9999" using assms(3,4) civil by (simp_all add: days_def)
  obtain y1 y2 y3 y4 where Y: "padded 4 (nat y) = [y1, y2, y3, y4]"
  proof -
    have "length (padded 4 (nat y)) = 4" using y by (intro padded_length) auto
    from list4 [OF this] show ?thesis by (auto intro: that)
  qed
  have two: "\<exists>a b. padded 2 (nat k) = [a, b]" if "k \<le> 31" for k
    using that by (intro list2 padded_length) auto
  obtain m1 m2 d1 d2 where MD: "padded 2 (nat mo) = [m1, m2]" "padded 2 (nat d) = [d1, d2]"
    using two [of mo] two [of d] date by auto
  define clock where "clock = padded 2 h @ '':'' @ padded 2 m @ '':'' @ padded 2 s @ fraction u @ ''Z''"
  define full where "full = [y1, y2, y3, y4, CHR ''-'', m1, m2, CHR ''-'', d1, d2, CHR ''T''] @ clock"
  have "write_timestamp micros TzUtc = write_date days @ ''T'' @ write_time (us * 1000) @ ''Z''"
    by (simp add: write_timestamp_def write_zone_def Let_def days_def [symmetric] us_def [symmetric] i32)
  also have "\<dots> = full"
    using y date MD Y write_time_padded [OF t]
    by (simp add: write_date_def civil pad_int_padded us_eq full_def clock_def)
  finally have printed: "write_timestamp micros TzUtc = full" .
  have lits: "list_all (\<lambda>c. bval c < 128) [CHR ''-'', CHR ''T'', CHR '':'', CHR ''Z'']" by code_simp
  have ascii: "list_all (\<lambda>c. bval c < 128) full"
    using lits padded_ascii [of 4 "nat y"] padded_ascii [of 2 "nat mo"] padded_ascii [of 2 "nat d"]
      padded_ascii [of 2 h] padded_ascii [of 2 m] padded_ascii [of 2 s] fraction_ascii [of u]
    by (simp add: full_def clock_def Y MD)
  have "is_ascii_digit y1" using padded_digits [of 4 "nat y"] by (simp add: Y)
  moreover have "bval (CHR ''Z'') < 128 \<and> \<not> ws_single (bval (CHR ''Z''))" by code_simp
  ultimately have trimmed: "trim full = full"
    using trim_ascii_ends [of y1 "CHR ''Z''"
        "[y2, y3, y4, CHR ''-'', m1, m2, CHR ''-'', d1, d2, CHR ''T''] @ padded 2 h @ '':'' @ padded 2 m @ '':'' @ padded 2 s @ fraction u"]
    by (simp add: full_def clock_def digit_ascii)
  note sl = str_slice_ascii [OF ascii]
  have slices: "str_slice full 0 4 = Some [y1, y2, y3, y4]" "str_slice full 5 7 = Some [m1, m2]"
    "str_slice full 8 10 = Some [d1, d2]" "str_slice full 10 (length full) = Some (CHR ''T'' # clock)"
    by (subst sl; simp add: full_def slice_def numeral_eq_Suc)+
  have "parse_signed 64 [y1, y2, y3, y4] = Some y" "parse_signed 64 [m1, m2] = Some mo"
    "parse_signed 64 [d1, d2] = Some d"
    using parse_padded [of "nat y" 4] parse_padded [of "nat mo" 2] parse_padded [of "nat d" 2] y date
    by (simp_all add: Y MD)
  then have dates: "date_digits full 0 4 = Some y" "date_digits full 5 7 = Some mo" "date_digits full 8 10 = Some d"
    using padded_digits [of 4 "nat y"] padded_digits [of 2 "nat mo"] padded_digits [of 2 "nat d"]
    by (simp_all add: date_digits_def str_get_def slices Y MD)
  have "date_micros y mo d (int h, int m, int s, int u) = Some micros"
    using t by (simp add: date_micros_def date micros us_eq)
  moreover have "\<not> length full < 10" "full ! 4 = CHR ''-''" "full ! 7 = CHR ''-''"
    by (simp_all add: full_def)
  moreover have "parse_time clock = Some (Some (int h, int m, int s, int u))"
    unfolding clock_def by (rule parse_time_written [OF t])
  ultimately show ?thesis
    unfolding printed parse_iso8601_utc_micros_def Let_def trimmed dates slices
    using date by simp
qed

lemma timestamp_text_roundtrip_witness:
  "parse_iso8601_utc_micros (write_timestamp 1709251199123456 TzUtc) = Some (Some 1709251199123456)"
proof -
  have "civil_from_days (1709251199123456 div 86400000000) = (2024, 2, 29)" by code_simp
  with timestamp_text_roundtrip [of 1709251199123456] show ?thesis by simp
qed

end
