(* ===== verification/Batch_Converter.thy ===== *)
theory Batch_Converter
  imports Value_Text
begin

text \<open>
  Rows to columns: the \<open>BatchConverter\<close> of \<open>crates/datagrep-core/src/convert.rs\<close> with the
  row schema of \<open>crates/datagrep-api/src/shape.rs\<close>.

  An Arrow builder is the sequence of \<open>append_value\<close> and \<open>append_null\<close> calls the code makes
  on it, so a column is its Arrow type and its cells in order; \<open>RecordBatch\<close> is its schema, its
  columns and its row count.  \<open>try_new_with_options\<close> is its documented check: as many columns
  as fields, of the field's type, of the stated length.  The ratio \<open>0.10\<close> is one tenth: for
  row counts below \<open>2 ^ 53\<close> the double product rounds to the exact tenth whenever that is an
  integer, so the comparisons of the code are those of the rationals.
\<close>

section \<open>Schemas, columns and batches\<close>

record field_def =
  fd_name :: string
  fd_logical :: logical_type
  fd_flags :: nat
  fd_native :: "string option"

record row_schema =
  rs_fields :: "field_def list"
  rs_identity :: "nat list option"

type_synonym row = "db_value list"

datatype col_kind =
    KNull | KBool | KI64 | KU64 | KF64 | KDate | KTime | KTimestamp "string option" | KUuid
  | KBytes | KStr | KText

datatype arrow_type =
    ANull | ABoolean | AInt64 | AUInt64 | AFloat64 | ADate32 | ATime64 | ATimestamp "string option"
  | AFixed16 | ABinary | AUtf8 | ADictionary

datatype cell =
    CellBool bool | CellI64 int | CellU64 nat | CellF64 f64 | CellDate int | CellTime int
  | CellTimestamp int | CellUuid string | CellBytes string | CellStr string

record column =
  col_type :: arrow_type
  col_cells :: "cell option list"

record batch =
  bt_schema :: "(string \<times> arrow_type) list"
  bt_columns :: "column list"
  bt_rows :: nat

section \<open>Column kinds\<close>

definition merge_kind :: "col_kind \<Rightarrow> col_kind \<Rightarrow> col_kind" where
  "merge_kind a b =
     (if b = KNull then a else if a = KNull then b else if a = b then a else KText)"

fun value_kind :: "db_value \<Rightarrow> col_kind" where
  "value_kind VNull = KNull"
| "value_kind VAbsent = KNull"
| "value_kind (VBool _) = KBool"
| "value_kind (VI64 _) = KI64"
| "value_kind (VU64 _) = KU64"
| "value_kind (VF64 _) = KF64"
| "value_kind (VDate _) = KDate"
| "value_kind (VTime _) = KTime"
| "value_kind (VTimestamp _ tz) = KTimestamp (tz_name tz)"
| "value_kind (VUuid _) = KUuid"
| "value_kind (VBytes _) = KBytes"
| "value_kind (VStr _) = KStr"
| "value_kind _ = KText"

fun logical_kind :: "logical_type \<Rightarrow> col_kind" where
  "logical_kind LNull = KNull"
| "logical_kind LBool = KBool"
| "logical_kind LI64 = KI64"
| "logical_kind LU64 = KU64"
| "logical_kind LF64 = KF64"
| "logical_kind LDate = KDate"
| "logical_kind LTime = KTime"
| "logical_kind LTimestamp = KNull"
| "logical_kind LUuid = KUuid"
| "logical_kind LBytes = KBytes"
| "logical_kind LStr = KStr"
| "logical_kind _ = KText"

text \<open>The loop over the rows of one column, which stops at \<open>Text\<close>.\<close>

fun observe :: "nat \<Rightarrow> col_kind \<Rightarrow> row list \<Rightarrow> col_kind" where
  "observe col kind [] = kind"
| "observe col kind (r # rs) =
     (case byte_at r col of
        None \<Rightarrow> observe col kind rs
      | Some v \<Rightarrow>
          (let kind' = merge_kind kind (value_kind v)
           in if kind' = KText then KText else observe col kind' rs))"

definition decide_kinds :: "row_schema \<Rightarrow> row list \<Rightarrow> col_kind list" where
  "decide_kinds schema rows =
     map (\<lambda>col. observe col (logical_kind (fd_logical (rs_fields schema ! col))) rows)
       [0..<length (rs_fields schema)]"

section \<open>Building columns\<close>

definition cell_of :: "row \<Rightarrow> nat \<Rightarrow> db_value" where
  "cell_of r col = (case byte_at r col of Some v \<Rightarrow> v | None \<Rightarrow> VAbsent)"

text \<open>What a builder of a kind appends for a value, and whether the value is counted as lost.\<close>

definition typed_cell :: "col_kind \<Rightarrow> db_value \<Rightarrow> cell option" where
  "typed_cell kind v =
     (case kind of
        KNull \<Rightarrow> None
      | KBool \<Rightarrow> (case v of VBool b \<Rightarrow> Some (CellBool b) | _ \<Rightarrow> None)
      | KI64 \<Rightarrow> (case v of VI64 n \<Rightarrow> Some (CellI64 n) | _ \<Rightarrow> None)
      | KU64 \<Rightarrow> (case v of VU64 n \<Rightarrow> Some (CellU64 n) | _ \<Rightarrow> None)
      | KF64 \<Rightarrow> (case v of VF64 x \<Rightarrow> Some (CellF64 x) | _ \<Rightarrow> None)
      | KDate \<Rightarrow> (case v of VDate d \<Rightarrow> Some (CellDate d) | _ \<Rightarrow> None)
      | KTime \<Rightarrow> (case v of VTime t \<Rightarrow> Some (CellTime t) | _ \<Rightarrow> None)
      | KTimestamp tz \<Rightarrow> (case v of VTimestamp t _ \<Rightarrow> Some (CellTimestamp t) | _ \<Rightarrow> None)
      | KUuid \<Rightarrow> (case v of VUuid b \<Rightarrow> Some (CellUuid b) | _ \<Rightarrow> None)
      | KBytes \<Rightarrow> (case v of VBytes b \<Rightarrow> Some (CellBytes b) | _ \<Rightarrow> None)
      | KStr \<Rightarrow> map_option CellStr (display_value v)
      | KText \<Rightarrow> map_option CellStr (display_value v))"

definition is_nullish :: "db_value \<Rightarrow> bool" where
  "is_nullish v = (v = VNull \<or> v = VAbsent)"

text \<open>A null column and a UUID column count nothing as coerced; text columns lose nothing.\<close>

definition counts_loss :: "col_kind \<Rightarrow> db_value \<Rightarrow> bool" where
  "counts_loss kind v =
     (kind \<notin> {KNull, KUuid, KStr, KText} \<and> \<not> is_nullish v \<and> typed_cell kind v = None)"

fun kind_type :: "col_kind \<Rightarrow> bool \<Rightarrow> arrow_type" where
  "kind_type KNull dict = ANull"
| "kind_type KBool dict = ABoolean"
| "kind_type KI64 dict = AInt64"
| "kind_type KU64 dict = AUInt64"
| "kind_type KF64 dict = AFloat64"
| "kind_type KDate dict = ADate32"
| "kind_type KTime dict = ATime64"
| "kind_type (KTimestamp tz) dict = ATimestamp tz"
| "kind_type KUuid dict = AFixed16"
| "kind_type KBytes dict = ABinary"
| "kind_type KStr dict = (if dict then ADictionary else AUtf8)"
| "kind_type KText dict = (if dict then ADictionary else AUtf8)"

definition build_column :: "col_kind \<Rightarrow> bool \<Rightarrow> row list \<Rightarrow> nat \<Rightarrow> column \<times> nat" where
  "build_column kind dict rows col =
     (let cells = map (\<lambda>r. cell_of r col) rows
      in (\<lparr>col_type = kind_type kind dict, col_cells = map (typed_cell kind) cells\<rparr>,
          length (filter (counts_loss kind) cells)))"

definition empty_batch :: "(string \<times> arrow_type) list \<Rightarrow> batch" where
  "empty_batch schema =
     \<lparr>bt_schema = schema, bt_columns = map (\<lambda>(n, t). \<lparr>col_type = t, col_cells = []\<rparr>) schema, bt_rows = 0\<rparr>"

definition finish_batch :: "(string \<times> arrow_type) list \<Rightarrow> column list \<Rightarrow> nat \<Rightarrow> batch" where
  "finish_batch schema columns rows =
     (if map col_type columns = map snd schema \<and> list_all (\<lambda>c. length (col_cells c) = rows) columns
      then \<lparr>bt_schema = schema, bt_columns = columns, bt_rows = rows\<rparr>
      else empty_batch schema)"

definition column_name :: "row_schema \<Rightarrow> nat \<Rightarrow> string" where
  "column_name schema col =
     (case byte_at (rs_fields schema) col of
        Some f \<Rightarrow> fd_name f
      | None \<Rightarrow> ''col'' @ show_nat col)"

definition dict_at :: "col_kind list \<Rightarrow> bool list \<Rightarrow> nat \<Rightarrow> bool" where
  "dict_at kinds dict col = (kinds ! col = KStr \<and> byte_at dict col = Some True)"

definition build_batch ::
  "row_schema \<Rightarrow> col_kind list \<Rightarrow> bool list \<Rightarrow> row list \<Rightarrow> batch \<times> nat" where
  "build_batch schema kinds dict rows =
     (let cols = map (\<lambda>col. build_column (kinds ! col) (dict_at kinds dict col) rows col) [0..<length kinds];
          fs = map (\<lambda>col. (column_name schema col, col_type (fst (cols ! col)))) [0..<length kinds]
      in (finish_batch fs (map fst cols) (length rows), sum_list (map snd cols)))"

text \<open>Re-encoding: a string column of the listed ones becomes a dictionary with the same cells.\<close>

definition encode_column :: "nat list \<Rightarrow> nat \<Rightarrow> column \<Rightarrow> column" where
  "encode_column dict_cols i c =
     (if i \<in> set dict_cols \<and> col_type c = AUtf8 then c\<lparr>col_type := ADictionary\<rparr> else c)"

definition dictionary_encode :: "batch \<Rightarrow> nat list \<Rightarrow> (string \<times> arrow_type) list \<Rightarrow> batch" where
  "dictionary_encode b dict_cols target =
     finish_batch target
       (map (\<lambda>i. encode_column dict_cols i (bt_columns b ! i)) [0..<length (bt_columns b)]) (bt_rows b)"

section \<open>The converter\<close>

definition SAMPLE_BATCHES :: nat where "SAMPLE_BATCHES = 2"
definition MIN_SAMPLE_ROWS :: nat where "MIN_SAMPLE_ROWS = 16"

record converter =
  cv_schema :: row_schema
  cv_kinds :: "col_kind list"
  cv_samples :: "string list option list"
  cv_sampled_rows :: nat
  cv_batches_seen :: nat
  cv_sample_batches :: nat
  cv_dict :: "bool list"
  cv_arrow_schema :: "(string \<times> arrow_type) list option"
  cv_pending :: "batch list"
  cv_coerced :: nat

definition with_window :: "row_schema \<Rightarrow> nat \<Rightarrow> converter" where
  "with_window schema window =
     \<lparr>cv_schema = schema, cv_kinds = [], cv_samples = replicate (length (rs_fields schema)) None,
      cv_sampled_rows = 0, cv_batches_seen = 0, cv_sample_batches = max 1 window, cv_dict = [],
      cv_arrow_schema = None, cv_pending = [], cv_coerced = 0\<rparr>"

definition new_converter :: "row_schema \<Rightarrow> converter" where
  "new_converter schema = with_window schema SAMPLE_BATCHES"

definition one_shot :: "row_schema \<Rightarrow> converter" where
  "one_shot schema = with_window schema 1"

definition dictionary_columns :: "converter \<Rightarrow> nat list" where
  "dictionary_columns c = filter (\<lambda>i. cv_dict c ! i) [0..<length (cv_dict c)]"

definition is_settled :: "converter \<Rightarrow> bool" where
  "is_settled c = (cv_sample_batches c \<le> cv_batches_seen c)"

text \<open>One row's contribution to the distinct strings seen in a column.\<close>

definition see_string :: "nat \<Rightarrow> row \<Rightarrow> string list \<Rightarrow> string list" where
  "see_string col r seen =
     (case byte_at r col of
        Some (VStr s) \<Rightarrow> if s \<in> set seen then seen else s # seen
      | _ \<Rightarrow> seen)"

definition sample_cap :: "nat \<Rightarrow> nat" where
  "sample_cap n = max 1 ((n + 9) div 10)"

definition sample :: "row list \<Rightarrow> converter \<Rightarrow> converter" where
  "sample rows c =
     (let n = cv_sampled_rows c + length rows
      in c\<lparr>cv_sampled_rows := n,
           cv_samples := map (\<lambda>col.
             case cv_samples c ! col of
               None \<Rightarrow> None
             | Some seen \<Rightarrow>
                 (let seen' = fold (see_string col) rows seen
                  in if sample_cap n < length seen' then None else Some seen'))
             [0..<length (cv_samples c)]\<rparr>)"

definition settle :: "converter \<Rightarrow> converter" where
  "settle c =
     c\<lparr>cv_dict := map (\<lambda>s. case s of
           Some seen \<Rightarrow> MIN_SAMPLE_ROWS \<le> cv_sampled_rows c \<and> 10 * length seen < cv_sampled_rows c
         | None \<Rightarrow> False) (cv_samples c),
       cv_samples := replicate (length (cv_kinds c)) None\<rparr>"

definition convert_start :: "row list \<Rightarrow> converter \<Rightarrow> converter" where
  "convert_start rows c0 =
     (let c1 = (if cv_kinds c0 = [] then
                  (let ks = decide_kinds (cv_schema c0) rows
                   in c0\<lparr>cv_kinds := ks,
                         cv_samples := map (\<lambda>k. if k = KStr then Some [] else None) ks\<rparr>)
                else c0);
          open_window = cv_batches_seen c0 < cv_sample_batches c0;
          c2 = (if open_window then sample rows c1 else c1);
          c3 = c2\<lparr>cv_batches_seen := cv_batches_seen c2 + 1\<rparr>
      in if open_window \<and> is_settled c3 then settle c3 else c3)"

text \<open>Whether this batch closes the sampling window, and the flags it is cols with.\<close>

definition closes :: "converter \<Rightarrow> converter \<Rightarrow> bool" where
  "closes c0 c = (cv_batches_seen c0 < cv_sample_batches c0 \<and> is_settled c)"

definition batch_dict :: "converter \<Rightarrow> bool list" where
  "batch_dict c = (if cv_dict c = [] then replicate (length (cv_kinds c)) False else cv_dict c)"

definition record_batch :: "bool \<Rightarrow> batch \<times> nat \<Rightarrow> converter \<Rightarrow> converter" where
  "record_batch closing cols c =
     c\<lparr>cv_coerced := cv_coerced c + snd cols,
       cv_arrow_schema := (if cv_arrow_schema c = None \<or> closing then Some (bt_schema (fst cols))
                           else cv_arrow_schema c)\<rparr>"

definition reencode :: "batch \<Rightarrow> converter \<Rightarrow> (nat \<times> batch) list" where
  "reencode b c =
     (let dicts = dictionary_columns c
      in if dicts \<noteq> [] then
           map (\<lambda>i. (i, dictionary_encode (cv_pending c ! i) dicts (bt_schema b))) [0..<length (cv_pending c)]
         else [])"

text \<open>\<open>convert\<close>: the converter after it, the batch, and the earlier batches re-encoded.\<close>

definition convert :: "row list \<Rightarrow> converter \<Rightarrow> converter \<times> batch \<times> (nat \<times> batch) list" where
  "convert rows c0 =
     (let c = convert_start rows c0;
          cols = build_batch (cv_schema c) (cv_kinds c) (batch_dict c) rows;
          b = fst cols;
          c1 = record_batch (closes c0 c) cols c
      in if closes c0 c then (c1\<lparr>cv_pending := []\<rparr>, b, reencode b c1)
         else if cv_batches_seen c0 < cv_sample_batches c0 then
           (c1\<lparr>cv_pending := cv_pending c1 @ [b]\<rparr>, b, [])
         else (c1, b, []))"

definition rows_to_record_batch :: "row_schema \<Rightarrow> row list \<Rightarrow> batch" where
  "rows_to_record_batch schema rows = fst (snd (convert rows (one_shot schema)))"

section \<open>The first batch loses nothing\<close>

lemma display_value_some: "\<not> is_nullish v \<Longrightarrow> display_value v \<noteq> None"
  by (cases v) (auto simp: is_nullish_def)

lemma typed_cell_own: "\<not> is_nullish v \<Longrightarrow> typed_cell (value_kind v) v \<noteq> None"
  by (cases v) (auto simp: is_nullish_def typed_cell_def)

lemma typed_cell_text: "\<not> is_nullish v \<Longrightarrow> typed_cell KText v \<noteq> None"
  using display_value_some by (auto simp: typed_cell_def)

lemma value_kind_null: "value_kind v = KNull \<longleftrightarrow> is_nullish v"
  by (cases v) (auto simp: is_nullish_def)

lemma observe_upper: "k = KNull \<or> observe col k rows = k \<or> observe col k rows = KText"
  by (induction rows arbitrary: k) (auto simp: merge_kind_def Let_def split: option.splits)

lemma observe_covers:
  assumes "r \<in> set rows" and "byte_at r col = Some v" and "\<not> is_nullish v"
  shows "observe col k rows = value_kind v \<or> observe col k rows = KText"
  using assms(1)
proof (induction rows arbitrary: k)
  case (Cons x xs)
  show ?case
  proof (cases "x = r")
    case True
    with assms(2,3) observe_upper [of "value_kind v" col xs] show ?thesis
      by (auto simp: merge_kind_def Let_def value_kind_null)
  next
    case False
    with Cons show ?thesis by (auto simp: Let_def split: option.splits)
  qed
qed simp

lemma decided_kind_keeps:
  assumes "r \<in> set rows" and "col < length (rs_fields schema)" and "\<not> is_nullish (cell_of r col)"
  shows "typed_cell (decide_kinds schema rows ! col) (cell_of r col) \<noteq> None"
proof -
  obtain v where v: "byte_at r col = Some v" "cell_of r col = v"
    using assms(3) by (auto simp: cell_of_def is_nullish_def split: option.splits)
  define k where "k = decide_kinds schema rows ! col"
  have "k = value_kind v \<or> k = KText"
    using observe_covers [OF assms(1) v(1)] assms(2,3) v(2) by (simp add: k_def decide_kinds_def)
  then show ?thesis
    using typed_cell_own [of v] typed_cell_text [of v] assms(3) v(2) unfolding k_def by auto
qed

lemma build_batch_eq:
  "fst (build_batch schema kinds dict rows) =
     \<lparr>bt_schema = map (\<lambda>col. (column_name schema col, kind_type (kinds ! col) (dict_at kinds dict col))) [0..<length kinds],
      bt_columns = map (\<lambda>col. \<lparr>col_type = kind_type (kinds ! col) (dict_at kinds dict col),
        col_cells = map (\<lambda>r. typed_cell (kinds ! col) (cell_of r col)) rows\<rparr>) [0..<length kinds],
      bt_rows = length rows\<rparr>"
proof -
  have *: "map (\<lambda>col. (column_name schema col, col_type (fst (map f [0..<n] ! col)))) [0..<n]
      = map (\<lambda>col. (column_name schema col, col_type (fst (f col)))) [0..<n]" for f :: "nat \<Rightarrow> column \<times> nat" and n
    by simp
  show ?thesis
    unfolding build_batch_def Let_def * fst_conv
    by (simp add: finish_batch_def build_column_def Let_def list_all_iff comp_def)
qed

lemma build_batch_lost:
  "snd (build_batch schema kinds dict rows) =
     sum_list (map (\<lambda>col. length (filter (counts_loss (kinds ! col)) (map (\<lambda>r. cell_of r col) rows))) [0..<length kinds])"
  by (simp add: build_batch_def build_column_def Let_def comp_def)

text \<open>The fields \<open>convert\<close> starts from, on a fresh converter.\<close>

lemma sample_fields [simp]:
  "cv_kinds (sample rows c) = cv_kinds c" "cv_schema (sample rows c) = cv_schema c"
  "cv_dict (sample rows c) = cv_dict c" "cv_pending (sample rows c) = cv_pending c"
  "cv_coerced (sample rows c) = cv_coerced c" "cv_batches_seen (sample rows c) = cv_batches_seen c"
  "cv_sample_batches (sample rows c) = cv_sample_batches c"
  by (simp_all add: sample_def Let_def)

lemma settle_fields [simp]:
  "cv_kinds (settle c) = cv_kinds c" "cv_schema (settle c) = cv_schema c"
  "cv_pending (settle c) = cv_pending c" "cv_coerced (settle c) = cv_coerced c"
  "cv_batches_seen (settle c) = cv_batches_seen c" "cv_sample_batches (settle c) = cv_sample_batches c"
  by (simp_all add: settle_def)

lemma is_settled_settle [simp]: "is_settled (settle c) = is_settled c"
  by (simp add: is_settled_def)

lemma convert_start_fields:
  "cv_kinds (convert_start rows c) = (if cv_kinds c = [] then decide_kinds (cv_schema c) rows else cv_kinds c)"
  "cv_schema (convert_start rows c) = cv_schema c"
  "cv_pending (convert_start rows c) = cv_pending c"
  "cv_coerced (convert_start rows c) = cv_coerced c"
  "cv_batches_seen (convert_start rows c) = cv_batches_seen c + 1"
  "cv_sample_batches (convert_start rows c) = cv_sample_batches c"
  by (simp_all add: convert_start_def Let_def)

lemma record_batch_fields [simp]:
  "cv_kinds (record_batch cl bt c) = cv_kinds c" "cv_schema (record_batch cl bt c) = cv_schema c"
  "cv_dict (record_batch cl bt c) = cv_dict c" "cv_pending (record_batch cl bt c) = cv_pending c"
  "cv_coerced (record_batch cl bt c) = cv_coerced c + snd bt" "cv_samples (record_batch cl bt c) = cv_samples c"
  "cv_batches_seen (record_batch cl bt c) = cv_batches_seen c"
  "cv_sample_batches (record_batch cl bt c) = cv_sample_batches c"
  by (simp_all add: record_batch_def)

lemma convert_fields:
  assumes "convert rows c0 = (c, b, re)"
  defines "k \<equiv> convert_start rows c0"
  shows "b = fst (build_batch (cv_schema k) (cv_kinds k) (batch_dict k) rows)"
    and "cv_coerced c = cv_coerced k + snd (build_batch (cv_schema k) (cv_kinds k) (batch_dict k) rows)"
    and "cv_kinds c = cv_kinds k" and "cv_schema c = cv_schema k" and "cv_dict c = cv_dict k"
    and "cv_samples c = cv_samples k" and "cv_batches_seen c = cv_batches_seen k"
    and "cv_sample_batches c = cv_sample_batches k"
  using assms(1) unfolding k_def convert_def Let_def
  by (auto split: if_splits)

lemma fresh_convert:
  assumes "convert rows (with_window schema window) = (c, b, re)"
  shows "cv_kinds c = decide_kinds schema rows"
    and "\<exists>dict. b = fst (build_batch schema (decide_kinds schema rows) dict rows)
      \<and> cv_coerced c = snd (build_batch schema (decide_kinds schema rows) dict rows)"
proof -
  have w: "cv_kinds (with_window schema window) = []" "cv_schema (with_window schema window) = schema"
    "cv_coerced (with_window schema window) = 0"
    by (simp_all add: with_window_def)
  note s = convert_start_fields [of rows "with_window schema window", unfolded w, simplified]
  note f = convert_fields [OF assms, unfolded s]
  show "cv_kinds c = decide_kinds schema rows" by (rule f)
  show "\<exists>dict. b = fst (build_batch schema (decide_kinds schema rows) dict rows)
      \<and> cv_coerced c = snd (build_batch schema (decide_kinds schema rows) dict rows)"
    using f(1,2) by auto
qed

text \<open>
  The first batch of a result is converted without loss: every value that is neither null
  nor absent has a cell, in the column's own type or as its text, and nothing is counted as
  coerced.
\<close>

theorem first_batch_lossless:
  assumes "convert rows (with_window schema window) = (c, b, re)" and "r < length rows"
    and "col < length (rs_fields schema)" and "\<not> is_nullish (cell_of (rows ! r) col)"
  shows "col_cells (bt_columns b ! col) ! r = typed_cell (cv_kinds c ! col) (cell_of (rows ! r) col)
    \<and> col_cells (bt_columns b ! col) ! r \<noteq> None \<and> cv_coerced c = 0"
proof -
  note kinds = fresh_convert(1) [OF assms(1)]
  then have len: "length (cv_kinds c) = length (rs_fields schema)" by (simp add: decide_kinds_def)
  obtain dict where b: "b = fst (build_batch schema (cv_kinds c) dict rows)"
    "cv_coerced c = snd (build_batch schema (cv_kinds c) dict rows)"
    using fresh_convert(2) [OF assms(1)] unfolding kinds by blast
  have keep: "typed_cell (cv_kinds c ! k) (cell_of x k) \<noteq> None"
    if "x \<in> set rows" "k < length (cv_kinds c)" "\<not> is_nullish (cell_of x k)" for x k
    using decided_kind_keeps [OF that(1), of k schema] that(2,3) kinds len by simp
  have "\<not> counts_loss (cv_kinds c ! k) (cell_of x k)" if "x \<in> set rows" "k < length (cv_kinds c)" for x k
    using keep that by (auto simp: counts_loss_def)
  then have "cv_coerced c = 0" by (simp add: b(2) build_batch_lost filter_empty_conv)
  then show ?thesis using keep [of "rows ! r" col] assms(2-4) len by (simp add: b(1) build_batch_eq)
qed

definition sample_schema :: "logical_type \<Rightarrow> row_schema" where
  "sample_schema t =
     \<lparr>rs_fields = [\<lparr>fd_name = ''a'', fd_logical = t, fd_flags = 0, fd_native = None\<rparr>], rs_identity = None\<rparr>"

lemma first_batch_lossless_witness:
  "col_cells (bt_columns (rows_to_record_batch (sample_schema LI64) [[VI64 7], [VBool True]]) ! 0) ! 1 \<noteq> None"
proof -
  let ?conv = "convert [[VI64 7], [VBool True]] (with_window (sample_schema LI64) 1)"
  have "?conv = (fst ?conv, fst (snd ?conv), snd (snd ?conv))" by simp
  show ?thesis
    unfolding rows_to_record_batch_def one_shot_def
    by (rule conjunct1 [OF conjunct2 [OF first_batch_lossless [OF \<open>?conv = _\<close>]]])
       (simp_all add: sample_schema_def cell_of_def byte_at_def is_nullish_def)
qed

section \<open>A column that was all null loses its values\<close>

text \<open>
  A timestamp column whose first batch holds only nulls is typed as a null column for the
  rest of the result: the timestamps of the second batch are dropped, and not counted as
  coerced.
\<close>

theorem timestamp_column_lost:
  "case convert [[VNull]] (new_converter (sample_schema LTimestamp)) of (c1, b1, re1) \<Rightarrow>
     case convert [[VTimestamp micros tz]] c1 of (c2, b2, re2) \<Rightarrow>
       map col_cells (bt_columns b2) = [[None]] \<and> cv_coerced c2 = 0"
proof -
  let ?c0 = "new_converter (sample_schema LTimestamp)"
  obtain c1 b1 re1 where first: "convert [[VNull]] ?c0 = (c1, b1, re1)" by (cases "convert [[VNull]] ?c0")
  obtain c2 b2 re2 where second: "convert [[VTimestamp micros tz]] c1 = (c2, b2, re2)"
    by (cases "convert [[VTimestamp micros tz]] c1")
  note f = fresh_convert [OF first [unfolded new_converter_def]]
  have "decide_kinds (sample_schema LTimestamp) [[VNull]] = [KNull]"
    by (simp add: decide_kinds_def sample_schema_def byte_at_def merge_kind_def)
  with f have c1: "cv_kinds c1 = [KNull]" "cv_coerced c1 = 0"
    by (auto simp: build_batch_lost counts_loss_def)
  note s = convert_start_fields [of "[[VTimestamp micros tz]]" c1, unfolded c1, simplified]
  note g = convert_fields [OF second, unfolded s]
  then have "map col_cells (bt_columns b2) = [[None]]" "cv_coerced c2 = 0"
    by (simp_all add: build_batch_eq build_batch_lost counts_loss_def typed_cell_def)
  with first second show ?thesis by simp
qed

section \<open>Re-encoding changes no cell\<close>

inductive conv_run :: "row_schema \<Rightarrow> nat \<Rightarrow> converter \<Rightarrow> bool" for schema window where
  conv_new: "conv_run schema window (with_window schema window)"
| conv_batch: "conv_run schema window c \<Longrightarrow> convert rows c = (c', b, re) \<Longrightarrow> conv_run schema window c'"

text \<open>
  While the window is open no column is flagged, only string columns are sampled, and the
  pending batches were built from the schema and kinds of the converter without flags.
\<close>

definition plain_batch :: "converter \<Rightarrow> batch \<Rightarrow> bool" where
  "plain_batch c b = (\<exists>rows. b = fst (build_batch (cv_schema c) (cv_kinds c) [] rows))"

definition sampled_strings :: "converter \<Rightarrow> bool" where
  "sampled_strings c =
     (length (cv_samples c) = length (cv_kinds c)
      \<and> (\<forall>i < length (cv_kinds c). cv_samples c ! i \<noteq> None \<longrightarrow> cv_kinds c ! i = KStr))"

definition conv_inv :: "converter \<Rightarrow> bool" where
  "conv_inv c =
     (list_all (plain_batch c) (cv_pending c)
      \<and> (cv_kinds c = [] \<longrightarrow> rs_fields (cv_schema c) = [] \<or> cv_pending c = [])
      \<and> (cv_batches_seen c < cv_sample_batches c \<longrightarrow>
           cv_dict c = [] \<and> (cv_kinds c \<noteq> [] \<longrightarrow> sampled_strings c)))"

lemma build_batch_no_flags: "build_batch s ks (replicate n False) rows = build_batch s ks [] rows"
proof -
  have "dict_at ks (replicate n False) col = dict_at ks [] col" for col
    by (auto simp: dict_at_def byte_at_def)
  then show ?thesis by (simp add: build_batch_def)
qed

lemma sampled_start: "sampled_strings (c\<lparr>cv_kinds := ks, cv_samples := map (\<lambda>k. if k = KStr then Some [] else None) ks\<rparr>)"
  by (simp add: sampled_strings_def)

lemma sampled_sample: "sampled_strings c \<Longrightarrow> sampled_strings (sample rows c)"
  by (auto simp: sampled_strings_def sample_def Let_def split: option.splits)

text \<open>The converter between sampling and settling.\<close>

definition sampled :: "row list \<Rightarrow> converter \<Rightarrow> converter" where
  "sampled rows c =
     sample rows (if cv_kinds c = [] then
        c\<lparr>cv_kinds := decide_kinds (cv_schema c) rows,
          cv_samples := map (\<lambda>k. if k = KStr then Some [] else None) (decide_kinds (cv_schema c) rows)\<rparr>
      else c)"

lemma convert_start_open:
  assumes "cv_batches_seen c < cv_sample_batches c"
  shows "convert_start rows c =
    (let k = (sampled rows c)\<lparr>cv_batches_seen := cv_batches_seen c + 1\<rparr>
     in if is_settled k then settle k else k)"
  using assms by (simp add: convert_start_def sampled_def Let_def)

lemma sampled_ok:
  assumes "conv_inv c" and "cv_batches_seen c < cv_sample_batches c"
  shows "sampled_strings (sampled rows c)"
proof (cases "cv_kinds c = []")
  case True
  then show ?thesis unfolding sampled_def if_P [OF True] by (intro sampled_sample sampled_start)
next
  case False
  with assms show ?thesis unfolding sampled_def if_not_P [OF False]
    by (intro sampled_sample) (simp add: conv_inv_def)
qed

lemma sampled_strings_seen [simp]: "sampled_strings (c\<lparr>cv_batches_seen := n\<rparr>) = sampled_strings c"
  by (simp add: sampled_strings_def)

lemma settle_flags:
  assumes "sampled_strings c"
  shows "length (cv_dict (settle c)) = length (cv_kinds c)
    \<and> (\<forall>i < length (cv_kinds c). cv_dict (settle c) ! i \<longrightarrow> cv_kinds c ! i = KStr)"
  using assms by (auto simp: sampled_strings_def settle_def split: option.splits)

lemma convert_start_pending:
  assumes "conv_inv c" and "b \<in> set (cv_pending c)"
  shows "plain_batch (convert_start rows c) b"
proof (cases "cv_kinds c = []")
  case True
  with assms have "rs_fields (cv_schema c) = []" by (auto simp: conv_inv_def)
  then have "cv_kinds (convert_start rows c) = cv_kinds c"
    using True by (simp add: convert_start_fields decide_kinds_def)
  with assms show ?thesis by (auto simp: conv_inv_def plain_batch_def list_all_iff convert_start_fields)
next
  case False
  with assms show ?thesis by (auto simp: conv_inv_def plain_batch_def list_all_iff convert_start_fields)
qed

lemma closing_flags:
  assumes "conv_inv c" and "closes c (convert_start rows c)"
  defines "k \<equiv> convert_start rows c"
  shows "length (cv_dict k) = length (cv_kinds k)"
    and "i < length (cv_kinds k) \<Longrightarrow> cv_dict k ! i \<Longrightarrow> cv_kinds k ! i = KStr"
proof -
  have op: "cv_batches_seen c < cv_sample_batches c" using assms(2) by (simp add: closes_def)
  define s where "s = (sampled rows c)\<lparr>cv_batches_seen := cv_batches_seen c + 1\<rparr>"
  have "is_settled s" using assms(2) op
    by (auto simp: closes_def convert_start_open s_def Let_def split: if_splits)
  then have "k = settle s" unfolding k_def by (simp add: convert_start_open [OF op] s_def Let_def)
  moreover have "sampled_strings s" using sampled_ok [OF assms(1) op] by (simp add: s_def)
  ultimately show "length (cv_dict k) = length (cv_kinds k)"
    and "i < length (cv_kinds k) \<Longrightarrow> cv_dict k ! i \<Longrightarrow> cv_kinds k ! i = KStr"
    using settle_flags [of s] by auto
qed

lemma conv_inv_convert:
  assumes inv: "conv_inv c" and conv: "convert rows c = (c', b, re)"
  shows "conv_inv c'"
proof -
  define k where "k = convert_start rows c"
  note f = convert_fields [OF conv, folded k_def]
  have pb: "plain_batch c' = plain_batch k"
    by (rule ext) (simp add: plain_batch_def f(3,4))
  have kinds: "cv_kinds k = [] \<Longrightarrow> rs_fields (cv_schema k) = []"
    using inv by (auto simp: k_def convert_start_fields decide_kinds_def split: if_splits)
  show ?thesis
  proof (cases "closes c k")
    case True
    then have "cv_pending c' = []" and "is_settled k"
      using conv by (auto simp: convert_def Let_def k_def closes_def)
    with f show ?thesis by (simp add: conv_inv_def is_settled_def)
  next
    case False
    show ?thesis
    proof (cases "cv_batches_seen c < cv_sample_batches c")
      case True
      with False have unsettled: "\<not> is_settled k" by (simp add: closes_def)
      define s where "s = (sampled rows c)\<lparr>cv_batches_seen := cv_batches_seen c + 1\<rparr>"
      have ks: "k = s" using unsettled
        by (auto simp: k_def convert_start_open [OF True] s_def Let_def split: if_splits)
      have "cv_dict k = []" using inv True by (simp add: ks s_def sampled_def conv_inv_def)
      moreover have "sampled_strings k" using sampled_ok [OF inv True] by (simp add: ks s_def)
      moreover have "cv_pending c' = cv_pending k @ [b]"
        using conv False True by (auto simp: convert_def Let_def k_def)
      moreover have "list_all (plain_batch k) (cv_pending k @ [b])"
        using convert_start_pending [OF inv] f(1) \<open>cv_dict k = []\<close>
        by (auto simp: list_all_iff k_def convert_start_fields plain_batch_def batch_dict_def build_batch_no_flags)
      ultimately show ?thesis using f kinds
        by (auto simp: conv_inv_def pb sampled_strings_def)
    next
      case wide: False
      then have "cv_pending c' = cv_pending k"
        using conv False by (auto simp: convert_def Let_def k_def)
      moreover have "list_all (plain_batch k) (cv_pending k)"
        using convert_start_pending [OF inv] by (auto simp: list_all_iff k_def convert_start_fields)
      moreover have "\<not> cv_batches_seen k < cv_sample_batches k"
        using wide by (simp add: k_def convert_start_fields)
      ultimately show ?thesis using f kinds by (auto simp: conv_inv_def pb)
    qed
  qed
qed

lemma conv_run_inv: "conv_run schema window c \<Longrightarrow> conv_inv c"
proof (induction rule: conv_run.induct)
  case conv_new
  show ?case by (simp add: conv_inv_def with_window_def)
next
  case (conv_batch c rows c' b re)
  then show ?case by (blast intro: conv_inv_convert)
qed

lemma encode_plain:
  assumes "length flags = length ks" and "\<And>i. i < length ks \<Longrightarrow> flags ! i \<Longrightarrow> ks ! i = KStr"
    and "old = fst (build_batch s ks [] rows0)" and "b = fst (build_batch s ks flags rows)"
  defines "new \<equiv> dictionary_encode old (filter (\<lambda>i. flags ! i) [0..<length flags]) (bt_schema b)"
  shows "bt_rows new = bt_rows old" and "map col_cells (bt_columns new) = map col_cells (bt_columns old)"
    and "bt_schema new = bt_schema b"
proof -
  let ?cols = "map (\<lambda>i. encode_column (filter (\<lambda>i. flags ! i) [0..<length flags]) i (bt_columns old ! i))
      [0..<length (bt_columns old)]"
  have col: "col_type (encode_column (filter (\<lambda>i. flags ! i) [0..<length flags]) i (bt_columns old ! i))
        = kind_type (ks ! i) (dict_at ks flags i)" if "i < length ks" for i
    using that assms(1) assms(2) [OF that]
    by (cases "flags ! i") (auto simp: assms(3) build_batch_eq encode_column_def dict_at_def byte_at_def)
  have types: "map col_type ?cols = map snd (bt_schema b)"
    using col by (simp add: assms(3,4) build_batch_eq)
  have cells: "col_cells (encode_column ds i c) = col_cells c" for ds i c
    by (simp add: encode_column_def)
  have "new = \<lparr>bt_schema = bt_schema b, bt_columns = ?cols, bt_rows = bt_rows old\<rparr>"
    using types by (simp add: new_def dictionary_encode_def finish_batch_def list_all_iff cells)
      (auto simp: assms(3) build_batch_eq)
  moreover have "map col_cells ?cols = map col_cells (bt_columns old)"
    by (rule nth_equalityI) (simp_all add: cells)
  ultimately show "bt_rows new = bt_rows old" "bt_schema new = bt_schema b"
    "map col_cells (bt_columns new) = map col_cells (bt_columns old)"
    by simp_all
qed

lemma reencoded_batch:
  assumes "conv_run schema window c" and "convert rows c = (c', b, re)" and "(i, new) \<in> set re"
  shows "i < length (cv_pending c) \<and> bt_rows new = bt_rows (cv_pending c ! i)
    \<and> map col_cells (bt_columns new) = map col_cells (bt_columns (cv_pending c ! i))
    \<and> bt_schema new = bt_schema b"
proof -
  define k where "k = convert_start rows c"
  have cl: "closes c k" using assms(2,3) by (auto simp: convert_def Let_def k_def split: if_splits)
  note inv = conv_run_inv [OF assms(1)]
  have pend: "cv_pending k = cv_pending c" by (simp add: k_def convert_start_fields)
  have b: "b = fst (build_batch (cv_schema k) (cv_kinds k) (batch_dict k) rows)"
    using convert_fields(1) [OF assms(2)] by (simp add: k_def)
  from assms(2,3) cl have i: "i < length (cv_pending c)"
    and new: "new = dictionary_encode (cv_pending c ! i) (filter (\<lambda>i. cv_dict k ! i) [0..<length (cv_dict k)]) (bt_schema b)"
    by (auto simp: convert_def Let_def k_def reencode_def dictionary_columns_def convert_start_fields
        split: if_splits)
  note flags = closing_flags [OF inv cl [unfolded k_def], folded k_def]
  from convert_start_pending [OF inv nth_mem [OF i], of rows, folded k_def]
  obtain rows0 where old: "cv_pending c ! i = fst (build_batch (cv_schema k) (cv_kinds k) [] rows0)"
    unfolding plain_batch_def by blast
  have "batch_dict k = cv_dict k" using flags(1) by (cases "cv_kinds k") (auto simp: batch_dict_def)
  with b have b': "b = fst (build_batch (cv_schema k) (cv_kinds k) (cv_dict k) rows)" by simp
  from encode_plain [OF flags old b'] i show ?thesis by (simp add: new)
qed

text \<open>
  Settling the dictionaries rewrites the first batches without touching a cell: each batch
  the closing conversion hands back to the store has the position of a batch converted before,
  its rows and its cells, and the schema of the batch that closed the window.
\<close>

theorem reencoding_keeps_cells:
  assumes "conv_run schema window c" and "convert rows c = (c', b, re)" and "(i, new) \<in> set re"
  shows "i < length (cv_pending c) \<and> bt_rows new = bt_rows (cv_pending c ! i)
    \<and> map col_cells (bt_columns new) = map col_cells (bt_columns (cv_pending c ! i))
    \<and> bt_schema new = bt_schema b"
  by (rule reencoded_batch [OF assms])

definition sample_converter :: converter where
  "sample_converter = fst (convert (replicate 20 [VStr ''x'']) (new_converter (sample_schema LStr)))"

definition sample_reencoded :: "(nat \<times> batch) list" where
  "sample_reencoded = snd (snd (convert [[VStr ''x'']] sample_converter))"

lemma reencoding_keeps_cells_witness:
  "map col_cells (bt_columns (snd (hd sample_reencoded))) = map col_cells (bt_columns (hd (cv_pending sample_converter)))
   \<and> map col_type (bt_columns (snd (hd sample_reencoded))) = [ADictionary]"
proof -
  let ?r = "convert [[VStr ''x'']] sample_converter"
  let ?f = "convert (replicate 20 [VStr ''x'']) (new_converter (sample_schema LStr))"
  have "convert (replicate 20 [VStr ''x'']) (with_window (sample_schema LStr) SAMPLE_BATCHES)
      = (sample_converter, fst (snd ?f), snd (snd ?f))"
    by (simp add: sample_converter_def new_converter_def)
  note run = conv_batch [OF conv_new this]
  have "length sample_reencoded = 1" "fst (hd sample_reencoded) = 0" "length (cv_pending sample_converter) = 1"
    "map col_type (bt_columns (snd (hd sample_reencoded))) = [ADictionary]" by code_simp+
  moreover from this have "(0, snd (hd sample_reencoded)) \<in> set sample_reencoded"
    by (metis hd_in_set length_0_conv prod.collapse zero_neq_one)
  moreover have "?r = (fst ?r, fst (snd ?r), sample_reencoded)" by (simp add: sample_reencoded_def)
  ultimately show ?thesis using reencoding_keeps_cells [OF run, of _ "fst ?r" "fst (snd ?r)" sample_reencoded 0]
    by (cases "cv_pending sample_converter") auto
qed

end
