(* ===== verification/Driver_Api.thy ===== *)
theory Driver_Api
  imports Batch_Converter
begin

text \<open>
  The data that drivers and the core exchange: shapes (\<open>crates/datagrep-api/src/shape.rs\<close>),
  payloads, batches, fetch hints, cursor statistics and cancel outcomes
  (\<open>crates/datagrep-api/src/driver.rs\<close>).
\<close>

datatype value_kind_tag =
    KindUnknown | KindBytes | KindStr | KindList | KindSet | KindSortedSet | KindHash | KindStream | KindDocument

record graph_schema =
  node_labels :: "string list"
  edge_types :: "string list"

datatype shape =
    ShTable row_schema
  | ShDocuments "path_seg list option" "path_seg list list option"
  | ShPairs value_kind_tag
  | ShGraph graph_schema
  | ShAck "nat option" "string option"
  | ShUnknown

datatype schema_delta = AddColumn field_def | NarrowType nat logical_type

datatype payload =
    PRows "row list"
  | PDocs "db_value list"
  | PPairs "(db_value \<times> db_value) list"
  | PGraph "db_value list" "db_value list"
  | PEmpty

datatype notice_severity = NoticeInfo | NoticeWarning

record notice =
  no_severity :: notice_severity
  no_code :: "string option"
  no_message :: string

record wire_batch =
  wb_seq :: nat
  wb_payload :: payload
  wb_deltas :: "schema_delta list"
  wb_notices :: "notice list"

record fetch_hint =
  fh_max_rows :: nat
  fh_max_bytes :: nat
  fh_target_ms :: nat

record cursor_stats =
  cs_rows :: nat
  cs_bytes :: nat
  cs_batches :: nat
  cs_server_micros :: "nat option"

datatype cancel_kind = ServerSide | ClientAbandon | DeadlineOnly

datatype cancel_outcome = ServerCancelled | CancelRequested | ClientAbandoned

text \<open>The rows of a payload, and the payload cut to its first rows (\<open>feeder.rs\<close>).\<close>

fun payload_len :: "payload \<Rightarrow> nat" where
  "payload_len (PRows rows) = length rows"
| "payload_len (PDocs docs) = length docs"
| "payload_len (PPairs pairs) = length pairs"
| "payload_len (PGraph nodes edges) = length nodes"
| "payload_len PEmpty = 0"

fun truncate_payload :: "nat \<Rightarrow> payload \<Rightarrow> payload" where
  "truncate_payload n (PRows rows) = PRows (take n rows)"
| "truncate_payload n (PDocs docs) = PDocs (take n docs)"
| "truncate_payload n (PPairs pairs) = PPairs (take n pairs)"
| "truncate_payload n (PGraph nodes edges) = PGraph (take n nodes) edges"
| "truncate_payload n PEmpty = PEmpty"

lemma truncate_len [simp]: "payload_len (truncate_payload n p) = min n (payload_len p)"
  by (cases p) (auto simp: min.commute)

end
