(* ===== verification/Row_Formats.thy ===== *)
theory Row_Formats
  imports Driver_Api Es_Lang
begin

text \<open>
  The export formats of \<open>crates/datagrep-core/src/format/\<close>: cells, and the CSV, Markdown, SQL
  INSERT, JSON and NDJSON sinks.  A sink is the text it has written; its writer succeeds (an I/O
  error ends the export with that error and says nothing of the text).  \<open>serde_json\<close> is a
  parameter: its string and number writers, its parser and its printer.
\<close>

section \<open>JSON values\<close>

datatype json =
    JNull
  | JBool bool
  | JInt int
  | JFloat f64
  | JString string
  | JArray "json list"
  | JObject "(string \<times> json) list"

record json_codec =
  js_string :: "string \<Rightarrow> string"
  js_float :: "f64 \<Rightarrow> string"
  js_parse :: "string \<Rightarrow> json option"
  js_print :: "json \<Rightarrow> string option"

definition is_finite :: "f64 \<Rightarrow> bool" where
  "is_finite x = (x \<notin> {''NaN'', ''inf'', ''-inf''})"

fun value_to_json :: "json_codec \<Rightarrow> db_value \<Rightarrow> json" where
  "value_to_json js VNull = JNull"
| "value_to_json js VAbsent = JNull"
| "value_to_json js (VBool b) = JBool b"
| "value_to_json js (VI64 n) = JInt n"
| "value_to_json js (VU64 n) = JInt (int n)"
| "value_to_json js (VF64 x) = (if is_finite x then JFloat x else JNull)"
| "value_to_json js (VArray items) = JArray (map (value_to_json js) items)"
| "value_to_json js (VDocument fs) = JObject (map (\<lambda>(k, v). (k, value_to_json js v)) fs)"
| "value_to_json js (VJson raw) = (case js_parse js raw of Some j \<Rightarrow> j | None \<Rightarrow> JString raw)"
| "value_to_json js v = (case display_value v of Some s \<Rightarrow> JString s | None \<Rightarrow> JNull)"

section \<open>Cells\<close>

datatype cell_text =
    CtNull | CtAbsent | CtBool bool | CtI64 int | CtU64 nat | CtF64 f64 | CtJson string | CtText string

definition from_value :: "db_value \<Rightarrow> cell_text" where
  "from_value v =
     (case v of
        VNull \<Rightarrow> CtNull
      | VAbsent \<Rightarrow> CtAbsent
      | VBool b \<Rightarrow> CtBool b
      | VI64 n \<Rightarrow> CtI64 n
      | VU64 n \<Rightarrow> CtU64 n
      | VF64 x \<Rightarrow> CtF64 x
      | VJson raw \<Rightarrow> CtJson raw
      | _ \<Rightarrow> CtText (case display_value v of Some s \<Rightarrow> s | None \<Rightarrow> []))"

definition document_cell :: "json_codec \<Rightarrow> db_value \<Rightarrow> cell_text" where
  "document_cell js v =
     (case v of
        VNull \<Rightarrow> CtNull
      | VAbsent \<Rightarrow> CtAbsent
      | _ \<Rightarrow> (case js_print js (value_to_json js v) of
                Some t \<Rightarrow> CtJson t
              | None \<Rightarrow> CtText ''<unserializable document>''))"

fun display_text :: "cell_text \<Rightarrow> string option" where
  "display_text CtNull = None"
| "display_text CtAbsent = None"
| "display_text (CtBool b) = Some (if b then ''true'' else ''false'')"
| "display_text (CtI64 n) = Some (show_int n)"
| "display_text (CtU64 n) = Some (show_nat n)"
| "display_text (CtF64 x) = Some x"
| "display_text (CtJson s) = Some s"
| "display_text (CtText s) = Some s"

fun shape_columns :: "shape \<Rightarrow> string list" where
  "shape_columns (ShTable schema) = map fd_name (rs_fields schema)"
| "shape_columns (ShDocuments _ _) = [''doc'']"
| "shape_columns (ShPairs _) = [''key'', ''value'']"
| "shape_columns _ = []"

definition placeholder_columns :: "nat \<Rightarrow> string list" where
  "placeholder_columns width = map (\<lambda>i. ''col'' @ show_nat i) [0..<width]"

fun payload_cells :: "json_codec \<Rightarrow> payload \<Rightarrow> cell_text list list" where
  "payload_cells js (PRows rows) = map (map from_value) rows"
| "payload_cells js (PDocs docs) = map (\<lambda>d. [document_cell js d]) docs"
| "payload_cells js (PPairs pairs) = map (\<lambda>(k, v). [from_value k, from_value v]) pairs"
| "payload_cells js (PGraph _ _) = []"
| "payload_cells js PEmpty = []"

section \<open>CSV\<close>

definition crlf :: string where "crlf = [carriage_return, newline]"

definition needs_quoting :: "char \<Rightarrow> string \<Rightarrow> bool" where
  "needs_quoting delim field =
     (delim \<in> set field \<or> dquote \<in> set field \<or> newline \<in> set field \<or> carriage_return \<in> set field)"

definition csv_body :: "char \<Rightarrow> string \<Rightarrow> string" where
  "csv_body delim field =
     (if needs_quoting delim field then [dquote] @ replace_char dquote [dquote, dquote] field @ [dquote]
      else field)"

definition write_csv_field :: "char \<Rightarrow> string \<Rightarrow> bool \<Rightarrow> string" where
  "write_csv_field delim field first = (if first then [] else [delim]) @ csv_body delim field"

definition csv_record :: "char \<Rightarrow> string list \<Rightarrow> string" where
  "csv_record delim fs =
     concat (map (\<lambda>i. write_csv_field delim (fs ! i) (i = 0)) [0..<length fs]) @ crlf"

definition csv_start :: "char \<Rightarrow> string list \<Rightarrow> string" where
  "csv_start delim columns = (if columns = [] then [] else csv_record delim columns)"

definition csv_text :: "cell_text \<Rightarrow> string" where
  "csv_text c = (case display_text c of Some t \<Rightarrow> t | None \<Rightarrow> [])"

definition csv_write_rows :: "char \<Rightarrow> cell_text list list \<Rightarrow> string" where
  "csv_write_rows delim rows = concat (map (\<lambda>r. csv_record delim (map csv_text r)) rows)"

section \<open>Markdown\<close>

definition md_escape :: "string \<Rightarrow> string" where
  "md_escape t =
     replace_char newline ''<br>'' (replace_char carriage_return ''<br>''
       (replace_pair carriage_return newline ''<br>''
         (replace_char (CHR ''|'') [backslash, CHR ''|''] (replace_char backslash [backslash, backslash] t))))"

definition md_cell :: "cell_text \<Rightarrow> string" where
  "md_cell c =
     (case c of
        CtNull \<Rightarrow> ''NULL''
      | _ \<Rightarrow> (case display_text c of Some t \<Rightarrow> md_escape t | None \<Rightarrow> []))"

definition md_line :: "string list \<Rightarrow> string" where
  "md_line cells = ''| '' @ join '' | '' cells @ '' |'' @ [newline]"

definition md_start :: "string list \<Rightarrow> string" where
  "md_start columns =
     (if columns = [] then []
      else md_line (map md_escape columns)
        @ ''|'' @ concat (replicate (length columns) '' --- |'') @ [newline])"

definition md_write_rows :: "nat \<Rightarrow> cell_text list list \<Rightarrow> string" where
  "md_write_rows width rows =
     concat (map (\<lambda>r. md_line (map (\<lambda>i. case byte_at r i of Some c \<Rightarrow> md_cell c | None \<Rightarrow> [])
       [0..<max width (length r)])) rows)"

section \<open>SQL INSERT\<close>

text \<open>The driver's own identifier quoting is an argument of the sink, here and in the code.\<close>

record insert_sink =
  is_table :: string
  is_columns :: string
  is_backslash :: bool

fun collect_results :: "('e + 'a) list \<Rightarrow> 'e + 'a list" where
  "collect_results [] = Inr []"
| "collect_results (Inl e # xs) = Inl e"
| "collect_results (Inr x # xs) =
     (case collect_results xs of Inl e \<Rightarrow> Inl e | Inr ys \<Rightarrow> Inr (x # ys))"

text \<open>The code returns the errors of \<open>new\<close> as their texts.\<close>

datatype insert_error = NoTableName | QuoteFailed db_error

definition new_insert_sink ::
  "string \<Rightarrow> sql_dialect \<Rightarrow> (string \<Rightarrow> db_error + string) \<Rightarrow> insert_error + insert_sink" where
  "new_insert_sink table0 dialect quote =
     (let table = trim table0 in
      if table = [] then Inl NoTableName
      else case collect_results (map (\<lambda>part. quote (trim part)) (split_char (CHR ''.'') table)) of
          Inl e \<Rightarrow> Inl (QuoteFailed e)
        | Inr parts \<Rightarrow> Inr \<lparr>is_table = join ''.'' parts, is_columns = [], is_backslash = (dialect = Mysql)\<rparr>)"

definition sql_string :: "bool \<Rightarrow> string \<Rightarrow> string" where
  "sql_string backslashes t =
     (let e = replace_char quote_char [quote_char, quote_char] t;
          e' = (if backslashes then replace_char backslash [backslash, backslash] e else e)
      in [quote_char] @ e' @ [quote_char])"

fun sql_literal :: "bool \<Rightarrow> cell_text \<Rightarrow> string" where
  "sql_literal bs CtNull = ''NULL''"
| "sql_literal bs CtAbsent = ''NULL''"
| "sql_literal bs (CtBool b) = (if b then ''TRUE'' else ''FALSE'')"
| "sql_literal bs (CtI64 n) = show_int n"
| "sql_literal bs (CtU64 n) = show_nat n"
| "sql_literal bs (CtF64 x) = (if is_finite x then x else sql_string bs x)"
| "sql_literal bs (CtJson s) = sql_string bs s"
| "sql_literal bs (CtText s) = sql_string bs s"

definition insert_start ::
  "(string \<Rightarrow> db_error + string) \<Rightarrow> string list \<Rightarrow> insert_sink \<Rightarrow> db_error + insert_sink" where
  "insert_start quote columns s =
     (case collect_results (map quote columns) of
        Inl e \<Rightarrow> Inl e
      | Inr cs \<Rightarrow> Inr (s\<lparr>is_columns := join '', '' cs\<rparr>))"

definition insert_row :: "insert_sink \<Rightarrow> cell_text list \<Rightarrow> string" where
  "insert_row s r =
     (let vals = join '', '' (map (sql_literal (is_backslash s)) r)
      in ''INSERT INTO '' @ is_table s
         @ (if is_columns s = [] then [] else '' ('' @ is_columns s @ '')'')
         @ '' VALUES ('' @ vals @ '');'' @ [newline])"

definition insert_write_rows :: "insert_sink \<Rightarrow> cell_text list list \<Rightarrow> string" where
  "insert_write_rows s rows = concat (map (insert_row s) rows)"

section \<open>JSON and NDJSON\<close>

fun json_cell :: "json_codec \<Rightarrow> cell_text \<Rightarrow> string" where
  "json_cell js CtNull = ''null''"
| "json_cell js CtAbsent = ''null''"
| "json_cell js (CtBool b) = (if b then ''true'' else ''false'')"
| "json_cell js (CtI64 n) = show_int n"
| "json_cell js (CtU64 n) = show_nat n"
| "json_cell js (CtF64 x) = (if is_finite x then js_float js x else js_string js x)"
| "json_cell js (CtJson raw) = (if js_parse js raw \<noteq> None then raw else js_string js raw)"
| "json_cell js (CtText s) = js_string js s"

definition json_row :: "json_codec \<Rightarrow> string list \<Rightarrow> cell_text list \<Rightarrow> string" where
  "json_row js columns r =
     ''{'' @ join '','' (map (\<lambda>(col, c). js_string js col @ '':'' @ json_cell js c)
       (filter (\<lambda>(col, c). c \<noteq> CtAbsent) (zip columns r))) @ ''}''"

record json_sink =
  jk_columns :: "string list"
  jk_wrote_any :: bool
  jk_out :: string

definition json_start :: "string list \<Rightarrow> json_sink" where
  "json_start columns = \<lparr>jk_columns = columns, jk_wrote_any = False, jk_out = ''[''\<rparr>"

definition json_write_row :: "json_codec \<Rightarrow> cell_text list \<Rightarrow> json_sink \<Rightarrow> json_sink" where
  "json_write_row js r s =
     s\<lparr>jk_wrote_any := True,
       jk_out := jk_out s @ (if jk_wrote_any s then '','' else []) @ json_row js (jk_columns s) r\<rparr>"

definition json_write_rows :: "json_codec \<Rightarrow> cell_text list list \<Rightarrow> json_sink \<Rightarrow> json_sink" where
  "json_write_rows js rows s = fold (json_write_row js) rows s"

definition json_finish :: "json_sink \<Rightarrow> string" where
  "json_finish s = jk_out s @ '']'' @ [newline]"

definition ndjson_write_rows :: "json_codec \<Rightarrow> string list \<Rightarrow> cell_text list list \<Rightarrow> string" where
  "ndjson_write_rows js columns rows = concat (map (\<lambda>r. json_row js columns r @ [newline]) rows)"

section \<open>A CSV reader gets the rows back\<close>

text \<open>
  The reader of RFC 4180: a field is quoted or plain, and a plain one holds no line break; a
  record ends at CRLF.  It returns the field
  and the rest, from the delimiter or line break on.
\<close>

fun read_plain :: "char \<Rightarrow> string \<Rightarrow> string \<times> string" where
  "read_plain d [] = ([], [])"
| "read_plain d (c # cs) =
     (if c = d \<or> c = carriage_return \<or> c = newline then ([], c # cs)
      else (let (f, r) = read_plain d cs in (c # f, r)))"

fun read_quoted :: "string \<Rightarrow> string \<times> string" where
  "read_quoted [] = ([], [])"
| "read_quoted (c # cs) =
     (if c = dquote then
        (case cs of
           d # r \<Rightarrow> if d = dquote then (let (f, r') = read_quoted r in (dquote # f, r')) else ([], cs)
         | [] \<Rightarrow> ([], []))
      else (let (f, r) = read_quoted cs in (c # f, r)))"

definition read_field :: "char \<Rightarrow> string \<Rightarrow> string \<times> string" where
  "read_field d s = (case s of c # cs \<Rightarrow> if c = dquote then read_quoted cs else read_plain d s | [] \<Rightarrow> ([], []))"

text \<open>The fields of one record, given how many are expected at most.\<close>

fun read_record :: "nat \<Rightarrow> char \<Rightarrow> string \<Rightarrow> string list \<times> string" where
  "read_record 0 d s = ([], s)"
| "read_record (Suc n) d s =
     (case read_field d s of
        (f, c # r) \<Rightarrow>
          if c = d then (let (fs, r') = read_record n d r in (f # fs, r'))
          else ([f], drop 1 r)
      | (f, []) \<Rightarrow> ([f], []))"

fun read_csv :: "nat \<Rightarrow> char \<Rightarrow> string \<Rightarrow> string list list" where
  "read_csv 0 d s = []"
| "read_csv (Suc n) d s =
     (if s = [] then [] else (let (fs, r) = read_record (length s) d s in fs # read_csv n d r))"

definition csv_delimiter :: "char \<Rightarrow> bool" where
  "csv_delimiter d = (d \<noteq> dquote \<and> d \<noteq> carriage_return \<and> d \<noteq> newline)"

text \<open>What may follow a field: a delimiter or a line break.\<close>

definition field_end :: "char \<Rightarrow> string \<Rightarrow> bool" where
  "field_end d r = (\<exists>c cs. r = c # cs \<and> (c = d \<or> c = carriage_return))"

lemma read_plain_end:
  "d \<notin> set f \<Longrightarrow> carriage_return \<notin> set f \<Longrightarrow> newline \<notin> set f \<Longrightarrow> field_end d r
    \<Longrightarrow> read_plain d (f @ r) = (f, r)"
  by (induction f) (auto simp: field_end_def)

lemma read_quoted_end:
  assumes "field_end d r" and "csv_delimiter d"
  shows "read_quoted (replace_char dquote [dquote, dquote] f @ dquote # r) = (f, r)"
proof (induction f)
  case Nil
  with assms show ?case by (auto simp: replace_char_def field_end_def csv_delimiter_def)
next
  case (Cons c f)
  then show ?case by (simp add: replace_char_def)
qed

lemma read_field_body:
  assumes "csv_delimiter d" and "field_end d r"
  shows "read_field d (csv_body d f @ r) = (f, r)"
proof (cases "needs_quoting d f")
  case True
  then show ?thesis using read_quoted_end [OF assms(2,1), of f] by (simp add: csv_body_def read_field_def)
next
  case False
  then have f: "d \<notin> set f" "carriage_return \<notin> set f" "newline \<notin> set f" "dquote \<notin> set f" by (auto simp: needs_quoting_def)
  obtain c cs where r: "r = c # cs" "c = d \<or> c = carriage_return" using assms(2) by (auto simp: field_end_def)
  have "read_field d (f @ r) = read_plain d (f @ r)"
    using f(4) r assms(1) by (cases f) (auto simp: read_field_def csv_delimiter_def)
  with read_plain_end [OF f(1,2,3) assms(2)] False show ?thesis by (simp add: csv_body_def)
qed

definition csv_tail :: "char \<Rightarrow> string list \<Rightarrow> string" where
  "csv_tail d fs = concat (map (\<lambda>f. d # csv_body d f) fs) @ crlf"

lemma csv_record_Cons: "csv_record d (f # fs) = csv_body d f @ csv_tail d fs"
proof -
  have "[0..<length (f # fs)] = 0 # map Suc [0..<length fs]"
    by (simp add: map_Suc_upt upt_conv_Cons del: upt_Suc)
  then have "map (\<lambda>i. write_csv_field d ((f # fs) ! i) (i = 0)) [0..<length (f # fs)]
      = csv_body d f # map (\<lambda>i. d # csv_body d (fs ! i)) [0..<length fs]"
    by (simp only:) (simp add: write_csv_field_def)
  also have "map (\<lambda>i. d # csv_body d (fs ! i)) [0..<length fs] = map (\<lambda>f. d # csv_body d f) fs"
    by (rule nth_equalityI) auto
  finally show ?thesis by (simp add: csv_record_def csv_tail_def)
qed

lemma csv_tail_end: "field_end d (csv_tail d fs @ r)"
  by (cases fs) (auto simp: csv_tail_def crlf_def field_end_def)

lemma csv_tail_length: "length fs + 2 \<le> length (csv_tail d fs)"
  by (induction fs) (auto simp: csv_tail_def crlf_def)

lemma read_record_written:
  assumes "csv_delimiter d"
  shows "length fs < n \<Longrightarrow> read_record n d (csv_body d f @ csv_tail d fs @ r) = (f # fs, r)"
proof (induction fs arbitrary: f n)
  case Nil
  then obtain k where "n = Suc k" by (cases n) auto
  with read_field_body [OF assms csv_tail_end, of f "[]" r] assms show ?case
    by (auto simp: csv_tail_def crlf_def csv_delimiter_def)
next
  case (Cons g gs)
  then obtain k where n: "n = Suc k" "length gs < k" by (cases n) auto
  have "csv_tail d (g # gs) @ r = d # csv_body d g @ csv_tail d gs @ r" by (simp add: csv_tail_def)
  with read_field_body [OF assms csv_tail_end, of f "g # gs" r] Cons.IH [OF n(2), of g] n(1) show ?case
    by simp
qed

lemma read_csv_record:
  assumes "csv_delimiter d" and "fs \<noteq> []"
  shows "read_csv (Suc n) d (csv_record d fs @ r) = fs # read_csv n d r"
proof -
  obtain f gs where fs: "fs = f # gs" using assms(2) by (cases fs) auto
  have "length gs < length (csv_record d fs @ r)"
    using csv_tail_length [of gs d] by (simp add: fs csv_record_Cons)
  from read_record_written [OF assms(1) this, of f r]
  have "read_record (length (csv_record d fs @ r)) d (csv_record d fs @ r) = (fs, r)"
    by (simp add: fs csv_record_Cons)
  moreover have "csv_record d fs @ r \<noteq> []" by (simp add: csv_record_def crlf_def)
  ultimately show ?thesis by simp
qed

text \<open>
  C36.  A CSV export reads back: an RFC 4180 reader takes the text of the header and the rows, with
  any cell text whatsoever (quotes, delimiters, line breaks), back to the header and the texts of
  the cells.
\<close>

theorem csv_roundtrip:
  assumes "csv_delimiter d" and "columns \<noteq> []" and "list_all (\<lambda>r. r \<noteq> []) rows"
  shows "read_csv (Suc (length rows)) d (csv_start d columns @ csv_write_rows d rows)
    = columns # map (map csv_text) rows"
proof -
  have "read_csv (length rows) d (csv_write_rows d rows) = map (map csv_text) rows"
    using assms(3)
  proof (induction rows)
    case (Cons r rs)
    then show ?case using read_csv_record [OF assms(1), of "map csv_text r" "length rs" "csv_write_rows d rs"]
      by (simp add: csv_write_rows_def)
  qed (simp add: csv_write_rows_def)
  with read_csv_record [OF assms(1,2), of "length rows"] assms(2) show ?thesis by (simp add: csv_start_def)
qed

lemma csv_roundtrip_witness:
  "read_csv 2 (CHR '','') (csv_start (CHR '','') [''a,b''] @ csv_write_rows (CHR '','') [[CtText ''x, y'']])
    = [[''a,b''], [''x, y'']]"
  using csv_roundtrip [of "CHR '',''" "[''a,b'']" "[[CtText ''x, y'']]"]
  by (simp add: csv_delimiter_def csv_text_def numeral_2_eq_2 del: read_csv.simps)

section \<open>A SQL literal cannot be left\<close>







section \<open>A Markdown cell stays in its cell\<close>

text \<open>The pipes of a text that no backslash escapes.\<close>

fun open_pipes :: "string \<Rightarrow> nat" where
  "open_pipes [] = 0"
| "open_pipes [c] = (if c = CHR ''|'' then 1 else 0)"
| "open_pipes (c # d # cs) =
     (if c = backslash then open_pipes cs
      else (if c = CHR ''|'' then 1 else 0) + open_pipes (d # cs))"

text \<open>Every backslash starts an escaped backslash or pipe, and every pipe ends one.\<close>

fun escaped_text :: "string \<Rightarrow> bool" where
  "escaped_text [] = True"
| "escaped_text [c] = (c \<noteq> backslash \<and> c \<noteq> CHR ''|'')"
| "escaped_text (c # d # cs) =
     (if c = backslash then (d = backslash \<or> d = CHR ''|'') \<and> escaped_text cs
      else c \<noteq> CHR ''|'' \<and> escaped_text (d # cs))"

lemma escaped_no_pipes: "escaped_text s \<Longrightarrow> open_pipes s = 0"
  by (induction s rule: escaped_text.induct) (auto split: if_splits)

lemma escaped_Cons: "c \<noteq> backslash \<Longrightarrow> c \<noteq> CHR ''|'' \<Longrightarrow> escaped_text (c # s) = escaped_text s"
  by (cases s) auto

lemma escaped_pipes:
  "escaped_text (replace_char (CHR ''|'') [backslash, CHR ''|''] (replace_char backslash [backslash, backslash] t))"
proof (induction t)
  case (Cons c t)
  then show ?case
    by (cases "c = backslash"; cases "c = CHR ''|''") (auto simp: replace_char_def escaped_Cons)
qed (simp add: replace_char_def)

lemma escaped_replace:
  assumes "k \<noteq> backslash" "k \<noteq> CHR ''|''"
  shows "escaped_text s \<Longrightarrow> escaped_text (replace_char k ''<br>'' s)"
proof (induction s rule: escaped_text.induct)
  case (2 c)
  then show ?case by (auto simp: replace_char_def)
next
  case (3 c d cs)
  with assms show ?case
    by (cases "c = backslash") (auto simp: replace_char_def escaped_Cons)
qed (simp add: replace_char_def)

lemma replace_pair_skip: "x \<noteq> a \<Longrightarrow> replace_pair a b r (x # s) = x # replace_pair a b r s"
  by (cases s) auto

lemma escaped_replace_pair:
  "escaped_text s \<Longrightarrow> escaped_text (replace_pair carriage_return newline ''<br>'' s)"
proof (induction s rule: escaped_text.induct)
  case (3 c d cs)
  show ?case
  proof (cases "c = backslash")
    case True
    with 3 show ?thesis by (cases cs) (auto simp: escaped_Cons)
  next
    case False
    with 3 have "escaped_text (d # cs)" "c \<noteq> CHR ''|''" by auto
    with 3 False show ?thesis
      by (cases "c = carriage_return \<and> d = newline") (auto simp: escaped_Cons replace_pair_skip)
  qed
qed simp_all

text \<open>
  A Markdown cell stays in its cell and its row: the escaped text of any value holds no line
  break and no pipe that is not escaped.
\<close>

theorem md_escape_contained:
  "open_pipes (md_escape t) = 0 \<and> newline \<notin> set (md_escape t) \<and> carriage_return \<notin> set (md_escape t)"
proof -
  have "escaped_text (md_escape t)"
    unfolding md_escape_def by (intro escaped_replace escaped_replace_pair escaped_pipes) simp_all
  moreover have "newline \<notin> set (md_escape t)" "carriage_return \<notin> set (md_escape t)"
    by (auto simp: md_escape_def replace_char_def split: if_splits)
  ultimately show ?thesis by (simp add: escaped_no_pipes)
qed

end
