(* ===== verification/Budget.thy ===== *)
theory Budget
  imports DG_Prelude
begin

text \<open>
  The memory budget of \<open>crates/datagrep-core/src/store.rs\<close>: one atomic counter that all
  result stores share (\<open>GlobalBudget\<close>) and the lease each store holds on it
  (\<open>BudgetLease\<close>).  First the calls as functions of the counter, as one thread sees them;
  then the same code at the grain of its atomic instructions, with any number of leases
  interleaved, where the accounting theorem is proved.  A \<open>usize\<close> is a natural number
  below \<open>2 ^ 64\<close>; \<open>fetch_add\<close> and \<open>fetch_sub\<close> wrap.
\<close>

section \<open>The calls\<close>

definition USIZE_MAX :: nat where "USIZE_MAX = 2 ^ 64 - 1"

definition saturating_add :: "nat \<Rightarrow> nat \<Rightarrow> nat" where
  "saturating_add a b = min (a + b) USIZE_MAX"

definition wrapping_add :: "nat \<Rightarrow> nat \<Rightarrow> nat" where
  "wrapping_add a b = (a + b) mod 2 ^ 64"

definition wrapping_sub :: "nat \<Rightarrow> nat \<Rightarrow> nat" where
  "wrapping_sub a b = (a + (2 ^ 64 - b)) mod 2 ^ 64"

definition budget_try_reserve :: "nat \<Rightarrow> nat \<Rightarrow> nat \<Rightarrow> bool \<times> nat" where
  "budget_try_reserve limit bytes used =
     (let goal = saturating_add used bytes
      in if limit < goal then (False, used) else (True, goal))"

definition budget_release :: "nat \<Rightarrow> nat \<Rightarrow> nat" where
  "budget_release bytes used = (if bytes = 0 then used else wrapping_sub used (min bytes used))"

definition budget_available :: "nat \<Rightarrow> nat \<Rightarrow> nat" where
  "budget_available limit used = limit - used"

text \<open>A lease call takes the shared counter and the lease's own \<open>held\<close> and returns both.\<close>

definition lease_try_reserve :: "nat \<Rightarrow> nat \<Rightarrow> nat \<Rightarrow> nat \<Rightarrow> bool \<times> nat \<times> nat" where
  "lease_try_reserve limit bytes used held =
     (case budget_try_reserve limit bytes used of
        (True, used') \<Rightarrow> (True, used', wrapping_add held bytes)
      | (False, used') \<Rightarrow> (False, used', held))"

definition lease_release :: "nat \<Rightarrow> nat \<Rightarrow> nat \<Rightarrow> nat \<times> nat" where
  "lease_release bytes used held =
     (let n = min bytes held
      in if 0 < n then (budget_release n used, wrapping_sub held n) else (used, held))"

definition lease_drop :: "nat \<Rightarrow> nat \<Rightarrow> nat" where
  "lease_drop used held = (if 0 < held then budget_release held used else used)"

lemma wrapping_sub_le: "b \<le> a \<Longrightarrow> a < 2 ^ 64 \<Longrightarrow> wrapping_sub a b = a - b"
proof -
  assume "b \<le> a" "a < 2 ^ 64"
  then have "a + (2 ^ 64 - b) = (a - b) + 2 ^ 64" by simp
  with \<open>a < 2 ^ 64\<close> show ?thesis unfolding wrapping_sub_def by (simp only: mod_add_self2 mod_less)
qed

lemma wrapping_add_lt: "a + b < 2 ^ 64 \<Longrightarrow> wrapping_add a b = a + b"
  by (simp add: wrapping_add_def)

lemma reserve_ok:
  assumes "limit < USIZE_MAX" and "budget_try_reserve limit bytes used = (True, used')"
  shows "used' = used + bytes" and "used + bytes \<le> limit"
  using assms by (auto simp: budget_try_reserve_def saturating_add_def Let_def min_def split: if_splits)

lemma release_exact: "n \<le> used \<Longrightarrow> used < 2 ^ 64 \<Longrightarrow> budget_release n used = used - n"
  by (simp add: budget_release_def wrapping_sub_le min_def)

section \<open>The atomic instructions, interleaved\<close>

text \<open>
  What one lease is in the middle of.  \<open>Reserving b u\<close>: in the compare-and-swap loop of
  \<open>try_reserve\<close>, having read \<open>u\<close>.  \<open>Reserved b\<close>: the swap succeeded, \<open>held\<close> is
  still to be raised.  \<open>Releasing n\<close>: \<open>held\<close> was lowered, the budget not yet.
  \<open>Subtracting n\<close>: the \<open>min\<close> with the counter was taken, \<open>fetch_sub\<close> is next.
  A lease belongs to one store task, so its own \<open>held\<close> has no other writer.
\<close>

datatype lease_pc =
    LeaseIdle
  | Reserving nat nat
  | Reserved nat
  | Releasing nat
  | Subtracting nat

record lease =
  ls_held :: nat
  ls_pc :: lease_pc

record budget_state =
  bs_used :: nat
  bs_leases :: "lease list"

definition set_lease :: "nat \<Rightarrow> lease \<Rightarrow> budget_state \<Rightarrow> budget_state" where
  "set_lease i l s = s\<lparr>bs_leases := (bs_leases s)[i := l]\<rparr>"

inductive budget_step :: "nat \<Rightarrow> budget_state \<Rightarrow> budget_state \<Rightarrow> bool" for limit where
  load: "i < length (bs_leases s) \<Longrightarrow> l = bs_leases s ! i \<Longrightarrow> ls_pc l = LeaseIdle \<Longrightarrow>
    budget_step limit s (set_lease i (l\<lparr>ls_pc := Reserving b (bs_used s)\<rparr>) s)"
| refuse: "i < length (bs_leases s) \<Longrightarrow> l = bs_leases s ! i \<Longrightarrow> ls_pc l = Reserving b u \<Longrightarrow>
    limit < saturating_add u b \<Longrightarrow> budget_step limit s (set_lease i (l\<lparr>ls_pc := LeaseIdle\<rparr>) s)"
| swap: "i < length (bs_leases s) \<Longrightarrow> l = bs_leases s ! i \<Longrightarrow> ls_pc l = Reserving b u \<Longrightarrow>
    \<not> limit < saturating_add u b \<Longrightarrow> bs_used s = u \<Longrightarrow>
    budget_step limit s (set_lease i (l\<lparr>ls_pc := Reserved b\<rparr>) (s\<lparr>bs_used := saturating_add u b\<rparr>))"
| swap_fails: "i < length (bs_leases s) \<Longrightarrow> l = bs_leases s ! i \<Longrightarrow> ls_pc l = Reserving b u \<Longrightarrow>
    \<not> limit < saturating_add u b \<Longrightarrow>
    budget_step limit s (set_lease i (l\<lparr>ls_pc := Reserving b (bs_used s)\<rparr>) s)"
| hold: "i < length (bs_leases s) \<Longrightarrow> l = bs_leases s ! i \<Longrightarrow> ls_pc l = Reserved b \<Longrightarrow>
    budget_step limit s (set_lease i \<lparr>ls_held = wrapping_add (ls_held l) b, ls_pc = LeaseIdle\<rparr> s)"
| lower: "i < length (bs_leases s) \<Longrightarrow> l = bs_leases s ! i \<Longrightarrow> ls_pc l = LeaseIdle \<Longrightarrow>
    n = min b (ls_held l) \<Longrightarrow> 0 < n \<Longrightarrow>
    budget_step limit s (set_lease i \<lparr>ls_held = wrapping_sub (ls_held l) n, ls_pc = Releasing n\<rparr> s)"
| dropped: "i < length (bs_leases s) \<Longrightarrow> l = bs_leases s ! i \<Longrightarrow> ls_pc l = LeaseIdle \<Longrightarrow>
    0 < ls_held l \<Longrightarrow>
    budget_step limit s (set_lease i \<lparr>ls_held = 0, ls_pc = Releasing (ls_held l)\<rparr> s)"
| read_used: "i < length (bs_leases s) \<Longrightarrow> l = bs_leases s ! i \<Longrightarrow> ls_pc l = Releasing n \<Longrightarrow>
    budget_step limit s (set_lease i (l\<lparr>ls_pc := Subtracting (min n (bs_used s))\<rparr>) s)"
| subtract: "i < length (bs_leases s) \<Longrightarrow> l = bs_leases s ! i \<Longrightarrow> ls_pc l = Subtracting n \<Longrightarrow>
    budget_step limit s
      (set_lease i (l\<lparr>ls_pc := LeaseIdle\<rparr>) (s\<lparr>bs_used := wrapping_sub (bs_used s) n\<rparr>))"

definition budget_start :: "nat \<Rightarrow> budget_state" where
  "budget_start n = \<lparr>bs_used = 0, bs_leases = replicate n \<lparr>ls_held = 0, ls_pc = LeaseIdle\<rparr>\<rparr>"

inductive budget_reachable :: "nat \<Rightarrow> budget_state \<Rightarrow> bool" for limit where
  budget_init: "budget_reachable limit (budget_start n)"
| budget_next: "budget_reachable limit s \<Longrightarrow> budget_step limit s s' \<Longrightarrow> budget_reachable limit s'"

section \<open>The accounting\<close>

fun in_flight :: "lease_pc \<Rightarrow> nat" where
  "in_flight LeaseIdle = 0"
| "in_flight (Reserving b u) = 0"
| "in_flight (Reserved b) = b"
| "in_flight (Releasing n) = n"
| "in_flight (Subtracting n) = n"

definition claim :: "lease \<Rightarrow> nat" where
  "claim l = ls_held l + in_flight (ls_pc l)"

definition claims :: "budget_state \<Rightarrow> nat" where
  "claims s = sum_list (map claim (bs_leases s))"

definition budget_inv :: "nat \<Rightarrow> budget_state \<Rightarrow> bool" where
  "budget_inv limit s = (bs_used s = claims s \<and> bs_used s \<le> limit)"

lemma claims_set_lease:
  assumes "i < length (bs_leases s)"
  shows "claims (set_lease i l s) + claim (bs_leases s ! i) = claims s + claim l"
proof -
  have "claim (bs_leases s ! i) \<le> sum_list (map claim (bs_leases s))"
    using assms by (intro member_le_sum_list) auto
  with assms show ?thesis
    by (simp add: claims_def set_lease_def map_update sum_list_update)
qed

lemma claims_same:
  "i < length (bs_leases s) \<Longrightarrow> claim l = claim (bs_leases s ! i) \<Longrightarrow> claims (set_lease i l s) = claims s"
  using claims_set_lease [of i s l] by simp

lemma claim_le: "i < length (bs_leases s) \<Longrightarrow> claim (bs_leases s ! i) \<le> claims s"
  unfolding claims_def by (intro member_le_sum_list) auto

lemma set_lease_used [simp]: "bs_used (set_lease i l s) = bs_used s"
  by (simp add: set_lease_def)

lemma claims_used [simp]: "claims (s\<lparr>bs_used := u\<rparr>) = claims s"
  by (simp add: claims_def)

lemma claims_set_used [simp]: "claims (set_lease i l (s\<lparr>bs_used := u\<rparr>)) = claims (set_lease i l s)"
  by (simp add: claims_def set_lease_def)

lemma budget_step_inv:
  assumes "budget_step limit s s'" and "budget_inv limit s" and "limit < USIZE_MAX"
  shows "budget_inv limit s'"
proof -
  have small: "limit < 2 ^ 64" using assms(3) by (simp add: USIZE_MAX_def)
  from assms(1,2) show ?thesis
  proof (induction rule: budget_step.induct)
    case (swap i s l b u)
    with assms(3) have "saturating_add u b = u + b" "u + b \<le> limit"
      by (auto simp: saturating_add_def min_def split: if_splits)
    with swap claims_set_lease [of i s "l\<lparr>ls_pc := Reserved b\<rparr>"]
    show ?case by (simp add: budget_inv_def claim_def)
  next
    case (hold i s l b)
    then have "ls_held l + b < 2 ^ 64"
      using claim_le [of i s] small by (simp add: budget_inv_def claim_def)
    with hold claims_set_lease [of i s "\<lparr>ls_held = wrapping_add (ls_held l) b, ls_pc = LeaseIdle\<rparr>"]
    show ?case by (simp add: budget_inv_def claim_def wrapping_add_lt)
  next
    case (lower i s l n b)
    then have "wrapping_sub (ls_held l) n = ls_held l - n" and "n \<le> ls_held l"
      using claim_le [of i s] small by (auto simp: budget_inv_def claim_def intro!: wrapping_sub_le)
    with lower claims_set_lease [of i s "\<lparr>ls_held = wrapping_sub (ls_held l) n, ls_pc = Releasing n\<rparr>"]
    show ?case by (simp add: budget_inv_def claim_def)
  next
    case (read_used i s l n)
    then have "min n (bs_used s) = n"
      using claim_le [of i s] by (simp add: budget_inv_def claim_def)
    with read_used claims_set_lease [of i s "l\<lparr>ls_pc := Subtracting (min n (bs_used s))\<rparr>"]
    show ?case by (simp add: budget_inv_def claim_def)
  next
    case (subtract i s l n)
    then have "n \<le> bs_used s" "bs_used s < 2 ^ 64"
      using claim_le [of i s] small by (auto simp: budget_inv_def claim_def)
    with subtract claims_set_lease [of i s "l\<lparr>ls_pc := LeaseIdle\<rparr>"]
    show ?case by (auto simp: budget_inv_def claim_def wrapping_sub_le)
  qed (simp_all add: budget_inv_def claims_same claim_def)
qed

lemma budget_reachable_inv:
  "budget_reachable limit s \<Longrightarrow> limit < USIZE_MAX \<Longrightarrow> budget_inv limit s"
proof (induction rule: budget_reachable.induct)
  case (budget_init n)
  show ?case by (simp add: budget_inv_def budget_start_def claims_def claim_def sum_list_replicate)
next
  case (budget_next s s')
  then show ?case by (blast intro: budget_step_inv)
qed

text \<open>
  C9.  The budget is exact under every interleaving: however the atomic instructions of any
  number of leases interleave, the shared counter is the sum of what the leases hold and have
  in flight, and never above the limit; \<open>release\<close>'s read of the counter before its
  \<open>fetch_sub\<close> never makes it under- or overflow.
\<close>

theorem budget_accounting:
  assumes "budget_reachable limit s" and "limit < USIZE_MAX"
  shows "bs_used s = claims s \<and> bs_used s \<le> limit"
  using budget_reachable_inv [OF assms] by (simp add: budget_inv_def)

lemma budget_accounting_witness:
  "bs_used (set_lease 0 \<lparr>ls_held = 0, ls_pc = Reserved 5\<rparr> ((budget_start 2)\<lparr>bs_used := 5\<rparr>)) \<le> 9"
proof -
  let ?s1 = "set_lease 0 \<lparr>ls_held = 0, ls_pc = Reserving 5 0\<rparr> (budget_start 2)"
  have "budget_step 9 (budget_start 2) ?s1"
    using budget_step.load [of 0 "budget_start 2" _ 9 5] by (simp add: budget_start_def)
  then have r1: "budget_reachable 9 ?s1" by (rule budget_next [OF budget_init])
  have "budget_step 9 ?s1 (set_lease 0 \<lparr>ls_held = 0, ls_pc = Reserved 5\<rparr> (?s1\<lparr>bs_used := 5\<rparr>))"
    using budget_step.swap [of 0 ?s1 _ 5 0 9]
    by (simp add: budget_start_def set_lease_def saturating_add_def USIZE_MAX_def)
  from budget_accounting [OF budget_next [OF r1 this]] show ?thesis
    by (simp add: USIZE_MAX_def)
qed

text \<open>
  A chunk larger than the whole budget can never be reserved, in whatever state: the
  store that waits for the reservation waits until it is cancelled.
\<close>

theorem oversized_never_reserved:
  assumes "limit < bytes" and "limit < USIZE_MAX"
  shows "lease_try_reserve limit bytes used held = (False, used, held)"
  using assms
  by (auto simp: lease_try_reserve_def budget_try_reserve_def saturating_add_def Let_def min_def)

lemma oversized_never_reserved_witness: "lease_try_reserve 10 11 0 0 = (False, 0, 0)"
  by (rule oversized_never_reserved) (simp_all add: USIZE_MAX_def)

end
