(* ===== verification/Feeder.thy ===== *)
theory Feeder
  imports Driver_Api
begin

text \<open>
  The feeder of \<open>crates/datagrep-core/src/feeder.rs\<close>: the task that pulls batches from a driver
  cursor and sends them to the result store, adapting how many rows it asks for, stopping at the
  row cap, and parking when it is told to.

  The task is a state machine whose states are its await points; an event is what resolves one
  (a wake-up through the handle, the cancel token, a channel permit, the cursor's answer).  The
  code between two awaits is \<open>loop_top\<close> and \<open>on_batch\<close>.  The truncated double quotient of
  \<open>cap_by_bytes\<close> is an argument \<open>quot\<close> (byte limit, bytes and rows of the chunk), so that
  nothing rests on its rounding.
\<close>

section \<open>Policy\<close>

record feeder_policy =
  fp_start_rows :: nat
  fp_min_rows :: nat
  fp_max_rows :: nat
  fp_target_ms :: nat
  fp_window_lo :: nat
  fp_window_hi :: nat
  fp_max_bytes :: nat
  fp_soft_cap :: nat

definition default_feeder_policy :: feeder_policy where
  "default_feeder_policy =
     \<lparr>fp_start_rows = 500, fp_min_rows = 100, fp_max_rows = 100000, fp_target_ms = 80,
      fp_window_lo = 40, fp_window_hi = 120, fp_max_bytes = 4 * 1024 * 1024, fp_soft_cap = 500000\<rparr>"

definition for_fetch_rows :: "nat \<Rightarrow> feeder_policy" where
  "for_fetch_rows start = default_feeder_policy\<lparr>fp_start_rows := max start 1\<rparr>"

text \<open>\<open>Ord::clamp\<close>; it panics when the bounds are crossed, which \<open>policy_ok\<close> excludes.\<close>

definition clamp :: "nat \<Rightarrow> nat \<Rightarrow> nat \<Rightarrow> nat" where
  "clamp lo hi n = (if n < lo then lo else if hi < n then hi else n)"

definition u64_saturating_mul :: "nat \<Rightarrow> nat \<Rightarrow> nat" where
  "u64_saturating_mul a b = min (a * b) (2 ^ 64 - 1)"

definition next_rows :: "feeder_policy \<Rightarrow> nat \<Rightarrow> nat \<Rightarrow> nat" where
  "next_rows p prev ms =
     (if fp_window_lo p \<le> ms \<and> ms \<le> fp_window_hi p then prev
      else clamp (fp_min_rows p) (fp_max_rows p)
             (u64_saturating_mul prev (fp_target_ms p) div max ms 1))"

definition cap_by_bytes ::
  "(nat \<Rightarrow> nat \<Rightarrow> nat \<Rightarrow> nat) \<Rightarrow> feeder_policy \<Rightarrow> nat \<Rightarrow> nat \<Rightarrow> nat \<Rightarrow> nat" where
  "cap_by_bytes quot p rows chunk_bytes chunk_rows =
     (if chunk_rows = 0 \<or> chunk_bytes = 0 then rows
      else min rows (clamp (fp_min_rows p) (fp_max_rows p) (quot (fp_max_bytes p) chunk_bytes chunk_rows)))"

definition first_hint :: "feeder_policy \<Rightarrow> nat" where
  "first_hint p =
     clamp (min (fp_min_rows p) (max (fp_start_rows p) 1)) (fp_max_rows p) (fp_start_rows p)"

section \<open>The state machine\<close>

datatype park_reason = Backpressure | MemoryBudget | HotWindow | ViewportIdle

fun show_park_reason :: "park_reason \<Rightarrow> string" where
  "show_park_reason Backpressure = ''waiting for the result store''"
| "show_park_reason MemoryBudget = ''result memory budget reached''"
| "show_park_reason HotWindow = ''hot window full''"
| "show_park_reason ViewportIdle = ''paused: scroll to load more''"

datatype feed_state =
    Streaming | FeedParked park_reason | FeedCapped | FeedDone | FeedCancelled | FeedFailed db_error

fun feed_terminal :: "feed_state \<Rightarrow> bool" where
  "feed_terminal FeedCapped = True"
| "feed_terminal FeedDone = True"
| "feed_terminal FeedCancelled = True"
| "feed_terminal (FeedFailed _) = True"
| "feed_terminal _ = False"

text \<open>Where the task waits: parked, for a channel permit, for the cursor, or not any more.\<close>

datatype feed_pc = AtPark | AtReserve | AtFetch | AtEnd

record feeder =
  fe_pc :: feed_pc
  fe_paused :: bool
  fe_reason :: park_reason
  fe_rows :: nat
  fe_batches :: nat
  fe_hint :: nat
  fe_prev_bytes :: nat
  fe_last_hint :: nat
  fe_state :: feed_state
  fe_sent :: "wire_batch list"

datatype feed_event =
    EvPark park_reason
  | EvResume
  | EvCancel
  | EvPermit
  | EvClosed
  | EvBatch wire_batch nat nat
  | EvEnd
  | EvError db_error

definition finish_feed :: "feed_state \<Rightarrow> feeder \<Rightarrow> feeder" where
  "finish_feed st f = f\<lparr>fe_pc := AtEnd, fe_state := st\<rparr>"

text \<open>From the top of the pull loop to its next await.\<close>

definition loop_top :: "feeder_policy \<Rightarrow> feeder \<Rightarrow> feeder" where
  "loop_top p f =
     (if fp_soft_cap p \<le> fe_rows f then finish_feed FeedCapped f
      else if fe_paused f then f\<lparr>fe_pc := AtPark, fe_state := FeedParked (fe_reason f)\<rparr>
      else f\<lparr>fe_pc := AtReserve, fe_state := Streaming\<rparr>)"

text \<open>A batch arrived: cut it at the cap, count it, send it, adapt the hint.\<close>

definition on_batch ::
  "(nat \<Rightarrow> nat \<Rightarrow> nat \<Rightarrow> nat) \<Rightarrow> feeder_policy \<Rightarrow> wire_batch \<Rightarrow> nat \<Rightarrow> nat \<Rightarrow> feeder \<Rightarrow> feeder" where
  "on_batch quot p b ms total_bytes f =
     (let remaining = fp_soft_cap p - fe_rows f;
          rows = min (payload_len (wb_payload b)) remaining;
          b' = (if remaining < payload_len (wb_payload b)
                then b\<lparr>wb_payload := truncate_payload remaining (wb_payload b)\<rparr> else b);
          f' = f\<lparr>fe_rows := fe_rows f + rows, fe_batches := fe_batches f + 1,
                 fe_prev_bytes := total_bytes, fe_sent := fe_sent f @ [b'],
                 fe_hint := cap_by_bytes quot p (next_rows p (fe_hint f) ms)
                              (total_bytes - fe_prev_bytes f) rows\<rparr>
      in if fp_soft_cap p \<le> fe_rows f' then finish_feed FeedCapped f' else loop_top p f')"

fun feed_step ::
  "(nat \<Rightarrow> nat \<Rightarrow> nat \<Rightarrow> nat) \<Rightarrow> feeder_policy \<Rightarrow> feed_event \<Rightarrow> feeder \<Rightarrow> feeder" where
  "feed_step quot p (EvPark r) f =
     (let f' = f\<lparr>fe_paused := True, fe_reason := r\<rparr>
      in if fe_pc f \<in> {AtPark, AtReserve} then loop_top p f' else f')"
| "feed_step quot p EvResume f =
     (let f' = f\<lparr>fe_paused := False\<rparr>
      in if fe_pc f \<in> {AtPark, AtReserve} then loop_top p f' else f')"
| "feed_step quot p EvCancel f = (if fe_pc f = AtEnd then f else finish_feed FeedCancelled f)"
| "feed_step quot p EvPermit f =
     (if fe_pc f = AtReserve then f\<lparr>fe_pc := AtFetch, fe_last_hint := fe_hint f\<rparr> else f)"
| "feed_step quot p EvClosed f = (if fe_pc f = AtReserve then finish_feed FeedDone f else f)"
| "feed_step quot p (EvBatch b ms bytes) f =
     (if fe_pc f = AtFetch then on_batch quot p b ms bytes f else f)"
| "feed_step quot p EvEnd f = (if fe_pc f = AtFetch then finish_feed FeedDone f else f)"
| "feed_step quot p (EvError e) f =
     (if fe_pc f = AtFetch then finish_feed (if e = ECancelled then FeedCancelled else FeedFailed e) f else f)"

definition spawn_feeder :: "feeder_policy \<Rightarrow> feeder" where
  "spawn_feeder p =
     loop_top p \<lparr>fe_pc = AtReserve, fe_paused = False, fe_reason = Backpressure, fe_rows = 0,
       fe_batches = 0, fe_hint = first_hint p, fe_prev_bytes = 0, fe_last_hint = fp_start_rows p,
       fe_state = Streaming, fe_sent = []\<rparr>"

text \<open>A run: the feeder after some events, with the batches its cursor returned to it.\<close>

inductive feed_run ::
  "(nat \<Rightarrow> nat \<Rightarrow> nat \<Rightarrow> nat) \<Rightarrow> feeder_policy \<Rightarrow> payload list \<Rightarrow> feeder \<Rightarrow> bool" for quot p where
  feed_start: "feed_run quot p [] (spawn_feeder p)"
| feed_pulled: "feed_run quot p ps f \<Longrightarrow> fe_pc f = AtFetch \<Longrightarrow>
    feed_run quot p (ps @ [wb_payload b]) (feed_step quot p (EvBatch b ms bytes) f)"
| feed_other: "feed_run quot p ps f \<Longrightarrow> \<nexists>b ms bytes. ev = EvBatch b ms bytes \<and> fe_pc f = AtFetch \<Longrightarrow>
    feed_run quot p ps (feed_step quot p ev f)"

section \<open>What the feeder delivers\<close>

text \<open>The rows of a payload, whatever its kind.\<close>

fun payload_items :: "payload \<Rightarrow> db_value list list" where
  "payload_items (PRows rows) = rows"
| "payload_items (PDocs docs) = map (\<lambda>d. [d]) docs"
| "payload_items (PPairs pairs) = map (\<lambda>(k, v). [k, v]) pairs"
| "payload_items (PGraph nodes edges) = map (\<lambda>n. [n]) nodes"
| "payload_items PEmpty = []"

lemma payload_items_length [simp]: "length (payload_items p) = payload_len p"
  by (cases p) auto

lemma payload_items_truncate: "payload_items (truncate_payload n p) = take n (payload_items p)"
  by (cases p) (auto simp: take_map)

definition delivered :: "feeder \<Rightarrow> db_value list list" where
  "delivered f = concat (map (\<lambda>b. payload_items (wb_payload b)) (fe_sent f))"

definition pulled_items :: "payload list \<Rightarrow> db_value list list" where
  "pulled_items ps = concat (map payload_items ps)"

definition feed_inv :: "feeder_policy \<Rightarrow> payload list \<Rightarrow> feeder \<Rightarrow> bool" where
  "feed_inv p ps f =
     (fe_rows f = length (delivered f) \<and> delivered f = take (fp_soft_cap p) (pulled_items ps)
      \<and> (fe_pc f \<noteq> AtEnd \<longrightarrow> fe_rows f < fp_soft_cap p)
      \<and> (fe_state f = FeedCapped \<longrightarrow> fp_soft_cap p \<le> fe_rows f)
      \<and> (fe_pc f = AtEnd) = feed_terminal (fe_state f))"

lemma loop_top_frame [simp]:
  "fe_rows (loop_top p f) = fe_rows f" "delivered (loop_top p f) = delivered f"
  "fe_rows (finish_feed st f) = fe_rows f" "delivered (finish_feed st f) = delivered f"
  "fe_sent (loop_top p f) = fe_sent f" "fe_sent (finish_feed st f) = fe_sent f"
  by (simp_all add: loop_top_def finish_feed_def delivered_def)

lemma feed_inv_top:
  assumes "fe_rows f = length (delivered f)" and "delivered f = take (fp_soft_cap p) (pulled_items ps)"
  shows "feed_inv p ps (loop_top p f)"
  using assms unfolding feed_inv_def by (auto simp: loop_top_def finish_feed_def delivered_def)

lemma feed_inv_finish:
  assumes "feed_inv p ps f" and "feed_terminal st" and "st = FeedCapped \<Longrightarrow> fp_soft_cap p \<le> fe_rows f"
  shows "feed_inv p ps (finish_feed st f)"
  using assms unfolding feed_inv_def by (auto simp: finish_feed_def delivered_def)

lemma on_batch_rows:
  assumes "feed_inv p ps f" and "fe_pc f = AtFetch"
  shows "feed_inv p (ps @ [wb_payload b]) (on_batch quot p b ms bytes f)"
proof -
  let ?remaining = "fp_soft_cap p - fe_rows f"
  let ?rows = "min (payload_len (wb_payload b)) ?remaining"
  let ?b = "if ?remaining < payload_len (wb_payload b)
    then b\<lparr>wb_payload := truncate_payload ?remaining (wb_payload b)\<rparr> else b"
  define g where "g = f\<lparr>fe_rows := fe_rows f + ?rows, fe_batches := fe_batches f + 1,
      fe_prev_bytes := bytes, fe_sent := fe_sent f @ [?b],
      fe_hint := cap_by_bytes quot p (next_rows p (fe_hint f) ms) (bytes - fe_prev_bytes f) ?rows\<rparr>"
  have inv: "fe_rows f = length (delivered f)" "delivered f = take (fp_soft_cap p) (pulled_items ps)"
    "fe_rows f < fp_soft_cap p"
    using assms by (auto simp: feed_inv_def)
  have all: "delivered f = pulled_items ps" using inv by (metis length_take min_less_iff_conj nat_neq_iff order_refl take_all_iff not_less)
  have sent: "payload_items (wb_payload ?b) = take ?remaining (payload_items (wb_payload b))"
    by (auto simp: payload_items_truncate)
  have "delivered g = delivered f @ take ?remaining (payload_items (wb_payload b))"
    using sent by (simp add: g_def delivered_def)
  then have dg: "delivered g = take (fp_soft_cap p) (pulled_items (ps @ [wb_payload b]))"
    "fe_rows g = length (delivered g)"
    using inv all by (simp_all add: g_def pulled_items_def min.commute)
  have ob: "on_batch quot p b ms bytes f
      = (if fp_soft_cap p \<le> fe_rows g then finish_feed FeedCapped g else loop_top p g)"
    by (simp add: on_batch_def Let_def g_def)
  show ?thesis
  proof (cases "fp_soft_cap p \<le> fe_rows g")
    case True
    with dg show ?thesis unfolding ob by (simp add: feed_inv_def) (simp add: finish_feed_def)
  next
    case False
    with dg show ?thesis unfolding ob by (simp add: feed_inv_top)
  qed
qed

lemma feed_run_inv: "feed_run quot p ps f \<Longrightarrow> feed_inv p ps f"
proof (induction rule: feed_run.induct)
  case feed_start
  show ?case unfolding spawn_feeder_def by (rule feed_inv_top) (simp_all add: delivered_def pulled_items_def)
next
  case (feed_pulled ps f b ms bytes)
  then show ?case by (simp add: on_batch_rows)
next
  case (feed_other ps f ev)
  have base: "fe_rows f = length (delivered f)" "delivered f = take (fp_soft_cap p) (pulled_items ps)"
    using feed_other.IH by (simp_all add: feed_inv_def)
  have top: "feed_inv p ps (loop_top p (f\<lparr>fe_paused := a, fe_reason := r\<rparr>))"
    "feed_inv p ps (loop_top p (f\<lparr>fe_paused := a\<rparr>))" for a r
    by (rule feed_inv_top; simp add: base [unfolded delivered_def] delivered_def)+
  have frame: "feed_inv p ps (f\<lparr>fe_paused := a, fe_reason := r\<rparr>)" "feed_inv p ps (f\<lparr>fe_paused := a\<rparr>)"
    "fe_pc f = AtReserve \<Longrightarrow> feed_inv p ps (f\<lparr>fe_pc := AtFetch, fe_last_hint := n\<rparr>)" for a r n
    using feed_other.IH by (auto simp: feed_inv_def delivered_def)
  show ?case
  proof (cases ev)
    case (EvBatch b ms bytes)
    with feed_other.hyps(2) feed_other.IH show ?thesis by simp
  qed (use feed_other.IH top frame in \<open>auto simp: Let_def intro!: feed_inv_finish\<close>)
qed

text \<open>
  C8.  The store receives exactly a prefix of the cursor's rows: after any run of the feeder, what
  it sent, in order, is the rows the cursor returned so far cut at the soft cap, whatever the
  batches, parks, resumes and errors; and it reports itself capped only with the cap reached.
\<close>

theorem feeder_delivers_prefix:
  assumes "feed_run quot p ps f"
  shows "delivered f = take (fp_soft_cap p) (pulled_items ps) \<and> fe_rows f = length (delivered f)
    \<and> (fe_state f = FeedCapped \<longrightarrow> fe_rows f = fp_soft_cap p)"
  using feed_run_inv [OF assms] by (auto simp: feed_inv_def)

lemma sample_feed:
  "\<exists>f. feed_run quot (default_feeder_policy\<lparr>fp_soft_cap := 1\<rparr>) [PDocs [VNull, VNull]] f \<and> fe_state f = FeedCapped"
proof -
  let ?p = "default_feeder_policy\<lparr>fp_soft_cap := 1\<rparr>"
  let ?b = "\<lparr>wb_seq = 0, wb_payload = PDocs [VNull, VNull], wb_deltas = [], wb_notices = []\<rparr>"
  let ?f = "feed_step quot ?p EvPermit (spawn_feeder ?p)"
  have "feed_run quot ?p [] ?f" by (rule feed_other [OF feed_start]) simp
  moreover have "fe_pc ?f = AtFetch" by (simp add: spawn_feeder_def loop_top_def)
  ultimately have "feed_run quot ?p ([] @ [wb_payload ?b]) (feed_step quot ?p (EvBatch ?b 1 1) ?f)"
    by (rule feed_pulled)
  moreover have "fe_state (feed_step quot ?p (EvBatch ?b 1 1) ?f) = FeedCapped"
    by (simp add: spawn_feeder_def loop_top_def on_batch_def finish_feed_def Let_def)
  ultimately show ?thesis by auto
qed

lemma feeder_delivers_prefix_witness:
  "\<exists>f. feed_run (\<lambda>a b c. 1) (default_feeder_policy\<lparr>fp_soft_cap := 1\<rparr>) [PDocs [VNull, VNull]] f
     \<and> delivered f = [[VNull]]"
proof -
  obtain f where f: "feed_run (\<lambda>a b c. 1) (default_feeder_policy\<lparr>fp_soft_cap := 1\<rparr>) [PDocs [VNull, VNull]] f"
    using sample_feed by blast
  from feeder_delivers_prefix [OF this] f show ?thesis by (auto simp: pulled_items_def)
qed

section \<open>How much it asks for\<close>

definition policy_ok :: "feeder_policy \<Rightarrow> bool" where
  "policy_ok p = (1 \<le> fp_min_rows p \<and> fp_min_rows p \<le> fp_max_rows p)"

lemma for_fetch_rows_ok: "policy_ok (for_fetch_rows n)"
  by (simp add: policy_ok_def for_fetch_rows_def default_feeder_policy_def)

lemma clamp_bounds: "lo \<le> hi \<Longrightarrow> lo \<le> clamp lo hi n \<and> clamp lo hi n \<le> hi"
  by (simp add: clamp_def)

lemma next_hint_bounds:
  assumes "policy_ok p" and "min (fp_min_rows p) (first_hint p) \<le> h" and "h \<le> fp_max_rows p"
  shows "min (fp_min_rows p) (first_hint p) \<le> cap_by_bytes quot p (next_rows p h ms) chunk_bytes chunk_rows
    \<and> cap_by_bytes quot p (next_rows p h ms) chunk_bytes chunk_rows \<le> fp_max_rows p"
proof -
  have ok: "fp_min_rows p \<le> fp_max_rows p" using assms(1) by (simp add: policy_ok_def)
  have "min (fp_min_rows p) (first_hint p) \<le> next_rows p h ms \<and> next_rows p h ms \<le> fp_max_rows p"
    using assms(2,3) clamp_bounds [OF ok] unfolding next_rows_def by (auto intro: le_trans [OF min.cobounded1])
  then show ?thesis
    using clamp_bounds [OF ok, of "quot (fp_max_bytes p) chunk_bytes chunk_rows"]
    unfolding cap_by_bytes_def by (auto simp: min_def)
qed

lemma first_hint_bounds: "policy_ok p \<Longrightarrow> 1 \<le> first_hint p \<and> first_hint p \<le> fp_max_rows p"
  by (auto simp: first_hint_def policy_ok_def clamp_def)

definition hint_ok :: "feeder_policy \<Rightarrow> feeder \<Rightarrow> bool" where
  "hint_ok p f = (min (fp_min_rows p) (first_hint p) \<le> fe_hint f \<and> fe_hint f \<le> fp_max_rows p)"

lemma hint_ok_frame [simp]:
  "hint_ok p (loop_top p f) = hint_ok p f" "hint_ok p (finish_feed st f) = hint_ok p f"
  "hint_ok p (f\<lparr>fe_paused := a\<rparr>) = hint_ok p f" "hint_ok p (f\<lparr>fe_paused := a, fe_reason := r\<rparr>) = hint_ok p f"
  "hint_ok p (f\<lparr>fe_pc := c, fe_last_hint := n\<rparr>) = hint_ok p f"
  by (simp_all add: hint_ok_def loop_top_def finish_feed_def)

lemma feed_step_hint:
  assumes "policy_ok p" and "hint_ok p f"
  shows "hint_ok p (feed_step quot p ev f)"
proof (cases ev)
  case (EvBatch b ms bytes)
  then show ?thesis
    using assms next_hint_bounds [OF assms(1), of "fe_hint f" quot ms]
    by (auto simp: on_batch_def Let_def) (auto simp: hint_ok_def)
qed (use assms in \<open>auto simp: Let_def\<close>)

text \<open>
  The fetch size stays in its bounds: whatever times and sizes the driver reports, and however
  the byte quotient rounds, every request asks for at least one row (at least the policy's
  minimum, or the first request when that is smaller) and for at most the maximum.
\<close>

theorem fetch_hint_bounded:
  assumes "feed_run quot p ps f" and "policy_ok p"
  shows "1 \<le> fe_hint f \<and> min (fp_min_rows p) (first_hint p) \<le> fe_hint f \<and> fe_hint f \<le> fp_max_rows p"
proof -
  from assms(1) have "hint_ok p f"
  proof (induction rule: feed_run.induct)
    case feed_start
    show ?case using first_hint_bounds [OF assms(2)]
      unfolding spawn_feeder_def hint_ok_frame by (simp add: hint_ok_def)
  qed (use feed_step_hint [OF assms(2)] in blast)+
  with first_hint_bounds [OF assms(2)] assms(2) show ?thesis by (auto simp: hint_ok_def policy_ok_def)
qed

lemma fetch_hint_bounded_witness: "fe_hint (spawn_feeder (for_fetch_rows 7)) \<le> 100000"
  using fetch_hint_bounded [OF feed_start for_fetch_rows_ok, of 7]
  by (simp add: for_fetch_rows_def default_feeder_policy_def)

section \<open>Parking\<close>

text \<open>
  A parked feeder asks its cursor for nothing, and wakes: while it is parked neither a permit
  nor an answer moves it, a resume always takes it back to asking for a permit, and a cancel
  always ends it.
\<close>

theorem parked_feeder_waits_and_wakes:
  assumes "feed_run quot p ps f" and "fe_pc f = AtPark"
  shows "feed_step quot p EvPermit f = f \<and> feed_step quot p (EvBatch b ms bytes) f = f
    \<and> fe_pc (feed_step quot p EvResume f) = AtReserve \<and> fe_state (feed_step quot p EvResume f) = Streaming
    \<and> fe_state (feed_step quot p EvCancel f) = FeedCancelled"
proof -
  have "fe_rows f < fp_soft_cap p"
    using feed_run_inv [OF assms(1)] assms(2) unfolding feed_inv_def by auto
  with assms(2) show ?thesis by (simp add: loop_top_def finish_feed_def Let_def)
qed

lemma parked_feeder_waits_and_wakes_witness:
  "fe_pc (feed_step (\<lambda>a b c. 1) default_feeder_policy EvResume
     (feed_step (\<lambda>a b c. 1) default_feeder_policy (EvPark HotWindow) (spawn_feeder default_feeder_policy))) = AtReserve"
proof -
  let ?f = "feed_step (\<lambda>a b c. 1) default_feeder_policy (EvPark HotWindow) (spawn_feeder default_feeder_policy)"
  have "feed_run (\<lambda>a b c. 1) default_feeder_policy [] ?f" by (rule feed_other [OF feed_start]) simp
  moreover have "fe_pc ?f = AtPark" by (simp add: spawn_feeder_def loop_top_def default_feeder_policy_def)
  ultimately show ?thesis using parked_feeder_waits_and_wakes by blast
qed

end
