(* ===== verification/Result_Store.thy ===== *)
theory Result_Store
  imports Budget Feeder
begin

text \<open>
  The result store of \<open>crates/datagrep-core/src/store.rs\<close> with the spill file of
  \<open>spill.rs\<close>: batches become chunks, chunks past the memory policy move to the spill file,
  and a window of rows is read back from both.

  Arrow is a parameter (\<open>arrow_env\<close>): the memory size of a batch, the IPC writer and reader,
  and the size of a \<open>Value\<close>.  What the operating system answers to the writes of the spill
  file is a script (\<open>sh_io\<close>): a write succeeds or leaves any prefix of its bytes behind.  The
  commands the store sends its feeder are listed in \<open>sh_cmds\<close> as the feeder's own events.
\<close>

section \<open>Arrow and the spill file\<close>

type_synonym arrow_schema = "(string \<times> arrow_type) list"

datatype ipc_read = IpcError | IpcEmpty | IpcBatch batch

record arrow_env =
  ae_memory :: "batch \<Rightarrow> nat"
  ae_encode :: "arrow_schema \<Rightarrow> batch \<Rightarrow> string option"
  ae_decode :: "string \<Rightarrow> ipc_read"
  ae_value_size :: nat

datatype spill_error = SpIo | SpArrow | SpLimitReached nat | SpNoSuchChunk nat | SpEmptyChunk nat

datatype io_outcome = IoOk | IoTorn nat

record chunk_loc =
  cl_offset :: nat
  cl_len :: nat
  cl_rows :: nat

record spill =
  sp_schema :: arrow_schema
  sp_file :: string
  sp_chunks :: "chunk_loc list"
  sp_bytes :: nat
  sp_max :: nat

definition new_spill :: "arrow_schema \<Rightarrow> nat \<Rightarrow> spill" where
  "new_spill schema max_bytes =
     \<lparr>sp_schema = schema, sp_file = [], sp_chunks = [], sp_bytes = 0, sp_max = max_bytes\<rparr>"

definition spill_append ::
  "arrow_env \<Rightarrow> io_outcome \<Rightarrow> batch \<Rightarrow> spill \<Rightarrow> (spill_error + nat) \<times> spill" where
  "spill_append env io b w =
     (case ae_encode env (sp_schema w) b of
        None \<Rightarrow> (Inl SpArrow, w)
      | Some buf \<Rightarrow>
          if sp_max w < sp_bytes w + length buf then (Inl (SpLimitReached (sp_max w)), w)
          else case io of
              IoTorn n \<Rightarrow> (Inl SpIo, w\<lparr>sp_file := sp_file w @ take n buf\<rparr>)
            | IoOk \<Rightarrow>
                (Inr (length (sp_chunks w)),
                 w\<lparr>sp_file := sp_file w @ buf,
                   sp_chunks := sp_chunks w @ [\<lparr>cl_offset = length (sp_file w), cl_len = length buf,
                                                cl_rows = bt_rows b\<rparr>],
                   sp_bytes := sp_bytes w + length buf\<rparr>))"

definition spill_read :: "arrow_env \<Rightarrow> nat \<Rightarrow> spill \<Rightarrow> spill_error + batch" where
  "spill_read env i w =
     (case byte_at (sp_chunks w) i of
        None \<Rightarrow> Inl (SpNoSuchChunk i)
      | Some loc \<Rightarrow>
          if length (sp_file w) < cl_offset loc + cl_len loc then Inl SpIo
          else case ae_decode env (slice (sp_file w) (cl_offset loc) (cl_offset loc + cl_len loc)) of
              IpcBatch b \<Rightarrow> Inr b
            | IpcEmpty \<Rightarrow> Inl (SpEmptyChunk i)
            | IpcError \<Rightarrow> Inl SpArrow)"

definition spill_rows :: "nat \<Rightarrow> spill \<Rightarrow> nat option" where
  "spill_rows i w = map_option cl_rows (byte_at (sp_chunks w) i)"

definition spill_remaining :: "spill \<Rightarrow> nat" where
  "spill_remaining w = sp_max w - sp_bytes w"

section \<open>Chunks and states\<close>

datatype doc_segment = SegValues "db_value list" | SegPairs "(db_value \<times> db_value) list"

fun segment_len :: "doc_segment \<Rightarrow> nat" where
  "segment_len (SegValues vs) = length vs"
| "segment_len (SegPairs ps) = length ps"

fun value_bytes :: "nat \<Rightarrow> db_value \<Rightarrow> nat" where
  "value_bytes base (VDecimal s) = base + length s"
| "value_bytes base (VStr s) = base + length s"
| "value_bytes base (VJson s) = base + length s"
| "value_bytes base (VBytes b) = base + length b"
| "value_bytes base (VArray items) = base + sum_list (map (value_bytes base) items)"
| "value_bytes base (VDocument fs) = base + sum_list (map (\<lambda>(k, v). length k + value_bytes base v) fs)"
| "value_bytes base (VRef target ks) = base + sum_list (map (value_bytes base) ks)"
| "value_bytes base (VVector xs) = base + length xs * 4"
| "value_bytes base (VUnsupported type_name raw display) = base + (length raw + length display)"
| "value_bytes base _ = base"

fun segment_bytes :: "nat \<Rightarrow> doc_segment \<Rightarrow> nat" where
  "segment_bytes base (SegValues vs) = sum_list (map (value_bytes base) vs)"
| "segment_bytes base (SegPairs ps) = sum_list (map (\<lambda>(k, v). value_bytes base k + value_bytes base v) ps)"

datatype chunk_body = CTable batch | CDocs doc_segment | CSpilled nat

record store_chunk =
  ck_first :: nat
  ck_rows :: nat
  ck_bytes :: nat
  ck_body :: chunk_body

datatype store_phase =
    PhLoading | PhParked park_reason | PhCapped | PhComplete | PhCancelled | PhFailed db_error

fun phase_terminal :: "store_phase \<Rightarrow> bool" where
  "phase_terminal PhLoading = False"
| "phase_terminal (PhParked _) = False"
| "phase_terminal _ = True"

record store_state =
  ss_phase :: store_phase
  ss_rows :: nat
  ss_batches :: nat
  ss_resident :: nat
  ss_spilled :: nat
  ss_first_micros :: "nat option"
  ss_coerced :: nat
  ss_affected :: "nat option"
  ss_message :: "string option"
  ss_notices :: "notice list"
  ss_deltas :: "schema_delta list"
  ss_chunks :: "store_chunk list"

definition empty_state :: store_state where
  "empty_state =
     \<lparr>ss_phase = PhLoading, ss_rows = 0, ss_batches = 0, ss_resident = 0, ss_spilled = 0,
      ss_first_micros = None, ss_coerced = 0, ss_affected = None, ss_message = None,
      ss_notices = [], ss_deltas = [], ss_chunks = []\<rparr>"

text \<open>\<open>slice::binary_search_by\<close>, whose comparator returns the order of the element to the target.\<close>

datatype ordering = Less | Equal | Greater

function bsearch_base :: "(nat \<Rightarrow> ordering) \<Rightarrow> nat \<Rightarrow> nat \<Rightarrow> nat" where
  "bsearch_base cmp base n =
     (if n \<le> 1 then base
      else (let half = n div 2; mid = base + half
            in bsearch_base cmp (if cmp mid = Greater then base else mid) (n - half)))"
  by pat_completeness auto
termination
  by (relation "measure (\<lambda>(cmp, base, n). n)") auto

declare bsearch_base.simps [simp del]

definition binary_search_by :: "('a \<Rightarrow> ordering) \<Rightarrow> 'a list \<Rightarrow> nat option" where
  "binary_search_by f xs =
     (if xs = [] then None
      else (let i = bsearch_base (\<lambda>i. f (xs ! i)) 0 (length xs)
            in if f (xs ! i) = Equal then Some i else None))"

definition row_order :: "nat \<Rightarrow> store_chunk \<Rightarrow> ordering" where
  "row_order row c =
     (if row < ck_first c then Greater
      else if ck_first c + ck_rows c \<le> row then Less
      else Equal)"

definition chunk_of :: "store_state \<Rightarrow> nat \<Rightarrow> nat option" where
  "chunk_of s row = binary_search_by (row_order row) (ss_chunks s)"

fun is_spilled :: "chunk_body \<Rightarrow> bool" where
  "is_spilled (CSpilled _) = True"
| "is_spilled _ = False"

definition resident_rows :: "store_state \<Rightarrow> nat" where
  "resident_rows s = sum_list (map ck_rows (filter (\<lambda>c. \<not> is_spilled (ck_body c)) (ss_chunks s)))"

section \<open>The store\<close>

record memory_policy =
  mp_total :: nat
  mp_hot_bytes :: nat
  mp_hot_rows :: nat
  mp_soft_cap :: nat
  mp_spill :: "nat option"

definition default_memory_policy :: memory_policy where
  "default_memory_policy =
     \<lparr>mp_total = 256 * 1024 * 1024, mp_hot_bytes = 64 * 1024 * 1024, mp_hot_rows = 50000,
      mp_soft_cap = 500000, mp_spill = Some (4 * 1024 * 1024 * 1024)\<rparr>"

definition feeder_policy_for :: "memory_policy \<Rightarrow> nat \<Rightarrow> feeder_policy" where
  "feeder_policy_for m fetch_rows = (for_fetch_rows fetch_rows)\<lparr>fp_soft_cap := mp_soft_cap m\<rparr>"

record store =
  sh_state :: store_state
  sh_shape :: shape
  sh_policy :: memory_policy
  sh_converter :: "converter option"
  sh_settled :: "arrow_schema option"
  sh_spill :: "spill option"
  sh_held :: nat
  sh_used :: nat
  sh_limit :: nat
  sh_cmds :: "feed_event list"
  sh_io :: "io_outcome list"

definition table_converter :: "shape \<Rightarrow> converter option" where
  "table_converter sh = (case sh of ShTable schema \<Rightarrow> Some (new_converter schema) | _ \<Rightarrow> None)"

definition synthesized_schema :: "nat \<Rightarrow> row_schema" where
  "synthesized_schema width =
     \<lparr>rs_fields = map (\<lambda>i. \<lparr>fd_name = ''col'' @ show_nat i, fd_logical = LUnknown, fd_flags = 1,
        fd_native = None\<rparr>) [0..<width], rs_identity = None\<rparr>"

text \<open>\<open>spawn\<close> and the acknowledgement the writer publishes first.\<close>

definition spawn_store :: "shape \<Rightarrow> memory_policy \<Rightarrow> nat \<Rightarrow> nat \<Rightarrow> io_outcome list \<Rightarrow> store" where
  "spawn_store sh policy limit used io =
     \<lparr>sh_state = (case sh of
          ShAck affected message \<Rightarrow> empty_state\<lparr>ss_affected := affected, ss_message := message\<rparr>
        | _ \<Rightarrow> empty_state),
      sh_shape = sh, sh_policy = policy, sh_converter = table_converter sh, sh_settled = None,
      sh_spill = None, sh_held = 0, sh_used = used, sh_limit = limit, sh_cmds = [], sh_io = io\<rparr>"

definition publish :: "(store_state \<Rightarrow> store_state) \<Rightarrow> store \<Rightarrow> store" where
  "publish f s = s\<lparr>sh_state := f (sh_state s)\<rparr>"

definition command :: "feed_event \<Rightarrow> store \<Rightarrow> store" where
  "command ev s = s\<lparr>sh_cmds := sh_cmds s @ [ev]\<rparr>"

definition finish_store :: "store_phase \<Rightarrow> store \<Rightarrow> store" where
  "finish_store ph s = publish (\<lambda>t. t\<lparr>ss_phase := ph\<rparr>) s"

text \<open>\<open>spill_oldest\<close>: the first chunk whose table has the settled schema goes to the file.\<close>

definition spillable :: "arrow_schema \<Rightarrow> store_chunk \<Rightarrow> bool" where
  "spillable schema c = (case ck_body c of CTable b \<Rightarrow> bt_schema b = schema | _ \<Rightarrow> False)"

definition next_io :: "store \<Rightarrow> io_outcome \<times> store" where
  "next_io s = (case sh_io s of [] \<Rightarrow> (IoOk, s) | io # ios \<Rightarrow> (io, s\<lparr>sh_io := ios\<rparr>))"

definition ensure_spill :: "arrow_schema \<Rightarrow> nat \<Rightarrow> store \<Rightarrow> spill option \<times> store" where
  "ensure_spill schema max_bytes s =
     (case sh_spill s of
        Some w \<Rightarrow> (Some w, s)
      | None \<Rightarrow>
          (let (io, s') = next_io s
           in case io of
                IoOk \<Rightarrow> (Some (new_spill schema max_bytes), s'\<lparr>sh_spill := Some (new_spill schema max_bytes)\<rparr>)
              | IoTorn _ \<Rightarrow> (None, s')))"

definition mark_spilled :: "nat \<Rightarrow> nat \<Rightarrow> nat \<Rightarrow> nat \<Rightarrow> store_state \<Rightarrow> store_state" where
  "mark_spilled index slot bytes file_bytes t =
     t\<lparr>ss_chunks := (ss_chunks t)[index := (ss_chunks t ! index)\<lparr>ck_body := CSpilled slot, ck_bytes := 0\<rparr>],
       ss_resident := ss_resident t - bytes, ss_spilled := file_bytes\<rparr>"

definition release_lease :: "nat \<Rightarrow> store \<Rightarrow> store" where
  "release_lease bytes s =
     (case lease_release bytes (sh_used s) (sh_held s) of
        (used, held) \<Rightarrow> s\<lparr>sh_used := used, sh_held := held\<rparr>)"

definition spill_chunk :: "arrow_env \<Rightarrow> nat \<Rightarrow> spill \<Rightarrow> store \<Rightarrow> bool \<times> store" where
  "spill_chunk env index w s0 =
     (let c = ss_chunks (sh_state s0) ! index;
          (io, s) = next_io s0
      in case ck_body c of
          CTable b \<Rightarrow>
            (case spill_append env io b w of
               (Inl e, w') \<Rightarrow> (False, s\<lparr>sh_spill := Some w'\<rparr>)
             | (Inr slot, w') \<Rightarrow>
                 (True, release_lease (ck_bytes c)
                    (publish (mark_spilled index slot (ck_bytes c) (sp_bytes w')) (s\<lparr>sh_spill := Some w'\<rparr>))))
        | _ \<Rightarrow> (False, s))"

definition spill_oldest :: "arrow_env \<Rightarrow> store \<Rightarrow> bool \<times> store" where
  "spill_oldest env s =
     (case (mp_spill (sh_policy s), sh_settled s) of
        (Some max_bytes, Some schema) \<Rightarrow>
          (case find_index (spillable schema) (ss_chunks (sh_state s)) of
             None \<Rightarrow> (False, s)
           | Some index \<Rightarrow>
               (case ensure_spill schema max_bytes s of
                  (None, s') \<Rightarrow> (False, s')
                | (Some w, s') \<Rightarrow> spill_chunk env index w s'))
      | _ \<Rightarrow> (False, s))"

text \<open>A spill turns one table chunk into a spilled one: the measure of the loops below.\<close>

definition table_chunks :: "store \<Rightarrow> nat" where
  "table_chunks s =
     length (filter (\<lambda>c. case ck_body c of CTable _ \<Rightarrow> True | _ \<Rightarrow> False) (ss_chunks (sh_state s)))"

lemma ensure_spill_state [simp]: "ensure_spill sch m s = (w, s') \<Longrightarrow> sh_state s' = sh_state s"
  by (auto simp: ensure_spill_def next_io_def split: option.splits io_outcome.splits list.splits prod.splits)

lemma release_lease_state [simp]: "sh_state (release_lease n s) = sh_state s"
  by (simp add: release_lease_def split: prod.split)

lemma spill_chunk_state:
  assumes "spill_chunk env i w s = (True, s')"
  shows "\<exists>b slot n. ck_body (ss_chunks (sh_state s) ! i) = CTable b
    \<and> sh_state s' = mark_spilled i slot (ck_bytes (ss_chunks (sh_state s) ! i)) n (sh_state s)"
  using assms
  by (auto simp: spill_chunk_def Let_def next_io_def publish_def
      split: chunk_body.splits prod.splits sum.splits list.splits) blast+

lemma spill_oldest_state:
  assumes "spill_oldest env s = (True, s')"
  shows "\<exists>i b slot n. i < length (ss_chunks (sh_state s)) \<and> ck_body (ss_chunks (sh_state s) ! i) = CTable b
    \<and> sh_state s' = mark_spilled i slot (ck_bytes (ss_chunks (sh_state s) ! i)) n (sh_state s)"
proof -
  from assms obtain m sch i w s1 where
    i: "find_index (spillable sch) (ss_chunks (sh_state s)) = Some i"
    and e: "ensure_spill sch m s = (Some w, s1)" and c: "spill_chunk env i w s1 = (True, s')"
    by (auto simp: spill_oldest_def split: option.splits prod.splits)
  from find_index_bound [OF i] spill_chunk_state [OF c] ensure_spill_state [OF e] show ?thesis by auto
qed

lemma spill_oldest_shrinks: "spill_oldest env s = (True, s') \<Longrightarrow> table_chunks s' < table_chunks s"
proof -
  assume "spill_oldest env s = (True, s')"
  from spill_oldest_state [OF this] obtain i b slot n where
    i: "i < length (ss_chunks (sh_state s))" "ck_body (ss_chunks (sh_state s) ! i) = CTable b"
    and st: "sh_state s' = mark_spilled i slot (ck_bytes (ss_chunks (sh_state s) ! i)) n (sh_state s)" by blast
  let ?p = "\<lambda>c. case ck_body c of CTable _ \<Rightarrow> True | _ \<Rightarrow> False"
  let ?cs = "ss_chunks (sh_state s)"
  let ?c = "(?cs ! i)\<lparr>ck_body := CSpilled slot, ck_bytes := 0\<rparr>"
  have "length (filter ?p (?cs[i := ?c])) < length (filter ?p ?cs)"
    by (rule filter_update_shrinks [OF i(1)]) (simp_all add: i(2))
  then show ?thesis by (simp add: table_chunks_def st mark_spilled_def)
qed

function enforce_hot_window :: "arrow_env \<Rightarrow> store \<Rightarrow> store" where
  "enforce_hot_window env s =
     (if \<not> mp_hot_bytes (sh_policy s) < ss_resident (sh_state s)
         \<and> \<not> mp_hot_rows (sh_policy s) < resident_rows (sh_state s) then s
      else (case spill_oldest env s of
              (True, s') \<Rightarrow> enforce_hot_window env s'
            | (False, s') \<Rightarrow>
                if sh_settled s' \<noteq> None then
                  publish (\<lambda>t. if phase_terminal (ss_phase t) then t else t\<lparr>ss_phase := PhParked HotWindow\<rparr>)
                    (command (EvPark HotWindow) s')
                else s'))"
  by pat_completeness auto
termination
  by (relation "measure (\<lambda>(env, s). table_chunks s)") (auto intro: spill_oldest_shrinks)

declare enforce_hot_window.simps [simp del]

text \<open>
  \<open>admit\<close>: reserve the bytes of a chunk, spilling and then parking until the budget frees some.
  An event is what wakes the wait: the budget was freed, the counter now at the given value, or
  the query was cancelled.  \<open>None\<close> is still waiting.
\<close>

datatype admit_event = BudgetFreed nat | AdmitCancelled

definition unpark :: "store \<Rightarrow> store" where
  "unpark s =
     publish (\<lambda>t. case ss_phase t of PhParked _ \<Rightarrow> t\<lparr>ss_phase := PhLoading\<rparr> | _ \<Rightarrow> t) (command EvResume s)"

definition park_budget :: "store \<Rightarrow> store" where
  "park_budget s =
     publish (\<lambda>t. t\<lparr>ss_phase := PhParked MemoryBudget\<rparr>) (command (EvPark MemoryBudget) s)"

function admit_bytes :: "arrow_env \<Rightarrow> nat \<Rightarrow> bool \<Rightarrow> admit_event list \<Rightarrow> store \<Rightarrow> bool option \<times> store" where
  "admit_bytes env bytes parked evs s =
     (case lease_try_reserve (sh_limit s) bytes (sh_used s) (sh_held s) of
        (True, used, held) \<Rightarrow>
          (Some True, (if parked then unpark else (\<lambda>x. x)) (s\<lparr>sh_used := used, sh_held := held\<rparr>))
      | (False, _, _) \<Rightarrow>
          (case spill_oldest env s of
             (True, s') \<Rightarrow> admit_bytes env bytes parked evs s'
           | (False, s') \<Rightarrow>
               (let s2 = (if parked then s' else park_budget s')
                in case evs of
                     [] \<Rightarrow> (None, s2)
                   | AdmitCancelled # _ \<Rightarrow> (Some False, s2)
                   | BudgetFreed used # evs' \<Rightarrow> admit_bytes env bytes True evs' (s2\<lparr>sh_used := used\<rparr>))))"
  by pat_completeness auto
termination
  by (relation "measures [\<lambda>(env, n, p, evs, s). length evs, \<lambda>(env, n, p, evs, s). table_chunks s]")
     (auto intro: spill_oldest_shrinks)

declare admit_bytes.simps [simp del]

section \<open>Receiving a batch\<close>

record admitted =
  ad_rows :: nat
  ad_bytes :: nat
  ad_body :: chunk_body
  ad_reencoded :: "(nat \<times> batch) list"

definition segment_admitted :: "arrow_env \<Rightarrow> doc_segment \<Rightarrow> admitted" where
  "segment_admitted env seg =
     \<lparr>ad_rows = segment_len seg, ad_bytes = segment_bytes (ae_value_size env) seg,
      ad_body = CDocs seg, ad_reencoded = []\<rparr>"

definition converter_for :: "shape \<Rightarrow> row list \<Rightarrow> converter option \<Rightarrow> converter" where
  "converter_for sh rows c =
     (case c of
        Some conv \<Rightarrow> conv
      | None \<Rightarrow> (case sh of
            ShTable schema \<Rightarrow> new_converter schema
          | _ \<Rightarrow> new_converter (synthesized_schema (length (hd rows)))))"

fun store_convert ::
  "arrow_env \<Rightarrow> shape \<Rightarrow> payload \<Rightarrow> converter option \<Rightarrow> admitted option \<times> converter option" where
  "store_convert env sh (PRows rows) c =
     (if rows = [] then (None, c)
      else (case convert rows (converter_for sh rows c) of
              (c', b, re) \<Rightarrow>
                (Some \<lparr>ad_rows = bt_rows b, ad_bytes = ae_memory env b, ad_body = CTable b,
                       ad_reencoded = re\<rparr>, Some c')))"
| "store_convert env sh (PDocs vs) c =
     (if vs = [] then (None, c) else (Some (segment_admitted env (SegValues vs)), c))"
| "store_convert env sh (PPairs ps) c =
     (if ps = [] then (None, c) else (Some (segment_admitted env (SegPairs ps)), c))"
| "store_convert env sh (PGraph nodes edges) c = (None, c)"
| "store_convert env sh PEmpty c = (None, c)"

text \<open>One re-encoded batch replaces the table of its chunk, unless that has been spilled.\<close>

definition replace_table :: "nat \<times> batch \<Rightarrow> store_chunk list \<Rightarrow> store_chunk list" where
  "replace_table ib cs =
     (case ib of (i, b) \<Rightarrow>
        if i < length cs then
          (case ck_body (cs ! i) of CTable _ \<Rightarrow> cs[i := (cs ! i)\<lparr>ck_body := CTable b\<rparr>] | _ \<Rightarrow> cs)
        else cs)"

definition push_chunk ::
  "admitted \<Rightarrow> nat \<Rightarrow> nat \<Rightarrow> notice list \<Rightarrow> schema_delta list \<Rightarrow> store_state \<Rightarrow> store_state" where
  "push_chunk ad micros coerced notices deltas t =
     t\<lparr>ss_chunks := fold replace_table (ad_reencoded ad) (ss_chunks t)
         @ [\<lparr>ck_first = ss_rows t, ck_rows = ad_rows ad, ck_bytes = ad_bytes ad, ck_body = ad_body ad\<rparr>],
       ss_rows := ss_rows t + ad_rows ad, ss_batches := ss_batches t + 1,
       ss_resident := ss_resident t + ad_bytes ad, ss_coerced := coerced,
       ss_notices := ss_notices t @ notices, ss_deltas := ss_deltas t @ deltas,
       ss_first_micros := (if ss_first_micros t = None then Some micros else ss_first_micros t),
       ss_phase := (if phase_terminal (ss_phase t) then ss_phase t else PhLoading)\<rparr>"

definition settle_schema :: "store \<Rightarrow> store" where
  "settle_schema s =
     (case sh_converter s of
        Some c \<Rightarrow> if is_settled c \<and> cv_arrow_schema c \<noteq> None then s\<lparr>sh_settled := cv_arrow_schema c\<rparr> else s
      | None \<Rightarrow> s)"

definition store_coerced :: "store \<Rightarrow> nat" where
  "store_coerced s = (case sh_converter s of Some c \<Rightarrow> cv_coerced c | None \<Rightarrow> 0)"

text \<open>
  One turn of the writer's loop on a received batch, \<open>micros\<close> after the start; \<open>evs\<close> wake the
  wait for the budget.  The result says whether the loop goes on, has ended, or is still waiting.
\<close>

definition receive ::
  "arrow_env \<Rightarrow> wire_batch \<Rightarrow> nat \<Rightarrow> admit_event list \<Rightarrow> store \<Rightarrow> bool option \<times> store" where
  "receive env wb micros evs s =
     (case store_convert env (sh_shape s) (wb_payload wb) (sh_converter s) of
        (None, conv) \<Rightarrow>
          (Some True, publish (\<lambda>t. t\<lparr>ss_notices := ss_notices t @ wb_notices wb,
                                     ss_deltas := ss_deltas t @ wb_deltas wb\<rparr>) (s\<lparr>sh_converter := conv\<rparr>))
      | (Some ad, conv) \<Rightarrow>
          (case admit_bytes env (ad_bytes ad) False evs (s\<lparr>sh_converter := conv\<rparr>) of
             (None, s') \<Rightarrow> (None, s')
           | (Some False, s') \<Rightarrow> (Some False, finish_store PhCancelled s')
           | (Some True, s') \<Rightarrow>
               (let s2 = settle_schema s'
                in (Some True,
                    enforce_hot_window env
                      (publish (push_chunk ad micros (store_coerced s2) (wb_notices wb) (wb_deltas wb)) s2)))))"

text \<open>The channel closed, or the query was cancelled.\<close>

definition store_end :: "feed_state \<Rightarrow> store \<Rightarrow> store" where
  "store_end fs s =
     finish_store (case fs of FeedCapped \<Rightarrow> PhCapped | FeedCancelled \<Rightarrow> PhCancelled
       | FeedFailed e \<Rightarrow> PhFailed e | _ \<Rightarrow> PhComplete) s"

definition store_cancelled :: "store \<Rightarrow> store" where
  "store_cancelled s = finish_store PhCancelled s"

definition stop_store :: "store \<Rightarrow> store" where
  "stop_store s = command EvCancel s"

section \<open>Reading a window\<close>

datatype window_slice = WTable nat batch nat nat | WDocs nat doc_segment nat nat

fun slice_len :: "window_slice \<Rightarrow> nat" where
  "slice_len (WTable _ _ _ n) = n"
| "slice_len (WDocs _ _ _ n) = n"

datatype window_status = WReady | WPartial | WPending | WCapped | WCancelled | WFailed db_error

record row_window =
  rw_start :: nat
  rw_end :: nat
  rw_status :: window_status
  rw_slices :: "window_slice list"

definition read_spilled :: "arrow_env \<Rightarrow> store \<Rightarrow> nat \<Rightarrow> batch option" where
  "read_spilled env s i =
     (case sh_spill s of
        None \<Rightarrow> None
      | Some w \<Rightarrow> (case spill_read env i w of Inl e \<Rightarrow> None | Inr b \<Rightarrow> Some b))"

definition chunk_slice :: "arrow_env \<Rightarrow> store \<Rightarrow> nat \<Rightarrow> nat \<Rightarrow> store_chunk \<Rightarrow> window_slice list" where
  "chunk_slice env s row stop c =
     (let offset = row - ck_first c; n = min stop (ck_first c + ck_rows c) - row
      in case ck_body c of
           CTable b \<Rightarrow> [WTable row b offset n]
         | CDocs seg \<Rightarrow> [WDocs row seg offset n]
         | CSpilled i \<Rightarrow> (case read_spilled env s i of Some b \<Rightarrow> [WTable row b offset n] | None \<Rightarrow> []))"


lemma binary_search_hit: "binary_search_by f xs = Some i \<Longrightarrow> f (xs ! i) = Equal"
  by (auto simp: binary_search_by_def Let_def split: if_splits)

lemma chunk_of_hit:
  assumes "chunk_of t row = Some i"
  shows "ck_first (ss_chunks t ! i) \<le> row \<and> row < ck_first (ss_chunks t ! i) + ck_rows (ss_chunks t ! i)"
  using binary_search_hit [OF assms [unfolded chunk_of_def]] by (auto simp: row_order_def split: if_splits)

function window_slices :: "arrow_env \<Rightarrow> store \<Rightarrow> nat \<Rightarrow> nat \<Rightarrow> window_slice list" where
  "window_slices env s row stop =
     (if row < stop then
        (case chunk_of (sh_state s) row of
           None \<Rightarrow> []
         | Some i \<Rightarrow>
             (let c = ss_chunks (sh_state s) ! i
              in chunk_slice env s row stop c @ window_slices env s (ck_first c + ck_rows c) stop))
      else [])"
  by pat_completeness auto
termination
  by (relation "measure (\<lambda>(env, s, row, stop). stop - row)") (auto dest: chunk_of_hit)

declare window_slices.simps [simp del]

definition window_status_of :: "store_phase \<Rightarrow> nat \<Rightarrow> nat \<Rightarrow> window_status" where
  "window_status_of ph got wanted =
     (if wanted \<le> got then WReady
      else (case ph of
              PhCapped \<Rightarrow> WCapped
            | PhCancelled \<Rightarrow> WCancelled
            | PhFailed e \<Rightarrow> WFailed e
            | PhComplete \<Rightarrow> WReady
            | _ \<Rightarrow> if 0 < got then WPartial else WPending))"

text \<open>\<open>get_rows\<close>: the window, and the store after it, which may have resumed its feeder.\<close>

definition get_rows :: "arrow_env \<Rightarrow> nat \<Rightarrow> nat \<Rightarrow> store \<Rightarrow> row_window \<times> store" where
  "get_rows env start stop s =
     (let t = sh_state s;
          slices = (if start < ss_rows t then window_slices env s start (min stop (ss_rows t)) else []);
          got = sum_list (map slice_len slices);
          wanted = stop - start;
          resumes = (got < wanted \<and> \<not> phase_terminal (ss_phase t))
      in (\<lparr>rw_start = start, rw_end = stop, rw_status = window_status_of (ss_phase t) got wanted,
           rw_slices = slices\<rparr>,
          if resumes then command EvResume s else s))"

section \<open>The spill file is random access\<close>

text \<open>
  What is relied on of Arrow: a stream carries one schema, and the stream reader reads back the
  batches of that schema.  Of a batch of another schema nothing is assumed: the reader would read
  its columns under the writer's schema.
\<close>

definition ipc_law :: "arrow_env \<Rightarrow> bool" where
  "ipc_law env =
     (\<forall>b buf. ae_encode env (bt_schema b) b = Some buf \<longrightarrow> ae_decode env buf = IpcBatch b)"

definition spill_holds :: "arrow_env \<Rightarrow> spill \<Rightarrow> batch list \<Rightarrow> bool" where
  "spill_holds env w bs =
     (length (sp_chunks w) = length bs \<and> sp_bytes w \<le> sp_max w
      \<and> (\<forall>i < length bs. spill_read env i w = Inr (bs ! i) \<and> spill_rows i w = Some (bt_rows (bs ! i))))"

lemma spill_read_grow:
  assumes "spill_read env i w = Inr b" and "i < length (sp_chunks w)"
    and "sp_file w' = sp_file w @ x" and "sp_chunks w' = sp_chunks w @ y"
  shows "spill_read env i w' = Inr b"
  using assms by (auto simp: spill_read_def byte_at_def slice_def nth_append split: if_splits)

lemma spill_holds_new: "spill_holds env (new_spill schema m) []"
  by (simp add: spill_holds_def new_spill_def)

lemma spill_append_fields: "spill_append env io b w = (r, w') \<Longrightarrow> sp_max w' = sp_max w \<and> sp_schema w' = sp_schema w"
  by (auto simp: spill_append_def split: option.splits if_splits io_outcome.splits)

lemma spill_append_err:
  assumes "spill_holds env w bs" and "spill_append env io b w = (Inl e, w')"
  shows "spill_holds env w' bs"
proof -
  have "sp_chunks w' = sp_chunks w" "sp_bytes w' = sp_bytes w" "sp_max w' = sp_max w" "\<exists>x. sp_file w' = sp_file w @ x"
    using assms(2) by (auto simp: spill_append_def split: option.splits if_splits io_outcome.splits)
  with assms(1) show ?thesis
    by (auto simp: spill_holds_def spill_rows_def intro: spill_read_grow)
qed

lemma spill_append_ok:
  assumes "ipc_law env" and "spill_holds env w bs" and "spill_append env io b w = (Inr slot, w')"
    and "bt_schema b = sp_schema w"
  shows "slot = length bs" and "spill_holds env w' (bs @ [b])"
proof -
  from assms(3) obtain buf where buf: "ae_encode env (sp_schema w) b = Some buf"
    and room: "sp_bytes w + length buf \<le> sp_max w" and slot: "slot = length (sp_chunks w)"
    and w': "w' = w\<lparr>sp_file := sp_file w @ buf,
                   sp_chunks := sp_chunks w @ [\<lparr>cl_offset = length (sp_file w), cl_len = length buf,
                                                cl_rows = bt_rows b\<rparr>],
                   sp_bytes := sp_bytes w + length buf\<rparr>"
    by (auto simp: spill_append_def split: option.splits if_splits io_outcome.splits)
  from assms(2) slot show "slot = length bs" by (simp add: spill_holds_def)
  have dec: "ae_decode env buf = IpcBatch b" using assms(1,4) buf by (simp add: ipc_law_def)
  show "spill_holds env w' (bs @ [b])"
    unfolding spill_holds_def
  proof (intro conjI allI impI)
    fix i assume i: "i < length (bs @ [b])"
    have len: "length (sp_chunks w) = length bs" using assms(2) by (simp add: spill_holds_def)
    show "spill_read env i w' = Inr ((bs @ [b]) ! i)"
    proof (cases "i < length bs")
      case True
      with assms(2) have "spill_read env i w = Inr (bs ! i)" by (simp add: spill_holds_def)
      from spill_read_grow [OF this, of w'] True len show ?thesis by (simp add: w' nth_append)
    next
      case False
      with i have "i = length bs" by simp
      with len dec show ?thesis by (simp add: w' spill_read_def byte_at_def slice_def nth_append)
    qed
    show "spill_rows i w' = Some (bt_rows ((bs @ [b]) ! i))"
      using assms(2) i len by (auto simp: w' spill_rows_def spill_holds_def byte_at_def nth_append)
  qed (use assms(2) room in \<open>auto simp: spill_holds_def w'\<close>)
qed

text \<open>Appending a list of batches, each with what the system answers: the batches taken.\<close>

fun spill_script :: "arrow_env \<Rightarrow> (io_outcome \<times> batch) list \<Rightarrow> spill \<Rightarrow> batch list \<times> spill" where
  "spill_script env [] w = ([], w)"
| "spill_script env ((io, b) # xs) w =
     (case spill_append env io b w of
        (Inl e, w') \<Rightarrow> spill_script env xs w'
      | (Inr slot, w') \<Rightarrow> (case spill_script env xs w' of (bs, w'') \<Rightarrow> (b # bs, w'')))"

lemma spill_script_holds:
  "ipc_law env \<Longrightarrow> spill_holds env w bs0 \<Longrightarrow> spill_script env xs w = (bs, w')
    \<Longrightarrow> \<forall>(io, b) \<in> set xs. bt_schema b = sp_schema w
    \<Longrightarrow> spill_holds env w' (bs0 @ bs) \<and> sp_max w' = sp_max w"
proof (induction xs arbitrary: w bs0 bs)
  case (Cons x xs)
  obtain io b where x: "x = (io, b)" by (cases x)
  obtain r w1 where ap: "spill_append env io b w = (r, w1)" by (cases "spill_append env io b w")
  note mx = spill_append_fields [OF ap]
  have sch: "bt_schema b = sp_schema w" and rest: "\<forall>(io, b) \<in> set xs. bt_schema b = sp_schema w1"
    using Cons.prems(4) x mx by auto
  show ?case
  proof (cases r)
    case (Inl e)
    with ap Cons.prems have "spill_holds env w1 bs0" by (auto intro: spill_append_err)
    with Cons.IH [OF Cons.prems(1) this _ rest] Cons.prems ap x Inl mx show ?thesis by auto
  next
    case (Inr slot)
    with ap Cons.prems sch have "spill_holds env w1 (bs0 @ [b])" by (auto intro: spill_append_ok)
    with Cons.IH [OF Cons.prems(1) this _ rest] Cons.prems ap x Inr mx show ?thesis
      by (auto split: prod.splits)
  qed
qed simp

text \<open>
  C34.  The spill file gives back every chunk by its index, in any order: after any sequence of
  appends of batches of the file's schema, with writes that fail or tear included, reading index
  \<open>i\<close> returns the \<open>i\<close>-th batch whose append succeeded, an index past them is refused, and the
  indexed bytes stay within the limit.
\<close>

theorem spill_random_access:
  assumes "ipc_law env" and "spill_script env script (new_spill schema limit) = (bs, w)"
    and "\<And>io b. (io, b) \<in> set script \<Longrightarrow> bt_schema b = schema"
  shows "spill_read env i w = (if i < length bs then Inr (bs ! i) else Inl (SpNoSuchChunk i))
    \<and> spill_rows i w = (if i < length bs then Some (bt_rows (bs ! i)) else None)
    \<and> sp_bytes w \<le> limit"
proof -
  have "\<forall>(io, b) \<in> set script. bt_schema b = sp_schema (new_spill schema limit)"
    using assms(3) by (auto simp: new_spill_def)
  from spill_script_holds [OF assms(1) spill_holds_new assms(2) this]
  have "spill_holds env w bs" "sp_max w = limit" by (simp_all add: new_spill_def)
  then show ?thesis by (auto simp: spill_holds_def spill_read_def spill_rows_def byte_at_def)
qed

text \<open>
  A sample of Arrow on batches of one nullable column of truth values, a cell to a byte.  A batch
  whose schema is not the writer's is written under the writer's, as the stream format has it.
\<close>

definition bool_schema :: arrow_schema where
  "bool_schema = [(''ok'', ABoolean)]"

definition bool_batch :: "bool option list \<Rightarrow> batch" where
  "bool_batch bs =
     \<lparr>bt_schema = bool_schema,
      bt_columns = [\<lparr>col_type = ABoolean, col_cells = map (map_option CellBool) bs\<rparr>], bt_rows = length bs\<rparr>"

fun bool_cell :: "cell option \<Rightarrow> bool option" where
  "bool_cell (Some (CellBool b)) = Some b"
| "bool_cell _ = None"

definition bools_of :: "batch \<Rightarrow> bool option list" where
  "bools_of b = (case bt_columns b of [c] \<Rightarrow> map bool_cell (col_cells c) | _ \<Rightarrow> [])"

definition bool_byte :: "bool option \<Rightarrow> char" where
  "bool_byte b = (case b of Some True \<Rightarrow> CHR ''t'' | Some False \<Rightarrow> CHR ''f'' | None \<Rightarrow> CHR ''-'')"

definition byte_bool :: "char \<Rightarrow> bool option" where
  "byte_bool c = (if c = CHR ''t'' then Some True else if c = CHR ''f'' then Some False else None)"

definition sample_env :: arrow_env where
  "sample_env =
     \<lparr>ae_memory = (\<lambda>b. 8),
      ae_encode = (\<lambda>schema b. if b\<lparr>bt_schema := schema\<rparr> = bool_batch (bools_of b) then Some (map bool_byte (bools_of b)) else None),
      ae_decode = (\<lambda>buf. IpcBatch (bool_batch (map byte_bool buf))), ae_value_size = 8\<rparr>"

lemma byte_bool_byte: "map byte_bool (map bool_byte bs) = bs"
  by (rule nth_equalityI) (auto simp: bool_byte_def byte_bool_def split: option.split bool.split)

lemma sample_env_law: "ipc_law sample_env"
  unfolding ipc_law_def
proof (intro allI impI)
  fix b buf assume enc: "ae_encode sample_env (bt_schema b) b = Some buf"
  have same: "b\<lparr>bt_schema := bt_schema b\<rparr> = b" by simp
  from enc have b: "b = bool_batch (bools_of b)" and buf: "buf = map bool_byte (bools_of b)"
    by (auto simp: sample_env_def same split: if_splits)
  have "ae_decode sample_env buf = IpcBatch (bool_batch (bools_of b))"
    unfolding buf by (simp only: sample_env_def arrow_env.simps byte_bool_byte)
  then show "ae_decode sample_env buf = IpcBatch b" by (simp only: b [symmetric])
qed

lemma spill_random_access_witness:
  "spill_read sample_env 1
     (snd (spill_script sample_env
       [(IoOk, bool_batch [Some True, None]), (IoTorn 1, bool_batch [None, None]), (IoOk, bool_batch [Some False])]
       (new_spill bool_schema 100)))
   = Inr (bool_batch [Some False])"
proof -
  let ?x = "[(IoOk, bool_batch [Some True, None]), (IoTorn 1, bool_batch [None, None]), (IoOk, bool_batch [Some False])]"
  let ?s = "spill_script sample_env ?x (new_spill bool_schema 100)"
  have bs: "fst ?s = [bool_batch [Some True, None], bool_batch [Some False]]" by code_simp
  have run: "?s = (fst ?s, snd ?s)" by simp
  have "bt_schema b = bool_schema" if "(io, b) \<in> set ?x" for io b
    using that by (auto simp: bool_batch_def)
  from spill_random_access [where i = 1, OF sample_env_law run this] show ?thesis unfolding bs by simp
qed

section \<open>The chunks tile the rows\<close>

fun tiles :: "nat \<Rightarrow> store_chunk list \<Rightarrow> bool" where
  "tiles n [] = True"
| "tiles n (c # cs) = (ck_first c = n \<and> 0 < ck_rows c \<and> tiles (n + ck_rows c) cs)"

abbreviation rows_of :: "store_chunk list \<Rightarrow> nat" where
  "rows_of cs \<equiv> sum_list (map ck_rows cs)"

lemma tiles_append [simp]: "tiles n (xs @ ys) = (tiles n xs \<and> tiles (n + rows_of xs) ys)"
  by (induction xs arbitrary: n) (auto simp: add.assoc)

lemma tiles_nth: "tiles n cs \<Longrightarrow> i < length cs \<Longrightarrow> ck_first (cs ! i) = n + rows_of (take i cs) \<and> 0 < ck_rows (cs ! i)"
proof (induction cs arbitrary: n i)
  case (Cons c cs)
  then show ?case by (cases i) auto
qed simp

lemma rows_take_mono:
  assumes "tiles n cs" and "i < j" and "j \<le> length cs"
  shows "rows_of (take i cs) + ck_rows (cs ! i) \<le> rows_of (take j cs)"
proof -
  have "take (Suc i) cs = take i cs @ [cs ! i]" using assms by (simp add: take_Suc_conv_app_nth)
  moreover have "take j cs = take (Suc i) cs @ take (j - Suc i) (drop (Suc i) cs)"
    using assms(2) by (metis Suc_leI le_add_diff_inverse take_add)
  ultimately show ?thesis by simp
qed

lemma rows_take_le: "tiles n cs \<Longrightarrow> i < length cs \<Longrightarrow> rows_of (take i cs) + ck_rows (cs ! i) \<le> rows_of cs"
  using rows_take_mono [of n cs i "length cs"] by simp

text \<open>The search lands on the last position of the window that is not greater than the target.\<close>

definition stays_greater :: "(nat \<Rightarrow> ordering) \<Rightarrow> nat \<Rightarrow> bool" where
  "stays_greater cmp n = (\<forall>i j. i < j \<longrightarrow> j < n \<longrightarrow> cmp i = Greater \<longrightarrow> cmp j = Greater)"

definition last_not_greater :: "(nat \<Rightarrow> ordering) \<Rightarrow> nat \<Rightarrow> nat \<Rightarrow> nat \<Rightarrow> bool" where
  "last_not_greater cmp base n r =
     (base \<le> r \<and> r < base + n \<and> (\<forall>j. r < j \<longrightarrow> j < base + n \<longrightarrow> cmp j = Greater)
      \<and> (r = base \<or> cmp r \<noteq> Greater))"

lemma bsearch_base_last:
  "0 < n \<Longrightarrow> stays_greater cmp (base + n) \<Longrightarrow> last_not_greater cmp base n (bsearch_base cmp base n)"
proof (induction cmp base n rule: bsearch_base.induct)
  case (1 cmp base n)
  show ?case
  proof (cases "n \<le> 1")
    case True
    with 1 show ?thesis by (simp add: bsearch_base.simps [of cmp base n] last_not_greater_def)
  next
    case False
    define half where "half = n div 2"
    define mid where "mid = base + half"
    define base' where "base' = (if cmp mid = Greater then base else mid)"
    define r where "r = bsearch_base cmp base' (n - half)"
    have half: "0 < half" "half \<le> n - half" "0 < n - half" "half < n" using False by (auto simp: half_def)
    have eq: "bsearch_base cmp base n = r"
      using False by (simp add: bsearch_base.simps [of cmp base n] Let_def half_def mid_def base'_def r_def)
    have top: "base' + (n - half) \<le> base + n" using half by (simp add: base'_def mid_def)
    then have "stays_greater cmp (base' + (n - half))"
      using 1(3) unfolding stays_greater_def by (meson less_le_trans)
    with 1(1) [OF False half_def mid_def] half(3)
    have r: "last_not_greater cmp base' (n - half) r" by (simp add: base'_def r_def)
    have above: "cmp j = Greater" if "base' + (n - half) \<le> j" "j < base + n" for j
    proof -
      have g: "cmp mid = Greater" using that half by (auto simp: base'_def mid_def split: if_splits)
      with that half have "mid < j \<or> mid = j" by (auto simp: base'_def mid_def)
      with g 1(3) that(2) show ?thesis unfolding stays_greater_def by blast
    qed
    have ge: "base \<le> base'" and own: "base' = base \<or> cmp base' \<noteq> Greater"
      by (auto simp: base'_def mid_def)
    show ?thesis
      unfolding last_not_greater_def eq
    proof (intro conjI allI impI)
      show "base \<le> r" "r < base + n" using r ge top by (auto simp: last_not_greater_def)
      show "r = base \<or> cmp r \<noteq> Greater" using r own by (auto simp: last_not_greater_def)
      show "cmp j = Greater" if "r < j" "j < base + n" for j
        using r above that by (cases "j < base' + (n - half)") (auto simp: last_not_greater_def)
    qed
  qed
qed

lemma bsearch_base_less: "0 < n \<Longrightarrow> bsearch_base cmp base n < base + n"
proof (induction cmp base n rule: bsearch_base.induct)
  case (1 cmp base n)
  show ?case
  proof (cases "n \<le> 1")
    case True
    with 1 show ?thesis by (simp add: bsearch_base.simps [of cmp base n])
  next
    case False
    define half where "half = n div 2"
    have half: "half \<le> n - half" "0 < n - half" "half < n" using False by (auto simp: half_def)
    from 1(1) [OF False half_def refl] half show ?thesis using False
      by (auto simp: bsearch_base.simps [of cmp base n] Let_def half_def [symmetric] split: if_splits)
  qed
qed

lemma binary_search_finds:
  assumes "k < length xs" and "f (xs ! k) = Equal"
    and "\<And>i. i < k \<Longrightarrow> f (xs ! i) = Less" and "\<And>i. k < i \<Longrightarrow> i < length xs \<Longrightarrow> f (xs ! i) = Greater"
  shows "binary_search_by f xs = Some k"
proof -
  define cmp where "cmp = (\<lambda>i. f (xs ! i))"
  define r where "r = bsearch_base cmp 0 (length xs)"
  have low: "cmp i \<noteq> Greater" if "i \<le> k" for i
    using that assms(2,3) by (cases "i = k") (auto simp: cmp_def)
  have "stays_greater cmp (0 + length xs)"
    unfolding stays_greater_def
  proof (intro allI impI)
    fix i j assume "i < j" "j < 0 + length xs" "cmp i = Greater"
    with low have "k < j" by (meson leI less_trans)
    with assms(4) \<open>j < 0 + length xs\<close> show "cmp j = Greater" by (simp add: cmp_def)
  qed
  moreover have "0 < length xs" using assms(1) by (rule le_less_trans [OF le0])
  ultimately have r: "last_not_greater cmp 0 (length xs) r"
    unfolding r_def by (intro bsearch_base_last) simp_all
  have "r = k"
  proof (rule ccontr)
    assume "r \<noteq> k"
    moreover have "\<not> r < k" using r low [of k] assms(1) by (auto simp: last_not_greater_def)
    ultimately have "k < r" by simp
    moreover from this r assms(4) have "cmp r = Greater" by (simp add: cmp_def last_not_greater_def)
    ultimately show False using r by (simp add: last_not_greater_def)
  qed
  moreover have "xs \<noteq> []" using assms(1) by auto
  ultimately show ?thesis using assms(2) by (simp add: binary_search_by_def Let_def r_def cmp_def)
qed

lemma chunk_of_bound: "chunk_of t row = Some i \<Longrightarrow> i < length (ss_chunks t)"
proof -
  assume c: "chunk_of t row = Some i"
  then have "0 < length (ss_chunks t)" by (auto simp: chunk_of_def binary_search_by_def split: if_splits)
  moreover from c have "i = bsearch_base (\<lambda>i. row_order row (ss_chunks t ! i)) 0 (length (ss_chunks t))"
    by (auto simp: chunk_of_def binary_search_by_def Let_def split: if_splits)
  ultimately show ?thesis using bsearch_base_less [of "length (ss_chunks t)" _ 0] by (simp only: add_0)
qed

lemma chunk_of_tiles:
  assumes t: "tiles 0 (ss_chunks t)" and k: "k < length (ss_chunks t)"
    and "ck_first (ss_chunks t ! k) \<le> row" and "row < ck_first (ss_chunks t ! k) + ck_rows (ss_chunks t ! k)"
  shows "chunk_of t row = Some k"
  unfolding chunk_of_def
proof (rule binary_search_finds [OF k])
  note nth = tiles_nth [OF t]
  show "row_order row (ss_chunks t ! k) = Equal" using assms by (simp add: row_order_def)
  show "row_order row (ss_chunks t ! i) = Less" if "i < k" for i
    using nth [of i] nth [OF k] rows_take_mono [OF t that] assms(3) that k by (auto simp: row_order_def)
  show "row_order row (ss_chunks t ! i) = Greater" if "k < i" "i < length (ss_chunks t)" for i
    using nth [of i] nth [OF k] rows_take_mono [OF t that(1)] assms(4) that by (auto simp: row_order_def)
qed

lemma chunk_tiles_cover:
  "tiles n cs \<Longrightarrow> n \<le> row \<Longrightarrow> row < n + rows_of cs
    \<Longrightarrow> \<exists>k < length cs. ck_first (cs ! k) \<le> row \<and> row < ck_first (cs ! k) + ck_rows (cs ! k)"
proof (induction cs arbitrary: n)
  case (Cons c cs)
  show ?case
  proof (cases "row < n + ck_rows c")
    case True
    with Cons.prems show ?thesis by (intro exI [of _ 0]) simp
  next
    case False
    with Cons.prems obtain k where "k < length cs" "ck_first (cs ! k) \<le> row" "row < ck_first (cs ! k) + ck_rows (cs ! k)"
      using Cons.IH [of "n + ck_rows c"] by (auto simp: add.assoc)
    then show ?thesis by (intro exI [of _ "Suc k"]) simp
  qed
qed simp

text \<open>
  The binary search over the chunks is exact: when the chunks tile the rows, every row
  below the total is found in the one chunk whose range holds it, and no other row is found.
\<close>

theorem chunk_of_exact:
  assumes "tiles 0 (ss_chunks t)"
  shows "(chunk_of t row = Some k)
     = (k < length (ss_chunks t) \<and> ck_first (ss_chunks t ! k) \<le> row
        \<and> row < ck_first (ss_chunks t ! k) + ck_rows (ss_chunks t ! k))
    \<and> (chunk_of t row = None) = (rows_of (ss_chunks t) \<le> row)"
proof
  show "(chunk_of t row = Some k)
     = (k < length (ss_chunks t) \<and> ck_first (ss_chunks t ! k) \<le> row
        \<and> row < ck_first (ss_chunks t ! k) + ck_rows (ss_chunks t ! k))"
    using chunk_of_hit chunk_of_bound chunk_of_tiles [OF assms] by blast
  have "rows_of (ss_chunks t) \<le> row" if none: "chunk_of t row = None"
  proof (rule ccontr)
    assume "\<not> rows_of (ss_chunks t) \<le> row"
    with chunk_tiles_cover [OF assms, of row] chunk_of_tiles [OF assms] none show False by auto
  qed
  moreover have "chunk_of t row \<noteq> Some i" if "rows_of (ss_chunks t) \<le> row" for i
  proof
    assume c: "chunk_of t row = Some i"
    note b = chunk_of_bound [OF c]
    from tiles_nth [OF assms b] rows_take_le [OF assms b] chunk_of_hit [OF c] that show False by simp
  qed
  ultimately show "(chunk_of t row = None) = (rows_of (ss_chunks t) \<le> row)"
    by (cases "chunk_of t row") auto
qed

lemma chunk_of_exact_witness:
  "let c = \<lparr>ck_first = 0, ck_rows = 2, ck_bytes = 0, ck_body = CSpilled 0\<rparr>;
       t = empty_state\<lparr>ss_chunks := [c, c\<lparr>ck_first := 2, ck_rows := 3\<rparr>]\<rparr>
   in chunk_of t 4 = Some 1"
proof -
  define c where "c = \<lparr>ck_first = 0, ck_rows = 2, ck_bytes = 0, ck_body = CSpilled 0\<rparr>"
  define t where "t = empty_state\<lparr>ss_chunks := [c, c\<lparr>ck_first := 2, ck_rows := 3\<rparr>]\<rparr>"
  have "tiles 0 (ss_chunks t)" by (simp add: t_def c_def)
  from conjunct1 [OF chunk_of_exact [OF this, of 4 1]] have "chunk_of t 4 = Some 1"
    by (simp add: t_def c_def)
  then show ?thesis by (simp add: Let_def t_def c_def)
qed

end
