(* ===== verification/Store_Refinement.thy ===== *)
theory Store_Refinement
  imports Result_Store
begin

text \<open>
  The result store refines the list of the rows it has received.  \<open>store_rows\<close> reads the rows
  a store stands for out of its chunks and its spill file; every operation of
  \<open>Result_Store\<close> keeps that list or appends the rows of the batch received, and the windows
  \<open>get_rows\<close> hands out are slices of it.  The locale \<open>store_steps\<close> carries a relation through
  the writer's two loops; it is interpreted for the rows, for the configuration and for the
  accounting of bytes.
\<close>

section \<open>The rows a store stands for\<close>

datatype result_row = TableRow "cell option list" | DocRow "db_value" | PairRow "db_value" "db_value"

definition batch_result_rows :: "batch \<Rightarrow> result_row list" where
  "batch_result_rows b = map (\<lambda>r. TableRow (map (\<lambda>cells. cells ! r) (map col_cells (bt_columns b)))) [0..<bt_rows b]"

fun segment_rows :: "doc_segment \<Rightarrow> result_row list" where
  "segment_rows (SegValues vs) = map DocRow vs"
| "segment_rows (SegPairs ps) = map (\<lambda>(k, v). PairRow k v) ps"

fun slice_rows :: "window_slice \<Rightarrow> result_row list" where
  "slice_rows (WTable row b offset n) = take n (drop offset (batch_result_rows b))"
| "slice_rows (WDocs row seg offset n) = take n (drop offset (segment_rows seg))"

definition chunk_result_rows :: "arrow_env \<Rightarrow> store \<Rightarrow> store_chunk \<Rightarrow> result_row list" where
  "chunk_result_rows env s c =
     (case ck_body c of
        CTable b \<Rightarrow> batch_result_rows b
      | CDocs seg \<Rightarrow> segment_rows seg
      | CSpilled i \<Rightarrow> (case read_spilled env s i of Some b \<Rightarrow> batch_result_rows b | None \<Rightarrow> []))"

definition store_rows :: "arrow_env \<Rightarrow> store \<Rightarrow> result_row list" where
  "store_rows env s = concat (map (chunk_result_rows env s) (ss_chunks (sh_state s)))"

definition spill_sane :: "arrow_env \<Rightarrow> store \<Rightarrow> bool" where
  "spill_sane env s =
     (case sh_spill s of
        None \<Rightarrow> True
      | Some w \<Rightarrow> sh_settled s = Some (sp_schema w) \<and> (\<exists>bs. spill_holds env w bs))"

definition read_ok :: "arrow_env \<Rightarrow> store \<Rightarrow> bool" where
  "read_ok env s =
     (tiles 0 (ss_chunks (sh_state s)) \<and> ss_rows (sh_state s) = rows_of (ss_chunks (sh_state s))
      \<and> list_all (\<lambda>c. length (chunk_result_rows env s c) = ck_rows c) (ss_chunks (sh_state s))
      \<and> spill_sane env s)"

lemma length_batch_rows [simp]: "length (batch_result_rows b) = bt_rows b"
  by (simp add: batch_result_rows_def)

lemma length_segment_rows [simp]: "length (segment_rows seg) = segment_len seg"
  by (cases seg) simp_all

lemma batch_rows_cong:
  "map col_cells (bt_columns a) = map col_cells (bt_columns b) \<Longrightarrow> bt_rows a = bt_rows b
    \<Longrightarrow> batch_result_rows a = batch_result_rows b"
  by (simp add: batch_result_rows_def)

lemma chunk_slice_rows:
  assumes "length (chunk_result_rows env s c) = ck_rows c" and "0 < ck_rows c"
    and "ck_first c \<le> row" and "row < stop" and "row < ck_first c + ck_rows c"
  shows "concat (map slice_rows (chunk_slice env s row stop c))
      = slice (chunk_result_rows env s c) (row - ck_first c) (min stop (ck_first c + ck_rows c) - ck_first c)"
    and "sum_list (map slice_len (chunk_slice env s row stop c)) = min stop (ck_first c + ck_rows c) - row"
  using assms by (auto simp: chunk_slice_def chunk_result_rows_def Let_def slice_def
      split: chunk_body.splits option.splits)

lemma slice_append_mid:
  assumes "length xs = p" and "p \<le> a" and "b \<le> p + length ys"
  shows "slice (xs @ ys @ zs) a b = slice ys (a - p) (b - p)"
  using assms by (cases "a \<le> b") (auto simp: slice_def min_def)

lemma length_chunk_rows:
  "list_all (\<lambda>c. length (chunk_result_rows env s c) = ck_rows c) cs
    \<Longrightarrow> length (concat (map (chunk_result_rows env s) cs)) = rows_of cs"
  by (induction cs) auto

lemma store_rows_chunk:
  assumes ok: "read_ok env s" and i: "i < length (ss_chunks (sh_state s))"
    and "ck_first (ss_chunks (sh_state s) ! i) \<le> a"
    and "b \<le> ck_first (ss_chunks (sh_state s) ! i) + ck_rows (ss_chunks (sh_state s) ! i)"
  shows "slice (store_rows env s) a b =
    slice (chunk_result_rows env s (ss_chunks (sh_state s) ! i))
      (a - ck_first (ss_chunks (sh_state s) ! i)) (b - ck_first (ss_chunks (sh_state s) ! i))"
proof -
  let ?cs = "ss_chunks (sh_state s)" and ?r = "chunk_result_rows env s"
  have all: "list_all (\<lambda>c. length (?r c) = ck_rows c) ?cs" using ok by (simp add: read_ok_def)
  have "store_rows env s = concat (map ?r (take i ?cs @ ?cs ! i # drop (Suc i) ?cs))"
    unfolding store_rows_def using id_take_nth_drop [OF i] by simp
  then have split: "store_rows env s = concat (map ?r (take i ?cs)) @ ?r (?cs ! i) @ concat (map ?r (drop (Suc i) ?cs))"
    by simp
  have "length (concat (map ?r (take i ?cs))) = rows_of (take i ?cs)"
    using all by (intro length_chunk_rows) (auto simp: list_all_iff dest: in_set_takeD)
  also have "\<dots> = ck_first (?cs ! i)" using ok i tiles_nth [of 0 ?cs i] by (simp add: read_ok_def)
  finally show ?thesis unfolding split
    using assms(3,4) all i by (intro slice_append_mid) (auto simp: list_all_length)
qed

lemma window_slices_rows:
  "read_ok env s \<Longrightarrow> stop \<le> ss_rows (sh_state s) \<Longrightarrow>
    concat (map slice_rows (window_slices env s row stop)) = slice (store_rows env s) row stop
    \<and> sum_list (map slice_len (window_slices env s row stop)) = stop - row"
proof (induction env s row stop rule: window_slices.induct)
  case (1 env s row stop)
  let ?cs = "ss_chunks (sh_state s)"
  show ?case
  proof (cases "row < stop")
    case True
    have t: "tiles 0 ?cs" and total: "ss_rows (sh_state s) = rows_of ?cs" using 1(2) by (auto simp: read_ok_def)
    from chunk_tiles_cover [OF t, of row] True 1(3) total obtain k where k: "k < length ?cs"
      "ck_first (?cs ! k) \<le> row" "row < ck_first (?cs ! k) + ck_rows (?cs ! k)" by auto
    note hit = chunk_of_tiles [OF t k]
    define c where "c = ?cs ! k"
    define e where "e = ck_first c + ck_rows c"
    note IH = 1(1) [OF True hit c_def 1(2,3), folded e_def]
    have len: "length (chunk_result_rows env s c) = ck_rows c"
      using 1(2) k(1) by (auto simp: read_ok_def list_all_length c_def)
    have pos: "0 < ck_rows c" using tiles_nth [OF t k(1)] by (simp add: c_def)
    have sl: "concat (map slice_rows (chunk_slice env s row stop c)) = slice (store_rows env s) row (min stop e)"
      "sum_list (map slice_len (chunk_slice env s row stop c)) = min stop e - row"
      using chunk_slice_rows [OF len pos, of row stop] k True store_rows_chunk [OF 1(2) k(1), of row "min stop e"]
      by (simp_all add: c_def e_def)
    have w: "window_slices env s row stop = chunk_slice env s row stop c @ window_slices env s e stop"
      using True hit by (simp add: window_slices.simps [of env s row] Let_def c_def e_def)
    show ?thesis
    proof (cases "e \<le> stop")
      case le: True
      have re: "row \<le> e" using k(3) by (simp add: c_def e_def)
      from le re slice_append [OF re le, of "store_rows env s"] IH sl show ?thesis
        by (simp add: w min_absorb2)
    next
      case False
      with IH sl k show ?thesis by (simp add: w min_absorb1 slice_empty)
    qed
  next
    case False
    then show ?thesis by (simp add: window_slices.simps [of env s row] slice_empty)
  qed
qed

section \<open>Every step keeps the rows\<close>

definition keeps_rows :: "arrow_env \<Rightarrow> store \<Rightarrow> store \<Rightarrow> bool" where
  "keeps_rows env s s' = (read_ok env s \<longrightarrow> read_ok env s' \<and> store_rows env s' = store_rows env s)"

named_theorems keeps

lemma keeps_refl [keeps]: "keeps_rows env s s"
  by (simp add: keeps_rows_def)

lemma keeps_trans: "keeps_rows env s s' \<Longrightarrow> keeps_rows env s' s'' \<Longrightarrow> keeps_rows env s s''"
  by (simp add: keeps_rows_def)

lemma chunk_rows_same: "sh_spill s' = sh_spill s \<Longrightarrow> chunk_result_rows env s' = chunk_result_rows env s"
proof -
  assume "sh_spill s' = sh_spill s"
  then have "read_spilled env s' = read_spilled env s" by (intro ext) (simp add: read_spilled_def)
  then show ?thesis by (intro ext) (simp add: chunk_result_rows_def split: chunk_body.split)
qed

lemma spill_sane_same:
  "sh_spill s' = sh_spill s \<Longrightarrow> sh_settled s' = sh_settled s \<Longrightarrow> spill_sane env s' = spill_sane env s"
  by (simp add: spill_sane_def split: option.split)

text \<open>What the rows depend on: the chunks, the count and the spill file.\<close>

lemma keeps_same:
  assumes "ss_chunks (sh_state s') = ss_chunks (sh_state s)" and "ss_rows (sh_state s') = ss_rows (sh_state s)"
    and "sh_spill s' = sh_spill s" and "sh_settled s' = sh_settled s"
  shows "keeps_rows env s s'"
proof -
  show ?thesis
    using assms chunk_rows_same [OF assms(3)] spill_sane_same [OF assms(3,4)]
    by (simp add: keeps_rows_def read_ok_def store_rows_def)
qed

lemma keeps_command [keeps]: "keeps_rows env s (command ev s)"
  by (rule keeps_same) (simp_all add: command_def)

lemma keeps_publish [keeps]:
  "(\<And>t. ss_chunks (f t) = ss_chunks t \<and> ss_rows (f t) = ss_rows t) \<Longrightarrow> keeps_rows env s (publish f s)"
  by (rule keeps_same) (simp_all add: publish_def)

lemma keeps_unpark [keeps]: "keeps_rows env s (unpark s)"
  unfolding unpark_def
  by (rule keeps_trans [OF keeps_command keeps_publish]) (auto split: store_phase.splits)

lemma keeps_park_budget [keeps]: "keeps_rows env s (park_budget s)"
  unfolding park_budget_def by (rule keeps_trans [OF keeps_command keeps_publish]) simp

lemma keeps_finish [keeps]: "keeps_rows env s (finish_store ph s)"
  unfolding finish_store_def by (rule keeps_publish) simp

lemma keeps_release [keeps]: "keeps_rows env s (release_lease n s)"
  by (rule keeps_same) (simp_all add: release_lease_def split: prod.split)

lemma next_io_fields: "next_io s = (io, s') \<Longrightarrow> sh_state s' = sh_state s \<and> sh_spill s' = sh_spill s \<and> sh_settled s' = sh_settled s"
  by (auto simp: next_io_def split: list.splits)

text \<open>A file that grew reads back what it read before, so the rows are kept.\<close>

lemma keeps_grown:
  assumes st: "sh_state s' = sh_state s" and sane: "spill_sane env s'"
    and grow: "\<And>i b. read_spilled env s i = Some b \<Longrightarrow> read_spilled env s' i = Some b"
  shows "keeps_rows env s s'"
  unfolding keeps_rows_def
proof
  assume ok: "read_ok env s"
  have "chunk_result_rows env s' c = chunk_result_rows env s c" if "c \<in> set (ss_chunks (sh_state s))" for c
  proof -
    from that obtain i where i: "i < length (ss_chunks (sh_state s))" "c = ss_chunks (sh_state s) ! i"
      by (auto simp: in_set_conv_nth)
    with ok tiles_nth [of 0 "ss_chunks (sh_state s)" i]
    have "length (chunk_result_rows env s c) \<noteq> 0" by (auto simp: read_ok_def list_all_length)
    then show ?thesis using grow
      by (auto simp: chunk_result_rows_def split: chunk_body.splits option.splits)
  qed
  then have "map (chunk_result_rows env s') (ss_chunks (sh_state s)) = map (chunk_result_rows env s) (ss_chunks (sh_state s))"
    and "list_all (\<lambda>c. length (chunk_result_rows env s' c) = ck_rows c) (ss_chunks (sh_state s))"
    using ok by (auto simp: list_all_iff read_ok_def)
  with ok st sane show "read_ok env s' \<and> store_rows env s' = store_rows env s"
    by (simp add: read_ok_def store_rows_def del: map_eq_conv)
qed

text \<open>One chunk's body is replaced by another that stands for the same rows.\<close>

lemma tiles_update: "tiles n cs \<Longrightarrow> i < length cs \<Longrightarrow> ck_first c = ck_first (cs ! i) \<Longrightarrow> ck_rows c = ck_rows (cs ! i) \<Longrightarrow> tiles n (cs[i := c])"
  by (induction cs arbitrary: n i) (auto split: nat.splits)

lemma rows_of_update: "i < length cs \<Longrightarrow> ck_rows c = ck_rows (cs ! i) \<Longrightarrow> map ck_rows (cs[i := c]) = map ck_rows cs"
  by (simp add: map_update list_update_same_conv)

lemma keeps_swap:
  assumes "i < length (ss_chunks (sh_state s))"
    and ch: "ss_chunks (sh_state s') = (ss_chunks (sh_state s))[i := c]" and "ss_rows (sh_state s') = ss_rows (sh_state s)"
    and sp: "sh_spill s' = sh_spill s" "sh_settled s' = sh_settled s" and "ck_first c = ck_first (ss_chunks (sh_state s) ! i)"
    and "ck_rows c = ck_rows (ss_chunks (sh_state s) ! i)"
    and same: "chunk_result_rows env s c = chunk_result_rows env s (ss_chunks (sh_state s) ! i)"
  shows "keeps_rows env s s'"
proof -
  have eq: "chunk_result_rows env s' = chunk_result_rows env s"
    by (rule chunk_rows_same [OF sp(1)])
  have "map (chunk_result_rows env s) ((ss_chunks (sh_state s))[i := c]) = map (chunk_result_rows env s) (ss_chunks (sh_state s))"
    using assms(1) same by (simp add: map_update list_update_same_conv)
  then have "store_rows env s' = store_rows env s" by (simp add: store_rows_def eq ch)
  moreover have "list_all (\<lambda>d. length (chunk_result_rows env s d) = ck_rows d) (ss_chunks (sh_state s))
      \<Longrightarrow> list_all (\<lambda>d. length (chunk_result_rows env s d) = ck_rows d) ((ss_chunks (sh_state s))[i := c])"
    using assms(1,7) same by (auto simp: list_all_length nth_list_update)
  ultimately show ?thesis
    using assms tiles_update [of 0 "ss_chunks (sh_state s)" i c] rows_of_update [of i "ss_chunks (sh_state s)" c]
    by (simp add: keeps_rows_def read_ok_def spill_sane_same [OF sp] eq)
qed

lemma ensure_spill_cases:
  assumes "ensure_spill schema m s = (w, s')"
  shows "sh_settled s' = sh_settled s \<and> (sh_spill s' = sh_spill s \<and> (w = None \<or> w = sh_spill s)
    \<or> sh_spill s = None \<and> sh_spill s' = Some (new_spill schema m) \<and> w = Some (new_spill schema m))"
proof (cases "sh_spill s")
  case None
  obtain io s1 where io: "next_io s = (io, s1)" by (cases "next_io s")
  note f = next_io_fields [OF io]
  show ?thesis
  proof (cases io)
    case IoOk
    from assms have "w = Some (new_spill schema m)" "s' = s1\<lparr>sh_spill := Some (new_spill schema m)\<rparr>"
      by (auto simp: ensure_spill_def None io IoOk)
    with None f show ?thesis by simp
  next
    case (IoTorn n)
    from assms have "w = None" "s' = s1" by (simp_all add: ensure_spill_def None io IoTorn)
    with f show ?thesis by simp
  qed
next
  case (Some w0)
  with assms show ?thesis by (simp add: ensure_spill_def)
qed

lemma keeps_ensure:
  assumes "ensure_spill schema m s = (w, s')" and settled: "sh_settled s = Some schema"
  shows "keeps_rows env s s'" and "w = None \<or> sh_spill s' = w" and "sh_state s' = sh_state s"
    and "sh_settled s' = Some schema"
proof -
  show st: "sh_state s' = sh_state s" using assms(1) by (rule ensure_spill_state)
  note cases = ensure_spill_cases [OF assms(1)]
  from conjunct1 [OF cases] settled show set: "sh_settled s' = Some schema" by simp
  from conjunct2 [OF cases] show "w = None \<or> sh_spill s' = w" by (elim disjE conjE) simp_all
  from conjunct2 [OF cases]
  consider "sh_spill s' = sh_spill s" | "sh_spill s = None" "sh_spill s' = Some (new_spill schema m)"
    by (elim disjE conjE)
  then show "keeps_rows env s s'"
  proof cases
    case 1
    with st conjunct1 [OF cases] show ?thesis by (intro keeps_same) simp_all
  next
    case 2
    have "sp_schema (new_spill schema m) = schema" by (simp add: new_spill_def)
    with 2 st set show ?thesis
      by (intro keeps_grown) (auto simp: spill_sane_def read_spilled_def intro: spill_holds_new)
  qed
qed

lemma spill_append_grows:
  assumes "spill_append env io b w = (r, w')" and "spill_read env i w = Inr x"
  shows "spill_read env i w' = Inr x"
proof -
  have "i < length (sp_chunks w)" using assms(2) by (auto simp: spill_read_def byte_at_def split: if_splits)
  moreover have "\<exists>x y. sp_file w' = sp_file w @ x \<and> sp_chunks w' = sp_chunks w @ y"
    using assms(1) by (auto simp: spill_append_def split: option.splits if_splits io_outcome.splits)
  ultimately show ?thesis using assms(2) by (auto intro: spill_read_grow)
qed

lemma keeps_append:
  assumes "ipc_law env" and "sh_spill s = Some w" and "spill_append env io b w = (r, w')" and "read_ok env s"
    and "sh_state s' = sh_state s" and "sh_spill s' = Some w'" and "sh_settled s' = sh_settled s"
    and "sh_settled s = Some (bt_schema b)"
  shows "keeps_rows env s s'"
proof (rule keeps_grown [OF assms(5)])
  from assms(2,4) obtain bs where bs: "spill_holds env w bs" and set: "sh_settled s = Some (sp_schema w)"
    by (auto simp: read_ok_def spill_sane_def)
  from spill_append_err [OF bs] spill_append_ok [OF assms(1) bs] assms(3,8) set
  have "\<exists>bs. spill_holds env w' bs" by (cases r) (blast, simp, blast)
  with spill_append_fields [OF assms(3)] set show "spill_sane env s'" by (simp add: spill_sane_def assms(6,7))
  show "read_spilled env s' i = Some x" if "read_spilled env s i = Some x" for i x
    using that spill_append_grows [OF assms(3), of i x] assms(2,6)
    by (auto simp: read_spilled_def split: sum.splits)
qed

lemma keeps_spill_chunk:
  assumes law: "ipc_law env" and w: "sh_spill s = Some w" and i: "i < length (ss_chunks (sh_state s))"
    and run: "spill_chunk env i w s = (r, s')" and settled: "sh_settled s = Some schema"
    and fits: "spillable schema (ss_chunks (sh_state s) ! i)"
  shows "keeps_rows env s s'"
proof (cases "read_ok env s")
  case ok: True
  define c where "c = ss_chunks (sh_state s) ! i"
  obtain io s1 where io: "next_io s = (io, s1)" by (cases "next_io s")
  note f = next_io_fields [OF io]
  have k1: "keeps_rows env s s1" using f by (intro keeps_same) simp_all
  show ?thesis
  proof (cases "ck_body c")
    case (CTable b)
    obtain res w' where ap: "spill_append env io b w = (res, w')" by (cases "spill_append env io b w")
    define s2 where "s2 = s1\<lparr>sh_spill := Some w'\<rparr>"
    have sch: "sh_settled s = Some (bt_schema b)" using settled fits CTable by (simp add: spillable_def c_def)
    have k2: "keeps_rows env s s2"
      using f sch by (intro keeps_append [OF law w ap ok]) (simp_all add: s2_def)
    show ?thesis
    proof (cases res)
      case (Inl e)
      then have "s' = s2" using run by (simp add: spill_chunk_def io c_def [symmetric] CTable ap s2_def)
      with k2 show ?thesis by simp
    next
      case (Inr slot)
      define s3 where "s3 = publish (mark_spilled i slot (ck_bytes c) (sp_bytes w')) s2"
      have s': "s' = release_lease (ck_bytes c) s3"
        using run by (simp add: spill_chunk_def io c_def [symmetric] CTable ap Inr s2_def s3_def)
      from w ok obtain bs where "spill_holds env w bs" "sh_settled s = Some (sp_schema w)"
        by (auto simp: read_ok_def spill_sane_def)
      with sch have "spill_holds env w bs" "bt_schema b = sp_schema w" by simp_all
      from spill_append_ok [OF law this(1) ap [unfolded Inr] this(2)]
      have read: "spill_read env slot w' = Inr b" by (simp add: spill_holds_def nth_append)
      have st: "sh_state s2 = sh_state s" using f by (simp add: s2_def)
      have "keeps_rows env s2 s3"
      proof (rule keeps_swap)
        show "ss_chunks (sh_state s3) = (ss_chunks (sh_state s2))[i := c\<lparr>ck_body := CSpilled slot, ck_bytes := 0\<rparr>]"
          by (simp add: s3_def publish_def mark_spilled_def st c_def)
        show "chunk_result_rows env s2 (c\<lparr>ck_body := CSpilled slot, ck_bytes := 0\<rparr>)
            = chunk_result_rows env s2 (ss_chunks (sh_state s2) ! i)"
          using read CTable by (simp add: chunk_result_rows_def read_spilled_def s2_def f c_def)
      qed (use i st in \<open>simp_all add: s3_def publish_def mark_spilled_def c_def\<close>)
      then show ?thesis unfolding s' by (rule keeps_trans [OF keeps_trans [OF k2] keeps_release])
    qed
  next
    case (CDocs seg)
    with run k1 show ?thesis by (auto simp: spill_chunk_def io c_def [symmetric])
  next
    case (CSpilled j)
    with run k1 show ?thesis by (auto simp: spill_chunk_def io c_def [symmetric])
  qed
qed (simp add: keeps_rows_def)

lemma keeps_spill_oldest:
  assumes law: "ipc_law env" and run: "spill_oldest env s = (r, s')"
  shows "keeps_rows env s s'"
proof -
  have refl: ?thesis if "s' = s" using that by (simp add: keeps_refl)
  show ?thesis
  proof (cases "mp_spill (sh_policy s)")
    case None
    with run refl show ?thesis by (simp add: spill_oldest_def)
  next
    case (Some m)
    note m = Some
    show ?thesis
    proof (cases "sh_settled s")
      case None
      with run m refl show ?thesis by (simp add: spill_oldest_def)
    next
      case (Some schema)
      note sch = Some
      show ?thesis
      proof (cases "find_index (spillable schema) (ss_chunks (sh_state s))")
        case None
        with run m sch refl show ?thesis by (simp add: spill_oldest_def)
      next
        case (Some i)
        obtain w s1 where en: "ensure_spill schema m s = (w, s1)" by (cases "ensure_spill schema m s")
        note k = keeps_ensure(1) [OF en sch, of env] keeps_ensure(2-4) [OF en sch]
        show ?thesis
        proof (cases w)
          case None
          with run m sch \<open>_ = Some i\<close> en k(1) show ?thesis by (simp add: spill_oldest_def)
        next
          case (Some w0)
          have "spill_chunk env i w0 s1 = (r, s')"
            using run m sch \<open>find_index _ _ = Some i\<close> en Some by (simp add: spill_oldest_def)
          moreover have "i < length (ss_chunks (sh_state s1))"
            using find_index_bound [OF \<open>find_index _ _ = Some i\<close>] k(3) by simp
          moreover have "sh_spill s1 = Some w0" using k(2) Some by simp
          moreover have "spillable schema (ss_chunks (sh_state s1) ! i)"
            using find_index_bound [OF \<open>find_index _ _ = Some i\<close>] k(3) by simp
          ultimately have "keeps_rows env s1 s'" using keeps_spill_chunk [OF law] k(4) by blast
          with k(1) show ?thesis by (rule keeps_trans)
        qed
      qed
    qed
  qed
qed

text \<open>
  What the two loops of the writer do to a store: any relation that holds of their steps and
  composes holds of the loops.
\<close>

locale store_steps =
  fixes env :: arrow_env and R :: "store \<Rightarrow> store \<Rightarrow> bool"
  assumes same: "R s s"
    and compose: "R s s' \<Longrightarrow> R s' s'' \<Longrightarrow> R s s''"
    and spilled: "spill_oldest env s = (r, s') \<Longrightarrow> R s s'"
    and commanded: "R s (command ev s)"
    and phased: "R s (publish (\<lambda>t. t\<lparr>ss_phase := f t\<rparr>) s)"
    and budgeted: "R s (s\<lparr>sh_used := u, sh_held := h\<rparr>)"
begin

lemma parked: "R s (park_budget s)"
  unfolding park_budget_def by (rule compose [OF commanded phased])

lemma hot_parked:
  "R s (publish (\<lambda>t. if phase_terminal (ss_phase t) then t else t\<lparr>ss_phase := PhParked HotWindow\<rparr>)
          (command (EvPark HotWindow) s))"
proof -
  have "(\<lambda>t. if phase_terminal (ss_phase t) then t else t\<lparr>ss_phase := PhParked HotWindow\<rparr>)
      = (\<lambda>t :: store_state. t\<lparr>ss_phase := (if phase_terminal (ss_phase t) then ss_phase t else PhParked HotWindow)\<rparr>)"
    by auto
  then show ?thesis by (simp only: compose [OF commanded phased])
qed

lemma unparked: "R s (unpark s)"
proof -
  have "(\<lambda>t. case ss_phase t of PhParked _ \<Rightarrow> t\<lparr>ss_phase := PhLoading\<rparr> | _ \<Rightarrow> t)
      = (\<lambda>t :: store_state. t\<lparr>ss_phase := (case ss_phase t of PhParked _ \<Rightarrow> PhLoading | _ \<Rightarrow> ss_phase t)\<rparr>)"
    by (rule ext) (simp split: store_phase.split)
  then show ?thesis unfolding unpark_def by (simp only: compose [OF commanded phased])
qed

lemma hot_window: "R s (enforce_hot_window env s)"
proof (induction "table_chunks s" arbitrary: s rule: less_induct)
  case less
  obtain r s' where sp: "spill_oldest env s = (r, s')" by (cases "spill_oldest env s")
  note k = spilled [OF sp]
  show ?case
  proof (cases r)
    case True
    with sp have "R s' (enforce_hot_window env s')" by (intro less spill_oldest_shrinks) simp
    with k sp True show ?thesis
      unfolding enforce_hot_window.simps [of env s] by (auto intro: compose same)
  next
    case False
    with sp compose [OF k hot_parked] k show ?thesis
      unfolding enforce_hot_window.simps [of env s] by (simp add: same)
  qed
qed

lemma admitted: "e = env \<Longrightarrow> admit_bytes e n parked evs s = (r, s') \<Longrightarrow> R s s'"
proof (induction e n parked evs s rule: admit_bytes.induct)
  case (1 e n parked evs s)
  note step = 1(4) [unfolded admit_bytes.simps [of e n parked evs s]]
  obtain ok used held where res: "lease_try_reserve (sh_limit s) n (sh_used s) (sh_held s) = (ok, used, held)"
    by (cases "lease_try_reserve (sh_limit s) n (sh_used s) (sh_held s)")
  show ?case
  proof (cases ok)
    case True
    with step res have "s' = (if parked then unpark else (\<lambda>x. x)) (s\<lparr>sh_used := used, sh_held := held\<rparr>)" by simp
    then show ?thesis using compose [OF budgeted unparked] budgeted by (cases parked) simp_all
  next
    case False
    obtain b s1 where sp: "spill_oldest e s = (b, s1)" by (cases "spill_oldest e s")
    note k1 = spilled [OF sp [unfolded 1(3)]]
    show ?thesis
    proof (cases b)
      case True
      with step res False sp have "admit_bytes e n parked evs s1 = (r, s')" by simp
      with 1(1) 1(3) res False sp True have "R s1 s'" by simp
      with k1 show ?thesis by (rule compose)
    next
      case no: False
      define s2 where "s2 = (if parked then s1 else park_budget s1)"
      have k2: "R s s2" using k1 compose [OF k1 parked] by (simp add: s2_def)
      show ?thesis
      proof (cases evs)
        case Nil
        with step res False sp no k2 show ?thesis by (simp add: s2_def)
      next
        case (Cons ev evs')
        show ?thesis
        proof (cases ev)
          case AdmitCancelled
          with step res False sp no Cons k2 show ?thesis by (simp add: s2_def)
        next
          case (BudgetFreed u)
          with step res False sp no Cons have "admit_bytes e n True evs' (s2\<lparr>sh_used := u\<rparr>) = (r, s')"
            by (simp add: s2_def Let_def)
          with 1(2) 1(3) res False sp no Cons BudgetFreed s2_def have "R (s2\<lparr>sh_used := u\<rparr>) s'" by simp
          moreover have "R s2 (s2\<lparr>sh_used := u\<rparr>)" using budgeted [of s2 "sh_held s2" u] by simp
          ultimately show ?thesis using k2 by (blast intro: compose)
        qed
      qed
    qed
  qed
qed

end


lemma keeps_used: "keeps_rows env s (s\<lparr>sh_used := u, sh_held := h\<rparr>)"
  by (rule keeps_same) simp_all

interpretation keeps: store_steps env "\<lambda>s s'. ipc_law env \<longrightarrow> keeps_rows env s s'" for env
proof
  show "ipc_law env \<longrightarrow> keeps_rows env s s''"
    if "ipc_law env \<longrightarrow> keeps_rows env s s'" "ipc_law env \<longrightarrow> keeps_rows env s' s''" for s s' s''
    using that by (blast intro: keeps_trans)
  show "ipc_law env \<longrightarrow> keeps_rows env s s'" if "spill_oldest env s = (r, s')" for s r s'
    using that by (blast intro: keeps_spill_oldest)
  show "ipc_law env \<longrightarrow> keeps_rows env s (publish (\<lambda>t. t\<lparr>ss_phase := f t\<rparr>) s)" for s f
    using keeps_publish [of "\<lambda>t. t\<lparr>ss_phase := f t\<rparr>" env s] by simp
qed (simp_all add: keeps_refl keeps_command keeps_used)

text \<open>What they leave alone: the converter and the schemas, and the chunks until a schema is settled.\<close>

definition same_setup :: "store \<Rightarrow> store \<Rightarrow> bool" where
  "same_setup s s' =
     (sh_converter s' = sh_converter s \<and> sh_settled s' = sh_settled s \<and> sh_shape s' = sh_shape s
      \<and> sh_policy s' = sh_policy s \<and> sh_limit s' = sh_limit s
      \<and> (sh_settled s = None \<longrightarrow> ss_chunks (sh_state s') = ss_chunks (sh_state s)))"

lemma next_io_setup: "next_io s = (io, s') \<Longrightarrow> same_setup s s'"
  by (auto simp: next_io_def same_setup_def split: list.splits)

lemma ensure_spill_setup: "ensure_spill schema m s = (w, s') \<Longrightarrow> same_setup s s'"
  using next_io_setup [of s]
  by (cases "next_io s"; cases "fst (next_io s)"; cases "sh_spill s")
    (auto simp: ensure_spill_def same_setup_def)

lemma spill_chunk_setup:
  assumes "spill_chunk env i w s = (r, s')" and "sh_settled s \<noteq> None"
  shows "same_setup s s'"
proof -
  obtain io s1 where io: "next_io s = (io, s1)" by (cases "next_io s")
  note k = next_io_setup [OF io]
  show ?thesis
  proof (cases "ck_body (ss_chunks (sh_state s) ! i)")
    case (CTable b)
    obtain res w' where ap: "spill_append env io b w = (res, w')" by (cases "spill_append env io b w")
    show ?thesis
    proof (cases res)
      case (Inl e)
      with assms io CTable ap k show ?thesis by (auto simp: spill_chunk_def Let_def same_setup_def)
    next
      case (Inr slot)
      with assms(1) io CTable ap
      have "\<exists>c f used held. s' = (publish f (s1\<lparr>sh_spill := c\<rparr>))\<lparr>sh_used := used, sh_held := held\<rparr>"
        by (auto simp: spill_chunk_def Let_def release_lease_def split: prod.splits)
      with assms(2) k show ?thesis by (auto simp: same_setup_def publish_def)
    qed
  qed (use assms io k in \<open>auto simp: spill_chunk_def\<close>)
qed

lemma spill_oldest_setup: "spill_oldest env s = (r, s') \<Longrightarrow> same_setup s s'"
proof -
  assume run: "spill_oldest env s = (r, s')"
  have refl: "same_setup s s" by (simp add: same_setup_def)
  show ?thesis
  proof (cases "mp_spill (sh_policy s) = None \<or> sh_settled s = None")
    case True
    with run refl show ?thesis by (auto simp: spill_oldest_def split: option.splits)
  next
    case False
    then obtain m schema where ms: "mp_spill (sh_policy s) = Some m" "sh_settled s = Some schema" by auto
    show ?thesis
    proof (cases "find_index (spillable schema) (ss_chunks (sh_state s))")
      case None
      with run ms refl show ?thesis by (simp add: spill_oldest_def)
    next
      case (Some i)
      obtain w s1 where en: "ensure_spill schema m s = (w, s1)" by (cases "ensure_spill schema m s")
      note k = ensure_spill_setup [OF en]
      then have set1: "sh_settled s1 \<noteq> None" using ms by (simp add: same_setup_def)
      show ?thesis
      proof (cases w)
        case None
        with run ms Some en k show ?thesis by (simp add: spill_oldest_def)
      next
        case (Some w0)
        with run ms \<open>find_index _ _ = Some i\<close> en have "spill_chunk env i w0 s1 = (r, s')"
          by (simp add: spill_oldest_def)
        from spill_chunk_setup [OF this set1] k ms show ?thesis by (simp add: same_setup_def)
      qed
    qed
  qed
qed

interpretation wiring: store_steps env same_setup for env
proof
  show "same_setup s s'" if "spill_oldest env s = (r, s')" for s r s' using that by (rule spill_oldest_setup)
qed (auto simp: same_setup_def command_def publish_def)

section \<open>A batch adds its rows\<close>

text \<open>The rows a payload adds, cell by cell, from the kinds the converter has for it.\<close>

fun payload_rows :: "shape \<Rightarrow> payload \<Rightarrow> converter option \<Rightarrow> result_row list" where
  "payload_rows sh (PRows rows) c =
     (let kinds = cv_kinds (convert_start rows (converter_for sh rows c))
      in map (\<lambda>r. TableRow (map (\<lambda>col. typed_cell (kinds ! col) (cell_of r col)) [0..<length kinds])) rows)"
| "payload_rows sh (PDocs vs) c = map DocRow vs"
| "payload_rows sh (PPairs ps) c = map (\<lambda>(k, v). PairRow k v) ps"
| "payload_rows sh (PGraph nodes edges) c = []"
| "payload_rows sh PEmpty c = []"

lemma convert_rows:
  assumes "convert rows c0 = (c, b, re)"
  defines "kinds \<equiv> cv_kinds (convert_start rows c0)"
  shows "batch_result_rows b =
      map (\<lambda>r. TableRow (map (\<lambda>col. typed_cell (kinds ! col) (cell_of r col)) [0..<length kinds])) rows"
    and "bt_rows b = length rows"
proof -
  note b = convert_fields(1) [OF assms(1), unfolded build_batch_eq, folded kinds_def]
  show "bt_rows b = length rows" by (simp add: b)
  show "batch_result_rows b =
      map (\<lambda>r. TableRow (map (\<lambda>col. typed_cell (kinds ! col) (cell_of r col)) [0..<length kinds])) rows"
    by (rule nth_equalityI) (simp_all add: b batch_result_rows_def comp_def)
qed

fun body_rows :: "chunk_body \<Rightarrow> result_row list" where
  "body_rows (CTable b) = batch_result_rows b"
| "body_rows (CDocs seg) = segment_rows seg"
| "body_rows (CSpilled i) = []"

lemma store_convert_none: "store_convert env sh p c = (None, c') \<Longrightarrow> payload_rows sh p c = [] \<and> c' = c"
  by (cases p) (auto simp: Let_def split: if_splits prod.splits)

lemma store_convert_rows:
  assumes "store_convert env sh p c = (Some ad, c')"
  shows "body_rows (ad_body ad) = payload_rows sh p c" and "ad_rows ad = length (payload_rows sh p c)"
    and "0 < ad_rows ad" and "\<forall>i. ad_body ad \<noteq> CSpilled i"
proof -
  have "body_rows (ad_body ad) = payload_rows sh p c \<and> ad_rows ad = length (payload_rows sh p c)
      \<and> 0 < ad_rows ad \<and> (\<forall>i. ad_body ad \<noteq> CSpilled i)"
  proof (cases p)
    case (PRows rows)
    obtain c1 b re where cv: "convert rows (converter_for sh rows c) = (c1, b, re)"
      by (cases "convert rows (converter_for sh rows c)")
    from assms PRows cv show ?thesis
      by (auto simp: convert_rows [OF cv] Let_def split: if_splits)
  qed (use assms in \<open>auto simp: segment_admitted_def split: if_splits\<close>)
  then show "body_rows (ad_body ad) = payload_rows sh p c" "ad_rows ad = length (payload_rows sh p c)"
    "0 < ad_rows ad" "\<forall>i. ad_body ad \<noteq> CSpilled i" by blast+
qed

text \<open>Chunk lists that stand for the same rows, position by position.\<close>

definition like_chunk :: "arrow_env \<Rightarrow> store \<Rightarrow> store_chunk \<Rightarrow> store_chunk \<Rightarrow> bool" where
  "like_chunk env s c c' =
     (ck_first c' = ck_first c \<and> ck_rows c' = ck_rows c \<and> chunk_result_rows env s c' = chunk_result_rows env s c)"

lemma like_tiles:
  "list_all2 (like_chunk env s) cs cs' \<Longrightarrow>
     tiles n cs' = tiles n cs \<and> rows_of cs' = rows_of cs
     \<and> map (chunk_result_rows env s) cs' = map (chunk_result_rows env s) cs
     \<and> list_all (\<lambda>c. length (chunk_result_rows env s c) = ck_rows c) cs'
       = list_all (\<lambda>c. length (chunk_result_rows env s c) = ck_rows c) cs"
  by (induction cs cs' arbitrary: n rule: list_all2_induct) (auto simp: like_chunk_def)

definition same_table :: "store_chunk list \<Rightarrow> nat \<times> batch \<Rightarrow> bool" where
  "same_table cs ib =
     (\<forall>b. fst ib < length cs \<and> ck_body (cs ! fst ib) = CTable b
        \<longrightarrow> batch_result_rows (snd ib) = batch_result_rows b)"

lemma replace_like:
  assumes "same_table cs ib"
  shows "list_all2 (like_chunk env s) cs (replace_table ib cs)"
    and "same_table cs jb \<Longrightarrow> same_table (replace_table ib cs) jb"
proof -
  obtain i b where ib: "ib = (i, b)" by (cases ib)
  show "list_all2 (like_chunk env s) cs (replace_table ib cs)"
    using assms unfolding list_all2_conv_all_nth
    by (auto simp: ib replace_table_def same_table_def like_chunk_def chunk_result_rows_def nth_list_update
        split: chunk_body.splits)
  show "same_table (replace_table ib cs) jb" if "same_table cs jb"
    using that assms
    by (auto simp: ib replace_table_def same_table_def nth_list_update split: chunk_body.splits if_splits)
qed

lemma fold_replace_like:
  "list_all (same_table cs) re \<Longrightarrow> list_all2 (like_chunk env s) cs (fold replace_table re cs)"
proof (induction re arbitrary: cs)
  case Nil
  show ?case by (simp add: list_all2_conv_all_nth like_chunk_def)
next
  case (Cons x re)
  then have x: "same_table cs x" and "list_all (same_table (replace_table x cs)) re"
    using replace_like(2) [of cs x] by (auto simp: list_all_iff)
  with Cons.IH have "list_all2 (like_chunk env s) (replace_table x cs) (fold replace_table re (replace_table x cs))"
    by blast
  with replace_like(1) [OF x, of env s] show ?case
    by (auto intro: list_all2_trans [rotated 1] simp: like_chunk_def)
qed

lemma push_rows:
  assumes ok: "read_ok env s" and re: "list_all (same_table (ss_chunks (sh_state s))) (ad_reencoded ad)"
    and "length (body_rows (ad_body ad)) = ad_rows ad" and "0 < ad_rows ad" and "\<forall>i. ad_body ad \<noteq> CSpilled i"
    and s'_def: "s' = publish (push_chunk ad micros coerced notices deltas) s"
  shows "read_ok env s'" and "store_rows env s' = store_rows env s @ body_rows (ad_body ad)"
proof -
  define cs where "cs = fold replace_table (ad_reencoded ad) (ss_chunks (sh_state s))"
  define new where "new = \<lparr>ck_first = ss_rows (sh_state s), ck_rows = ad_rows ad, ck_bytes = ad_bytes ad, ck_body = ad_body ad\<rparr>"
  have eq: "chunk_result_rows env s' = chunk_result_rows env s"
    by (rule chunk_rows_same) (simp add: s'_def publish_def)
  have chunks: "ss_chunks (sh_state s') = cs @ [new]" "ss_rows (sh_state s') = ss_rows (sh_state s) + ad_rows ad"
    "sh_spill s' = sh_spill s"
    by (simp_all add: s'_def publish_def push_chunk_def cs_def new_def)
  have rows: "chunk_result_rows env s new = body_rows (ad_body ad)"
    using assms(5) by (cases "ad_body ad") (simp_all add: new_def chunk_result_rows_def)
  note like = like_tiles [OF fold_replace_like [OF re, of env s], folded cs_def]
  have nf: "ck_first new = ss_rows (sh_state s)" "ck_rows new = ad_rows ad" by (simp_all add: new_def)
  show "store_rows env s' = store_rows env s @ body_rows (ad_body ad)"
    using like by (simp add: store_rows_def eq chunks rows)
  have "sh_settled s' = sh_settled s" by (simp add: s'_def publish_def)
  note sane = spill_sane_same [OF chunks(3) this, of env]
  show "read_ok env s'"
    using ok like [of 0] assms(3,4) unfolding read_ok_def eq chunks sane
    by (simp add: nf rows)
qed

section \<open>The store refines the list of the rows received\<close>

text \<open>
  Until the schema settles no chunk is spilled, and the one batch that can be re-encoded is the
  first chunk's.
\<close>

definition docs_only :: "store_chunk list \<Rightarrow> bool" where
  "docs_only cs = list_all (\<lambda>c. \<exists>seg. ck_body c = CDocs seg) cs"

definition pending_first :: "converter \<Rightarrow> store_chunk list \<Rightarrow> bool" where
  "pending_first c cs =
     ((cv_pending c = [] \<longrightarrow> docs_only cs)
      \<and> (\<forall>b. cs \<noteq> [] \<and> ck_body (hd cs) = CTable b \<longrightarrow> cv_pending c = [b]))"

definition writer_ok :: "store \<Rightarrow> bool" where
  "writer_ok s =
     (case sh_converter s of
        None \<Rightarrow> docs_only (ss_chunks (sh_state s)) \<and> sh_settled s = None
      | Some c \<Rightarrow> (\<exists>schema. conv_run schema SAMPLE_BATCHES c)
          \<and> (\<not> is_settled c \<longrightarrow> sh_settled s = None \<and> pending_first c (ss_chunks (sh_state s)))
          \<and> (sh_settled s = None \<or> cv_arrow_schema c = sh_settled s))"

text \<open>A settled schema stays.\<close>

lemma sample_schema: "cv_arrow_schema (sample rows c) = cv_arrow_schema c"
  by (simp add: sample_def Let_def)

lemma convert_start_schema: "cv_arrow_schema (convert_start rows c) = cv_arrow_schema c"
  by (simp add: convert_start_def settle_def sample_schema Let_def)

lemma convert_schema:
  assumes "convert rows c = (c', b, re)"
  shows "cv_arrow_schema c' \<noteq> None"
    and "is_settled c \<Longrightarrow> cv_arrow_schema c = Some sch \<Longrightarrow> is_settled c' \<and> cv_arrow_schema c' = Some sch"
  using assms
  by (auto simp: convert_def Let_def record_batch_def closes_def is_settled_def convert_start_fields
      convert_start_schema split: if_splits)

lemma settle_matches:
  "sh_converter s = Some c \<Longrightarrow> sh_settled s = None \<or> cv_arrow_schema c = sh_settled s
    \<Longrightarrow> sh_settled (settle_schema s) = None \<or> cv_arrow_schema c = sh_settled (settle_schema s)"
  by (auto simp: settle_schema_def)

lemma settle_keeps:
  assumes ok: "writer_ok s" and cv: "store_convert env (sh_shape s) p (sh_converter s) = (Some ad, conv)"
    and st: "same_setup (s\<lparr>sh_converter := conv\<rparr>) s1" and set: "sh_settled s1 = Some sch"
  shows "sh_settled (settle_schema s1) = Some sch \<and> (\<exists>c. conv = Some c \<and> cv_arrow_schema c = Some sch)"
proof -
  from st set have "sh_settled s = Some sch" and c1: "sh_converter s1 = conv" by (simp_all add: same_setup_def)
  with ok obtain c where c: "sh_converter s = Some c" "is_settled c" "cv_arrow_schema c = Some sch"
    by (auto simp: writer_ok_def split: option.splits)
  have "\<exists>c'. conv = Some c' \<and> is_settled c' \<and> cv_arrow_schema c' = Some sch"
  proof (cases p)
    case (PRows rows)
    obtain c' b re where cvt: "convert rows c = (c', b, re)" by (cases "convert rows c")
    with cv PRows c(1) have "conv = Some c'" by (auto simp: converter_for_def split: if_splits)
    with convert_schema(2) [OF cvt c(2,3)] show ?thesis by blast
  next
    case (PDocs vs)
    with cv have "conv = sh_converter s" by (simp split: if_splits)
    with c show ?thesis by simp
  next
    case (PPairs ps)
    with cv have "conv = sh_converter s" by (simp split: if_splits)
    with c show ?thesis by simp
  qed (use cv in simp_all)
  with c1 show ?thesis by (auto simp: settle_schema_def)
qed

lemma conv_run_window:
  "conv_run schema SAMPLE_BATCHES c \<Longrightarrow>
     cv_sample_batches c = 2 \<and> (\<not> is_settled c \<longrightarrow> length (cv_pending c) = cv_batches_seen c)
     \<and> (is_settled c \<longrightarrow> cv_pending c = [])"
proof (induction rule: conv_run.induct)
  case conv_new
  show ?case by (simp add: with_window_def SAMPLE_BATCHES_def is_settled_def)
next
  case (conv_batch c rows c' b re)
  define k where "k = convert_start rows c"
  note f = convert_fields [OF conv_batch(2), folded k_def]
  have k: "cv_batches_seen k = cv_batches_seen c + 1" "cv_sample_batches k = cv_sample_batches c" "cv_pending k = cv_pending c"
    by (simp_all add: k_def convert_start_fields)
  have "cv_pending c' = (if closes c k then [] else if cv_batches_seen c < cv_sample_batches c then cv_pending k @ [b] else cv_pending k)"
    using conv_batch(2) by (auto simp: convert_def Let_def k_def split: if_splits)
  with conv_batch.IH f k show ?case by (auto simp: is_settled_def closes_def split: if_splits)
qed

text \<open>The converter a row batch is given, and the one it leaves.\<close>

lemma converter_for_run:
  assumes "writer_ok s" and c_def: "c = converter_for (sh_shape s) rows (sh_converter s)"
  shows "\<exists>schema. conv_run schema SAMPLE_BATCHES c"
    and "\<not> is_settled c \<Longrightarrow> sh_settled s = None \<and> pending_first c (ss_chunks (sh_state s))"
proof -
  have new: "cv_pending (new_converter schema) = []" for schema by (simp add: new_converter_def with_window_def)
  have run: "\<exists>schema'. conv_run schema' SAMPLE_BATCHES (new_converter schema)" for schema
    unfolding new_converter_def by (blast intro: conv_new)
  show "\<exists>schema. conv_run schema SAMPLE_BATCHES c"
    using assms(1) run by (auto simp: c_def converter_for_def writer_ok_def split: option.splits shape.splits)
  have "docs_only cs \<Longrightarrow> pending_first (new_converter schema) cs" for cs schema
    by (cases cs) (auto simp: pending_first_def new docs_only_def)
  then show "\<not> is_settled c \<Longrightarrow> sh_settled s = None \<and> pending_first c (ss_chunks (sh_state s))"
    using assms(1) by (auto simp: c_def converter_for_def writer_ok_def split: option.splits shape.splits)
qed

lemma converted_tables:
  assumes run: "conv_run schema SAMPLE_BATCHES c" and pf: "\<not> is_settled c \<Longrightarrow> pending_first c cs"
    and conv: "convert rows c = (c', b, re)"
  shows "list_all (same_table cs) re"
    and "\<not> is_settled c' \<Longrightarrow> cv_pending c' = [b] \<and> cv_pending c = []"
proof -
  note w = conv_run_window [OF run] and w' = conv_run_window [OF conv_batch [OF run conv]]
  define k where "k = convert_start rows c"
  note f = convert_fields [OF conv, folded k_def]
  have k: "cv_batches_seen k = cv_batches_seen c + 1" "cv_sample_batches k = cv_sample_batches c" "cv_pending k = cv_pending c"
    by (simp_all add: k_def convert_start_fields)
  show "cv_pending c' = [b] \<and> cv_pending c = []" if unsettled: "\<not> is_settled c'"
  proof -
    have "cv_batches_seen c = 0" using unsettled w w' f k by (simp add: is_settled_def)
    moreover from this w have "cv_pending c = []" by (simp add: is_settled_def)
    moreover have "\<not> closes c k" using unsettled f by (simp add: closes_def is_settled_def)
    ultimately show ?thesis using conv k w by (auto simp: convert_def Let_def k_def split: if_splits)
  qed
  show "list_all (same_table cs) re"
    unfolding list_all_iff
  proof
    fix ib assume mem: "ib \<in> set re"
    obtain i new where p: "ib = (i, new)" by (cases ib)
    note ib = p mem [unfolded p]
    note same = reencoded_batch [OF run conv ib(2)]
    have open_c: "\<not> is_settled c" using w same by auto
    with w have "length (cv_pending c) \<le> 1" by (simp add: is_settled_def)
    with same have i: "i = 0" by simp
    show "same_table cs ib"
      unfolding same_table_def ib
    proof (intro allI impI)
      fix old assume "fst (i, new) < length cs \<and> ck_body (cs ! fst (i, new)) = CTable old"
      with i have "cs \<noteq> []" "ck_body (hd cs) = CTable old" by (auto simp: hd_conv_nth)
      with pf [OF open_c] have "cv_pending c = [old]" by (simp add: pending_first_def)
      with same i show "batch_result_rows (snd (i, new)) = batch_result_rows old"
        by (intro batch_rows_cong) simp_all
    qed
  qed
qed

lemma receive_writer:
  assumes ok: "writer_ok s"
    and cv: "store_convert env (sh_shape s) p (sh_converter s) = (Some ad, conv)"
    and st: "same_setup (s\<lparr>sh_converter := conv\<rparr>) s1"
  shows "list_all (same_table (ss_chunks (sh_state (settle_schema s1)))) (ad_reencoded ad)
    \<and> writer_ok (publish (push_chunk ad micros coerced notices deltas) (settle_schema s1))"
proof -
  define s2 where "s2 = settle_schema s1"
  let ?push = "publish (push_chunk ad micros coerced notices deltas) s2"
  have conv: "sh_converter s2 = conv" "ss_chunks (sh_state s2) = ss_chunks (sh_state s1)"
    using st by (auto simp: s2_def settle_schema_def same_setup_def split: option.splits)
  have pushed: "sh_converter ?push = conv" "sh_settled ?push = sh_settled s2"
    "ss_chunks (sh_state ?push) = fold replace_table (ad_reencoded ad) (ss_chunks (sh_state s2))
      @ [\<lparr>ck_first = ss_rows (sh_state s2), ck_rows = ad_rows ad, ck_bytes = ad_bytes ad, ck_body = ad_body ad\<rparr>]"
    by (simp_all add: publish_def push_chunk_def conv)
  have keepc: "ss_chunks (sh_state s2) = ss_chunks (sh_state s)" if "sh_settled s = None"
    using that st conv by (simp add: same_setup_def)
  have schema: "sh_settled s2 = None \<or> cv_arrow_schema k = sh_settled s2" if k: "conv = Some k" for k
  proof (cases "sh_settled s1")
    case None
    from st k have "sh_converter s1 = Some k" by (simp add: same_setup_def)
    with None show ?thesis unfolding s2_def by (intro settle_matches) simp_all
  next
    case (Some sch)
    from settle_keeps [OF ok cv st Some] k show ?thesis by (simp add: s2_def)
  qed
  have docs: "list_all (same_table (ss_chunks (sh_state s2))) (ad_reencoded ad) \<and> writer_ok ?push"
    if d: "ad_reencoded ad = []" "\<exists>seg. ad_body ad = CDocs seg" "conv = sh_converter s"
  proof -
    have set2: "sh_settled s2 = sh_settled s" if "sh_converter s = None \<or> (\<exists>c. sh_converter s = Some c \<and> \<not> is_settled c)"
      using that st d(3) by (auto simp: s2_def settle_schema_def same_setup_def split: option.splits)
    have "docs_only cs \<Longrightarrow> docs_only (cs @ [c])" if "ck_body c = ad_body ad" for cs c
      using that d(2) by (simp add: docs_only_def)
    moreover have "pending_first k cs \<Longrightarrow> pending_first k (cs @ [c])" if "ck_body c = ad_body ad" for k cs c
      using that d(2) by (cases cs) (auto simp: docs_only_def pending_first_def)
    ultimately show ?thesis
      using ok d set2 keepc schema unfolding writer_ok_def pushed
      by (cases "sh_converter s") auto
  qed
  have goal: "list_all (same_table (ss_chunks (sh_state s2))) (ad_reencoded ad) \<and> writer_ok ?push"
  proof (cases p)
    case (PRows rows)
    define c where "c = converter_for (sh_shape s) rows (sh_converter s)"
    obtain c' b re where cvt: "convert rows c = (c', b, re)" by (cases "convert rows c")
    from cv PRows cvt have ad: "ad_reencoded ad = re" "ad_body ad = CTable b" and c': "conv = Some c'"
      by (auto simp: c_def split: if_splits)
    from converter_for_run [OF ok c_def] obtain schema where run: "conv_run schema SAMPLE_BATCHES c"
      and open_c: "\<not> is_settled c \<Longrightarrow> sh_settled s = None \<and> pending_first c (ss_chunks (sh_state s))" by blast
    have pend: "\<not> is_settled c \<Longrightarrow> pending_first c (ss_chunks (sh_state s2))" using open_c keepc by simp
    have tabs: "list_all (same_table (ss_chunks (sh_state s2))) re"
      "\<not> is_settled c' \<Longrightarrow> cv_pending c' = [b] \<and> cv_pending c = []"
      by (rule converted_tables [OF run pend cvt], assumption)+
    have "\<not> is_settled c' \<Longrightarrow> \<not> is_settled c"
      using convert_fields [OF cvt] by (simp add: is_settled_def convert_start_fields)
    then have open': "sh_settled s = None \<and> docs_only (ss_chunks (sh_state s2)) \<and> cv_pending c' = [b] \<and> re = []"
      if "\<not> is_settled c'"
      using open_c tabs(2) [OF that] keepc that cvt
      by (auto simp: pending_first_def convert_def Let_def convert_start_fields reencode_def closes_def is_settled_def split: if_splits)
    have "\<not> is_settled c' \<Longrightarrow> sh_settled s2 = None"
      using open' st c' by (auto simp: s2_def settle_schema_def same_setup_def split: option.splits)
    moreover have "\<not> is_settled c' \<Longrightarrow> pending_first c' (ss_chunks (sh_state ?push))"
      using open' unfolding pushed ad
      by (cases "ss_chunks (sh_state s2)") (auto simp: pending_first_def docs_only_def)
    moreover have "\<exists>schema. conv_run schema SAMPLE_BATCHES c'" using conv_batch [OF run cvt] by blast
    ultimately show ?thesis using tabs(1) ad schema [OF c'] by (simp add: writer_ok_def pushed c')
  next
    case (PDocs vs)
    with cv have "ad_reencoded ad = []" "\<exists>seg. ad_body ad = CDocs seg" "conv = sh_converter s"
      by (auto simp: segment_admitted_def split: if_splits)
    then show ?thesis using docs unfolding s2_def by simp
  next
    case (PPairs ps)
    with cv have "ad_reencoded ad = []" "\<exists>seg. ad_body ad = CDocs seg" "conv = sh_converter s"
      by (auto simp: segment_admitted_def split: if_splits)
    then show ?thesis using docs unfolding s2_def by simp
  qed (use cv in simp_all)
  then show ?thesis by (simp add: s2_def)
qed

text \<open>
  What can happen to a store, with the rows it stands for: the writer takes a batch and goes on,
  stops in the middle of one, or ends; a reader takes a window; other queries move the budget.
\<close>

inductive store_run :: "arrow_env \<Rightarrow> bool \<Rightarrow> store \<Rightarrow> result_row list \<Rightarrow> bool" for env where
  run_spawn: "store_run env True (spawn_store sh policy limit used io) []"
| run_batch: "store_run env True s rs \<Longrightarrow> receive env wb micros evs s = (Some True, s') \<Longrightarrow>
    store_run env True s' (rs @ payload_rows (sh_shape s) (wb_payload wb) (sh_converter s))"
| run_halt: "store_run env True s rs \<Longrightarrow> receive env wb micros evs s = (r, s') \<Longrightarrow> r \<noteq> Some True \<Longrightarrow>
    store_run env False s' rs"
| run_end: "store_run env live s rs \<Longrightarrow> store_run env False (store_end fs s) rs"
| run_cancel: "store_run env live s rs \<Longrightarrow> store_run env False (store_cancelled s) rs"
| run_window: "store_run env live s rs \<Longrightarrow> store_run env live (snd (get_rows env a b s)) rs"
| run_stop: "store_run env live s rs \<Longrightarrow> store_run env live (stop_store s) rs"
| run_budget: "store_run env live s rs \<Longrightarrow> store_run env live (s\<lparr>sh_used := u\<rparr>) rs"

lemma writer_ok_setup:
  assumes "writer_ok s" and "same_setup s s'"
  shows "writer_ok s'"
  using assms by (auto simp: writer_ok_def same_setup_def split: option.splits)

lemma receive_rows:
  assumes law: "ipc_law env" and ok: "read_ok env s" "writer_ok s"
    and run: "receive env wb micros evs s = (r, s')"
  shows "read_ok env s'"
    and "store_rows env s' = (if r = Some True
      then store_rows env s @ payload_rows (sh_shape s) (wb_payload wb) (sh_converter s) else store_rows env s)"
    and "r = Some True \<Longrightarrow> writer_ok s'"
proof -
  obtain ad conv where cv: "store_convert env (sh_shape s) (wb_payload wb) (sh_converter s) = (ad, conv)"
    by (cases "store_convert env (sh_shape s) (wb_payload wb) (sh_converter s)")
  define s0 where "s0 = s\<lparr>sh_converter := conv\<rparr>"
  have k0: "keeps_rows env s s0" by (rule keeps_same) (simp_all add: s0_def)
  have goal: "read_ok env s' \<and> store_rows env s' = (if r = Some True
      then store_rows env s @ payload_rows (sh_shape s) (wb_payload wb) (sh_converter s) else store_rows env s)
      \<and> (r = Some True \<longrightarrow> writer_ok s')"
  proof (cases ad)
    case None
    note none = store_convert_none [OF cv [unfolded None]]
    have s0: "s0 = s" using none by (simp add: s0_def)
    have s': "r = Some True" "s' = publish (\<lambda>t. t\<lparr>ss_notices := ss_notices t @ wb_notices wb,
        ss_deltas := ss_deltas t @ wb_deltas wb\<rparr>) s"
      using run s0 by (auto simp: receive_def cv None s0_def)
    have "keeps_rows env s s'" unfolding s' by (rule keeps_publish) simp
    moreover have "writer_ok s'" using ok(2) by (simp add: s' writer_ok_def publish_def split: option.splits)
    ultimately show ?thesis using ok none s' by (simp add: keeps_rows_def)
  next
    case (Some a)
    obtain res s1 where adm: "admit_bytes env (ad_bytes a) False evs s0 = (res, s1)"
      by (cases "admit_bytes env (ad_bytes a) False evs s0")
    have k1: "keeps_rows env s0 s1" using keeps.admitted [OF refl adm] law by simp
    note set1 = wiring.admitted [OF refl adm]
    note k01 = keeps_trans [OF k0 k1]
    show ?thesis
    proof (cases "res = Some True")
      case False
      have "r \<noteq> Some True \<and> (s' = s1 \<or> s' = finish_store PhCancelled s1)"
        using run False by (auto simp: receive_def cv Some adm s0_def [symmetric] split: option.splits bool.splits)
      with k01 keeps_trans [OF k01 keeps_finish] ok show ?thesis by (auto simp: keeps_rows_def)
    next
      case True
      define s2 where "s2 = settle_schema s1"
      define s3 where "s3 = publish (push_chunk a micros (store_coerced s2) (wb_notices wb) (wb_deltas wb)) s2"
      have s': "r = Some True" "s' = enforce_hot_window env s3"
        using run True by (auto simp: receive_def cv Some adm s0_def [symmetric] s2_def s3_def Let_def)
      have st2: "sh_state s2 = sh_state s1" "sh_spill s2 = sh_spill s1" "sh_converter s2 = sh_converter s1"
        by (auto simp: s2_def settle_schema_def split: option.splits)
      from k01 ok have ok1: "read_ok env s1" "store_rows env s1 = store_rows env s" by (simp_all add: keeps_rows_def)
      have "sh_spill s1 = None \<or> sh_settled s2 = sh_settled s1"
      proof (cases "sh_spill s1")
        case (Some w)
        with ok1 have "sh_settled s1 = Some (sp_schema w)" by (simp add: read_ok_def spill_sane_def)
        with settle_keeps [OF ok(2) cv [unfolded \<open>ad = Some a\<close>] set1 [unfolded s0_def]] show ?thesis by (simp add: s2_def)
      qed simp
      then have "spill_sane env s2 = spill_sane env s1" using st2(2) by (cases "sh_spill s1") (auto simp: spill_sane_def)
      with ok1 chunk_rows_same [OF st2(2)] have ok2: "read_ok env s2" "store_rows env s2 = store_rows env s"
        by (simp_all add: read_ok_def store_rows_def st2)
      note rows = store_convert_rows [OF cv [unfolded Some]]
      have wr: "list_all (same_table (ss_chunks (sh_state s2))) (ad_reencoded a) \<and> writer_ok s3"
        using receive_writer [OF ok(2) cv [unfolded Some] set1 [unfolded s0_def]] by (simp add: s2_def s3_def)
      note push = push_rows [OF ok2(1) conjunct1 [OF wr] _ rows(3,4) s3_def]
      have p: "read_ok env s3" "store_rows env s3 = store_rows env s @ payload_rows (sh_shape s) (wb_payload wb) (sh_converter s)"
        using push rows ok2 by simp_all
      have "keeps_rows env s3 s'" using keeps.hot_window [of env s3] law s' by simp
      moreover have "writer_ok s'" using writer_ok_setup [OF conjunct2 [OF wr] wiring.hot_window] s' by simp
      ultimately show ?thesis using p s' by (simp add: keeps_rows_def)
    qed
  qed
  from goal show "read_ok env s'" by blast
  from goal show "store_rows env s' = (if r = Some True
      then store_rows env s @ payload_rows (sh_shape s) (wb_payload wb) (sh_converter s) else store_rows env s)" by blast
  from goal show "r = Some True \<Longrightarrow> writer_ok s'" by blast
qed

lemma store_run_ok:
  "store_run env live s rs \<Longrightarrow> ipc_law env \<Longrightarrow>
     read_ok env s \<and> store_rows env s = rs \<and> (live \<longrightarrow> writer_ok s)"
proof (induction rule: store_run.induct)
  case (run_spawn sh policy limit used io)
  have st: "ss_chunks (sh_state (spawn_store sh policy limit used io)) = []"
    "ss_rows (sh_state (spawn_store sh policy limit used io)) = 0"
    by (auto simp: spawn_store_def empty_state_def split: shape.splits)
  have new: "conv_run schema SAMPLE_BATCHES (new_converter schema)" "cv_pending (new_converter schema) = []" for schema
    unfolding new_converter_def by (rule conv_new) (simp add: with_window_def)
  show ?case using st new
    by (auto simp: read_ok_def spill_sane_def store_rows_def writer_ok_def docs_only_def pending_first_def
        table_converter_def spawn_store_def split: shape.splits)
next
  case (run_batch s rs wb micros evs s')
  with receive_rows [OF run_batch(4) _ _ run_batch(2)] show ?case by simp
next
  case (run_halt s rs wb micros evs r s')
  with receive_rows [OF run_halt(5) _ _ run_halt(2)] show ?case by simp
next
  case (run_end live s rs fs)
  then show ?case using keeps_finish [of env s] by (simp add: store_end_def keeps_rows_def)
next
  case (run_cancel live s rs)
  then show ?case using keeps_finish [of env s] by (simp add: store_cancelled_def keeps_rows_def)
next
  case (run_window live s rs a b)
  have "same_setup s (command EvResume s)" by (simp add: same_setup_def command_def)
  with run_window show ?case using keeps_command [of env s EvResume] writer_ok_setup
    by (auto simp: get_rows_def Let_def keeps_rows_def)
next
  case (run_stop live s rs)
  have "same_setup s (command EvCancel s)" by (simp add: same_setup_def command_def)
  with run_stop show ?case using keeps_command [of env s EvCancel] writer_ok_setup
    by (auto simp: stop_store_def keeps_rows_def)
next
  case (run_budget live s rs u)
  have "keeps_rows env s (s\<lparr>sh_used := u\<rparr>)" by (rule keeps_same) simp_all
  moreover have "same_setup s (s\<lparr>sh_used := u\<rparr>)" by (simp add: same_setup_def)
  ultimately show ?case using run_budget writer_ok_setup by (auto simp: keeps_rows_def)
qed

text \<open>
  C2.  A result store is the list of the rows it has received: whatever was spilled, re-encoded,
  parked, cancelled or torn on the way, the window \<open>get_rows\<close> returns holds exactly the rows
  of the asked range that have arrived, in order, and a window that lies within them is
  \<open>Ready\<close>.
\<close>

theorem window_is_slice:
  assumes "ipc_law env" and "store_run env live s rs"
  shows "concat (map slice_rows (rw_slices (fst (get_rows env start stop s)))) = slice rs start (min stop (length rs))
    \<and> (stop \<le> length rs \<longrightarrow> rw_status (fst (get_rows env start stop s)) = WReady)"
proof -
  from store_run_ok [OF assms(2,1)] have ok: "read_ok env s" and rs: "store_rows env s = rs" by blast+
  have len: "ss_rows (sh_state s) = length rs"
    using ok length_chunk_rows [of env s "ss_chunks (sh_state s)"] by (simp add: read_ok_def rs [symmetric] store_rows_def)
  show ?thesis
  proof (cases "start < length rs")
    case True
    have m: "min stop (length rs) \<le> ss_rows (sh_state s)" by (simp add: len)
    note w = window_slices_rows [OF ok m, of start, unfolded rs]
    have "rw_slices (fst (get_rows env start stop s)) = window_slices env s start (min stop (length rs))"
      using True by (simp add: get_rows_def Let_def len)
    moreover have "rw_status (fst (get_rows env start stop s)) = WReady" if "stop \<le> length rs"
      using True w that by (simp add: get_rows_def Let_def len window_status_of_def min_absorb1)
    ultimately show ?thesis using w by simp
  next
    case False
    then show ?thesis using len
      by (simp add: get_rows_def Let_def window_status_of_def slice_empty)
  qed
qed

definition sample_docs :: wire_batch where
  "sample_docs = \<lparr>wb_seq = 0, wb_payload = PDocs [VNull, VBool True, VI64 7], wb_deltas = [], wb_notices = []\<rparr>"

definition sample_spawned :: store where
  "sample_spawned = spawn_store (ShDocuments None None) default_memory_policy 1000 0 []"

lemma sample_received: "\<exists>s. receive sample_env sample_docs 5 [] sample_spawned = (Some True, s)"
  by (simp add: receive_def sample_spawned_def spawn_store_def sample_docs_def sample_env_def segment_admitted_def
      table_converter_def admit_bytes.simps lease_try_reserve_def budget_try_reserve_def saturating_add_def
      USIZE_MAX_def Let_def)

lemma window_is_slice_witness:
  "\<exists>s. receive sample_env sample_docs 5 [] sample_spawned = (Some True, s)
     \<and> concat (map slice_rows (rw_slices (fst (get_rows sample_env 1 9 s)))) = [DocRow (VBool True), DocRow (VI64 7)]"
proof -
  obtain s where s: "receive sample_env sample_docs 5 [] sample_spawned = (Some True, s)" using sample_received by blast
  have new: "store_run sample_env True sample_spawned []" unfolding sample_spawned_def by (rule run_spawn)
  have "payload_rows (sh_shape sample_spawned) (wb_payload sample_docs) (sh_converter sample_spawned)
      = [DocRow VNull, DocRow (VBool True), DocRow (VI64 7)]"
    by (simp add: sample_docs_def)
  with run_batch [OF new s] have "store_run sample_env True s [DocRow VNull, DocRow (VBool True), DocRow (VI64 7)]" by simp
  from conjunct1 [OF window_is_slice [OF sample_env_law this, of 1 9]]
  have "concat (map slice_rows (rw_slices (fst (get_rows sample_env 1 9 s)))) = [DocRow (VBool True), DocRow (VI64 7)]"
    by (simp add: slice_def numeral_2_eq_2)
  with s show ?thesis by blast
qed

section \<open>The hot window\<close>

definition within_hot_window :: "store \<Rightarrow> bool" where
  "within_hot_window s =
     (ss_resident (sh_state s) \<le> mp_hot_bytes (sh_policy s) \<and> resident_rows (sh_state s) \<le> mp_hot_rows (sh_policy s))"

definition parked_hot :: "store \<Rightarrow> bool" where
  "parked_hot s =
     (sh_cmds s \<noteq> [] \<and> last (sh_cmds s) = EvPark HotWindow
      \<and> (phase_terminal (ss_phase (sh_state s)) \<or> ss_phase (sh_state s) = PhParked HotWindow))"

lemma hot_window_steps:
  "within_hot_window s \<Longrightarrow> enforce_hot_window env s = s"
  "\<not> within_hot_window s \<Longrightarrow> spill_oldest env s = (True, s') \<Longrightarrow> enforce_hot_window env s = enforce_hot_window env s'"
  "\<not> within_hot_window s \<Longrightarrow> spill_oldest env s = (False, s') \<Longrightarrow> enforce_hot_window env s =
     (if sh_settled s' \<noteq> None then
        publish (\<lambda>t. if phase_terminal (ss_phase t) then t else t\<lparr>ss_phase := PhParked HotWindow\<rparr>)
          (command (EvPark HotWindow) s')
      else s')"
  unfolding enforce_hot_window.simps [of env s] within_hot_window_def not_less [symmetric] by auto

lemma hot_window_result:
  "within_hot_window (enforce_hot_window env s) \<or> sh_settled (enforce_hot_window env s) = None
    \<or> parked_hot (enforce_hot_window env s)"
proof (induction "table_chunks s" arbitrary: s rule: less_induct)
  case less
  obtain r s' where sp: "spill_oldest env s = (r, s')" by (cases "spill_oldest env s")
  show ?case
  proof (cases "within_hot_window s")
    case True
    then show ?thesis by (simp add: hot_window_steps(1))
  next
    case over: False
    show ?thesis
    proof (cases r)
      case True
      with sp have sp': "spill_oldest env s = (True, s')" by simp
      from less [OF spill_oldest_shrinks [OF sp']] show ?thesis unfolding hot_window_steps(2) [OF over sp'] .
    next
      case False
      with sp have sp': "spill_oldest env s = (False, s')" by simp
      show ?thesis unfolding hot_window_steps(3) [OF over sp'] by (simp add: parked_hot_def publish_def command_def)
    qed
  qed
qed

text \<open>
  Each batch of rows, documents or pairs leaves the store within its hot window, in bytes and in rows,
  unless there is no settled schema to spill with yet or spilling failed, and then the last
  command the feeder got is to park and the store says so.
\<close>

theorem hot_window_enforced:
  assumes "receive env wb micros evs s = (Some True, s')" and "payload_rows (sh_shape s) (wb_payload wb) (sh_converter s) \<noteq> []"
  shows "within_hot_window s' \<or> sh_settled s' = None \<or> parked_hot s'"
proof -
  obtain ad conv where cv: "store_convert env (sh_shape s) (wb_payload wb) (sh_converter s) = (ad, conv)"
    by (cases "store_convert env (sh_shape s) (wb_payload wb) (sh_converter s)")
  with assms(2) store_convert_none obtain a where a: "ad = Some a" by (cases ad) blast+
  obtain res s1 where adm: "admit_bytes env (ad_bytes a) False evs (s\<lparr>sh_converter := conv\<rparr>) = (res, s1)"
    by (cases "admit_bytes env (ad_bytes a) False evs (s\<lparr>sh_converter := conv\<rparr>)")
  have "\<exists>s2. s' = enforce_hot_window env s2"
    using assms(1) by (auto simp: receive_def cv a adm Let_def split: option.splits bool.splits)
  then obtain s2 where "s' = enforce_hot_window env s2" by (rule exE)
  then show ?thesis using hot_window_result [of env s2] by (simp only:)
qed

lemma hot_window_enforced_witness:
  "\<exists>s. receive sample_env sample_docs 5 [] sample_spawned = (Some True, s)
     \<and> (within_hot_window s \<or> sh_settled s = None \<or> parked_hot s)"
proof -
  obtain s where s: "receive sample_env sample_docs 5 [] sample_spawned = (Some True, s)" using sample_received by blast
  have "payload_rows (sh_shape sample_spawned) (wb_payload sample_docs) (sh_converter sample_spawned) \<noteq> []"
    by (simp add: sample_docs_def)
  with hot_window_enforced [OF s] s show ?thesis by blast
qed

section \<open>A chunk that cannot be read back\<close>

lemma no_slices:
  "list_all (\<lambda>c. chunk_result_rows env s c = []) (ss_chunks (sh_state s))
    \<Longrightarrow> list_all (\<lambda>c. is_spilled (ck_body c)) (ss_chunks (sh_state s))
    \<Longrightarrow> (\<And>i. read_spilled env s i = None) \<Longrightarrow> window_slices env s row stop = []"
proof (induction env s row stop rule: window_slices.induct)
  case (1 env s row stop)
  show ?case
  proof (cases "row < stop")
    case True
    show ?thesis
    proof (cases "chunk_of (sh_state s) row")
      case (Some i)
      from chunk_of_bound [OF Some] 1(3) have "is_spilled (ck_body (ss_chunks (sh_state s) ! i))"
        by (simp add: list_all_length)
      then obtain j where "ck_body (ss_chunks (sh_state s) ! i) = CSpilled j"
        by (cases "ck_body (ss_chunks (sh_state s) ! i)") auto
      with 1(1) [OF True Some refl 1(2-4)] True Some 1(4) show ?thesis
        by (simp add: window_slices.simps [of env s row stop] Let_def chunk_slice_def)
    qed (simp add: window_slices.simps [of env s row stop])
  qed (simp add: window_slices.simps [of env s row stop])
qed

text \<open>
  A finished result whose spill file cannot be read answers every window as \<open>Ready\<close> and
  empty: the rows are missing and nothing in the window says so.
\<close>

theorem unreadable_spill_is_ready:
  assumes "ss_phase (sh_state s) = PhComplete" and "list_all (\<lambda>c. is_spilled (ck_body c)) (ss_chunks (sh_state s))"
    and "\<And>i. read_spilled env s i = None"
  shows "rw_slices (fst (get_rows env start stop s)) = [] \<and> rw_status (fst (get_rows env start stop s)) = WReady"
proof -
  have "chunk_result_rows env s c = []" if "is_spilled (ck_body c)" for c
    using that assms(3) by (cases "ck_body c") (simp_all add: chunk_result_rows_def)
  then have "list_all (\<lambda>c. chunk_result_rows env s c = []) (ss_chunks (sh_state s))"
    using assms(2) by (simp add: list_all_iff)
  from no_slices [OF this assms(2,3)] assms(1) show ?thesis
    by (simp add: get_rows_def Let_def window_status_of_def)
qed

definition sample_unreadable :: store where
  "sample_unreadable = sample_spawned
     \<lparr>sh_state := empty_state\<lparr>ss_phase := PhComplete, ss_rows := 3,
        ss_chunks := [\<lparr>ck_first = 0, ck_rows = 3, ck_bytes = 0, ck_body = CSpilled 0\<rparr>]\<rparr>,
      sh_spill := Some \<lparr>sp_schema = [], sp_file = ''rrr'',
        sp_chunks = [\<lparr>cl_offset = 0, cl_len = 3, cl_rows = 3\<rparr>], sp_bytes = 3, sp_max = 9\<rparr>\<rparr>"

lemma unreadable_spill_is_ready_witness:
  "ss_rows (sh_state sample_unreadable) = 3
   \<and> rw_status (fst (get_rows (sample_env\<lparr>ae_decode := \<lambda>buf. IpcError\<rparr>) 0 3 sample_unreadable)) = WReady"
proof -
  have "ss_phase (sh_state sample_unreadable) = PhComplete"
    and "list_all (\<lambda>c. is_spilled (ck_body c)) (ss_chunks (sh_state sample_unreadable))"
    and rows: "ss_rows (sh_state sample_unreadable) = 3" by (simp_all add: sample_unreadable_def)
  moreover have "read_spilled (sample_env\<lparr>ae_decode := \<lambda>buf. IpcError\<rparr>) sample_unreadable i = None" for i
    by (simp add: read_spilled_def spill_read_def sample_unreadable_def split: option.split)
  ultimately show ?thesis using unreadable_spill_is_ready by blast
qed

end
