(* ===== verification/Query_Mgr.thy ===== *)
theory Query_Mgr
  imports Store_Refinement
begin

text \<open>
  Queries: \<open>crates/datagrep-core/src/query.rs\<close>.  The manager's table of open queries, what a
  cancel reports, and the supervisor that turns the states a store publishes into events.

  The watch channel keeps only the newest state, so a supervisor sees a subsequence of what the
  store published: its argument is the list of the states it has seen.  An error's text is a
  parameter (\<open>show_error\<close>); the manager's log is the order of its broadcasts.
\<close>

section \<open>Statistics, reports and events\<close>

record query_stats =
  qs_rows :: nat
  qs_batches :: nat
  qs_bytes :: nat
  qs_elapsed :: nat
  qs_first_micros :: "nat option"
  qs_server_micros :: "nat option"
  qs_spilled :: nat
  qs_affected :: "nat option"

record cancel_report =
  cr_local_stopped :: bool
  cr_kind :: cancel_kind
  cr_outcome :: "cancel_outcome option"
  cr_message :: string

definition pending_report :: "cancel_kind \<Rightarrow> cancel_report" where
  "pending_report kind =
     \<lparr>cr_local_stopped = True, cr_kind = kind, cr_outcome = None,
      cr_message = (case kind of
          ServerSide \<Rightarrow> ''stopped receiving results; asking the server to cancel''
            @ [CHR 0xE2, CHR 0x80, CHR 0xA6]
        | ClientAbandon \<Rightarrow> ''stopped receiving results; the server may still be executing this query.''
        | DeadlineOnly \<Rightarrow> ''stopped receiving results; the query runs until its server-side deadline.'')\<rparr>"

definition resolved_report ::
  "(db_error \<Rightarrow> string) \<Rightarrow> cancel_kind \<Rightarrow> db_error + cancel_outcome \<Rightarrow> cancel_report" where
  "resolved_report show_error kind outcome =
     \<lparr>cr_local_stopped = True, cr_kind = kind,
      cr_outcome = (case outcome of Inl e \<Rightarrow> None | Inr c \<Rightarrow> Some c),
      cr_message = (case outcome of
          Inr ServerCancelled \<Rightarrow> ''stopped; the server confirmed it killed the query.''
        | Inr CancelRequested \<Rightarrow> ''stopped; a cancel was sent but this protocol gives no acknowledgement.''
        | Inr ClientAbandoned \<Rightarrow> ''stopped receiving results; the server may still be executing this query.''
        | Inl e \<Rightarrow> ''stopped receiving results; the cancel request failed ('' @ show_error e
            @ ''). The server may still be executing this query.'')\<rparr>"

datatype query_event =
    QAccepted nat
  | QFirstBatch nat nat
  | QProgress nat nat
  | QParked nat park_reason
  | QCapped nat nat
  | QDone nat query_stats
  | QFailed nat db_error
  | QCancelOutcome nat cancel_report

fun event_qid :: "query_event \<Rightarrow> nat" where
  "event_qid (QAccepted q) = q"
| "event_qid (QFirstBatch q micros) = q"
| "event_qid (QProgress q rows) = q"
| "event_qid (QParked q reason) = q"
| "event_qid (QCapped q rows) = q"
| "event_qid (QDone q stats) = q"
| "event_qid (QFailed q e) = q"
| "event_qid (QCancelOutcome q report) = q"

section \<open>The supervisor\<close>

record supervisor =
  su_last_rows :: nat
  su_first :: bool
  su_park :: "park_reason option"

definition new_supervisor :: supervisor where
  "new_supervisor = \<lparr>su_last_rows = 0, su_first = False, su_park = None\<rparr>"

definition stats_of :: "nat \<Rightarrow> cursor_stats \<Rightarrow> store_state \<Rightarrow> query_stats" where
  "stats_of elapsed cursor t =
     \<lparr>qs_rows = ss_rows t, qs_batches = ss_batches t, qs_bytes = cs_bytes cursor, qs_elapsed = elapsed,
      qs_first_micros = ss_first_micros t, qs_server_micros = cs_server_micros cursor,
      qs_spilled = ss_spilled t, qs_affected = ss_affected t\<rparr>"

definition emit_terminal :: "nat \<Rightarrow> nat \<Rightarrow> cursor_stats \<Rightarrow> store_state \<Rightarrow> query_event list" where
  "emit_terminal q elapsed cursor t =
     (case ss_phase t of
        PhCapped \<Rightarrow> [QCapped q (ss_rows t), QDone q (stats_of elapsed cursor t)]
      | PhComplete \<Rightarrow> [QDone q (stats_of elapsed cursor t)]
      | PhFailed e \<Rightarrow> [QFailed q e]
      | _ \<Rightarrow> [])"

text \<open>One turn of the loop on the state read from the watch: first batch, progress, parking.\<close>

definition first_events :: "nat \<Rightarrow> store_state \<Rightarrow> supervisor \<Rightarrow> query_event list" where
  "first_events q t su =
     (if su_first su then [] else case ss_first_micros t of Some m \<Rightarrow> [QFirstBatch q m] | None \<Rightarrow> [])"

definition progress_events :: "nat \<Rightarrow> store_state \<Rightarrow> supervisor \<Rightarrow> query_event list" where
  "progress_events q t su = (if su_last_rows su < ss_rows t then [QProgress q (ss_rows t)] else [])"

definition park_events :: "nat \<Rightarrow> store_state \<Rightarrow> supervisor \<Rightarrow> query_event list" where
  "park_events q t su =
     (case ss_phase t of PhParked r \<Rightarrow> if su_park su = Some r then [] else [QParked q r] | _ \<Rightarrow> [])"

definition supervise_turn :: "nat \<Rightarrow> store_state \<Rightarrow> supervisor \<Rightarrow> query_event list \<times> supervisor" where
  "supervise_turn q t su =
     (first_events q t su @ progress_events q t su @ park_events q t su,
      \<lparr>su_last_rows = max (su_last_rows su) (ss_rows t),
       su_first = (su_first su \<or> ss_first_micros t \<noteq> None),
       su_park = (case ss_phase t of PhParked r \<Rightarrow> Some r | _ \<Rightarrow> None)\<rparr>)"

fun supervise :: "nat \<Rightarrow> nat \<Rightarrow> cursor_stats \<Rightarrow> store_state list \<Rightarrow> supervisor \<Rightarrow> query_event list" where
  "supervise q elapsed cursor [] su = []"
| "supervise q elapsed cursor (t # ts) su =
     (case supervise_turn q t su of
        (evs, su') \<Rightarrow>
          evs @ (if phase_terminal (ss_phase t) then emit_terminal q elapsed cursor t
                 else supervise q elapsed cursor ts su'))"

section \<open>The manager\<close>

record query =
  qu_kind :: cancel_kind
  qu_feeder :: feeder_policy
  qu_shape :: shape
  qu_stopped :: bool
  qu_lease :: bool

record query_mgr =
  qm_policy :: memory_policy
  qm_next :: nat
  qm_open :: "nat \<rightharpoonup> query"
  qm_log :: "query_event list"
  qm_cancelling :: "(nat \<times> cancel_kind) list"

definition new_mgr :: "memory_policy \<Rightarrow> query_mgr" where
  "new_mgr policy = \<lparr>qm_policy = policy, qm_next = 0, qm_open = Map.empty, qm_log = [], qm_cancelling = []\<rparr>"

definition query_feeder_policy :: "memory_policy \<Rightarrow> nat \<Rightarrow> nat option \<Rightarrow> feeder_policy" where
  "query_feeder_policy policy fetch_rows row_limit =
     (let p = feeder_policy_for policy fetch_rows
      in case row_limit of None \<Rightarrow> p | Some limit \<Rightarrow> p\<lparr>fp_soft_cap := max (fp_soft_cap p) limit\<rparr>)"

definition request_row_limit :: "request \<Rightarrow> nat option" where
  "request_row_limit req = (case req of Native text params opts \<Rightarrow> opt_row_limit opts | Operation op \<Rightarrow> None)"

text \<open>\<open>run\<close>, after \<open>execute\<close> has answered with an error or with the shape of its cursor.\<close>

definition mgr_run ::
  "db_error + shape \<Rightarrow> cancel_kind \<Rightarrow> nat \<Rightarrow> request \<Rightarrow> query_mgr \<Rightarrow> (db_error + nat) \<times> query_mgr" where
  "mgr_run executed kind fetch_rows req m =
     (case executed of
        Inl e \<Rightarrow> (Inl e, m)
      | Inr sh \<Rightarrow>
          (let q = qm_next m;
               entry = \<lparr>qu_kind = kind,
                        qu_feeder = query_feeder_policy (qm_policy m) fetch_rows (request_row_limit req),
                        qu_shape = sh, qu_stopped = False, qu_lease = True\<rparr>
           in (Inr q, m\<lparr>qm_next := q + 1, qm_open := (qm_open m)(q \<mapsto> entry),
                       qm_log := qm_log m @ [QAccepted q]\<rparr>)))"

definition mgr_cancel :: "nat \<Rightarrow> query_mgr \<Rightarrow> cancel_report option \<times> query_mgr" where
  "mgr_cancel q m =
     (case qm_open m q of
        None \<Rightarrow> (None, m)
      | Some entry \<Rightarrow>
          (Some (pending_report (qu_kind entry)),
           m\<lparr>qm_open := (qm_open m)(q \<mapsto> entry\<lparr>qu_stopped := True\<rparr>),
             qm_cancelling := qm_cancelling m @ [(q, qu_kind entry)]\<rparr>))"

text \<open>The server half of a cancel ends, in time or not.\<close>

definition cancel_resolved ::
  "(db_error \<Rightarrow> string) \<Rightarrow> nat \<Rightarrow> (db_error + cancel_outcome) option \<Rightarrow> query_mgr \<Rightarrow> query_mgr" where
  "cancel_resolved show_error i answer m =
     (case byte_at (qm_cancelling m) i of
        None \<Rightarrow> m
      | Some (q, kind) \<Rightarrow>
          m\<lparr>qm_cancelling := remove_at i (qm_cancelling m),
            qm_log := qm_log m @ [QCancelOutcome q (resolved_report show_error kind
              (case answer of Some r \<Rightarrow> r | None \<Rightarrow> Inl ETimeout))]\<rparr>)"

definition stop_query :: "query \<Rightarrow> query" where
  "stop_query entry = entry\<lparr>qu_stopped := True, qu_lease := False\<rparr>"

definition mgr_close :: "nat \<Rightarrow> query_mgr \<Rightarrow> query option \<times> query_mgr" where
  "mgr_close q m =
     (case qm_open m q of
        None \<Rightarrow> (None, m)
      | Some entry \<Rightarrow> (Some (stop_query entry), m\<lparr>qm_open := (qm_open m)(q := None)\<rparr>))"

definition open_queries :: "query_mgr \<Rightarrow> nat list" where
  "open_queries m = filter (\<lambda>q. qm_open m q \<noteq> None) [0..<qm_next m]"

definition mgr_shutdown :: "query_mgr \<Rightarrow> query_mgr" where
  "mgr_shutdown m = m\<lparr>qm_open := Map.empty\<rparr>"

text \<open>\<open>rows_or_pending\<close>: the window of the query's store, or a cancelled empty one.\<close>

definition rows_or_pending :: "row_window option \<Rightarrow> nat \<Rightarrow> nat \<Rightarrow> row_window" where
  "rows_or_pending window start stop =
     (case window of Some w \<Rightarrow> w | None \<Rightarrow> \<lparr>rw_start = start, rw_end = stop, rw_status = WCancelled, rw_slices = []\<rparr>)"

section \<open>What a subscriber sees of one query\<close>

fun is_first :: "query_event \<Rightarrow> bool" where
  "is_first (QFirstBatch q m) = True"
| "is_first _ = False"

fun is_end :: "query_event \<Rightarrow> bool" where
  "is_end (QCapped q n) = True"
| "is_end (QDone q s) = True"
| "is_end (QFailed q e) = True"
| "is_end _ = False"

fun progress_row :: "query_event \<Rightarrow> nat list" where
  "progress_row (QProgress q n) = [n]"
| "progress_row _ = []"

definition progress_rows :: "query_event list \<Rightarrow> nat list" where
  "progress_rows evs = concat (map progress_row evs)"

lemma progress_rows_append [simp]: "progress_rows (xs @ ys) = progress_rows xs @ progress_rows ys"
  by (simp add: progress_rows_def)

lemma progress_rows_nil [simp]: "progress_rows [] = []"
  by (simp add: progress_rows_def)

lemma turn_events:
  assumes "supervise_turn q t su = (evs, su')"
  shows "\<forall>e \<in> set evs. event_qid e = q \<and> \<not> is_end e"
    and "length (filter is_first evs) + of_bool (su_first su) \<le> of_bool (su_first su')"
    and "progress_rows evs = (if su_last_rows su < ss_rows t then [ss_rows t] else [])"
    and "su_last_rows su' = max (su_last_rows su) (ss_rows t)"
  using assms
  by (auto simp: supervise_turn_def first_events_def progress_events_def park_events_def progress_rows_def
      split: option.splits store_phase.splits if_splits)

lemma terminal_events:
  "filter is_first (emit_terminal q elapsed cursor t) = []" "progress_rows (emit_terminal q elapsed cursor t) = []"
  "\<forall>e \<in> set (emit_terminal q elapsed cursor t). event_qid e = q"
  by (auto simp: emit_terminal_def progress_rows_def split: store_phase.splits)

lemma supervise_first:
  "length (filter is_first (supervise q elapsed cursor ts su)) + of_bool (su_first su) \<le> 1"
proof (induction ts arbitrary: su)
  case (Cons t ts)
  obtain evs su' where turn: "supervise_turn q t su = (evs, su')" by (cases "supervise_turn q t su")
  from turn_events(2) [OF turn] Cons.IH [of su'] show ?case
    by (simp add: turn terminal_events(1) of_bool_def split: if_splits)
qed simp

lemma supervise_progress:
  "sorted_wrt (<) (su_last_rows su # progress_rows (supervise q elapsed cursor ts su))"
proof (induction ts arbitrary: su)
  case (Cons t ts)
  obtain evs su' where turn: "supervise_turn q t su = (evs, su')" by (cases "supervise_turn q t su")
  note row = turn_events(3,4) [OF turn]
  from Cons.IH [of su'] row show ?case
    by (cases "su_last_rows su < ss_rows t") (auto simp: turn terminal_events(2) max_def)
qed simp

lemma supervise_qid: "e \<in> set (supervise q elapsed cursor ts su) \<Longrightarrow> event_qid e = q"
proof (induction ts arbitrary: su)
  case (Cons t ts)
  obtain evs su' where turn: "supervise_turn q t su = (evs, su')" by (cases "supervise_turn q t su")
  from Cons turn_events(1) [OF turn] terminal_events(3) show ?case by (auto simp: turn split: if_splits)
qed simp

text \<open>The observed states up to and with the first terminal one.\<close>

lemma supervise_split:
  "(\<exists>t \<in> set ts. phase_terminal (ss_phase t) \<and> (\<exists>pre. supervise q elapsed cursor ts su = pre @ emit_terminal q elapsed cursor t
      \<and> filter is_end pre = [])) \<or> ((\<forall>t \<in> set ts. \<not> phase_terminal (ss_phase t)) \<and> filter is_end (supervise q elapsed cursor ts su) = [])"
proof (induction ts arbitrary: su)
  case (Cons t ts)
  obtain evs su' where turn: "supervise_turn q t su = (evs, su')" by (cases "supervise_turn q t su")
  have none: "filter is_end evs = []" using turn_events(1) [OF turn] by (auto simp: filter_empty_conv)
  show ?case
  proof (cases "phase_terminal (ss_phase t)")
    case True
    have "supervise q elapsed cursor (t # ts) su = evs @ emit_terminal q elapsed cursor t" by (simp add: turn True)
    with none True show ?thesis by (intro disjI1 bexI [of _ t]) auto
  next
    case False
    have eq: "supervise q elapsed cursor (t # ts) su = evs @ supervise q elapsed cursor ts su'" by (simp add: turn False)
    from Cons.IH [of su'] show ?thesis
    proof (elim disjE bexE conjE exE)
      fix u pre assume u: "u \<in> set ts" "phase_terminal (ss_phase u)"
        and pre: "supervise q elapsed cursor ts su' = pre @ emit_terminal q elapsed cursor u" "filter is_end pre = []"
      have "supervise q elapsed cursor (t # ts) su = (evs @ pre) @ emit_terminal q elapsed cursor u \<and> filter is_end (evs @ pre) = []"
        using eq pre none by simp
      with u show ?thesis by (intro disjI1 bexI [of _ u]) auto
    next
      assume "\<forall>u \<in> set ts. \<not> phase_terminal (ss_phase u)" "filter is_end (supervise q elapsed cursor ts su') = []"
      moreover from this none have "filter is_end (supervise q elapsed cursor (t # ts) su) = []" unfolding eq by simp
      ultimately show ?thesis using False by (intro disjI2 conjI) simp_all
    qed
  qed
qed simp

lemma emit_terminal_cases:
  assumes "phase_terminal (ss_phase t)"
  shows "emit_terminal q elapsed cursor t = [QDone q (stats_of elapsed cursor t)]
    \<or> emit_terminal q elapsed cursor t = [QCapped q (ss_rows t), QDone q (stats_of elapsed cursor t)]
    \<or> (\<exists>e. ss_phase t = PhFailed e \<and> emit_terminal q elapsed cursor t = [QFailed q e])
    \<or> ss_phase t = PhCancelled \<and> emit_terminal q elapsed cursor t = []"
  using assms by (cases "ss_phase t") (simp_all add: emit_terminal_def)

text \<open>
  C33.  Whatever states a supervisor sees, its events are orderly: all are of its query, the first
  batch is announced at most once, the announced row counts strictly increase, and the events
  that end the query come last: nothing when no state was terminal or the result was cancelled, otherwise Done with the figures of a state seen, Capped and Done, or
  Failed with the error of a state seen.
\<close>

theorem supervisor_events_orderly:
  "let evs = supervise q elapsed cursor states new_supervisor in
    (\<forall>e \<in> set evs. event_qid e = q) \<and> length (filter is_first evs) \<le> 1 \<and> sorted_wrt (<) (progress_rows evs)
    \<and> (\<exists>pre post. evs = pre @ post \<and> filter is_end pre = []
        \<and> (post = [] \<and> (\<forall>t \<in> set states. phase_terminal (ss_phase t) \<longrightarrow> PhCancelled \<in> ss_phase ` set states) \<or> (\<exists>t \<in> set states. post = [QDone q (stats_of elapsed cursor t)]
             \<or> post = [QCapped q (ss_rows t), QDone q (stats_of elapsed cursor t)]
             \<or> (\<exists>e. ss_phase t = PhFailed e \<and> post = [QFailed q e]))))"
proof -
  define evs where "evs = supervise q elapsed cursor states new_supervisor"
  have "\<forall>e \<in> set evs. event_qid e = q" unfolding evs_def by (blast intro: supervise_qid)
  moreover have "length (filter is_first evs) \<le> 1"
    using supervise_first [of q elapsed cursor states new_supervisor] by (simp add: evs_def)
  moreover have "sorted_wrt (<) (progress_rows evs)"
    using supervise_progress [of new_supervisor q elapsed cursor states] by (simp add: evs_def)
  moreover have "\<exists>pre post. evs = pre @ post \<and> filter is_end pre = []
        \<and> (post = [] \<and> (\<forall>t \<in> set states. phase_terminal (ss_phase t) \<longrightarrow> PhCancelled \<in> ss_phase ` set states) \<or> (\<exists>t \<in> set states. post = [QDone q (stats_of elapsed cursor t)]
             \<or> post = [QCapped q (ss_rows t), QDone q (stats_of elapsed cursor t)]
             \<or> (\<exists>e. ss_phase t = PhFailed e \<and> post = [QFailed q e])))"
    using supervise_split [of states q elapsed cursor new_supervisor, folded evs_def]
  proof (elim disjE bexE conjE exE)
    fix t pre assume "t \<in> set states" "phase_terminal (ss_phase t)" "evs = pre @ emit_terminal q elapsed cursor t" "filter is_end pre = []"
    then show ?thesis
      using emit_terminal_cases [of t q elapsed cursor]
      by (intro exI [of _ pre] exI [of _ "emit_terminal q elapsed cursor t"]) (blast intro: image_eqI [OF sym])
  next
    assume "\<forall>t \<in> set states. \<not> phase_terminal (ss_phase t)" "filter is_end evs = []"
    then show ?thesis by (intro exI [of _ evs] exI [of _ "[]"]) simp
  qed
  ultimately show ?thesis unfolding Let_def evs_def [symmetric] by (intro conjI)
qed

lemma supervisor_events_orderly_witness:
  "length (filter is_first (supervise 7 0 \<lparr>cs_rows = 3, cs_bytes = 12, cs_batches = 1, cs_server_micros = None\<rparr>
     [empty_state, empty_state\<lparr>ss_phase := PhComplete, ss_rows := 3\<rparr>] new_supervisor)) \<le> 1"
  using supervisor_events_orderly [of 7 0 "\<lparr>cs_rows = 3, cs_bytes = 12, cs_batches = 1, cs_server_micros = None\<rparr>"
      "[empty_state, empty_state\<lparr>ss_phase := PhComplete, ss_rows := 3\<rparr>]"]
  unfolding Let_def by blast

end
