(* ===== verification/Session_Pool.thy ===== *)
theory Session_Pool
  imports Safety_Gate "HOL-Library.Multiset"
begin

text \<open>
  Connections and their pool: \<open>crates/datagrep-core/src/session.rs\<close>.  First the task that owns
  one connection and the handle that sends it commands, as functions of the task's state and of
  what the driver did with each command.  Then the pool of one session at the grain of its
  critical sections, any number of clients interleaved with the reaper and a shutdown.

  A connection is its \<open>ConnId\<close>.  Durations are milliseconds; the timer wheel is the list of its
  pending entries, and an entry that is due may fire at any step.
\<close>

section \<open>The connection task\<close>

datatype conn_cmd = CmdExecute request | CmdPing | CmdSetReadOnly bool

text \<open>How a driver call, run as a task of its own, can end.\<close>

datatype driver_outcome = DrvReturned "db_error + unit" | DrvPanicked string | DrvAborted

fun guarded :: "driver_outcome \<Rightarrow> db_error + unit" where
  "guarded (DrvReturned r) = r"
| "guarded (DrvPanicked message) = Inl (EDriverPanic message)"
| "guarded DrvAborted = Inl ECancelled"

definition is_fatal :: "db_error + unit \<Rightarrow> bool" where
  "is_fatal out = (case out of Inl e \<Rightarrow> \<not> is_recoverable e | Inr _ \<Rightarrow> False)"

record conn_task =
  ct_alive :: bool
  ct_cancelled :: bool
  ct_poisoned :: bool
  ct_driver :: "conn_cmd list"
  ct_closes :: nat

definition spawn_task :: conn_task where
  "spawn_task = \<lparr>ct_alive = True, ct_cancelled = False, ct_poisoned = False, ct_driver = [], ct_closes = 0\<rparr>"

text \<open>Leaving the loop closes the driver's connection.\<close>

definition task_exit :: "conn_task \<Rightarrow> conn_task" where
  "task_exit t = t\<lparr>ct_alive := False, ct_closes := ct_closes t + 1\<rparr>"

text \<open>One turn of \<open>run_connection\<close> on a received command.\<close>

definition task_serve :: "conn_cmd \<Rightarrow> driver_outcome \<Rightarrow> conn_task \<Rightarrow> (db_error + unit) \<times> conn_task" where
  "task_serve cmd outcome t =
     (let out = guarded outcome;
          t' = t\<lparr>ct_driver := ct_driver t @ [cmd]\<rparr>
      in (out, if is_fatal out then task_exit (t'\<lparr>ct_poisoned := True\<rparr>) else t'))"

text \<open>The token is cancelled: by the handle, the session or the registry; the task sees it.\<close>

definition task_cancel :: "conn_task \<Rightarrow> conn_task" where
  "task_cancel t = (let t' = t\<lparr>ct_cancelled := True\<rparr> in if ct_alive t then task_exit t' else t')"

text \<open>
  \<open>ConnectionHandle::call\<close>.  \<open>cancelled_while\<close> says that the token was cancelled while the call
  waited for its answer: the caller gets \<open>Cancelled\<close>, the driver has been asked all the same.
\<close>

definition conn_call ::
  "bool \<Rightarrow> conn_cmd \<Rightarrow> driver_outcome \<Rightarrow> conn_task \<Rightarrow> (db_error + unit) \<times> conn_task" where
  "conn_call cancelled_while cmd outcome t =
     (if ct_poisoned t then (Inl EClosed, t)
      else if ct_cancelled t then (Inl ECancelled, t)
      else if \<not> ct_alive t then (Inl EClosed, t)
      else (let (out, t') = task_serve cmd outcome t
            in if cancelled_while then (Inl ECancelled, task_cancel t') else (out, t')))"

text \<open>\<open>ConnectionHandle::execute\<close>: the one place every request passes.\<close>

definition conn_execute ::
  "debug_printers \<Rightarrow> nat \<Rightarrow> bool \<Rightarrow> request \<Rightarrow> driver_outcome \<Rightarrow> gate \<times> conn_task
    \<Rightarrow> ((db_error + unit) \<times> gate \<times> conn_task) option" where
  "conn_execute dbg now cancelled_while req outcome gt =
     (case admit dbg now req (fst gt) of
        None \<Rightarrow> None
      | Some (Inl e, g) \<Rightarrow> Some (Inl e, g, snd gt)
      | Some (Inr _, g) \<Rightarrow>
          (case conn_call cancelled_while (CmdExecute req) outcome (snd gt) of
             (out, t) \<Rightarrow> Some (out, g, t)))"

section \<open>The pool\<close>

record pool_policy =
  pp_max_size :: nat
  pp_min_idle :: nat
  pp_idle_timeout :: nat
  pp_connect_timeout :: "nat option"

definition default_pool_policy :: pool_policy where
  "default_pool_policy =
     \<lparr>pp_max_size = 4, pp_min_idle = 0, pp_idle_timeout = 300000, pp_connect_timeout = Some 30000\<rparr>"

record idle_conn =
  ic_conn :: nat
  ic_reap :: "nat option"

text \<open>
  Where one client is: it has no permit; it holds one and looks for an idle connection; it
  dials; it has a lease; it is giving its connection back, with the reaping already scheduled
  under a key; it is dropping the lease, with the connection given back and the permit still held.
\<close>

datatype pool_client =
    ClNone | ClLooking | ClDialling nat | ClLeased nat | ClReturning nat nat | ClDropping

text \<open>
  \<open>po_closed\<close> lists the connections whose own token was cancelled by \<open>ConnectionHandle::close\<close>.
  \<open>po_detached\<close> lists the dials whose caller stopped waiting: the task of a dial goes on when the
  caller times out or is cancelled, and what it returns is dropped.
\<close>

record pool =
  po_policy :: pool_policy
  po_cancelled :: bool
  po_sem_closed :: bool
  po_used :: nat
  po_idle :: "idle_conn list"
  po_next_id :: nat
  po_connects :: nat
  po_wheel :: "(nat \<times> nat) list"
  po_next_key :: nat
  po_firing :: "nat list"
  po_poisoned :: "nat list"
  po_closed :: "nat list"
  po_detached :: "nat list"
  po_clients :: "pool_client list"

definition pool_cap :: "pool_policy \<Rightarrow> nat" where
  "pool_cap p = max 1 (pp_max_size p)"

definition new_pool :: "pool_policy \<Rightarrow> nat \<Rightarrow> pool" where
  "new_pool policy clients =
     \<lparr>po_policy = policy, po_cancelled = False, po_sem_closed = False, po_used = 0, po_idle = [],
      po_next_id = 0, po_connects = 0, po_wheel = [], po_next_key = 0, po_firing = [],
      po_poisoned = [], po_closed = [], po_detached = [],
      po_clients = replicate clients ClNone\<rparr>"

text \<open>\<open>TimerWheel::schedule\<close> and \<open>cancel\<close>.\<close>

definition wheel_schedule :: "nat \<Rightarrow> pool \<Rightarrow> nat \<times> pool" where
  "wheel_schedule event p =
     (let k = po_next_key p in (k, p\<lparr>po_wheel := po_wheel p @ [(k, event)], po_next_key := k + 1\<rparr>))"

definition wheel_cancel :: "nat option \<Rightarrow> pool \<Rightarrow> pool" where
  "wheel_cancel key p =
     (case key of None \<Rightarrow> p | Some k \<Rightarrow> p\<lparr>po_wheel := filter (\<lambda>(j, _). j \<noteq> k) (po_wheel p)\<rparr>)"

text \<open>A fired entry leaves the wheel; its event runs later.\<close>

definition wheel_fire :: "nat \<Rightarrow> pool \<Rightarrow> pool" where
  "wheel_fire i p =
     p\<lparr>po_wheel := remove_at i (po_wheel p), po_firing := snd (po_wheel p ! i) # po_firing p\<rparr>"

text \<open>A connection's token is a child of the session's, so it is cancelled with either.\<close>

definition conn_cancelled :: "pool \<Rightarrow> nat \<Rightarrow> bool" where
  "conn_cancelled p c = (po_cancelled p \<or> c \<in> set (po_closed p))"

definition close_conn :: "nat \<Rightarrow> pool \<Rightarrow> pool" where
  "close_conn c p = p\<lparr>po_closed := c # po_closed p\<rparr>"

definition take_idle :: "pool \<Rightarrow> nat option \<times> pool" where
  "take_idle p =
     (if po_idle p = [] then (None, p)
      else (let entry = last (po_idle p)
            in (Some (ic_conn entry), wheel_cancel (ic_reap entry) (p\<lparr>po_idle := butlast (po_idle p)\<rparr>))))"

definition reap :: "nat \<Rightarrow> pool \<Rightarrow> pool" where
  "reap c p =
     (case find_index (\<lambda>e. ic_conn e = c) (po_idle p) of
        None \<Rightarrow> p
      | Some i \<Rightarrow> close_conn (ic_conn (po_idle p ! i)) (p\<lparr>po_idle := remove_at i (po_idle p)\<rparr>))"

text \<open>\<open>shutdown\<close>: the token, with every connection under it, then the semaphore, then the idle
  list under its lock.\<close>

definition shutdown_cancel :: "pool \<Rightarrow> pool" where
  "shutdown_cancel p = p\<lparr>po_cancelled := True\<rparr>"

definition shutdown_permits :: "pool \<Rightarrow> pool" where
  "shutdown_permits p = p\<lparr>po_sem_closed := True\<rparr>"

definition shutdown_drain :: "pool \<Rightarrow> pool" where
  "shutdown_drain p =
     fold (\<lambda>e q. close_conn (ic_conn e) (wheel_cancel (ic_reap e) q)) (po_idle p) (p\<lparr>po_idle := []\<rparr>)"

definition set_client :: "nat \<Rightarrow> pool_client \<Rightarrow> pool \<Rightarrow> pool" where
  "set_client i c p = p\<lparr>po_clients := (po_clients p)[i := c]\<rparr>"

text \<open>\<open>release\<close>: the check and the timer first, then the idle list under its lock.\<close>

definition release_check :: "nat \<Rightarrow> nat \<Rightarrow> pool \<Rightarrow> pool" where
  "release_check i c p =
     (if c \<in> set (po_poisoned p) \<or> po_cancelled p then set_client i ClDropping (close_conn c p)
      else (let (k, p') = wheel_schedule c p in set_client i (ClReturning c k) p'))"

definition release_push :: "nat \<Rightarrow> nat \<Rightarrow> nat \<Rightarrow> pool \<Rightarrow> pool" where
  "release_push i c k p =
     set_client i ClDropping (p\<lparr>po_idle := po_idle p @ [\<lparr>ic_conn = c, ic_reap = Some k\<rparr>]\<rparr>)"

text \<open>The loop of \<open>acquire\<close>, one idle connection at a time, then \<open>connect\<close>.\<close>

definition acquire_turn :: "nat \<Rightarrow> pool \<Rightarrow> pool" where
  "acquire_turn i p =
     (case take_idle p of
        (Some c, p') \<Rightarrow>
          if c \<in> set (po_poisoned p') then close_conn c p' else set_client i (ClLeased c) p'
      | (None, p') \<Rightarrow> set_client i (ClDialling (po_next_id p')) (p'\<lparr>po_next_id := po_next_id p' + 1\<rparr>))"

definition drop_permit :: "nat \<Rightarrow> pool \<Rightarrow> pool" where
  "drop_permit i p = set_client i ClNone (p\<lparr>po_used := po_used p - 1\<rparr>)"

text \<open>How \<open>connect\<close> can end, and what \<open>acquire\<close> answers then; the first two are its select.\<close>

datatype dial_end =
    DialCancelled | DialTimedOut | DialRefused db_error | DialPanicked string | DialAborted
  | DialSpawnPanicked string | DialConnected

fun dial_error :: "dial_end \<Rightarrow> db_error option" where
  "dial_error DialCancelled = Some ECancelled"
| "dial_error DialTimedOut = Some ETimeout"
| "dial_error (DialRefused e) = Some e"
| "dial_error (DialPanicked m) = Some (EDriverPanic m)"
| "dial_error DialAborted = Some ECancelled"
| "dial_error (DialSpawnPanicked m) = Some (EDriverPanic m)"
| "dial_error DialConnected = None"

text \<open>
  The connection is counted once the driver has returned it, before its task is spawned.  A dial
  that was cancelled or timed out is told so through its flag and left to itself, while its caller
  gives the permit back.
\<close>

definition dial_done :: "nat \<Rightarrow> nat \<Rightarrow> dial_end \<Rightarrow> pool \<Rightarrow> pool" where
  "dial_done i c e p =
     (let counted = (case e of DialConnected \<Rightarrow> True | DialSpawnPanicked _ \<Rightarrow> True | _ \<Rightarrow> False);
          left = (case e of DialCancelled \<Rightarrow> True | DialTimedOut \<Rightarrow> True | _ \<Rightarrow> False);
          p' = (if counted then p\<lparr>po_connects := po_connects p + 1\<rparr> else p)
      in if dial_error e = None then set_client i (ClLeased c) p'
         else if left then (drop_permit i p')\<lparr>po_detached := c # po_detached p'\<rparr>
         else drop_permit i p')"

inductive pool_step :: "pool \<Rightarrow> pool \<Rightarrow> bool" where
  permit: "i < length (po_clients p) \<Longrightarrow> po_clients p ! i = ClNone \<Longrightarrow> \<not> po_cancelled p \<Longrightarrow>
    \<not> po_sem_closed p \<Longrightarrow> po_used p < pool_cap (po_policy p) \<Longrightarrow>
    pool_step p (set_client i ClLooking (p\<lparr>po_used := po_used p + 1\<rparr>))"
| look: "i < length (po_clients p) \<Longrightarrow> po_clients p ! i = ClLooking \<Longrightarrow> pool_step p (acquire_turn i p)"
| dialled: "i < length (po_clients p) \<Longrightarrow> po_clients p ! i = ClDialling c \<Longrightarrow>
    pool_step p (dial_done i c e p)"
| give_back: "i < length (po_clients p) \<Longrightarrow> po_clients p ! i = ClLeased c \<Longrightarrow>
    pool_step p (release_check i c p)"
| pushed: "i < length (po_clients p) \<Longrightarrow> po_clients p ! i = ClReturning c k \<Longrightarrow>
    pool_step p (release_push i c k p)"
| dropped: "i < length (po_clients p) \<Longrightarrow> po_clients p ! i = ClDropping \<Longrightarrow>
    pool_step p (drop_permit i p)"
| poison: "pool_step p (p\<lparr>po_poisoned := c # po_poisoned p\<rparr>)"
| fire: "k < length (po_wheel p) \<Longrightarrow> pool_step p (wheel_fire k p)"
| reaped: "po_firing p = xs @ c # ys \<Longrightarrow> pool_step p (reap c (p\<lparr>po_firing := xs @ ys\<rparr>))"
| dial_over: "po_detached p = xs @ c # ys \<Longrightarrow> pool_step p (p\<lparr>po_detached := xs @ ys\<rparr>)"
| stop: "pool_step p (shutdown_cancel p)"
| stop_permits: "po_cancelled p \<Longrightarrow> pool_step p (shutdown_permits p)"
| drain: "po_sem_closed p \<Longrightarrow> pool_step p (shutdown_drain p)"

inductive pool_reachable :: "pool_policy \<Rightarrow> nat \<Rightarrow> pool \<Rightarrow> bool" for policy clients where
  pool_init: "pool_reachable policy clients (new_pool policy clients)"
| pool_next: "pool_reachable policy clients p \<Longrightarrow> pool_step p p' \<Longrightarrow> pool_reachable policy clients p'"

section \<open>The pool is bounded and its leases are exclusive\<close>

text \<open>The connections a client and the pool hold, and the permits in use.\<close>

fun client_conns :: "pool_client \<Rightarrow> nat multiset" where
  "client_conns (ClDialling c) = {#c#}"
| "client_conns (ClLeased c) = {#c#}"
| "client_conns (ClReturning c k) = {#c#}"
| "client_conns _ = {#}"

fun client_permits :: "pool_client \<Rightarrow> nat" where
  "client_permits ClNone = 0"
| "client_permits _ = 1"

definition held_conns :: "pool \<Rightarrow> nat multiset" where
  "held_conns p = sum_list (map client_conns (po_clients p)) + mset (map ic_conn (po_idle p))"

definition permits_out :: "pool \<Rightarrow> nat" where
  "permits_out p = sum_list (map client_permits (po_clients p))"

definition pool_inv :: "pool_policy \<Rightarrow> pool \<Rightarrow> bool" where
  "pool_inv policy p =
     (po_policy p = policy \<and> po_used p = permits_out p \<and> po_used p \<le> pool_cap policy
      \<and> size (held_conns p) \<le> pool_cap policy
      \<and> (\<forall>c. count (held_conns p) c \<le> 1)
      \<and> (\<forall>c \<in># held_conns p. c < po_next_id p \<and> c \<notin> set (po_closed p))
      \<and> (\<forall>c \<in> set (po_closed p). c < po_next_id p)
      \<and> (\<forall>c \<in> set (po_detached p). c < po_next_id p \<and> c \<notin># held_conns p))"

lemma sum_list_update_monoid:
  fixes f :: "'a \<Rightarrow> 'b :: comm_monoid_add"
  shows "i < length xs \<Longrightarrow> sum_list (map f (xs[i := y])) + f (xs ! i) = sum_list (map f xs) + f y"
  by (induction xs arbitrary: i) (auto simp: ac_simps split: nat.splits)

lemma permits_update:
  "i < length (po_clients p) \<Longrightarrow>
     permits_out (set_client i c p) + client_permits (po_clients p ! i) = permits_out p + client_permits c"
  by (simp add: permits_out_def set_client_def sum_list_update_monoid)

lemma conns_update:
  "i < length (po_clients p) \<Longrightarrow>
     held_conns (set_client i c p) + client_conns (po_clients p ! i) = held_conns p + client_conns c"
  using sum_list_update_monoid [of i "po_clients p" client_conns c]
  by (simp add: held_conns_def set_client_def ac_simps)

lemma set_client_fields [simp]:
  "po_idle (set_client i c p) = po_idle p" "po_used (set_client i c p) = po_used p"
  "po_policy (set_client i c p) = po_policy p" "po_closed (set_client i c p) = po_closed p"
  "po_next_id (set_client i c p) = po_next_id p" "po_detached (set_client i c p) = po_detached p"
  by (simp_all add: set_client_def)

lemma client_conns_le: "size (client_conns c) \<le> client_permits c"
  by (cases c) simp_all

lemma conns_le_permits: "size (sum_list (map client_conns cs)) \<le> sum_list (map client_permits cs)"
  by (induction cs) (auto intro: add_mono client_conns_le)

text \<open>With nothing idle, a client that holds a permit and no connection leaves room for one more.\<close>

lemma room_to_dial:
  assumes "i < length cs" and "cs ! i = ClLooking"
  shows "size (sum_list (map client_conns cs)) + 1 \<le> sum_list (map client_permits cs)"
proof -
  have cs: "cs = take i cs @ ClLooking # drop (Suc i) cs" using id_take_nth_drop [OF assms(1)] assms(2) by simp
  have "size (sum_list (map client_conns (take i cs))) + size (sum_list (map client_conns (drop (Suc i) cs))) + 1
      \<le> sum_list (map client_permits (take i cs)) + sum_list (map client_permits (drop (Suc i) cs)) + 1"
    by (intro add_mono conns_le_permits le_refl)
  then show ?thesis by (subst (1 2) cs) simp
qed

lemma sum_no_conns [simp]: "sum_list (replicate n ({#} :: nat multiset)) = {#}"
  by (induction n) simp_all

lemma pool_inv_init: "pool_inv policy (new_pool policy n)"
  by (simp add: pool_inv_def new_pool_def held_conns_def permits_out_def map_replicate sum_list_replicate pool_cap_def)

text \<open>Steps that only touch what the invariant does not mention.\<close>

lemma pool_inv_same:
  assumes "pool_inv policy p" and "po_clients p' = po_clients p" and "po_idle p' = po_idle p"
    and "po_used p' = po_used p" and "po_policy p' = po_policy p" and "po_closed p' = po_closed p"
    and "po_next_id p' = po_next_id p" and "po_detached p' = po_detached p"
  shows "pool_inv policy p'"
  using assms by (simp add: pool_inv_def held_conns_def permits_out_def)

text \<open>A connection leaves the pool by being closed.\<close>

lemma pool_inv_close:
  assumes inv: "pool_inv policy p" and "held_conns p = add_mset c (held_conns p')" and "permits_out p' = permits_out p"
    and "po_used p' = po_used p" and "po_policy p' = po_policy p" and "po_closed p' = po_closed p"
    and "po_next_id p' = po_next_id p" and "po_detached p' = po_detached p"
  shows "pool_inv policy (close_conn c p')"
proof -
  have held: "held_conns (close_conn c p') = held_conns p'" by (simp add: close_conn_def held_conns_def)
  have "count (held_conns p') c = 0"
    using inv assms(2) unfolding pool_inv_def by (metis One_nat_def Suc_le_mono add_mset_add_single count_add_mset le_zero_eq)
  then have "c \<notin># held_conns p'" by (simp add: not_in_iff)
  moreover have "count (held_conns p') x \<le> count (held_conns p) x" for x by (simp add: assms(2))
  ultimately show ?thesis
    using inv assms unfolding pool_inv_def held
    by (auto simp: close_conn_def permits_out_def intro: order_trans)
qed

lemma wheel_cancel_fields [simp]:
  "po_clients (wheel_cancel k p) = po_clients p" "po_idle (wheel_cancel k p) = po_idle p"
  "po_used (wheel_cancel k p) = po_used p" "po_policy (wheel_cancel k p) = po_policy p"
  "po_closed (wheel_cancel k p) = po_closed p" "po_detached (wheel_cancel k p) = po_detached p" "po_next_id (wheel_cancel k p) = po_next_id p"
  "held_conns (wheel_cancel k p) = held_conns p"
  by (simp_all add: wheel_cancel_def held_conns_def split: option.split)

lemma take_idle_some:
  assumes "take_idle p = (Some c, p')"
  shows "held_conns p = add_mset c (held_conns p')" and "po_clients p' = po_clients p" and "po_used p' = po_used p"
    and "po_policy p' = po_policy p" and "po_closed p' = po_closed p" and "po_next_id p' = po_next_id p"
    and "po_detached p' = po_detached p"
proof -
  from assms have ne: "po_idle p \<noteq> []" by (auto simp: take_idle_def split: if_splits)
  with assms have c: "c = ic_conn (last (po_idle p))"
    and p': "p' = wheel_cancel (ic_reap (last (po_idle p))) (p\<lparr>po_idle := butlast (po_idle p)\<rparr>)"
    by (simp_all add: take_idle_def Let_def)
  have "mset (map ic_conn (butlast (po_idle p) @ [last (po_idle p)])) = add_mset c (mset (map ic_conn (butlast (po_idle p))))"
    by (simp add: c)
  then have "mset (map ic_conn (po_idle p)) = add_mset c (mset (map ic_conn (butlast (po_idle p))))"
    unfolding append_butlast_last_id [OF ne] .
  then show "held_conns p = add_mset c (held_conns p')" by (simp add: p' held_conns_def)
  show "po_clients p' = po_clients p" "po_used p' = po_used p" "po_policy p' = po_policy p" "po_closed p' = po_closed p"
    "po_next_id p' = po_next_id p" "po_detached p' = po_detached p" by (simp_all add: p')
qed

lemma pool_inv_sub:
  assumes inv: "pool_inv policy p" and sub: "held_conns p' \<subseteq># held_conns p" and "po_used p' = permits_out p'"
    and "permits_out p' \<le> pool_cap policy" and "po_policy p' = po_policy p" and "po_closed p' = po_closed p"
    and "po_next_id p' = po_next_id p" and "po_detached p' = po_detached p"
  shows "pool_inv policy p'"
proof -
  have "size (held_conns p') \<le> size (held_conns p)" by (rule size_mset_mono [OF sub])
  moreover have "count (held_conns p') c \<le> count (held_conns p) c" for c by (rule mset_subset_eq_count [OF sub])
  ultimately show ?thesis
    using inv assms mset_subset_eqD [OF sub] unfolding pool_inv_def by (auto intro: order_trans)
qed

lemma held_fields:
  "held_conns (p\<lparr>po_used := n\<rparr>) = held_conns p" "permits_out (p\<lparr>po_used := n\<rparr>) = permits_out p"
  "held_conns (p\<lparr>po_next_id := n\<rparr>) = held_conns p" "permits_out (p\<lparr>po_next_id := n\<rparr>) = permits_out p"
  "held_conns (p\<lparr>po_detached := d\<rparr>) = held_conns p" "permits_out (p\<lparr>po_detached := d\<rparr>) = permits_out p"
  "held_conns (p\<lparr>po_connects := n\<rparr>) = held_conns p" "permits_out (p\<lparr>po_connects := n\<rparr>) = permits_out p"
  "held_conns (close_conn c p) = held_conns p" "permits_out (close_conn c p) = permits_out p"
  by (simp_all add: held_conns_def permits_out_def close_conn_def)

lemma set_client_comm [simp]:
  "set_client i c (p\<lparr>po_used := n\<rparr>) = (set_client i c p)\<lparr>po_used := n\<rparr>"
  "set_client i c (p\<lparr>po_next_id := n\<rparr>) = (set_client i c p)\<lparr>po_next_id := n\<rparr>"
  "set_client i c (p\<lparr>po_connects := n\<rparr>) = (set_client i c p)\<lparr>po_connects := n\<rparr>"
  "set_client i c (close_conn d p) = close_conn d (set_client i c p)"
  by (simp_all add: set_client_def close_conn_def)

lemma pool_inv_used: "pool_inv policy p \<Longrightarrow> po_used p = permits_out p \<and> permits_out p \<le> pool_cap policy \<and> po_policy p = policy"
  by (simp add: pool_inv_def)

lemma inv_permit:
  assumes inv: "pool_inv policy p" and i: "i < length (po_clients p)" "po_clients p ! i = ClNone"
    and room: "po_used p < pool_cap (po_policy p)"
  shows "pool_inv policy (set_client i ClLooking (p\<lparr>po_used := po_used p + 1\<rparr>))"
  using inv permits_update [OF i(1), of ClLooking] conns_update [OF i(1), of ClLooking] i(2) room pool_inv_used [OF inv]
  by (intro pool_inv_sub [OF inv]) (simp_all add: held_fields)

lemma inv_drop_permit:
  assumes inv: "pool_inv policy p" and i: "i < length (po_clients p)" "po_clients p ! i \<noteq> ClNone"
  shows "pool_inv policy (drop_permit i p)"
proof -
  have one: "client_permits (po_clients p ! i) = 1" using i(2) by (cases "po_clients p ! i") simp_all
  have "held_conns (set_client i ClNone p) \<subseteq># held_conns p"
    using conns_update [OF i(1), of ClNone] by (metis client_conns.simps(4) mset_subset_eq_add_left add_0_right)
  with inv one permits_update [OF i(1), of ClNone] pool_inv_used [OF inv] show ?thesis
    unfolding drop_permit_def by (intro pool_inv_sub [OF inv]) (simp_all add: held_fields)
qed

lemma inv_dial_done:
  assumes inv: "pool_inv policy p" and i: "i < length (po_clients p)" "po_clients p ! i = ClDialling c"
  shows "pool_inv policy (dial_done i c e p)"
proof -
  have counted: "pool_inv policy (p\<lparr>po_connects := n\<rparr>)" for n by (rule pool_inv_same [OF inv]) simp_all
  have leased: "pool_inv policy (set_client i (ClLeased c) q)" if q: "pool_inv policy q" "po_clients q = po_clients p" for q
  proof -
    have i': "i < length (po_clients q)" "po_clients q ! i = ClDialling c" using i q(2) by simp_all
    show ?thesis
      using permits_update [OF i'(1), of "ClLeased c"] conns_update [OF i'(1), of "ClLeased c"] i'(2) pool_inv_used [OF q(1)]
      by (intro pool_inv_sub [OF q(1)]) simp_all
  qed
  have dropped: "pool_inv policy (drop_permit i q)" if q: "pool_inv policy q" "po_clients q = po_clients p" for q
    using i q by (intro inv_drop_permit) simp_all
  have "count (held_conns p) c \<le> 1" using inv by (simp add: pool_inv_def)
  moreover have gone: "held_conns p = add_mset c (held_conns (set_client i ClNone p))"
    using conns_update [OF i(1), of ClNone] i(2) by simp
  moreover have none: "held_conns (drop_permit i p) = held_conns (set_client i ClNone p)"
    by (simp add: drop_permit_def held_fields)
  ultimately have "count (held_conns (drop_permit i p)) c = 0" by simp
  then have free: "c \<notin># held_conns (drop_permit i p)" unfolding count_eq_zero_iff .
  have "c \<in># held_conns p" unfolding gone by simp
  then have "c < po_next_id p" using inv by (auto simp: pool_inv_def)
  then have "c < po_next_id (drop_permit i p)" by (simp add: drop_permit_def)
  with dropped [OF inv refl] free have left: "pool_inv policy ((drop_permit i p)\<lparr>po_detached := c # po_detached p\<rparr>)"
    by (auto simp: pool_inv_def held_fields drop_permit_def)
  show ?thesis using leased [OF inv refl] dropped [OF inv refl] leased [OF counted] dropped [OF counted] left
    by (cases e) (simp_all add: dial_done_def)
qed

lemma inv_look:
  assumes inv: "pool_inv policy p" and i: "i < length (po_clients p)" "po_clients p ! i = ClLooking"
  shows "pool_inv policy (acquire_turn i p)"
proof -
  obtain r p' where t: "take_idle p = (r, p')" by (cases "take_idle p")
  show ?thesis
  proof (cases r)
    case None
    with t have idle: "po_idle p = []" and p': "p' = p" by (auto simp: take_idle_def Let_def split: if_splits)
    let ?q = "set_client i (ClDialling (po_next_id p)) p"
    have held: "held_conns ?q = add_mset (po_next_id p) (held_conns p)" and per: "permits_out ?q = permits_out p"
      using conns_update [OF i(1), of "ClDialling (po_next_id p)"] permits_update [OF i(1), of "ClDialling (po_next_id p)"] i(2)
      by simp_all
    have "size (held_conns p) + 1 \<le> permits_out p"
      using room_to_dial [OF i] idle by (simp add: held_conns_def permits_out_def)
    moreover have fresh: "po_next_id p \<notin># held_conns p" "po_next_id p \<notin> set (po_closed p)"
      using inv by (auto simp: pool_inv_def)
    ultimately have "pool_inv policy (?q\<lparr>po_next_id := po_next_id p + 1\<rparr>)"
      using inv by (auto simp: pool_inv_def held_fields held per not_in_iff less_Suc_eq)
    then show ?thesis by (simp add: acquire_turn_def t None p')
  next
    case (Some c)
    note f = take_idle_some [OF t [unfolded Some]]
    have per: "permits_out p' = permits_out p" by (simp add: permits_out_def f(2))
    show ?thesis
    proof (cases "c \<in> set (po_poisoned p')")
      case True
      with pool_inv_close [OF inv f(1) per f(3-7)] show ?thesis by (simp add: acquire_turn_def t Some)
    next
      case False
      have i': "i < length (po_clients p')" "po_clients p' ! i = ClLooking" using i f(2) by simp_all
      have "pool_inv policy (set_client i (ClLeased c) p')"
        using permits_update [OF i'(1), of "ClLeased c"] conns_update [OF i'(1), of "ClLeased c"] i'(2) f per pool_inv_used [OF inv]
        by (intro pool_inv_sub [OF inv]) simp_all
      with False show ?thesis by (simp add: acquire_turn_def t Some)
    qed
  qed
qed

lemma inv_give_back:
  assumes inv: "pool_inv policy p" and i: "i < length (po_clients p)" "po_clients p ! i = ClLeased c"
  shows "pool_inv policy (release_check i c p)"
proof -
  let ?q = "set_client i ClDropping p"
  have held: "held_conns p = add_mset c (held_conns ?q)" and per: "permits_out ?q = permits_out p"
    using conns_update [OF i(1), of ClDropping] permits_update [OF i(1), of ClDropping] i(2) by simp_all
  show ?thesis
  proof (cases "c \<in> set (po_poisoned p) \<or> po_cancelled p")
    case True
    with pool_inv_close [OF inv held per] show ?thesis by (auto simp: release_check_def)
  next
    case False
    obtain k p' where w: "wheel_schedule c p = (k, p')" by (cases "wheel_schedule c p")
    have p': "po_clients p' = po_clients p" "po_idle p' = po_idle p" "po_used p' = po_used p" "po_policy p' = po_policy p"
      "po_closed p' = po_closed p" "po_next_id p' = po_next_id p" "po_detached p' = po_detached p"
      using w by (auto simp: wheel_schedule_def Let_def)
    have inv': "pool_inv policy p'" by (rule pool_inv_same [OF inv p'])
    have i': "i < length (po_clients p')" "po_clients p' ! i = ClLeased c" using i p' by simp_all
    have "pool_inv policy (set_client i (ClReturning c k) p')"
      using permits_update [OF i'(1), of "ClReturning c k"] conns_update [OF i'(1), of "ClReturning c k"] i'(2) pool_inv_used [OF inv']
      by (intro pool_inv_sub [OF inv']) simp_all
    with False w show ?thesis by (simp add: release_check_def)
  qed
qed

lemma inv_push:
  assumes inv: "pool_inv policy p" and i: "i < length (po_clients p)" "po_clients p ! i = ClReturning c k"
  shows "pool_inv policy (release_push i c k p)"
proof -
  let ?q = "set_client i ClDropping p"
  have held: "held_conns p = add_mset c (held_conns ?q)" and per: "permits_out ?q = permits_out p"
    using conns_update [OF i(1), of ClDropping] permits_update [OF i(1), of ClDropping] i(2) by simp_all
  have "held_conns (release_push i c k p) = add_mset c (held_conns ?q)" "permits_out (release_push i c k p) = permits_out ?q"
    by (simp_all add: release_push_def held_conns_def permits_out_def set_client_def)
  with held per pool_inv_used [OF inv] show ?thesis
    by (intro pool_inv_sub [OF inv]) (simp_all add: release_push_def)
qed

lemma add_mset_remove_at: "i < length xs \<Longrightarrow> add_mset (xs ! i) (mset (remove_at i xs)) = mset xs"
proof -
  assume "i < length xs"
  then have "mset xs = mset (take i xs @ xs ! i # drop (Suc i) xs)" by (simp only: id_take_nth_drop [symmetric])
  then show ?thesis by (simp add: remove_at_def)
qed

lemma inv_reap: "pool_inv policy p \<Longrightarrow> pool_inv policy (reap c p)"
proof -
  assume inv: "pool_inv policy p"
  show ?thesis
  proof (cases "find_index (\<lambda>e. ic_conn e = c) (po_idle p)")
    case (Some i)
    from find_index_bound [OF Some] have i: "i < length (po_idle p)" by simp
    let ?q = "p\<lparr>po_idle := remove_at i (po_idle p)\<rparr>"
    have "add_mset (po_idle p ! i) (mset (remove_at i (po_idle p))) = mset (po_idle p)"
      by (rule add_mset_remove_at [OF i])
    then have "mset (map ic_conn (po_idle p)) = add_mset (ic_conn (po_idle p ! i)) (mset (map ic_conn (remove_at i (po_idle p))))"
      by (metis image_mset_add_mset mset_map)
    then have "held_conns p = add_mset (ic_conn (po_idle p ! i)) (held_conns ?q)" by (simp add: held_conns_def)
    from pool_inv_close [OF inv this] show ?thesis by (simp add: reap_def Some permits_out_def)
  next
    case None
    show ?thesis unfolding reap_def None by (simp add: inv)
  qed
qed

lemma inv_drain_fold:
  "pool_inv policy (q\<lparr>po_idle := es\<rparr>) \<Longrightarrow> po_idle q = [] \<Longrightarrow>
     pool_inv policy (fold (\<lambda>e q. close_conn (ic_conn e) (wheel_cancel (ic_reap e) q)) es q)"
proof (induction es arbitrary: q)
  case Nil
  then have "q\<lparr>po_idle := []\<rparr> = q" by (cases q) simp
  with Nil show ?case by simp
next
  case (Cons e es)
  let ?q = "close_conn (ic_conn e) (wheel_cancel (ic_reap e) q)"
  let ?m = "(wheel_cancel (ic_reap e) q)\<lparr>po_idle := es\<rparr>"
  have "held_conns (q\<lparr>po_idle := e # es\<rparr>) = add_mset (ic_conn e) (held_conns ?m)"
    by (simp add: held_conns_def)
  from pool_inv_close [OF Cons.prems(1) this] have "pool_inv policy (close_conn (ic_conn e) ?m)"
    by (simp add: permits_out_def)
  also have "close_conn (ic_conn e) ?m = ?q\<lparr>po_idle := es\<rparr>" by (simp add: close_conn_def)
  finally have "pool_inv policy (?q\<lparr>po_idle := es\<rparr>)" .
  moreover have "po_idle ?q = []" using Cons.prems(2) by (simp add: close_conn_def)
  ultimately show ?case unfolding fold_Cons comp_apply by (rule Cons.IH)
qed

lemma inv_drain: "pool_inv policy p \<Longrightarrow> pool_inv policy (shutdown_drain p)"
  unfolding shutdown_drain_def by (rule inv_drain_fold) simp_all

lemma pool_step_inv: "pool_step p p' \<Longrightarrow> pool_inv policy p \<Longrightarrow> pool_inv policy p'"
proof (induction rule: pool_step.induct)
  case (permit i p)
  then show ?case by (intro inv_permit)
next
  case (look i p)
  then show ?case by (intro inv_look)
next
  case (dialled i p c e)
  then show ?case by (intro inv_dial_done)
next
  case (give_back i p c)
  then show ?case by (intro inv_give_back)
next
  case (pushed i p c k)
  then show ?case by (intro inv_push)
next
  case (dropped i p)
  then show ?case by (intro inv_drop_permit) simp_all
next
  case (poison p c)
  then show ?case by (rule pool_inv_same) simp_all
next
  case (fire k p)
  then show ?case unfolding wheel_fire_def by (intro pool_inv_same [OF fire.prems]) simp_all
next
  case (reaped p xs c ys)
  from reaped.prems have "pool_inv policy (p\<lparr>po_firing := xs @ ys\<rparr>)" by (rule pool_inv_same) simp_all
  then show ?case by (rule inv_reap)
next
  case (dial_over p xs c ys)
  then show ?case by (auto simp: pool_inv_def held_fields)
next
  case (stop p)
  then show ?case unfolding shutdown_cancel_def by (intro pool_inv_same [OF stop.prems]) simp_all
next
  case (stop_permits p)
  then show ?case unfolding shutdown_permits_def by (intro pool_inv_same [OF stop_permits.prems]) simp_all
next
  case (drain p)
  then show ?case by (intro inv_drain)
qed

lemma pool_reachable_inv: "pool_reachable policy clients p \<Longrightarrow> pool_inv policy p"
  by (induction rule: pool_reachable.induct) (auto intro: pool_inv_init pool_step_inv)

lemma count_conns: "count (sum_list (map client_conns cs)) a = length (filter (\<lambda>c. client_conns c = {#a#}) cs)"
proof (induction cs)
  case (Cons c cs)
  then show ?case by (cases c) auto
qed simp

lemma size_conns: "size (sum_list (map client_conns cs)) = length (filter (\<lambda>c. client_conns c \<noteq> {#}) cs)"
proof (induction cs)
  case (Cons c cs)
  then show ?case by (cases c) auto
qed simp

lemma filter_two: "i < length xs \<Longrightarrow> j < length xs \<Longrightarrow> i \<noteq> j \<Longrightarrow> P (xs ! i) \<Longrightarrow> P (xs ! j) \<Longrightarrow> 2 \<le> length (filter P xs)"
proof -
  assume "i < length xs" "j < length xs" "i \<noteq> j" "P (xs ! i)" "P (xs ! j)"
  then have "card {i, j} \<le> card {k. k < length xs \<and> P (xs ! k)}" by (intro card_mono) auto
  with \<open>i \<noteq> j\<close> show ?thesis by (simp add: length_filter_conv_card)
qed

text \<open>
  C4.  Whatever the interleaving of clients, reaper, poisoning and shutdown, the connections a pool
  holds, leases or dials for a waiting client are never more than its size; a leased connection is
  leased by one client only and is not in the idle list; and its token is cancelled exactly when
  the session was shut down, which cancels the leased and the idle ones alike.  A dial left running
  by a caller that timed out or was cancelled never becomes a connection of the pool.
\<close>

theorem pool_leases_exclusive:
  assumes "pool_reachable policy clients p"
  shows "length (po_idle p) + length (filter (\<lambda>c. client_conns c \<noteq> {#}) (po_clients p)) \<le> max 1 (pp_max_size policy)
    \<and> (\<forall>i j a. i < length (po_clients p) \<and> j < length (po_clients p) \<and> i \<noteq> j \<and> po_clients p ! i = ClLeased a
        \<longrightarrow> po_clients p ! j \<noteq> ClLeased a)
    \<and> (\<forall>a. ClLeased a \<in> set (po_clients p) \<longrightarrow> a \<notin> ic_conn ` set (po_idle p))
    \<and> (\<forall>a. ClLeased a \<in> set (po_clients p) \<or> a \<in> ic_conn ` set (po_idle p)
        \<longrightarrow> (conn_cancelled p a \<longleftrightarrow> po_cancelled p) \<and> a \<notin> set (po_detached p))"
proof (intro conjI allI impI)
  note inv = pool_reachable_inv [OF assms, unfolded pool_inv_def]
  have once: "count (held_conns p) a \<le> 1" for a using inv by blast
  show "length (po_idle p) + length (filter (\<lambda>c. client_conns c \<noteq> {#}) (po_clients p)) \<le> max 1 (pp_max_size policy)"
    using inv by (simp add: held_conns_def pool_cap_def size_conns)
  show "po_clients p ! j \<noteq> ClLeased a"
    if "i < length (po_clients p) \<and> j < length (po_clients p) \<and> i \<noteq> j \<and> po_clients p ! i = ClLeased a" for i j a
  proof
    assume "po_clients p ! j = ClLeased a"
    with that have "2 \<le> length (filter (\<lambda>c. client_conns c = {#a#}) (po_clients p))"
      by (intro filter_two [of i _ j]) auto
    with once [of a] show False by (simp add: held_conns_def count_conns)
  qed
  have leased: "0 < length (filter (\<lambda>c. client_conns c = {#a#}) (po_clients p))" if "ClLeased a \<in> set (po_clients p)" for a
    using that by (intro length_pos_if_in_set [of "ClLeased a"]) simp
  show "a \<notin> ic_conn ` set (po_idle p)" if "ClLeased a \<in> set (po_clients p)" for a
  proof -
    from once [of a] have "length (filter (\<lambda>c. client_conns c = {#a#}) (po_clients p)) + count (mset (map ic_conn (po_idle p))) a \<le> 1"
      by (simp add: held_conns_def count_conns)
    with leased [OF that] have "count (mset (map ic_conn (po_idle p))) a = 0" by linarith
    then show ?thesis by (simp add: count_eq_zero_iff)
  qed
  fix a assume a: "ClLeased a \<in> set (po_clients p) \<or> a \<in> ic_conn ` set (po_idle p)"
  have "0 < count (held_conns p) a"
    using a leased [of a] by (auto simp: held_conns_def count_conns)
  then have held: "a \<in># held_conns p" by (simp only: count_greater_zero_iff)
  with inv show "conn_cancelled p a \<longleftrightarrow> po_cancelled p" by (auto simp: conn_cancelled_def)
  from held inv show "a \<notin> set (po_detached p)" by blast
qed

text \<open>Two clients over a pool of one: the second waits for the permit and gets the same connection.\<close>

definition sample_pool :: "pool" where
  "sample_pool =
     (let p1 = set_client 0 ClLooking ((new_pool default_pool_policy 2)\<lparr>po_used := 1\<rparr>)
      in dial_done 0 0 DialConnected (acquire_turn 0 p1))"

lemma sample_pool_reachable: "pool_reachable default_pool_policy 2 sample_pool"
proof -
  let ?p0 = "new_pool default_pool_policy 2"
  have "pool_step ?p0 (set_client 0 ClLooking (?p0\<lparr>po_used := po_used ?p0 + 1\<rparr>))"
    by (rule permit) (simp_all add: new_pool_def pool_cap_def default_pool_policy_def)
  then have r1: "pool_reachable default_pool_policy 2 (set_client 0 ClLooking (?p0\<lparr>po_used := 1\<rparr>))"
    using pool_next [OF pool_init] by (simp add: new_pool_def)
  let ?p1 = "set_client 0 ClLooking (?p0\<lparr>po_used := 1\<rparr>)"
  have "pool_step ?p1 (acquire_turn 0 ?p1)" by (rule look) (simp_all add: new_pool_def set_client_def)
  with r1 have r2: "pool_reachable default_pool_policy 2 (acquire_turn 0 ?p1)" by (rule pool_next)
  have "pool_step (acquire_turn 0 ?p1) (dial_done 0 0 DialConnected (acquire_turn 0 ?p1))"
    by (rule dialled) (simp_all add: new_pool_def set_client_def acquire_turn_def take_idle_def)
  with r2 show ?thesis unfolding sample_pool_def Let_def by (rule pool_next)
qed

lemma pool_leases_exclusive_witness:
  "po_clients (shutdown_cancel sample_pool) = [ClLeased 0, ClNone] \<and> conn_cancelled (shutdown_cancel sample_pool) 0
   \<and> \<not> conn_cancelled sample_pool 0"
proof -
  have c: "po_clients sample_pool = [ClLeased 0, ClNone]"
    by (simp add: sample_pool_def set_client_def new_pool_def acquire_turn_def take_idle_def dial_done_def numeral_2_eq_2)
  have n: "\<not> po_cancelled sample_pool"
    by (simp add: sample_pool_def set_client_def new_pool_def acquire_turn_def take_idle_def dial_done_def)
  have "pool_reachable default_pool_policy 2 (shutdown_cancel sample_pool)"
    by (rule pool_next [OF sample_pool_reachable stop])
  from pool_leases_exclusive [OF this] pool_leases_exclusive [OF sample_pool_reachable] c n
  show ?thesis by (simp add: shutdown_cancel_def)
qed

section \<open>A connection after a fatal error\<close>

text \<open>A run of one connection's task: calls in order, the cancellation, the last handle dropped.\<close>

datatype conn_event = EvCall bool conn_cmd driver_outcome | EvConnCancel | EvHandlesDropped

fun conn_event_step :: "conn_event \<Rightarrow> conn_task \<Rightarrow> (db_error + unit) option \<times> conn_task" where
  "conn_event_step (EvCall mid cmd outcome) t = (case conn_call mid cmd outcome t of (r, t') \<Rightarrow> (Some r, t'))"
| "conn_event_step EvConnCancel t = (None, task_cancel t)"
| "conn_event_step EvHandlesDropped t = (None, if ct_alive t then task_exit t else t)"

fun conn_run_events :: "conn_event list \<Rightarrow> conn_task \<Rightarrow> conn_task" where
  "conn_run_events [] t = t"
| "conn_run_events (e # es) t = conn_run_events es (snd (conn_event_step e t))"

definition conn_ok :: "conn_task \<Rightarrow> bool" where
  "conn_ok t = (ct_closes t = (if ct_alive t then 0 else 1) \<and> (ct_poisoned t \<or> ct_cancelled t \<longrightarrow> \<not> ct_alive t))"

lemma conn_step_ok: "conn_ok t \<Longrightarrow> conn_ok (snd (conn_event_step e t))"
  by (cases e) (auto simp: conn_ok_def conn_call_def task_serve_def task_cancel_def task_exit_def Let_def
      split: prod.splits if_splits)

lemma conn_events_ok: "conn_ok t \<Longrightarrow> conn_ok (conn_run_events es t)"
  by (induction es arbitrary: t) (simp_all add: conn_step_ok)

lemma dead_stays:
  "\<not> ct_alive t \<Longrightarrow> conn_ok t \<Longrightarrow> ct_driver (conn_run_events es t) = ct_driver t \<and> ct_closes (conn_run_events es t) = 1"
proof (induction es arbitrary: t)
  case (Cons e es)
  have "\<not> ct_alive (snd (conn_event_step e t)) \<and> ct_driver (snd (conn_event_step e t)) = ct_driver t"
    using Cons.prems(1) by (cases e) (auto simp: conn_call_def task_cancel_def Let_def split: prod.splits)
  with Cons.IH [OF _ conn_step_ok [OF Cons.prems(2)], of e] show ?case by simp
qed (simp add: conn_ok_def)

text \<open>
  A driver error that is not recoverable, a panic included, ends its connection: it is
  reported to the caller, the driver's connection is closed exactly once, and no later command
  reaches the driver whatever the handles do.
\<close>

theorem fatal_error_ends_connection:
  assumes "t = conn_run_events es spawn_task" and "ct_alive t" and "guarded outcome = Inl e" and "\<not> is_recoverable e"
    and "conn_call False cmd outcome t = (r, t')"
  shows "r = Inl e \<and> ct_poisoned t' \<and> ct_driver (conn_run_events es' t') = ct_driver t @ [cmd]
    \<and> ct_closes (conn_run_events es' t') = 1"
proof -
  have ok: "conn_ok t" unfolding assms(1) by (rule conn_events_ok) (simp add: conn_ok_def spawn_task_def)
  with assms(2) have "\<not> ct_poisoned t" "\<not> ct_cancelled t" by (auto simp: conn_ok_def)
  with assms(2-5) have r: "r = Inl e"
    and t': "t' = task_exit (t\<lparr>ct_driver := ct_driver t @ [cmd], ct_poisoned := True\<rparr>)"
    by (auto simp: conn_call_def task_serve_def is_fatal_def Let_def)
  have "conn_ok t'" using ok assms(2) by (simp add: t' task_exit_def conn_ok_def)
  with dead_stays [of t' es'] r show ?thesis by (simp add: t' task_exit_def)
qed

lemma fatal_error_ends_connection_witness:
  "ct_driver (conn_run_events [EvCall False CmdPing (DrvReturned (Inr ()))]
     (snd (conn_call False CmdPing (DrvPanicked ''boom'') spawn_task))) = [CmdPing]"
proof -
  let ?c = "conn_call False CmdPing (DrvPanicked ''boom'') spawn_task"
  have "?c = (fst ?c, snd ?c)" by simp
  from fatal_error_ends_connection [of spawn_task "[]" "DrvPanicked ''boom''" "EDriverPanic ''boom''" CmdPing "fst ?c" "snd ?c"
      "[EvCall False CmdPing (DrvReturned (Inr ()))]", OF _ _ _ _ this]
  show ?thesis by (simp add: spawn_task_def)
qed

end
