(* ===== verification/Core_Api.thy ===== *)
theory Core_Api
  imports Safety_Props Session_Pool
begin

text \<open>
  The front of the core library: \<open>CoreApi\<close> (\<open>crates/datagrep-core/src/api.rs\<close>) over the
  session registry (\<open>SessionRegistry\<close> in \<open>session.rs\<close>), the driver registry (\<open>registry.rs\<close>) and
  the configuration types of \<open>crates/datagrep-api/src/config.rs\<close>.

  A session is represented by its safety gate; its pool is \<open>Session_Pool\<close>.  A registered driver
  is the language of its capabilities.  The seed of a new gate is an argument.  Two of the
  calls take more than one lock; each of their critical sections is a definition of its own and
  the call composes them, so that other threads can be placed between.
\<close>

section \<open>Configuration and profiles\<close>

datatype config_value = CfgStr string | CfgNum f64 | CfgBool bool

record connection_config =
  cc_driver :: string
  cc_values :: "string \<rightharpoonup> config_value"

record profile =
  pr_id :: nat
  pr_name :: string
  pr_driver :: string
  pr_config :: connection_config
  pr_read_only :: bool
  pr_safety :: safety_level

definition invalid_value :: "string \<Rightarrow> string \<Rightarrow> db_error" where
  "invalid_value key reason = EConfig (''invalid value for `'' @ key @ ''`: '' @ reason)"

definition unknown_profile :: "nat \<Rightarrow> db_error" where
  "unknown_profile pid = invalid_value ''profile'' (''no profile with id '' @ show_nat pid)"

section \<open>The driver registry\<close>

text \<open>An entry's driver is built at its first use and kept.\<close>

record driver_entry =
  de_language :: language_id
  de_built :: bool

type_synonym driver_registry = "string \<rightharpoonup> driver_entry"

definition register_driver :: "string \<Rightarrow> language_id \<Rightarrow> driver_registry \<Rightarrow> driver_registry" where
  "register_driver pid lang ds = ds(pid \<mapsto> \<lparr>de_language = lang, de_built = False\<rparr>)"

definition driver_get :: "string \<Rightarrow> driver_registry \<Rightarrow> language_id option \<times> driver_registry" where
  "driver_get pid ds =
     (case ds pid of None \<Rightarrow> (None, ds) | Some e \<Rightarrow> (Some (de_language e), ds(pid \<mapsto> e\<lparr>de_built := True\<rparr>)))"

section \<open>The core\<close>

record core =
  co_drivers :: driver_registry
  co_profiles :: "nat \<rightharpoonup> profile"
  co_sessions :: "nat \<rightharpoonup> gate"
  co_next :: nat
  co_cancelled :: bool

definition new_core :: core where
  "new_core = \<lparr>co_drivers = Map.empty, co_profiles = Map.empty, co_sessions = Map.empty, co_next = 1, co_cancelled = False\<rparr>"

definition add_profile :: "string \<Rightarrow> connection_config \<Rightarrow> core \<Rightarrow> nat \<times> core" where
  "add_profile name config c =
     (let pid = co_next c;
          pr = \<lparr>pr_id = pid, pr_name = name, pr_driver = cc_driver config, pr_config = config,
                pr_read_only = False, pr_safety = Silent\<rparr>
      in (pid, c\<lparr>co_next := pid + 1, co_profiles := (co_profiles c)(pid \<mapsto> pr)\<rparr>))"

definition add_profile_full :: "profile \<Rightarrow> core \<Rightarrow> nat \<times> core" where
  "add_profile_full pr c =
     (let pid = co_next c
      in (pid, c\<lparr>co_next := pid + 1, co_profiles := (co_profiles c)(pid \<mapsto> pr\<lparr>pr_id := pid\<rparr>)\<rparr>))"

definition profile_database :: "connection_config \<Rightarrow> string option" where
  "profile_database config =
     (case cc_values config ''database'' of
        Some (CfgStr db) \<Rightarrow> if db = [] then None else Some db
      | _ \<Rightarrow> None)"

text \<open>\<open>SessionRegistry::open\<close>, on a copy of the profile.\<close>

definition registry_open :: "nat \<Rightarrow> nat \<Rightarrow> profile \<Rightarrow> core \<Rightarrow> (db_error + gate) \<times> core" where
  "registry_open seed pid pr c =
     (case co_sessions c pid of
        Some g \<Rightarrow> (Inr g, c)
      | None \<Rightarrow>
          (case driver_get (pr_driver pr) (co_drivers c) of
             (None, ds) \<Rightarrow> (Inl (invalid_value ''driver'' (''no driver registered as `'' @ pr_driver pr @ ''`'')), c)
           | (Some lang, ds) \<Rightarrow>
               (let g = new_gate (pr_name pr) lang (profile_database (pr_config pr)) seed (pr_safety pr)
                in (Inr g, c\<lparr>co_drivers := ds, co_sessions := (co_sessions c)(pid \<mapsto> g)\<rparr>))))"

definition registry_close :: "nat \<Rightarrow> core \<Rightarrow> core" where
  "registry_close pid c = c\<lparr>co_sessions := (co_sessions c)(pid := None)\<rparr>"

definition registry_shutdown :: "core \<Rightarrow> core" where
  "registry_shutdown c = c\<lparr>co_sessions := Map.empty, co_cancelled := True\<rparr>"

definition core_session :: "nat \<Rightarrow> nat \<Rightarrow> core \<Rightarrow> (db_error + gate) \<times> core" where
  "core_session seed pid c =
     (case co_profiles c pid of
        None \<Rightarrow> (Inl (unknown_profile pid), c)
      | Some pr \<Rightarrow> registry_open seed pid pr c)"

definition safety_of :: "nat \<Rightarrow> core \<Rightarrow> safety_level option" where
  "safety_of pid c = map_option pr_safety (co_profiles c pid)"

text \<open>\<open>set_safety\<close>: the profile under its lock, then the gate of an open session.\<close>

definition set_safety_profile :: "nat \<Rightarrow> safety_level \<Rightarrow> core \<Rightarrow> (db_error + unit) \<times> core" where
  "set_safety_profile pid level c =
     (case co_profiles c pid of
        None \<Rightarrow> (Inl (unknown_profile pid), c)
      | Some pr \<Rightarrow> (Inr (), c\<lparr>co_profiles := (co_profiles c)(pid \<mapsto> pr\<lparr>pr_safety := level\<rparr>)\<rparr>))"

definition set_safety_gate :: "nat \<Rightarrow> safety_level \<Rightarrow> core \<Rightarrow> core" where
  "set_safety_gate pid level c =
     (case co_sessions c pid of
        None \<Rightarrow> c
      | Some g \<Rightarrow> c\<lparr>co_sessions := (co_sessions c)(pid \<mapsto> set_level level g)\<rparr>)"

definition set_safety :: "nat \<Rightarrow> safety_level \<Rightarrow> core \<Rightarrow> (db_error + unit) \<times> core" where
  "set_safety pid level c =
     (case set_safety_profile pid level c of
        (Inl e, c') \<Rightarrow> (Inl e, c')
      | (Inr _, c') \<Rightarrow> (Inr (), set_safety_gate pid level c'))"

text \<open>A call that works on the gate of a profile's session, opening it first.\<close>

definition on_gate ::
  "(gate \<Rightarrow> ((db_error + 'a) \<times> gate) option) \<Rightarrow> nat \<Rightarrow> nat \<Rightarrow> core \<Rightarrow> ((db_error + 'a) \<times> core) option" where
  "on_gate f seed pid c =
     (case core_session seed pid c of
        (Inl e, c') \<Rightarrow> Some (Inl e, c')
      | (Inr g, c') \<Rightarrow>
          (case f g of
             None \<Rightarrow> None
           | Some (r, g') \<Rightarrow> Some (r, c'\<lparr>co_sessions := (co_sessions c')(pid \<mapsto> g')\<rparr>)))"

definition evaluate_safety :: "nat \<Rightarrow> string \<Rightarrow> nat \<Rightarrow> nat \<Rightarrow> core \<Rightarrow> ((db_error + safety_decision) \<times> core) option" where
  "evaluate_safety now sql = on_gate (\<lambda>g. map_option (\<lambda>(d, g'). (Inr d, g')) (plan now sql g))"

definition satisfy_safety :: "nat \<Rightarrow> string \<Rightarrow> attestation \<Rightarrow> nat \<Rightarrow> nat \<Rightarrow> core \<Rightarrow> ((db_error + unit) \<times> core) option" where
  "satisfy_safety now challenge att = on_gate (\<lambda>g. Some (satisfy now challenge att g))"

text \<open>The admission \<open>execute\<close> asks for on a connection of the session.\<close>

definition core_admit :: "debug_printers \<Rightarrow> nat \<Rightarrow> request \<Rightarrow> nat \<Rightarrow> nat \<Rightarrow> core \<Rightarrow> ((db_error + unit) \<times> core) option" where
  "core_admit dbg now req = on_gate (admit dbg now req)"

section \<open>One call at a time, the levels agree\<close>

lemma prune_level [simp]: "gate_level (prune now g) = gate_level g"
  by (simp add: prune_def)

lemma mint_level: "mint now d bs g = (c, g') \<Longrightarrow> gate_level g' = gate_level g"
  by (auto simp: mint_def Let_def)

lemma plan_level: "plan now sql g = Some (d, g') \<Longrightarrow> gate_level g' = gate_level g"
  by (auto simp: plan_def Let_def mint_level split: option.splits prod.splits if_splits)

lemma satisfy_level: "satisfy now c att g = (r, g') \<Longrightarrow> gate_level g' = gate_level g"
  by (auto simp: satisfy_def Let_def split: option.splits if_splits)

lemma admit_level: "admit dbg now req g = Some (r, g') \<Longrightarrow> gate_level g' = gate_level g"
  by (auto simp: admit_def Let_def mint_level split: option.splits prod.splits if_splits)

definition levels_agree :: "core \<Rightarrow> bool" where
  "levels_agree c =
     ((\<forall>pid pr. co_profiles c pid = Some pr \<longrightarrow> pid < co_next c)
      \<and> (\<forall>pid g. co_sessions c pid = Some g \<longrightarrow> safety_of pid c = Some (gate_level g)))"

inductive core_run :: "core \<Rightarrow> bool" where
  run_core_new: "core_run new_core"
| run_register: "core_run c \<Longrightarrow> core_run (c\<lparr>co_drivers := register_driver did lang (co_drivers c)\<rparr>)"
| run_add: "core_run c \<Longrightarrow> core_run (snd (add_profile name config c))"
| run_add_full: "core_run c \<Longrightarrow> core_run (snd (add_profile_full pr c))"
| run_session: "core_run c \<Longrightarrow> core_run (snd (core_session seed pid c))"
| run_set_safety: "core_run c \<Longrightarrow> core_run (snd (set_safety pid level c))"
| run_disconnect: "core_run c \<Longrightarrow> core_run (registry_close pid c)"
| run_shutdown: "core_run c \<Longrightarrow> core_run (registry_shutdown c)"
| run_evaluate: "core_run c \<Longrightarrow> evaluate_safety now sql seed pid c = Some (r, c') \<Longrightarrow> core_run c'"
| run_satisfy: "core_run c \<Longrightarrow> satisfy_safety now ch att seed pid c = Some (r', c') \<Longrightarrow> core_run c'"
| run_admit: "core_run c \<Longrightarrow> core_admit dbg now req seed pid c = Some (r', c') \<Longrightarrow> core_run c'"

lemma agree_add:
  assumes "levels_agree c" and "pr_id pr = co_next c"
  shows "levels_agree (c\<lparr>co_next := co_next c + 1, co_profiles := (co_profiles c)(co_next c \<mapsto> pr)\<rparr>)"
  using assms by (fastforce simp: levels_agree_def safety_of_def split: if_splits)

lemma agree_session:
  assumes "levels_agree c" and "core_session seed pid c = (r, c')"
  shows "levels_agree c'" and "r = Inr g \<Longrightarrow> co_sessions c' pid = Some g"
  using assms
  by (auto simp: core_session_def registry_open_def driver_get_def levels_agree_def safety_of_def new_gate_def Let_def
      split: option.splits if_splits)

lemma agree_set_safety: "levels_agree c \<Longrightarrow> levels_agree (snd (set_safety pid level c))"
proof (cases "co_profiles c pid")
  case (Some pr)
  assume "levels_agree c"
  with Some show ?thesis
    by (auto simp: set_safety_def set_safety_profile_def set_safety_gate_def levels_agree_def safety_of_def set_level_def
        split: option.splits if_splits)
qed (simp add: set_safety_def set_safety_profile_def)

lemma agree_on_gate:
  assumes c: "levels_agree c" and run: "on_gate f seed pid c = Some (r, c')"
    and f: "\<And>g r g'. f g = Some (r, g') \<Longrightarrow> gate_level g' = gate_level g"
  shows "levels_agree c'"
proof -
  obtain s c1 where s: "core_session seed pid c = (s, c1)" by (cases "core_session seed pid c")
  note a = agree_session [OF c s]
  show ?thesis
  proof (cases s)
    case (Inl e)
    with run s a(1) show ?thesis by (simp add: on_gate_def)
  next
    case (Inr g)
    with run s obtain g' where g': "f g = Some (r, g')" and c': "c' = c1\<lparr>co_sessions := (co_sessions c1)(pid \<mapsto> g')\<rparr>"
      by (auto simp: on_gate_def split: option.splits)
    with a(1) a(2) [OF Inr] f [OF g'] show ?thesis by (auto simp: levels_agree_def safety_of_def split: if_splits)
  qed
qed

text \<open>
  C12.  While calls do not overlap, an open connection is gated at the level its profile shows:
  after any sequence of calls, each session's gate has the profile's safety level.
\<close>

theorem gates_follow_profiles:
  assumes "core_run c" and "co_sessions c pid = Some g"
  shows "safety_of pid c = Some (gate_level g)"
proof -
  from assms(1) have "levels_agree c"
  proof (induction rule: core_run.induct)
    case run_core_new
    show ?case by (simp add: levels_agree_def new_core_def)
  next
    case (run_add c name config)
    then show ?case unfolding add_profile_def Let_def snd_conv by (intro agree_add) simp_all
  next
    case (run_add_full c pr)
    then show ?case unfolding add_profile_full_def Let_def snd_conv by (intro agree_add) simp_all
  next
    case (run_session c seed pid)
    then show ?case by (cases "core_session seed pid c") (simp add: agree_session(1))
  next
    case (run_set_safety c pid level)
    then show ?case by (intro agree_set_safety)
  next
    case (run_evaluate c now sql seed pid r c')
    then show ?case unfolding evaluate_safety_def by (elim agree_on_gate) (auto intro: plan_level)
  next
    case (run_satisfy c now ch att seed pid r' c')
    then show ?case unfolding satisfy_safety_def by (elim agree_on_gate) (auto intro: satisfy_level)
  next
    case (run_admit c dbg now req seed pid r' c')
    then show ?case unfolding core_admit_def by (elim agree_on_gate) (auto intro: admit_level)
  qed (auto simp: levels_agree_def safety_of_def registry_close_def registry_shutdown_def)
  with assms(2) show ?thesis by (simp add: levels_agree_def)
qed

definition sample_config :: connection_config where
  "sample_config = \<lparr>cc_driver = ''mongo'', cc_values = Map.empty\<rparr>"

definition sample_core :: core where
  "sample_core = snd (add_profile ''db'' sample_config (new_core\<lparr>co_drivers := register_driver ''mongo'' MongoShell Map.empty\<rparr>))"

lemma sample_core_run: "core_run sample_core"
  unfolding sample_core_def using run_register [OF run_core_new, of "''mongo''" MongoShell]
  by (intro run_add) (simp add: new_core_def)

lemma sample_core_parts:
  "co_profiles sample_core 1 = Some \<lparr>pr_id = 1, pr_name = ''db'', pr_driver = ''mongo'', pr_config = sample_config,
     pr_read_only = False, pr_safety = Silent\<rparr>"
  "co_sessions sample_core = Map.empty"
  "co_drivers sample_core = [''mongo'' \<mapsto> \<lparr>de_language = MongoShell, de_built = False\<rparr>]"
  by (simp_all add: sample_core_def add_profile_def Let_def new_core_def sample_config_def register_driver_def)

lemmas sample_core_eval = sample_core_parts sample_core_parts [unfolded One_nat_def]

lemma gates_follow_profiles_witness:
  "safety_of 1 (snd (set_safety 1 AuthAll (snd (core_session 7 1 sample_core)))) = Some AuthAll"
proof -
  have run: "core_run (snd (set_safety 1 AuthAll (snd (core_session 7 1 sample_core))))"
    by (intro run_set_safety run_session sample_core_run)
  have "\<exists>g. co_sessions (snd (set_safety 1 AuthAll (snd (core_session 7 1 sample_core)))) 1 = Some g \<and> gate_level g = AuthAll"
    by (simp add: core_session_def registry_open_def driver_get_def sample_core_eval set_safety_def
        set_safety_profile_def set_safety_gate_def set_level_def new_gate_def Let_def)
  then show ?thesis using gates_follow_profiles [OF run] by auto
qed

section \<open>A level set while a session is opening is lost\<close>

text \<open>
  C11.  When \<open>set_safety\<close> runs between the two locks of \<open>session\<close>, the session is opened at the
  level its profile no longer has: with a profile that was \<open>Silent\<close>, the gate admits every
  request although the profile now demands authentication for everything.
\<close>

theorem level_set_while_opening_is_lost:
  assumes "co_profiles c pid = Some pr" and "pr_safety pr = Silent" and "co_sessions c pid = None"
    and "co_drivers c (pr_driver pr) = Some entry"
    and "set_safety pid AuthAll c = (Inr (), c1)" and "registry_open seed pid pr c1 = (Inr g, c2)"
  shows "safety_of pid c2 = Some AuthAll \<and> co_sessions c2 pid = Some g
    \<and> (request_requirement g req \<noteq> None \<longrightarrow> admit dbg now req g = Some (Inr (), g))"
proof -
  from assms(1,3,5) have c1: "c1 = c\<lparr>co_profiles := (co_profiles c)(pid \<mapsto> pr\<lparr>pr_safety := AuthAll\<rparr>)\<rparr>"
    by (auto simp: set_safety_def set_safety_profile_def set_safety_gate_def)
  with assms(2,3,4,6) have g: "gate_level g = Silent" "co_sessions c2 pid = Some g" "safety_of pid c2 = Some AuthAll"
    by (auto simp: registry_open_def driver_get_def Let_def new_gate_def safety_of_def)
  have "admit dbg now req g = Some (Inr (), g)" if "request_requirement g req \<noteq> None"
    using that g(1) by (cases "is_read g req") (auto simp: admit_def request_requirement_def)
  with g show ?thesis by blast
qed

lemma level_set_while_opening_is_lost_witness:
  "\<exists>c1 g c2. set_safety 1 AuthAll sample_core = (Inr (), c1)
     \<and> registry_open 7 1 (the (co_profiles sample_core 1)) c1 = (Inr g, c2)
     \<and> admit sample_printers 0 (Operation (Mutate [])) g = Some (Inr (), g) \<and> safety_of 1 c2 = Some AuthAll"
proof -
  let ?pr = "the (co_profiles sample_core 1)"
  have pr: "co_profiles sample_core 1 = Some ?pr" "pr_safety ?pr = Silent" "co_drivers sample_core (pr_driver ?pr) \<noteq> None"
    by (simp_all add: sample_core_eval)
  obtain c1 where c1: "set_safety 1 AuthAll sample_core = (Inr (), c1)"
    by (cases "set_safety 1 AuthAll sample_core") (auto simp: set_safety_def set_safety_profile_def sample_core_eval)
  have "\<exists>g c2. registry_open 7 1 ?pr c1 = (Inr g, c2) \<and> request_requirement g (Operation (Mutate [])) \<noteq> None"
    using c1 by (auto simp: registry_open_def driver_get_def set_safety_def set_safety_profile_def set_safety_gate_def
        sample_core_eval Let_def request_requirement_def)
  then obtain g c2 where o: "registry_open 7 1 ?pr c1 = (Inr g, c2)" and r: "request_requirement g (Operation (Mutate [])) \<noteq> None"
    by (elim exE conjE)
  obtain entry where "co_drivers sample_core (pr_driver ?pr) = Some entry" using pr(3) by auto
  from level_set_while_opening_is_lost [OF pr(1,2) _ this c1 o, of "Operation (Mutate [])" sample_printers 0] r c1 o
  show ?thesis by (auto simp: sample_core_parts(2))
qed

section \<open>Nothing reaches a driver uncleared\<close>

text \<open>
  C1.  In any run of a connection's gate, when \<open>execute\<close> makes the driver run a request that has
  a requirement, that request was listed by a challenge answered less than two minutes before,
  with an attestation that meets the requirement.
\<close>

theorem driver_runs_only_cleared:
  assumes "gate_run dbg t (g, h)" and "t \<le> now" and "request_requirement g req = Some r" and "r \<noteq> ReqNone"
    and "conn_execute dbg now mid req outcome (g, tk) = Some (res, g', tk')" and "ct_driver tk' \<noteq> ct_driver tk"
  shows "\<exists>cl \<in> set (h_clearances h). cl_time cl \<le> t \<and> now - cl_time cl < GRANT_TTL
    \<and> binding_of dbg req \<in> set (cl_bindings cl) \<and> r \<le> cl_requirement cl
    \<and> attestation_satisfies (cl_attestation cl) (cl_requirement cl) (gate_name g)"
proof -
  have "admit dbg now req g = Some (Inr (), g')"
    using assms(5,6) by (auto simp: conn_execute_def split: option.splits sum.splits prod.splits)
  from admission_cleared [OF assms(1-4) this] show ?thesis .
qed

lemma driver_runs_only_cleared_witness:
  "\<exists>cl \<in> {sample_clearance}. 3000 - cl_time cl < GRANT_TTL"
proof -
  have r: "request_requirement sample_cleared (Operation (Mutate [])) = Some ReqWarn"
    by (simp add: sample_eval sample_ids sample_ids [unfolded One_nat_def])
  have "\<exists>g. admit sample_printers 3000 (Operation (Mutate [])) sample_cleared = Some (Inr (), g)"
    by (simp add: sample_eval sample_ids sample_ids [unfolded One_nat_def])
  then obtain g' where "admit sample_printers 3000 (Operation (Mutate [])) sample_cleared = Some (Inr (), g')" ..
  then obtain res tk' where "conn_execute sample_printers 3000 False (Operation (Mutate [])) (DrvReturned (Inr ())) (sample_cleared, spawn_task)
      = Some (res, g', tk')" "ct_driver tk' \<noteq> ct_driver spawn_task"
    by (simp add: conn_execute_def conn_call_def task_serve_def spawn_task_def is_fatal_def)
  from driver_runs_only_cleared [OF sample_run _ r _ this] show ?thesis by (auto simp: no_history_def)
qed

end
