(* ===== verification/Export.thy ===== *)
theory Export
  imports Driver_Api Safety_Api
begin

text \<open>
  Streaming export, \<open>crates/datagrep-core/src/export.rs\<close>: batches go from the cursor to a sink
  without a store.  The cursor is the list of what its \<open>next_batch\<close> calls return, in order; a
  sink is a pair of functions on its state.
\<close>

definition EXPORT_FETCH_HINT :: fetch_hint where
  "EXPORT_FETCH_HINT = \<lparr>fh_max_rows = 100000, fh_max_bytes = 4 * 1024 * 1024, fh_target_ms = 250\<rparr>"

datatype sink_flow = FlowContinue | FlowStop

record 's export_sink =
  sk_begin :: "shape \<Rightarrow> 's \<Rightarrow> (db_error + unit) \<times> 's"
  sk_chunk :: "wire_batch \<Rightarrow> 's \<Rightarrow> (db_error + sink_flow) \<times> 's"

record export_stats =
  xs_rows :: nat
  xs_batches :: nat
  xs_bytes :: nat
  xs_stopped :: bool

definition no_export_stats :: export_stats where
  "no_export_stats = \<lparr>xs_rows = 0, xs_batches = 0, xs_bytes = 0, xs_stopped = False\<rparr>"

text \<open>
  The loop of \<open>drive\<close>; \<open>bytes\<close> is what the cursor's statistics say after each pull.  \<open>None\<close>: the
  cursor has not answered yet.
\<close>

fun drive_loop ::
  "'s export_sink \<Rightarrow> (db_error + wire_batch option) list \<Rightarrow> nat \<Rightarrow> export_stats \<Rightarrow> 's
    \<Rightarrow> (db_error + export_stats) option \<times> 's" where
  "drive_loop sink [] bytes st s = (None, s)"
| "drive_loop sink (Inl e # pulls) bytes st s = (Some (Inl e), s)"
| "drive_loop sink (Inr None # pulls) bytes st s = (Some (Inr (st\<lparr>xs_bytes := bytes\<rparr>)), s)"
| "drive_loop sink (Inr (Some b) # pulls) bytes st s =
     (let st' = st\<lparr>xs_rows := xs_rows st + payload_len (wb_payload b), xs_batches := xs_batches st + 1\<rparr>
      in case sk_chunk sink b s of
           (Inl e, s') \<Rightarrow> (Some (Inl e), s')
         | (Inr FlowStop, s') \<Rightarrow> (Some (Inr (st'\<lparr>xs_stopped := True, xs_bytes := bytes\<rparr>)), s')
         | (Inr FlowContinue, s') \<Rightarrow> drive_loop sink pulls bytes st' s')"

definition drive ::
  "'s export_sink \<Rightarrow> shape \<Rightarrow> (db_error + wire_batch option) list \<Rightarrow> nat \<Rightarrow> 's
    \<Rightarrow> (db_error + export_stats) option \<times> 's" where
  "drive sink sh pulls bytes s =
     (case sk_begin sink sh s of
        (Inl e, s') \<Rightarrow> (Some (Inl e), s')
      | (Inr _, s') \<Rightarrow> drive_loop sink pulls bytes no_export_stats s')"

text \<open>\<open>run_export_on\<close>: the cursor is closed whatever the outcome; its failure changes nothing.\<close>

definition run_export ::
  "'s export_sink \<Rightarrow> db_error + shape \<Rightarrow> (db_error + wire_batch option) list \<Rightarrow> nat \<Rightarrow> 's
    \<Rightarrow> (db_error + export_stats) option \<times> 's \<times> bool" where
  "run_export sink executed pulls bytes s =
     (case executed of
        Inl e \<Rightarrow> (Some (Inl e), s, False)
      | Inr sh \<Rightarrow> (case drive sink sh pulls bytes s of (r, s') \<Rightarrow> (r, s', r \<noteq> None)))"

section \<open>An export delivers every row\<close>

text \<open>What the sink was handed, next to its own state.\<close>

definition recording :: "'s export_sink \<Rightarrow> ('s \<times> wire_batch list) export_sink" where
  "recording sink =
     \<lparr>sk_begin = (\<lambda>sh (s, bs). case sk_begin sink sh s of (r, s') \<Rightarrow> (r, s', bs)),
      sk_chunk = (\<lambda>b (s, bs). case sk_chunk sink b s of (r, s') \<Rightarrow> (r, s', bs @ [b]))\<rparr>"

definition rows_in :: "wire_batch list \<Rightarrow> nat" where
  "rows_in bs = sum_list (map (payload_len \<circ> wb_payload) bs)"

fun answered :: "(db_error + wire_batch option) list \<Rightarrow> wire_batch list" where
  "answered (Inr (Some b) # pulls) = b # answered pulls"
| "answered _ = []"

lemma drive_loop_records:
  "drive_loop (recording sink) pulls bytes st (s, bs) = (Some (Inr st'), s', bs') \<Longrightarrow>
     \<exists>fed rest. bs' = bs @ fed \<and> answered pulls = fed @ rest \<and> (xs_stopped st' \<or> xs_stopped st \<or> rest = [])
       \<and> xs_rows st' = xs_rows st + rows_in fed \<and> xs_batches st' = xs_batches st + length fed"
proof (induction pulls arbitrary: st s bs)
  case (Cons pull pulls)
  show ?case
  proof (cases pull)
    case (Inl e)
    with Cons.prems show ?thesis by simp
  next
    case (Inr answer)
    show ?thesis
    proof (cases answer)
      case None
      with Cons.prems Inr show ?thesis by (auto simp: rows_in_def)
    next
      case (Some b)
      let ?st = "st\<lparr>xs_rows := xs_rows st + payload_len (wb_payload b), xs_batches := xs_batches st + 1\<rparr>"
      obtain r s1 where "sk_chunk sink b s = (r, s1)" by (cases "sk_chunk sink b s")
      then have rec: "sk_chunk (recording sink) b (s, bs) = (r, s1, bs @ [b])" by (simp add: recording_def)
      consider e where "r = Inl e" | "r = Inr FlowStop" | "r = Inr FlowContinue"
        by (cases r; cases "projr r") auto
      then show ?thesis
      proof cases
        case 1
        with Cons.prems rec Inr Some show ?thesis by simp
      next
        case 2
        with Cons.prems rec Inr Some have "st' = ?st\<lparr>xs_stopped := True, xs_bytes := bytes\<rparr>" "bs' = bs @ [b]"
          by simp_all
        then show ?thesis using Inr Some
          by (intro exI [of _ "[b]"] exI [of _ "answered pulls"]) (simp add: rows_in_def)
      next
        case 3
        with Cons.prems rec Inr Some
        have "drive_loop (recording sink) pulls bytes ?st (s1, bs @ [b]) = (Some (Inr st'), s', bs')" by simp
        from Cons.IH [OF this] obtain fed rest where "bs' = bs @ b # fed" "answered pulls = fed @ rest"
          "xs_stopped st' \<or> xs_stopped st \<or> rest = []" "xs_rows st' = xs_rows ?st + rows_in fed"
          "xs_batches st' = xs_batches ?st + length fed" by auto
        then show ?thesis using Inr Some
          by (intro exI [of _ "b # fed"] exI [of _ rest]) (simp add: rows_in_def)
      qed
    qed
  qed
qed simp

text \<open>
  C38.  An export that ends well has handed its sink the batches the cursor answered, in order and
  uncut, all of them unless the sink asked to stop, and its figures count exactly their rows;
  there is no cap.
\<close>

theorem export_delivers_all:
  assumes "drive (recording sink) sh pulls bytes (s, []) = (Some (Inr st), s', bs)"
  shows "\<exists>rest. answered pulls = bs @ rest \<and> (xs_stopped st \<or> rest = []) \<and> xs_rows st = rows_in bs
    \<and> xs_batches st = length bs"
proof -
  from assms obtain s1 where "drive_loop (recording sink) pulls bytes no_export_stats (s1, []) = (Some (Inr st), s', bs)"
    by (auto simp: drive_def recording_def split: sum.splits prod.splits)
  from drive_loop_records [OF this] show ?thesis by (auto simp: no_export_stats_def)
qed

definition counting_sink :: "nat export_sink" where
  "counting_sink =
     \<lparr>sk_begin = (\<lambda>sh s. (Inr (), s)), sk_chunk = (\<lambda>b s. (Inr FlowContinue, s + payload_len (wb_payload b)))\<rparr>"

lemma export_delivers_all_witness:
  "let b = \<lparr>wb_seq = 0, wb_payload = PDocs [VNull, VBool True], wb_deltas = [], wb_notices = []\<rparr>;
       r = drive (recording counting_sink) ShUnknown [Inr (Some b), Inr (Some b), Inr None] 9 (0, [])
   in r = (Some (Inr \<lparr>xs_rows = 4, xs_batches = 2, xs_bytes = 9, xs_stopped = False\<rparr>), 4, [b, b])
     \<and> rows_in [b, b] = 4"
proof -
  define b where "b = \<lparr>wb_seq = 0, wb_payload = PDocs [VNull, VBool True], wb_deltas = [], wb_notices = []\<rparr>"
  have r: "drive (recording counting_sink) ShUnknown [Inr (Some b), Inr (Some b), Inr None] 9 (0, [])
      = (Some (Inr \<lparr>xs_rows = 4, xs_batches = 2, xs_bytes = 9, xs_stopped = False\<rparr>), 4, [b, b])"
    by (simp add: drive_def recording_def counting_sink_def no_export_stats_def b_def)
  from export_delivers_all [OF r] have "rows_in [b, b] = 4" by simp
  with r show ?thesis unfolding Let_def b_def by simp
qed

end
