(* ===== verification/Sql_Pieces.thy ===== *)
theory Sql_Pieces
  imports Sql_Lexer Safety_Api
begin

text \<open>
  What the SQL drivers compile to: texts made of code, of placeholders and of quoted pieces.
  The theory proves once, for every dialect, that the chunk lexer of \<open>datagrep-lang\<close> reads such a
  text as it was put together, so that no byte of a name can leave its quotes; the theories of
  the drivers show that their output has this shape.
\<close>

section \<open>Errors that return early\<close>

text \<open>Rust's question mark operator.\<close>

fun try_bind :: "'e + 'a \<Rightarrow> ('a \<Rightarrow> 'e + 'b) \<Rightarrow> 'e + 'b" where
  "try_bind (Inl e) f = Inl e"
| "try_bind (Inr x) f = f x"

lemma try_bind_cong [fundef_cong]:
  "r = r' \<Longrightarrow> (\<And>x. r' = Inr x \<Longrightarrow> f x = g x) \<Longrightarrow> try_bind r f = try_bind r' g"
  by (cases r) auto

lemma try_bind_Inr [simp]: "try_bind r f = Inr y \<longleftrightarrow> (\<exists>x. r = Inr x \<and> f x = Inr y)"
  by (cases r) auto

lemma try_bind_Inl: "try_bind r f = Inl e \<longleftrightarrow> r = Inl e \<or> (\<exists>x. r = Inr x \<and> f x = Inl e)"
  by (cases r) auto

text \<open>A loop that pushes what each element gives, or stops at the first error.\<close>

fun try_map :: "('a \<Rightarrow> 'e + 'b) \<Rightarrow> 'a list \<Rightarrow> 'e + 'b list" where
  "try_map f [] = Inr []"
| "try_map f (x # xs) = try_bind (f x) (\<lambda>y. try_bind (try_map f xs) (\<lambda>ys. Inr (y # ys)))"

lemma try_map_Inr: "try_map f xs = Inr ys \<longleftrightarrow> list_all2 (\<lambda>x y. f x = Inr y) xs ys"
  by (induction xs arbitrary: ys) (auto simp: list_all2_Cons1)

lemma try_map_nonempty: "try_map f xs = Inr ys \<Longrightarrow> (ys = []) = (xs = [])"
  by (auto simp: try_map_Inr)

text \<open>The \<open>Debug\<close> printers of texts and values that error messages use.\<close>

record message_printers =
  dbg_str :: "string \<Rightarrow> string"
  dbg_value :: "db_value \<Rightarrow> string"

fun show_kind :: "object_kind \<Rightarrow> string" where
  "show_kind KDatabase = ''Database''"
| "show_kind KSchema = ''Schema''"
| "show_kind KTable = ''Table''"
| "show_kind KView = ''View''"
| "show_kind KCollection = ''Collection''"
| "show_kind KColumn = ''Column''"
| "show_kind KField = ''Field''"
| "show_kind KIndex = ''Index''"
| "show_kind KKey = ''Key''"
| "show_kind KFunction = ''Function''"
| "show_kind KOther = ''Other''"

text \<open>Printers to evaluate the definitions with.\<close>

definition plain_printers :: message_printers where
  "plain_printers = \<lparr>dbg_str = (\<lambda>s. s), dbg_value = (\<lambda>_. [])\<rparr>"

section \<open>Pieces\<close>

datatype sql_piece =
    PCode string
  | PMark string
  | PQuoted char quote_kind string

text \<open>The loop of every \<open>quote_ident\<close>: the quote is doubled.\<close>

definition double_quote_char :: "char \<Rightarrow> string \<Rightarrow> string" where
  "double_quote_char q s = replace_char q [q, q] s"

definition enclosed :: "char \<Rightarrow> string \<Rightarrow> string" where
  "enclosed q s = q # double_quote_char q s @ [q]"

fun piece_text :: "sql_piece \<Rightarrow> string" where
  "piece_text (PCode s) = s"
| "piece_text (PMark s) = s"
| "piece_text (PQuoted q k s) = enclosed q s"

abbreviation pieces_text :: "sql_piece list \<Rightarrow> string" where
  "pieces_text ps \<equiv> concat (map piece_text ps)"

text \<open>Code that opens no string, no comment and no placeholder and ends no statement, in any dialect.\<close>

definition plain_char :: "sql_dialect \<Rightarrow> char \<Rightarrow> bool" where
  "plain_char d c =
     (c \<noteq> quote_char \<and> c \<noteq> dquote \<and> c \<noteq> backtick \<and> c \<noteq> CHR ''['' \<and> c \<noteq> CHR ''-'' \<and> c \<noteq> CHR ''/''
      \<and> c \<noteq> CHR ''$'' \<and> c \<noteq> CHR ''?'' \<and> c \<noteq> CHR '';'' \<and> (d = Mysql \<longrightarrow> c \<noteq> CHR ''#''))"

definition mark_ok :: "sql_dialect \<Rightarrow> string \<Rightarrow> bool" where
  "mark_ok d m = (d \<noteq> Postgres \<and> m = ''?'' \<or> d = Postgres \<and> (\<exists>n. m = CHR ''$'' # show_nat n))"

text \<open>In MySQL a backslash escapes in a string; a backtick opens an identifier there only.\<close>

definition quoted_ok :: "sql_dialect \<Rightarrow> char \<Rightarrow> quote_kind \<Rightarrow> string \<Rightarrow> bool" where
  "quoted_ok d q k s =
     ((q = quote_char \<and> k = SingleString \<or> q = dquote \<and> k = DoubleIdent) \<and> (d = Mysql \<longrightarrow> backslash \<notin> set s)
      \<or> q = backtick \<and> k = Backtick \<and> d = Mysql)"

fun piece_ok :: "sql_dialect \<Rightarrow> sql_piece \<Rightarrow> bool" where
  "piece_ok d (PCode s) = (s \<noteq> [] \<and> list_all (plain_char d) s)"
| "piece_ok d (PMark s) = mark_ok d s"
| "piece_ok d (PQuoted q k s) = quoted_ok d q k s"

fun is_quoted :: "sql_piece \<Rightarrow> bool" where
  "is_quoted (PQuoted q k s) = True"
| "is_quoted _ = False"

fun pieces_ok :: "sql_dialect \<Rightarrow> sql_piece list \<Rightarrow> bool" where
  "pieces_ok d [] = True"
| "pieces_ok d [p] = piece_ok d p"
| "pieces_ok d (p # r # ps) = (piece_ok d p \<and> \<not> (is_quoted p \<and> is_quoted r) \<and> pieces_ok d (r # ps))"

fun marks :: "sql_piece list \<Rightarrow> string list" where
  "marks [] = []"
| "marks (PMark s # ps) = s # marks ps"
| "marks (_ # ps) = marks ps"

fun unquoted :: "sql_piece list \<Rightarrow> string" where
  "unquoted [] = []"
| "unquoted (PQuoted q k s # ps) = unquoted ps"
| "unquoted (p # ps) = piece_text p @ unquoted ps"

fun quotes :: "sql_piece list \<Rightarrow> (char \<times> string) list" where
  "quotes [] = []"
| "quotes (PQuoted q k s # ps) = (q, s) # quotes ps"
| "quotes (_ # ps) = quotes ps"

text \<open>A text of this shape, with its placeholders and what it quotes.\<close>

definition sql_shape :: "sql_dialect \<Rightarrow> string \<Rightarrow> string list \<Rightarrow> bool" where
  "sql_shape d s ms = (\<exists>ps. pieces_ok d ps \<and> pieces_text ps = s \<and> marks ps = ms)"

section \<open>What the lexer reads\<close>

fun chunk_code :: "string \<Rightarrow> chunk \<Rightarrow> string" where
  "chunk_code s (Code a b) = slice s a b"
| "chunk_code s _ = []"

fun chunk_quote :: "string \<Rightarrow> chunk \<Rightarrow> string list" where
  "chunk_quote s (Quoted a b k) = [slice s a b]"
| "chunk_quote s _ = []"

fun is_comment :: "chunk \<Rightarrow> bool" where
  "is_comment (Comment a b) = True"
| "is_comment _ = False"

definition code_text :: "string \<Rightarrow> chunk list \<Rightarrow> string" where
  "code_text s cs = concat (map (chunk_code s) cs)"

definition quoted_texts :: "string \<Rightarrow> chunk list \<Rightarrow> string list" where
  "quoted_texts s cs = concat (map (chunk_quote s) cs)"

lemma lex_at_plain: "plain_char d (bs ! i) \<Longrightarrow> lex_at bs d i = None"
  by (auto simp: lex_at_def plain_char_def Let_def)

lemma lex_at_mark: "bs ! i = CHR ''$'' \<Longrightarrow> i + 1 < length bs \<Longrightarrow> is_ascii_digit (bs ! (i + 1)) \<Longrightarrow> lex_at bs d i = None"
  by (auto simp: lex_at_def try_scan_dollar_quote_def is_dollar_tag_start_def is_ascii_alphabetic_def is_ascii_upper_def
      is_ascii_lower_def is_ascii_digit_def in_interval_def is_non_ascii_def bval_def byte_at_def Let_def)

lemma digit_plain: "is_ascii_digit c \<Longrightarrow> plain_char d c"
  by (auto simp: plain_char_def is_ascii_digit_def in_interval_def bval_def)

lemma lex_at_question: "bs ! i = CHR ''?'' \<Longrightarrow> lex_at bs d i = None"
  by (simp add: lex_at_def Let_def)

text \<open>Every position of an unquoted piece is code.\<close>

lemma piece_is_code:
  assumes "piece_ok d p" "\<not> is_quoted p" "bs = pre @ piece_text p @ post" "length pre \<le> j" "j < length pre + length (piece_text p)"
  shows "lex_at bs d j = None"
proof (cases p)
  case (PCode s)
  with assms show ?thesis by (intro lex_at_plain) (auto simp: nth_append list_all_length)
next
  case (PMark s)
  then consider "s = ''?''" | n where "s = CHR ''$'' # show_nat n" "d = Postgres" using assms(1) by (auto simp: mark_ok_def)
  then show ?thesis
  proof cases
    case 1
    with assms PMark show ?thesis by (intro lex_at_question) (auto simp: nth_append)
  next
    case 2
    have digits: "list_all is_ascii_digit (show_nat n)" "show_nat n \<noteq> []" by (rule show_nat_digits)+
    show ?thesis
    proof (cases "j = length pre")
      case True
      from digits have "is_ascii_digit (show_nat n ! 0)" by (simp add: list_all_length)
      with True digits(2) assms(3) PMark 2 show ?thesis by (intro lex_at_mark) (auto simp: nth_append)
    next
      case False
      with assms(4) have k: "j = length pre + 1 + (j - length pre - 1)" by simp
      with assms(5) PMark 2 have "j - length pre - 1 < length (show_nat n)" by simp
      moreover from this have "bs ! j = show_nat n ! (j - length pre - 1)"
        using assms(3) PMark 2 by (subst k) (simp add: nth_append)
      ultimately have "is_ascii_digit (bs ! j)" using digits(1) by (simp add: list_all_length)
      then show ?thesis by (intro lex_at_plain digit_plain)
    qed
  qed
qed (use assms(2) in simp)

lemma double_quote_simps [simp]:
  "double_quote_char q [] = []"
  "double_quote_char q (c # s) = (if c = q then q # q # double_quote_char q s else c # double_quote_char q s)"
  by (simp_all add: double_quote_char_def replace_char_def)

text \<open>The scanner of a quoted piece stops at the quote that closes it.\<close>

lemma scan_doubled:
  assumes "bs = pre @ double_quote_char q s @ q # post" "post = [] \<or> hd post \<noteq> q" "esc \<longrightarrow> backslash \<notin> set s \<and> q \<noteq> backslash"
  shows "scan_quoted_from bs (length pre) q esc = length pre + length (double_quote_char q s) + 1"
  using assms
proof (induction s arbitrary: pre)
  case Nil
  then have "bs ! length pre = q" "length pre < length bs" "byte_at bs (length pre + 1) \<noteq> Some q"
    by (auto simp: byte_at_def nth_append hd_conv_nth)
  then show ?case using Nil by (subst scan_quoted_from.simps) auto
next
  case (Cons c s)
  show ?case
  proof (cases "c = q")
    case True
    from Cons.prems True have bs: "bs = (pre @ [q, q]) @ double_quote_char q s @ q # post" by simp
    then have "bs ! length pre = q" "length pre < length bs" "byte_at bs (length pre + 1) = Some q"
      by (simp_all add: byte_at_def nth_append)
    with Cons.IH [OF bs] Cons.prems True show ?thesis by (subst scan_quoted_from.simps) auto
  next
    case False
    from Cons.prems False have bs: "bs = (pre @ [c]) @ double_quote_char q s @ q # post" by simp
    then have "bs ! length pre = c" "length pre < length bs" by (simp_all add: nth_append)
    with Cons.IH [OF bs] Cons.prems False show ?thesis by (subst scan_quoted_from.simps) auto
  qed
qed

lemma lex_at_quoted:
  assumes "quoted_ok d q k s" "bs = pre @ enclosed q s @ post" "post = [] \<or> hd post \<noteq> q"
  shows "lex_at bs d (length pre) = Some (length pre + length (enclosed q s), Quoted (length pre) (length pre + length (enclosed q s)) k)"
proof -
  have bs: "bs = (pre @ [q]) @ double_quote_char q s @ q # post" using assms(2) by (simp add: enclosed_def)
  then have at: "bs ! length pre = q" by simp
  have "scan_quoted_from bs (length pre + 1) q esc = length pre + length (enclosed q s)"
    if "esc \<longrightarrow> backslash \<notin> set s \<and> q \<noteq> backslash" for esc
    using scan_doubled [OF bs assms(3) that] by (simp add: enclosed_def)
  then have scan: "scan_simple_quoted bs (length pre) q esc = length pre + length (enclosed q s)"
    if "esc \<longrightarrow> backslash \<notin> set s \<and> q \<noteq> backslash" for esc using that by (simp add: scan_simple_quoted_def)
  from assms(1) consider "q = quote_char" "k = SingleString" "d = Mysql \<longrightarrow> backslash \<notin> set s"
    | "q = dquote" "k = DoubleIdent" "d = Mysql \<longrightarrow> backslash \<notin> set s" | "q = backtick" "k = Backtick" "d = Mysql"
    unfolding quoted_ok_def by blast
  then show ?thesis
  proof cases
    case 1
    then show ?thesis using at scan [of "d = Mysql"] by (simp add: lex_at_def Let_def)
  next
    case 2
    then show ?thesis using at scan [of "d = Mysql"] by (simp add: lex_at_def Let_def)
  next
    case 3
    then show ?thesis using at scan [of False] by (simp add: lex_at_def Let_def)
  qed
qed

text \<open>A text that follows a quoted piece does not start with its quote.\<close>

lemma pieces_ok_Cons: "pieces_ok d (p # ps) \<longleftrightarrow> piece_ok d p \<and> \<not> (is_quoted p \<and> ps \<noteq> [] \<and> is_quoted (hd ps)) \<and> pieces_ok d ps"
  by (cases ps) auto

lemma unquoted_head:
  assumes "pieces_ok d ps" "ps = [] \<or> \<not> is_quoted (hd ps)" "q = quote_char \<or> q = dquote \<or> q = backtick"
  shows "pieces_text ps = [] \<or> hd (pieces_text ps) \<noteq> q"
proof (cases ps)
  case (Cons p rest)
  with assms(1) have "piece_ok d p" by (simp add: pieces_ok_Cons)
  with assms(2,3) Cons show ?thesis
    by (cases p) (auto simp: mark_ok_def plain_char_def neq_Nil_conv)
qed simp

text \<open>What the loop still has to give, with \<open>mid\<close> the code it has passed since the last chunk.\<close>

definition reads_as :: "string \<Rightarrow> chunk list \<Rightarrow> string \<Rightarrow> sql_piece list \<Rightarrow> bool" where
  "reads_as s cs mid ps =
     (code_text s cs = mid @ unquoted ps \<and> quoted_texts s cs = map (\<lambda>(q, t). enclosed q t) (quotes ps)
      \<and> \<not> list_ex is_comment cs)"

lemma flush_reads:
  "s = pre @ mid @ post \<Longrightarrow> code_text s (flush_code (length pre) (length pre + length mid)) = mid
     \<and> quoted_texts s (flush_code (length pre) (length pre + length mid)) = []
     \<and> \<not> list_ex is_comment (flush_code (length pre) (length pre + length mid))"
  by (simp add: flush_code_def code_text_def quoted_texts_def slice_def)

lemma code_text_append [simp]:
  "code_text s (a @ b) = code_text s a @ code_text s b" "quoted_texts s (a @ b) = quoted_texts s a @ quoted_texts s b"
  by (simp_all add: code_text_def quoted_texts_def)

lemma lex_loop_pieces:
  assumes "pieces_ok d ps" "s = pre @ mid @ pieces_text ps"
  shows "reads_as s (lex_loop s d (length pre) (length pre + length mid)) mid ps"
  using assms
proof (induction ps arbitrary: pre mid)
  case Nil
  then show ?case
    using flush_reads [of s pre mid "[]"] by (subst lex_loop.simps) (simp add: reads_as_def)
next
  case (Cons p ps)
  then have p: "piece_ok d p" "pieces_ok d ps" by (simp_all add: pieces_ok_Cons)
  show ?case
  proof (cases "is_quoted p")
    case False
    have s: "s = pre @ (mid @ piece_text p) @ pieces_text ps" using Cons.prems(2) by simp
    have "lex_loop s d (length pre) (length pre + length mid) = lex_loop s d (length pre) (length pre + length (mid @ piece_text p))"
      using s piece_is_code [OF p(1) False, of s "pre @ mid" "pieces_text ps"] by (intro lex_loop_skip) auto
    moreover have "unquoted (p # ps) = piece_text p @ unquoted ps" "quotes (p # ps) = quotes ps" using False by (cases p; simp)+
    ultimately show ?thesis using Cons.IH [OF p(2) s] by (simp add: reads_as_def)
  next
    case True
    then obtain q k t where pq: "p = PQuoted q k t" by (cases p) auto
    have s: "s = (pre @ mid) @ enclosed q t @ pieces_text ps" using Cons.prems(2) pq by simp
    have "q = quote_char \<or> q = dquote \<or> q = backtick" using p(1) pq by (auto simp: quoted_ok_def)
    with Cons.prems(1) True p(2) have follow: "pieces_text ps = [] \<or> hd (pieces_text ps) \<noteq> q"
      by (intro unquoted_head [of d]) (auto simp: pieces_ok_Cons)
    let ?i = "length pre + length mid" and ?e = "length pre + length mid + length (enclosed q t)"
    have at: "lex_at s d ?i = Some (?e, Quoted ?i ?e k)"
      using lex_at_quoted [OF _ s follow, of d k] p(1) pq by simp
    have i: "?i < length s" using s by (simp add: enclosed_def)
    have loop: "lex_loop s d (length pre) ?i = flush_code (length pre) ?i @ Quoted ?i ?e k # lex_loop s d ?e ?e"
      using i at by (subst lex_loop.simps) simp
    have s': "s = (pre @ mid @ enclosed q t) @ [] @ pieces_text ps" using s by simp
    have "reads_as s (lex_loop s d ?e ?e) [] ps" using Cons.IH [OF p(2) s'] by (simp add: add.assoc)
    moreover have "chunk_quote s (Quoted ?i ?e k) = [enclosed q t]" using s by (simp add: slice_def)
    ultimately show ?thesis
      using flush_reads [of s pre mid "enclosed q t @ pieces_text ps"] s unfolding loop pq
      by (simp add: reads_as_def code_text_def quoted_texts_def)
  qed
qed

lemma pieces_lex:
  assumes "pieces_ok d ps"
  shows "reads_as (pieces_text ps) (lex_chunks (pieces_text ps) d) [] ps"
  using lex_loop_pieces [OF assms, of "pieces_text ps" "[]" "[]"] by (simp add: lex_chunks_def)

section \<open>Putting texts together\<close>

definition plain :: "sql_dialect \<Rightarrow> string \<Rightarrow> bool" where
  "plain d s = (s \<noteq> [] \<and> list_all (plain_char d) s)"

lemma plain_append: "plain d a \<Longrightarrow> plain d b \<Longrightarrow> plain d (a @ b)"
  by (simp add: plain_def)

lemma plain_show_nat: "plain d (show_nat n)"
  using show_nat_digits [of n] by (auto simp: plain_def list_all_iff intro: digit_plain)

lemma marks_append [simp]: "marks (ps @ rs) = marks ps @ marks rs"
  by (induction ps rule: marks.induct) auto

lemma pieces_ok_join:
  "plain d s \<Longrightarrow> pieces_ok d (ps @ PCode s # rs) \<longleftrightarrow> pieces_ok d ps \<and> pieces_ok d rs"
  by (induction ps) (auto simp: pieces_ok_Cons plain_def hd_append)

lemma shape_empty: "sql_shape d [] []"
  unfolding sql_shape_def by (intro exI [of _ "[]"]) simp

lemma shape_code: "plain d s \<Longrightarrow> sql_shape d s []"
  unfolding sql_shape_def by (intro exI [of _ "[PCode s]"]) (simp add: plain_def)

lemma shape_mark: "mark_ok d m \<Longrightarrow> sql_shape d m [m]"
  unfolding sql_shape_def by (intro exI [of _ "[PMark m]"]) simp

lemma shape_quoted: "quoted_ok d q k s \<Longrightarrow> sql_shape d (enclosed q s) []"
  unfolding sql_shape_def by (intro exI [of _ "[PQuoted q k s]"]) simp

lemma shape_mid:
  assumes "sql_shape d a ms" "plain d s" "sql_shape d b ns"
  shows "sql_shape d (a @ s @ b) (ms @ ns)"
proof -
  from assms obtain ps rs where "pieces_ok d ps" "pieces_text ps = a" "marks ps = ms"
    "pieces_ok d rs" "pieces_text rs = b" "marks rs = ns" unfolding sql_shape_def by blast
  with assms(2) show ?thesis
    unfolding sql_shape_def by (intro exI [of _ "ps @ PCode s # rs"]) (simp add: pieces_ok_join)
qed

lemma shape_prefix: "plain d s \<Longrightarrow> sql_shape d b ns \<Longrightarrow> sql_shape d (s @ b) ns"
  using shape_mid [OF shape_empty] by fastforce

lemma shape_suffix: "sql_shape d a ms \<Longrightarrow> plain d s \<Longrightarrow> sql_shape d (a @ s) ms"
  using shape_mid [OF _ _ shape_empty] by fastforce

lemma shape_around: "plain d s \<Longrightarrow> plain d t \<Longrightarrow> sql_shape d a ms \<Longrightarrow> sql_shape d (s @ a @ t) ms"
  by (intro shape_prefix shape_suffix)

lemma shape_join:
  assumes "list_all2 (sql_shape d) xs mss" "plain d sep"
  shows "sql_shape d (join sep xs) (concat mss)"
  using assms
proof (induction sep xs arbitrary: mss rule: join.induct)
  case (2 sep s)
  then show ?case by (auto simp: list_all2_Cons1)
next
  case (3 sep s t ss)
  from "3.prems"(1) obtain m ms where mss: "mss = m # ms" "sql_shape d s m" "list_all2 (sql_shape d) (t # ss) ms"
    by (auto simp: list_all2_Cons1)
  have "sql_shape d (join sep (t # ss)) (concat ms)" using mss(3) "3.prems"(2) by (rule "3.IH")
  from shape_mid [OF mss(2) "3.prems"(2) this] show ?case using mss(1) by simp
qed (simp add: shape_empty)

lemma plain_text [simp]: "plain d (c # s) \<longleftrightarrow> plain_char d c \<and> (s = [] \<or> plain d s)"
  by (auto simp: plain_def)

lemma try_map_shapes:
  assumes "try_map f xs = Inr ys" "\<And>x y. f x = Inr y \<Longrightarrow> sql_shape d y []"
  shows "list_all (\<lambda>s. sql_shape d s []) ys"
  using assms(1) unfolding try_map_Inr by (induction rule: list_all2_induct) (auto intro: assms(2))

lemma shape_join_marks:
  "list_all (mark_ok d) ms \<Longrightarrow> plain d sep \<Longrightarrow> sql_shape d (join sep ms) ms"
  using shape_join [of d ms "map (\<lambda>m. [m]) ms" sep]
  by (simp add: list_all2_map2 list_all2_same list_all_iff shape_mark)

lemma shape_join_plain:
  "list_all (\<lambda>s. sql_shape d s []) xs \<Longrightarrow> plain d sep \<Longrightarrow> sql_shape d (join sep xs) []"
  using shape_join [of d xs "replicate (length xs) []" sep]
  by (simp add: list_all2_conv_all_nth list_all_length concat_replicate_trivial)

section \<open>What a text of this shape holds\<close>

fun placeholder_char :: "sql_dialect \<Rightarrow> char" where
  "placeholder_char Postgres = CHR ''$''"
| "placeholder_char _ = CHR ''?''"

lemma piece_placeholders:
  assumes "piece_ok d p" "\<not> is_quoted p"
  shows "CHR '';'' \<notin> set (piece_text p) \<and> count_list (piece_text p) (placeholder_char d) = length (marks [p])"
proof (cases p)
  case (PCode s)
  have "CHR ''$'' \<notin> set s" "CHR ''?'' \<notin> set s" "CHR '';'' \<notin> set s"
    using assms(1) PCode by (auto simp: list_all_iff plain_char_def)
  then show ?thesis using PCode by (cases d) (simp_all add: count_list_0_iff)
next
  case (PMark s)
  have digits: "c \<notin> set (show_nat n)" if "\<not> is_ascii_digit c" for n c
    using show_nat_digits(1) [of n] that by (auto simp: list_all_iff)
  have "CHR ''$'' \<notin> set (show_nat n)" "CHR '';'' \<notin> set (show_nat n)" for n
    by (rule digits; simp add: is_ascii_digit_def in_interval_def bval_def)+
  then show ?thesis using assms(1) PMark by (cases d) (auto simp: mark_ok_def count_list_0_iff)
qed (use assms(2) in simp)

lemma unquoted_placeholders:
  "pieces_ok d ps \<Longrightarrow> CHR '';'' \<notin> set (unquoted ps) \<and> count_list (unquoted ps) (placeholder_char d) = length (marks ps)"
proof (induction ps)
  case (Cons p ps)
  then show ?case
    using piece_placeholders [of d p] by (cases p) (auto simp: pieces_ok_Cons count_list_append)
qed simp

text \<open>
  The promise of a compiled statement, read with the lexer of the statements themselves: no
  comment opens in it, no code ends it early, and its code holds one placeholder a parameter.
\<close>

definition reads_closed :: "sql_dialect \<Rightarrow> string \<Rightarrow> nat \<Rightarrow> bool" where
  "reads_closed d s n =
     (let cs = lex_chunks s d
      in \<not> list_ex is_comment cs \<and> CHR '';'' \<notin> set (code_text s cs)
         \<and> count_list (code_text s cs) (placeholder_char d) = n)"

lemma shape_reads_closed:
  assumes "sql_shape d s ms"
  shows "reads_closed d s (length ms)"
proof -
  from assms obtain ps where "pieces_ok d ps" "pieces_text ps = s" "marks ps = ms" unfolding sql_shape_def by blast
  with pieces_lex [of d ps] unquoted_placeholders [of d ps] show ?thesis
    by (simp add: reads_closed_def reads_as_def)
qed

section \<open>What an operation holds\<close>

text \<open>The values of a predicate, of a mutation and of its parts in the order a driver binds them.\<close>

fun predicate_values :: "predicate \<Rightarrow> db_value list" where
  "predicate_values (PEq field v) = [v]"
| "predicate_values (PNe field v) = [v]"
| "predicate_values (PLt field v) = [v]"
| "predicate_values (PLe field v) = [v]"
| "predicate_values (PGt field v) = [v]"
| "predicate_values (PGe field v) = [v]"
| "predicate_values (PIn field vs) = vs"
| "predicate_values (PLike field pattern) = [VStr pattern]"
| "predicate_values (PExists field) = []"
| "predicate_values (PIsNull field) = []"
| "predicate_values (PAnd parts) = concat (map predicate_values parts)"
| "predicate_values (POr parts) = concat (map predicate_values parts)"
| "predicate_values (PNot inner) = predicate_values inner"

fun mutation_values :: "mutation \<Rightarrow> db_value list" where
  "mutation_values (MInsert path (VDocument fs)) = map snd fs"
| "mutation_values (MInsert path _) = []"
| "mutation_values (MUpdate path key sets ex) = map snd sets @ map snd key"
| "mutation_values (MDelete path key ex) = map snd key"

text \<open>The same operation with every value blanked: what the text of a statement may depend on.\<close>

fun blank_predicate :: "predicate \<Rightarrow> predicate" where
  "blank_predicate (PEq field v) = PEq field VNull"
| "blank_predicate (PNe field v) = PNe field VNull"
| "blank_predicate (PLt field v) = PLt field VNull"
| "blank_predicate (PLe field v) = PLe field VNull"
| "blank_predicate (PGt field v) = PGt field VNull"
| "blank_predicate (PGe field v) = PGe field VNull"
| "blank_predicate (PIn field vs) = PIn field (map (\<lambda>_. VNull) vs)"
| "blank_predicate (PLike field pattern) = PLike field []"
| "blank_predicate (PExists field) = PExists field"
| "blank_predicate (PIsNull field) = PIsNull field"
| "blank_predicate (PAnd parts) = PAnd (map blank_predicate parts)"
| "blank_predicate (POr parts) = POr (map blank_predicate parts)"
| "blank_predicate (PNot inner) = PNot (blank_predicate inner)"

definition blank_snd :: "('a \<times> db_value) list \<Rightarrow> ('a \<times> db_value) list" where
  "blank_snd xs = map (\<lambda>(k, v). (k, VNull)) xs"

fun blank_mutation :: "mutation \<Rightarrow> mutation" where
  "blank_mutation (MInsert path (VDocument fs)) = MInsert path (VDocument (blank_snd fs))"
| "blank_mutation (MInsert path doc) = MInsert path doc"
| "blank_mutation (MUpdate path key sets ex) = MUpdate path (blank_snd key) (blank_snd sets) (blank_snd ex)"
| "blank_mutation (MDelete path key ex) = MDelete path (blank_snd key) (blank_snd ex)"

lemma blank_snd_simps [simp]:
  "blank_snd [] = []" "blank_snd ((k, v) # xs) = (k, VNull) # blank_snd xs" "blank_snd xs = [] \<longleftrightarrow> xs = []"
  by (simp_all add: blank_snd_def)

section \<open>Shapes every driver uses\<close>

lemma shape_cmp:
  assumes "sql_shape d e []" "plain d cop" "mark_ok d m"
  shows "sql_shape d (e @ '' '' @ cop @ '' '' @ m) [m]"
proof -
  have "plain d ('' '' @ cop @ '' '')" using assms(2) by (simp add: plain_append plain_char_def)
  from shape_mid [OF assms(1) this shape_mark [OF assms(3)]] show ?thesis by simp
qed

lemma shape_in:
  assumes "sql_shape d e []" "list_all (mark_ok d) ms"
  shows "sql_shape d (e @ '' IN ('' @ join '', '' ms @ '')'') ms"
proof -
  have "sql_shape d (join '', '' ms @ '')'') ms"
    by (rule shape_suffix, rule shape_join_marks) (use assms(2) in \<open>simp_all add: plain_char_def\<close>)
  from shape_mid [OF assms(1) _ this, of "'' IN (''"] show ?thesis by (simp add: plain_char_def)
qed

lemma shape_like: "sql_shape d e [] \<Longrightarrow> mark_ok d m \<Longrightarrow> sql_shape d (e @ '' LIKE '' @ m) [m]"
  using shape_mid [of d e "[]" "'' LIKE ''" m "[m]"] by (simp add: shape_mark plain_char_def)

lemma shape_paren: "sql_shape d a ms \<Longrightarrow> sql_shape d (''('' @ a @ '')'') ms"
  by (rule shape_around) (simp_all add: plain_char_def)

lemma shape_paren_is: "sql_shape d a ms \<Longrightarrow> plain d t \<Longrightarrow> sql_shape d (''('' @ a @ '')'' @ t) ms"
  using shape_around [of d "''(''" "'')'' @ t" a ms] by (simp add: plain_append plain_char_def)


text \<open>The placeholders of dialects that do not number them.\<close>

definition question_marks :: "'a list \<Rightarrow> string list" where
  "question_marks vs = map (\<lambda>_. ''?'') vs"

lemma question_marks_append [simp]: "question_marks (xs @ ys) = question_marks xs @ question_marks ys"
  by (simp add: question_marks_def)

lemma question_marks_simps [simp]:
  "question_marks [] = []" "question_marks (x # xs) = ''?'' # question_marks xs" "length (question_marks xs) = length xs"
  "question_marks (map f xs) = question_marks xs"
  by (simp_all add: question_marks_def)

lemma question_marks_ok: "d \<noteq> Postgres \<Longrightarrow> list_all (mark_ok d) (question_marks vs)"
  by (simp add: question_marks_def list_all_iff mark_ok_def)

lemma shape_join_values:
  assumes "list_all2 (sql_shape d) rs (map (\<lambda>p. question_marks (f p)) ps)" "plain d sep"
  shows "sql_shape d (join sep rs) (question_marks (concat (map f ps)))"
  using shape_join [OF assms] by (simp add: question_marks_def map_concat comp_def)

lemma shape_not: "sql_shape d s ms \<Longrightarrow> sql_shape d (''NOT ('' @ s @ '')'') ms"
  by (rule shape_around) (simp_all add: plain_char_def)

lemma shape_assign: "sql_shape d e [] \<Longrightarrow> mark_ok d m \<Longrightarrow> sql_shape d (e @ '' = '' @ m) [m]"
  using shape_mid [of d e "[]" "'' = ''" m "[m]"] by (simp add: shape_mark plain_char_def)

lemma shape_where: "sql_shape d s ms \<Longrightarrow> sql_shape d e ns \<Longrightarrow> sql_shape d (s @ '' WHERE '' @ e) (ms @ ns)"
  by (rule shape_mid) (simp_all add: plain_char_def)

lemma shape_update:
  assumes "sql_shape d t []" "sql_shape d a ms" "sql_shape d w ns"
  shows "sql_shape d (''UPDATE '' @ t @ '' SET '' @ a @ '' WHERE '' @ w) (ms @ ns)"
proof -
  have "sql_shape d (t @ '' SET '' @ a @ '' WHERE '' @ w) ([] @ ms @ ns)"
    by (rule shape_mid [OF assms(1)]) (use shape_where [OF assms(2,3)] in \<open>simp_all add: plain_char_def\<close>)
  then show ?thesis using shape_prefix [of d "''UPDATE ''"] by (simp add: plain_char_def)
qed

lemma shape_delete:
  "sql_shape d t [] \<Longrightarrow> sql_shape d w ns \<Longrightarrow> sql_shape d (''DELETE FROM '' @ t @ '' WHERE '' @ w) ns"
  using shape_prefix [of d "''DELETE FROM ''"] shape_where [of d t "[]" w ns] by (simp add: plain_char_def)

lemma shape_insert:
  assumes "sql_shape d t []" "list_all (\<lambda>c. sql_shape d c []) cols" "list_all (mark_ok d) ms"
  shows "sql_shape d (''INSERT INTO '' @ t @ '' ('' @ join '', '' cols @ '') VALUES ('' @ join '', '' ms @ '')'') ms"
proof -
  have comma: "plain d '', ''" by (simp add: plain_char_def)
  have "sql_shape d (join '', '' cols @ '') VALUES ('' @ join '', '' ms @ '')'') ([] @ ms)"
    by (rule shape_mid [OF shape_join_plain [OF assms(2) comma] _ shape_suffix [OF shape_join_marks [OF assms(3) comma]]])
      (simp_all add: plain_char_def)
  with shape_mid [OF assms(1), of "'' (''"] have "sql_shape d (t @ '' ('' @ join '', '' cols @ '') VALUES ('' @ join '', '' ms @ '')'') ms"
    by (simp add: plain_char_def)
  then show ?thesis using shape_prefix [of d "''INSERT INTO ''"] by (simp add: plain_char_def)
qed

lemma shape_select:
  assumes "sql_shape d cols []" "sql_shape d t []"
  shows "sql_shape d (''SELECT '' @ cols @ '' FROM '' @ t) []"
  using shape_prefix [of d "''SELECT ''", OF _ shape_mid [OF assms(1) _ assms(2), of "'' FROM ''"]]
  by (simp add: plain_char_def)

lemma shape_order_by: "sql_shape d s ms \<Longrightarrow> sql_shape d e [] \<Longrightarrow> sql_shape d (s @ '' ORDER BY '' @ e) ms"
  using shape_mid [of d s ms "'' ORDER BY ''" e "[]"] by (simp add: plain_char_def)

lemma shape_limit: "sql_shape d s ms \<Longrightarrow> sql_shape d (s @ '' LIMIT '' @ show_nat n) ms"
  by (rule shape_suffix) (simp_all add: plain_append plain_show_nat plain_char_def)

text \<open>The field paths an operation names.\<close>

fun predicate_paths :: "predicate \<Rightarrow> path_seg list list" where
  "predicate_paths (PEq field v) = [field]"
| "predicate_paths (PNe field v) = [field]"
| "predicate_paths (PLt field v) = [field]"
| "predicate_paths (PLe field v) = [field]"
| "predicate_paths (PGt field v) = [field]"
| "predicate_paths (PGe field v) = [field]"
| "predicate_paths (PIn field vs) = [field]"
| "predicate_paths (PLike field pattern) = [field]"
| "predicate_paths (PExists field) = [field]"
| "predicate_paths (PIsNull field) = [field]"
| "predicate_paths (PAnd parts) = concat (map predicate_paths parts)"
| "predicate_paths (POr parts) = concat (map predicate_paths parts)"
| "predicate_paths (PNot inner) = predicate_paths inner"

fun mutation_paths :: "mutation \<Rightarrow> path_seg list list" where
  "mutation_paths (MInsert path doc) = []"
| "mutation_paths (MUpdate path key sets ex) = map fst sets @ map fst key"
| "mutation_paths (MDelete path key ex) = map fst key"

end
