(* ===== verification/Mysql_Sql.thy ===== *)
theory Mysql_Sql
  imports Sql_Pieces
begin

text \<open>
  The SQL the MySQL driver compiles operations to, \<open>crates/datagrep-drv-mysql/src/sql.rs\<close>.
\<close>

section \<open>Identifiers\<close>

datatype flavor = MySqlFlavor | MariaDb

definition my_quote_ident :: "message_printers \<Rightarrow> string \<Rightarrow> db_error + string" where
  "my_quote_ident dbg ident =
     (if CHR 0x00 \<in> set ident then Inl (EUnsupported (''identifier contains a NUL byte: '' @ dbg_str dbg ident))
      else Inr (enclosed backtick ident))"

definition my_quote_parts :: "message_printers \<Rightarrow> string list \<Rightarrow> db_error + string" where
  "my_quote_parts dbg parts =
     (if parts = [] then Inl (EUnsupported ''empty object path'')
      else if 2 < length parts then
        Inl (EUnsupported (''MySQL object paths are `database`.`table` (2 levels); got '' @ show_nat (length parts)
               @ '' levels: '' @ join ''.'' parts))
      else try_bind (try_map (my_quote_ident dbg) parts) (\<lambda>qs. Inr (join ''.'' qs)))"

definition my_quote_object_path :: "message_printers \<Rightarrow> object_path \<Rightarrow> db_error + string" where
  "my_quote_object_path dbg path = my_quote_parts dbg path"

definition json_name_char :: "char \<Rightarrow> bool" where
  "json_name_char c = (is_ascii_alphanumeric c \<or> c = CHR ''_'' \<or> is_non_ascii c)"

fun json_step :: "message_printers \<Rightarrow> path_seg \<Rightarrow> db_error + string" where
  "json_step dbg (PField name) =
     (if name = [] \<or> \<not> list_all json_name_char name then
        Inl (EUnsupported (''field name unsafe for a JSON path literal: '' @ dbg_str dbg name))
      else Inr (CHR ''.'' # name))"
| "json_step dbg (PIndex n) = Inr (''['' @ show_nat n @ '']'')"

fun my_field_path_expr :: "message_printers \<Rightarrow> path_seg list \<Rightarrow> db_error + string" where
  "my_field_path_expr dbg [] = Inl (EUnsupported ''empty field path'')"
| "my_field_path_expr dbg (PIndex n # rest) = Inl (EUnsupported ''field path cannot start with an array index'')"
| "my_field_path_expr dbg (PField head # rest) =
     try_bind (my_quote_ident dbg head) (\<lambda>base.
       if rest = [] then Inr base
       else try_bind (try_map (json_step dbg) rest) (\<lambda>steps.
         Inr (''JSON_UNQUOTE(JSON_EXTRACT('' @ base @ '', '' @ [quote_char] @ ''$'' @ concat steps
                @ [quote_char] @ ''))'')))"

section \<open>Predicates\<close>

text \<open>\<open>ParamBuilder\<close> is the list of the parameters pushed so far; \<open>push\<close> writes a question mark.\<close>

definition my_cmp ::
  "message_printers \<Rightarrow> path_seg list \<Rightarrow> string \<Rightarrow> db_value \<Rightarrow> db_value list \<Rightarrow> db_error + (string \<times> db_value list)" where
  "my_cmp dbg field cop v pb =
     try_bind (my_field_path_expr dbg field) (\<lambda>expr. Inr (expr @ '' '' @ cop @ '' '' @ ''?'', pb @ [v]))"

definition bool_unit :: "string \<Rightarrow> string" where
  "bool_unit cop = (if cop = ''AND'' then ''TRUE'' else ''FALSE'')"

fun my_predicate :: "message_printers \<Rightarrow> predicate \<Rightarrow> db_value list \<Rightarrow> db_error + (string \<times> db_value list)"
and my_rendered :: "message_printers \<Rightarrow> predicate list \<Rightarrow> db_value list \<Rightarrow> db_error + (string list \<times> db_value list)" where
  "my_predicate dbg (PEq field v) pb = my_cmp dbg field ''='' v pb"
| "my_predicate dbg (PNe field v) pb = my_cmp dbg field ''<>'' v pb"
| "my_predicate dbg (PLt field v) pb = my_cmp dbg field ''<'' v pb"
| "my_predicate dbg (PLe field v) pb = my_cmp dbg field ''<='' v pb"
| "my_predicate dbg (PGt field v) pb = my_cmp dbg field ''>'' v pb"
| "my_predicate dbg (PGe field v) pb = my_cmp dbg field ''>='' v pb"
| "my_predicate dbg (PIn field vs) pb =
     (if vs = [] then Inr (''FALSE'', pb)
      else try_bind (my_field_path_expr dbg field) (\<lambda>expr.
        Inr (expr @ '' IN ('' @ join '', '' (map (\<lambda>_. ''?'') vs) @ '')'', pb @ vs)))"
| "my_predicate dbg (PLike field pattern) pb =
     try_bind (my_field_path_expr dbg field) (\<lambda>expr. Inr (expr @ '' LIKE '' @ ''?'', pb @ [VStr pattern]))"
| "my_predicate dbg (PExists field) pb =
     (if length field \<le> 1 then Inr (''TRUE'', pb)
      else try_bind (my_field_path_expr dbg field) (\<lambda>expr. Inr (''('' @ expr @ '') IS NOT NULL'', pb)))"
| "my_predicate dbg (PIsNull field) pb =
     try_bind (my_field_path_expr dbg field) (\<lambda>expr. Inr (''('' @ expr @ '') IS NULL'', pb))"
| "my_predicate dbg (PAnd parts) pb =
     (if parts = [] then Inr (bool_unit ''AND'', pb)
      else try_bind (my_rendered dbg parts pb) (\<lambda>(rs, pb'). Inr (join '' AND '' rs, pb')))"
| "my_predicate dbg (POr parts) pb =
     (if parts = [] then Inr (bool_unit ''OR'', pb)
      else try_bind (my_rendered dbg parts pb) (\<lambda>(rs, pb'). Inr (join '' OR '' rs, pb')))"
| "my_predicate dbg (PNot inner) pb =
     try_bind (my_predicate dbg inner pb) (\<lambda>(s, pb'). Inr (''NOT ('' @ s @ '')'', pb'))"
| "my_rendered dbg [] pb = Inr ([], pb)"
| "my_rendered dbg (p # ps) pb =
     try_bind (my_predicate dbg p pb) (\<lambda>(s, pb').
       try_bind (my_rendered dbg ps pb') (\<lambda>(rs, pb''). Inr ((''('' @ s @ '')'') # rs, pb'')))"

section \<open>Reads\<close>

definition my_order_part :: "message_printers \<Rightarrow> sort_key \<Rightarrow> db_error + string" where
  "my_order_part dbg k =
     try_bind (my_field_path_expr dbg (sk_path k)) (\<lambda>expr.
       Inr (''('' @ expr @ '' IS NULL) '' @ (if sk_nulls_first k then ''DESC'' else ''ASC'') @ '', '' @ expr @ '' ''
              @ (if sk_desc k then ''DESC'' else ''ASC'')))"

definition my_compile_order :: "message_printers \<Rightarrow> sort_key list \<Rightarrow> db_error + string" where
  "my_compile_order dbg order = try_bind (try_map (my_order_part dbg) order) (\<lambda>parts. Inr (join '', '' parts))"

definition my_compile_project :: "message_printers \<Rightarrow> path_seg list list option \<Rightarrow> db_error + string" where
  "my_compile_project dbg project =
     (case project of
        None \<Rightarrow> Inr ''*''
      | Some fs \<Rightarrow>
          if fs = [] then Inr ''*''
          else try_bind (try_map (my_field_path_expr dbg) fs) (\<lambda>parts. Inr (join '', '' parts)))"

definition my_where :: "message_printers \<Rightarrow> predicate option \<Rightarrow> string \<Rightarrow> db_value list \<Rightarrow> db_error + (string \<times> db_value list)" where
  "my_where dbg flt sql pb =
     (case flt of
        None \<Rightarrow> Inr (sql, pb)
      | Some pred \<Rightarrow> try_bind (my_predicate dbg pred pb) (\<lambda>(expr, pb'). Inr (sql @ '' WHERE '' @ expr, pb')))"

definition my_compile_scan ::
  "message_printers \<Rightarrow> object_path \<Rightarrow> predicate option \<Rightarrow> sort_key list \<Rightarrow> path_seg list list option \<Rightarrow> nat option
     \<Rightarrow> db_error + (string \<times> db_value list)" where
  "my_compile_scan dbg path flt order project lim =
     try_bind (my_quote_object_path dbg path) (\<lambda>table.
     try_bind (my_compile_project dbg project) (\<lambda>cols.
     try_bind (my_where dbg flt (''SELECT '' @ cols @ '' FROM '' @ table) []) (\<lambda>(sql, params).
     try_bind (if order = [] then Inr sql
               else try_bind (my_compile_order dbg order) (\<lambda>o'. Inr (sql @ '' ORDER BY '' @ o'))) (\<lambda>sql'.
       Inr (case lim of None \<Rightarrow> sql' | Some n \<Rightarrow> sql' @ '' LIMIT '' @ show_nat n, params)))))"

definition my_compile_count ::
  "message_printers \<Rightarrow> object_path \<Rightarrow> predicate option \<Rightarrow> db_error + (string \<times> db_value list)" where
  "my_compile_count dbg path flt =
     try_bind (my_quote_object_path dbg path) (\<lambda>table.
       my_where dbg flt (''SELECT COUNT(*) AS count FROM '' @ table) [])"

section \<open>Definitions\<close>

definition split_index_path :: "message_printers \<Rightarrow> object_path \<Rightarrow> db_error + (string \<times> string)" where
  "split_index_path dbg path =
     (if length path \<le> 1 then
        Inl (EUnsupported (''index path '' @ show_object_path path
               @ '' must name the table it is on followed by the index name''))
      else try_bind (my_quote_parts dbg (butlast path)) (\<lambda>owner.
           try_bind (my_quote_ident dbg (last path)) (\<lambda>name. Inr (owner, name))))"

fun my_index_column :: "message_printers \<Rightarrow> path_seg list \<Rightarrow> db_error + string" where
  "my_index_column dbg [PField name] = my_quote_ident dbg name"
| "my_index_column dbg path =
     Inl (EUnsupported (''index key '' @ show_field_path path
            @ '' is not a plain column: a functional index is native DDL''))"

definition guard_text :: "bool \<Rightarrow> string" where
  "guard_text if_exists = (if if_exists then ''IF EXISTS '' else [])"

fun my_compile_ddl :: "message_printers \<Rightarrow> ddl_op \<Rightarrow> flavor \<Rightarrow> db_error + string" where
  "my_compile_ddl dbg (DdlDrop path kind if_exists) fl =
     (if kind = KIndex then
        try_bind (split_index_path dbg path) (\<lambda>(table, index).
          if if_exists \<and> fl = MySqlFlavor then
            Inl (EUnsupported (''DROP INDEX IF EXISTS: MySQL has no such form (MariaDB does); ''
                   @ ''drop it unconditionally or check first''))
          else Inr (''DROP INDEX '' @ guard_text if_exists @ index @ '' ON '' @ table))
      else if kind = KTable then
        try_bind (my_quote_object_path dbg path) (\<lambda>t. Inr (''DROP TABLE '' @ guard_text if_exists @ t))
      else if kind = KView then
        try_bind (my_quote_object_path dbg path) (\<lambda>t. Inr (''DROP VIEW '' @ guard_text if_exists @ t))
      else if kind = KDatabase then
        try_bind (my_quote_object_path dbg path) (\<lambda>t. Inr (''DROP DATABASE '' @ guard_text if_exists @ t))
      else Inl (EUnsupported (show_kind kind @ '' is not a MySQL object this driver can administer ''
                  @ ''(SCHEMA is a synonym for DATABASE here: use Database)'')))"
| "my_compile_ddl dbg (DdlRename src dst kind) fl =
     try_bind (rename_target src dst) (\<lambda>_.
       if kind = KTable \<or> kind = KView then
         try_bind (my_quote_object_path dbg src) (\<lambda>a.
         try_bind (my_quote_object_path dbg dst) (\<lambda>b. Inr (''RENAME TABLE '' @ a @ '' TO '' @ b)))
       else if kind = KIndex then
         try_bind (split_index_path dbg src) (\<lambda>(table, old).
         try_bind (split_index_path dbg dst) (\<lambda>(_, new).
           Inr (''ALTER TABLE '' @ table @ '' RENAME INDEX '' @ old @ '' TO '' @ new)))
       else Inl (EUnsupported (''MySQL cannot rename a '' @ show_kind kind @ '' in place'')))"
| "my_compile_ddl dbg (DdlCreateIndex path name columns unique if_not_exists) fl =
     (if columns = [] then Inl (EUnsupported ''CREATE INDEX with no fields'')
      else if if_not_exists \<and> fl = MySqlFlavor then
        Inl (EUnsupported (''CREATE INDEX IF NOT EXISTS: MySQL has no such form (MariaDB does); ''
               @ ''create it unconditionally or check first''))
      else
        try_bind (try_map (my_index_column dbg) columns) (\<lambda>cols.
        try_bind (my_quote_ident dbg name) (\<lambda>index.
        try_bind (my_quote_object_path dbg path) (\<lambda>table.
          Inr (''CREATE '' @ (if unique then ''UNIQUE '' else []) @ ''INDEX ''
                 @ (if if_not_exists then ''IF NOT EXISTS '' else []) @ index @ '' ON '' @ table
                 @ '' ('' @ join '', '' cols @ '')'')))))"
| "my_compile_ddl dbg (DdlNative s) fl = Inr s"

fun my_wrap_explain :: "string \<Rightarrow> bool \<Rightarrow> flavor \<Rightarrow> string" where
  "my_wrap_explain inner False fl = ''EXPLAIN '' @ inner"
| "my_wrap_explain inner True MySqlFlavor = ''EXPLAIN ANALYZE '' @ inner"
| "my_wrap_explain inner True MariaDb = ''ANALYZE '' @ inner"

section \<open>Mutations\<close>

definition my_refuse_expect :: "(path_seg list \<times> db_value) list \<Rightarrow> db_error + unit" where
  "my_refuse_expect ex =
     (if ex = [] then Inr ()
      else Inl (EUnsupported ''conditional mutation (`expect`): this driver cannot check-and-set''))"

text \<open>The loop both assignments and keys run: a column, a placeholder, a parameter each.\<close>

fun my_assignments ::
  "message_printers \<Rightarrow> (path_seg list \<times> db_value) list \<Rightarrow> db_value list \<Rightarrow> db_error + (string list \<times> db_value list)" where
  "my_assignments dbg [] pb = Inr ([], pb)"
| "my_assignments dbg ((field, v) # rest) pb =
     try_bind (my_field_path_expr dbg field) (\<lambda>col.
     try_bind (my_assignments dbg rest (pb @ [v])) (\<lambda>(parts, pb').
       Inr ((col @ '' = '' @ ''?'') # parts, pb')))"

definition my_key_where ::
  "message_printers \<Rightarrow> (path_seg list \<times> db_value) list \<Rightarrow> db_value list \<Rightarrow> db_error + (string \<times> db_value list)" where
  "my_key_where dbg key pb =
     (if key = [] then
        Inl (EUnsupported ''mutation with no row identity: refuse to guess which row to affect'')
      else try_bind (my_assignments dbg key pb) (\<lambda>(parts, pb'). Inr (join '' AND '' parts, pb')))"

fun my_columns :: "message_printers \<Rightarrow> (string \<times> db_value) list \<Rightarrow> db_value list \<Rightarrow> db_error + (string list \<times> db_value list)" where
  "my_columns dbg [] pb = Inr ([], pb)"
| "my_columns dbg ((name, v) # rest) pb =
     try_bind (my_quote_ident dbg name) (\<lambda>col.
     try_bind (my_columns dbg rest (pb @ [v])) (\<lambda>(cols, pb'). Inr (col # cols, pb')))"

fun my_compile_mutation :: "message_printers \<Rightarrow> mutation \<Rightarrow> db_error + (string \<times> db_value list)" where
  "my_compile_mutation dbg (MInsert path doc) =
     try_bind (my_quote_object_path dbg path) (\<lambda>table.
     try_bind (case doc of
                 VDocument d \<Rightarrow> Inr d
               | other \<Rightarrow> Inl (EUnsupported (''insert document must be Value::Document, got '' @ dbg_value dbg other))) (\<lambda>fs.
       if fs = [] then Inl (EUnsupported ''insert with no fields'')
       else try_bind (my_columns dbg fs []) (\<lambda>(cols, params).
         Inr (''INSERT INTO '' @ table @ '' ('' @ join '', '' cols @ '') VALUES (''
                @ join '', '' (map (\<lambda>_. ''?'') cols) @ '')'', params))))"
| "my_compile_mutation dbg (MUpdate path key sets ex) =
     try_bind (my_refuse_expect ex) (\<lambda>_.
     try_bind (my_quote_object_path dbg path) (\<lambda>table.
       if sets = [] then Inl (EUnsupported ''update with no fields to set'')
       else
         try_bind (my_assignments dbg sets []) (\<lambda>(parts, pb).
         try_bind (my_key_where dbg key pb) (\<lambda>(wh, params).
           Inr (''UPDATE '' @ table @ '' SET '' @ join '', '' parts @ '' WHERE '' @ wh, params)))))"
| "my_compile_mutation dbg (MDelete path key ex) =
     try_bind (my_refuse_expect ex) (\<lambda>_.
     try_bind (my_quote_object_path dbg path) (\<lambda>table.
     try_bind (my_key_where dbg key []) (\<lambda>(wh, params).
       Inr (''DELETE FROM '' @ table @ '' WHERE '' @ wh, params))))"

text \<open>\<open>json_escape\<close>, used for JSON values bound as text.\<close>

definition hex4 :: "nat \<Rightarrow> string" where
  "hex4 n = (let h = show_hex n in replicate (4 - length h) (CHR ''0'') @ h)"

definition json_escape_char :: "char \<Rightarrow> string" where
  "json_escape_char c =
     (if c = dquote then [backslash, dquote]
      else if c = backslash then [backslash, backslash]
      else if c = newline then [backslash, CHR ''n'']
      else if c = CHR 0x0D then [backslash, CHR ''r'']
      else if c = CHR 0x09 then [backslash, CHR ''t'']
      else if bval c < 32 then [backslash, CHR ''u''] @ hex4 (bval c)
      else [c])"

definition my_json_escape :: "string \<Rightarrow> string" where
  "my_json_escape s = concat (map json_escape_char s)"

section \<open>The shape of compiled texts\<close>

lemma my_quote_ident_shape: "my_quote_ident dbg s = Inr t \<Longrightarrow> sql_shape Mysql t []"
  using shape_quoted [of Mysql backtick Backtick s] by (auto simp: my_quote_ident_def quoted_ok_def split: if_splits)

lemma my_quote_parts_shape: "my_quote_parts dbg parts = Inr t \<Longrightarrow> sql_shape Mysql t []"
  by (auto simp: my_quote_parts_def plain_char_def intro!: shape_join_plain dest: try_map_shapes [OF _ my_quote_ident_shape]
      split: if_splits)

lemma my_quote_path_shape: "my_quote_object_path dbg path = Inr t \<Longrightarrow> sql_shape Mysql t []"
  unfolding my_quote_object_path_def by (rule my_quote_parts_shape)

text \<open>A JSON path literal holds nothing its quotes would have to double or MySQL would unescape.\<close>

definition json_path_char :: "char \<Rightarrow> bool" where
  "json_path_char c = (c \<noteq> quote_char \<and> c \<noteq> backslash)"

lemma json_name_path_char: "json_name_char c \<Longrightarrow> json_path_char c"
  by (auto simp: json_path_char_def json_name_char_def is_ascii_alphanumeric_def is_ascii_alphabetic_def
      is_ascii_upper_def is_ascii_lower_def is_ascii_digit_def in_interval_def is_non_ascii_def bval_def)

lemma json_step_chars: "json_step dbg seg = Inr t \<Longrightarrow> list_all json_path_char t"
proof (cases seg)
  case (PField name)
  moreover have "json_path_char (CHR ''.'')" by (simp add: json_path_char_def)
  ultimately show "json_step dbg seg = Inr t \<Longrightarrow> ?thesis"
    by (auto simp: list_all_iff intro: json_name_path_char split: if_splits)
next
  case (PIndex n)
  moreover have "is_ascii_digit c \<Longrightarrow> json_path_char c" for c
    by (rule json_name_path_char) (simp add: json_name_char_def is_ascii_alphanumeric_def)
  then have "list_all json_path_char (show_nat n)"
    using show_nat_digits(1) [of n] by (auto simp: list_all_iff)
  moreover have "json_path_char (CHR ''['')" "json_path_char (CHR '']'')" by (simp_all add: json_path_char_def)
  ultimately show "json_step dbg seg = Inr t \<Longrightarrow> ?thesis" by auto
qed

lemma json_steps_chars:
  assumes "try_map (json_step dbg) rest = Inr steps"
  shows "list_all json_path_char (concat steps)"
  using assms unfolding try_map_Inr by (induction rule: list_all2_induct) (auto dest: json_step_chars)

lemma double_absent: "list_all json_path_char s \<Longrightarrow> double_quote_char quote_char s = s"
  by (induction s) (auto simp: json_path_char_def)

lemma json_expr_shape:
  assumes "sql_shape Mysql base []" "list_all json_path_char p"
  shows "sql_shape Mysql (''JSON_UNQUOTE(JSON_EXTRACT('' @ base @ '', '' @ [quote_char] @ p @ [quote_char] @ ''))'') []"
proof -
  have "quoted_ok Mysql quote_char SingleString p" using assms(2) by (auto simp: quoted_ok_def json_path_char_def list_all_iff)
  then have "sql_shape Mysql (base @ '', '' @ enclosed quote_char p) ([] @ [])"
    by (intro shape_mid [OF assms(1)] shape_quoted) (simp_all add: plain_char_def)
  then have "sql_shape Mysql (''JSON_UNQUOTE(JSON_EXTRACT('' @ (base @ '', '' @ enclosed quote_char p) @ ''))'') []"
    by - (rule shape_around, simp_all add: plain_char_def)
  then show ?thesis using double_absent [OF assms(2)] by (simp add: enclosed_def)
qed

lemma my_field_shape: "my_field_path_expr dbg path = Inr t \<Longrightarrow> sql_shape Mysql t []"
proof (induction dbg path rule: my_field_path_expr.induct)
  case (3 dbg head rest)
  then obtain base where base: "my_quote_ident dbg head = Inr base" by auto
  show ?case
  proof (cases "rest = []")
    case True
    with 3 base show ?thesis by (auto intro: my_quote_ident_shape)
  next
    case False
    with 3 base obtain steps where steps: "try_map (json_step dbg) rest = Inr steps"
      and t: "t = ''JSON_UNQUOTE(JSON_EXTRACT('' @ base @ '', '' @ [quote_char] @ (''$'' @ concat steps) @ [quote_char] @ ''))''"
      by auto
    show ?thesis unfolding t
      using my_quote_ident_shape [OF base] json_steps_chars [OF steps]
      by (intro json_expr_shape) (simp_all add: json_path_char_def)
  qed
qed simp_all

text \<open>A compiled predicate binds its values in order, a question mark each.\<close>

lemma my_cmp_shape:
  assumes "my_cmp dbg field cop v pb = Inr (s, pb')" "plain Mysql cop"
  shows "pb' = pb @ [v] \<and> sql_shape Mysql s [''?'']"
  using assms shape_cmp [OF my_field_shape, of dbg field _ cop "''?''"] by (auto simp: my_cmp_def mark_ok_def)

lemma my_predicate_shape:
  "my_predicate dbg p pb = Inr (s, pb') \<Longrightarrow>
     pb' = pb @ predicate_values p \<and> sql_shape Mysql s (question_marks (predicate_values p))"
  "my_rendered dbg ps pb = Inr (rs, pb') \<Longrightarrow>
     pb' = pb @ concat (map predicate_values ps)
     \<and> list_all2 (sql_shape Mysql) rs (map (\<lambda>p. question_marks (predicate_values p)) ps)"
proof (induction dbg p pb and dbg ps pb arbitrary: s pb' and rs pb' rule: my_predicate_my_rendered.induct)
  case (7 dbg field vs pb)
  show ?case
  proof (cases "vs = []")
    case True
    with 7 show ?thesis by (auto intro!: shape_code simp: plain_char_def)
  next
    case False
    with 7 obtain expr where e: "my_field_path_expr dbg field = Inr expr"
      and s: "s = expr @ '' IN ('' @ join '', '' (map (\<lambda>_. ''?'') vs) @ '')''" "pb' = pb @ vs" by auto
    from shape_in [OF my_field_shape [OF e] question_marks_ok, of vs] s show ?thesis
      by (simp add: question_marks_def)
  qed
next
  case (8 dbg field pattern pb)
  then show ?case using shape_like [OF my_field_shape, of dbg field _ "''?''"] by (auto simp: mark_ok_def)
next
  case (9 dbg field pb)
  then show ?case using shape_paren_is [OF my_field_shape, of dbg field _ "'' IS NOT NULL''"]
    by (cases "length field \<le> 1") (auto intro: shape_code simp: plain_char_def)
next
  case (10 dbg field pb)
  then show ?case using shape_paren_is [OF my_field_shape, of dbg field _ "'' IS NULL''"] by (auto simp: plain_char_def)
next
  case (11 dbg parts pb)
  then show ?case
    using shape_join_values [of Mysql _ predicate_values parts "'' AND ''"]
    by (cases "parts = []") (auto 0 3 intro: shape_code simp: plain_char_def bool_unit_def)
next
  case (12 dbg parts pb)
  then show ?case
    using shape_join_values [of Mysql _ predicate_values parts "'' OR ''"]
    by (cases "parts = []") (auto 0 3 intro: shape_code simp: plain_char_def bool_unit_def)
next
  case (13 dbg inner pb)
  then obtain t where "my_predicate dbg inner pb = Inr (t, pb')" and s: "s = ''NOT ('' @ t @ '')''" by auto
  with "13.IH" have "pb' = pb @ predicate_values inner" "sql_shape Mysql t (question_marks (predicate_values inner))" by blast+
  then show ?case unfolding s by (simp only: predicate_values.simps shape_not)
next
  case (15 dbg p ps pb)
  then obtain t pb1 rs1 where *: "my_predicate dbg p pb = Inr (t, pb1)" "my_rendered dbg ps pb1 = Inr (rs1, pb')"
    "rs = (''('' @ t @ '')'') # rs1" by auto
  from "15.IH"(1) [OF *(1)] "15.IH"(2) [OF *(1) refl *(2)] shape_paren [of Mysql t "question_marks (predicate_values p)"]
  show ?case unfolding *(3) by simp
qed (use my_cmp_shape in \<open>auto simp: plain_char_def\<close>)

lemma my_assignments_shape:
  "my_assignments dbg kvs pb = Inr (parts, pb') \<Longrightarrow>
     pb' = pb @ map snd kvs \<and> list_all2 (sql_shape Mysql) parts (map (\<lambda>kv. question_marks [snd kv]) kvs)"
proof (induction dbg kvs pb arbitrary: parts pb' rule: my_assignments.induct)
  case (2 dbg field v rest pb)
  then show ?case using shape_assign [OF my_field_shape, of dbg field _ "''?''"] by (fastforce simp: mark_ok_def)
qed simp

lemma my_key_where_shape:
  assumes "my_key_where dbg key pb = Inr (w, pb')"
  shows "key \<noteq> [] \<and> pb' = pb @ map snd key \<and> sql_shape Mysql w (question_marks (map snd key))"
proof -
  from assms obtain parts where key: "key \<noteq> []" and parts: "my_assignments dbg key pb = Inr (parts, pb')" "w = join '' AND '' parts"
    by (auto simp: my_key_where_def split: if_splits)
  from shape_join_values [of Mysql parts "\<lambda>kv. [snd kv]" key "'' AND ''"] my_assignments_shape [OF parts(1)]
  show ?thesis using key parts(2) by (simp add: plain_char_def question_marks_def map_concat comp_def)
qed

lemma my_columns_shape:
  "my_columns dbg fs pb = Inr (cols, pb') \<Longrightarrow>
     pb' = pb @ map snd fs \<and> length cols = length fs \<and> list_all (\<lambda>c. sql_shape Mysql c []) cols"
proof (induction dbg fs pb arbitrary: cols pb' rule: my_columns.induct)
  case (2 dbg name v rest pb)
  then show ?case using my_quote_ident_shape [of dbg name] by fastforce
qed simp

lemma my_mutation_shape:
  assumes "my_compile_mutation dbg m = Inr (s, params)"
  shows "params = mutation_values m \<and> sql_shape Mysql s (question_marks params)"
proof (cases m)
  case (MInsert path doc)
  with assms obtain table fs cols where t: "my_quote_object_path dbg path = Inr table" and doc: "doc = VDocument fs"
    and cols: "my_columns dbg fs [] = Inr (cols, params)"
    and s: "s = ''INSERT INTO '' @ table @ '' ('' @ join '', '' cols @ '') VALUES (''
              @ join '', '' (map (\<lambda>_. ''?'') cols) @ '')''"
    by (cases doc) (auto split: if_splits)
  from my_columns_shape [OF cols] have "params = map snd fs" "map (\<lambda>_. ''?'') cols = question_marks params"
    "list_all (\<lambda>c. sql_shape Mysql c []) cols" by (simp_all add: question_marks_def map_replicate_const)
  with shape_insert [OF my_quote_path_shape [OF t]] question_marks_ok [of Mysql params] show ?thesis
    using MInsert doc s by simp
next
  case (MUpdate path key sets ex)
  with assms obtain table parts pb w where t: "my_quote_object_path dbg path = Inr table"
    and p: "my_assignments dbg sets [] = Inr (parts, pb)" and w: "my_key_where dbg key pb = Inr (w, params)"
    and s: "s = ''UPDATE '' @ table @ '' SET '' @ join '', '' parts @ '' WHERE '' @ w"
    by (auto split: if_splits)
  from my_assignments_shape [OF p] shape_join_values [of Mysql parts "\<lambda>kv. [snd kv]" sets "'', ''"]
  have "pb = map snd sets" "sql_shape Mysql (join '', '' parts) (question_marks (map snd sets))"
    by (simp_all add: plain_char_def question_marks_def map_concat comp_def)
  with shape_update [OF my_quote_path_shape [OF t]] my_key_where_shape [OF w] show ?thesis
    using MUpdate s by simp
next
  case (MDelete path key ex)
  with assms obtain table w where t: "my_quote_object_path dbg path = Inr table"
    and w: "my_key_where dbg key [] = Inr (w, params)" and s: "s = ''DELETE FROM '' @ table @ '' WHERE '' @ w"
    by (auto split: if_splits)
  with shape_delete [OF my_quote_path_shape [OF t]] my_key_where_shape [OF w] MDelete show ?thesis by simp
qed

lemma my_where_shape:
  assumes "my_where dbg flt sql pb = Inr (s, pb')" "sql_shape Mysql sql (question_marks pb)"
  shows "pb' = pb @ (case flt of None \<Rightarrow> [] | Some p \<Rightarrow> predicate_values p) \<and> sql_shape Mysql s (question_marks pb')"
proof (cases flt)
  case (Some p)
  with assms(1) obtain expr where e: "my_predicate dbg p pb = Inr (expr, pb')" and s: "s = sql @ '' WHERE '' @ expr"
    by (auto simp: my_where_def)
  from my_predicate_shape(1) [OF e] shape_where [OF assms(2)] show ?thesis using Some s by simp
qed (use assms in \<open>auto simp: my_where_def\<close>)

lemma my_order_part_shape: "my_order_part dbg k = Inr t \<Longrightarrow> sql_shape Mysql t []"
proof -
  assume "my_order_part dbg k = Inr t"
  then obtain e where e: "my_field_path_expr dbg (sk_path k) = Inr e"
    and t: "t = ''('' @ e @ '' IS NULL) '' @ (if sk_nulls_first k then ''DESC'' else ''ASC'') @ '', '' @ e @ '' ''
              @ (if sk_desc k then ''DESC'' else ''ASC'')"
    by (auto simp: my_order_part_def)
  note e = my_field_shape [OF e]
  have "sql_shape Mysql (e @ ('' '' @ (if sk_desc k then ''DESC'' else ''ASC''))) []"
    by (rule shape_suffix [OF e]) (simp add: plain_char_def)
  from shape_mid [OF e _ this, of "'' IS NULL) '' @ (if sk_nulls_first k then ''DESC'' else ''ASC'') @ '', ''"]
  have "sql_shape Mysql (e @ '' IS NULL) '' @ (if sk_nulls_first k then ''DESC'' else ''ASC'') @ '', '' @ e @ '' ''
          @ (if sk_desc k then ''DESC'' else ''ASC'')) []" by (simp add: plain_char_def)
  from shape_prefix [OF _ this, of "''(''"] show ?thesis unfolding t by (simp add: plain_char_def)
qed

lemma my_compile_order_shape: "my_compile_order dbg order = Inr t \<Longrightarrow> sql_shape Mysql t []"
  by (auto simp: my_compile_order_def plain_char_def intro!: shape_join_plain dest: try_map_shapes [OF _ my_order_part_shape])

lemma my_project_shape: "my_compile_project dbg project = Inr t \<Longrightarrow> sql_shape Mysql t []"
  using shape_code [of Mysql "''*''"]
  by (auto simp: my_compile_project_def plain_char_def intro!: shape_join_plain
      dest: try_map_shapes [OF _ my_field_shape] split: option.splits if_splits)

lemma my_scan_shape:
  assumes "my_compile_scan dbg path flt order project lim = Inr (s, params)"
  shows "params = (case flt of None \<Rightarrow> [] | Some p \<Rightarrow> predicate_values p) \<and> sql_shape Mysql s (question_marks params)"
proof -
  from assms obtain table cols sql sql' where t: "my_quote_object_path dbg path = Inr table"
    and c: "my_compile_project dbg project = Inr cols"
    and w: "my_where dbg flt (''SELECT '' @ cols @ '' FROM '' @ table) [] = Inr (sql, params)"
    and o: "(if order = [] then Inr sql else try_bind (my_compile_order dbg order) (\<lambda>o'. Inr (sql @ '' ORDER BY '' @ o'))) = Inr sql'"
    and s: "s = (case lim of None \<Rightarrow> sql' | Some n \<Rightarrow> sql' @ '' LIMIT '' @ show_nat n)"
    unfolding my_compile_scan_def by auto
  have "sql_shape Mysql (''SELECT '' @ cols @ '' FROM '' @ table) (question_marks ([] :: db_value list))"
    using shape_select [OF my_project_shape [OF c] my_quote_path_shape [OF t]] by simp
  note w = my_where_shape [OF w this]
  then have "sql_shape Mysql sql' (question_marks params)"
  proof (cases "order = []")
    case False
    with o obtain e where "my_compile_order dbg order = Inr e" "sql' = sql @ '' ORDER BY '' @ e" by auto
    with w show ?thesis by (auto simp only: intro: shape_order_by my_compile_order_shape)
  qed (use o w in simp)
  with w show ?thesis unfolding s by (cases lim) (simp_all only: option.case shape_limit append_Nil)
qed

lemma my_count_shape:
  assumes "my_compile_count dbg path flt = Inr (s, params)"
  shows "params = (case flt of None \<Rightarrow> [] | Some p \<Rightarrow> predicate_values p) \<and> sql_shape Mysql s (question_marks params)"
proof -
  from assms obtain table where t: "my_quote_object_path dbg path = Inr table"
    and w: "my_where dbg flt (''SELECT COUNT(*) AS count FROM '' @ table) [] = Inr (s, params)"
    unfolding my_compile_count_def by auto
  have "sql_shape Mysql (''SELECT COUNT(*) AS count FROM '' @ table) (question_marks ([] :: db_value list))"
    using shape_prefix [OF _ my_quote_path_shape [OF t], of "''SELECT COUNT(*) AS count FROM ''"] by (simp add: plain_char_def)
  from my_where_shape [OF w this, unfolded append_Nil] show ?thesis .
qed

section \<open>The text does not depend on the values\<close>

lemma my_predicate_blank:
  "my_predicate dbg p pb = Inr (s, pb') \<Longrightarrow> length pc = length pb \<Longrightarrow>
     \<exists>pc'. my_predicate dbg (blank_predicate p) pc = Inr (s, pc') \<and> length pc' = length pb'"
  "my_rendered dbg ps pb = Inr (rs, pb') \<Longrightarrow> length pc = length pb \<Longrightarrow>
     \<exists>pc'. my_rendered dbg (map blank_predicate ps) pc = Inr (rs, pc') \<and> length pc' = length pb'"
proof (induction dbg p pb and dbg ps pb arbitrary: s pb' pc and rs pb' pc rule: my_predicate_my_rendered.induct)
  case (11 dbg parts pb)
  then show ?case by (cases "parts = []") fastforce+
next
  case (12 dbg parts pb)
  then show ?case by (cases "parts = []") fastforce+
next
  case (13 dbg inner pb)
  then show ?case by fastforce
next
  case (15 dbg p ps pb)
  then obtain t pb1 rs1 where *: "my_predicate dbg p pb = Inr (t, pb1)" "my_rendered dbg ps pb1 = Inr (rs1, pb')"
    "rs = (''('' @ t @ '')'') # rs1" by auto
  from "15.IH"(1) [OF *(1) "15.prems"(2)] obtain pc1 where
    1: "my_predicate dbg (blank_predicate p) pc = Inr (t, pc1)" "length pc1 = length pb1" by blast
  from "15.IH"(2) [OF *(1) refl *(2) 1(2)] 1(1) show ?case using *(3) by auto
qed (auto simp: my_cmp_def comp_def split: if_splits)

lemma my_assignments_blank:
  "my_assignments dbg kvs pb = Inr (parts, pb') \<Longrightarrow> length pc = length pb \<Longrightarrow>
     \<exists>pc'. my_assignments dbg (blank_snd kvs) pc = Inr (parts, pc') \<and> length pc' = length pb'"
proof (induction dbg kvs pb arbitrary: parts pb' pc rule: my_assignments.induct)
  case (2 dbg field v rest pb)
  then obtain col ps where *: "my_field_path_expr dbg field = Inr col" "my_assignments dbg rest (pb @ [v]) = Inr (ps, pb')"
    "parts = (col @ '' = '' @ ''?'') # ps" by auto
  from "2.IH" [OF *(1,2), of "pc @ [VNull]"] "2.prems"(2) show ?case using * by auto
qed auto

lemma my_key_where_blank:
  "my_key_where dbg key pb = Inr (w, pb') \<Longrightarrow> length pc = length pb \<Longrightarrow>
     \<exists>pc'. my_key_where dbg (blank_snd key) pc = Inr (w, pc') \<and> length pc' = length pb'"
  using my_assignments_blank [of dbg key pb _ _ pc] by (fastforce simp: my_key_where_def split: if_splits)

lemma my_columns_blank:
  "my_columns dbg fs pb = Inr (cols, pb') \<Longrightarrow> length pc = length pb \<Longrightarrow>
     \<exists>pc'. my_columns dbg (blank_snd fs) pc = Inr (cols, pc') \<and> length pc' = length pb'"
proof (induction dbg fs pb arbitrary: cols pb' pc rule: my_columns.induct)
  case (2 dbg name v rest pb)
  then obtain col cs where *: "my_quote_ident dbg name = Inr col" "my_columns dbg rest (pb @ [v]) = Inr (cs, pb')"
    "cols = col # cs" by auto
  from "2.IH" [OF *(1,2), of "pc @ [VNull]"] "2.prems"(2) show ?case using * by auto
qed auto

lemma my_mutation_blank:
  assumes "my_compile_mutation dbg m = Inr (s, params)"
  shows "\<exists>pc. my_compile_mutation dbg (blank_mutation m) = Inr (s, pc)"
proof (cases m)
  case (MInsert path doc)
  with assms my_columns_blank [of dbg _ "[]" _ _ "[]"] show ?thesis by (cases doc) (fastforce split: if_splits)+
next
  case (MUpdate path key sets ex)
  with assms obtain table parts pb w where *: "my_refuse_expect ex = Inr ()" "my_quote_object_path dbg path = Inr table" "sets \<noteq> []"
    "my_assignments dbg sets [] = Inr (parts, pb)" "my_key_where dbg key pb = Inr (w, params)"
    "s = ''UPDATE '' @ table @ '' SET '' @ join '', '' parts @ '' WHERE '' @ w" by (auto split: if_splits)
  from my_assignments_blank [OF *(4), of "[]"] obtain pc where
    1: "my_assignments dbg (blank_snd sets) [] = Inr (parts, pc)" "length pc = length pb" by auto
  from my_key_where_blank [OF *(5) 1(2)] 1(1) * MUpdate show ?thesis by (auto simp: my_refuse_expect_def split: if_splits)
next
  case (MDelete path key ex)
  with assms my_key_where_blank [of dbg key "[]" _ _ "[]"] show ?thesis by (fastforce simp: my_refuse_expect_def split: if_splits)
qed

section \<open>Properties\<close>

text \<open>
  C24.  A mutation that compiles for MySQL cannot be broken out of: read with the lexer of MySQL
  statements, no comment opens in it, no semicolon ends it early, and its code holds exactly one
  placeholder for each value, which are bound in order; and the text is the one the same mutation
  with every value blanked compiles to, so that no value reaches it.
\<close>

theorem my_mutation_closed:
  assumes "my_compile_mutation dbg m = Inr (s, params)"
  shows "reads_closed Mysql s (length params) \<and> params = mutation_values m
    \<and> (\<exists>blank. my_compile_mutation dbg (blank_mutation m) = Inr (s, blank))"
proof -
  from my_mutation_shape [OF assms] have vals: "params = mutation_values m" and shape: "sql_shape Mysql s (question_marks params)"
    by blast+
  from shape_reads_closed [OF shape] have "reads_closed Mysql s (length params)" by simp
  with vals my_mutation_blank [OF assms] show ?thesis by blast
qed

lemma my_delete_example:
  "my_compile_mutation plain_printers (MDelete [''t`; --''] [([PField ''id''], VStr ''1; DROP'')] [])
     = Inr (''DELETE FROM `t``; --` WHERE `id` = ?'', [VStr ''1; DROP''])"
  by (simp add: my_quote_object_path_def my_quote_parts_def my_quote_ident_def my_key_where_def my_refuse_expect_def
      enclosed_def)

lemma my_mutation_closed_witness:
  "reads_closed Mysql ''DELETE FROM `t``; --` WHERE `id` = ?'' 1"
  using my_mutation_closed [OF my_delete_example] by simp

text \<open>
  The reads of the MySQL driver are as closed: a scan and a count bind the values of their
  filter in order, one placeholder each.
\<close>

theorem my_reads_closed:
  assumes "my_compile_scan dbg path flt order project lim = Inr (s, params) \<or> my_compile_count dbg path flt = Inr (s, params)"
  shows "reads_closed Mysql s (length params)
    \<and> params = (case flt of None \<Rightarrow> [] | Some p \<Rightarrow> predicate_values p)"
proof -
  from assms have "params = (case flt of None \<Rightarrow> [] | Some p \<Rightarrow> predicate_values p)" "sql_shape Mysql s (question_marks params)"
    using my_scan_shape my_count_shape by blast+
  with shape_reads_closed [of Mysql s "question_marks params"] show ?thesis by (simp only: question_marks_simps)
qed

lemma my_scan_example:
  "my_compile_scan plain_printers [''a'', ''b`''] (Some (PNot (PIn [PField ''x'', PField ''y'', PIndex 3] [VI64 1, VNull])))
     [] None (Some 50)
   = Inr (''SELECT * FROM `a`.`b``` WHERE NOT (JSON_UNQUOTE(JSON_EXTRACT(`x`, '' @ [quote_char] @ ''$.y[3]'' @ [quote_char]
            @ '')) IN (?, ?)) LIMIT 50'', [VI64 1, VNull])"
  by code_simp

lemma my_reads_closed_witness:
  "reads_closed Mysql (''SELECT * FROM `a`.`b``` WHERE NOT (JSON_UNQUOTE(JSON_EXTRACT(`x`, '' @ [quote_char] @ ''$.y[3]''
     @ [quote_char] @ '')) IN (?, ?)) LIMIT 50'') 2"
  using my_reads_closed [OF disjI1 [OF my_scan_example]] by (simp add: numeral_2_eq_2)

end
