(* ===== verification/Postgres_Sql.thy ===== *)
theory Postgres_Sql
  imports Sql_Pieces
begin

text \<open>
  The SQL the PostgreSQL driver compiles operations to, \<open>crates/datagrep-drv-postgres/src/sql.rs\<close>.
\<close>

section \<open>Identifiers\<close>

definition pg_quote_ident :: "message_printers \<Rightarrow> string \<Rightarrow> db_error + string" where
  "pg_quote_ident dbg ident =
     (if CHR 0x00 \<in> set ident then Inl (EUnsupported (''identifier contains a NUL byte: '' @ dbg_str dbg ident))
      else Inr (enclosed dquote ident))"

definition pg_quote_parts :: "message_printers \<Rightarrow> string list \<Rightarrow> db_error + string" where
  "pg_quote_parts dbg parts =
     (if parts = [] then Inl (EUnsupported ''empty object path'')
      else try_bind (try_map (pg_quote_ident dbg) parts) (\<lambda>qs. Inr (join ''.'' qs)))"

definition pg_quote_object_path :: "message_printers \<Rightarrow> object_path \<Rightarrow> db_error + string" where
  "pg_quote_object_path dbg path = pg_quote_parts dbg path"

definition jsonb_unsafe :: "char \<Rightarrow> bool" where
  "jsonb_unsafe c = (c = CHR ''{'' \<or> c = CHR ''}'' \<or> c = CHR '','' \<or> c = dquote)"

fun jsonb_step :: "message_printers \<Rightarrow> path_seg \<Rightarrow> db_error + string" where
  "jsonb_step dbg (PField name) =
     (if list_ex jsonb_unsafe name then
        Inl (EUnsupported (''field name unsafe for jsonb path: '' @ dbg_str dbg name))
      else Inr name)"
| "jsonb_step dbg (PIndex n) = Inr (show_nat n)"

fun pg_field_path_expr :: "message_printers \<Rightarrow> path_seg list \<Rightarrow> db_error + string" where
  "pg_field_path_expr dbg [] = Inl (EUnsupported ''empty field path'')"
| "pg_field_path_expr dbg (PIndex n # rest) = Inl (EUnsupported ''field path cannot start with an array index'')"
| "pg_field_path_expr dbg (PField head # rest) =
     try_bind (pg_quote_ident dbg head) (\<lambda>base.
       if rest = [] then Inr base
       else try_bind (try_map (jsonb_step dbg) rest) (\<lambda>steps.
         Inr (base @ ''#>>'' @ [quote_char] @ ''{'' @ join '','' steps @ ''}'' @ [quote_char])))"

section \<open>Predicates\<close>

text \<open>\<open>ParamBuilder\<close> is the list of the parameters; \<open>push\<close> answers the number of the new one.\<close>

definition dollar :: "nat \<Rightarrow> string" where
  "dollar n = CHR ''$'' # show_nat n"

definition pg_push :: "db_value list \<Rightarrow> db_value \<Rightarrow> string \<times> db_value list" where
  "pg_push pb v = (dollar (length (pb @ [v])), pb @ [v])"

fun pg_push_all :: "db_value list \<Rightarrow> db_value list \<Rightarrow> string list \<times> db_value list" where
  "pg_push_all pb [] = ([], pb)"
| "pg_push_all pb (v # vs) =
     (case pg_push pb v of (ph, pb') \<Rightarrow> case pg_push_all pb' vs of (phs, pb'') \<Rightarrow> (ph # phs, pb''))"

definition pg_cmp ::
  "message_printers \<Rightarrow> path_seg list \<Rightarrow> string \<Rightarrow> db_value \<Rightarrow> db_value list \<Rightarrow> db_error + (string \<times> db_value list)" where
  "pg_cmp dbg field cop v pb =
     try_bind (pg_field_path_expr dbg field) (\<lambda>expr.
       case pg_push pb v of (ph, pb') \<Rightarrow> Inr (expr @ '' '' @ cop @ '' '' @ ph, pb'))"

definition pg_bool_unit :: "string \<Rightarrow> string" where
  "pg_bool_unit cop = (if cop = ''AND'' then ''true'' else ''false'')"

fun pg_predicate :: "message_printers \<Rightarrow> predicate \<Rightarrow> db_value list \<Rightarrow> db_error + (string \<times> db_value list)"
and pg_rendered :: "message_printers \<Rightarrow> predicate list \<Rightarrow> db_value list \<Rightarrow> db_error + (string list \<times> db_value list)" where
  "pg_predicate dbg (PEq field v) pb = pg_cmp dbg field ''='' v pb"
| "pg_predicate dbg (PNe field v) pb = pg_cmp dbg field ''<>'' v pb"
| "pg_predicate dbg (PLt field v) pb = pg_cmp dbg field ''<'' v pb"
| "pg_predicate dbg (PLe field v) pb = pg_cmp dbg field ''<='' v pb"
| "pg_predicate dbg (PGt field v) pb = pg_cmp dbg field ''>'' v pb"
| "pg_predicate dbg (PGe field v) pb = pg_cmp dbg field ''>='' v pb"
| "pg_predicate dbg (PIn field vs) pb =
     (if vs = [] then Inr (''false'', pb)
      else try_bind (pg_field_path_expr dbg field) (\<lambda>expr.
        case pg_push_all pb vs of (phs, pb') \<Rightarrow> Inr (expr @ '' IN ('' @ join '', '' phs @ '')'', pb')))"
| "pg_predicate dbg (PLike field pattern) pb =
     try_bind (pg_field_path_expr dbg field) (\<lambda>expr.
       case pg_push pb (VStr pattern) of (ph, pb') \<Rightarrow> Inr (expr @ '' LIKE '' @ ph, pb'))"
| "pg_predicate dbg (PExists field) pb =
     (if length field \<le> 1 then Inr (''true'', pb)
      else try_bind (pg_field_path_expr dbg field) (\<lambda>expr. Inr (''('' @ expr @ '') IS NOT NULL'', pb)))"
| "pg_predicate dbg (PIsNull field) pb =
     try_bind (pg_field_path_expr dbg field) (\<lambda>expr. Inr (''('' @ expr @ '') IS NULL'', pb))"
| "pg_predicate dbg (PAnd parts) pb =
     (if parts = [] then Inr (pg_bool_unit ''AND'', pb)
      else try_bind (pg_rendered dbg parts pb) (\<lambda>(rs, pb'). Inr (join '' AND '' rs, pb')))"
| "pg_predicate dbg (POr parts) pb =
     (if parts = [] then Inr (pg_bool_unit ''OR'', pb)
      else try_bind (pg_rendered dbg parts pb) (\<lambda>(rs, pb'). Inr (join '' OR '' rs, pb')))"
| "pg_predicate dbg (PNot inner) pb =
     try_bind (pg_predicate dbg inner pb) (\<lambda>(s, pb'). Inr (''NOT ('' @ s @ '')'', pb'))"
| "pg_rendered dbg [] pb = Inr ([], pb)"
| "pg_rendered dbg (p # ps) pb =
     try_bind (pg_predicate dbg p pb) (\<lambda>(s, pb').
       try_bind (pg_rendered dbg ps pb') (\<lambda>(rs, pb''). Inr ((''('' @ s @ '')'') # rs, pb'')))"

section \<open>Reads\<close>

definition pg_order_part :: "message_printers \<Rightarrow> sort_key \<Rightarrow> db_error + string" where
  "pg_order_part dbg k =
     try_bind (pg_field_path_expr dbg (sk_path k)) (\<lambda>expr.
       Inr (expr @ '' '' @ (if sk_desc k then ''DESC'' else ''ASC'') @ '' ''
              @ (if sk_nulls_first k then ''NULLS FIRST'' else ''NULLS LAST'')))"

definition pg_compile_order :: "message_printers \<Rightarrow> sort_key list \<Rightarrow> db_error + string" where
  "pg_compile_order dbg order = try_bind (try_map (pg_order_part dbg) order) (\<lambda>parts. Inr (join '', '' parts))"

definition pg_compile_project :: "message_printers \<Rightarrow> path_seg list list option \<Rightarrow> db_error + string" where
  "pg_compile_project dbg project =
     (case project of
        None \<Rightarrow> Inr ''*''
      | Some fs \<Rightarrow>
          if fs = [] then Inr ''*''
          else try_bind (try_map (pg_field_path_expr dbg) fs) (\<lambda>parts. Inr (join '', '' parts)))"

definition pg_where :: "message_printers \<Rightarrow> predicate option \<Rightarrow> string \<Rightarrow> db_value list \<Rightarrow> db_error + (string \<times> db_value list)" where
  "pg_where dbg flt sql pb =
     (case flt of
        None \<Rightarrow> Inr (sql, pb)
      | Some pred \<Rightarrow> try_bind (pg_predicate dbg pred pb) (\<lambda>(expr, pb'). Inr (sql @ '' WHERE '' @ expr, pb')))"

definition pg_compile_scan ::
  "message_printers \<Rightarrow> object_path \<Rightarrow> predicate option \<Rightarrow> sort_key list \<Rightarrow> path_seg list list option \<Rightarrow> nat option
     \<Rightarrow> db_error + (string \<times> db_value list)" where
  "pg_compile_scan dbg path flt order project lim =
     try_bind (pg_quote_object_path dbg path) (\<lambda>table.
     try_bind (pg_compile_project dbg project) (\<lambda>cols.
     try_bind (pg_where dbg flt (''SELECT '' @ cols @ '' FROM '' @ table) []) (\<lambda>(sql, params).
     try_bind (if order = [] then Inr sql
               else try_bind (pg_compile_order dbg order) (\<lambda>o'. Inr (sql @ '' ORDER BY '' @ o'))) (\<lambda>sql'.
       Inr (case lim of None \<Rightarrow> sql' | Some n \<Rightarrow> sql' @ '' LIMIT '' @ show_nat n, params)))))"

definition pg_compile_count ::
  "message_printers \<Rightarrow> object_path \<Rightarrow> predicate option \<Rightarrow> db_error + (string \<times> db_value list)" where
  "pg_compile_count dbg path flt =
     try_bind (pg_quote_object_path dbg path) (\<lambda>table.
       pg_where dbg flt (''SELECT COUNT(*) AS count FROM '' @ table) [])"

section \<open>Definitions\<close>

definition relation_keyword :: "object_kind \<Rightarrow> db_error + string" where
  "relation_keyword kind =
     (case kind of
        KTable \<Rightarrow> Inr ''TABLE''
      | KView \<Rightarrow> Inr ''VIEW''
      | KIndex \<Rightarrow> Inr ''INDEX''
      | KSchema \<Rightarrow> Inr ''SCHEMA''
      | other \<Rightarrow> Inl (EUnsupported (show_kind other @ '' is not a Postgres object this driver can administer'')))"

text \<open>An index is addressed by its schema and name, without the table it is on.\<close>

definition pg_object_ref :: "message_printers \<Rightarrow> object_path \<Rightarrow> object_kind \<Rightarrow> db_error + string" where
  "pg_object_ref dbg path kind =
     (if kind \<noteq> KIndex then pg_quote_parts dbg path
      else if length path < 2 then
        Inl (EUnsupported (''index path '' @ show_object_path path
               @ '' must name the object it is on followed by the index name''))
      else try_bind (pg_quote_ident dbg (path ! (length path - 1))) (\<lambda>name.
        if length path - 2 = 0 then Inr name
        else try_bind (pg_quote_parts dbg (take (length path - 2) path)) (\<lambda>out. Inr (out @ ''.'' @ name))))"

fun pg_index_column :: "message_printers \<Rightarrow> path_seg list \<Rightarrow> db_error + string" where
  "pg_index_column dbg [PField name] = pg_quote_ident dbg name"
| "pg_index_column dbg path =
     Inl (EUnsupported (''index key '' @ show_field_path path
            @ '' is not a plain column: an expression index is native DDL''))"

fun pg_compile_ddl :: "message_printers \<Rightarrow> ddl_op \<Rightarrow> db_error + string" where
  "pg_compile_ddl dbg (DdlNative s) = Inr s"
| "pg_compile_ddl dbg (DdlDrop path kind if_exists) =
     try_bind (relation_keyword kind) (\<lambda>keyword.
     try_bind (pg_object_ref dbg path kind) (\<lambda>target.
       Inr (''DROP '' @ keyword @ '' '' @ (if if_exists then ''IF EXISTS '' else []) @ target)))"
| "pg_compile_ddl dbg (DdlRename src dst kind) =
     try_bind (relation_keyword kind) (\<lambda>keyword.
     try_bind (pg_object_ref dbg src kind) (\<lambda>target.
     try_bind (rename_target src dst) (\<lambda>new.
     try_bind (pg_quote_ident dbg new) (\<lambda>new_name.
       Inr (''ALTER '' @ keyword @ '' '' @ target @ '' RENAME TO '' @ new_name)))))"
| "pg_compile_ddl dbg (DdlCreateIndex path name columns unique if_not_exists) =
     (if columns = [] then Inl (EUnsupported ''CREATE INDEX with no fields'')
      else
        try_bind (pg_quote_object_path dbg path) (\<lambda>table.
        try_bind (pg_quote_ident dbg name) (\<lambda>index.
        try_bind (try_map (pg_index_column dbg) columns) (\<lambda>cols.
          Inr (''CREATE '' @ (if unique then ''UNIQUE '' else []) @ ''INDEX ''
                 @ (if if_not_exists then ''IF NOT EXISTS '' else []) @ index @ '' ON '' @ table
                 @ '' ('' @ join '', '' cols @ '')'')))))"

definition pg_wrap_explain :: "string \<Rightarrow> bool \<Rightarrow> string" where
  "pg_wrap_explain inner analyze =
     (if analyze then ''EXPLAIN (ANALYZE, VERBOSE, FORMAT TEXT) '' @ inner
      else ''EXPLAIN (VERBOSE, FORMAT TEXT) '' @ inner)"

section \<open>Mutations\<close>

definition pg_refuse_expect :: "(path_seg list \<times> db_value) list \<Rightarrow> db_error + unit" where
  "pg_refuse_expect ex =
     (if ex = [] then Inr ()
      else Inl (EUnsupported ''conditional mutation (`expect`): this driver cannot check-and-set''))"

fun pg_assignments ::
  "message_printers \<Rightarrow> (path_seg list \<times> db_value) list \<Rightarrow> db_value list \<Rightarrow> db_error + (string list \<times> db_value list)" where
  "pg_assignments dbg [] pb = Inr ([], pb)"
| "pg_assignments dbg ((field, v) # rest) pb =
     try_bind (pg_field_path_expr dbg field) (\<lambda>col.
       case pg_push pb v of (ph, pb') \<Rightarrow>
         try_bind (pg_assignments dbg rest pb') (\<lambda>(parts, pb''). Inr ((col @ '' = '' @ ph) # parts, pb'')))"

definition pg_key_where ::
  "message_printers \<Rightarrow> (path_seg list \<times> db_value) list \<Rightarrow> db_value list \<Rightarrow> db_error + (string \<times> db_value list)" where
  "pg_key_where dbg key pb =
     (if key = [] then
        Inl (EUnsupported ''mutation with no row identity: refuse to guess which row to affect'')
      else try_bind (pg_assignments dbg key pb) (\<lambda>(parts, pb'). Inr (join '' AND '' parts, pb')))"

fun pg_columns :: "message_printers \<Rightarrow> (string \<times> db_value) list \<Rightarrow> db_value list
    \<Rightarrow> db_error + (string list \<times> string list \<times> db_value list)" where
  "pg_columns dbg [] pb = Inr ([], [], pb)"
| "pg_columns dbg ((name, v) # rest) pb =
     try_bind (pg_quote_ident dbg name) (\<lambda>col.
       case pg_push pb v of (ph, pb') \<Rightarrow>
         try_bind (pg_columns dbg rest pb') (\<lambda>(cols, phs, pb''). Inr (col # cols, ph # phs, pb'')))"

fun pg_compile_mutation :: "message_printers \<Rightarrow> mutation \<Rightarrow> db_error + (string \<times> db_value list)" where
  "pg_compile_mutation dbg (MInsert path doc) =
     try_bind (pg_quote_object_path dbg path) (\<lambda>table.
     try_bind (case doc of
                 VDocument d \<Rightarrow> Inr d
               | other \<Rightarrow> Inl (EUnsupported (''insert document must be Value::Document, got '' @ dbg_value dbg other))) (\<lambda>fs.
     try_bind (pg_columns dbg fs []) (\<lambda>(cols, phs, params).
       Inr (''INSERT INTO '' @ table @ '' ('' @ join '', '' cols @ '') VALUES (''
              @ join '', '' phs @ '')'', params))))"
| "pg_compile_mutation dbg (MUpdate path key sets ex) =
     try_bind (pg_refuse_expect ex) (\<lambda>_.
     try_bind (pg_quote_object_path dbg path) (\<lambda>table.
       if sets = [] then Inl (EUnsupported ''update with no fields to set'')
       else
         try_bind (pg_assignments dbg sets []) (\<lambda>(parts, pb).
         try_bind (pg_key_where dbg key pb) (\<lambda>(wh, params).
           Inr (''UPDATE '' @ table @ '' SET '' @ join '', '' parts @ '' WHERE '' @ wh, params)))))"
| "pg_compile_mutation dbg (MDelete path key ex) =
     try_bind (pg_refuse_expect ex) (\<lambda>_.
     try_bind (pg_quote_object_path dbg path) (\<lambda>table.
     try_bind (pg_key_where dbg key []) (\<lambda>(wh, params).
       Inr (''DELETE FROM '' @ table @ '' WHERE '' @ wh, params))))"

section \<open>The shape of compiled texts\<close>

text \<open>The placeholders for \<open>n\<close> parameters pushed after the first \<open>k\<close>.\<close>

definition dollars :: "nat \<Rightarrow> 'a list \<Rightarrow> string list" where
  "dollars k vs = map (\<lambda>i. dollar (Suc i)) [k..<k + length vs]"

lemma dollars_simps [simp]:
  "dollars k [] = []" "dollars k (v # vs) = dollar (Suc k) # dollars (Suc k) vs" "length (dollars k vs) = length vs"
  by (simp_all add: dollars_def upt_conv_Cons [of k "Suc (k + n)" for n] del: upt_Suc)

lemma dollars_append [simp]: "dollars k (xs @ ys) = dollars k xs @ dollars (k + length xs) ys"
  by (induction xs arbitrary: k) auto

lemma dollar_ok: "mark_ok Postgres (dollar n)"
  by (auto simp: mark_ok_def dollar_def)

lemma dollars_ok: "list_all (mark_ok Postgres) (dollars k vs)"
  by (induction vs arbitrary: k) (simp_all add: dollar_ok)

lemma pg_push_all_dollars: "pg_push_all pb vs = (dollars (length pb) vs, pb @ vs)"
  by (induction vs arbitrary: pb) (simp_all add: pg_push_def)

text \<open>A path whose nested names hold no quote.\<close>

fun quote_free :: "path_seg \<Rightarrow> bool" where
  "quote_free (PField name) = (quote_char \<notin> set name)"
| "quote_free (PIndex n) = True"

definition safe_path :: "path_seg list \<Rightarrow> bool" where
  "safe_path path = list_all quote_free (tl path)"

lemma pg_quote_ident_shape: "pg_quote_ident dbg s = Inr t \<Longrightarrow> sql_shape Postgres t []"
  using shape_quoted [of Postgres dquote DoubleIdent s] by (auto simp: pg_quote_ident_def quoted_ok_def split: if_splits)

lemma pg_quote_parts_shape: "pg_quote_parts dbg parts = Inr t \<Longrightarrow> sql_shape Postgres t []"
  by (auto simp: pg_quote_parts_def plain_char_def intro!: shape_join_plain dest: try_map_shapes [OF _ pg_quote_ident_shape]
      split: if_splits)

lemma pg_quote_path_shape: "pg_quote_object_path dbg path = Inr t \<Longrightarrow> sql_shape Postgres t []"
  unfolding pg_quote_object_path_def by (rule pg_quote_parts_shape)

lemma jsonb_step_quote_free: "jsonb_step dbg seg = Inr t \<Longrightarrow> quote_free seg \<Longrightarrow> quote_char \<notin> set t"
  using show_nat_digits(1) [of "case seg of PIndex n \<Rightarrow> n"]
  by (cases seg) (auto simp: list_all_iff is_ascii_digit_def in_interval_def bval_def split: if_splits)

lemma set_join: "set (join sep xs) \<subseteq> set sep \<union> (\<Union>x \<in> set xs. set x)"
  by (induction sep xs rule: join.induct) auto

lemma jsonb_steps_quote_free:
  assumes "try_map (jsonb_step dbg) rest = Inr steps" "list_all quote_free rest"
  shows "quote_char \<notin> set (join '','' steps)"
proof -
  from assms have "\<forall>t \<in> set steps. quote_char \<notin> set t"
    unfolding try_map_Inr by (induction rule: list_all2_induct) (auto dest: jsonb_step_quote_free)
  then show ?thesis using set_join [of "'',''" steps] by auto
qed

lemma double_none: "q \<notin> set s \<Longrightarrow> double_quote_char q s = s"
  by (induction s) auto

lemma pg_field_shape:
  assumes "pg_field_path_expr dbg path = Inr t" "safe_path path"
  shows "sql_shape Postgres t []"
  using assms
proof (induction dbg path rule: pg_field_path_expr.induct)
  case (3 dbg head rest)
  then obtain base where base: "pg_quote_ident dbg head = Inr base" by auto
  show ?case
  proof (cases "rest = []")
    case True
    with 3 base show ?thesis by (auto intro: pg_quote_ident_shape)
  next
    case False
    with 3 base obtain steps where steps: "try_map (jsonb_step dbg) rest = Inr steps"
      and t: "t = base @ ''#>>'' @ [quote_char] @ ''{'' @ join '','' steps @ ''}'' @ [quote_char]" by auto
    let ?p = "''{'' @ join '','' steps @ ''}''"
    have none: "quote_char \<notin> set ?p" using jsonb_steps_quote_free [OF steps] 3 by (simp add: safe_path_def)
    have "sql_shape Postgres (base @ ''#>>'' @ enclosed quote_char ?p) ([] @ [])"
      by (intro shape_mid pg_quote_ident_shape [OF base] shape_quoted) (simp_all add: plain_char_def quoted_ok_def)
    then show ?thesis unfolding t enclosed_def double_none [OF none] by simp
  qed
qed simp_all

lemma pg_cmp_shape:
  assumes "pg_cmp dbg field cop v pb = Inr (s, pb')" "safe_path field" "plain Postgres cop"
  shows "pb' = pb @ [v] \<and> sql_shape Postgres s [dollar (Suc (length pb))]"
  using assms shape_cmp [OF pg_field_shape, of dbg field _ cop] dollar_ok by (auto simp: pg_cmp_def pg_push_def)

text \<open>A compiled predicate binds its values in order, under consecutive numbers.\<close>

text \<open>The numbered placeholders of the parts of a predicate, one list a part.\<close>

fun numbered :: "nat \<Rightarrow> predicate list \<Rightarrow> string list list" where
  "numbered k [] = []"
| "numbered k (p # ps) = dollars k (predicate_values p) # numbered (k + length (predicate_values p)) ps"

lemma concat_numbered: "concat (numbered k ps) = dollars k (concat (map predicate_values ps))"
  by (induction ps arbitrary: k) simp_all

lemma pg_predicate_shape:
  "pg_predicate dbg p pb = Inr (s, pb') \<Longrightarrow> list_all safe_path (predicate_paths p) \<Longrightarrow>
     pb' = pb @ predicate_values p \<and> sql_shape Postgres s (dollars (length pb) (predicate_values p))"
  "pg_rendered dbg ps pb = Inr (rs, pb') \<Longrightarrow> list_all safe_path (concat (map predicate_paths ps)) \<Longrightarrow>
     pb' = pb @ concat (map predicate_values ps) \<and> list_all2 (sql_shape Postgres) rs (numbered (length pb) ps)"
proof (induction dbg p pb and dbg ps pb arbitrary: s pb' and rs pb' rule: pg_predicate_pg_rendered.induct)
  case (7 dbg field vs pb)
  then show ?case
    using shape_in [OF pg_field_shape dollars_ok, of dbg field _ "length pb" vs]
    by (cases "vs = []") (auto intro: shape_code simp: plain_char_def pg_push_all_dollars)
next
  case (8 dbg field pattern pb)
  then show ?case using shape_like [OF pg_field_shape dollar_ok, of dbg field] by (auto simp: pg_push_def)
next
  case (9 dbg field pb)
  then show ?case using shape_paren_is [OF pg_field_shape, of dbg field _ "'' IS NOT NULL''"]
    by (cases "length field \<le> 1") (auto intro: shape_code simp: plain_char_def)
next
  case (10 dbg field pb)
  then show ?case using shape_paren_is [OF pg_field_shape, of dbg field _ "'' IS NULL''"] by (auto simp: plain_char_def)
next
  case (11 dbg parts pb)
  then show ?case
    using shape_join [of Postgres _ "numbered (length pb) parts" "'' AND ''"]
    by (cases "parts = []") (auto 0 3 intro: shape_code simp: plain_char_def pg_bool_unit_def concat_numbered)
next
  case (12 dbg parts pb)
  then show ?case
    using shape_join [of Postgres _ "numbered (length pb) parts" "'' OR ''"]
    by (cases "parts = []") (auto 0 3 intro: shape_code simp: plain_char_def pg_bool_unit_def concat_numbered)
next
  case (13 dbg inner pb)
  then obtain t where "pg_predicate dbg inner pb = Inr (t, pb')" and s: "s = ''NOT ('' @ t @ '')''" by auto
  with 13 have "pb' = pb @ predicate_values inner" "sql_shape Postgres t (dollars (length pb) (predicate_values inner))"
    by (simp_all only: predicate_paths.simps)
  then show ?case unfolding s by (simp only: predicate_values.simps shape_not)
next
  case (15 dbg p ps pb)
  then obtain t pb1 rs1 where *: "pg_predicate dbg p pb = Inr (t, pb1)" "pg_rendered dbg ps pb1 = Inr (rs1, pb')"
    "rs = (''('' @ t @ '')'') # rs1" by auto
  from "15.prems"(2) have safe: "list_all safe_path (predicate_paths p)" "list_all safe_path (concat (map predicate_paths ps))"
    by simp_all
  from "15.IH"(1) [OF *(1) safe(1)] "15.IH"(2) [OF *(1) refl *(2) safe(2)]
    shape_paren [of Postgres t "dollars (length pb) (predicate_values p)"]
  show ?case unfolding *(3) by simp
qed (use pg_cmp_shape in \<open>auto simp: plain_char_def\<close>)

lemma pg_assignments_shape:
  "pg_assignments dbg kvs pb = Inr (parts, pb') \<Longrightarrow> list_all safe_path (map fst kvs) \<Longrightarrow> plain Postgres sep \<Longrightarrow>
     pb' = pb @ map snd kvs
     \<and> list_all2 (sql_shape Postgres) parts (map (\<lambda>m. [m]) (dollars (length pb) kvs))"
proof (induction dbg kvs pb arbitrary: parts pb' rule: pg_assignments.induct)
  case (2 dbg field v rest pb)
  then obtain col ps where *: "pg_field_path_expr dbg field = Inr col" "pg_assignments dbg rest (pb @ [v]) = Inr (ps, pb')"
    "parts = (col @ '' = '' @ dollar (Suc (length pb))) # ps" by (auto simp: pg_push_def)
  from "2.IH" [OF *(1) _ *(2)] "2.prems"(2,3)
    shape_assign [OF pg_field_shape [OF *(1)] dollar_ok, of "Suc (length pb)"]
  show ?case unfolding *(3) by (simp add: pg_push_def)
qed simp

lemma pg_assigned_shape:
  assumes "pg_assignments dbg kvs pb = Inr (parts, pb')" "list_all safe_path (map fst kvs)" "plain Postgres sep"
  shows "pb' = pb @ map snd kvs \<and> sql_shape Postgres (join sep parts) (dollars (length pb) kvs)"
proof -
  have "concat (map (\<lambda>m. [m]) ms) = ms" for ms :: "string list" by (induction ms) simp_all
  with pg_assignments_shape [OF assms] shape_join [OF _ assms(3)] show ?thesis by metis
qed

lemma dollars_map [simp]: "dollars k (map f xs) = dollars k xs"
  by (simp add: dollars_def)

lemma pg_key_where_shape:
  assumes "pg_key_where dbg key pb = Inr (w, pb')" "list_all safe_path (map fst key)"
  shows "key \<noteq> [] \<and> pb' = pb @ map snd key \<and> sql_shape Postgres w (dollars (length pb) key)"
  using assms pg_assigned_shape [of dbg key pb _ pb' "'' AND ''"] by (auto simp: pg_key_where_def plain_char_def split: if_splits)

lemma pg_columns_shape:
  "pg_columns dbg fs pb = Inr (cols, phs, pb') \<Longrightarrow>
     pb' = pb @ map snd fs \<and> phs = dollars (length pb) fs \<and> list_all (\<lambda>c. sql_shape Postgres c []) cols"
proof (induction dbg fs pb arbitrary: cols phs pb' rule: pg_columns.induct)
  case (2 dbg name v rest pb)
  then obtain col cs ps where *: "pg_quote_ident dbg name = Inr col" "pg_columns dbg rest (pb @ [v]) = Inr (cs, ps, pb')"
    "cols = col # cs" "phs = dollar (Suc (length pb)) # ps" by (auto simp: pg_push_def)
  from "2.IH" [OF *(1) _ *(2)] pg_quote_ident_shape [OF *(1)] show ?case unfolding *(3,4) by (simp add: pg_push_def)
qed simp

lemma pg_mutation_shape:
  assumes "pg_compile_mutation dbg m = Inr (s, params)" "list_all safe_path (mutation_paths m)"
  shows "params = mutation_values m \<and> sql_shape Postgres s (dollars 0 params)"
proof (cases m)
  case (MInsert path doc)
  with assms obtain table fs cols phs where t: "pg_quote_object_path dbg path = Inr table" and doc: "doc = VDocument fs"
    and cols: "pg_columns dbg fs [] = Inr (cols, phs, params)"
    and s: "s = ''INSERT INTO '' @ table @ '' ('' @ join '', '' cols @ '') VALUES ('' @ join '', '' phs @ '')''"
    by (cases doc) auto
  from pg_columns_shape [OF cols] shape_insert [OF pg_quote_path_shape [OF t], of cols phs] dollars_ok [of 0 fs]
  show ?thesis using MInsert doc s by simp
next
  case (MUpdate path key sets ex)
  with assms obtain table parts pb w where t: "pg_quote_object_path dbg path = Inr table"
    and p: "pg_assignments dbg sets [] = Inr (parts, pb)" and w: "pg_key_where dbg key pb = Inr (w, params)"
    and s: "s = ''UPDATE '' @ table @ '' SET '' @ join '', '' parts @ '' WHERE '' @ w"
    by (auto split: if_splits)
  have safe: "list_all safe_path (map fst sets)" "list_all safe_path (map fst key)" using assms(2) MUpdate by simp_all
  from pg_assigned_shape [OF p safe(1), of "'', ''"] pg_key_where_shape [OF w safe(2)]
  have "pb = map snd sets" "sql_shape Postgres (join '', '' parts) (dollars 0 sets)"
    "params = pb @ map snd key" "sql_shape Postgres w (dollars (length pb) key)" by (simp_all add: plain_char_def)
  with shape_update [OF pg_quote_path_shape [OF t], of "join '', '' parts" "dollars 0 sets" w]
  show ?thesis using MUpdate s by simp
next
  case (MDelete path key ex)
  with assms obtain table w where t: "pg_quote_object_path dbg path = Inr table"
    and w: "pg_key_where dbg key [] = Inr (w, params)" and s: "s = ''DELETE FROM '' @ table @ '' WHERE '' @ w"
    by (auto split: if_splits)
  have safe: "list_all safe_path (map fst key)" using assms(2) MDelete by simp
  from shape_delete [OF pg_quote_path_shape [OF t]] pg_key_where_shape [OF w safe] MDelete s show ?thesis by simp
qed

lemma pg_where_shape:
  assumes "pg_where dbg flt sql [] = Inr (s, pb')" "sql_shape Postgres sql []"
    "list_all safe_path (case flt of None \<Rightarrow> [] | Some p \<Rightarrow> predicate_paths p)"
  shows "pb' = (case flt of None \<Rightarrow> [] | Some p \<Rightarrow> predicate_values p) \<and> sql_shape Postgres s (dollars 0 pb')"
proof (cases flt)
  case (Some p)
  with assms(1) obtain expr where e: "pg_predicate dbg p [] = Inr (expr, pb')" and s: "s = sql @ '' WHERE '' @ expr"
    by (auto simp: pg_where_def)
  from pg_predicate_shape(1) [OF e] shape_where [OF assms(2), of expr] show ?thesis using Some s assms(3) by simp
qed (use assms in \<open>auto simp: pg_where_def\<close>)

lemma pg_order_part_shape: "pg_order_part dbg k = Inr t \<Longrightarrow> safe_path (sk_path k) \<Longrightarrow> sql_shape Postgres t []"
proof -
  assume "pg_order_part dbg k = Inr t" and safe: "safe_path (sk_path k)"
  then obtain e where e: "pg_field_path_expr dbg (sk_path k) = Inr e"
    and t: "t = e @ '' '' @ (if sk_desc k then ''DESC'' else ''ASC'') @ '' ''
              @ (if sk_nulls_first k then ''NULLS FIRST'' else ''NULLS LAST'')"
    by (auto simp: pg_order_part_def)
  show ?thesis unfolding t
    by (rule shape_suffix [OF pg_field_shape [OF e safe]]) (simp add: plain_append plain_char_def)
qed

lemma try_map_shapes_if:
  assumes "try_map f xs = Inr ys" "list_all P xs" "\<And>x y. f x = Inr y \<Longrightarrow> P x \<Longrightarrow> sql_shape d y []"
  shows "list_all (\<lambda>s. sql_shape d s []) ys"
  using assms(1,2) unfolding try_map_Inr by (induction rule: list_all2_induct) (auto intro: assms(3))

lemma pg_compile_order_shape:
  assumes "pg_compile_order dbg order = Inr t" "list_all (\<lambda>k. safe_path (sk_path k)) order"
  shows "sql_shape Postgres t []"
  using assms try_map_shapes_if [OF _ assms(2) pg_order_part_shape]
  by (auto simp: pg_compile_order_def plain_char_def intro!: shape_join_plain)

lemma pg_project_shape:
  assumes "pg_compile_project dbg project = Inr t" "list_all safe_path (case project of None \<Rightarrow> [] | Some fs \<Rightarrow> fs)"
  shows "sql_shape Postgres t []"
  using assms shape_code [of Postgres "''*''"] try_map_shapes_if [OF _ _ pg_field_shape]
  by (auto simp: pg_compile_project_def plain_char_def intro!: shape_join_plain split: option.splits if_splits)

text \<open>The paths a read names.\<close>

definition read_paths :: "predicate option \<Rightarrow> sort_key list \<Rightarrow> path_seg list list option \<Rightarrow> path_seg list list" where
  "read_paths flt order project =
     (case flt of None \<Rightarrow> [] | Some p \<Rightarrow> predicate_paths p) @ map sk_path order
     @ (case project of None \<Rightarrow> [] | Some fs \<Rightarrow> fs)"

lemma pg_scan_shape:
  assumes "pg_compile_scan dbg path flt order project lim = Inr (s, params)" "list_all safe_path (read_paths flt order project)"
  shows "params = (case flt of None \<Rightarrow> [] | Some p \<Rightarrow> predicate_values p) \<and> sql_shape Postgres s (dollars 0 params)"
proof -
  from assms(1) obtain table cols sql sql' where t: "pg_quote_object_path dbg path = Inr table"
    and c: "pg_compile_project dbg project = Inr cols"
    and w: "pg_where dbg flt (''SELECT '' @ cols @ '' FROM '' @ table) [] = Inr (sql, params)"
    and o: "(if order = [] then Inr sql else try_bind (pg_compile_order dbg order) (\<lambda>o'. Inr (sql @ '' ORDER BY '' @ o'))) = Inr sql'"
    and s: "s = (case lim of None \<Rightarrow> sql' | Some n \<Rightarrow> sql' @ '' LIMIT '' @ show_nat n)"
    unfolding pg_compile_scan_def by auto
  from assms(2) have safe: "list_all safe_path (case flt of None \<Rightarrow> [] | Some p \<Rightarrow> predicate_paths p)"
    "list_all (\<lambda>k. safe_path (sk_path k)) order" "list_all safe_path (case project of None \<Rightarrow> [] | Some fs \<Rightarrow> fs)"
    by (simp_all add: read_paths_def list_all_iff)
  have "sql_shape Postgres (''SELECT '' @ cols @ '' FROM '' @ table) []"
    by (rule shape_select [OF pg_project_shape [OF c safe(3)] pg_quote_path_shape [OF t]])
  note w = pg_where_shape [OF w this safe(1)]
  then have "sql_shape Postgres sql' (dollars 0 params)"
  proof (cases "order = []")
    case False
    with o obtain e where "pg_compile_order dbg order = Inr e" "sql' = sql @ '' ORDER BY '' @ e" by auto
    with w safe(2) show ?thesis by (auto simp only: intro: shape_order_by pg_compile_order_shape)
  qed (use o w in simp)
  with w show ?thesis unfolding s by (cases lim) (simp_all only: option.case shape_limit)
qed

lemma pg_count_shape:
  assumes "pg_compile_count dbg path flt = Inr (s, params)" "list_all safe_path (read_paths flt [] None)"
  shows "params = (case flt of None \<Rightarrow> [] | Some p \<Rightarrow> predicate_values p) \<and> sql_shape Postgres s (dollars 0 params)"
proof -
  from assms(1) obtain table where t: "pg_quote_object_path dbg path = Inr table"
    and w: "pg_where dbg flt (''SELECT COUNT(*) AS count FROM '' @ table) [] = Inr (s, params)"
    unfolding pg_compile_count_def by auto
  have "sql_shape Postgres (''SELECT COUNT(*) AS count FROM '' @ table) []"
    using shape_prefix [OF _ pg_quote_path_shape [OF t], of "''SELECT COUNT(*) AS count FROM ''"] by (simp add: plain_char_def)
  moreover have "list_all safe_path (case flt of None \<Rightarrow> [] | Some p \<Rightarrow> predicate_paths p)"
    using assms(2) by (simp add: read_paths_def)
  ultimately show ?thesis by (rule pg_where_shape [OF w])
qed

section \<open>The text does not depend on the values\<close>

lemma pg_push_all_blank: "length pc = length pb \<Longrightarrow> fst (pg_push_all pc (map f vs)) = fst (pg_push_all pb vs)"
  by (simp add: pg_push_all_dollars)

lemma pg_predicate_blank:
  "pg_predicate dbg p pb = Inr (s, pb') \<Longrightarrow> length pc = length pb \<Longrightarrow>
     \<exists>pc'. pg_predicate dbg (blank_predicate p) pc = Inr (s, pc') \<and> length pc' = length pb'"
  "pg_rendered dbg ps pb = Inr (rs, pb') \<Longrightarrow> length pc = length pb \<Longrightarrow>
     \<exists>pc'. pg_rendered dbg (map blank_predicate ps) pc = Inr (rs, pc') \<and> length pc' = length pb'"
proof (induction dbg p pb and dbg ps pb arbitrary: s pb' pc and rs pb' pc rule: pg_predicate_pg_rendered.induct)
  case (11 dbg parts pb)
  then show ?case by (cases "parts = []") fastforce+
next
  case (12 dbg parts pb)
  then show ?case by (cases "parts = []") fastforce+
next
  case (13 dbg inner pb)
  then show ?case by fastforce
next
  case (15 dbg p ps pb)
  then obtain t pb1 rs1 where *: "pg_predicate dbg p pb = Inr (t, pb1)" "pg_rendered dbg ps pb1 = Inr (rs1, pb')"
    "rs = (''('' @ t @ '')'') # rs1" by auto
  from "15.IH"(1) [OF *(1) "15.prems"(2)] obtain pc1 where
    1: "pg_predicate dbg (blank_predicate p) pc = Inr (t, pc1)" "length pc1 = length pb1" by blast
  from "15.IH"(2) [OF *(1) refl *(2) 1(2)] 1(1) show ?case using *(3) by auto
qed (auto simp: pg_cmp_def pg_push_def pg_push_all_dollars split: if_splits)

lemma pg_assignments_blank:
  "pg_assignments dbg kvs pb = Inr (parts, pb') \<Longrightarrow> length pc = length pb \<Longrightarrow>
     \<exists>pc'. pg_assignments dbg (blank_snd kvs) pc = Inr (parts, pc') \<and> length pc' = length pb'"
proof (induction dbg kvs pb arbitrary: parts pb' pc rule: pg_assignments.induct)
  case (2 dbg field v rest pb)
  then obtain col ps where *: "pg_field_path_expr dbg field = Inr col" "pg_assignments dbg rest (pb @ [v]) = Inr (ps, pb')"
    "parts = (col @ '' = '' @ dollar (Suc (length pb))) # ps" by (auto simp: pg_push_def)
  from "2.IH" [OF *(1) _ *(2), of "dollar (Suc (length pb))" "pc @ [VNull]"] "2.prems"(2) show ?case
    using * by (auto simp: pg_push_def)
qed auto

lemma pg_key_where_blank:
  "pg_key_where dbg key pb = Inr (w, pb') \<Longrightarrow> length pc = length pb \<Longrightarrow>
     \<exists>pc'. pg_key_where dbg (blank_snd key) pc = Inr (w, pc') \<and> length pc' = length pb'"
  using pg_assignments_blank [of dbg key pb _ _ pc] by (fastforce simp: pg_key_where_def split: if_splits)

lemma pg_columns_blank:
  "pg_columns dbg fs pb = Inr (cols, phs, pb') \<Longrightarrow> length pc = length pb \<Longrightarrow>
     \<exists>pc'. pg_columns dbg (blank_snd fs) pc = Inr (cols, phs, pc') \<and> length pc' = length pb'"
proof (induction dbg fs pb arbitrary: cols phs pb' pc rule: pg_columns.induct)
  case (2 dbg name v rest pb)
  then obtain col cs ps where *: "pg_quote_ident dbg name = Inr col" "pg_columns dbg rest (pb @ [v]) = Inr (cs, ps, pb')"
    "cols = col # cs" "phs = dollar (Suc (length pb)) # ps" by (auto simp: pg_push_def)
  from "2.IH" [OF *(1) _ *(2), of "dollar (Suc (length pb))" "pc @ [VNull]"] "2.prems"(2) show ?case
    using * by (auto simp: pg_push_def)
qed auto

lemma pg_mutation_blank:
  assumes "pg_compile_mutation dbg m = Inr (s, params)"
  shows "\<exists>pc. pg_compile_mutation dbg (blank_mutation m) = Inr (s, pc)"
proof (cases m)
  case (MInsert path doc)
  with assms pg_columns_blank [of dbg _ "[]" _ _ _ "[]"] show ?thesis by (cases doc) fastforce+
next
  case (MUpdate path key sets ex)
  with assms obtain table parts pb w where *: "pg_refuse_expect ex = Inr ()" "pg_quote_object_path dbg path = Inr table" "sets \<noteq> []"
    "pg_assignments dbg sets [] = Inr (parts, pb)" "pg_key_where dbg key pb = Inr (w, params)"
    "s = ''UPDATE '' @ table @ '' SET '' @ join '', '' parts @ '' WHERE '' @ w" by (auto split: if_splits)
  from pg_assignments_blank [OF *(4), of "[]"] obtain pc where
    1: "pg_assignments dbg (blank_snd sets) [] = Inr (parts, pc)" "length pc = length pb" by auto
  from pg_key_where_blank [OF *(5) 1(2)] 1(1) * MUpdate show ?thesis by (auto simp: pg_refuse_expect_def split: if_splits)
next
  case (MDelete path key ex)
  with assms pg_key_where_blank [of dbg key "[]" _ _ "[]"] show ?thesis by (fastforce simp: pg_refuse_expect_def split: if_splits)
qed

section \<open>Properties\<close>

text \<open>
  C25.  When the nested names of its field paths hold no quote, what compiles for PostgreSQL is
  closed: no comment opens in it, no semicolon ends it early, and its placeholders are the
  consecutive numbers of the parameters, which are the values in order; and the text is the one
  the same mutation with every value blanked compiles to.
\<close>

theorem pg_mutation_closed:
  assumes "pg_compile_mutation dbg m = Inr (s, params)" and "list_all safe_path (mutation_paths m)"
  shows "reads_closed Postgres s (length params) \<and> sql_shape Postgres s (dollars 0 params) \<and> params = mutation_values m
    \<and> (\<exists>blank. pg_compile_mutation dbg (blank_mutation m) = Inr (s, blank))"
proof -
  from pg_mutation_shape [OF assms] have vals: "params = mutation_values m" and shape: "sql_shape Postgres s (dollars 0 params)"
    by blast+
  from shape_reads_closed [OF shape] have "reads_closed Postgres s (length params)" by simp
  with vals shape pg_mutation_blank [OF assms(1)] show ?thesis by blast
qed

lemma pg_update_example:
  "pg_compile_mutation plain_printers
     (MUpdate [''public'', ''t''] [([PField ''id''], VI64 7)] [([PField ''a''], VI64 1), ([PField ''b''], VNull)] [])
   = Inr (''UPDATE \"public\".\"t\" SET \"a\" = $1, \"b\" = $2 WHERE \"id\" = $3'', [VI64 1, VNull, VI64 7])"
  by code_simp

lemma pg_mutation_closed_witness:
  "reads_closed Postgres ''UPDATE \"public\".\"t\" SET \"a\" = $1, \"b\" = $2 WHERE \"id\" = $3'' 3"
  using pg_mutation_closed [OF pg_update_example] by (simp add: safe_path_def numeral_3_eq_3)

text \<open>
  The reads of the PostgreSQL driver are closed under the same condition.
\<close>

theorem pg_reads_closed:
  assumes "pg_compile_scan dbg path flt order project lim = Inr (s, params)" and "list_all safe_path (read_paths flt order project)"
  shows "reads_closed Postgres s (length params) \<and> sql_shape Postgres s (dollars 0 params)
    \<and> params = (case flt of None \<Rightarrow> [] | Some p \<Rightarrow> predicate_values p)"
proof -
  from pg_scan_shape [OF assms] have vals: "params = (case flt of None \<Rightarrow> [] | Some p \<Rightarrow> predicate_values p)"
    and shape: "sql_shape Postgres s (dollars 0 params)" by blast+
  from shape_reads_closed [OF shape] vals shape show ?thesis by (simp only: dollars_simps)
qed

lemma pg_scan_example:
  "pg_compile_scan plain_printers [''t''] (Some (POr [PEq [PField ''doc'', PField ''a''] (VI64 1), PLike [PField ''b''] ''x%'']))
     [\<lparr>sk_path = [PField ''id''], sk_desc = True, sk_nulls_first = False\<rparr>] None None
   = Inr (''SELECT * FROM \"t\" WHERE (\"doc\"#>>'' @ [quote_char] @ ''{a}'' @ [quote_char]
          @ '' = $1) OR (\"b\" LIKE $2) ORDER BY \"id\" DESC NULLS LAST'', [VI64 1, VStr ''x%''])"
  by code_simp

lemma pg_reads_closed_witness:
  "reads_closed Postgres (''SELECT * FROM \"t\" WHERE (\"doc\"#>>'' @ [quote_char] @ ''{a}'' @ [quote_char]
     @ '' = $1) OR (\"b\" LIKE $2) ORDER BY \"id\" DESC NULLS LAST'') 2"
  using pg_reads_closed [OF pg_scan_example]
  by (simp add: safe_path_def read_paths_def numeral_2_eq_2)

text \<open>
  C26.  The condition is needed: the check of a nested name lets a single quote through.  Whatever text
  without quotes, brackets, comments and semicolons is written between two such quotes in a nested
  name, a delete keyed by that name compiles, and the text is code of the statement's condition,
  between the path operator and the comparison with the key; only the key is bound.
\<close>

theorem pg_nested_name_injects:
  assumes "plain Postgres p" "list_all (\<lambda>c. \<not> jsonb_unsafe c) p"
    and "CHR 0x00 \<notin> set table" "CHR 0x00 \<notin> set field"
  shows "\<exists>sql. pg_compile_mutation dbg (MDelete [table] [([PField field, PField ([quote_char] @ p @ [quote_char])], v)] [])
        = Inr (sql, [v])
     \<and> code_text sql (lex_chunks sql Postgres) = ''DELETE FROM  WHERE #>>'' @ p @ '' = $1''"
proof -
  let ?ps = "[PCode ''DELETE FROM '', PQuoted dquote DoubleIdent table, PCode '' WHERE '', PQuoted dquote DoubleIdent field,
     PCode ''#>>'', PQuoted quote_char SingleString ''{'', PCode p, PQuoted quote_char SingleString ''}'', PCode '' = '', PMark ''$1'']"
  have one: "show_nat (Suc 0) = ''1''" by code_simp
  have mark: "mark_ok Postgres ''$1''" unfolding mark_ok_def using one by (auto intro!: exI [of _ "Suc 0"])
  have "pg_compile_mutation dbg (MDelete [table] [([PField field, PField ([quote_char] @ p @ [quote_char])], v)] [])
      = Inr (pieces_text ?ps, [v])"
    using assms(2-4) one
    by (simp add: pg_quote_object_path_def pg_quote_parts_def pg_quote_ident_def pg_key_where_def
        pg_refuse_expect_def enclosed_def jsonb_unsafe_def pg_push_def dollar_def list_ex_iff list_all_iff)
  moreover have "pieces_ok Postgres ?ps"
    using assms(1) mark by (simp add: plain_def quoted_ok_def plain_char_def)
  from pieces_lex [OF this] have "code_text (pieces_text ?ps) (lex_chunks (pieces_text ?ps) Postgres) = unquoted ?ps"
    by (simp add: reads_as_def)
  ultimately show ?thesis by (intro exI [of _ "pieces_text ?ps"]) simp
qed

text \<open>
  So a delete of one row can be given a condition in which \<open>OR TRUE OR\<close> stands beside the comparison
  with its key.
\<close>

lemma pg_nested_name_injects_witness:
  "\<exists>sql. pg_compile_mutation plain_printers (MDelete [''t''] [([PField ''doc'',
        PField ([quote_char] @ ''::text::_text IS NULL OR TRUE OR '' @ [quote_char])], VStr ''k'')] []) = Inr (sql, [VStr ''k''])
     \<and> code_text sql (lex_chunks sql Postgres) = ''DELETE FROM  WHERE #>>'' @ ''::text::_text IS NULL OR TRUE OR '' @ '' = $1''"
  by (rule pg_nested_name_injects) (code_simp, code_simp, simp_all)

end
