(* ===== verification/Sqlite_Sql.thy ===== *)
theory Sqlite_Sql
  imports Sql_Pieces
begin

text \<open>
  The SQL the SQLite driver compiles operations to, \<open>crates/datagrep-drv-sqlite/src/compile.rs\<close>
  with \<open>quote_ident\<close> of \<open>value.rs\<close> and the keyset tokens of \<open>scan.rs\<close>.
\<close>

section \<open>Identifiers\<close>

definition query_error :: "string \<Rightarrow> db_error" where
  "query_error message = EQuery None message None"

definition lite_quote_ident :: "message_printers \<Rightarrow> string \<Rightarrow> db_error + string" where
  "lite_quote_ident dbg name =
     (if name = [] then Inl (query_error ''cannot quote an empty identifier'')
      else if CHR 0x00 \<in> set name then Inl (query_error (''identifier contains a NUL byte: '' @ dbg_str dbg name))
      else Inr (enclosed dquote name))"

definition lite_quote_parts :: "message_printers \<Rightarrow> string list \<Rightarrow> db_error + string" where
  "lite_quote_parts dbg parts =
     (if parts = [] then Inl (query_error ''cannot compile an empty object path'')
      else try_bind (try_map (lite_quote_ident dbg) parts) (\<lambda>qs. Inr (join ''.'' qs)))"

definition lite_object_path :: "message_printers \<Rightarrow> object_path \<Rightarrow> db_error + string" where
  "lite_object_path dbg path = lite_quote_parts dbg path"

fun field_ident :: "message_printers \<Rightarrow> path_seg list \<Rightarrow> db_error + string" where
  "field_ident dbg [PField name] = lite_quote_ident dbg name"
| "field_ident dbg path =
     Inl (EUnsupported (''nested/indexed field path `'' @ show_field_path path
            @ ''` in a SQLite predicate/order/project: SQLite tables are flat''))"

fun field_name :: "path_seg list \<Rightarrow> string option" where
  "field_name [PField name] = Some name"
| "field_name _ = None"

section \<open>Definitions\<close>

definition lite_index_ref :: "message_printers \<Rightarrow> object_path \<Rightarrow> db_error + string" where
  "lite_index_ref dbg path =
     (if length path < 2 then
        Inl (EUnsupported (''index path `'' @ show_object_path path
               @ ''` must name the table it is on followed by the index name''))
      else try_bind (lite_quote_ident dbg (path ! (length path - 1))) (\<lambda>name.
        if length path - 2 = 0 then Inr name
        else try_bind (lite_quote_parts dbg (take (length path - 2) path)) (\<lambda>out. Inr (out @ ''.'' @ name))))"

fun lite_compile_ddl :: "message_printers \<Rightarrow> ddl_op \<Rightarrow> db_error + string" where
  "lite_compile_ddl dbg (DdlNative s) = Inr s"
| "lite_compile_ddl dbg (DdlDrop path kind if_exists) =
     try_bind (case kind of
                 KTable \<Rightarrow> Inr ''TABLE''
               | KView \<Rightarrow> Inr ''VIEW''
               | KIndex \<Rightarrow> Inr ''INDEX''
               | other \<Rightarrow> Inl (EUnsupported (show_kind other @ '' is not a SQLite object this driver can administer''))) (\<lambda>keyword.
     try_bind (if kind = KIndex then lite_index_ref dbg path else lite_object_path dbg path) (\<lambda>target.
       Inr (''DROP '' @ keyword @ '' '' @ (if if_exists then ''IF EXISTS '' else []) @ target)))"
| "lite_compile_ddl dbg (DdlRename src dst kind) =
     try_bind (rename_target src dst) (\<lambda>new.
     try_bind (lite_quote_ident dbg new) (\<lambda>new_name.
       if kind \<noteq> KTable then
         Inl (EUnsupported (''SQLite can only rename a table: a '' @ show_kind kind
                @ '' has to be dropped and recreated (`ALTER VIEW`/`ALTER INDEX` are syntax errors)''))
       else try_bind (lite_object_path dbg src) (\<lambda>t. Inr (''ALTER TABLE '' @ t @ '' RENAME TO '' @ new_name))))"
| "lite_compile_ddl dbg (DdlCreateIndex path name columns unique if_not_exists) =
     (if columns = [] then Inl (EUnsupported ''CREATE INDEX with no fields'')
      else if path = [] then Inl (EUnsupported ''CREATE INDEX on an empty object path'')
      else if 1 < length (butlast path) then
        Inl (EUnsupported (''object path `'' @ show_object_path path @ ''` is deeper than SQLite'' @ [quote_char] @ ''s schema.table''))
      else
        try_bind (if butlast path = [] then Inr []
                  else try_bind (lite_quote_parts dbg (butlast path)) (\<lambda>s. Inr (s @ ''.''))) (\<lambda>schema.
        try_bind (lite_quote_ident dbg name) (\<lambda>index.
        try_bind (try_map (field_ident dbg) columns) (\<lambda>cols.
        try_bind (lite_quote_ident dbg (last path)) (\<lambda>table.
          Inr (''CREATE '' @ (if unique then ''UNIQUE '' else []) @ ''INDEX ''
                 @ (if if_not_exists then ''IF NOT EXISTS '' else []) @ schema @ index @ '' ON '' @ table
                 @ '' ('' @ join '', '' cols @ '')''))))))"

section \<open>Predicates\<close>

definition lite_cmp ::
  "message_printers \<Rightarrow> path_seg list \<Rightarrow> string \<Rightarrow> db_value \<Rightarrow> db_value list \<Rightarrow> db_error + (string \<times> db_value list)" where
  "lite_cmp dbg field cop v params =
     try_bind (field_ident dbg field) (\<lambda>f. Inr (f @ '' '' @ cop @ '' '' @ ''?'', params @ [v]))"

fun lite_predicate :: "message_printers \<Rightarrow> predicate \<Rightarrow> db_value list \<Rightarrow> db_error + (string \<times> db_value list)"
and lite_clauses :: "message_printers \<Rightarrow> predicate list \<Rightarrow> db_value list \<Rightarrow> db_error + (string list \<times> db_value list)" where
  "lite_predicate dbg (PEq field v) params = lite_cmp dbg field ''='' v params"
| "lite_predicate dbg (PNe field v) params = lite_cmp dbg field ''<>'' v params"
| "lite_predicate dbg (PLt field v) params = lite_cmp dbg field ''<'' v params"
| "lite_predicate dbg (PLe field v) params = lite_cmp dbg field ''<='' v params"
| "lite_predicate dbg (PGt field v) params = lite_cmp dbg field ''>'' v params"
| "lite_predicate dbg (PGe field v) params = lite_cmp dbg field ''>='' v params"
| "lite_predicate dbg (PIn field vs) params =
     try_bind (field_ident dbg field) (\<lambda>f.
       if vs = [] then Inr (''0'', params)
       else Inr (f @ '' IN ('' @ join '', '' (map (\<lambda>_. ''?'') vs) @ '')'', params @ vs))"
| "lite_predicate dbg (PLike field pattern) params =
     try_bind (field_ident dbg field) (\<lambda>f. Inr (f @ '' LIKE '' @ ''?'', params @ [VStr pattern]))"
| "lite_predicate dbg (PExists field) params =
     try_bind (field_ident dbg field) (\<lambda>f. Inr (''('' @ f @ '' IS NULL OR '' @ f @ '' IS NOT NULL)'', params))"
| "lite_predicate dbg (PIsNull field) params =
     try_bind (field_ident dbg field) (\<lambda>f. Inr (f @ '' IS NULL'', params))"
| "lite_predicate dbg (PAnd parts) params =
     (if parts = [] then Inr (''1'', params)
      else try_bind (lite_clauses dbg parts params) (\<lambda>(cs, params'). Inr (''('' @ join '' AND '' cs @ '')'', params')))"
| "lite_predicate dbg (POr parts) params =
     (if parts = [] then Inr (''0'', params)
      else try_bind (lite_clauses dbg parts params) (\<lambda>(cs, params'). Inr (''('' @ join '' OR '' cs @ '')'', params')))"
| "lite_predicate dbg (PNot inner) params =
     try_bind (lite_predicate dbg inner params) (\<lambda>(s, params'). Inr (''NOT ('' @ s @ '')'', params'))"
| "lite_clauses dbg [] params = Inr ([], params)"
| "lite_clauses dbg (p # ps) params =
     try_bind (lite_predicate dbg p params) (\<lambda>(s, params').
       try_bind (lite_clauses dbg ps params') (\<lambda>(cs, params''). Inr (s # cs, params'')))"

section \<open>Keyset tokens\<close>

text \<open>Big-endian bytes of a \<open>k\<close>-byte integer, and back.\<close>

fun be_bytes :: "nat \<Rightarrow> nat \<Rightarrow> string" where
  "be_bytes 0 n = []"
| "be_bytes (Suc k) n = be_bytes k (n div 256) @ [char_of (n mod 256)]"

definition be_value :: "string \<Rightarrow> nat" where
  "be_value s = fold (\<lambda>c acc. acc * 256 + bval c) s 0"

text \<open>Two's complement in \<open>k\<close> bytes.\<close>

definition signed_bytes :: "nat \<Rightarrow> int \<Rightarrow> string" where
  "signed_bytes k i = be_bytes k (nat (i mod 256 ^ k))"

definition signed_value :: "nat \<Rightarrow> string \<Rightarrow> int" where
  "signed_value k s =
     (let n = int (be_value s) in if n < 256 ^ k div 2 then n else n - 256 ^ k)"

text \<open>The bytes of a double, a parameter: writer and reader.\<close>

record f64_codec =
  f64_bytes :: "f64 \<Rightarrow> string"
  f64_value :: "string \<Rightarrow> f64"

fun encode_resume :: "f64_codec \<Rightarrow> db_value \<Rightarrow> string" where
  "encode_resume fc VNull = [char_of (0 :: nat)]"
| "encode_resume fc (VI64 i) = char_of (1 :: nat) # signed_bytes 8 i"
| "encode_resume fc (VU64 u) = char_of (9 :: nat) # be_bytes 8 u"
| "encode_resume fc (VF64 f) = char_of (2 :: nat) # f64_bytes fc f"
| "encode_resume fc (VStr s) = char_of (3 :: nat) # s"
| "encode_resume fc (VBytes b) = char_of (4 :: nat) # b"
| "encode_resume fc (VBool b) = [char_of (5 :: nat), char_of (if b then 1 else 0 :: nat)]"
| "encode_resume fc (VDate d) = char_of (6 :: nat) # signed_bytes 4 d"
| "encode_resume fc (VTime n) = char_of (7 :: nat) # signed_bytes 8 n"
| "encode_resume fc (VTimestamp micros tz) = char_of (8 :: nat) # signed_bytes 8 micros"
| "encode_resume fc _ = [char_of (0 :: nat)]"

definition corrupt_token :: db_error where
  "corrupt_token = EProtocol ''corrupt SQLite resume token''"

text \<open>\<open>rest.try_into()\<close>: exactly so many bytes.\<close>

definition exactly :: "nat \<Rightarrow> string \<Rightarrow> db_value \<Rightarrow> db_error + db_value" where
  "exactly k rest v = (if length rest = k then Inr v else Inl corrupt_token)"

fun decode_resume :: "f64_codec \<Rightarrow> string \<Rightarrow> db_error + db_value" where
  "decode_resume fc [] = Inl corrupt_token"
| "decode_resume fc (tag # rest) =
     (let t = bval tag
      in if t = 0 then Inr VNull
         else if t = 1 then exactly 8 rest (VI64 (signed_value 8 rest))
         else if t = 9 then exactly 8 rest (VU64 (be_value rest))
         else if t = 2 then exactly 8 rest (VF64 (f64_value fc rest))
         else if t = 3 then (if utf8 rest then Inr (VStr rest) else Inl corrupt_token)
         else if t = 4 then Inr (VBytes rest)
         else if t = 5 then (case rest of [] \<Rightarrow> Inl corrupt_token | b # _ \<Rightarrow> Inr (VBool (bval b \<noteq> 0)))
         else if t = 6 then exactly 4 rest (VDate (signed_value 4 rest))
         else if t = 7 then exactly 8 rest (VTime (signed_value 8 rest))
         else if t = 8 then exactly 8 rest (VTimestamp (signed_value 8 rest) TzNaive)
         else Inl corrupt_token)"

definition compile_resume_clause ::
  "message_printers \<Rightarrow> f64_codec \<Rightarrow> sort_key list \<Rightarrow> string \<Rightarrow> db_value list \<Rightarrow> db_error + (string \<times> db_value list)" where
  "compile_resume_clause dbg fc order token params =
     (case order of
        [key] \<Rightarrow>
          try_bind (field_ident dbg (sk_path key)) (\<lambda>field.
          try_bind (decode_resume fc token) (\<lambda>v.
            Inr (field @ '' '' @ (if sk_desc key then ''<'' else ''>'') @ '' ?'', params @ [v])))
      | _ \<Rightarrow>
          Inl (EUnsupported (''Op::Scan resume with '' @ show_nat (length order)
                 @ '' sort keys: only single-key keyset resume is supported'')))"

section \<open>Reads\<close>

definition compile_sort_key :: "message_printers \<Rightarrow> sort_key \<Rightarrow> db_error + string" where
  "compile_sort_key dbg sk =
     try_bind (field_ident dbg (sk_path sk)) (\<lambda>field.
       Inr (field @ '' '' @ (if sk_desc sk then ''DESC'' else ''ASC'') @ '' ''
              @ (if sk_nulls_first sk then ''NULLS FIRST'' else ''NULLS LAST'')))"

definition limit_value :: "nat \<Rightarrow> db_value" where
  "limit_value n = VI64 (if int n < 2 ^ 63 then int n else 2 ^ 63 - 1)"

definition lite_compile_scan ::
  "message_printers \<Rightarrow> f64_codec \<Rightarrow> object_path \<Rightarrow> predicate option \<Rightarrow> sort_key list \<Rightarrow> path_seg list list option
     \<Rightarrow> nat option \<Rightarrow> string option \<Rightarrow> db_error + (string \<times> db_value list)" where
  "lite_compile_scan dbg fc path flt order project lim resume =
     try_bind (lite_object_path dbg path) (\<lambda>table.
     try_bind (case project of
                 Some fs \<Rightarrow> if fs \<noteq> [] then try_bind (try_map (field_ident dbg) fs) (\<lambda>cols. Inr (join '', '' cols))
                            else Inr ''*''
               | None \<Rightarrow> Inr ''*'') (\<lambda>select_list.
     try_bind (case flt of None \<Rightarrow> Inr ([], [])
               | Some pred \<Rightarrow> try_bind (lite_predicate dbg pred []) (\<lambda>(s, ps). Inr ([s], ps))) (\<lambda>(clauses1, params1).
     try_bind (case resume of None \<Rightarrow> Inr (clauses1, params1)
               | Some token \<Rightarrow>
                   try_bind (compile_resume_clause dbg fc order token params1) (\<lambda>(s, ps). Inr (clauses1 @ [s], ps))) (\<lambda>(clauses, params).
     try_bind (if order = [] then Inr [] else try_map (compile_sort_key dbg) order) (\<lambda>keys.
       Inr (''SELECT '' @ select_list @ '' FROM '' @ table
              @ (if clauses = [] then [] else '' WHERE '' @ join '' AND '' clauses)
              @ (if order = [] then [] else '' ORDER BY '' @ join '', '' keys)
              @ (case lim of None \<Rightarrow> [] | Some n \<Rightarrow> '' LIMIT ?''),
            params @ (case lim of None \<Rightarrow> [] | Some n \<Rightarrow> [limit_value n])))))))"

definition lite_compile_count ::
  "message_printers \<Rightarrow> object_path \<Rightarrow> predicate option \<Rightarrow> db_error + (string \<times> db_value list)" where
  "lite_compile_count dbg path flt =
     try_bind (lite_object_path dbg path) (\<lambda>table.
       case flt of
         None \<Rightarrow> Inr (''SELECT COUNT(*) FROM '' @ table, [])
       | Some pred \<Rightarrow>
           try_bind (lite_predicate dbg pred []) (\<lambda>(s, ps). Inr (''SELECT COUNT(*) FROM '' @ table @ '' WHERE '' @ s, ps)))"

section \<open>The shape of compiled texts\<close>

lemma lite_quote_ident_shape: "lite_quote_ident dbg s = Inr t \<Longrightarrow> sql_shape Sqlite t []"
  using shape_quoted [of Sqlite dquote DoubleIdent s] by (auto simp: lite_quote_ident_def quoted_ok_def split: if_splits)

lemma lite_quote_parts_shape: "lite_quote_parts dbg parts = Inr t \<Longrightarrow> sql_shape Sqlite t []"
  by (auto simp: lite_quote_parts_def plain_char_def intro!: shape_join_plain dest: try_map_shapes [OF _ lite_quote_ident_shape]
      split: if_splits)

lemma field_ident_shape: "field_ident dbg path = Inr t \<Longrightarrow> sql_shape Sqlite t []"
  by (induction dbg path rule: field_ident.induct) (auto intro: lite_quote_ident_shape)

lemma question_ok: "mark_ok Sqlite ''?''"
  by (simp add: mark_ok_def)

lemma lite_cmp_shape:
  assumes "lite_cmp dbg field cop v pb = Inr (s, pb')" "plain Sqlite cop"
  shows "pb' = pb @ [v] \<and> sql_shape Sqlite s [''?'']"
  using assms shape_cmp [OF field_ident_shape, of dbg field _ cop "''?''"] by (auto simp: lite_cmp_def question_ok)

lemma shape_exists:
  assumes "sql_shape Sqlite f []"
  shows "sql_shape Sqlite (''('' @ f @ '' IS NULL OR '' @ f @ '' IS NOT NULL)'') []"
proof -
  have "sql_shape Sqlite (f @ '' IS NULL OR '' @ f @ '' IS NOT NULL)'') ([] @ [])"
    by (rule shape_mid [OF assms], simp add: plain_char_def, rule shape_suffix [OF assms], simp add: plain_char_def)
  then show ?thesis using shape_prefix [of Sqlite "''(''"] by (simp add: plain_char_def)
qed

lemma lite_predicate_shape:
  "lite_predicate dbg p pb = Inr (s, pb') \<Longrightarrow>
     pb' = pb @ predicate_values p \<and> sql_shape Sqlite s (question_marks (predicate_values p))"
  "lite_clauses dbg ps pb = Inr (cs, pb') \<Longrightarrow>
     pb' = pb @ concat (map predicate_values ps)
     \<and> list_all2 (sql_shape Sqlite) cs (map (\<lambda>p. question_marks (predicate_values p)) ps)"
proof (induction dbg p pb and dbg ps pb arbitrary: s pb' and cs pb' rule: lite_predicate_lite_clauses.induct)
  case (7 dbg field vs pb)
  then obtain f where f: "field_ident dbg field = Inr f" by auto
  from shape_in [OF field_ident_shape [OF f] question_marks_ok, of vs] 7 f show ?case
    by (cases "vs = []") (auto intro: shape_code simp: plain_char_def question_marks_def)
next
  case (8 dbg field pattern pb)
  then show ?case using shape_like [OF field_ident_shape, of dbg field _ "''?''"] by (auto simp: question_ok)
next
  case (9 dbg field pb)
  then show ?case using shape_exists [OF field_ident_shape, of dbg field] by auto
next
  case (10 dbg field pb)
  then show ?case using shape_suffix [OF field_ident_shape, of dbg field _ "'' IS NULL''"] by (auto simp: plain_char_def)
next
  case (11 dbg parts pb)
  then show ?case
    using shape_paren [OF shape_join_values, of Sqlite _ predicate_values parts "'' AND ''"]
    by (cases "parts = []") (auto 0 3 intro: shape_code simp: plain_char_def)
next
  case (12 dbg parts pb)
  then show ?case
    using shape_paren [OF shape_join_values, of Sqlite _ predicate_values parts "'' OR ''"]
    by (cases "parts = []") (auto 0 3 intro: shape_code simp: plain_char_def)
next
  case (13 dbg inner pb)
  then obtain t where "lite_predicate dbg inner pb = Inr (t, pb')" and s: "s = ''NOT ('' @ t @ '')''" by auto
  with "13.IH" have "pb' = pb @ predicate_values inner" "sql_shape Sqlite t (question_marks (predicate_values inner))" by blast+
  then show ?case unfolding s by (simp only: predicate_values.simps shape_not)
next
  case (15 dbg p ps pb)
  then obtain t pb1 cs1 where *: "lite_predicate dbg p pb = Inr (t, pb1)" "lite_clauses dbg ps pb1 = Inr (cs1, pb')"
    "cs = t # cs1" by auto
  from "15.IH"(1) [OF *(1)] "15.IH"(2) [OF *(1) refl *(2)] show ?case unfolding *(3) by simp
qed (use lite_cmp_shape in \<open>auto simp: plain_char_def\<close>)

lemma compile_sort_key_shape: "compile_sort_key dbg k = Inr t \<Longrightarrow> sql_shape Sqlite t []"
proof -
  assume "compile_sort_key dbg k = Inr t"
  then obtain f where f: "field_ident dbg (sk_path k) = Inr f"
    and t: "t = f @ '' '' @ (if sk_desc k then ''DESC'' else ''ASC'') @ '' ''
              @ (if sk_nulls_first k then ''NULLS FIRST'' else ''NULLS LAST'')"
    by (auto simp: compile_sort_key_def)
  show ?thesis unfolding t
    by (rule shape_suffix [OF field_ident_shape [OF f]]) (simp add: plain_append plain_char_def)
qed

text \<open>The clause a token adds: one comparison with the value it holds.\<close>

lemma resume_clause_shape:
  assumes "compile_resume_clause dbg fc order token pb = Inr (s, pb')"
  shows "\<exists>v. decode_resume fc token = Inr v \<and> pb' = pb @ [v] \<and> sql_shape Sqlite s [''?'']"
proof -
  from assms obtain key where "order = [key]" unfolding compile_resume_clause_def by (auto split: list.splits)
  with assms obtain field v where f: "field_ident dbg (sk_path key) = Inr field" and v: "decode_resume fc token = Inr v"
    and s: "s = field @ '' '' @ (if sk_desc key then ''<'' else ''>'') @ '' ?''" and pb': "pb' = pb @ [v]"
    unfolding compile_resume_clause_def by auto
  have "sql_shape Sqlite (field @ '' '' @ (if sk_desc key then ''<'' else ''>'') @ '' '' @ ''?'') [''?'']"
    by (rule shape_cmp [OF field_ident_shape [OF f] _ question_ok]) (simp add: plain_char_def)
  then show ?thesis using v pb' unfolding s by simp
qed

definition lite_read_values :: "f64_codec \<Rightarrow> predicate option \<Rightarrow> nat option \<Rightarrow> string option \<Rightarrow> db_value list" where
  "lite_read_values fc flt lim resume =
     (case flt of None \<Rightarrow> [] | Some p \<Rightarrow> predicate_values p)
     @ (case resume of None \<Rightarrow> [] | Some token \<Rightarrow> (case decode_resume fc token of Inl e \<Rightarrow> [] | Inr v \<Rightarrow> [v]))
     @ (case lim of None \<Rightarrow> [] | Some n \<Rightarrow> [limit_value n])"

text \<open>The conditions of a scan: the filter and the resume clause.\<close>

lemma lite_conditions_shape:
  assumes "(case flt of None \<Rightarrow> Inr ([], []) | Some pred \<Rightarrow> try_bind (lite_predicate dbg pred []) (\<lambda>(s, ps). Inr ([s], ps)))
      = Inr (clauses1, params1)"
    and "(case resume of None \<Rightarrow> Inr (clauses1, params1)
      | Some token \<Rightarrow> try_bind (compile_resume_clause dbg fc order token params1) (\<lambda>(s, ps). Inr (clauses1 @ [s], ps)))
      = Inr (clauses, params)"
  shows "params = lite_read_values fc flt None resume
    \<and> (\<exists>vss. concat vss = params \<and> list_all2 (sql_shape Sqlite) clauses (map question_marks vss))"
proof -
  have 1: "params1 = lite_read_values fc flt None None
    \<and> (\<exists>vss. concat vss = params1 \<and> list_all2 (sql_shape Sqlite) clauses1 (map question_marks vss))"
  proof (cases flt)
    case None
    then show ?thesis using assms(1) by (auto simp: lite_read_values_def intro: exI [of _ "[]"])
  next
    case (Some p)
    with assms(1) obtain s where s: "lite_predicate dbg p [] = Inr (s, params1)" "clauses1 = [s]" by auto
    from lite_predicate_shape(1) [OF s(1)] s(2) Some show ?thesis
      by (auto simp: lite_read_values_def intro!: exI [of _ "[params1]"])
  qed
  show ?thesis
  proof (cases resume)
    case None
    with assms(2) have "clauses1 = clauses" "params1 = params" by simp_all
    with 1 None show ?thesis by blast
  next
    case (Some token)
    with assms(2) obtain s where s: "compile_resume_clause dbg fc order token params1 = Inr (s, params)" "clauses = clauses1 @ [s]"
      by auto
    from resume_clause_shape [OF s(1)] obtain v where v: "decode_resume fc token = Inr v" "params = params1 @ [v]"
      "sql_shape Sqlite s [''?'']" by blast
    from 1 obtain vss where "concat vss = params1" "list_all2 (sql_shape Sqlite) clauses1 (map question_marks vss)" by blast
    with v s(2) have "concat (vss @ [[v]]) = params \<and> list_all2 (sql_shape Sqlite) clauses (map question_marks (vss @ [[v]]))"
      by (simp add: list_all2_appendI)
    moreover have "params = lite_read_values fc flt None resume" using 1 v Some by (simp add: lite_read_values_def)
    ultimately show ?thesis by blast
  qed
qed

lemma lite_select_list_shape:
  assumes "(case project of
       Some fs \<Rightarrow> if fs \<noteq> [] then try_bind (try_map (field_ident dbg) fs) (\<lambda>cols. Inr (join '', '' cols)) else Inr ''*''
     | None \<Rightarrow> Inr ''*'') = Inr t"
  shows "sql_shape Sqlite t []"
  using assms shape_code [of Sqlite "''*''"]
  by (auto simp: plain_char_def intro!: shape_join_plain dest: try_map_shapes [OF _ field_ident_shape]
      split: option.splits if_splits)

lemma lite_scan_shape:
  assumes "lite_compile_scan dbg fc path flt order project lim resume = Inr (s, params)"
  shows "params = lite_read_values fc flt lim resume \<and> sql_shape Sqlite s (question_marks params)"
proof -
  from assms obtain table select_list clauses1 params1 clauses params2 keys where
    t: "lite_object_path dbg path = Inr table"
    and l: "(case project of
       Some fs \<Rightarrow> if fs \<noteq> [] then try_bind (try_map (field_ident dbg) fs) (\<lambda>cols. Inr (join '', '' cols)) else Inr ''*''
     | None \<Rightarrow> Inr ''*'') = Inr select_list"
    and c1: "(case flt of None \<Rightarrow> Inr ([], [])
       | Some pred \<Rightarrow> try_bind (lite_predicate dbg pred []) (\<lambda>(s, ps). Inr ([s], ps))) = Inr (clauses1, params1)"
    and c2: "(case resume of None \<Rightarrow> Inr (clauses1, params1)
       | Some token \<Rightarrow> try_bind (compile_resume_clause dbg fc order token params1) (\<lambda>(s, ps). Inr (clauses1 @ [s], ps)))
       = Inr (clauses, params2)"
    and k: "(if order = [] then Inr [] else try_map (compile_sort_key dbg) order) = Inr keys"
    and s: "s = ''SELECT '' @ select_list @ '' FROM '' @ table
              @ (if clauses = [] then [] else '' WHERE '' @ join '' AND '' clauses)
              @ (if order = [] then [] else '' ORDER BY '' @ join '', '' keys)
              @ (case lim of None \<Rightarrow> [] | Some n \<Rightarrow> '' LIMIT ?'')"
    and ps: "params = params2 @ (case lim of None \<Rightarrow> [] | Some n \<Rightarrow> [limit_value n])"
    unfolding lite_compile_scan_def by auto
  let ?head = "''SELECT '' @ select_list @ '' FROM '' @ table"
  have head: "sql_shape Sqlite ?head []"
    by (rule shape_select [OF lite_select_list_shape [OF l] lite_quote_parts_shape]) (use t in \<open>simp add: lite_object_path_def\<close>)
  from lite_conditions_shape [OF c1 c2] obtain vss where p2: "params2 = lite_read_values fc flt None resume"
    and vss: "concat vss = params2" "list_all2 (sql_shape Sqlite) clauses (map question_marks vss)" by blast
  have "sql_shape Sqlite (join '' AND '' clauses) (question_marks params2)"
    using shape_join_values [of Sqlite clauses "\<lambda>v. v" vss "'' AND ''"] vss by (simp add: plain_char_def)
  with head vss have w: "sql_shape Sqlite (?head @ (if clauses = [] then [] else '' WHERE '' @ join '' AND '' clauses)) (question_marks params2)"
    using shape_where [of Sqlite ?head "[]"] by (cases "clauses = []") auto
  have "sql_shape Sqlite (join '', '' keys) []"
    using k by (cases "order = []") (auto simp: shape_empty plain_char_def intro!: shape_join_plain
        dest: try_map_shapes [OF _ compile_sort_key_shape])
  with w have o: "sql_shape Sqlite (?head @ (if clauses = [] then [] else '' WHERE '' @ join '' AND '' clauses)
      @ (if order = [] then [] else '' ORDER BY '' @ join '', '' keys)) (question_marks params2)"
    using shape_order_by [OF w] by (cases "order = []") simp_all
  have "sql_shape Sqlite s (question_marks params)"
  proof (cases lim)
    case None
    then show ?thesis using o s ps by simp
  next
    case (Some n)
    from shape_mid [OF o _ shape_mark [OF question_ok], of "'' LIMIT ''"] show ?thesis
      using s ps Some by (simp add: plain_char_def)
  qed
  moreover have "params = lite_read_values fc flt lim resume" using ps p2 by (simp add: lite_read_values_def)
  ultimately show ?thesis by blast
qed

section \<open>Round trip of the keyset tokens\<close>

lemma be_bytes_length [simp]: "length (be_bytes k n) = k"
  by (induction k arbitrary: n) auto

lemma be_value_snoc: "be_value (s @ [c]) = be_value s * 256 + bval c"
  by (simp add: be_value_def)

lemma bval_char_of_mod: "bval (char_of n) = n mod 256"
  by (simp add: bval_def)

lemma be_value_bytes: "n < 256 ^ k \<Longrightarrow> be_value (be_bytes k n) = n"
proof (induction k arbitrary: n)
  case (Suc k)
  then have "n div 256 < 256 ^ k" by (simp add: less_mult_imp_div_less mult.commute)
  with Suc.IH show ?case by (simp add: be_value_snoc bval_char_of_mod)
qed (simp add: be_value_def)

lemma signed_round_trip:
  assumes "- (256 ^ k div 2) \<le> i" "i < 256 ^ k div 2" "0 < k"
  shows "signed_value k (signed_bytes k i) = i"
proof -
  have even: "(256 :: int) ^ k = 2 * (256 ^ k div 2)" using assms(3) by (cases k) simp_all
  have m: "0 \<le> i mod 256 ^ k" "i mod 256 ^ k < 256 ^ k" by simp_all
  then have "nat (i mod 256 ^ k) < 256 ^ k" by (metis nat_less_iff of_nat_numeral of_nat_power)
  then have v: "int (be_value (signed_bytes k i)) = i mod 256 ^ k" using m(1) by (simp add: signed_bytes_def be_value_bytes)
  show ?thesis
  proof (cases "0 \<le> i")
    case True
    then have "i mod 256 ^ k = i" using assms(2) even by (intro mod_pos_pos_trivial) auto
    then show ?thesis using v assms(2) by (simp add: signed_value_def Let_def)
  next
    case False
    then have "i mod 256 ^ k = (i + 256 ^ k) mod 256 ^ k" by simp
    also have "\<dots> = i + 256 ^ k" using False assms(1) even by (intro mod_pos_pos_trivial) auto
    finally show ?thesis using v assms(1) even by (simp add: signed_value_def Let_def)
  qed
qed

text \<open>What SQLite can hand over as a sort key, and what a token keeps of it.\<close>

definition f64_law :: "f64_codec \<Rightarrow> f64 \<Rightarrow> bool" where
  "f64_law fc f = (length (f64_bytes fc f) = 8 \<and> f64_value fc (f64_bytes fc f) = f)"

fun sqlite_key :: "db_value \<Rightarrow> bool" where
  "sqlite_key VNull = True"
| "sqlite_key (VBool b) = True"
| "sqlite_key (VI64 i) = (- (2 ^ 63) \<le> i \<and> i < 2 ^ 63)"
| "sqlite_key (VF64 f) = True"
| "sqlite_key (VStr s) = utf8 s"
| "sqlite_key (VBytes b) = True"
| "sqlite_key _ = False"

lemma resume_roundtrip:
  assumes "sqlite_key v" and "\<And>f. v = VF64 f \<Longrightarrow> f64_law fc f"
  shows "decode_resume fc (encode_resume fc v) = Inr v
    \<and> decode_resume fc (encode_resume fc (VUnsupported ty raw disp)) = Inr VNull"
proof (cases v)
  case (VI64 i)
  with assms(1) signed_round_trip [of 8 i] show ?thesis by (simp add: exactly_def signed_bytes_def)
next
  case (VF64 f)
  with assms(2) show ?thesis by (simp add: exactly_def f64_law_def)
qed (use assms(1) in simp_all)

text \<open>
  The resume token of a SQLite scan brings back the key of its last row, for every key SQLite
  hands over except a text that is not UTF-8: that one becomes NULL.
\<close>

theorem resume_token_roundtrip:
  assumes "sqlite_key v" and "\<And>f. v = VF64 f \<Longrightarrow> f64_law fc f"
  shows "decode_resume fc (encode_resume fc v) = Inr v
    \<and> decode_resume fc (encode_resume fc (VUnsupported ty raw disp)) = Inr VNull"
  using assms by (rule resume_roundtrip)

definition sample_codec :: f64_codec where
  "sample_codec = \<lparr>f64_bytes = (\<lambda>f. f), f64_value = (\<lambda>s. s)\<rparr>"

lemma resume_token_roundtrip_witness:
  "decode_resume sample_codec (encode_resume sample_codec (VI64 (- 42))) = Inr (VI64 (- 42))
   \<and> decode_resume sample_codec (encode_resume sample_codec (VF64 ''8 bytes!'')) = Inr (VF64 ''8 bytes!'')"
  using resume_token_roundtrip [of "VI64 (- 42)" sample_codec] resume_token_roundtrip [of "VF64 ''8 bytes!''" sample_codec]
  by (simp add: f64_law_def sample_codec_def)

text \<open>
  A scan compiled for SQLite is closed: one placeholder a parameter, which are in order the
  values of the filter, the key of the resume token and the limit.
\<close>

theorem lite_scan_closed:
  assumes "lite_compile_scan dbg fc path flt order project lim resume = Inr (s, params)"
  shows "reads_closed Sqlite s (length params) \<and> params = lite_read_values fc flt lim resume"
proof -
  from lite_scan_shape [OF assms] have vals: "params = lite_read_values fc flt lim resume"
    and shape: "sql_shape Sqlite s (question_marks params)" by blast+
  from shape_reads_closed [OF shape] vals show ?thesis by (simp only: question_marks_simps)
qed

lemma lite_scan_example:
  "lite_compile_scan plain_printers sample_codec [''t''] (Some (PIsNull [PField ''a'']))
     [\<lparr>sk_path = [PField ''id''], sk_desc = False, sk_nulls_first = False\<rparr>] None (Some 10)
     (Some (encode_resume sample_codec (VStr ''k'')))
   = Inr (''SELECT * FROM \"t\" WHERE \"a\" IS NULL AND \"id\" > ? ORDER BY \"id\" ASC NULLS LAST LIMIT ?'', [VStr ''k'', VI64 10])"
  by code_simp

lemma lite_scan_closed_witness:
  "reads_closed Sqlite ''SELECT * FROM \"t\" WHERE \"a\" IS NULL AND \"id\" > ? ORDER BY \"id\" ASC NULLS LAST LIMIT ?'' 2"
  using lite_scan_closed [OF lite_scan_example] by (simp add: numeral_2_eq_2)

end
