(* ===== verification/Sqlite_Driver.thy ===== *)
theory Sqlite_Driver
  imports Sqlite_Sql Driver_Api "HOL-Library.AList"
begin

text \<open>
  The SQLite driver (\<open>crates/datagrep-drv-sqlite/src\<close>): values (\<open>value.rs\<close>), errors (\<open>error.rs\<close>),
  scans (\<open>scan.rs\<close>) and the worker thread that owns the connection (\<open>connection.rs\<close>).  The SQLite
  library is a parameter: a record of the calls the driver makes on a connection state.
\<close>

section \<open>Errors\<close>

text \<open>A \<open>rusqlite::Error\<close>: a failure keeps the name of its code.\<close>

datatype rq_error =
    SqliteFailure string "string option"
  | SingleThreadedMode
  | WrongUse string
  | ExecuteReturnedResults
  | QueryReturnedNoRows
  | ConversionFailure string
  | OtherFailure string

definition map_sqlite_err :: "(rq_error \<Rightarrow> string) \<Rightarrow> rq_error \<Rightarrow> db_error" where
  "map_sqlite_err shown err =
     (case err of
        SqliteFailure code msg \<Rightarrow>
          if code = ''OperationInterrupted'' then ECancelled
          else EQuery (Some code) (case msg of Some m \<Rightarrow> m | None \<Rightarrow> shown err) None
      | SingleThreadedMode \<Rightarrow> EDriverPanic (shown err)
      | WrongUse _ \<Rightarrow> EProtocol (shown err)
      | ExecuteReturnedResults \<Rightarrow> EProtocol (shown err)
      | _ \<Rightarrow> EQuery None (shown err) None)"

section \<open>Values\<close>

datatype sql_value = SNull | SInteger int | SReal f64 | SText string | SBlob string

text \<open>What the driver takes from outside the sources: printers, doubles, lossy decoding.\<close>

record lite_env =
  le_dbg :: message_printers
  le_f64 :: f64_codec
  le_lossy :: "string \<Rightarrow> string"
  le_shown :: "rq_error \<Rightarrow> string"

definition is_boolean_decl :: "string option \<Rightarrow> bool" where
  "is_boolean_decl decl =
     (case decl of None \<Rightarrow> False
      | Some t \<Rightarrow> eq_ignore_ascii_case t ''boolean'' \<or> eq_ignore_ascii_case t ''bool'')"

fun sqlite_value_to_datagrep :: "lite_env \<Rightarrow> sql_value \<Rightarrow> string option \<Rightarrow> db_value" where
  "sqlite_value_to_datagrep env SNull decl = VNull"
| "sqlite_value_to_datagrep env (SInteger i) decl =
     (if is_boolean_decl decl \<and> (i = 0 \<or> i = 1) then VBool (i \<noteq> 0) else VI64 i)"
| "sqlite_value_to_datagrep env (SReal f) decl = VF64 f"
| "sqlite_value_to_datagrep env (SText s) decl =
     (if utf8 s then VStr s else VUnsupported ''sqlite-text-invalid-utf8'' s (le_lossy env s))"
| "sqlite_value_to_datagrep env (SBlob b) decl = VBytes b"

fun contains_text :: "string \<Rightarrow> string \<Rightarrow> bool" where
  "contains_text [] p = (p = [])"
| "contains_text (c # s) p = (starts_with (c # s) p \<or> contains_text s p)"

definition logical_type_for_decl :: "string option \<Rightarrow> logical_type" where
  "logical_type_for_decl decl_type =
     (case decl_type of
        None \<Rightarrow> LBytes
      | Some decl \<Rightarrow>
          let upper = map ascii_upper decl
          in if upper = ''BOOLEAN'' \<or> upper = ''BOOL'' then LBool
             else if upper = ''DATE'' then LDate
             else if upper = ''TIME'' then LTime
             else if upper = ''DATETIME'' \<or> upper = ''TIMESTAMP'' then LTimestamp
             else if contains_text upper ''INT'' then LI64
             else if contains_text upper ''CHAR'' \<or> contains_text upper ''CLOB'' \<or> contains_text upper ''TEXT'' then LStr
             else if contains_text upper ''BLOB'' then LBytes
             else if contains_text upper ''REAL'' \<or> contains_text upper ''FLOA'' \<or> contains_text upper ''DOUB'' then LF64
             else LUnknown)"

fun to_sql :: "lite_env \<Rightarrow> db_value \<Rightarrow> rq_error + sql_value" where
  "to_sql env VNull = Inr SNull"
| "to_sql env VAbsent = Inr SNull"
| "to_sql env (VBool b) = Inr (SInteger (if b then 1 else 0))"
| "to_sql env (VI64 i) = Inr (SInteger i)"
| "to_sql env (VU64 u) =
     (if int u < 2 ^ 63 then Inr (SInteger (int u))
      else Inl (ConversionFailure (''u64 '' @ show_nat u @ '' exceeds SQLite INTEGER range (i64::MAX)'')))"
| "to_sql env (VF64 f) = Inr (SReal f)"
| "to_sql env (VDecimal s) = Inr (SText s)"
| "to_sql env (VStr s) = Inr (SText s)"
| "to_sql env (VJson s) = Inr (SText s)"
| "to_sql env (VBytes b) = Inr (SBlob b)"
| "to_sql env (VDate d) = Inr (SInteger d)"
| "to_sql env (VTime n) = Inr (SInteger n)"
| "to_sql env (VTimestamp micros tz) = Inr (SInteger micros)"
| "to_sql env (VUuid b) = Inr (SBlob b)"
| "to_sql env (VUnsupported ty raw disp) = Inr (SBlob raw)"
| "to_sql env other = Inl (ConversionFailure (''value has no SQLite parameter binding: '' @ dbg_value (le_dbg env) other))"

section \<open>Scans\<close>

record column_meta =
  cm_name :: string
  cm_logical :: logical_type
  cm_native :: "string option"

definition column_metas_for :: "(string \<times> string option) list \<Rightarrow> column_meta list" where
  "column_metas_for cols =
     map (\<lambda>(name, decl). \<lparr>cm_name = name, cm_logical = logical_type_for_decl decl, cm_native = decl\<rparr>) cols"

fun estimate_value_bytes :: "sql_value \<Rightarrow> nat" where
  "estimate_value_bytes SNull = 0"
| "estimate_value_bytes (SInteger i) = 8"
| "estimate_value_bytes (SReal f) = 8"
| "estimate_value_bytes (SText b) = length b"
| "estimate_value_bytes (SBlob b) = length b"

text \<open>An open scan; \<open>sc_rows\<close> is what the statement still steps through.\<close>

type_synonym stepped = "(rq_error + sql_value list) list"

record open_scan =
  sc_rows :: stepped
  sc_columns :: "column_meta list"
  sc_seq :: nat
  sc_rows_emitted :: nat
  sc_bytes_emitted :: nat
  sc_ended :: bool
  sc_resume_key :: "(nat \<times> bool) option"
  sc_token :: "string option"

definition open_scan_of :: "stepped \<Rightarrow> column_meta list \<Rightarrow> (nat \<times> bool) option \<Rightarrow> open_scan" where
  "open_scan_of rows cols key =
     \<lparr>sc_rows = rows, sc_columns = cols, sc_seq = 0, sc_rows_emitted = 0, sc_bytes_emitted = 0,
      sc_ended = False, sc_resume_key = key, sc_token = None\<rparr>"

definition row_values :: "lite_env \<Rightarrow> column_meta list \<Rightarrow> sql_value list \<Rightarrow> row" where
  "row_values env cols cells = map (\<lambda>(col, v). sqlite_value_to_datagrep env v (cm_native col)) (zip cols cells)"

definition row_bytes :: "column_meta list \<Rightarrow> sql_value list \<Rightarrow> nat" where
  "row_bytes cols cells = sum_list (map (\<lambda>(col, v). estimate_value_bytes v) (zip cols cells))"

definition next_token :: "lite_env \<Rightarrow> (nat \<times> bool) option \<Rightarrow> row \<Rightarrow> string option \<Rightarrow> string option" where
  "next_token env key vals token =
     (case key of
        None \<Rightarrow> token
      | Some (idx, desc) \<Rightarrow> if idx < length vals then Some (encode_resume (le_f64 env) (vals ! idx)) else token)"

text \<open>The loop of \<open>fetch_batch\<close> over what is left to step through.\<close>

fun fetch_rows :: "lite_env \<Rightarrow> nat \<Rightarrow> nat \<Rightarrow> stepped \<Rightarrow> row list \<Rightarrow> nat \<Rightarrow> open_scan
    \<Rightarrow> (rq_error + (row list \<times> nat)) \<times> open_scan" where
  "fetch_rows env max_rows max_bytes rows out batch_bytes sc =
     (if max_rows \<le> length out then (Inr (out, batch_bytes), sc\<lparr>sc_rows := rows\<rparr>)
      else case rows of
          [] \<Rightarrow> (Inr (out, batch_bytes), sc\<lparr>sc_rows := [], sc_ended := True\<rparr>)
        | Inl e # rest \<Rightarrow> (Inl e, sc\<lparr>sc_rows := rest\<rparr>)
        | Inr cells # rest \<Rightarrow>
            let vals = row_values env (sc_columns sc) cells;
                bytes = batch_bytes + row_bytes (sc_columns sc) cells;
                sc' = sc\<lparr>sc_token := next_token env (sc_resume_key sc) vals (sc_token sc),
                         sc_rows_emitted := sc_rows_emitted sc + 1\<rparr>
            in if max_bytes \<le> bytes then (Inr (out @ [vals], bytes), sc'\<lparr>sc_rows := rest\<rparr>)
               else fetch_rows env max_rows max_bytes rest (out @ [vals]) bytes sc')"

declare fetch_rows.simps [simp del]

definition fetch_batch :: "lite_env \<Rightarrow> fetch_hint \<Rightarrow> open_scan \<Rightarrow> (db_error + wire_batch option) \<times> open_scan" where
  "fetch_batch env hint sc =
     (if sc_ended sc then (Inr None, sc)
      else case fetch_rows env (max 1 (fh_max_rows hint)) (fh_max_bytes hint) (sc_rows sc) [] 0 sc of
          (Inl e, sc') \<Rightarrow> (Inl (map_sqlite_err (le_shown env) e), sc')
        | (Inr (out, bytes), sc') \<Rightarrow>
            if out = [] then (Inr None, sc')
            else (Inr (Some \<lparr>wb_seq = sc_seq sc', wb_payload = PRows out, wb_deltas = [], wb_notices = []\<rparr>),
                  sc'\<lparr>sc_seq := sc_seq sc' + 1, sc_bytes_emitted := sc_bytes_emitted sc' + bytes\<rparr>))"

section \<open>Preparing requests\<close>

record prepared_request =
  pr_sql :: string
  pr_params :: "db_value list"
  pr_order :: "sort_key list"

text \<open>\<open>None\<close> is the panic of \<open>unreachable!\<close>.\<close>

fun prepare_request :: "lite_env \<Rightarrow> request \<Rightarrow> (db_error + prepared_request) option" where
  "prepare_request env (Native s params opts) = Some (Inr \<lparr>pr_sql = s, pr_params = params, pr_order = []\<rparr>)"
| "prepare_request env (Operation (Scan path flt order project lim resume)) =
     Some (try_bind (lite_compile_scan (le_dbg env) (le_f64 env) path flt order project lim resume)
             (\<lambda>(sql, params). Inr \<lparr>pr_sql = sql, pr_params = params, pr_order = order\<rparr>))"
| "prepare_request env (Operation (Count path flt exact)) =
     Some (try_bind (lite_compile_count (le_dbg env) path flt)
             (\<lambda>(sql, params). Inr \<lparr>pr_sql = sql, pr_params = params, pr_order = []\<rparr>))"
| "prepare_request env (Operation (Explain inner analyze)) =
     (if analyze then
        Some (Inl (EUnsupported (''EXPLAIN ANALYZE: SQLite has no run-time query analysis, only ''
                @ ''static EXPLAIN QUERY PLAN'')))
      else case prepare_request env inner of
          None \<Rightarrow> None
        | Some r \<Rightarrow> Some (try_bind r (\<lambda>p. Inr \<lparr>pr_sql = ''EXPLAIN QUERY PLAN '' @ pr_sql p,
                                               pr_params = pr_params p, pr_order = []\<rparr>)))"
| "prepare_request env (Operation (Ddl_Op ddl)) =
     Some (try_bind (lite_compile_ddl (le_dbg env) ddl)
             (\<lambda>sql. Inr \<lparr>pr_sql = sql, pr_params = [], pr_order = []\<rparr>))"
| "prepare_request env (Operation (Mutate ms)) = None"

definition PRIMARY_KEY :: nat where
  "PRIMARY_KEY = 2"

definition build_row_schema :: "column_meta list \<Rightarrow> nat list option \<Rightarrow> row_schema" where
  "build_row_schema cols identity =
     \<lparr>rs_fields = map (\<lambda>(i, c). \<lparr>fd_name = cm_name c, fd_logical = cm_logical c,
                          fd_flags = (if i \<in> set (case identity of None \<Rightarrow> [] | Some ix \<Rightarrow> ix) then PRIMARY_KEY else 0),
                          fd_native = cm_native c\<rparr>) (enumerate 0 cols),
      rs_identity = identity\<rparr>"

section \<open>The connection\<close>

text \<open>The calls the driver makes on a connection of the SQLite library, over its state.\<close>

record 's sqlite =
  sq_batch :: "string \<Rightarrow> 's \<Rightarrow> rq_error option \<times> 's"
  sq_autocommit :: "'s \<Rightarrow> bool"
  sq_prepare :: "string \<Rightarrow> 's \<Rightarrow> rq_error + (string \<times> string option) list"
  sq_run :: "string \<Rightarrow> sql_value list \<Rightarrow> 's \<Rightarrow> (rq_error + nat) \<times> 's"
  sq_query :: "string \<Rightarrow> sql_value list \<Rightarrow> 's \<Rightarrow> (rq_error + stepped) \<times> 's"
  sq_primary_key :: "object_path \<Rightarrow> 's \<Rightarrow> string list option"

text \<open>\<open>execute_batch\<close> with the error mapped.\<close>

definition run_batch :: "lite_env \<Rightarrow> 's sqlite \<Rightarrow> string \<Rightarrow> 's \<Rightarrow> (db_error + unit) \<times> 's" where
  "run_batch env sq sql s =
     (case sq_batch sq sql s of
        (None, s') \<Rightarrow> (Inr (), s')
      | (Some e, s') \<Rightarrow> (Inl (map_sqlite_err (le_shown env) e), s'))"

definition bind_params :: "lite_env \<Rightarrow> db_value list \<Rightarrow> rq_error + sql_value list" where
  "bind_params env params = try_map (to_sql env) params"

text \<open>\<open>prepare\<close>, then \<open>execute\<close> with the parameters bound.\<close>

definition run_statement :: "lite_env \<Rightarrow> 's sqlite \<Rightarrow> string \<Rightarrow> db_value list \<Rightarrow> 's \<Rightarrow> (db_error + nat) \<times> 's" where
  "run_statement env sq sql params s =
     (case sq_prepare sq sql s of
        Inl e \<Rightarrow> (Inl (map_sqlite_err (le_shown env) e), s)
      | Inr cols \<Rightarrow>
          (case bind_params env params of
             Inl e \<Rightarrow> (Inl (map_sqlite_err (le_shown env) e), s)
           | Inr vs \<Rightarrow>
               (case sq_run sq sql vs s of
                  (Inl e, s') \<Rightarrow> (Inl (map_sqlite_err (le_shown env) e), s')
                | (Inr n, s') \<Rightarrow> (Inr n, s'))))"

section \<open>Mutations\<close>

definition lite_refuse_expect :: "(path_seg list \<times> db_value) list \<Rightarrow> db_error + unit" where
  "lite_refuse_expect ex =
     (if ex = [] then Inr ()
      else Inl (EUnsupported ''conditional mutation (`expect`): this driver cannot check-and-set''))"

definition expect_exactly_one :: "nat \<Rightarrow> string \<Rightarrow> db_error + unit" where
  "expect_exactly_one n verb =
     (if n = 1 then Inr ()
      else Inl (query_error (''expected exactly 1 row to '' @ verb @ '', '' @ show_nat n
                  @ '' did; row identity changed, refresh'')))"

definition assignments :: "message_printers \<Rightarrow> (path_seg list \<times> db_value) list \<Rightarrow> db_error + string list" where
  "assignments dbg kvs =
     try_map (\<lambda>(field, v). try_bind (field_ident dbg field) (\<lambda>f. Inr (f @ '' = ?''))) kvs"

definition keyed_where :: "message_printers \<Rightarrow> (path_seg list \<times> db_value) list \<Rightarrow> db_error + string" where
  "keyed_where dbg key =
     (if key = [] then
        Inl (EUnsupported ''mutation with no row identity: refuse to guess which row to affect'')
      else try_bind (assignments dbg key) (\<lambda>clauses. Inr (join '' AND '' clauses)))"

text \<open>The statement of a mutation, its parameters and what its row count must pass.\<close>

fun lite_compile_mutation :: "message_printers \<Rightarrow> mutation \<Rightarrow> db_error + (string \<times> db_value list)" where
  "lite_compile_mutation dbg (MInsert path doc) =
     (case doc of
        VDocument d \<Rightarrow>
          try_bind (lite_object_path dbg path) (\<lambda>table.
          try_bind (try_map (\<lambda>(k, v). lite_quote_ident dbg k) d) (\<lambda>cols.
            Inr (''INSERT INTO '' @ table @ '' ('' @ join '', '' cols @ '') VALUES (''
                   @ join '', '' (replicate (length d) ''?'') @ '')'', map snd d)))
      | _ \<Rightarrow> Inl (EUnsupported ''Mutation::Insert with a non-Document value''))"
| "lite_compile_mutation dbg (MUpdate path key sets ex) =
     try_bind (lite_refuse_expect ex) (\<lambda>_.
       if sets = [] then Inl (query_error ''Mutation::Update with no `sets`'')
       else
         try_bind (lite_object_path dbg path) (\<lambda>table.
         try_bind (assignments dbg sets) (\<lambda>set_sql.
         try_bind (keyed_where dbg key) (\<lambda>where_sql.
           Inr (''UPDATE '' @ table @ '' SET '' @ join '', '' set_sql @ '' WHERE '' @ where_sql,
                map snd sets @ map snd key)))))"
| "lite_compile_mutation dbg (MDelete path key ex) =
     try_bind (lite_refuse_expect ex) (\<lambda>_.
     try_bind (lite_object_path dbg path) (\<lambda>table.
     try_bind (keyed_where dbg key) (\<lambda>where_sql.
       Inr (''DELETE FROM '' @ table @ '' WHERE '' @ where_sql, map snd key))))"

fun check_count :: "mutation \<Rightarrow> nat \<Rightarrow> db_error + unit" where
  "check_count (MInsert path doc) n = Inr ()"
| "check_count (MUpdate path key sets ex) n = expect_exactly_one n ''change''"
| "check_count (MDelete path key ex) n = expect_exactly_one n ''delete''"

definition apply_mutation :: "lite_env \<Rightarrow> 's sqlite \<Rightarrow> mutation \<Rightarrow> 's \<Rightarrow> (db_error + nat) \<times> 's" where
  "apply_mutation env sq m s =
     (case lite_compile_mutation (le_dbg env) m of
        Inl e \<Rightarrow> (Inl e, s)
      | Inr (sql, params) \<Rightarrow>
          (case run_statement env sq sql params s of
             (Inl e, s') \<Rightarrow> (Inl e, s')
           | (Inr n, s') \<Rightarrow> (try_bind (check_count m n) (\<lambda>_. Inr n), s')))"

fun apply_mutations :: "lite_env \<Rightarrow> 's sqlite \<Rightarrow> mutation list \<Rightarrow> nat \<Rightarrow> 's \<Rightarrow> (db_error + nat) \<times> 's" where
  "apply_mutations env sq [] affected s = (Inr affected, s)"
| "apply_mutations env sq (m # ms) affected s =
     (case apply_mutation env sq m s of
        (Inr n, s') \<Rightarrow> apply_mutations env sq ms (affected + n) s'
      | (Inl e, s') \<Rightarrow> (Inl e, s'))"

datatype exec_outcome = OutAck "nat option" | OutCursor nat row_schema

definition handle_mutate :: "lite_env \<Rightarrow> 's sqlite \<Rightarrow> mutation list \<Rightarrow> 's \<Rightarrow> (db_error + exec_outcome) \<times> 's" where
  "handle_mutate env sq ms s =
     (let manage_tx = sq_autocommit sq s
      in case (if manage_tx then run_batch env sq ''BEGIN'' s else (Inr (), s)) of
           (Inl e, s1) \<Rightarrow> (Inl e, s1)
         | (Inr _, s1) \<Rightarrow>
             (case apply_mutations env sq ms 0 s1 of
                (Inl e, s2) \<Rightarrow> (Inl e, if manage_tx then snd (sq_batch sq ''ROLLBACK'' s2) else s2)
              | (Inr affected, s2) \<Rightarrow>
                  (case (if manage_tx then run_batch env sq ''COMMIT'' s2 else (Inr (), s2)) of
                     (Inl e, s3) \<Rightarrow> (Inl e, s3)
                   | (Inr _, s3) \<Rightarrow> (Inr (OutAck (Some affected)), s3))))"

section \<open>The worker\<close>

record 's worker =
  wk_conn :: 's
  wk_cursors :: "(nat \<times> open_scan) list"
  wk_next :: nat
  wk_session_ro :: bool
  wk_forced_ro :: bool

fun scan_without_projection :: "request \<Rightarrow> object_path option" where
  "scan_without_projection (Operation (Scan path flt order None lim resume)) = Some path"
| "scan_without_projection _ = None"

fun all_positions :: "column_meta list \<Rightarrow> string list \<Rightarrow> nat list option" where
  "all_positions cols [] = Some []"
| "all_positions cols (pk # pks) =
     (case find_index (\<lambda>c. cm_name c = pk) cols of
        None \<Rightarrow> None
      | Some i \<Rightarrow> map_option (\<lambda>is. i # is) (all_positions cols pks))"

definition detect_identity :: "'s sqlite \<Rightarrow> request \<Rightarrow> column_meta list \<Rightarrow> 's \<Rightarrow> nat list option" where
  "detect_identity sq req cols s =
     (case scan_without_projection req of
        None \<Rightarrow> None
      | Some path \<Rightarrow>
          if path = [] \<or> 2 < length path then None
          else case sq_primary_key sq path s of
              None \<Rightarrow> None
            | Some pk_cols \<Rightarrow> if pk_cols = [] then None else all_positions cols pk_cols)"

definition resume_key_of :: "sort_key list \<Rightarrow> column_meta list \<Rightarrow> (nat \<times> bool) option" where
  "resume_key_of order cols =
     (case order of
        [key] \<Rightarrow>
          (case field_name (sk_path key) of
             None \<Rightarrow> None
           | Some name \<Rightarrow> map_option (\<lambda>i. (i, sk_desc key)) (find_index (\<lambda>c. cm_name c = name) cols))
      | _ \<Rightarrow> None)"

text \<open>\<open>handle_execute\<close>; \<open>None\<close> is the panic of \<open>prepare_request\<close>, which ends the worker thread.\<close>

definition execute_prepared ::
  "lite_env \<Rightarrow> 's sqlite \<Rightarrow> request \<Rightarrow> prepared_request \<Rightarrow> 's worker \<Rightarrow> (db_error + exec_outcome) \<times> 's worker" where
  "execute_prepared env sq req p w =
     (case sq_prepare sq (pr_sql p) (wk_conn w) of
        Inl e \<Rightarrow> (Inl (map_sqlite_err (le_shown env) e), w)
      | Inr decls \<Rightarrow>
          if decls = [] then
            (case run_statement env sq (pr_sql p) (pr_params p) (wk_conn w) of
               (Inl e, s') \<Rightarrow> (Inl e, w\<lparr>wk_conn := s'\<rparr>)
             | (Inr n, s') \<Rightarrow> (Inr (OutAck (Some n)), w\<lparr>wk_conn := s'\<rparr>))
          else
            let cols = column_metas_for decls;
                key = resume_key_of (pr_order p) cols;
                schema = build_row_schema cols (detect_identity sq req cols (wk_conn w))
            in case bind_params env (pr_params p) of
                 Inl e \<Rightarrow> (Inl (map_sqlite_err (le_shown env) e), w)
               | Inr vs \<Rightarrow>
                   (case sq_query sq (pr_sql p) vs (wk_conn w) of
                      (Inl e, s') \<Rightarrow> (Inl (map_sqlite_err (le_shown env) e), w\<lparr>wk_conn := s'\<rparr>)
                    | (Inr rows, s') \<Rightarrow>
                        (Inr (OutCursor (wk_next w) schema),
                         w\<lparr>wk_conn := s', wk_next := wk_next w + 1,
                           wk_cursors := (wk_next w, open_scan_of rows cols key) # wk_cursors w\<rparr>)))"

definition handle_execute ::
  "lite_env \<Rightarrow> 's sqlite \<Rightarrow> request \<Rightarrow> 's worker \<Rightarrow> ((db_error + exec_outcome) \<times> 's worker) option" where
  "handle_execute env sq req w =
     (case req of
        Operation (Mutate ms) \<Rightarrow>
          (case handle_mutate env sq ms (wk_conn w) of (r, s') \<Rightarrow> Some (r, w\<lparr>wk_conn := s'\<rparr>))
      | _ \<Rightarrow>
          (case prepare_request env req of
             None \<Rightarrow> None
           | Some (Inl e) \<Rightarrow> Some (Inl e, w)
           | Some (Inr p) \<Rightarrow> Some (execute_prepared env sq req p w)))"

section \<open>Transactions and messages\<close>

datatype isolation_level = ReadUncommitted | ReadCommitted | RepeatableRead | Serializable

fun show_isolation :: "isolation_level \<Rightarrow> string" where
  "show_isolation ReadUncommitted = ''ReadUncommitted''"
| "show_isolation ReadCommitted = ''ReadCommitted''"
| "show_isolation RepeatableRead = ''RepeatableRead''"
| "show_isolation Serializable = ''Serializable''"

record tx_opts =
  tx_isolation :: "isolation_level option"
  tx_read_only :: bool

definition begin_tx :: "lite_env \<Rightarrow> 's sqlite \<Rightarrow> tx_opts \<Rightarrow> 's worker \<Rightarrow> (db_error + unit) \<times> 's worker" where
  "begin_tx env sq opts w =
     (case run_batch env sq ''BEGIN'' (wk_conn w) of
        (Inl e, s1) \<Rightarrow> (Inl e, w\<lparr>wk_conn := s1\<rparr>)
      | (Inr _, s1) \<Rightarrow>
          if tx_read_only opts \<and> \<not> wk_session_ro w then
            (case run_batch env sq ''PRAGMA query_only = ON'' s1 of
               (Inl e, s2) \<Rightarrow> (Inl e, w\<lparr>wk_conn := s2\<rparr>)
             | (Inr _, s2) \<Rightarrow> (Inr (), w\<lparr>wk_conn := s2, wk_forced_ro := True\<rparr>))
          else (Inr (), w\<lparr>wk_conn := s1\<rparr>))"

definition handle_begin :: "lite_env \<Rightarrow> 's sqlite \<Rightarrow> tx_opts \<Rightarrow> 's worker \<Rightarrow> (db_error + unit) \<times> 's worker" where
  "handle_begin env sq opts w =
     (case tx_isolation opts of
        Some level \<Rightarrow> if level \<noteq> Serializable then
            (Inl (EUnsupported (''SQLite only offers serializable isolation within one connection; ''
               @ show_isolation level @ '' was requested'')), w)
          else begin_tx env sq opts w
      | None \<Rightarrow> begin_tx env sq opts w)"

definition handle_end_tx :: "lite_env \<Rightarrow> 's sqlite \<Rightarrow> bool \<Rightarrow> 's worker \<Rightarrow> (db_error + unit) \<times> 's worker" where
  "handle_end_tx env sq commit w =
     (case run_batch env sq (if commit then ''COMMIT'' else ''ROLLBACK'') (wk_conn w) of
        (Inl e, s1) \<Rightarrow> (Inl e, w\<lparr>wk_conn := s1\<rparr>)
      | (Inr _, s1) \<Rightarrow>
          if wk_forced_ro w \<and> \<not> wk_session_ro w then
            (case run_batch env sq ''PRAGMA query_only = OFF'' s1 of
               (Inl e, s2) \<Rightarrow> (Inl e, w\<lparr>wk_conn := s2\<rparr>)
             | (Inr _, s2) \<Rightarrow> (Inr (), w\<lparr>wk_conn := s2, wk_forced_ro := False\<rparr>))
          else (Inr (), w\<lparr>wk_conn := s1, wk_forced_ro := False\<rparr>))"

definition set_read_only :: "lite_env \<Rightarrow> 's sqlite \<Rightarrow> bool \<Rightarrow> 's worker \<Rightarrow> (db_error + unit) \<times> 's worker" where
  "set_read_only env sq on w =
     (case run_batch env sq (if on then ''PRAGMA query_only = ON'' else ''PRAGMA query_only = OFF'') (wk_conn w) of
        (Inl e, s1) \<Rightarrow> (Inl e, w\<lparr>wk_conn := s1\<rparr>)
      | (Inr _, s1) \<Rightarrow> (Inr (), w\<lparr>wk_conn := s1, wk_session_ro := on\<rparr>))"

datatype worker_msg =
    MsgExecute request
  | MsgFetch nat fetch_hint
  | MsgCloseCursor nat
  | MsgBegin tx_opts
  | MsgCommit
  | MsgRollback
  | MsgSetReadOnly bool
  | MsgPing
  | MsgShutdown

datatype worker_reply =
    RepOutcome "db_error + exec_outcome"
  | RepBatch "db_error + (wire_batch option \<times> string option \<times> cursor_stats)"
  | RepUnit "db_error + unit"

definition scan_stats :: "open_scan \<Rightarrow> cursor_stats" where
  "scan_stats sc = \<lparr>cs_rows = sc_rows_emitted sc, cs_bytes = sc_bytes_emitted sc, cs_batches = sc_seq sc,
                    cs_server_micros = None\<rparr>"

definition handle_fetch :: "lite_env \<Rightarrow> nat \<Rightarrow> fetch_hint \<Rightarrow> 's worker \<Rightarrow> worker_reply \<times> 's worker" where
  "handle_fetch env cid hint w =
     (case map_of (wk_cursors w) cid of
        None \<Rightarrow> (RepBatch (Inl EClosed), w)
      | Some sc \<Rightarrow>
          (case fetch_batch env hint sc of
             (r, sc') \<Rightarrow>
               (RepBatch (try_bind r (\<lambda>b. Inr (b, sc_token sc', scan_stats sc'))),
                w\<lparr>wk_cursors := AList.update cid sc' (wk_cursors w)\<rparr>)))"

text \<open>
  One turn of the loop of \<open>run_worker\<close>: the reply and the state, or \<open>None\<close> when the thread ends
  (a shutdown, or the panic of a prepared mutation).
\<close>

fun worker_step :: "lite_env \<Rightarrow> 's sqlite \<Rightarrow> worker_msg \<Rightarrow> 's worker \<Rightarrow> (worker_reply \<times> 's worker) option" where
  "worker_step env sq (MsgExecute req) w =
     map_option (\<lambda>(r, w'). (RepOutcome r, w')) (handle_execute env sq req w)"
| "worker_step env sq (MsgFetch cid hint) w = Some (handle_fetch env cid hint w)"
| "worker_step env sq (MsgCloseCursor cid) w =
     Some (RepUnit (Inr ()), w\<lparr>wk_cursors := AList.delete cid (wk_cursors w)\<rparr>)"
| "worker_step env sq (MsgBegin opts) w = (case handle_begin env sq opts w of (r, w') \<Rightarrow> Some (RepUnit r, w'))"
| "worker_step env sq MsgCommit w = (case handle_end_tx env sq True w of (r, w') \<Rightarrow> Some (RepUnit r, w'))"
| "worker_step env sq MsgRollback w = (case handle_end_tx env sq False w of (r, w') \<Rightarrow> Some (RepUnit r, w'))"
| "worker_step env sq (MsgSetReadOnly on) w = (case set_read_only env sq on w of (r, w') \<Rightarrow> Some (RepUnit r, w'))"
| "worker_step env sq MsgPing w =
     (case run_batch env sq ''SELECT 1;'' (wk_conn w) of (r, s') \<Rightarrow> Some (RepUnit r, w\<lparr>wk_conn := s'\<rparr>))"
| "worker_step env sq MsgShutdown w = None"

section \<open>What the library promises\<close>

text \<open>
  The documented behaviour of SQLite's transactions, over two views of the connection state: what
  is committed, and what the connection sees, while no other process writes the file.  Outside a
  transaction they agree.  \<open>BEGIN\<close> changes neither, and opens a transaction or fails where it was.  An
  \<open>INSERT INTO\<close>, an \<open>UPDATE\<close> or a \<open>DELETE FROM\<close> run inside a transaction commits nothing, and ends
  the transaction only with an error, which rolls it back; nothing is promised of other texts, which
  may themselves be a \<open>COMMIT\<close>.  \<open>COMMIT\<close> makes what is seen the committed content and ends the
  transaction when it succeeds, and commits nothing otherwise.  After \<open>ROLLBACK\<close>, which fails where
  an error has rolled back already, no transaction is open and nothing was committed.
\<close>

definition dml_text :: "string \<Rightarrow> bool" where
  "dml_text sql = (starts_with sql ''INSERT INTO '' \<or> starts_with sql ''UPDATE '' \<or> starts_with sql ''DELETE FROM '')"

definition transactional :: "'s sqlite \<Rightarrow> ('s \<Rightarrow> 'd) \<Rightarrow> ('s \<Rightarrow> 'd) \<Rightarrow> bool" where
  "transactional sq disk seen =
     ((\<forall>s. sq_autocommit sq s \<longrightarrow> seen s = disk s)
      \<and> (\<forall>s r s'. sq_batch sq ''BEGIN'' s = (r, s') \<longrightarrow>
            disk s' = disk s
            \<and> (case r of None \<Rightarrow> seen s' = seen s \<and> \<not> sq_autocommit sq s'
                | Some e \<Rightarrow> sq_autocommit sq s' = sq_autocommit sq s))
      \<and> (\<forall>s r s'. sq_batch sq ''COMMIT'' s = (r, s') \<longrightarrow>
            (case r of None \<Rightarrow> disk s' = seen s \<and> sq_autocommit sq s' | Some e \<Rightarrow> disk s' = disk s))
      \<and> (\<forall>s r s'. sq_batch sq ''ROLLBACK'' s = (r, s') \<longrightarrow> disk s' = disk s \<and> sq_autocommit sq s')
      \<and> (\<forall>sql vs s r s'. dml_text sql \<longrightarrow> \<not> sq_autocommit sq s \<longrightarrow> sq_run sq sql vs s = (r, s') \<longrightarrow>
            disk s' = disk s \<and> (\<forall>n. r = Inr n \<longrightarrow> \<not> sq_autocommit sq s')))"

section \<open>Batches of mutations are atomic\<close>

lemma compiled_mutation_is_dml: "lite_compile_mutation dbg m = Inr (sql, vs) \<Longrightarrow> dml_text sql"
  by (cases "(dbg, m)" rule: lite_compile_mutation.cases)
    (auto simp: dml_text_def try_bind_Inr split: db_value.splits if_splits)

lemma run_statement_keeps:
  assumes "transactional sq disk seen" "run_statement env sq sql params s = (r, s')" "\<not> sq_autocommit sq s" "dml_text sql"
  shows "disk s' = disk s \<and> (\<forall>n. r = Inr n \<longrightarrow> \<not> sq_autocommit sq s')"
proof -
  have run: "disk s' = disk s \<and> (\<forall>n. r = Inr n \<longrightarrow> \<not> sq_autocommit sq s')" if "sq_run sq sql vs s = (r, s')" for vs r s'
    using assms(1,3,4) that unfolding transactional_def by blast
  show ?thesis
  proof (cases "sq_prepare sq sql s")
    case (Inl e)
    with assms(2) show ?thesis by (auto simp: run_statement_def)
  next
    case (Inr cols)
    show ?thesis
    proof (cases "bind_params env params")
      case (Inl e)
      with assms(2) Inr show ?thesis by (auto simp: run_statement_def)
    next
      case (Inr vs)
      obtain x s1 where x: "sq_run sq sql vs s = (x, s1)" by fastforce
      have "run_statement env sq sql params s = (case x of Inl e \<Rightarrow> (Inl (map_sqlite_err (le_shown env) e), s1) | Inr n \<Rightarrow> (Inr n, s1))"
        using Inr x \<open>sq_prepare sq sql s = Inr cols\<close> by (simp add: run_statement_def split: sum.split)
      with assms(2) run [OF x] show ?thesis by (cases x) auto
    qed
  qed
qed

lemma apply_mutation_keeps:
  assumes "transactional sq disk seen" "apply_mutation env sq m s = (r, s')" "\<not> sq_autocommit sq s"
  shows "disk s' = disk s \<and> (\<forall>n. r = Inr n \<longrightarrow> \<not> sq_autocommit sq s' \<and> check_count m n = Inr ())"
proof (cases "lite_compile_mutation (le_dbg env) m")
  case (Inl e)
  with assms(2) show ?thesis by (auto simp: apply_mutation_def)
next
  case (Inr st)
  obtain r1 s1 where st: "run_statement env sq (fst st) (snd st) s = (r1, s1)" by fastforce
  have "apply_mutation env sq m s = (try_bind r1 (\<lambda>n. try_bind (check_count m n) (\<lambda>_. Inr n)), s1)"
    using st Inr by (cases st; cases r1) (simp_all add: apply_mutation_def)
  with assms(2) have "s' = s1" and r: "r = try_bind r1 (\<lambda>n. try_bind (check_count m n) (\<lambda>_. Inr n))" by simp_all
  have dml: "dml_text (fst st)" using compiled_mutation_is_dml Inr by (cases st) simp
  from \<open>s' = s1\<close> run_statement_keeps [OF assms(1) st assms(3) dml] show ?thesis unfolding r try_bind_Inr by auto
qed

text \<open>Every statement of a batch that goes through passed its row count.\<close>

lemma apply_mutations_keeps:
  assumes "transactional sq disk seen"
  shows "apply_mutations env sq ms n s = (r, s') \<Longrightarrow> \<not> sq_autocommit sq s \<Longrightarrow>
    disk s' = disk s
    \<and> (\<forall>k. r = Inr k \<longrightarrow> \<not> sq_autocommit sq s'
          \<and> (\<exists>counts. list_all2 (\<lambda>m c. check_count m c = Inr ()) ms counts \<and> k = n + sum_list counts))"
proof (induction ms arbitrary: n s)
  case (Cons m ms)
  obtain r1 s1 where a: "apply_mutation env sq m s = (r1, s1)" by fastforce
  note k = apply_mutation_keeps [OF assms a Cons.prems(2)]
  show ?case
  proof (cases r1)
    case (Inl e)
    with Cons.prems(1) a k show ?thesis by auto
  next
    case (Inr k1)
    with Cons.prems(1) a have rest: "apply_mutations env sq ms (n + k1) s1 = (r, s')" by simp
    from k Inr have m: "check_count m k1 = Inr ()" "\<not> sq_autocommit sq s1" "disk s1 = disk s" by auto
    have "\<exists>counts. list_all2 (\<lambda>m c. check_count m c = Inr ()) (m # ms) counts \<and> k = n + sum_list counts"
      if "list_all2 (\<lambda>m c. check_count m c = Inr ()) ms counts" "k = n + k1 + sum_list counts" for counts k
      using that m(1) by (intro exI [of _ "k1 # counts"]) simp
    with Cons.IH [OF rest m(2)] m(3) show ?thesis by metis
  qed
qed (auto intro: exI [of _ "[]"])

lemma run_batch_Inr: "run_batch env sq sql s = (Inr u, s') \<longleftrightarrow> sq_batch sq sql s = (None, s')"
  by (auto simp: run_batch_def split: prod.splits option.splits)

lemma run_batch_Inl: "run_batch env sq sql s = (Inl e, s') \<longleftrightarrow> (\<exists>x. sq_batch sq sql s = (Some x, s') \<and> e = map_sqlite_err (le_shown env) x)"
  by (auto simp: run_batch_def split: prod.splits option.splits)

lemma transactionalD:
  assumes "transactional sq disk seen"
  shows "sq_autocommit sq s \<Longrightarrow> seen s = disk s"
    "sq_batch sq ''BEGIN'' s = (r, s') \<Longrightarrow> disk s' = disk s"
    "sq_batch sq ''BEGIN'' s = (None, s') \<Longrightarrow> \<not> sq_autocommit sq s'"
    "sq_batch sq ''BEGIN'' s = (Some e, s') \<Longrightarrow> sq_autocommit sq s' = sq_autocommit sq s"
    "sq_batch sq ''COMMIT'' s = (None, s') \<Longrightarrow> disk s' = seen s \<and> sq_autocommit sq s'"
    "sq_batch sq ''COMMIT'' s = (Some e, s') \<Longrightarrow> disk s' = disk s"
    "sq_batch sq ''ROLLBACK'' s = (r, s') \<Longrightarrow> disk s' = disk s \<and> sq_autocommit sq s'"
proof -
  note laws = assms [unfolded transactional_def]
  from laws have auto: "\<forall>s. sq_autocommit sq s \<longrightarrow> seen s = disk s" by (rule conjunct1)
  from laws have beg: "\<forall>s r s'. sq_batch sq ''BEGIN'' s = (r, s') \<longrightarrow>
      disk s' = disk s \<and> (case r of None \<Rightarrow> seen s' = seen s \<and> \<not> sq_autocommit sq s'
                          | Some e \<Rightarrow> sq_autocommit sq s' = sq_autocommit sq s)" by (elim conjE)
  from laws have com: "\<forall>s r s'. sq_batch sq ''COMMIT'' s = (r, s') \<longrightarrow>
      (case r of None \<Rightarrow> disk s' = seen s \<and> sq_autocommit sq s' | Some e \<Rightarrow> disk s' = disk s)" by (elim conjE)
  from laws have rol: "\<forall>s r s'. sq_batch sq ''ROLLBACK'' s = (r, s') \<longrightarrow> disk s' = disk s \<and> sq_autocommit sq s'"
    by (elim conjE)
  show "sq_autocommit sq s \<Longrightarrow> seen s = disk s" using auto by simp
  show "sq_batch sq ''BEGIN'' s = (r, s') \<Longrightarrow> disk s' = disk s" using beg by blast
  show "sq_batch sq ''BEGIN'' s = (None, s') \<Longrightarrow> \<not> sq_autocommit sq s'" using beg [rule_format, of s None s'] by simp
  show "sq_batch sq ''BEGIN'' s = (Some e, s') \<Longrightarrow> sq_autocommit sq s' = sq_autocommit sq s"
    using beg [rule_format, of s "Some e" s'] by simp
  show "sq_batch sq ''COMMIT'' s = (None, s') \<Longrightarrow> disk s' = seen s \<and> sq_autocommit sq s'"
    using com [rule_format, of s None s'] by simp
  show "sq_batch sq ''COMMIT'' s = (Some e, s') \<Longrightarrow> disk s' = disk s" using com [rule_format, of s "Some e" s'] by simp
  show "sq_batch sq ''ROLLBACK'' s = (r, s') \<Longrightarrow> disk s' = disk s \<and> sq_autocommit sq s'" using rol by blast
qed

lemma handle_mutate_auto:
  "sq_autocommit sq s \<Longrightarrow> handle_mutate env sq ms s =
     (case run_batch env sq ''BEGIN'' s of
        (Inl e, s1) \<Rightarrow> (Inl e, s1)
      | (Inr _, s1) \<Rightarrow>
          (case apply_mutations env sq ms 0 s1 of
             (Inl e, s2) \<Rightarrow> (Inl e, snd (sq_batch sq ''ROLLBACK'' s2))
           | (Inr affected, s2) \<Rightarrow>
               (case run_batch env sq ''COMMIT'' s2 of
                  (Inl e, s3) \<Rightarrow> (Inl e, s3)
                | (Inr _, s3) \<Rightarrow> (Inr (OutAck (Some affected)), s3))))"
  by (simp add: handle_mutate_def cong: sum.case_cong prod.case_cong)

lemma handle_mutate_outcome:
  assumes "transactional sq disk seen" and "sq_autocommit sq s" and "handle_mutate env sq ms s = (r, s')"
  shows "case r of
      Inl e \<Rightarrow> disk s' = disk s
        \<and> (sq_autocommit sq s' \<and> seen s' = disk s
           \<or> (\<exists>s1 s2 n x. sq_batch sq ''BEGIN'' s = (None, s1) \<and> apply_mutations env sq ms 0 s1 = (Inr n, s2)
                \<and> sq_batch sq ''COMMIT'' s2 = (Some x, s') \<and> e = map_sqlite_err (le_shown env) x))
    | Inr out \<Rightarrow> (\<exists>s1 s2 counts. sq_batch sq ''BEGIN'' s = (None, s1)
        \<and> apply_mutations env sq ms 0 s1 = (Inr (sum_list counts), s2) \<and> disk s' = seen s2
        \<and> sq_autocommit sq s' \<and> seen s' = disk s'
        \<and> out = OutAck (Some (sum_list counts)) \<and> list_all2 (\<lambda>m c. check_count m c = Inr ()) ms counts)"
proof -
  note law = transactionalD [OF assms(1)]
  note hm = assms(3) [unfolded handle_mutate_auto [OF assms(2)]]
  obtain b s1 where b: "run_batch env sq ''BEGIN'' s = (b, s1)" by fastforce
  show ?thesis
  proof (cases b)
    case (Inl e)
    with b obtain x where "sq_batch sq ''BEGIN'' s = (Some x, s1)" by (auto simp: run_batch_Inl)
    with law(1,2,4) hm b Inl assms(2) show ?thesis by auto
  next
    case (Inr u)
    with b have begun: "sq_batch sq ''BEGIN'' s = (None, s1)" by (simp add: run_batch_Inr)
    obtain a s2 where a: "apply_mutations env sq ms 0 s1 = (a, s2)" by fastforce
    note k = apply_mutations_keeps [OF assms(1) a law(3) [OF begun]] law(2) [OF begun]
    show ?thesis
    proof (cases a)
      case (Inl e)
      obtain rb s3 where rb: "sq_batch sq ''ROLLBACK'' s2 = (rb, s3)" by fastforce
      with hm b Inr a Inl have "r = Inl e" "s' = s3" by simp_all
      with law(7) [OF rb] law(1) [of s3] k show ?thesis by simp
    next
      case (Inr n)
      with k obtain counts where c: "list_all2 (\<lambda>m c. check_count m c = Inr ()) ms counts" "n = sum_list counts" by auto
      obtain cm s3 where cm: "run_batch env sq ''COMMIT'' s2 = (cm, s3)" by fastforce
      show ?thesis
      proof (cases cm)
        case (Inl e)
        with cm obtain x where x: "sq_batch sq ''COMMIT'' s2 = (Some x, s3)" "e = map_sqlite_err (le_shown env) x"
          by (auto simp: run_batch_Inl)
        from law(6) [OF x(1)] k have "disk s3 = disk s" by simp
        moreover have "r = Inl e" "s' = s3" using hm b \<open>b = Inr u\<close> a Inr cm Inl by simp_all
        ultimately show ?thesis using begun a Inr x by auto
      next
        case (Inr v)
        with cm have "sq_batch sq ''COMMIT'' s2 = (None, s3)" by (simp add: run_batch_Inr)
        from law(5) [OF this] law(1) [of s3] have "disk s3 = seen s2" "sq_autocommit sq s3" "seen s3 = disk s3" by simp_all
        moreover have "r = Inr (OutAck (Some n))" "s' = s3"
          using hm b \<open>b = Inr u\<close> a \<open>a = Inr n\<close> cm Inr by simp_all
        ultimately show ?thesis using begun a \<open>a = Inr n\<close> c by auto
      qed
    qed
  qed
qed

text \<open>
  C27.  A batch of mutations sent outside a transaction is all or nothing.  When it is
  acknowledged, what is committed is what the connection saw after every mutation was applied in
  order, each update and delete having changed exactly one row; the count acknowledged is the
  sum, and no transaction is left open.  When it fails, nothing is committed; and unless it was the
  final \<open>COMMIT\<close> that failed, the transaction was rolled back: the connection is outside one again
  and sees the content committed before.
\<close>

theorem mutation_batch_atomic:
  assumes "transactional sq disk seen" and "sq_autocommit sq s" and "handle_mutate env sq ms s = (r, s')"
  shows "case r of
      Inl e \<Rightarrow> disk s' = disk s
        \<and> (sq_autocommit sq s' \<and> seen s' = disk s
           \<or> (\<exists>s1 s2 n x. sq_batch sq ''BEGIN'' s = (None, s1) \<and> apply_mutations env sq ms 0 s1 = (Inr n, s2)
                \<and> sq_batch sq ''COMMIT'' s2 = (Some x, s') \<and> e = map_sqlite_err (le_shown env) x))
    | Inr out \<Rightarrow> (\<exists>s1 s2 counts. sq_batch sq ''BEGIN'' s = (None, s1)
        \<and> apply_mutations env sq ms 0 s1 = (Inr (sum_list counts), s2) \<and> disk s' = seen s2
        \<and> sq_autocommit sq s' \<and> seen s' = disk s'
        \<and> out = OutAck (Some (sum_list counts)) \<and> list_all2 (\<lambda>m c. check_count m c = Inr ()) ms counts)"
  using assms by (rule handle_mutate_outcome)

text \<open>
  A connection to evaluate the model with: a counter of applied statements, committed and seen,
  whose commits fail while it is busy.
\<close>

record toy =
  toy_tx :: bool
  toy_disk :: nat
  toy_seen :: nat
  toy_busy :: bool
  toy_query_only :: bool

definition toy_batch :: "string \<Rightarrow> toy \<Rightarrow> rq_error option \<times> toy" where
  "toy_batch sql s =
     (if sql = ''BEGIN'' then
        if toy_tx s then (Some (OtherFailure ''nested''), s) else (None, s\<lparr>toy_tx := True, toy_seen := toy_disk s\<rparr>)
      else if sql = ''COMMIT'' then
        if toy_busy s \<or> \<not> toy_tx s then (Some (SqliteFailure ''DatabaseBusy'' None), s)
        else (None, s\<lparr>toy_tx := False, toy_disk := toy_seen s\<rparr>)
      else if sql = ''ROLLBACK'' then (None, s\<lparr>toy_tx := False\<rparr>)
      else if sql = ''PRAGMA query_only = ON'' then (None, s\<lparr>toy_query_only := True\<rparr>)
      else if sql = ''PRAGMA query_only = OFF'' then (None, s\<lparr>toy_query_only := False\<rparr>)
      else (None, s))"

definition toy_sqlite :: "toy sqlite" where
  "toy_sqlite =
     \<lparr>sq_batch = toy_batch, sq_autocommit = (\<lambda>s. \<not> toy_tx s), sq_prepare = (\<lambda>sql s. Inr []),
      sq_run = (\<lambda>sql vs s. (Inr 1, if toy_tx s then s\<lparr>toy_seen := toy_seen s + 1\<rparr>
                                   else s\<lparr>toy_disk := toy_disk s + 1\<rparr>)),
      sq_query = (\<lambda>sql vs s. (Inr [], s)), sq_primary_key = (\<lambda>path s. None)\<rparr>"

definition toy_env :: lite_env where
  "toy_env = \<lparr>le_dbg = plain_printers, le_f64 = sample_codec, le_lossy = (\<lambda>s. s), le_shown = (\<lambda>e. [])\<rparr>"

definition toy_view :: "toy \<Rightarrow> nat" where
  "toy_view s = (if toy_tx s then toy_seen s else toy_disk s)"

lemma toy_transactional: "transactional toy_sqlite toy_disk toy_view"
  by (auto simp: transactional_def toy_sqlite_def toy_batch_def toy_view_def split: option.splits if_splits)

definition toy_delete :: mutation where
  "toy_delete = MDelete [''t''] [([PField ''id''], VI64 1)] []"

lemma toy_delete_run:
  "apply_mutations toy_env toy_sqlite [toy_delete] 0 s
     = (Inr 1, if toy_tx s then s\<lparr>toy_seen := toy_seen s + 1\<rparr> else s\<lparr>toy_disk := toy_disk s + 1\<rparr>)"
  by (simp add: toy_delete_def apply_mutation_def run_statement_def bind_params_def toy_sqlite_def toy_env_def
      lite_refuse_expect_def lite_object_path_def lite_quote_parts_def lite_quote_ident_def keyed_where_def assignments_def
      expect_exactly_one_def)

definition toy_start :: toy where
  "toy_start = \<lparr>toy_tx = False, toy_disk = 4, toy_seen = 4, toy_busy = True, toy_query_only = False\<rparr>"

lemma toy_busy_run:
  "handle_mutate toy_env toy_sqlite [toy_delete] toy_start
   = (Inl (EQuery (Some ''DatabaseBusy'') [] None), toy_start\<lparr>toy_tx := True, toy_seen := 5\<rparr>)"
  using toy_delete_run [of "toy_start\<lparr>toy_tx := True, toy_seen := 4\<rparr>"]
  by (simp add: handle_mutate_def run_batch_def map_sqlite_err_def toy_start_def toy_sqlite_def [THEN arg_cong, of sq_batch]
      toy_sqlite_def [THEN arg_cong, of sq_autocommit] toy_batch_def) (simp add: toy_env_def)

definition toy_unkeyed :: mutation where
  "toy_unkeyed = MDelete [''t''] [] []"

lemma toy_delete_then_unkeyed:
  "apply_mutations toy_env toy_sqlite [toy_delete, toy_unkeyed] 0 s
     = (Inl (EUnsupported ''mutation with no row identity: refuse to guess which row to affect''),
        if toy_tx s then s\<lparr>toy_seen := toy_seen s + 1\<rparr> else s\<lparr>toy_disk := toy_disk s + 1\<rparr>)"
  by (simp add: toy_delete_def toy_unkeyed_def apply_mutation_def run_statement_def bind_params_def toy_sqlite_def toy_env_def
      lite_refuse_expect_def lite_object_path_def lite_quote_parts_def lite_quote_ident_def keyed_where_def assignments_def
      expect_exactly_one_def)

lemma toy_failed_run:
  "handle_mutate toy_env toy_sqlite [toy_delete, toy_unkeyed] toy_start
     = (Inl (EUnsupported ''mutation with no row identity: refuse to guess which row to affect''), toy_start\<lparr>toy_seen := 5\<rparr>)"
  by (simp add: handle_mutate_def run_batch_def toy_delete_then_unkeyed toy_start_def toy_sqlite_def [THEN arg_cong, of sq_batch]
      toy_sqlite_def [THEN arg_cong, of sq_autocommit] toy_batch_def del: apply_mutations.simps)

lemma mutation_batch_atomic_witness:
  "toy_view (toy_start\<lparr>toy_seen := 5\<rparr>) = toy_disk toy_start
   \<and> toy_disk (toy_start\<lparr>toy_tx := True, toy_seen := 5\<rparr>) = toy_disk toy_start"
  using mutation_batch_atomic [OF toy_transactional _ toy_busy_run] mutation_batch_atomic [OF toy_transactional _ toy_failed_run]
  by (simp add: toy_sqlite_def toy_start_def toy_view_def)

text \<open>
  When \<open>COMMIT\<close> fails and leaves the transaction open, as SQLite documents for a busy
  database or a deferred constraint, nothing rolls it back, and it swallows what follows: a later
  batch finds the connection inside a transaction, sends neither \<open>BEGIN\<close> nor \<open>COMMIT\<close>, and is
  acknowledged although nothing was committed.
\<close>

theorem failed_commit_swallows_next_batch:
  assumes "transactional sq disk seen" and "sq_autocommit sq s"
    and "handle_mutate env sq ms s = (Inl e, s1)" and "\<not> sq_autocommit sq s1"
    and "handle_mutate env sq ms' s1 = (Inr out, s2)"
  shows "disk s2 = disk s \<and> \<not> sq_autocommit sq s2"
proof -
  have "disk s1 = disk s" using handle_mutate_outcome [OF assms(1-3)] by simp
  obtain a s3 where a: "apply_mutations env sq ms' 0 s1 = (a, s3)" by fastforce
  with assms(4,5) have "s3 = s2" "\<exists>n. a = Inr n" by (auto simp: handle_mutate_def split: sum.splits)
  with apply_mutations_keeps [OF assms(1) a assms(4)] \<open>disk s1 = disk s\<close> show ?thesis by auto
qed

lemma toy_swallowed_run:
  "handle_mutate toy_env toy_sqlite [toy_delete] (toy_start\<lparr>toy_tx := True, toy_seen := 5\<rparr>)
   = (Inr (OutAck (Some 1)), toy_start\<lparr>toy_tx := True, toy_seen := 6\<rparr>)"
  using toy_delete_run [of "toy_start\<lparr>toy_tx := True, toy_seen := 5\<rparr>"]
  by (simp add: handle_mutate_def toy_sqlite_def [THEN arg_cong, of sq_autocommit])

lemma failed_commit_swallows_next_batch_witness:
  "toy_disk (toy_start\<lparr>toy_tx := True, toy_seen := 6\<rparr>) = toy_disk toy_start"
  using failed_commit_swallows_next_batch [OF toy_transactional _ toy_busy_run _ toy_swallowed_run]
  by (simp add: toy_sqlite_def toy_start_def)

text \<open>
  Asking to explain a mutation ends the worker of the connection: the request is not
  dispatched as a mutation, and preparing what it wraps reaches \<open>unreachable!\<close>.
\<close>

theorem explain_mutation_panics:
  "worker_step env sq (MsgExecute (Operation (Explain (Operation (Mutate ms)) False))) w = None"
  by (simp add: handle_execute_def)

section \<open>A scan delivers its rows\<close>

text \<open>What one call of the loop takes from the statement and leaves.\<close>

lemma fetch_rows_spec:
  assumes "fetch_rows env mx mb rows out bytes sc = (Inr (out', bytes'), sc')"
  shows "\<exists>cells. rows = map Inr cells @ sc_rows sc' \<and> out' = out @ map (row_values env (sc_columns sc)) cells
    \<and> (length out \<le> mx \<longrightarrow> length out' \<le> mx)
    \<and> sc_rows_emitted sc' = sc_rows_emitted sc + length cells \<and> sc_columns sc' = sc_columns sc
    \<and> sc_resume_key sc' = sc_resume_key sc \<and> sc_seq sc' = sc_seq sc
    \<and> (sc_ended sc' \<longrightarrow> sc_ended sc \<or> sc_rows sc' = [])
    \<and> (if cells = [] then sc_token sc' = sc_token sc
        else \<exists>t. sc_token sc' = next_token env (sc_resume_key sc) (row_values env (sc_columns sc) (last cells)) t)"
  using assms
proof (induction env mx mb rows out bytes sc rule: fetch_rows.induct)
  case (1 env mx mb rows out bytes sc)
  show ?case
  proof (cases "mx \<le> length out")
    case True
    with "1.prems" show ?thesis by (intro exI [of _ "[]"]) (auto simp: fetch_rows.simps [of env mx mb rows out bytes sc])
  next
    case False
    show ?thesis
    proof (cases rows)
      case Nil
      with "1.prems" False show ?thesis
        by (intro exI [of _ "[]"]) (auto simp: fetch_rows.simps [of env mx mb "[]" out bytes sc])
    next
      case (Cons x rest)
      with "1.prems" False obtain cs where x: "x = Inr cs"
        by (cases x) (auto simp: fetch_rows.simps [of env mx mb "Inl e # rest" out bytes sc for e])
      define vals where "vals = row_values env (sc_columns sc) cs"
      define by' where "by' = bytes + row_bytes (sc_columns sc) cs"
      define sc1 where "sc1 = sc\<lparr>sc_token := next_token env (sc_resume_key sc) vals (sc_token sc),
                                 sc_rows_emitted := sc_rows_emitted sc + 1\<rparr>"
      note defs = vals_def by'_def sc1_def
      have eq: "fetch_rows env mx mb rows out bytes sc =
          (if mb \<le> by' then (Inr (out @ [vals], by'), sc1\<lparr>sc_rows := rest\<rparr>)
           else fetch_rows env mx mb rest (out @ [vals]) by' sc1)"
        using False Cons x by (simp add: fetch_rows.simps [of env mx mb "Inr cs # rest" out bytes sc] defs Let_def)
      show ?thesis
      proof (cases "mb \<le> by'")
        case True
        with "1.prems" eq have "out' = out @ [vals]" "sc' = sc1\<lparr>sc_rows := rest\<rparr>" by simp_all
        with Cons x False show ?thesis by (intro exI [of _ "[cs]"]) (auto simp: sc1_def vals_def)
      next
        case F2: False
        have "fetch_rows env mx mb rest (out @ [vals]) by' sc1 = (Inr (out', bytes'), sc')" using "1.prems" eq F2 by simp
        from "1.IH" [OF False Cons x vals_def by'_def sc1_def F2 this] obtain cells where
          ih: "rest = map Inr cells @ sc_rows sc'" "out' = (out @ [vals]) @ map (row_values env (sc_columns sc1)) cells"
            "length (out @ [vals]) \<le> mx \<longrightarrow> length out' \<le> mx"
            "sc_rows_emitted sc' = sc_rows_emitted sc1 + length cells" "sc_columns sc' = sc_columns sc1"
            "sc_resume_key sc' = sc_resume_key sc1" "sc_seq sc' = sc_seq sc1" "sc_ended sc' \<longrightarrow> sc_ended sc1 \<or> sc_rows sc' = []"
            "if cells = [] then sc_token sc' = sc_token sc1
             else \<exists>t. sc_token sc' = next_token env (sc_resume_key sc1) (row_values env (sc_columns sc1) (last cells)) t"
          by blast
        show ?thesis
        proof (intro exI [of _ "cs # cells"] conjI)
          show "rows = map Inr (cs # cells) @ sc_rows sc'" using Cons x ih(1) by simp
          show "out' = out @ map (row_values env (sc_columns sc)) (cs # cells)" using ih(2) by (simp add: defs)
          show "length out \<le> mx \<longrightarrow> length out' \<le> mx" using ih(3) False by simp
          show "sc_rows_emitted sc' = sc_rows_emitted sc + length (cs # cells)" using ih(4) by (simp add: sc1_def)
          show "if cs # cells = [] then sc_token sc' = sc_token sc
             else \<exists>t. sc_token sc' = next_token env (sc_resume_key sc) (row_values env (sc_columns sc) (last (cs # cells))) t"
            using ih(9) by (cases "cells = []") (auto simp: defs)
        qed (use ih(5-8) in \<open>simp_all add: sc1_def\<close>)
      qed
    qed
  qed
qed

lemma token_of_row:
  assumes "i < length vals" "sqlite_key (vals ! i)" "\<And>f. vals ! i = VF64 f \<Longrightarrow> f64_law (le_f64 env) f"
  shows "\<exists>tok. next_token env (Some (i, desc)) vals t = Some tok \<and> decode_resume (le_f64 env) tok = Inr (vals ! i)"
  using assms(1) resume_roundtrip [OF assms(2,3)] by (simp add: next_token_def)

lemma fetch_batch_delivers:
  assumes "fetch_batch env hint sc = (Inr (Some b), sc')"
  shows "\<exists>cells. cells \<noteq> [] \<and> sc_rows sc = map Inr cells @ sc_rows sc'
    \<and> wb_payload b = PRows (map (row_values env (sc_columns sc)) cells) \<and> wb_seq b = sc_seq sc
    \<and> length cells \<le> max 1 (fh_max_rows hint)
    \<and> sc_seq sc' = sc_seq sc + 1 \<and> sc_rows_emitted sc' = sc_rows_emitted sc + length cells
    \<and> (\<exists>t. sc_token sc' = next_token env (sc_resume_key sc) (row_values env (sc_columns sc) (last cells)) t)"
proof -
  from assms have "\<not> sc_ended sc" by (auto simp: fetch_batch_def)
  with assms obtain out bytes sc1 where f: "fetch_rows env (max 1 (fh_max_rows hint)) (fh_max_bytes hint) (sc_rows sc) [] 0 sc
      = (Inr (out, bytes), sc1)" and out: "out \<noteq> []"
    and b: "b = \<lparr>wb_seq = sc_seq sc1, wb_payload = PRows out, wb_deltas = [], wb_notices = []\<rparr>"
    and sc': "sc' = sc1\<lparr>sc_seq := sc_seq sc1 + 1, sc_bytes_emitted := sc_bytes_emitted sc1 + bytes\<rparr>"
    by (auto simp: fetch_batch_def split: prod.splits sum.splits if_splits)
  from fetch_rows_spec [OF f] obtain cells where c: "sc_rows sc = map Inr cells @ sc_rows sc1"
    "out = map (row_values env (sc_columns sc)) cells" "length out \<le> max 1 (fh_max_rows hint)"
    "sc_rows_emitted sc1 = sc_rows_emitted sc + length cells" "sc_seq sc1 = sc_seq sc"
    "if cells = [] then sc_token sc1 = sc_token sc
     else \<exists>t. sc_token sc1 = next_token env (sc_resume_key sc) (row_values env (sc_columns sc) (last cells)) t" by auto
  from c out have "cells \<noteq> []" by auto
  with c show ?thesis unfolding b sc' by (intro exI [of _ cells]) simp
qed

text \<open>
  C28.  A batch of a SQLite scan is the next rows of its statement, in order, never more than the
  hint asks for, and afterwards the resume token stands for exactly the last row delivered: it
  decodes to the sort key of that row, which a resumed scan binds after a strict comparison.
\<close>

theorem scan_batch_and_token:
  assumes "fetch_batch env hint sc = (Inr (Some b), sc')" and "sc_resume_key sc = Some (i, desc)"
  shows "\<exists>cells. cells \<noteq> [] \<and> sc_rows sc = map Inr cells @ sc_rows sc'
    \<and> wb_payload b = PRows (map (row_values env (sc_columns sc)) cells)
    \<and> length cells \<le> max 1 (fh_max_rows hint)
    \<and> (let key = row_values env (sc_columns sc) (last cells) ! i
        in i < length (row_values env (sc_columns sc) (last cells)) \<longrightarrow> sqlite_key key \<longrightarrow>
           (\<forall>f. key = VF64 f \<longrightarrow> f64_law (le_f64 env) f) \<longrightarrow>
             (\<exists>tok. sc_token sc' = Some tok \<and> decode_resume (le_f64 env) tok = Inr key))"
proof -
  from fetch_batch_delivers [OF assms(1)] obtain cells t where c: "cells \<noteq> []" "sc_rows sc = map Inr cells @ sc_rows sc'"
    "wb_payload b = PRows (map (row_values env (sc_columns sc)) cells)" "length cells \<le> max 1 (fh_max_rows hint)"
    "sc_token sc' = next_token env (sc_resume_key sc) (row_values env (sc_columns sc) (last cells)) t" by blast
  let ?vals = "row_values env (sc_columns sc) (last cells)"
  have "\<exists>tok. sc_token sc' = Some tok \<and> decode_resume (le_f64 env) tok = Inr (?vals ! i)"
    if "i < length ?vals" "sqlite_key (?vals ! i)" "\<forall>f. ?vals ! i = VF64 f \<longrightarrow> f64_law (le_f64 env) f"
    unfolding c(5) assms(2) by (rule token_of_row) (use that in blast)+
  with c(1-4) show ?thesis unfolding Let_def by blast
qed

definition toy_scan :: open_scan where
  "toy_scan = open_scan_of [Inr [SInteger 1], Inr [SInteger 2], Inr [SInteger 3]]
     [\<lparr>cm_name = ''id'', cm_logical = LI64, cm_native = Some ''INTEGER''\<rparr>] (Some (0, False))"

definition toy_hint :: fetch_hint where
  "toy_hint = \<lparr>fh_max_rows = 2, fh_max_bytes = 100, fh_target_ms = 0\<rparr>"

lemma toy_fetch:
  "case fetch_batch toy_env toy_hint toy_scan of
     (Inr (Some b), sc') \<Rightarrow> wb_payload b = PRows [[VI64 1], [VI64 2]] \<and> sc_rows sc' = [Inr [SInteger 3]]
   | _ \<Rightarrow> False"
  by code_simp

lemma scan_batch_and_token_witness:
  "\<exists>b sc' cells. fetch_batch toy_env toy_hint toy_scan = (Inr (Some b), sc') \<and> cells \<noteq> []
     \<and> sc_rows toy_scan = map Inr cells @ sc_rows sc'"
proof -
  from toy_fetch obtain b sc' where f: "fetch_batch toy_env toy_hint toy_scan = (Inr (Some b), sc')"
    by (auto split: prod.splits sum.splits option.splits)
  from scan_batch_and_token [OF f, of 0 False] f show ?thesis by (auto simp: toy_scan_def open_scan_of_def)
qed

section \<open>The read-only assertion\<close>

text \<open>
  \<open>PRAGMA query_only\<close> as documented: it takes the value set when it succeeds, keeps it when it
  fails, and no other statement of the loop changes it.
\<close>

definition pragma_law :: "'s sqlite \<Rightarrow> ('s \<Rightarrow> bool) \<Rightarrow> bool" where
  "pragma_law sq ro =
     ((\<forall>s r s'. sq_batch sq ''PRAGMA query_only = ON'' s = (r, s') \<longrightarrow> ro s' = (r = None \<or> ro s))
      \<and> (\<forall>s r s'. sq_batch sq ''PRAGMA query_only = OFF'' s = (r, s') \<longrightarrow> ro s' = (r \<noteq> None \<and> ro s))
      \<and> (\<forall>sql s r s'. sql \<in> {''BEGIN'', ''COMMIT'', ''ROLLBACK'', ''SELECT 1;''} \<longrightarrow>
            sq_batch sq sql s = (r, s') \<longrightarrow> ro s' = ro s))"

definition ro_inv :: "('s \<Rightarrow> bool) \<Rightarrow> 's worker \<Rightarrow> bool" where
  "ro_inv ro w = (ro (wk_conn w) = (wk_session_ro w \<or> wk_forced_ro w))"

lemma pragma_lawD:
  assumes "pragma_law sq ro"
  shows "run_batch env sq ''PRAGMA query_only = ON'' s = (r, s') \<Longrightarrow> ro s' = (r = Inr () \<or> ro s)"
    "run_batch env sq ''PRAGMA query_only = OFF'' s = (r, s') \<Longrightarrow> ro s' = (r \<noteq> Inr () \<and> ro s)"
    "run_batch env sq ''BEGIN'' s = (r, s') \<Longrightarrow> ro s' = ro s"
    "run_batch env sq (if c then ''COMMIT'' else ''ROLLBACK'') s = (r, s') \<Longrightarrow> ro s' = ro s"
    "run_batch env sq ''SELECT 1;'' s = (r, s') \<Longrightarrow> ro s' = ro s"
  using assms unfolding pragma_law_def run_batch_def by (auto split: option.splits prod.splits if_splits)

lemma begin_tx_inv:
  assumes "pragma_law sq ro" "begin_tx env sq opts w = (r, w')" "ro_inv ro w"
  shows "ro_inv ro w'"
  using assms(2,3) unfolding begin_tx_def ro_inv_def
  by (auto dest!: pragma_lawD [OF assms(1)] split: prod.splits sum.splits if_splits)

lemma handle_begin_inv:
  assumes "pragma_law sq ro" "handle_begin env sq opts w = (r, w')" "ro_inv ro w"
  shows "ro_inv ro w'"
  using assms(2,3) begin_tx_inv [OF assms(1), of env opts w r w'] by (auto simp: handle_begin_def split: option.splits if_splits)

lemma handle_end_tx_inv:
  assumes "pragma_law sq ro" "handle_end_tx env sq commit w = (r, w')" "ro_inv ro w"
  shows "ro_inv ro w'"
proof -
  obtain a s1 where a: "run_batch env sq (if commit then ''COMMIT'' else ''ROLLBACK'') (wk_conn w) = (a, s1)" by fastforce
  note s1 = pragma_lawD(4) [OF assms(1) a]
  obtain b s2 where b: "run_batch env sq ''PRAGMA query_only = OFF'' s1 = (b, s2)" by fastforce
  note s2 = pragma_lawD(2) [OF assms(1) b]
  show ?thesis using assms(2,3) a b s1 s2 unfolding handle_end_tx_def ro_inv_def
    by (auto split: sum.splits if_splits)
qed

lemma set_read_only_inv:
  assumes "pragma_law sq ro" "set_read_only env sq on w = (r, w')" "ro_inv ro w" "on \<or> \<not> wk_forced_ro w"
  shows "ro_inv ro w'"
  using assms(2-4) unfolding set_read_only_def ro_inv_def
  by (cases on) (auto dest!: pragma_lawD [OF assms(1)] split: prod.splits sum.splits)

fun touches_only_transactions :: "worker_msg \<Rightarrow> bool" where
  "touches_only_transactions (MsgExecute req) = False"
| "touches_only_transactions _ = True"

text \<open>
  The worker keeps \<open>PRAGMA query_only\<close> set exactly while the session is read-only or a
  read-only transaction is open, whatever fails on the way, as long as the session is not switched
  to writable inside such a transaction.
\<close>

theorem worker_read_only_kept:
  assumes "pragma_law sq ro" and "ro_inv ro w" and "touches_only_transactions msg"
    and "msg = MsgSetReadOnly False \<Longrightarrow> \<not> wk_forced_ro w" and "worker_step env sq msg w = Some (rep, w')"
  shows "ro_inv ro w'"
proof (cases msg)
  case (MsgFetch cid hint)
  with assms(2,5) show ?thesis by (auto simp: handle_fetch_def ro_inv_def split: option.splits prod.splits)
next
  case MsgPing
  with assms(2,5) pragma_lawD(5) [OF assms(1)] show ?thesis by (auto simp: ro_inv_def split: prod.splits)
next
  case (MsgBegin opts)
  with assms handle_begin_inv [OF assms(1)] show ?thesis by (auto split: prod.splits)
next
  case (MsgSetReadOnly on)
  with assms set_read_only_inv [OF assms(1)] show ?thesis by (cases on) (auto split: prod.splits)
qed (use assms handle_end_tx_inv [OF assms(1)] in \<open>auto simp: ro_inv_def split: prod.splits\<close>)

lemma toy_pragma: "pragma_law toy_sqlite toy_query_only"
  by (auto simp: pragma_law_def toy_sqlite_def toy_batch_def split: if_splits)

lemma worker_read_only_kept_witness:
  "ro_inv toy_query_only
     \<lparr>wk_conn = toy_start\<lparr>toy_tx := True, toy_query_only := True\<rparr>, wk_cursors = [], wk_next = 1, wk_session_ro = False, wk_forced_ro = True\<rparr>"
proof (rule worker_read_only_kept [OF toy_pragma])
  show "worker_step toy_env toy_sqlite (MsgBegin \<lparr>tx_isolation = None, tx_read_only = True\<rparr>)
      \<lparr>wk_conn = toy_start, wk_cursors = [], wk_next = 1, wk_session_ro = False, wk_forced_ro = False\<rparr>
    = Some (RepUnit (Inr ()), \<lparr>wk_conn = toy_start\<lparr>toy_tx := True, toy_query_only := True\<rparr>, wk_cursors = [], wk_next = 1,
        wk_session_ro = False, wk_forced_ro = True\<rparr>)"
    by (simp add: handle_begin_def begin_tx_def run_batch_def toy_sqlite_def toy_batch_def toy_start_def)
qed (simp_all add: ro_inv_def toy_start_def)

section \<open>Mutations are closed\<close>

lemma assignments_shape:
  "assignments dbg kvs = Inr parts \<Longrightarrow> list_all2 (sql_shape Sqlite) parts (map (\<lambda>kv. question_marks [snd kv]) kvs)"
proof (induction kvs arbitrary: parts)
  case (Cons kv kvs)
  obtain field v where kv: "kv = (field, v)" by (cases kv)
  with Cons.prems obtain f ps where f: "field_ident dbg field = Inr f" and "assignments dbg kvs = Inr ps"
    and parts: "parts = (f @ '' = '' @ ''?'') # ps" by (auto simp: assignments_def)
  with Cons.IH shape_assign [OF field_ident_shape [OF f] question_ok] show ?case unfolding parts kv by simp
qed (simp add: assignments_def)

lemma assigned_shape:
  "assignments dbg kvs = Inr parts \<Longrightarrow> plain Sqlite sep \<Longrightarrow> sql_shape Sqlite (join sep parts) (question_marks (map snd kvs))"
  using shape_join_values [of Sqlite parts "\<lambda>kv. [snd kv]" kvs sep] assignments_shape [of dbg kvs parts]
  by (simp add: question_marks_def map_concat comp_def)

text \<open>
  A mutation compiled for SQLite is closed, one placeholder a value in order, and an update or
  a delete without a key never compiles.
\<close>

theorem lite_mutation_closed:
  assumes "lite_compile_mutation dbg m = Inr (s, params)"
  shows "reads_closed Sqlite s (length params) \<and> params = mutation_values m
    \<and> (\<forall>path key sets ex. m = MUpdate path key sets ex \<or> m = MDelete path key ex \<longrightarrow> key \<noteq> [])"
proof (cases m)
  case (MInsert path doc)
  with assms obtain d table cols where doc: "doc = VDocument d" and t: "lite_object_path dbg path = Inr table"
    and c: "try_map (\<lambda>(k, v). lite_quote_ident dbg k) d = Inr cols" and p: "params = map snd d"
    and s: "s = ''INSERT INTO '' @ table @ '' ('' @ join '', '' cols @ '') VALUES ('' @ join '', '' (replicate (length d) ''?'') @ '')''"
    by (cases doc) auto
  have "list_all (\<lambda>c. sql_shape Sqlite c []) cols" by (rule try_map_shapes [OF c]) (auto intro: lite_quote_ident_shape)
  moreover have "replicate (length d) ''?'' = question_marks d" by (simp add: question_marks_def map_replicate_const)
  ultimately have "sql_shape Sqlite s (question_marks d)"
    using shape_insert [OF lite_quote_parts_shape, of dbg path table cols "question_marks d"] t question_marks_ok [of Sqlite d] s
    by (simp add: lite_object_path_def)
  from shape_reads_closed [OF this] show ?thesis using p doc MInsert by simp
next
  case (MUpdate path key sets ex)
  with assms obtain table parts w where t: "lite_object_path dbg path = Inr table"
    and a: "assignments dbg sets = Inr parts" and k: "key \<noteq> []" and w: "assignments dbg key = Inr w"
    and p: "params = map snd sets @ map snd key"
    and s: "s = ''UPDATE '' @ table @ '' SET '' @ join '', '' parts @ '' WHERE '' @ join '' AND '' w"
    by (auto simp: keyed_where_def split: if_splits)
  have "sql_shape Sqlite s (question_marks (map snd sets) @ question_marks (map snd key))" unfolding s
    by (rule shape_update [OF lite_quote_parts_shape assigned_shape [OF a] assigned_shape [OF w]])
      (use t in \<open>simp_all add: lite_object_path_def plain_char_def\<close>)
  from shape_reads_closed [OF this] show ?thesis using p k MUpdate by simp
next
  case (MDelete path key ex)
  with assms obtain table w where t: "lite_object_path dbg path = Inr table" and k: "key \<noteq> []"
    and w: "assignments dbg key = Inr w" and p: "params = map snd key"
    and s: "s = ''DELETE FROM '' @ table @ '' WHERE '' @ join '' AND '' w"
    by (auto simp: keyed_where_def split: if_splits)
  have "sql_shape Sqlite s (question_marks (map snd key))" unfolding s
    by (rule shape_delete [OF lite_quote_parts_shape assigned_shape [OF w]])
      (use t in \<open>simp_all add: lite_object_path_def plain_char_def\<close>)
  from shape_reads_closed [OF this] show ?thesis using p k MDelete by simp
qed

lemma toy_delete_compiles:
  "lite_compile_mutation plain_printers toy_delete = Inr (''DELETE FROM \"t\" WHERE \"id\" = ?'', [VI64 1])"
  by code_simp

lemma lite_mutation_closed_witness: "reads_closed Sqlite ''DELETE FROM \"t\" WHERE \"id\" = ?'' 1"
  using lite_mutation_closed [OF toy_delete_compiles] by simp

end
