(* ===== verification/Json_Data.thy ===== *)
theory Json_Data
  imports Sql_Pieces Mongo_Parser Value_Text
begin

text \<open>
  JSON values as \<open>serde_json::Value\<close> holds them, with the accessors the sources use.  Printing and
  parsing JSON text belong to the library; the theories that need them take them as arguments.
\<close>

section \<open>Data\<close>

text \<open>A number is a \<open>u64\<close>, a negative \<open>i64\<close> or a finite double.\<close>

datatype json_number = JPos nat | JNeg int | JFloat f64

datatype json_value =
    JNull
  | JBool bool
  | JNumber json_number
  | JString string
  | JArray "json_value list"
  | JObject "(string \<times> json_value) list"

section \<open>Accessors\<close>

fun number_i64 :: "json_number \<Rightarrow> int option" where
  "number_i64 (JPos n) = (if int n < 2 ^ 63 then Some (int n) else None)"
| "number_i64 (JNeg i) = Some i"
| "number_i64 (JFloat f) = None"

fun number_u64 :: "json_number \<Rightarrow> nat option" where
  "number_u64 (JPos n) = Some n"
| "number_u64 _ = None"

text \<open>The double nearest to an integer is an argument.\<close>

fun number_f64 :: "(int \<Rightarrow> f64) \<Rightarrow> json_number \<Rightarrow> f64" where
  "number_f64 nearest (JPos n) = nearest (int n)"
| "number_f64 nearest (JNeg i) = nearest i"
| "number_f64 nearest (JFloat f) = f"

fun json_i64 :: "json_value \<Rightarrow> int option" where
  "json_i64 (JNumber n) = number_i64 n"
| "json_i64 _ = None"

fun json_u64 :: "json_value \<Rightarrow> nat option" where
  "json_u64 (JNumber n) = number_u64 n"
| "json_u64 _ = None"

fun json_bool :: "json_value \<Rightarrow> bool option" where
  "json_bool (JBool b) = Some b"
| "json_bool _ = None"

fun json_str :: "json_value \<Rightarrow> string option" where
  "json_str (JString s) = Some s"
| "json_str _ = None"

fun json_array :: "json_value \<Rightarrow> json_value list option" where
  "json_array (JArray xs) = Some xs"
| "json_array _ = None"

fun json_object :: "json_value \<Rightarrow> (string \<times> json_value) list option" where
  "json_object (JObject o') = Some o'"
| "json_object _ = None"

definition json_get :: "json_value \<Rightarrow> string \<Rightarrow> json_value option" where
  "json_get j key = Option.bind (json_object j) (\<lambda>o'. map_of o' key)"

definition json_of_int :: "int \<Rightarrow> json_value" where
  "json_of_int i = JNumber (if i < 0 then JNeg i else JPos (nat i))"

definition json_of_nat :: "nat \<Rightarrow> json_value" where
  "json_of_nat n = JNumber (JPos n)"

lemma json_i64_of_int [simp]: "i < 2 ^ 63 \<Longrightarrow> json_i64 (json_of_int i) = Some i"
  by (simp add: json_of_int_def)

lemma json_u64_of_nat [simp]: "json_u64 (json_of_nat n) = Some n"
  by (simp add: json_of_nat_def)

lemma json_of_int_not_null [simp]: "json_of_int i \<noteq> JNull" "json_of_nat n \<noteq> JNull"
  by (simp_all add: json_of_int_def json_of_nat_def)

lemma try_map_cong [fundef_cong]:
  "xs = ys \<Longrightarrow> (\<And>x. x \<in> set ys \<Longrightarrow> f x = g x) \<Longrightarrow> try_map f xs = try_map g ys"
  by (induction ys arbitrary: xs) auto

lemma try_map_map: "try_map f (map g xs) = try_map (\<lambda>x. f (g x)) xs"
  by (induction xs) auto

lemma try_map_all: "(\<And>x. x \<in> set xs \<Longrightarrow> f x = Inr (g x)) \<Longrightarrow> try_map f xs = Inr (map g xs)"
  by (induction xs) auto

text \<open>Parts of a JSON value are smaller.\<close>

lemma json_array_size [simp]: "x \<in> set xs \<Longrightarrow> size x < size (JArray xs)"
  by (induction xs) auto

lemma json_object_size: "(k, v) \<in> set obj \<Longrightarrow> size v < size (JObject obj)"
  by (induction obj) auto

lemma json_field_size [simp]: "map_of obj k = Some v \<Longrightarrow> size v < size (JObject obj)"
  using json_object_size [OF map_of_SomeD] by blast

section \<open>Through text\<close>

text \<open>
  What a value must satisfy to be one \<open>serde_json\<close> can hold and read again: integers of 64 bits,
  finite doubles, texts in UTF-8, distinct members.  A reader gives up beyond 127 levels.  The
  locked build has \<open>serde_json\<close> without \<open>float_roundtrip\<close>, so the double read from the text of a
  finite double may be a neighbour of it; \<open>reread\<close> tells which, and is \<open>None\<close> where the reader refuses.
\<close>

fun plain_json :: "(f64 \<Rightarrow> f64 option) \<Rightarrow> json_value \<Rightarrow> bool" where
  "plain_json reread JNull = True"
| "plain_json reread (JBool b) = True"
| "plain_json reread (JNumber (JPos n)) = (n < 2 ^ 64)"
| "plain_json reread (JNumber (JNeg i)) = (- (2 ^ 63) \<le> i \<and> i < 0)"
| "plain_json reread (JNumber (JFloat d)) = (d \<notin> {''NaN'', ''inf'', ''-inf''} \<and> reread d \<noteq> None)"
| "plain_json reread (JString s) = utf8 s"
| "plain_json reread (JArray js) = list_all (plain_json reread) js"
| "plain_json reread (JObject ms) = (distinct (map fst ms) \<and> list_all (\<lambda>(k, v). utf8 k \<and> plain_json reread v) ms)"

fun json_depth :: "json_value \<Rightarrow> nat" where
  "json_depth (JArray js) = Suc (foldr max (map json_depth js) 0)"
| "json_depth (JObject ms) = Suc (foldr max (map (\<lambda>(k, v). json_depth v) ms) 0)"
| "json_depth _ = 0"

fun map_doubles :: "(f64 \<Rightarrow> f64) \<Rightarrow> json_value \<Rightarrow> json_value" where
  "map_doubles f (JNumber (JFloat d)) = JNumber (JFloat (f d))"
| "map_doubles f (JArray js) = JArray (map (map_doubles f) js)"
| "map_doubles f (JObject ms) = JObject (map (\<lambda>(k, v). (k, map_doubles f v)) ms)"
| "map_doubles f j = j"

definition json_text_law ::
  "(json_value \<Rightarrow> string) \<Rightarrow> (string \<Rightarrow> string + json_value) \<Rightarrow> (f64 \<Rightarrow> f64 option) \<Rightarrow> bool" where
  "json_text_law to_text from_str reread =
     (\<forall>j. plain_json reread j \<longrightarrow> json_depth j \<le> 127 \<longrightarrow> from_str (to_text j) = Inr (map_doubles (\<lambda>d. the (reread d)) j))"

lemma json_depth_list: "foldr max (map f xs) 0 \<le> n \<longleftrightarrow> (\<forall>x \<in> set xs. f x \<le> (n :: nat))"
  by (induction xs) auto

lemma map_doubles_of_int [simp]: "map_doubles f (json_of_int i) = json_of_int i"
  by (simp add: json_of_int_def)

text \<open>
  A printer and a reader that keep every value, to evaluate the model with: texts with each
  character marked, integers in unary, parts marked and closed.
\<close>

fun marked :: "string \<Rightarrow> string" where
  "marked [] = ''.''"
| "marked (c # s) = CHR ''='' # c # marked s"

fun unmarked :: "string \<Rightarrow> (string \<times> string) option" where
  "unmarked (a # c # r) =
     (if a = CHR ''.'' then Some ([], c # r) else map_option (\<lambda>(s, q). (c # s, q)) (unmarked r))"
| "unmarked [a] = (if a = CHR ''.'' then Some ([], []) else None)"
| "unmarked [] = None"

fun marked_json :: "json_value \<Rightarrow> string" where
  "marked_json JNull = ''n''"
| "marked_json (JBool b) = (if b then ''t'' else ''f'')"
| "marked_json (JNumber (JPos n)) = CHR ''+'' # marked (replicate n CHR ''1'')"
| "marked_json (JNumber (JNeg i)) = CHR ''-'' # marked (replicate (nat (- i)) CHR ''1'')"
| "marked_json (JNumber (JFloat d)) = CHR ''d'' # marked d"
| "marked_json (JString s) = CHR ''s'' # marked s"
| "marked_json (JArray js) = CHR ''['' # concat (map (\<lambda>j. CHR '','' # marked_json j) js) @ '']''"
| "marked_json (JObject ms) = CHR ''{'' # concat (map (\<lambda>(k, v). CHR '','' # marked k @ marked_json v) ms) @ ''}''"

fun unmark :: "nat \<Rightarrow> string \<Rightarrow> (json_value \<times> string) option"
  and unmark_items :: "nat \<Rightarrow> string \<Rightarrow> (json_value list \<times> string) option"
  and unmark_members :: "nat \<Rightarrow> string \<Rightarrow> ((string \<times> json_value) list \<times> string) option" where
  "unmark (Suc n) (c # r) =
     (if c = CHR ''n'' then Some (JNull, r)
      else if c = CHR ''t'' then Some (JBool True, r)
      else if c = CHR ''f'' then Some (JBool False, r)
      else if c = CHR ''+'' then map_option (\<lambda>(s, q). (JNumber (JPos (length s)), q)) (unmarked r)
      else if c = CHR ''-'' then map_option (\<lambda>(s, q). (JNumber (JNeg (- int (length s))), q)) (unmarked r)
      else if c = CHR ''d'' then map_option (\<lambda>(s, q). (JNumber (JFloat s), q)) (unmarked r)
      else if c = CHR ''s'' then map_option (\<lambda>(s, q). (JString s, q)) (unmarked r)
      else if c = CHR ''['' then map_option (\<lambda>(js, q). (JArray js, q)) (unmark_items n r)
      else if c = CHR ''{'' then map_option (\<lambda>(ms, q). (JObject ms, q)) (unmark_members n r)
      else None)"
| "unmark _ _ = None"
| "unmark_items (Suc n) (c # r) =
     (if c = CHR '']'' then Some ([], r)
      else Option.bind (unmark n r) (\<lambda>(j, r'). map_option (\<lambda>(js, q). (j # js, q)) (unmark_items n r')))"
| "unmark_items _ _ = None"
| "unmark_members (Suc n) (c # r) =
     (if c = CHR ''}'' then Some ([], r)
      else Option.bind (unmarked r) (\<lambda>(k, r'). Option.bind (unmark n r') (\<lambda>(j, r'').
             map_option (\<lambda>(ms, q). ((k, j) # ms, q)) (unmark_members n r''))))"
| "unmark_members _ _ = None"

definition marked_read :: "string \<Rightarrow> string + json_value" where
  "marked_read s = (case unmark (length s) s of Some (j, []) \<Rightarrow> Inr j | _ \<Rightarrow> Inl ''expected value'')"

lemma unmarked_marked [simp]: "unmarked (marked s @ r) = Some (s, r)"
proof (induction s)
  case Nil
  then show ?case by (cases r) simp_all
qed simp

lemma unmark_items_marked:
  assumes "\<And>j n r. j \<in> set js \<Longrightarrow> length (marked_json j) \<le> n \<Longrightarrow> unmark n (marked_json j @ r) = Some (j, r)"
  shows "length (concat (map (\<lambda>j. CHR '','' # marked_json j) js)) < n \<Longrightarrow>
    unmark_items n (concat (map (\<lambda>j. CHR '','' # marked_json j) js) @ CHR '']'' # r) = Some (js, r)"
  using assms
proof (induction js arbitrary: n)
  case Nil
  then show ?case by (cases n) simp_all
next
  case (Cons j js)
  then show ?case by (cases n) simp_all
qed

lemma unmark_members_marked:
  assumes "\<And>k j n r. (k, j) \<in> set ms \<Longrightarrow> length (marked_json j) \<le> n \<Longrightarrow> unmark n (marked_json j @ r) = Some (j, r)"
  shows "length (concat (map (\<lambda>(k, v). CHR '','' # marked k @ marked_json v) ms)) < n \<Longrightarrow>
    unmark_members n (concat (map (\<lambda>(k, v). CHR '','' # marked k @ marked_json v) ms) @ CHR ''}'' # r) = Some (ms, r)"
  using assms
proof (induction ms arbitrary: n)
  case Nil
  then show ?case by (cases n) simp_all
next
  case (Cons m ms)
  obtain k j where m: "m = (k, j)" by fastforce
  obtain n' where n: "n = Suc n'" "length (marked_json j) \<le> n'"
    "length (concat (map (\<lambda>(k, v). CHR '','' # marked k @ marked_json v) ms)) < n'"
    using Cons.prems(1) m by (cases n) simp_all
  have j: "unmark n' (marked_json j @ q) = Some (j, q)" for q using Cons.prems(2) [of k j n' q] m n(2) by simp
  have "unmark_members n' (concat (map (\<lambda>(k, v). CHR '','' # marked k @ marked_json v) ms) @ CHR ''}'' # r) = Some (ms, r)"
    using Cons.prems(2) by (intro Cons.IH [OF n(3)]) (metis list.set_intros(2))
  then show ?case by (simp add: m n(1) j)
qed

lemma unmark_marked:
  "plain_json Some j \<Longrightarrow> length (marked_json j) \<le> fuel \<Longrightarrow> unmark fuel (marked_json j @ r) = Some (j, r)"
proof (induction j arbitrary: fuel r rule: marked_json.induct)
  case (7 js)
  then obtain n' where n: "fuel = Suc n'" "length (concat (map (\<lambda>j. CHR '','' # marked_json j) js)) < n'"
    by (cases fuel) simp_all
  have "unmark_items n' (concat (map (\<lambda>j. CHR '','' # marked_json j) js) @ CHR '']'' # r) = Some (js, r)"
    using 7 by (intro unmark_items_marked n(2)) (simp add: list_all_iff)
  then show ?case by (simp add: n(1))
next
  case (8 ms)
  then obtain n' where n: "fuel = Suc n'" "length (concat (map (\<lambda>(k, v). CHR '','' # marked k @ marked_json v) ms)) < n'"
    by (cases fuel) simp_all
  have "unmark_members n' (concat (map (\<lambda>(k, v). CHR '','' # marked k @ marked_json v) ms) @ CHR ''}'' # r) = Some (ms, r)"
    using 8 by (intro unmark_members_marked n(2)) (fastforce simp: list_all_iff)
  then show ?case by (simp add: n(1))
qed (case_tac [!] fuel, auto simp del: replicate.simps marked.simps split: if_splits)

lemma map_doubles_same [simp]: "map_doubles (\<lambda>d. d) j = j"
  by (induction "\<lambda>d :: f64. d" j rule: map_doubles.induct) (auto intro!: map_idI)

lemma marked_json_law: "json_text_law marked_json marked_read Some"
  using unmark_marked [where r = "[]"] by (simp add: json_text_law_def marked_read_def)

end
