(* ===== verification/Url_Text.thy ===== *)
theory Url_Text
  imports Value_Text
begin

text \<open>
  Text of connection URLs: percent escapes as the connection dialog, the drivers and the sidecar
  driver write and read them, and the redaction of a URL (\<open>crates/datagrep-api/src/config.rs\<close>).
\<close>

section \<open>Hexadecimal pairs\<close>

text \<open>\<open>u8::from_str_radix\<close> of two bytes in base 16: a leading plus sign is taken.\<close>

definition radix16 :: "char \<Rightarrow> char \<Rightarrow> char option" where
  "radix16 a b =
     (if a = CHR ''+'' \<and> is_ascii_hexdigit b then Some (char_of (hex_nibble b))
      else if is_ascii_hexdigit a \<and> is_ascii_hexdigit b then Some (char_of (hex_nibble a * 16 + hex_nibble b))
      else None)"

definition hex_digit :: "nat \<Rightarrow> char" where
  "hex_digit d = char_of (if d < 10 then 48 + d else 87 + d)"

text \<open>What the digits of both cases have in common.\<close>

definition reads_as_digit :: "nat \<Rightarrow> char \<Rightarrow> bool" where
  "reads_as_digit d c =
     (is_ascii_hexdigit c \<and> hex_nibble c = d \<and> c \<noteq> CHR ''-'' \<and> c \<noteq> CHR ''+'' \<and> is_ascii_alphanumeric c)"

lemma reads_as_digitI:
  assumes "d < 16" "bval c = (if d < 10 then 48 + d else 87 + d) \<or> bval c = (if d < 10 then 48 + d else 55 + d)"
  shows "reads_as_digit d c"
proof -
  have "bval (CHR ''-'') = 45" "bval (CHR ''+'') = 43" by code_simp+
  moreover have "48 \<le> bval c" using assms(2) by (auto split: if_splits)
  ultimately have "c \<noteq> CHR ''-''" "c \<noteq> CHR ''+''" by auto
  with assms show ?thesis
    by (auto simp: reads_as_digit_def is_ascii_hexdigit_def is_ascii_digit_def in_interval_def hex_nibble_def
        is_ascii_alphanumeric_def is_ascii_alphabetic_def is_ascii_lower_def is_ascii_upper_def split: if_splits)
qed

lemma hex_digits_read:
  assumes "d < 16"
  shows "reads_as_digit d (hex_digit d)" "reads_as_digit d (ascii_upper (hex_digit d))"
proof -
  have v: "bval (hex_digit d) = (if d < 10 then 48 + d else 87 + d)"
    using assms by (simp add: hex_digit_def bval_def)
  then have "bval (ascii_upper (hex_digit d)) = (if d < 10 then 48 + d else 55 + d)"
    using assms by (simp add: ascii_upper_def is_ascii_lower_def in_interval_def bval_def)
  with v assms show "reads_as_digit d (hex_digit d)" "reads_as_digit d (ascii_upper (hex_digit d))"
    by (auto intro!: reads_as_digitI)
qed

lemma reads_as_pair: "reads_as_digit d a \<Longrightarrow> reads_as_digit e b \<Longrightarrow> radix16 a b = Some (char_of (d * 16 + e))"
  by (simp add: radix16_def reads_as_digit_def)

lemma hex_byte_digits: "hex_byte c = [hex_digit (bval c div 16), hex_digit (bval c mod 16)]"
proof -
  have b: "bval c < 256" by (simp add: bval_def)
  have zero: "CHR ''0'' = hex_digit 0" by code_simp
  show ?thesis
  proof (cases "bval c < 16")
    case True
    then show ?thesis by (simp add: hex_byte_def zero_pad_def show_hex_def hex_digit_def [symmetric] zero)
  next
    case False
    then obtain m where "bval c = Suc m" by (cases "bval c") auto
    then show ?thesis using b False
      by (simp add: hex_byte_def zero_pad_def show_hex_def hex_digit_def [symmetric] less_mult_imp_div_less)
  qed
qed

lemma byte_digits: "bval c div 16 < 16" "bval c mod 16 < 16" "char_of (bval c div 16 * 16 + bval c mod 16) = c"
  by (simp_all add: bval_def less_mult_imp_div_less)

lemma hex_byte_pair: "\<exists>a b. hex_byte c = [a, b] \<and> radix16 a b = Some c \<and> a \<noteq> CHR ''-'' \<and> b \<noteq> CHR ''-''"
proof -
  note d = hex_digits_read(1) [OF byte_digits(1) [of c]] hex_digits_read(1) [OF byte_digits(2) [of c]]
  from reads_as_pair [OF d] byte_digits(3) [of c] d show ?thesis by (simp add: hex_byte_digits reads_as_digit_def)
qed

section \<open>Percent escapes\<close>

text \<open>\<open>{:02X}\<close>.\<close>

definition hex_byte_upper :: "char \<Rightarrow> string" where
  "hex_byte_upper c = map ascii_upper (hex_byte c)"

definition pct_encode :: "(char \<Rightarrow> bool) \<Rightarrow> string \<Rightarrow> string" where
  "pct_encode keep s = concat (map (\<lambda>c. if keep c then [c] else CHR ''%'' # hex_byte_upper c) s)"

text \<open>The unreserved characters, which the dialog keeps; the MongoDB driver escapes seven.\<close>

definition unreserved :: "char \<Rightarrow> bool" where
  "unreserved c = (is_ascii_alphanumeric c \<or> c = CHR ''-'' \<or> c = CHR ''.'' \<or> c = CHR ''_'' \<or> c = CHR ''~'')"

definition not_delimiter :: "char \<Rightarrow> bool" where
  "not_delimiter c = (c \<notin> set '':@/?#%'')"

text \<open>The bytes the drivers decode to; what is no escape stays as it is.\<close>

fun pct_bytes :: "string \<Rightarrow> string" where
  "pct_bytes (c # a # b # s) =
     (if c = CHR ''%'' then (case radix16 a b of Some x \<Rightarrow> x # pct_bytes s | None \<Rightarrow> c # pct_bytes (a # b # s))
      else c # pct_bytes (a # b # s))"
| "pct_bytes (c # s) = c # pct_bytes s"
| "pct_bytes [] = []"

text \<open>
  The dialog slices the text after a percent sign: \<open>None\<close> is the panic when the two bytes do not end
  at a character.
\<close>

fun pct_bytes_dialog :: "string \<Rightarrow> string option" where
  "pct_bytes_dialog (c # a # b # s) =
     (if c = CHR ''%'' then
        (if is_continuation a \<or> (s \<noteq> [] \<and> is_continuation (hd s)) then None
         else (case radix16 a b of
                 Some x \<Rightarrow> map_option (\<lambda>r. x # r) (pct_bytes_dialog s)
               | None \<Rightarrow> map_option (\<lambda>r. c # r) (pct_bytes_dialog (a # b # s))))
      else map_option (\<lambda>r. c # r) (pct_bytes_dialog (a # b # s)))"
| "pct_bytes_dialog (c # s) = map_option (\<lambda>r. c # r) (pct_bytes_dialog s)"
| "pct_bytes_dialog [] = Some []"

text \<open>The sidecar driver refuses an escape that is none.\<close>

fun pct_bytes_strict :: "string \<Rightarrow> string option" where
  "pct_bytes_strict [] = Some []"
| "pct_bytes_strict (c # s) =
     (if c = CHR ''%'' then
        (case s of
           a # b # r \<Rightarrow>
             if is_continuation a \<or> (r \<noteq> [] \<and> is_continuation (hd r)) then None
             else (case radix16 a b of None \<Rightarrow> None | Some x \<Rightarrow> map_option (\<lambda>t. x # t) (pct_bytes_strict r))
         | _ \<Rightarrow> None)
      else map_option (\<lambda>t. c # t) (pct_bytes_strict s))"

lemma upper_pair:
  "\<exists>a b. hex_byte_upper c = [a, b] \<and> radix16 a b = Some c \<and> is_ascii_alphanumeric a \<and> is_ascii_alphanumeric b"
proof -
  note d = hex_digits_read(2) [OF byte_digits(1) [of c]] hex_digits_read(2) [OF byte_digits(2) [of c]]
  from reads_as_pair [OF d] byte_digits(3) [of c] d show ?thesis
    by (simp add: hex_byte_upper_def hex_byte_digits reads_as_digit_def)
qed

lemma pct_encode_simps [simp]:
  "pct_encode keep [] = []"
  "pct_encode keep (c # s) = (if keep c then c # pct_encode keep s else CHR ''%'' # hex_byte_upper c @ pct_encode keep s)"
  by (simp_all add: pct_encode_def)

lemma pct_bytes_plain: "c \<noteq> CHR ''%'' \<Longrightarrow> pct_bytes (c # s) = c # pct_bytes s"
  by (cases "c # s" rule: pct_bytes.cases) auto

lemma pct_dialog_plain: "c \<noteq> CHR ''%'' \<Longrightarrow> pct_bytes_dialog (c # s) = map_option (\<lambda>r. c # r) (pct_bytes_dialog s)"
  by (cases "c # s" rule: pct_bytes_dialog.cases) auto

lemma pct_bytes_encode:
  assumes "\<not> keep (CHR ''%'')"
  shows "pct_bytes (pct_encode keep s) = s"
proof (induction s)
  case (Cons c s)
  obtain a b where "hex_byte_upper c = [a, b]" "radix16 a b = Some c" using upper_pair by blast
  moreover have "keep c \<Longrightarrow> c \<noteq> CHR ''%''" using assms by auto
  ultimately show ?case using Cons by (simp add: pct_bytes_plain)
qed simp

lemma alnum_not_continuation: "is_ascii_alphanumeric c \<Longrightarrow> \<not> is_continuation c"
  by (auto simp: is_ascii_alphanumeric_def is_ascii_alphabetic_def is_ascii_upper_def is_ascii_lower_def
      is_ascii_digit_def in_interval_def is_continuation_def)

lemma ascii_keep_head:
  assumes "\<And>c. keep c \<Longrightarrow> \<not> is_continuation c" "pct_encode keep s \<noteq> []"
  shows "\<not> is_continuation (hd (pct_encode keep s))"
proof -
  have "\<not> is_continuation (CHR ''%'')" by code_simp
  then show ?thesis using assms by (cases s) auto
qed

lemma pct_encode_checked:
  assumes "\<not> keep (CHR ''%'')" "\<And>c. keep c \<Longrightarrow> \<not> is_continuation c"
  shows "pct_bytes_dialog (pct_encode keep s) = Some s \<and> pct_bytes_strict (pct_encode keep s) = Some s"
proof (induction s)
  case (Cons c s)
  obtain a b where ab: "hex_byte_upper c = [a, b]" "radix16 a b = Some c" "\<not> is_continuation a"
    using upper_pair [of c] alnum_not_continuation by blast
  show ?case
  proof (cases "keep c")
    case True
    with assms(1) have "c \<noteq> CHR ''%''" by auto
    with True Cons show ?thesis by (simp add: pct_dialog_plain)
  next
    case False
    with Cons ab ascii_keep_head [of keep s] assms(2) show ?thesis by auto
  qed
qed simp

lemma unreserved_facts: "\<not> unreserved (CHR ''%'')" "unreserved c \<Longrightarrow> \<not> is_continuation c"
proof -
  show "\<not> unreserved (CHR ''%'')" by code_simp
  have "\<not> is_continuation (CHR ''-'')" "\<not> is_continuation (CHR ''.'')" "\<not> is_continuation (CHR ''_'')" "\<not> is_continuation (CHR ''~'')"
    by code_simp+
  then show "unreserved c \<Longrightarrow> \<not> is_continuation c" by (auto simp: unreserved_def alnum_not_continuation)
qed

text \<open>What the dialog writes, all readers read back: none of them panics or refuses.\<close>

lemma unreserved_round_trip:
  "pct_bytes (pct_encode unreserved s) = s"
  "pct_bytes_dialog (pct_encode unreserved s) = Some s"
  "pct_bytes_strict (pct_encode unreserved s) = Some s"
  using pct_bytes_encode [of unreserved s] pct_encode_checked [of unreserved s] unreserved_facts by blast+

lemma pct_encode_set:
  assumes "c \<in> set (pct_encode unreserved s)"
  shows "unreserved c \<or> c = CHR ''%''"
proof -
  have "set (hex_byte_upper d) \<subseteq> Collect is_ascii_alphanumeric" for d using upper_pair [of d] by auto
  with assms show ?thesis by (auto simp: pct_encode_def unreserved_def split: if_splits)
qed

section \<open>Searching text\<close>

text \<open>\<open>str::find\<close> of a text, \<open>str::split_once\<close> at a text, \<open>str::rsplit_once\<close> at a byte.\<close>

fun find_text :: "string \<Rightarrow> string \<Rightarrow> nat option" where
  "find_text p [] = (if p = [] then Some 0 else None)"
| "find_text p (c # s) = (if starts_with (c # s) p then Some 0 else map_option Suc (find_text p s))"

definition split_once_text :: "string \<Rightarrow> string \<Rightarrow> (string \<times> string) option" where
  "split_once_text p s = map_option (\<lambda>i. (take i s, drop (i + length p) s)) (find_text p s)"

definition rsplit_once_char :: "char \<Rightarrow> string \<Rightarrow> (string \<times> string) option" where
  "rsplit_once_char d s = map_option (\<lambda>(a, b). (rev b, rev a)) (split_once_char d (rev s))"

lemma split_once_first: "d \<notin> set a \<Longrightarrow> split_once_char d (a @ d # b) = Some (a, b)"
  by (induction a) auto

lemma split_once_absent: "d \<notin> set a \<Longrightarrow> split_once_char d a = None"
  by (induction a) auto

lemma rsplit_once_last: "d \<notin> set b \<Longrightarrow> rsplit_once_char d (a @ d # b) = Some (a, b)"
  using split_once_first [of d "rev b" "rev a"] by (simp add: rsplit_once_char_def)

lemma rsplit_once_absent: "d \<notin> set a \<Longrightarrow> rsplit_once_char d a = None"
  using split_once_absent [of d "rev a"] by (simp add: rsplit_once_char_def)

lemma find_text_first:
  assumes "p = c # p'" "c \<notin> set a"
  shows "find_text p (a @ p @ s) = Some (length a)"
  using assms(2)
proof (induction a)
  case Nil
  have "starts_with (c # p' @ s) (c # p')" using starts_with_append [of p s] assms(1) by simp
  then show ?case using assms(1) by simp
next
  case (Cons d a)
  then show ?case using assms(1) by auto
qed

lemma split_scheme:
  assumes "CHR '':'' \<notin> set scheme"
  shows "split_once_text ''://'' (scheme @ CHR '':'' # CHR ''/'' # CHR ''/'' # s) = Some (scheme, s)"
  using find_text_first [of "''://''" "CHR '':''" "''//''" scheme s] assms by (simp add: split_once_text_def)

section \<open>Redaction of a URL\<close>

text \<open>Four bullets.\<close>

definition MASK :: string where
  "MASK = concat (replicate 4 [CHR 0xE2, CHR 0x80, CHR 0xA2])"

definition ends_authority :: "char \<Rightarrow> bool" where
  "ends_authority c = (c \<in> set ''/?#'')"

definition redact_url :: "string \<Rightarrow> string" where
  "redact_url url =
     (case split_once_text ''://'' url of
        None \<Rightarrow> url
      | Some (scheme, rest) \<Rightarrow>
          let authority = takeWhile (\<lambda>c. \<not> ends_authority c) rest
          in (case rsplit_once_char (CHR ''@'') authority of
                None \<Rightarrow> url
              | Some (userinfo, host) \<Rightarrow>
                  (case split_once_char (CHR '':'') userinfo of
                     None \<Rightarrow> url
                   | Some (user, password) \<Rightarrow>
                       scheme @ ''://'' @ user @ '':'' @ MASK @ ''@'' @ host @ drop (length authority) rest)))"

lemma authority_of:
  assumes "list_all (\<lambda>c. \<not> ends_authority c) authority" "rest = [] \<or> ends_authority (hd rest)"
  shows "takeWhile (\<lambda>c. \<not> ends_authority c) (authority @ rest) = authority"
  using assms by (cases rest) (auto simp: list_all_iff takeWhile_append2)

text \<open>
  The password of a URL is masked and nothing else changes, whatever colons and at signs the
  password has, as long as it holds no slash, question mark or hash: the result does not depend on
  it.
\<close>

theorem redact_url_masks:
  assumes "CHR '':'' \<notin> set scheme" "list_all (\<lambda>c. \<not> ends_authority c) (user @ password @ host)"
    "CHR '':'' \<notin> set user" "CHR ''@'' \<notin> set host" "rest = [] \<or> ends_authority (hd rest)"
  shows "redact_url (scheme @ ''://'' @ user @ '':'' @ password @ ''@'' @ host @ rest)
    = scheme @ ''://'' @ user @ '':'' @ MASK @ ''@'' @ host @ rest"
proof -
  define authority where "authority = (user @ CHR '':'' # password) @ CHR ''@'' # host"
  have "\<not> ends_authority (CHR '':'')" "\<not> ends_authority (CHR ''@'')" by code_simp+
  with assms(2) have "list_all (\<lambda>c. \<not> ends_authority c) authority" by (simp add: authority_def)
  then have a: "takeWhile (\<lambda>c. \<not> ends_authority c) (authority @ rest) = authority" by (rule authority_of [OF _ assms(5)])
  have "split_once_text ''://'' (scheme @ ''://'' @ authority @ rest) = Some (scheme, authority @ rest)"
    using split_scheme [OF assms(1), of "authority @ rest"] by simp
  moreover have "rsplit_once_char (CHR ''@'') authority = Some (user @ CHR '':'' # password, host)"
    unfolding authority_def by (rule rsplit_once_last [OF assms(4)])
  moreover have "split_once_char (CHR '':'') (user @ CHR '':'' # password) = Some (user, password)"
    by (rule split_once_first [OF assms(3)])
  ultimately have "redact_url (scheme @ ''://'' @ authority @ rest) = scheme @ ''://'' @ user @ '':'' @ MASK @ ''@'' @ host @ rest"
    using a by (simp add: redact_url_def)
  then show ?thesis by (simp add: authority_def)
qed

lemma redact_url_masks_witness: "redact_url ''mongodb://u:p@ss@host/db'' = ''mongodb://u:'' @ MASK @ ''@host/db''"
  using redact_url_masks [of "''mongodb''" "''u''" "''p@ss''" "''host''" "''/db''"] by (simp add: ends_authority_def)

text \<open>
  What the redaction misses: a password with a slash that is not escaped, and the API key that the
  Elasticsearch driver takes from the query.
\<close>

lemma redact_url_leaks:
  "redact_url ''pg://alice:hunter/2@db/app'' = ''pg://alice:hunter/2@db/app''"
  "redact_url ''https://es:9243/?api_key=secret'' = ''https://es:9243/?api_key=secret''"
  by code_simp+

end
