(* ===== verification/Sidecar_Wire.thy ===== *)
theory Sidecar_Wire
  imports Json_Data Driver_Api Url_Text
begin

text \<open>
  The pipe to a sidecar process: frames (\<open>crates/datagrep-drv-sidecar/src/frame.rs\<close>) and the
  JSON form of values, errors and shapes (\<open>wire.rs\<close>).
\<close>

section \<open>Frames\<close>

definition MAX_FRAME :: nat where
  "MAX_FRAME = 16777216"

datatype frame_error = Oversized nat | Truncated | FrameIo string

text \<open>Big-endian bytes of a \<open>u32\<close>, and back.\<close>

definition u32_bytes :: "nat \<Rightarrow> string" where
  "u32_bytes n = [char_of (n div 16777216), char_of (n div 65536), char_of (n div 256), char_of n]"

definition u32_value :: "string \<Rightarrow> nat" where
  "u32_value s = fold (\<lambda>c acc. acc * 256 + bval c) s 0"

text \<open>
  A pipe answers reads: it is the pieces in which its bytes arrive, none empty, and its end is the
  end of the list; an error is an answer too.  One \<open>read\<close> takes at most the room it is given.
\<close>

type_synonym pipe = "(string + string) list"

fun pipe_read :: "nat \<Rightarrow> pipe \<Rightarrow> (string + string) \<times> pipe" where
  "pipe_read room [] = (Inr [], [])"
| "pipe_read room (Inl e # rest) = (Inl e, rest)"
| "pipe_read room (Inr bs # rest) =
     (if length bs \<le> room then (Inr bs, rest) else (Inr (take room bs), Inr (drop room bs) # rest))"

text \<open>The loop over the header and \<open>read_exact\<close>: read until \<open>want\<close> bytes are there.\<close>

function read_more :: "nat \<Rightarrow> string \<Rightarrow> pipe \<Rightarrow> (frame_error + string option) \<times> pipe" where
  "read_more want got p =
     (if want \<le> length got then (Inr (Some got), p)
      else case pipe_read (want - length got) p of
          (Inl e, p') \<Rightarrow> (Inl (FrameIo e), p')
        | (Inr bs, p') \<Rightarrow>
            if bs = [] then (if got = [] then (Inr None, p') else (Inl Truncated, p'))
            else read_more want (got @ bs) p')"
  by pat_completeness auto
termination
proof (relation "measure (\<lambda>(want, got, p). want - length got)")
  fix want :: nat and got bs :: string and p x p'
  assume "\<not> want \<le> length got" "bs \<noteq> []"
  then show "((want, got @ bs, p'), (want, got, p)) \<in> measure (\<lambda>(want, got, p). want - length got)"
    by (cases bs) auto
qed simp

declare read_more.simps [simp del]

definition read_frame :: "nat \<Rightarrow> pipe \<Rightarrow> (frame_error + string option) \<times> pipe" where
  "read_frame cap p =
     (case read_more 4 [] p of
        (Inl e, p') \<Rightarrow> (Inl e, p')
      | (Inr None, p') \<Rightarrow> (Inr None, p')
      | (Inr (Some header), p') \<Rightarrow>
          let len = u32_value header
          in if cap < len then (Inl (Oversized len), p')
             else (case read_more len [] p' of
                     (Inl e, p'') \<Rightarrow> (Inl e, p'')
                   | (Inr None, p'') \<Rightarrow> (Inl Truncated, p'')
                   | (Inr (Some body), p'') \<Rightarrow> (Inr (Some body), p'')))"

definition write_frame :: "string \<Rightarrow> string + string" where
  "write_frame body =
     (if length body < 2 ^ 32 \<and> length body \<le> MAX_FRAME then Inr (u32_bytes (length body) @ body)
      else Inl ''outgoing frame exceeds the cap'')"

section \<open>Frames survive any cutting of the stream\<close>

text \<open>The bytes still in a pipe without errors.\<close>

fun pipe_bytes :: "pipe \<Rightarrow> string" where
  "pipe_bytes [] = []"
| "pipe_bytes (Inl e # rest) = pipe_bytes rest"
| "pipe_bytes (Inr bs # rest) = bs @ pipe_bytes rest"

definition pipe_ok :: "pipe \<Rightarrow> bool" where
  "pipe_ok p = list_all (\<lambda>a. case a of Inl e \<Rightarrow> False | Inr bs \<Rightarrow> bs \<noteq> []) p"

lemma pipe_read_ok:
  assumes "pipe_ok p" "0 < room" "pipe_read room p = (r, p')"
  shows "pipe_ok p' \<and> (\<exists>bs. r = Inr bs \<and> length bs \<le> room \<and> pipe_bytes p = bs @ pipe_bytes p' \<and> (bs = [] \<longrightarrow> p = []))"
  using assms by (cases "(room, p)" rule: pipe_read.cases) (auto simp: pipe_ok_def split: if_splits)

lemma read_more_ok:
  assumes "pipe_ok p" "want - length got \<le> length (pipe_bytes p)" "length got \<le> want"
  shows "\<exists>p'. read_more want got p = (Inr (Some (got @ take (want - length got) (pipe_bytes p))), p') \<and> pipe_ok p'
    \<and> pipe_bytes p' = drop (want - length got) (pipe_bytes p)"
  using assms
proof (induction want got p rule: read_more.induct)
  case (1 want got p)
  show ?case
  proof (cases "want \<le> length got")
    case True
    with "1.prems" show ?thesis by (simp add: read_more.simps [of want got p])
  next
    case False
    obtain r p1 where r: "pipe_read (want - length got) p = (r, p1)" by fastforce
    from pipe_read_ok [OF "1.prems"(1) _ r] False obtain bs where bs: "r = Inr bs" "length bs \<le> want - length got"
      "pipe_bytes p = bs @ pipe_bytes p1" "bs = [] \<longrightarrow> p = []" "pipe_ok p1" by auto
    have "bs \<noteq> []" using bs(4) "1.prems"(2) False by auto
    with r bs False have eq: "read_more want got p = read_more want (got @ bs) p1"
      by (simp add: read_more.simps [of want got p])
    have "want - length (got @ bs) \<le> length (pipe_bytes p1)" "length (got @ bs) \<le> want"
      using "1.prems"(2) bs(2,3) False by auto
    from "1.IH" [OF False r [symmetric] bs(1) \<open>bs \<noteq> []\<close> bs(5) this] obtain p2 where
      "read_more want (got @ bs) p1 = (Inr (Some ((got @ bs) @ take (want - length (got @ bs)) (pipe_bytes p1))), p2)"
      "pipe_ok p2" "pipe_bytes p2 = drop (want - length (got @ bs)) (pipe_bytes p1)" by auto
    then show ?thesis using eq bs(2,3) by (intro exI [of _ p2]) (simp add: take_append drop_append)
  qed
qed

lemma bval_mod: "bval (char_of n) = n mod 256"
  by (simp add: bval_def)

lemma u32_round_trip:
  assumes "n < 2 ^ 32"
  shows "u32_value (u32_bytes n) = n"
proof -
  have top: "n div 16777216 mod 256 = n div 16777216" using assms by (simp add: less_mult_imp_div_less)
  have split1: "n div 16777216 * 256 + n div 65536 mod 256 = n div 65536"
    using div_mult_mod_eq [of "n div 65536" 256] by (simp add: div_mult2_eq [symmetric])
  have split2: "n div 65536 * 256 + n div 256 mod 256 = n div 256"
    using div_mult_mod_eq [of "n div 256" 256] by (simp add: div_mult2_eq [symmetric])
  have split3: "n div 256 * 256 + n mod 256 = n" by (rule div_mult_mod_eq)
  show ?thesis by (simp only: u32_value_def u32_bytes_def fold_simps bval_mod top split1 split2 split3 mult_0 add_0 comp_def id_apply)
qed

lemma read_frame_write:
  assumes "write_frame body = Inr bytes" "pipe_ok p" "pipe_bytes p = bytes @ rest"
  shows "\<exists>p'. read_frame MAX_FRAME p = (Inr (Some body), p') \<and> pipe_ok p' \<and> pipe_bytes p' = rest"
proof -
  from assms(1) have len: "length body < 2 ^ 32" "length body \<le> MAX_FRAME" and bytes: "bytes = u32_bytes (length body) @ body"
    by (auto simp: write_frame_def split: if_splits)
  have h: "length (u32_bytes (length body)) = 4" by (simp add: u32_bytes_def)
  from read_more_ok [OF assms(2), of 4 "[]"] assms(3) bytes h obtain p1 where
    p1: "read_more 4 [] p = (Inr (Some (u32_bytes (length body))), p1)" "pipe_ok p1" "pipe_bytes p1 = body @ rest" by auto
  from read_more_ok [OF p1(2), of "length body" "[]"] p1(3) obtain p2 where
    p2: "read_more (length body) [] p1 = (Inr (Some body), p2)" "pipe_ok p2" "pipe_bytes p2 = rest" by auto
  show ?thesis using p1(1) p2 len u32_round_trip [OF len(1)] by (intro exI [of _ p2]) (simp add: read_frame_def)
qed

fun read_frames :: "nat \<Rightarrow> pipe \<Rightarrow> string list \<times> (frame_error + unit)" where
  "read_frames 0 p = ([], Inr ())"
| "read_frames (Suc n) p =
     (case read_frame MAX_FRAME p of
        (Inl e, p') \<Rightarrow> ([], Inl e)
      | (Inr None, p') \<Rightarrow> ([], Inr ())
      | (Inr (Some body), p') \<Rightarrow> (case read_frames n p' of (bs, r) \<Rightarrow> (body # bs, r)))"

text \<open>
  C23.  Whatever pieces the pipe cuts the stream into, the frames written come back, in order and
  whole, and then the clean end of the stream.
\<close>

theorem frames_roundtrip:
  assumes "pipe_ok p" and "list_all2 (\<lambda>body bytes. write_frame body = Inr bytes) bodies written"
    and "pipe_bytes p = concat written"
  shows "read_frames (Suc (length bodies)) p = (bodies, Inr ())"
  using assms(2,1,3)
proof (induction arbitrary: p rule: list_all2_induct)
  case Nil
  then have "p = []" by (cases p rule: pipe_bytes.cases) (auto simp: pipe_ok_def)
  then show ?case by (simp add: read_frame_def read_more.simps)
next
  case (Cons body bodies bytes written)
  from Cons.prems(2) have "pipe_bytes p = bytes @ concat written" by simp
  from read_frame_write [OF Cons.hyps(1) Cons.prems(1) this] obtain p' where
    p': "read_frame MAX_FRAME p = (Inr (Some body), p')" "pipe_ok p'" "pipe_bytes p' = concat written" by blast
  from Cons.IH [OF p'(2,3)] p'(1) show ?case by simp
qed

section \<open>Errors and shapes\<close>

record wire_error =
  we_kind :: string
  we_code :: "string option"
  we_message :: string
  we_position :: "nat option"

text \<open>\<open>into_db_error\<close>; the configuration error keeps its display, as everywhere in the model.\<close>

definition into_db_error :: "wire_error \<Rightarrow> db_error" where
  "into_db_error w =
     (let m = we_message w; k = we_kind w
      in if k = ''connect'' then EConnect m
         else if k = ''auth'' then EAuth m
         else if k = ''tls'' then ETls m
         else if k = ''query'' then EQuery (we_code w) m (we_position w)
         else if k = ''conflict'' then EConflict (we_code w) m
         else if k = ''timeout'' then ETimeout
         else if k = ''cancelled'' then ECancelled
         else if k = ''unsupported'' then EUnsupported m
         else if k = ''resource'' then EResourceExhausted m
         else if k = ''config'' then EConfig (''invalid value for `'' @ (case we_code w of None \<Rightarrow> [] | Some c \<Rightarrow> c) @ ''`: '' @ m)
         else if k = ''panic'' then EDriverPanic m
         else EProtocol (''sidecar sent error kind `'' @ k @ ''`: '' @ m))"

record wire_field =
  wf_name :: string
  wf_logical :: logical_type
  wf_nullable :: bool
  wf_native :: "string option"

datatype wire_shape = WTable "wire_field list" | WAck "nat option" "string option" | WUnknown

definition field_of_wire :: "wire_field \<Rightarrow> field_def" where
  "field_of_wire f =
     \<lparr>fd_name = wf_name f, fd_logical = wf_logical f, fd_flags = (if wf_nullable f then 1 else 0),
      fd_native = wf_native f\<rparr>"

fun into_shape :: "wire_shape \<Rightarrow> shape" where
  "into_shape (WTable fs) = ShTable \<lparr>rs_fields = map field_of_wire fs, rs_identity = None\<rparr>"
| "into_shape (WAck affected message) = ShAck affected message"
| "into_shape WUnknown = ShUnknown"

section \<open>Values\<close>

text \<open>What the codec takes from the libraries: base64, the nearest double of an integer, the
  rounding to single precision, the text of a JSON value and of a geometry.\<close>

record wire_env =
  wn_b64 :: "string \<Rightarrow> string"
  wn_unb64 :: "string \<Rightarrow> string option"
  wn_nearest :: "int \<Rightarrow> f64"
  wn_single :: "f64 \<Rightarrow> f64"
  wn_json :: "json_value \<Rightarrow> string"
  wn_geo :: "geometry \<Rightarrow> string"

fun show_logical :: "logical_type \<Rightarrow> string" where
  "show_logical LNull = ''Null''"
| "show_logical LBool = ''Bool''"
| "show_logical LI64 = ''I64''"
| "show_logical LU64 = ''U64''"
| "show_logical LF64 = ''F64''"
| "show_logical LDecimal = ''Decimal''"
| "show_logical LStr = ''Str''"
| "show_logical LBytes = ''Bytes''"
| "show_logical LDate = ''Date''"
| "show_logical LTime = ''Time''"
| "show_logical LTimestamp = ''Timestamp''"
| "show_logical LInterval = ''Interval''"
| "show_logical LUuid = ''Uuid''"
| "show_logical LJson = ''Json''"
| "show_logical LArray = ''Array''"
| "show_logical LDocument = ''Document''"
| "show_logical LRef = ''Ref''"
| "show_logical LGeo = ''Geo''"
| "show_logical LVector = ''Vector''"
| "show_logical LUnknown = ''Unknown''"

definition is_tagged :: "json_value \<Rightarrow> bool" where
  "is_tagged cell = (case json_object cell of None \<Rightarrow> False | Some o' \<Rightarrow> map_of o' ''$t'' \<noteq> None)"

definition bytes_of :: "wire_env \<Rightarrow> json_value \<Rightarrow> string option" where
  "bytes_of env cell = Option.bind (json_str cell) (wn_unb64 env)"

text \<open>Doubles: the texts \<open>NaN\<close>, \<open>inf\<close> and \<open>-inf\<close> stand for the values JSON has no number for.\<close>

fun decode_f64 :: "wire_env \<Rightarrow> json_value \<Rightarrow> f64 option" where
  "decode_f64 env (JNumber n) = Some (number_f64 (wn_nearest env) n)"
| "decode_f64 env (JString s) =
     (if s = ''NaN'' then Some ''NaN''
      else if s = ''Infinity'' then Some ''inf''
      else if s = ''-Infinity'' then Some ''-inf''
      else None)"
| "decode_f64 env _ = None"

text \<open>Arithmetic on \<open>i16\<close> wraps in the release build.\<close>

definition wrap16 :: "int \<Rightarrow> int" where
  "wrap16 i = (i + 32768) mod 65536 - 32768"

definition parse_offset :: "string \<Rightarrow> int option" where
  "parse_offset s =
     (let sign = (if starts_with s ''-'' then -1 else 1)
      in case split_once_char (CHR '':'') (tl s) of
           None \<Rightarrow> None
         | Some (h, m) \<Rightarrow>
             (case (parse_signed 16 h, parse_signed 16 m) of
                (Some h', Some m') \<Rightarrow> Some (wrap16 (sign * wrap16 (wrap16 (h' * 60) + m')))
              | _ \<Rightarrow> None))"

definition decode_timestamp :: "json_value \<Rightarrow> db_value option" where
  "decode_timestamp cell =
     (case Option.bind (json_get cell ''us'') json_i64 of
        None \<Rightarrow> None
      | Some micros \<Rightarrow>
          (case Option.bind (json_get cell ''tz'') json_str of
             None \<Rightarrow> None
           | Some s \<Rightarrow>
               if s = ''utc'' then Some (VTimestamp micros TzUtc)
               else if s = ''naive'' then Some (VTimestamp micros TzNaive)
               else if starts_with s ''+'' \<or> starts_with s ''-'' then
                 map_option (\<lambda>m. VTimestamp micros (TzOffset m)) (parse_offset s)
               else Some (VTimestamp micros (TzNamed s))))"

definition json_i32 :: "json_value \<Rightarrow> int option" where
  "json_i32 j = Option.bind (json_i64 j) (\<lambda>i. if - (2 ^ 31) \<le> i \<and> i < 2 ^ 31 then Some i else None)"

definition decode_interval :: "json_value \<Rightarrow> db_value option" where
  "decode_interval cell =
     (case json_array cell of
        Some [months, days, nanos] \<Rightarrow>
          (case (json_i32 months, json_i32 days, json_i64 nanos) of
             (Some m, Some d, Some n) \<Rightarrow> Some (VInterval m d n)
           | _ \<Rightarrow> None)
      | _ \<Rightarrow> None)"

fun all_f32 :: "wire_env \<Rightarrow> json_value list \<Rightarrow> f64 list option" where
  "all_f32 env [] = Some []"
| "all_f32 env (JNumber n # xs) =
     map_option (\<lambda>fs. wn_single env (number_f64 (wn_nearest env) n) # fs) (all_f32 env xs)"
| "all_f32 env (_ # xs) = None"

definition decode_vector :: "wire_env \<Rightarrow> json_value \<Rightarrow> db_value option" where
  "decode_vector env cell = Option.bind (json_array cell) (\<lambda>xs. map_option VVector (all_f32 env xs))"

fun hex_pairs :: "string \<Rightarrow> string option" where
  "hex_pairs (a # b # s) =
     (case radix16 a b of None \<Rightarrow> None | Some c \<Rightarrow> map_option (\<lambda>cs. c # cs) (hex_pairs s))"
| "hex_pairs _ = Some []"

definition parse_uuid :: "string \<Rightarrow> string option" where
  "parse_uuid s =
     (let hex = filter (\<lambda>c. c \<noteq> CHR ''-'') s
      in if length hex \<noteq> 32 \<or> length s \<noteq> 36 then None else hex_pairs hex)"

definition format_uuid :: "string \<Rightarrow> string" where
  "format_uuid b =
     (let hex = concat (map hex_byte b)
      in slice hex 0 8 @ ''-'' @ slice hex 8 12 @ ''-'' @ slice hex 12 16 @ ''-'' @ slice hex 16 20
         @ ''-'' @ slice hex 20 32)"

definition or_bad :: "wire_env \<Rightarrow> json_value \<Rightarrow> logical_type \<Rightarrow> 'a option \<Rightarrow> string + 'a" where
  "or_bad env cell lg r =
     (case r of
        None \<Rightarrow> Inl (wn_json env cell @ '' is not a valid '' @ show_logical lg @ '' cell'')
      | Some v \<Rightarrow> Inr v)"

text \<open>The tags that name a logical type.\<close>

definition tag_types :: "(string \<times> logical_type) list" where
  "tag_types =
     [(''bool'', LBool), (''i64'', LI64), (''u64'', LU64), (''f64'', LF64), (''decimal'', LDecimal),
      (''str'', LStr), (''bytes'', LBytes), (''date'', LDate), (''time'', LTime), (''timestamp'', LTimestamp),
      (''interval'', LInterval), (''uuid'', LUuid), (''json'', LJson), (''array'', LArray),
      (''document'', LDocument), (''geo'', LGeo), (''vector'', LVector)]"

text \<open>The strings of a JSON array of strings, \<open>from_value::<Vec<String>>\<close>.\<close>

fun json_strings :: "json_value list \<Rightarrow> string list option" where
  "json_strings [] = Some []"
| "json_strings (JString s # xs) = map_option (\<lambda>ss. s # ss) (json_strings xs)"
| "json_strings (_ # xs) = None"

section \<open>Decoding\<close>

text \<open>
  Table cells are read against the declared column type, a \<open>{"$t":..}\<close> object overrides it, and nested
  values are tagged unless they are plain scalars.  The five functions call each other on parts of
  their argument, or on the same argument in the order cell, tagged.
\<close>

definition plain_cell :: "wire_env \<Rightarrow> json_value \<Rightarrow> logical_type \<Rightarrow> db_value option" where
  "plain_cell env cell lg =
     (case lg of
        LBool \<Rightarrow> map_option VBool (json_bool cell)
      | LI64 \<Rightarrow> map_option VI64 (json_i64 cell)
      | LU64 \<Rightarrow> map_option VU64 (json_u64 cell)
      | LF64 \<Rightarrow> map_option VF64 (decode_f64 env cell)
      | LDecimal \<Rightarrow> map_option VDecimal (json_str cell)
      | LStr \<Rightarrow> map_option VStr (json_str cell)
      | LJson \<Rightarrow> map_option VJson (json_str cell)
      | LBytes \<Rightarrow> map_option VBytes (bytes_of env cell)
      | LDate \<Rightarrow> map_option VDate (json_i32 cell)
      | LTime \<Rightarrow> map_option VTime (json_i64 cell)
      | LTimestamp \<Rightarrow> decode_timestamp cell
      | LInterval \<Rightarrow> decode_interval cell
      | LUuid \<Rightarrow> map_option VUuid (Option.bind (json_str cell) parse_uuid)
      | LVector \<Rightarrow> decode_vector env cell
      | LGeo \<Rightarrow> map_option (\<lambda>b. VGeo (GeoRaw b)) (bytes_of env cell)
      | _ \<Rightarrow> None)"

definition number_value :: "wire_env \<Rightarrow> json_number \<Rightarrow> db_value" where
  "number_value env n =
     (case number_i64 n of
        Some i \<Rightarrow> VI64 i
      | None \<Rightarrow> (case number_u64 n of Some u \<Rightarrow> VU64 u | None \<Rightarrow> VF64 (number_f64 (wn_nearest env) n)))"

text \<open>The \<open>unsupported\<close> tag: a field that is missing or not a string has a default.\<close>

definition decode_unsupported :: "wire_env \<Rightarrow> json_value \<Rightarrow> db_value" where
  "decode_unsupported env cell =
     VUnsupported (case Option.bind (json_get cell ''type'') json_str of None \<Rightarrow> ''?'' | Some s \<Rightarrow> s)
       (case Option.bind (json_get cell ''raw'') (bytes_of env) of None \<Rightarrow> [] | Some b \<Rightarrow> b)
       (case Option.bind (json_get cell ''display'') json_str of None \<Rightarrow> [] | Some s \<Rightarrow> s)"

lemma json_pair_size: "JArray [k, v] \<in> set pairs \<Longrightarrow> size v < size (JArray pairs)"
  using json_array_size [of "JArray [k, v]" pairs] by simp

function (sequential) decode_cell :: "wire_env \<Rightarrow> json_value \<Rightarrow> logical_type \<Rightarrow> string + db_value"
  and decode_tagged :: "wire_env \<Rightarrow> json_value \<Rightarrow> string + db_value"
  and decode_list :: "wire_env \<Rightarrow> json_value \<Rightarrow> string + db_value list"
  and decode_nested :: "wire_env \<Rightarrow> json_value \<Rightarrow> string + db_value"
  and decode_document :: "wire_env \<Rightarrow> json_value \<Rightarrow> string + (string \<times> db_value) list"
where
  "decode_cell env cell lg =
     (if cell = JNull then Inr VNull
      else if is_tagged cell then decode_tagged env cell
      else if lg = LArray then try_bind (decode_list env cell) (\<lambda>vs. Inr (VArray vs))
      else if lg = LDocument then try_bind (decode_document env cell) (\<lambda>fs. Inr (VDocument fs))
      else or_bad env cell lg (plain_cell env cell lg))"
| "decode_tagged env (JObject obj) =
     (case Option.bind (map_of obj ''$t'') json_str of
        None \<Rightarrow> Inl ''tag is not a string''
      | Some tag \<Rightarrow>
          if tag = ''absent'' then Inr VAbsent
          else if tag = ''null'' then Inr VNull
          else if tag = ''unsupported'' then Inr (decode_unsupported env (JObject obj))
          else if tag = ''ref'' then
            (case Option.bind (Option.bind (map_of obj ''target'') json_array) json_strings of
               None \<Rightarrow> Inl ''ref without a target''
             | Some target \<Rightarrow>
                 (case map_of obj ''key'' of
                    None \<Rightarrow> Inr (VRef target [])
                  | Some key \<Rightarrow> try_bind (decode_list env key) (\<lambda>vs. Inr (VRef target vs))))
          else
            (case map_of tag_types tag of
               None \<Rightarrow> Inl (''unknown value tag `'' @ tag @ ''`'')
             | Some lg \<Rightarrow>
                 (case map_of obj ''v'' of
                    None \<Rightarrow> Inl (''tag `'' @ tag @ ''` without a plain value'')
                  | Some v \<Rightarrow>
                      if v = JNull \<or> is_tagged v then Inl (''tag `'' @ tag @ ''` without a plain value'')
                      else decode_cell env v lg)))"
| "decode_tagged env _ = Inl ''tagged value is not an object''"
| "decode_list env (JArray items) = try_map (decode_nested env) items"
| "decode_list env cell = Inl (wn_json env cell @ '' is not an array'')"
| "decode_nested env JNull = Inr VNull"
| "decode_nested env (JBool b) = Inr (VBool b)"
| "decode_nested env (JString s) = Inr (VStr s)"
| "decode_nested env (JNumber n) = Inr (number_value env n)"
| "decode_nested env cell =
     (if is_tagged cell then decode_tagged env cell
      else Inl (''untagged nested value '' @ wn_json env cell))"
| "decode_document env (JArray pairs) =
     try_map (\<lambda>pair. case pair of
         JArray [k, v] \<Rightarrow>
           (case json_str k of
              None \<Rightarrow> Inl ''document key is not a string''
            | Some key \<Rightarrow> try_bind (decode_nested env v) (\<lambda>x. Inr (key, x)))
       | _ \<Rightarrow> Inl ''document entry is not a pair'') pairs"
| "decode_document env cell = Inl (wn_json env cell @ '' is not a [[key, value], ...] document'')"
  by pat_completeness auto

termination
  by (relation "measure (\<lambda>a. case a of
        Inl (Inl (env, cell, lg)) \<Rightarrow> 3 * size cell + 2
      | Inl (Inr (env, cell)) \<Rightarrow> 3 * size cell + 1
      | Inr (Inl (env, cell)) \<Rightarrow> 3 * size cell
      | Inr (Inr (Inl (env, cell))) \<Rightarrow> 3 * size cell + 2
      | Inr (Inr (Inr (env, cell))) \<Rightarrow> 3 * size cell)")
    (auto dest!: json_array_size json_field_size json_pair_size)

declare decode_cell.simps [simp del]

section \<open>Encoding\<close>

definition tagged :: "string \<Rightarrow> json_value \<Rightarrow> json_value" where
  "tagged tag v = JObject [(''$t'', JString tag), (''v'', v)]"

definition path_json :: "string list \<Rightarrow> json_value" where
  "path_json parts = JArray (map JString parts)"

definition encode_f64 :: "f64 \<Rightarrow> json_value" where
  "encode_f64 f =
     (if f = ''NaN'' then JString ''NaN''
      else if f = ''inf'' then JString ''Infinity''
      else if f = ''-inf'' then JString ''-Infinity''
      else JNumber (JFloat f))"

fun encode_tz :: "tz_spec \<Rightarrow> string" where
  "encode_tz TzUtc = ''utc''"
| "encode_tz TzNaive = ''naive''"
| "encode_tz (TzNamed name) = name"
| "encode_tz (TzOffset mins) =
     (let m = nat \<bar>mins\<bar>
      in (if mins < 0 then ''-'' else ''+'') @ padded 2 (m div 60) @ '':'' @ padded 2 (m mod 60))"

text \<open>An element of a vector: JSON has null for what is not finite.\<close>

definition encode_f32 :: "f64 \<Rightarrow> json_value" where
  "encode_f32 f = (if f \<in> {''NaN'', ''inf'', ''-inf''} then JNull else JNumber (JFloat f))"

fun encode_tagged :: "wire_env \<Rightarrow> db_value \<Rightarrow> json_value" where
  "encode_tagged env VNull = JNull"
| "encode_tagged env VAbsent = JObject [(''$t'', JString ''absent'')]"
| "encode_tagged env (VBool b) = tagged ''bool'' (JBool b)"
| "encode_tagged env (VI64 n) = tagged ''i64'' (json_of_int n)"
| "encode_tagged env (VU64 n) = tagged ''u64'' (json_of_nat n)"
| "encode_tagged env (VF64 f) = tagged ''f64'' (encode_f64 f)"
| "encode_tagged env (VDecimal s) = tagged ''decimal'' (JString s)"
| "encode_tagged env (VStr s) = tagged ''str'' (JString s)"
| "encode_tagged env (VJson s) = tagged ''json'' (JString s)"
| "encode_tagged env (VBytes b) = tagged ''bytes'' (JString (wn_b64 env b))"
| "encode_tagged env (VDate d) = tagged ''date'' (json_of_int d)"
| "encode_tagged env (VTime nanos) = tagged ''time'' (json_of_int nanos)"
| "encode_tagged env (VTimestamp micros tz) =
     tagged ''timestamp'' (JObject [(''us'', json_of_int micros), (''tz'', JString (encode_tz tz))])"
| "encode_tagged env (VInterval months days nanos) =
     tagged ''interval'' (JArray [json_of_int months, json_of_int days, json_of_int nanos])"
| "encode_tagged env (VUuid b) = tagged ''uuid'' (JString (format_uuid b))"
| "encode_tagged env (VArray items) = tagged ''array'' (JArray (map (encode_tagged env) items))"
| "encode_tagged env (VDocument doc) =
     tagged ''document'' (JArray (map (\<lambda>(k, v). JArray [JString k, encode_tagged env v]) doc))"
| "encode_tagged env (VRef target key) =
     JObject [(''$t'', JString ''ref''), (''target'', path_json target),
              (''key'', JArray (map (encode_tagged env) key))]"
| "encode_tagged env (VGeo (GeoRaw wkb)) = tagged ''geo'' (JString (wn_b64 env wkb))"
| "encode_tagged env (VGeo g) =
     JObject [(''$t'', JString ''unsupported''), (''type'', JString ''geometry''),
              (''display'', JString (wn_geo env g))]"
| "encode_tagged env (VVector fs) = tagged ''vector'' (JArray (map encode_f32 fs))"
| "encode_tagged env (VUnsupported type_name raw display) =
     JObject [(''$t'', JString ''unsupported''), (''type'', JString type_name),
              (''raw'', JString (wn_b64 env raw)), (''display'', JString display)]"

section \<open>Values survive the wire\<close>

text \<open>
  What the integer fields of the value type can hold, and what the tagged form keeps: a zone name
  that reads as another zone, a vector element JSON has no number for, and the geometries other
  than raw ones do not come back.
\<close>

definition fits_signed :: "nat \<Rightarrow> int \<Rightarrow> bool" where
  "fits_signed k i = (- (2 ^ (k - 1)) \<le> i \<and> i < 2 ^ (k - 1))"

fun tz_wire_ok :: "tz_spec \<Rightarrow> bool" where
  "tz_wire_ok (TzNamed s) =
     (s \<noteq> ''utc'' \<and> s \<noteq> ''naive'' \<and> \<not> starts_with s ''+'' \<and> \<not> starts_with s ''-'')"
| "tz_wire_ok (TzOffset m) = fits_signed 16 m"
| "tz_wire_ok _ = True"

fun wire_ok :: "wire_env \<Rightarrow> db_value \<Rightarrow> bool" where
  "wire_ok env (VI64 i) = fits_signed 64 i"
| "wire_ok env (VDate d) = fits_signed 32 d"
| "wire_ok env (VTime n) = fits_signed 64 n"
| "wire_ok env (VTimestamp us tz) = (fits_signed 64 us \<and> tz_wire_ok tz)"
| "wire_ok env (VInterval m d n) = (fits_signed 32 m \<and> fits_signed 32 d \<and> fits_signed 64 n)"
| "wire_ok env (VUuid b) = (length b = 16)"
| "wire_ok env (VArray vs) = (\<forall>v \<in> set vs. wire_ok env v)"
| "wire_ok env (VDocument fs) = (\<forall>f \<in> set fs. wire_ok env (snd f))"
| "wire_ok env (VRef t vs) = (\<forall>v \<in> set vs. wire_ok env v)"
| "wire_ok env (VGeo g) = (case g of GeoRaw b \<Rightarrow> True | _ \<Rightarrow> False)"
| "wire_ok env (VVector fs) = (\<forall>f \<in> set fs. f \<notin> {''NaN'', ''inf'', ''-inf''} \<and> wn_single env f = f)"
| "wire_ok env _ = True"

text \<open>What is documented of the base64 codec.\<close>

definition wire_laws :: "wire_env \<Rightarrow> bool" where
  "wire_laws env = (\<forall>b. wn_unb64 env (wn_b64 env b) = Some b)"

lemma hex_pairs_bytes: "hex_pairs (concat (map hex_byte b)) = Some b"
proof (induction b)
  case (Cons c b)
  obtain x y where "hex_byte c = [x, y]" "radix16 x y = Some c" using hex_byte_pair by blast
  with Cons show ?case by simp
qed simp

lemma length_hex_bytes: "length (concat (map hex_byte b)) = 2 * length b"
proof (induction b)
  case (Cons c b)
  obtain x y where "hex_byte c = [x, y]" using hex_byte_pair by blast
  with Cons show ?case by simp
qed simp

lemma hex_bytes_no_dash: "CHR ''-'' \<notin> set (concat (map hex_byte b))"
proof (induction b)
  case (Cons c b)
  obtain x y where "hex_byte c = [x, y]" "x \<noteq> CHR ''-''" "y \<noteq> CHR ''-''" using hex_byte_pair by blast
  with Cons show ?case by auto
qed simp

lemma filter_no_dash: "CHR ''-'' \<notin> set s \<Longrightarrow> filter (\<lambda>c. c \<noteq> CHR ''-'') (slice s i j) = slice s i j"
  by (auto simp: slice_def filter_id_conv dest: in_set_takeD in_set_dropD)

lemma slices_join: "i \<le> j \<Longrightarrow> j \<le> k \<Longrightarrow> slice s i j @ slice s j k = slice s i k"
proof -
  assume "i \<le> j" "j \<le> k"
  then obtain a b where "j = i + a" "k = i + a + b" using le_Suc_ex by blast
  then show ?thesis by (simp add: slice_def take_add add.commute)
qed

lemma parse_format_uuid:
  assumes "length b = 16"
  shows "parse_uuid (format_uuid b) = Some b"
proof -
  define hex where "hex = concat (map hex_byte b)"
  have len: "length hex = 32" using assms by (simp add: hex_def length_hex_bytes)
  have dash: "CHR ''-'' \<notin> set hex" unfolding hex_def by (rule hex_bytes_no_dash)
  have "filter (\<lambda>c. c \<noteq> CHR ''-'') (format_uuid b) = hex"
    using len slices_join [of 16 20 32 hex] slices_join [of 12 16 32 hex] slices_join [of 8 12 32 hex]
      slices_join [of 0 8 32 hex]
    by (simp add: format_uuid_def Let_def hex_def [symmetric] filter_no_dash [OF dash]) (simp add: slice_def)
  moreover have "length (format_uuid b) = 36" using len by (simp add: format_uuid_def Let_def hex_def [symmetric] slice_def)
  ultimately show ?thesis using len hex_pairs_bytes [of b] by (simp add: parse_uuid_def hex_def)
qed

text \<open>A tagged value is decoded as a cell of its tag's type.\<close>

lemma decode_tagged_tagged:
  assumes "map_of tag_types tag = Some lg" "v \<noteq> JNull" "\<not> is_tagged v"
  shows "decode_tagged env (tagged tag v) = decode_cell env v lg"
proof -
  have "tag \<notin> {''absent'', ''null'', ''unsupported'', ''ref''}" using assms(1) by (auto simp: tag_types_def)
  with assms show ?thesis by (simp add: tagged_def)
qed

lemma decode_cell_plain:
  assumes "v \<noteq> JNull" "\<not> is_tagged v" "lg \<noteq> LArray" "lg \<noteq> LDocument" "plain_cell env v lg = Some x"
  shows "decode_cell env v lg = Inr x"
  using assms by (simp add: decode_cell.simps [of env v lg] or_bad_def)

lemma decode_plain_tagged:
  assumes "map_of tag_types tag = Some lg" "v \<noteq> JNull" "\<not> is_tagged v" "lg \<noteq> LArray" "lg \<noteq> LDocument"
    "plain_cell env v lg = Some x"
  shows "decode_tagged env (tagged tag v) = Inr x"
  using decode_tagged_tagged [OF assms(1-3)] decode_cell_plain [OF assms(2-6)] by simp

lemma untagged [simp]:
  "\<not> is_tagged (JNumber n)" "\<not> is_tagged (JString s)" "\<not> is_tagged (JBool b)" "\<not> is_tagged (JArray xs)"
  "\<not> is_tagged (json_of_int i)" "\<not> is_tagged (json_of_nat m)" "is_tagged (tagged tag v)"
  by (simp_all add: is_tagged_def json_of_int_def json_of_nat_def tagged_def)

lemma json_i32_of_int: "fits_signed 32 i \<Longrightarrow> json_i32 (json_of_int i) = Some i"
  by (simp add: json_i32_def fits_signed_def)

lemma json_i64_fits: "fits_signed 64 i \<Longrightarrow> json_i64 (json_of_int i) = Some i"
  by (simp add: fits_signed_def)

text \<open>Wrapping is a residue: it may be done once, at the end.\<close>

lemma wrap16_mod: "wrap16 x mod 65536 = x mod 65536"
  by (simp add: wrap16_def mod_diff_left_eq)

lemma wrap16_cong: "x mod 65536 = y mod 65536 \<Longrightarrow> wrap16 x = wrap16 y"
  unfolding wrap16_def by (metis mod_add_left_eq)

lemma wrap16_wrap: "wrap16 (wrap16 a + b) = wrap16 (a + b)" "wrap16 (s * wrap16 a) = wrap16 (s * a)"
  by (rule wrap16_cong, metis wrap16_mod mod_add_left_eq mod_mult_right_eq)+

lemma wrap16_minutes:
  assumes "fits_signed 16 m"
  shows "wrap16 ((if m < 0 then -1 else 1) * wrap16 (wrap16 (\<bar>m\<bar> div 60 * 60) + \<bar>m\<bar> mod 60)) = m"
proof -
  have "wrap16 m = m" using assms by (simp add: fits_signed_def wrap16_def)
  then show ?thesis by (simp add: wrap16_wrap)
qed

lemma split_once_padded:
  assumes "CHR '':'' \<notin> set h"
  shows "split_once_char (CHR '':'') (h @ CHR '':'' # r) = Some (h, r)"
  using assms by (induction h) auto

lemma digits_no_colon: "list_all is_ascii_digit s \<Longrightarrow> CHR '':'' \<notin> set s"
proof -
  have "\<not> is_ascii_digit (CHR '':'')" by code_simp
  then show "list_all is_ascii_digit s \<Longrightarrow> ?thesis" by (auto simp: list_all_iff)
qed

lemma parse_signed_padded:
  assumes "n < 10 ^ w" "0 < w" "n < 2 ^ (k - 1)"
  shows "parse_signed k (padded w n) = Some (int n)"
  using assms padded_length [OF assms(1,2)] padded_digits [of w n]
  by (subst parse_signed_digits) (auto simp: padded_value)

lemma parse_offset_encode:
  assumes "fits_signed 16 m"
  shows "parse_offset (encode_tz (TzOffset m)) = Some m"
proof -
  define n where "n = nat \<bar>m\<bar>"
  have n: "n \<le> 32768" using assms by (auto simp: n_def fits_signed_def)
  then have "n div 60 < 1000" "n div 60 < 2 ^ 15" by auto
  have d: "parse_signed 16 (padded 2 (n div 60)) = Some (int (n div 60))"
  proof (subst parse_signed_digits)
    show "padded 2 (n div 60) \<noteq> []" by (simp add: padded_def zero_pad_def show_nat_digits)
  qed (use n in \<open>simp_all add: padded_value padded_digits\<close>)
  have r: "parse_signed 16 (padded 2 (n mod 60)) = Some (int (n mod 60))"
  proof (rule parse_signed_padded)
    show "n mod 60 < 10 ^ 2" "n mod 60 < 2 ^ (16 - 1)" using mod_less_divisor [of 60 n] by simp_all
  qed simp
  have "split_once_char (CHR '':'') (padded 2 (n div 60) @ '':'' @ padded 2 (n mod 60))
    = Some (padded 2 (n div 60), padded 2 (n mod 60))"
    using split_once_padded [OF digits_no_colon [OF padded_digits]] by simp
  moreover have "int (n div 60) = \<bar>m\<bar> div 60" "int (n mod 60) = \<bar>m\<bar> mod 60" by (simp_all add: n_def zdiv_int zmod_int)
  moreover have "encode_tz (TzOffset m) = (if m < 0 then ''-'' else ''+'') @ padded 2 (n div 60) @ '':'' @ padded 2 (n mod 60)"
    by (simp add: Let_def n_def)
  ultimately show ?thesis
    using d r wrap16_minutes [OF assms] by (cases "m < 0") (simp_all add: parse_offset_def del: encode_tz.simps)
qed

lemma decode_timestamp_encode:
  assumes "fits_signed 64 us" "tz_wire_ok tz"
  shows "decode_timestamp (JObject [(''us'', json_of_int us), (''tz'', JString (encode_tz tz))])
    = Some (VTimestamp us tz)"
proof (cases tz)
  case (TzOffset m)
  have "parse_offset (encode_tz (TzOffset m)) = Some m" using assms(2) TzOffset by (intro parse_offset_encode) simp
  then show ?thesis using assms(1) TzOffset
    by (cases "m < 0") (simp_all add: decode_timestamp_def json_get_def json_i64_fits Let_def)
qed (use assms in \<open>auto simp: decode_timestamp_def json_get_def json_i64_fits\<close>)

lemma decode_interval_encode:
  "fits_signed 32 m \<Longrightarrow> fits_signed 32 d \<Longrightarrow> fits_signed 64 n \<Longrightarrow>
   decode_interval (JArray [json_of_int m, json_of_int d, json_of_int n]) = Some (VInterval m d n)"
  by (simp add: decode_interval_def json_i32_of_int json_i64_fits)

lemma all_f32_encode:
  "\<forall>f \<in> set fs. f \<notin> {''NaN'', ''inf'', ''-inf''} \<and> wn_single env f = f \<Longrightarrow> all_f32 env (map encode_f32 fs) = Some fs"
  by (induction fs) (auto simp: encode_f32_def)

lemma decode_f64_encode: "decode_f64 env (encode_f64 f) = Some f"
  by (simp add: encode_f64_def)

lemma encode_f64_plain [simp]: "encode_f64 f \<noteq> JNull" "\<not> is_tagged (encode_f64 f)"
  by (simp_all add: encode_f64_def)

lemma json_strings_path: "json_strings (map JString parts) = Some parts"
  by (induction parts) auto

lemma encode_cases: "encode_tagged env v = JNull \<and> v = VNull \<or> (\<exists>obj. encode_tagged env v = JObject obj \<and> is_tagged (JObject obj))"
proof (cases v)
  case (VGeo g)
  then show ?thesis by (cases g) (simp_all add: tagged_def is_tagged_def)
qed (simp_all add: tagged_def is_tagged_def)

text \<open>In a nested position and in a cell of any column the tagged form is read by its tag.\<close>

lemma decode_encoded:
  assumes "v \<noteq> VNull \<Longrightarrow> decode_tagged env (encode_tagged env v) = Inr v"
  shows "decode_nested env (encode_tagged env v) = Inr v \<and> decode_cell env (encode_tagged env v) lg = Inr v"
proof (cases "v = VNull")
  case True
  then show ?thesis by (simp add: decode_cell.simps [of env JNull])
next
  case False
  with encode_cases [of env v] obtain obj where obj: "encode_tagged env v = JObject obj" "is_tagged (JObject obj)"
    by (cases v) auto
  with assms False show ?thesis by (simp add: decode_cell.simps [of env "JObject obj"])
qed

lemma decode_list_encoded:
  assumes "\<And>v. v \<in> set vs \<Longrightarrow> decode_nested env (encode_tagged env v) = Inr v"
  shows "decode_list env (JArray (map (encode_tagged env) vs)) = Inr vs"
  using assms try_map_all [of vs "\<lambda>v. decode_nested env (encode_tagged env v)" "\<lambda>v. v"]
  by (simp add: try_map_map)

lemma decode_document_encoded:
  assumes "\<And>k v. (k, v) \<in> set fs \<Longrightarrow> decode_nested env (encode_tagged env v) = Inr v"
  shows "decode_document env (JArray (map (\<lambda>(k, v). JArray [JString k, encode_tagged env v]) fs)) = Inr fs"
proof -
  have "(case case f of (k, v) \<Rightarrow> JArray [JString k, encode_tagged env v] of
      JArray [k, v] \<Rightarrow> (case json_str k of None \<Rightarrow> Inl ''document key is not a string''
        | Some key \<Rightarrow> try_bind (decode_nested env v) (\<lambda>x. Inr (key, x)))
    | _ \<Rightarrow> Inl ''document entry is not a pair'') = Inr f" if "f \<in> set fs" for f
    using assms [of "fst f" "snd f"] that by (cases f) simp
  from try_map_all [OF this, of fs] show ?thesis by (simp add: try_map_map)
qed

lemma decode_encode_tagged:
  assumes "wire_laws env"
  shows "wire_ok env v \<Longrightarrow> v \<noteq> VNull \<Longrightarrow> decode_tagged env (encode_tagged env v) = Inr v"
proof (induction v)
  case (VArray vs)
  then have "decode_list env (JArray (map (encode_tagged env) vs)) = Inr vs"
    by (intro decode_list_encoded conjunct1 [OF decode_encoded]) auto
  then show ?case
    by (simp add: decode_tagged_tagged [of _ LArray] tag_types_def decode_cell.simps [of env "JArray x" for x])
next
  case (VDocument fs)
  then have "decode_document env (JArray (map (\<lambda>(k, v). JArray [JString k, encode_tagged env v]) fs)) = Inr fs"
    by (intro decode_document_encoded conjunct1 [OF decode_encoded]) (fastforce simp: snds.simps)+
  then show ?case
    by (simp add: decode_tagged_tagged [of _ LDocument] tag_types_def decode_cell.simps [of env "JArray x" for x])
next
  case (VRef t vs)
  then have "decode_list env (JArray (map (encode_tagged env) vs)) = Inr vs"
    by (intro decode_list_encoded conjunct1 [OF decode_encoded]) auto
  then show ?case by (simp add: path_json_def json_strings_path)
next
  case (VTimestamp us tz)
  then show ?case using decode_timestamp_encode [of us tz]
    by (simp add: decode_plain_tagged [of _ LTimestamp] tag_types_def plain_cell_def is_tagged_def)
next
  case (VGeo g)
  then obtain b where "g = GeoRaw b" by (cases g) auto
  then show ?case using assms
    by (simp add: decode_plain_tagged [of _ LGeo] tag_types_def plain_cell_def bytes_of_def wire_laws_def)
next
  case (VUnsupported t r d)
  then show ?case using assms by (simp add: decode_unsupported_def json_get_def bytes_of_def wire_laws_def)
qed (use assms in \<open>simp_all add: decode_plain_tagged [of _ LBool] decode_plain_tagged [of _ LI64] decode_plain_tagged [of _ LU64]
    decode_plain_tagged [of _ LF64] decode_plain_tagged [of _ LDecimal] decode_plain_tagged [of _ LStr]
    decode_plain_tagged [of _ LJson] decode_plain_tagged [of _ LBytes] decode_plain_tagged [of _ LDate]
    decode_plain_tagged [of _ LTime] decode_plain_tagged [of _ LTimestamp] decode_plain_tagged [of _ LInterval]
    decode_plain_tagged [of _ LUuid] decode_plain_tagged [of _ LVector] tag_types_def plain_cell_def
    bytes_of_def wire_laws_def json_i64_fits json_i32_of_int decode_f64_encode decode_interval_encode
    parse_format_uuid decode_vector_def all_f32_encode\<close>)

text \<open>
  C17.  Every value whose integers fit their width, whose zone names cannot be mistaken for another
  zone, whose vectors are finite singles and whose geometries are raw comes back from the tagged
  form the parameters travel in, in a nested position and in a cell whatever type its column
  declares.
\<close>

theorem tagged_value_roundtrip:
  assumes "wire_laws env" "wire_ok env v"
  shows "decode_nested env (encode_tagged env v) = Inr v \<and> decode_cell env (encode_tagged env v) lg = Inr v"
  using decode_encoded [of v env lg] decode_encode_tagged [OF assms] by simp

definition sample_wire :: wire_env where
  "sample_wire = \<lparr>wn_b64 = (\<lambda>s. s), wn_unb64 = Some, wn_nearest = (\<lambda>i. show_int i), wn_single = (\<lambda>f. f),
     wn_json = (\<lambda>j. []), wn_geo = (\<lambda>g. [])\<rparr>"

lemma tagged_value_roundtrip_witness:
  "decode_cell sample_wire (encode_tagged sample_wire
     (VDocument [(''at'', VTimestamp (-1) (TzOffset (-570))), (''k'', VArray [VNull, VF64 ''NaN''])])) LI64
   = Inr (VDocument [(''at'', VTimestamp (-1) (TzOffset (-570))), (''k'', VArray [VNull, VF64 ''NaN''])])"
  by (rule conjunct2 [OF tagged_value_roundtrip]) (simp_all add: wire_laws_def sample_wire_def fits_signed_def)

text \<open>A zone name the tagged form cannot keep.\<close>

lemma zone_name_lost:
  "decode_nested env (encode_tagged env (VTimestamp 0 (TzNamed ''utc''))) = Inr (VTimestamp 0 TzUtc)"
  by (simp add: tagged_def is_tagged_def tag_types_def decode_cell.simps [of env "JObject x" for x] plain_cell_def
      decode_timestamp_def json_get_def json_of_int_def or_bad_def)

text \<open>
  A sidecar cannot mint a safety refusal, which only the parent's gate makes: whatever the error
  object says, the driver error is none, and an unknown kind is a protocol error.
\<close>

theorem sidecar_cannot_mint_safety:
  "into_db_error w \<noteq> ESafety gate requirement cid
   \<and> into_db_error (w\<lparr>we_kind := ''safety''\<rparr>) = EProtocol (''sidecar sent error kind `safety`: '' @ we_message w)
   \<and> \<not> is_recoverable (into_db_error (w\<lparr>we_kind := ''safety''\<rparr>))"
  by (simp add: into_db_error_def Let_def)

lemma frames_roundtrip_witness:
  "read_frames 3 [Inr (u32_bytes 2 @ ''h''), Inr (''i'' @ take 3 (u32_bytes 0)), Inr (drop 3 (u32_bytes 0))] = ([''hi'', []], Inr ())"
proof -
  have "bval (char_of (0 :: nat)) = 0" by (simp add: bval_def)
  have "read_frames (Suc (length [''hi'', []])) [Inr (u32_bytes 2 @ ''h''), Inr (''i'' @ take 3 (u32_bytes 0)), Inr (drop 3 (u32_bytes 0))]
    = ([''hi'', []], Inr ())"
    by (rule frames_roundtrip [where written = "[u32_bytes 2 @ ''hi'', u32_bytes 0]"])
      (simp_all add: pipe_ok_def write_frame_def MAX_FRAME_def u32_bytes_def)
  then show ?thesis by (simp add: numeral_3_eq_3)
qed

end
