(* ===== verification/Sidecar_Process.thy ===== *)
theory Sidecar_Process
  imports Sidecar_Wire
begin

text \<open>
  The parent's side of a sidecar process (\<open>crates/datagrep-drv-sidecar/src/process.rs\<close>): the table
  of pending requests, the reader of replies, the supervisor, the redaction of secrets and the tail
  of the error stream.  The steps of the tasks that share the table are events; a trace is any
  interleaving of them.
\<close>

section \<open>Redaction\<close>

text \<open>\<open>str::replace\<close> of a pattern that is not empty.\<close>

function str_replace :: "string \<Rightarrow> string \<Rightarrow> string \<Rightarrow> string" where
  "str_replace p r [] = []"
| "str_replace p r (c # s) =
     (if p \<noteq> [] \<and> starts_with (c # s) p then r @ str_replace p r (drop (length p) (c # s))
      else c # str_replace p r s)"
  by pat_completeness auto
termination
proof (relation "measure (\<lambda>(p, r, s). length s)", goal_cases)
  case (2 p r c s)
  then show ?case by (cases p) auto
qed auto

definition redact :: "string list \<Rightarrow> string \<Rightarrow> string" where
  "redact secrets t = fold (\<lambda>p out. str_replace p MASK out) (filter (\<lambda>p. p \<noteq> []) secrets) t"

text \<open>A text holds another.\<close>

fun holds_text :: "string \<Rightarrow> string \<Rightarrow> bool" where
  "holds_text p [] = (p = [])"
| "holds_text p (c # s) = (starts_with (c # s) p \<or> holds_text p s)"

lemma holds_text_iff: "holds_text p s \<longleftrightarrow> (\<exists>a b. s = a @ p @ b)"
proof (induction s)
  case (Cons c s)
  have "(\<exists>a b. c # s = a @ p @ b) \<longleftrightarrow> (\<exists>b. c # s = p @ b) \<or> (\<exists>a b. s = a @ p @ b)" (is "?l \<longleftrightarrow> ?r")
  proof
    assume ?l
    then obtain a b where "c # s = a @ p @ b" by blast
    then show ?r by (cases a) auto
  next
    assume ?r
    then show ?l
    proof
      assume "\<exists>b. c # s = p @ b"
      then obtain b where "c # s = [] @ p @ b" by auto
      then show ?l by blast
    next
      assume "\<exists>a b. s = a @ p @ b"
      then obtain a b where "c # s = (c # a) @ p @ b" by auto
      then show ?l by blast
    qed
  qed
  with Cons show ?case by (simp add: starts_with_iff)
qed simp

lemma holds_text_appendI: "holds_text p s \<Longrightarrow> holds_text p (a @ s)"
  by (auto simp: holds_text_iff intro: append_assoc [symmetric])

lemma holds_text_skip:
  assumes "p \<noteq> []" "set p \<inter> set r = {}" "holds_text p (r @ s)"
  shows "holds_text p s"
  using assms
proof (induction r)
  case (Cons c r)
  then show ?case by (cases p) auto
qed simp

text \<open>A needle without a byte of the mask begins the result only where it began the text.\<close>

lemma starts_replaced:
  assumes "set q \<inter> set r = {}" "r \<noteq> []" "starts_with (str_replace p r s) q"
  shows "starts_with s q"
  using assms
proof (induction p r s arbitrary: q rule: str_replace.induct)
  case (1 p r)
  then show ?case by simp
next
  case (2 p r c s)
  show ?case
  proof (cases q)
    case (Cons d q')
    show ?thesis
    proof (cases "p \<noteq> [] \<and> starts_with (c # s) p")
      case True
      with "2.prems" Cons show ?thesis by (cases r) auto
    next
      case False
      with "2.prems" Cons have "c = d" "starts_with (str_replace p r s) q'" by auto
      with "2.IH"(2) [OF False, of q'] "2.prems" Cons show ?thesis by simp
    qed
  qed simp
qed

lemma replace_keeps_absent:
  assumes "q \<noteq> []" "set q \<inter> set r = {}" "r \<noteq> []" "holds_text q (str_replace p r s)"
  shows "holds_text q s"
  using assms
proof (induction p r s rule: str_replace.induct)
  case (2 p r c s)
  show ?case
  proof (cases "p \<noteq> [] \<and> starts_with (c # s) p")
    case True
    with "2.prems" have "holds_text q (r @ str_replace p r (drop (length p) (c # s)))" by simp
    from "2.IH"(1) [OF True "2.prems"(1-3) holds_text_skip [OF "2.prems"(1,2) this]]
    have "holds_text q (take (length p) (c # s) @ drop (length p) (c # s))" by (rule holds_text_appendI)
    then show ?thesis by (simp only: append_take_drop_id)
  next
    case False
    with "2.prems"(4) have "starts_with (str_replace p r (c # s)) q \<or> holds_text q (str_replace p r s)" by auto
    then show ?thesis
      using starts_replaced [OF "2.prems"(2,3), of p "c # s"] "2.IH"(2) [OF False "2.prems"(1-3)] by auto
  qed
qed simp

lemma replace_removes:
  assumes "p \<noteq> []" "set p \<inter> set r = {}" "r \<noteq> []"
  shows "\<not> holds_text p (str_replace p r s)"
  using assms
proof (induction p r s rule: str_replace.induct)
  case (2 p r c s)
  show ?case
  proof (cases "starts_with (c # s) p")
    case True
    with 2 have "\<not> holds_text p (str_replace p r (drop (length p) (c # s)))" by auto
    with True "2.prems" holds_text_skip [OF "2.prems"(1,2)] show ?thesis by auto
  next
    case False
    with starts_replaced [OF "2.prems"(2,3), of p "c # s"] have "\<not> starts_with (str_replace p r (c # s)) p" by blast
    with 2 False show ?thesis by auto
  qed
qed simp

lemma redact_fold:
  assumes "\<forall>q \<in> set ps. q \<noteq> [] \<and> set q \<inter> set MASK = {}" "p \<noteq> []" "set p \<inter> set MASK = {}"
    "p \<in> set ps \<or> \<not> holds_text p t"
  shows "\<not> holds_text p (fold (\<lambda>p out. str_replace p MASK out) ps t)"
  using assms
proof (induction ps arbitrary: t)
  case (Cons q ps)
  have m: "MASK \<noteq> []" by (simp add: MASK_def)
  have "p \<in> set ps \<or> \<not> holds_text p (str_replace q MASK t)"
    using Cons.prems replace_removes [of p MASK t] replace_keeps_absent [of p MASK q t] m by auto
  with Cons show ?case by simp
qed simp

text \<open>
  C22.  A text that has been through the redaction holds none of the secrets, however they overlap
  or contain each other, as long as no secret shares a byte with the bullets of the mask.
\<close>

theorem redact_hides_secrets:
  assumes "\<forall>q \<in> set secrets. q \<noteq> [] \<longrightarrow> set q \<inter> set MASK = {}" "p \<in> set secrets" "p \<noteq> []"
  shows "\<not> holds_text p (redact secrets t)"
  unfolding redact_def by (rule redact_fold) (use assms in auto)

lemma redact_hides_secrets_witness: "\<not> holds_text ''hunter2'' (redact [''hunter2'', [], ''er''] ''dsn=scott/hunter2@db'')"
  by (rule redact_hides_secrets) (auto simp: MASK_def)

section \<open>The tail of the error stream\<close>

definition TAIL_BYTES :: nat where "TAIL_BYTES = 65536"
definition TAIL_IN_ERRORS :: nat where "TAIL_IN_ERRORS = 1024"

function next_boundary :: "string \<Rightarrow> nat \<Rightarrow> nat" where
  "next_boundary s i = (if is_char_boundary s i \<or> length s \<le> i then i else next_boundary s (i + 1))"
  by pat_completeness auto
termination
  by (relation "measure (\<lambda>(s, i). length s - i)") auto

declare next_boundary.simps [simp del]

lemma next_boundary_ge: "i \<le> next_boundary s i"
proof (induction s i rule: next_boundary.induct)
  case (1 s i)
  then show ?case by (subst next_boundary.simps) auto
qed

definition push_tail :: "string \<Rightarrow> bool \<Rightarrow> string \<Rightarrow> string" where
  "push_tail line newline_too tail =
     (let t = tail @ line @ (if newline_too then [newline] else [])
      in if TAIL_BYTES < length t then drop (next_boundary t (length t - TAIL_BYTES)) t else t)"

definition tail_excerpt :: "string \<Rightarrow> string" where
  "tail_excerpt tail = trim (drop (next_boundary tail (length tail - TAIL_IN_ERRORS)) tail)"

text \<open>
  \<open>drain_stderr\<close>, byte by byte: how the reads cut the stream does not matter to it.  The lossy
  conversion to UTF-8 is an argument; the log, which gets the same redacted lines, is left out.
\<close>

definition LINE_CAP :: nat where "LINE_CAP = 4096"

record drain =
  dn_line :: string
  dn_tail :: string

definition drain_flush :: "(string \<Rightarrow> string) \<Rightarrow> string list \<Rightarrow> bool \<Rightarrow> drain \<Rightarrow> drain" where
  "drain_flush lossy secrets newline_too d =
     \<lparr>dn_line = [], dn_tail = push_tail (redact secrets (lossy (dn_line d))) newline_too (dn_tail d)\<rparr>"

definition drain_byte :: "(string \<Rightarrow> string) \<Rightarrow> string list \<Rightarrow> char \<Rightarrow> drain \<Rightarrow> drain" where
  "drain_byte lossy secrets b d =
     (let d' = (if b = newline \<or> LINE_CAP \<le> length (dn_line d) then drain_flush lossy secrets True d else d)
      in if b \<noteq> newline then d'\<lparr>dn_line := dn_line d' @ [b]\<rparr> else d')"

definition drain_stderr :: "(string \<Rightarrow> string) \<Rightarrow> string list \<Rightarrow> string \<Rightarrow> string \<Rightarrow> string" where
  "drain_stderr lossy secrets bytes tail =
     (let d = fold (drain_byte lossy secrets) bytes \<lparr>dn_line = [], dn_tail = tail\<rparr>
      in dn_tail (if dn_line d \<noteq> [] then drain_flush lossy secrets False d else d))"

lemma push_tail_bound: "length (push_tail line nl tail) \<le> TAIL_BYTES"
proof -
  define t where "t = tail @ line @ (if nl then [newline] else [])"
  have "length (drop (next_boundary t (length t - TAIL_BYTES)) t) \<le> TAIL_BYTES"
    using next_boundary_ge [of "length t - TAIL_BYTES" t] by simp
  then show ?thesis unfolding push_tail_def t_def [symmetric] Let_def by simp
qed

lemma drain_bounds:
  assumes "length (dn_tail d) \<le> TAIL_BYTES" "length (dn_line d) \<le> LINE_CAP"
  shows "length (dn_tail (drain_byte lossy secrets b d)) \<le> TAIL_BYTES
    \<and> length (dn_line (drain_byte lossy secrets b d)) \<le> LINE_CAP"
  using assms by (simp add: drain_byte_def drain_flush_def Let_def push_tail_bound LINE_CAP_def)

lemma trim_start_shorter: "length (trim_start s) \<le> length s"
proof (induction s rule: trim_start.induct)
  case (1 s)
  show ?case using "1.IH" by (subst trim_start.simps) auto
qed

lemma trim_rev_shorter: "length (trim_rev s) \<le> length s"
proof (induction s rule: trim_rev.induct)
  case (1 s)
  show ?case using "1.IH" by (subst trim_rev.simps) auto
qed

lemma trim_shorter: "length (trim s) \<le> length s"
  using trim_rev_shorter [of "rev (trim_start s)"] trim_start_shorter [of s] by (simp add: trim_def trim_end_def)

text \<open>
  However much a sidecar writes to its error stream, the parent keeps at most 64 KiB of it and
  at most one line of 4 KiB, and quotes at most 1 KiB in an error.
\<close>

theorem stderr_bounded:
  assumes "length tail \<le> TAIL_BYTES"
  shows "length (dn_line (fold (drain_byte lossy secrets) bytes \<lparr>dn_line = [], dn_tail = tail\<rparr>)) \<le> LINE_CAP
    \<and> length (drain_stderr lossy secrets bytes tail) \<le> TAIL_BYTES
    \<and> length (tail_excerpt (drain_stderr lossy secrets bytes tail)) \<le> TAIL_IN_ERRORS"
proof -
  let ?d = "fold (drain_byte lossy secrets) bytes \<lparr>dn_line = [], dn_tail = tail\<rparr>"
  have d: "length (dn_tail ?d) \<le> TAIL_BYTES \<and> length (dn_line ?d) \<le> LINE_CAP"
    by (rule fold_invariant [where Q = "\<lambda>b. True" and P = "\<lambda>d. length (dn_tail d) \<le> TAIL_BYTES \<and> length (dn_line d) \<le> LINE_CAP"])
      (use assms drain_bounds in \<open>auto simp: LINE_CAP_def\<close>)
  moreover have "length (tail_excerpt t) \<le> TAIL_IN_ERRORS" for t
  proof -
    have "length (drop (next_boundary t (length t - TAIL_IN_ERRORS)) t) \<le> TAIL_IN_ERRORS"
      using next_boundary_ge [of "length t - TAIL_IN_ERRORS" t] by simp
    then show ?thesis unfolding tail_excerpt_def using trim_shorter order_trans by blast
  qed
  ultimately show ?thesis by (simp add: drain_stderr_def Let_def drain_flush_def push_tail_bound)
qed

lemma replace_absent: "\<not> holds_text p s \<Longrightarrow> str_replace p r s = s"
  by (induction p r s rule: str_replace.induct) auto

lemma holds_text_set: "holds_text p s \<Longrightarrow> set p \<subseteq> set s"
  by (auto simp: holds_text_iff)

lemma drain_plain:
  assumes "newline \<notin> set bytes" "length (dn_line d) + length bytes \<le> LINE_CAP"
  shows "fold (drain_byte lossy secrets) bytes d = d\<lparr>dn_line := dn_line d @ bytes\<rparr>"
  using assms
proof (induction bytes arbitrary: d)
  case (Cons b bytes)
  then have "drain_byte lossy secrets b d = d\<lparr>dn_line := dn_line d @ [b]\<rparr>" by (auto simp: drain_byte_def)
  with Cons show ?case by simp
qed simp

text \<open>
  The redaction works line by line, and a line is cut at 4 KiB: a secret that lies across the
  cut reaches the tail, and the log, in two pieces that nothing masks.
\<close>

theorem cut_line_leaks_secret:
  "drain_stderr (\<lambda>t. t) [''hunter2''] (replicate 4090 (CHR ''x'') @ ''hunter2'') []
   = replicate 4090 (CHR ''x'') @ ''hunter'' @ [newline] @ ''2''"
proof -
  define x where "x = replicate 4090 (CHR ''x'')"
  define h where "h = x @ ''hunter''"
  have len: "length h = LINE_CAP" by (simp add: h_def x_def LINE_CAP_def)
  have set: "set h \<subseteq> set ''xhunter''" by (auto simp: h_def x_def)
  have "fold (drain_byte (\<lambda>t. t) [''hunter2'']) h \<lparr>dn_line = [], dn_tail = []\<rparr> = \<lparr>dn_line = h, dn_tail = []\<rparr>"
    using drain_plain [of h "\<lparr>dn_line = [], dn_tail = []\<rparr>"] len set by auto
  moreover have "\<not> holds_text ''hunter2'' h" using holds_text_set [of "''hunter2''" h] set by auto
  then have "redact [''hunter2''] h = h" by (simp add: redact_def replace_absent)
  moreover have "redact [''hunter2''] ''2'' = ''2''" by (simp add: redact_def)
  ultimately have "drain_stderr (\<lambda>t. t) [''hunter2''] (h @ ''2'') [] = h @ [newline] @ ''2''"
    using len by (simp add: drain_stderr_def drain_byte_def drain_flush_def push_tail_def TAIL_BYTES_def LINE_CAP_def Let_def)
  then show ?thesis by (simp add: h_def x_def [symmetric])
qed

section \<open>The request table\<close>

text \<open>
  A request in the table is its id and the connection it was sent for.  \<open>sd_sent\<close> records what the
  callers' channels were given.  The supervisor reads replies, then waits for the child to end, then
  fails everything; it may be told to stop while it reads.
\<close>

type_synonym reply = "db_error + (json_value \<times> nat)"

datatype supervisor = Reading | Ending string | Ended

record side =
  sd_next_id :: nat
  sd_pending :: "(nat \<times> nat option) list"
  sd_dead :: "string option"
  sd_stdin :: bool
  sd_kill :: bool
  sd_phase :: supervisor
  sd_sent :: "(nat \<times> reply) list"

record side_env =
  se_engine :: string
  se_secrets :: "string list"
  se_wire :: wire_env
  se_parse :: "string \<Rightarrow> string + (nat \<times> json_value option \<times> wire_error option)"

definition side_start :: side where
  "side_start = \<lparr>sd_next_id = 1, sd_pending = [], sd_dead = None, sd_stdin = True, sd_kill = False,
     sd_phase = Reading, sd_sent = []\<rparr>"

definition fail_all :: "string \<Rightarrow> side \<Rightarrow> side" where
  "fail_all reason s =
     s\<lparr>sd_dead := (case sd_dead s of None \<Rightarrow> Some reason | Some r \<Rightarrow> Some r), sd_pending := [],
       sd_sent := sd_sent s @ map (\<lambda>p. (fst p, Inl (EProtocol reason))) (sd_pending s)\<rparr>"

definition dead_error :: "side_env \<Rightarrow> side \<Rightarrow> db_error" where
  "dead_error env s =
     EProtocol (case sd_dead s of Some r \<Rightarrow> r | None \<Rightarrow> ''the '' @ se_engine env @ '' sidecar went away'')"

definition is_alive :: "side \<Rightarrow> bool" where
  "is_alive s = (sd_dead s = None)"

text \<open>The first critical section of \<open>call\<close>.\<close>

definition register_call :: "side_env \<Rightarrow> nat option \<Rightarrow> side \<Rightarrow> (db_error + nat) \<times> side" where
  "register_call env conn s =
     (if sd_dead s \<noteq> None then (Inl (dead_error env s), s)
      else (Inr (sd_next_id s),
            s\<lparr>sd_next_id := sd_next_id s + 1, sd_pending := sd_pending s @ [(sd_next_id s, conn)]\<rparr>))"

definition outgoing :: "nat option \<Rightarrow> string \<Rightarrow> json_value \<Rightarrow> json_value" where
  "outgoing rid m p =
     JObject ((case rid of None \<Rightarrow> [] | Some i \<Rightarrow> [(''id'', json_of_nat i)]) @ [(''m'', JString m), (''p'', p)])"

text \<open>\<open>send\<close>: \<open>io\<close> is the error of the pipe, if it has one.\<close>

definition send_frame :: "side_env \<Rightarrow> nat option \<Rightarrow> string \<Rightarrow> json_value \<Rightarrow> string option \<Rightarrow> side \<Rightarrow> (db_error + unit) \<times> side"
where
  "send_frame env rid m p io s =
     (if \<not> sd_stdin s then (Inl (dead_error env s), s)
      else
        (case (case write_frame (wn_json (se_wire env) (outgoing rid m p)) of Inl e \<Rightarrow> Some e | Inr bytes \<Rightarrow> io) of
           None \<Rightarrow> (Inr (), s)
         | Some e \<Rightarrow>
             let s' = fail_all (''writing to the '' @ se_engine env @ '' sidecar: '' @ e) (s\<lparr>sd_stdin := False\<rparr>)
             in (Inl (dead_error env s'), s'\<lparr>sd_kill := True\<rparr>)))"

text \<open>\<open>settled\<close> returns when this holds.\<close>

definition is_settled :: "nat \<Rightarrow> side \<Rightarrow> bool" where
  "is_settled conn s = (sd_dead s \<noteq> None \<or> \<not> list_ex (\<lambda>(i, c). c = Some conn) (sd_pending s))"

text \<open>One turn of \<open>read_replies\<close>: the reason it stops, or the table without the request.\<close>

definition read_reply :: "side_env \<Rightarrow> string \<Rightarrow> side \<Rightarrow> string + side" where
  "read_reply env body s =
     (case se_parse env body of
        Inl e \<Rightarrow> Inl (''protocol violation: unreadable frame ('' @ e @ '')'')
      | Inr (rid, ok, err) \<Rightarrow>
          (case (case (ok, err) of
                   (Some v, None) \<Rightarrow> Some (Inr (v, length body))
                 | (None, Some w) \<Rightarrow> Some (Inl (into_db_error (w\<lparr>we_message := redact (se_secrets env) (we_message w)\<rparr>)))
                 | _ \<Rightarrow> None) of
             None \<Rightarrow> Inl (''protocol violation: reply '' @ show_nat rid @ '' is neither ok nor err'')
           | Some result \<Rightarrow>
               if map_of (sd_pending s) rid = None then
                 Inl (''protocol violation: reply to id '' @ show_nat rid @ '' that is not pending'')
               else Inr (s\<lparr>sd_pending := filter (\<lambda>(i, c). i \<noteq> rid) (sd_pending s),
                           sd_sent := sd_sent s @ [(rid, result)]\<rparr>)))"

definition show_frame_error :: "frame_error \<Rightarrow> string" where
  "show_frame_error e =
     (case e of
        Oversized n \<Rightarrow> ''frame of '' @ show_nat n @ '' bytes exceeds the '' @ show_nat MAX_FRAME @ ''-byte cap''
      | Truncated \<Rightarrow> ''stream ended inside a frame''
      | FrameIo m \<Rightarrow> ''pipe error: '' @ m)"

section \<open>Events\<close>

text \<open>
  What the reader got: a body, the end of the stream, or a frame error.  \<open>EvFinish\<close> is the child's
  exit: its status and what the error stream left in the tail.
\<close>

datatype side_event =
    EvRegister "nat option"
  | EvSend "nat option" string json_value "string option"
  | EvRead "frame_error + string option"
  | EvKill
  | EvStop
  | EvFinish string string

definition supervise_message :: "side_env \<Rightarrow> string \<Rightarrow> string \<Rightarrow> string \<Rightarrow> string" where
  "supervise_message env reason status tail =
     se_engine env @ '' sidecar: '' @ reason @ '' ('' @ status @ '')''
     @ (let t = tail_excerpt tail in if t = [] then [] else ''; stderr: '' @ t)"

fun side_step :: "side_env \<Rightarrow> side \<Rightarrow> side_event \<Rightarrow> side" where
  "side_step env s (EvRegister conn) = snd (register_call env conn s)"
| "side_step env s (EvSend rid m p io) = snd (send_frame env rid m p io s)"
| "side_step env s (EvRead r) =
     (if sd_phase s \<noteq> Reading then s
      else
        (case r of
           Inl e \<Rightarrow> s\<lparr>sd_phase := Ending (''protocol violation: '' @ show_frame_error e)\<rparr>
         | Inr None \<Rightarrow> s\<lparr>sd_phase := Ending ''exited''\<rparr>
         | Inr (Some body) \<Rightarrow>
             (case read_reply env body s of
                Inl reason \<Rightarrow> s\<lparr>sd_phase := Ending reason\<rparr>
              | Inr s' \<Rightarrow> s')))"
| "side_step env s EvKill = s\<lparr>sd_kill := True\<rparr>"
| "side_step env s EvStop =
     (if sd_phase s = Reading \<and> sd_kill s then s\<lparr>sd_phase := Ending ''the sidecar was stopped'', sd_kill := False\<rparr>
      else s)"
| "side_step env s (EvFinish status tail) =
     (case sd_phase s of
        Ending reason \<Rightarrow> fail_all (supervise_message env reason status tail) (s\<lparr>sd_phase := Ended\<rparr>)
      | _ \<Rightarrow> s)"

definition side_run :: "side_env \<Rightarrow> side_event list \<Rightarrow> side" where
  "side_run env evs = fold (\<lambda>e s. side_step env s e) evs side_start"

section \<open>Every request is answered once\<close>

definition side_ok :: "side \<Rightarrow> bool" where
  "side_ok s \<longleftrightarrow>
     distinct (map fst (sd_pending s) @ map fst (sd_sent s))
     \<and> set (map fst (sd_pending s) @ map fst (sd_sent s)) = {1..<sd_next_id s}
     \<and> 1 \<le> sd_next_id s
     \<and> (sd_dead s \<noteq> None \<longrightarrow> sd_pending s = [])
     \<and> (sd_phase s = Ended \<longrightarrow> sd_dead s \<noteq> None)
     \<and> (\<not> sd_stdin s \<longrightarrow> sd_dead s \<noteq> None)"

lemma side_start_ok: "side_ok side_start"
  by (simp add: side_ok_def side_start_def)

lemma fail_all_ok:
  assumes "side_ok s"
  shows "side_ok (fail_all reason (s\<lparr>sd_stdin := b, sd_phase := ph\<rparr>))"
proof -
  have dead: "sd_dead (fail_all reason (s\<lparr>sd_stdin := b, sd_phase := ph\<rparr>)) \<noteq> None"
    by (simp add: fail_all_def split: option.splits)
  have "distinct (map fst (sd_sent s) @ map fst (sd_pending s))"
    "set (map fst (sd_sent s) @ map fst (sd_pending s)) = {1..<sd_next_id s}" "1 \<le> sd_next_id s"
    using assms unfolding side_ok_def by auto
  with dead show ?thesis unfolding side_ok_def by (simp add: fail_all_def comp_def image_image)
qed

lemma register_ok:
  assumes "side_ok s"
  shows "side_ok (snd (register_call env conn s))"
  using assms by (auto simp: side_ok_def register_call_def)

lemma send_ok:
  assumes "side_ok s"
  shows "side_ok (snd (send_frame env rid m p io s))"
proof -
  have kill: "side_ok (t\<lparr>sd_kill := k\<rparr>) = side_ok t" for t k by (simp add: side_ok_def)
  have "side_ok (fail_all reason (s\<lparr>sd_stdin := False\<rparr>))" for reason
    using fail_all_ok [OF assms, of reason "sd_phase s" False] by simp
  then show ?thesis using assms by (auto simp: send_frame_def Let_def kill split: option.splits)
qed

lemma read_reply_ok:
  assumes "side_ok s" "read_reply env body s = Inr s'"
  shows "side_ok s'"
proof -
  from assms(2) obtain rid result where s': "s' = s\<lparr>sd_pending := filter (\<lambda>(i, c). i \<noteq> rid) (sd_pending s),
      sd_sent := sd_sent s @ [(rid, result)]\<rparr>" and r: "map_of (sd_pending s) rid \<noteq> None"
    by (auto simp: read_reply_def split: sum.splits option.splits prod.splits if_splits)
  from r have rid: "rid \<in> fst ` set (sd_pending s)" by (meson map_of_eq_None_iff)
  have d: "distinct (map fst (sd_pending s) @ map fst (sd_sent s))"
    and u: "set (map fst (sd_pending s) @ map fst (sd_sent s)) = {1..<sd_next_id s}"
    using assms(1) unfolding side_ok_def by blast+
  have f: "map fst (filter (\<lambda>(i, c). i \<noteq> rid) xs) = filter (\<lambda>i. i \<noteq> rid) (map fst xs)" for xs :: "(nat \<times> nat option) list"
    by (induction xs) auto
  have "distinct (map fst (sd_pending s') @ map fst (sd_sent s'))"
    using d rid unfolding s' by (auto simp: f simp del: filter_map)
  moreover have "set (map fst (sd_pending s') @ map fst (sd_sent s')) = {1..<sd_next_id s'}"
    using u rid unfolding s' by (auto simp: f simp del: filter_map)
  moreover have "1 \<le> sd_next_id s'" "sd_phase s' = Ended \<longrightarrow> sd_dead s' \<noteq> None" "\<not> sd_stdin s' \<longrightarrow> sd_dead s' \<noteq> None"
    "sd_dead s' \<noteq> None \<longrightarrow> sd_pending s' = []"
    using assms(1) unfolding side_ok_def s' by auto
  ultimately show ?thesis unfolding side_ok_def by blast
qed

lemma side_ok_phase: "side_ok s \<Longrightarrow> ph \<noteq> Ended \<Longrightarrow> side_ok (s\<lparr>sd_phase := ph, sd_kill := k\<rparr>)"
  by (simp add: side_ok_def)

lemma side_step_ok:
  assumes "side_ok s"
  shows "side_ok (side_step env s e)"
proof (cases e)
  case (EvRead r)
  have "side_ok (s\<lparr>sd_phase := Ending reason\<rparr>)" for reason
    using side_ok_phase [OF assms, of "Ending reason" "sd_kill s"] by simp
  then show ?thesis using EvRead assms read_reply_ok [OF assms] by (auto split: sum.splits option.splits)
next
  case EvStop
  then show ?thesis using side_ok_phase [OF assms] assms by auto
next
  case (EvFinish status tail)
  then show ?thesis using fail_all_ok [OF assms, of _ Ended "sd_stdin s"] assms by (auto split: supervisor.splits)
qed (use assms register_ok send_ok in \<open>auto simp: side_ok_def\<close>)

lemma side_run_snoc: "side_run env (evs @ [e]) = side_step env (side_run env evs) e"
  by (simp add: side_run_def)

lemma side_run_ok: "side_ok (side_run env evs)"
  by (induction evs rule: rev_induct) (simp_all add: side_run_snoc side_step_ok, simp add: side_run_def side_start_ok)

text \<open>An answer of the sidecar comes from a frame that names the request.\<close>

definition frame_answers :: "side_env \<Rightarrow> side_event \<Rightarrow> nat \<Rightarrow> reply \<Rightarrow> bool" where
  "frame_answers env e rid r =
     (case e of
        EvRead (Inr (Some body)) \<Rightarrow>
          (case se_parse env body of
             Inr (i, Some v, None) \<Rightarrow> i = rid \<and> r = Inr (v, length body)
           | Inr (i, None, Some w) \<Rightarrow> i = rid \<and> r = Inl (into_db_error (w\<lparr>we_message := redact (se_secrets env) (we_message w)\<rparr>))
           | _ \<Rightarrow> False)
      | _ \<Rightarrow> False)"

definition answered_by :: "side_env \<Rightarrow> side_event list \<Rightarrow> nat \<times> reply \<Rightarrow> bool" where
  "answered_by env evs a =
     (list_ex (\<lambda>e. frame_answers env e (fst a) (snd a)) evs \<or> (case snd a of Inl (EProtocol _) \<Rightarrow> True | _ \<Rightarrow> False))"

lemma fail_all_sent: "a \<in> set (sd_sent (fail_all reason s)) \<Longrightarrow> a \<in> set (sd_sent s) \<or> snd a = Inl (EProtocol reason)"
  by (auto simp: fail_all_def)

lemma read_reply_sent:
  assumes "read_reply env body s = Inr s'" "a \<in> set (sd_sent s')"
  shows "a \<in> set (sd_sent s) \<or> frame_answers env (EvRead (Inr (Some body))) (fst a) (snd a)"
  using assms by (auto simp: read_reply_def frame_answers_def split: sum.splits option.splits prod.splits if_splits)

lemma side_step_sent:
  assumes "a \<in> set (sd_sent (side_step env s e))"
  shows "a \<in> set (sd_sent s) \<or> answered_by env [e] a"
proof (cases e)
  case (EvSend rid m p io)
  have "a \<in> set (sd_sent s) \<or> snd a = Inl (EProtocol reason)" if "a \<in> set (sd_sent (fail_all reason (s\<lparr>sd_stdin := False\<rparr>)))" for reason
    using fail_all_sent [OF that] by simp
  then show ?thesis using assms EvSend by (auto simp: send_frame_def Let_def answered_by_def split: if_splits option.splits)
next
  case (EvRead r)
  then show ?thesis using assms
    by (auto simp: answered_by_def split: if_splits sum.splits option.splits dest: read_reply_sent)
next
  case (EvFinish status tail)
  then show ?thesis using assms by (auto simp: answered_by_def split: supervisor.splits dest!: fail_all_sent)
qed (use assms in \<open>auto simp: register_call_def split: if_splits\<close>)

lemma side_run_sent: "a \<in> set (sd_sent (side_run env evs)) \<Longrightarrow> answered_by env evs a"
proof (induction evs rule: rev_induct)
  case Nil
  then show ?case by (simp add: side_run_def side_start_def)
next
  case (snoc e evs)
  from side_step_sent [of a env "side_run env evs" e] snoc show ?case
    by (auto simp: side_run_snoc answered_by_def)
qed

text \<open>
  C15.  Whatever the callers, the pipe, the sidecar and the supervisor do and in whatever order, every
  request that was issued is either waiting or was answered once, never twice; an answer is what a
  frame with the request's id says, or a protocol error; and as soon as the process counts as dead
  nobody waits any more.
\<close>

theorem requests_answered_once:
  "let s = side_run env evs
   in distinct (map fst (sd_pending s) @ map fst (sd_sent s))
      \<and> set (map fst (sd_pending s) @ map fst (sd_sent s)) = {1..<sd_next_id s}
      \<and> list_all (answered_by env evs) (sd_sent s)
      \<and> (is_alive s \<or> sd_pending s = [])"
  using side_run_ok [of env evs] side_run_sent [of _ env evs]
  by (auto simp: Let_def side_ok_def list_all_iff is_alive_def)

lemma fail_all_first: "sd_dead s \<noteq> None \<Longrightarrow> sd_dead (fail_all reason s) = sd_dead s"
  by (auto simp: fail_all_def)

lemma dead_kept: "sd_dead s = Some r \<Longrightarrow> sd_dead (side_step env s e) = Some r"
proof (cases e)
  case (EvRead x)
  assume "sd_dead s = Some r"
  then show ?thesis using EvRead
    by (auto simp: read_reply_def Let_def split: sum.splits option.splits prod.splits if_splits)
qed (auto simp: register_call_def send_frame_def fail_all_def Let_def split: option.splits supervisor.splits)

lemma dead_kept_run: "sd_dead s = Some r \<Longrightarrow> sd_dead (fold (\<lambda>e s. side_step env s e) evs s) = Some r"
  by (induction evs arbitrary: s) (simp_all add: dead_kept)

text \<open>
  C16.  The sidecar's end: whatever happened before, when its stream ends (or it is told to stop) and the
  child is gone, every request issued has its answer, later calls fail at once, and the first reason
  for the death is the one that is kept.
\<close>

theorem end_answers_everyone:
  "let s = side_run env (evs @ [EvRead (Inr None), EvFinish status tail] @ post)
   in set (map fst (sd_sent s)) = {1..<sd_next_id s}
      \<and> \<not> is_alive s \<and> sd_pending s = [] \<and> is_settled conn s
      \<and> (\<exists>reason. fst (register_call env c s) = Inl (EProtocol reason)
           \<and> (is_alive (side_run env evs) \<or> sd_dead (side_run env evs) = Some reason))"
proof -
  define s0 where "s0 = side_run env evs"
  define s1 where "s1 = side_step env (side_step env s0 (EvRead (Inr None))) (EvFinish status tail)"
  define s where "s = side_run env (evs @ [EvRead (Inr None), EvFinish status tail] @ post)"
  have s: "s = fold (\<lambda>e s. side_step env s e) post s1" by (simp add: s_def s1_def s0_def side_run_def)
  have ok0: "side_ok s0" and ok: "side_ok s" unfolding s0_def s_def by (rule side_run_ok)+
  obtain r where r: "sd_dead s1 = Some r" "is_alive s0 \<or> sd_dead s0 = Some r"
  proof (cases "sd_phase s0")
    case Ended
    with ok0 obtain r where "sd_dead s0 = Some r" by (auto simp: side_ok_def)
    with Ended that [of r] show ?thesis by (simp add: s1_def)
  next
    case Reading
    with that show ?thesis by (cases "sd_dead s0") (auto simp: s1_def fail_all_def is_alive_def)
  next
    case (Ending reason)
    with that show ?thesis by (cases "sd_dead s0") (auto simp: s1_def fail_all_def is_alive_def)
  qed
  have dead: "sd_dead s = Some r" unfolding s by (rule dead_kept_run [OF r(1)])
  with ok have "sd_pending s = []" "set (map fst (sd_sent s)) = {1..<sd_next_id s}" by (auto simp: side_ok_def)
  with dead r(2) show ?thesis unfolding s_def [symmetric] s0_def [symmetric]
    by (simp add: Let_def is_alive_def is_settled_def register_call_def dead_error_def)
qed

text \<open>
  A request that is larger than a frame is refused by the writer, and the refusal counts as a broken
  pipe: every other request of the process fails with it and the sidecar is killed.
\<close>

lemma oversized_request_kills_all:
  assumes "MAX_FRAME < length (wn_json (se_wire env) (outgoing rid m p))" "sd_stdin s" "(i, c) \<in> set (sd_pending s)"
  shows "let s' = side_step env s (EvSend rid m p None)
    in sd_kill s' \<and> \<not> sd_stdin s' \<and> \<not> is_alive s' \<and> sd_pending s' = []
       \<and> (i, Inl (EProtocol (''writing to the '' @ se_engine env @ '' sidecar: outgoing frame exceeds the cap''))) \<in> set (sd_sent s')"
  using assms by (force simp: send_frame_def write_frame_def Let_def fail_all_def is_alive_def split: option.splits)

end
