(* ===== verification/Connection_Urls.thy ===== *)
theory Connection_Urls
  imports Url_Text Core_Api Sql_Pieces
begin

text \<open>
  Connection URLs from end to end: the connection dialog writes one and reads one
  (\<open>ui/gtk4/src/connection_dialog.rs\<close>), the foreign interface picks a driver for it
  (\<open>crates/datagrep-ffi/src/drivers.rs\<close>), and the driver reads its configuration out of it
  (\<open>driver.rs\<close> of the SQLite, Redis, MongoDB, Elasticsearch and sidecar drivers).  PostgreSQL and
  MySQL leave it to their client libraries.
\<close>

section \<open>The drivers\<close>

datatype config_error =
    MissingField string
  | InvalidValue string string
  | UnknownField string
  | InvalidUrl string

text \<open>From the standard library: parsing a double, the lossy conversion from UTF-8 and its check,
  lower case, and the \<open>Debug\<close> form of a text.\<close>

record url_env =
  ue_float :: "string \<Rightarrow> f64 option"
  ue_lossy :: "string \<Rightarrow> string"
  ue_utf8 :: "string \<Rightarrow> bool"
  ue_lower :: "string \<Rightarrow> string"
  ue_debug :: "string \<Rightarrow> string"

type_synonym config_values = "string \<rightharpoonup> config_value"

definition driver_config :: "string \<Rightarrow> config_values \<Rightarrow> config_error + connection_config" where
  "driver_config driver vs = Inr \<lparr>cc_driver = driver, cc_values = vs\<rparr>"

definition split_or :: "(string \<times> string) option \<Rightarrow> string \<Rightarrow> string \<times> string option" where
  "split_or r whole = (case r of None \<Rightarrow> (whole, None) | Some (a, b) \<Rightarrow> (a, Some b))"

text \<open>\<open>userinfo@rest\<close>, split at the last at sign.\<close>

definition split_userinfo :: "string \<Rightarrow> string option \<times> string" where
  "split_userinfo authority =
     (case rsplit_once_char (CHR ''@'') authority of None \<Rightarrow> (None, authority) | Some (u, h) \<Rightarrow> (Some u, h))"

definition parse_sqlite_url :: "url_env \<Rightarrow> string \<Rightarrow> config_error + connection_config" where
  "parse_sqlite_url env url =
     (if url = '':memory:'' then driver_config ''sqlite'' [''path'' \<mapsto> CfgStr '':memory:'']
      else
        (case strip_prefix ''sqlite://'' url of
           Some rest \<Rightarrow>
             if rest = [] then Inl (InvalidUrl ''missing path after `sqlite://`'')
             else driver_config ''sqlite'' [''path'' \<mapsto> CfgStr rest]
         | None \<Rightarrow>
             Inl (InvalidUrl (''unrecognized SQLite url: '' @ ue_debug env url
               @ '' (expected `sqlite:///path` or `:memory:`)''))))"

definition trim_end_char :: "char \<Rightarrow> string \<Rightarrow> string" where
  "trim_end_char d s = rev (dropWhile (\<lambda>c. c = d) (rev s))"

definition trim_char :: "char \<Rightarrow> string \<Rightarrow> string" where
  "trim_char d s = trim_end_char d (dropWhile (\<lambda>c. c = d) s)"

definition put_some :: "string \<Rightarrow> config_value option \<Rightarrow> config_values \<Rightarrow> config_values" where
  "put_some k v vs = (case v of None \<Rightarrow> vs | Some x \<Rightarrow> vs(k \<mapsto> x))"

definition redis_db :: "url_env \<Rightarrow> string option \<Rightarrow> config_error + f64 option" where
  "redis_db env path =
     (case path of
        None \<Rightarrow> Inr None
      | Some p \<Rightarrow>
          let db = trim_end_char (CHR ''/'') p
          in if db = [] then Inr None
             else (case ue_float env db of
                     None \<Rightarrow> Inl (InvalidUrl (''invalid database index '' @ ue_debug env db))
                   | Some f \<Rightarrow> Inr (Some f)))"

definition redis_host_port :: "url_env \<Rightarrow> string \<Rightarrow> config_error + (string \<times> f64 option)" where
  "redis_host_port env hostport =
     (case rsplit_once_char (CHR '':'') hostport of
        None \<Rightarrow> Inr (hostport, None)
      | Some (h, p) \<Rightarrow>
          if h = [] then Inr (hostport, None)
          else (case ue_float env p of
                  None \<Rightarrow> Inl (InvalidUrl (''invalid port '' @ ue_debug env p))
                | Some f \<Rightarrow> Inr (h, Some f)))"

definition parse_redis_url :: "url_env \<Rightarrow> string \<Rightarrow> config_error + connection_config" where
  "parse_redis_url env url =
     (case split_once_text ''://'' url of
        None \<Rightarrow> Inl (InvalidUrl ''missing scheme (expected redis:// or rediss://)'')
      | Some (scheme, rest0) \<Rightarrow>
          if scheme \<noteq> ''redis'' \<and> scheme \<noteq> ''rediss'' then
            Inl (InvalidUrl (''unsupported scheme '' @ ue_debug env scheme @ '', expected redis:// or rediss://''))
          else
            let rest = takeWhile (\<lambda>c. c \<noteq> CHR ''?'' \<and> c \<noteq> CHR ''#'') rest0;
                (authority, path) = split_or (split_once_char (CHR ''/'') rest) rest;
                (userinfo, hostport) = split_userinfo authority
            in if hostport = [] then Inl (InvalidUrl ''missing host'')
               else try_bind (redis_host_port env hostport) (\<lambda>(host, port).
                      let base = [''host'' \<mapsto> CfgStr host,
                                  ''port'' \<mapsto> CfgNum (case port of None \<Rightarrow> ''6379'' | Some p \<Rightarrow> p),
                                  ''tls'' \<mapsto> CfgBool (scheme = ''rediss'')];
                          creds = (case userinfo of
                                     None \<Rightarrow> base
                                   | Some ui \<Rightarrow>
                                       (case split_or (split_once_char (CHR '':'') ui) ui of (user, pass) \<Rightarrow>
                                          put_some ''password'' (map_option CfgStr pass)
                                            (put_some ''username'' (if user = [] then None else Some (CfgStr user)) base)))
                      in try_bind (redis_db env path) (\<lambda>db.
                           driver_config ''redis'' (creds(''db'' \<mapsto> CfgNum (case db of None \<Rightarrow> ''0'' | Some f \<Rightarrow> f))))))"

text \<open>The user and password of the MongoDB and Elasticsearch drivers: an empty password is none.\<close>

definition decoded_credentials :: "url_env \<Rightarrow> string \<Rightarrow> config_values \<Rightarrow> config_values" where
  "decoded_credentials env ui vs =
     (case split_once_char (CHR '':'') ui of
        None \<Rightarrow> vs(''user'' \<mapsto> CfgStr (ue_lossy env (pct_bytes ui)))
      | Some (u, p) \<Rightarrow>
          put_some ''password'' (if p = [] then None else Some (CfgStr (ue_lossy env (pct_bytes p))))
            (vs(''user'' \<mapsto> CfgStr (ue_lossy env (pct_bytes u)))))"

definition query_pairs :: "string option \<Rightarrow> string list" where
  "query_pairs q = (case q of None \<Rightarrow> [] | Some s \<Rightarrow> filter (\<lambda>p. p \<noteq> []) (split_char (CHR ''&'') s))"

definition mongo_option :: "url_env \<Rightarrow> string \<Rightarrow> config_values \<times> string list \<Rightarrow> config_values \<times> string list" where
  "mongo_option env pair acc =
     (case acc of (vs, leftover) \<Rightarrow>
        (case split_or (split_once_char (CHR ''='') pair) pair of (k, v') \<Rightarrow>
           let v = (case v' of None \<Rightarrow> [] | Some x \<Rightarrow> x)
           in if k = ''authSource'' then (vs(''auth_source'' \<mapsto> CfgStr (ue_lossy env (pct_bytes v))), leftover)
              else if k = ''replicaSet'' then (vs(''replica_set'' \<mapsto> CfgStr (ue_lossy env (pct_bytes v))), leftover)
              else if k = ''tls'' \<or> k = ''ssl'' then (vs(''tls'' \<mapsto> CfgBool (eq_ignore_ascii_case v ''true'')), leftover)
              else (vs, leftover @ [pair])))"

definition parse_mongo_url :: "url_env \<Rightarrow> string \<Rightarrow> config_error + connection_config" where
  "parse_mongo_url env url =
     (case (case strip_prefix ''mongodb+srv://'' url of
              Some r \<Rightarrow> Some (True, r)
            | None \<Rightarrow> map_option (\<lambda>r. (False, r)) (strip_prefix ''mongodb://'' url)) of
        None \<Rightarrow> Inl (InvalidUrl ''expected a mongodb:// or mongodb+srv:// url'')
      | Some (srv, rest) \<Rightarrow>
          let (before_query, query) = split_or (split_once_char (CHR ''?'') rest) rest;
              (before_path, path) = split_or (split_once_char (CHR ''/'') before_query) before_query;
              (userinfo, hosts) = split_userinfo before_path
          in if hosts = [] then Inl (InvalidUrl ''missing host'')
             else
               let base = [''hosts'' \<mapsto> CfgStr hosts, ''srv'' \<mapsto> CfgBool srv];
                   creds = (case userinfo of None \<Rightarrow> base | Some ui \<Rightarrow> decoded_credentials env ui base);
                   db = put_some ''database'' (case path of None \<Rightarrow> None | Some p \<Rightarrow> if p = [] then None else Some (CfgStr p)) creds;
                   (opts, leftover) = fold (mongo_option env) (query_pairs query) (db, [])
               in driver_config ''mongodb''
                    (put_some ''extra_options'' (if leftover = [] then None else Some (CfgStr (join ''&'' leftover))) opts))"

definition es_host_port :: "string \<Rightarrow> config_error + (string \<times> string option)" where
  "es_host_port hostport =
     (case strip_prefix ''['' hostport of
        Some rest \<Rightarrow>
          (case split_once_char (CHR '']'') rest of
             None \<Rightarrow> Inl (InvalidUrl ''unterminated IPv6 literal'')
           | Some (h, tail) \<Rightarrow> Inr (h, strip_prefix '':'' tail))
      | None \<Rightarrow> Inr (split_or (split_once_char (CHR '':'') hostport) hostport))"

definition es_option :: "url_env \<Rightarrow> string \<Rightarrow> config_error + config_values \<Rightarrow> config_error + config_values" where
  "es_option env pair acc =
     try_bind acc (\<lambda>vs.
       case split_or (split_once_char (CHR ''='') pair) pair of (k, v') \<Rightarrow>
         let v = ue_lossy env (pct_bytes (case v' of None \<Rightarrow> [] | Some x \<Rightarrow> x))
         in if k = ''index'' then Inr (vs(''index'' \<mapsto> CfgStr v))
            else if k = ''api_key'' then Inr (vs(''auth'' \<mapsto> CfgStr ''api_key'', ''api_key'' \<mapsto> CfgStr v))
            else if k = ''path_prefix'' then Inr (vs(''path_prefix'' \<mapsto> CfgStr v))
            else Inl (UnknownField k))"

definition es_path :: "string option \<Rightarrow> config_values \<Rightarrow> config_values" where
  "es_path path vs =
     (case map_option (trim_char (CHR ''/'')) path of
        None \<Rightarrow> vs
      | Some p \<Rightarrow>
          if p = [] then vs
          else if CHR ''/'' \<in> set p then vs(''path_prefix'' \<mapsto> CfgStr p)
          else vs(''index'' \<mapsto> CfgStr p))"

definition parse_es_url :: "url_env \<Rightarrow> string \<Rightarrow> config_error + connection_config" where
  "parse_es_url env url =
     (case (case strip_prefix ''https://'' url of
              Some r \<Rightarrow> Some (True, r)
            | None \<Rightarrow>
                (case strip_prefix ''http://'' url of
                   Some r \<Rightarrow> Some (False, r)
                 | None \<Rightarrow> map_option (\<lambda>r. (False, r)) (strip_prefix ''elasticsearch://'' url))) of
        None \<Rightarrow> Inl (InvalidUrl ''expected an http:// or https:// url'')
      | Some (tls, rest) \<Rightarrow>
          let (before_query, query) = split_or (split_once_char (CHR ''?'') rest) rest;
              (authority, path) = split_or (split_once_char (CHR ''/'') before_query) before_query;
              (userinfo, hostport) = split_userinfo authority
          in if hostport = [] then Inl (InvalidUrl ''missing host'')
             else try_bind (es_host_port hostport) (\<lambda>(host, port).
               if host = [] then Inl (InvalidUrl ''missing host'')
               else try_bind
                 (case port of
                    None \<Rightarrow> Inr (if tls then ''9243'' else ''9200'')
                  | Some p \<Rightarrow>
                      (case ue_float env p of
                         None \<Rightarrow> Inl (InvalidUrl (''port '' @ ue_debug env p @ '' is not a number''))
                       | Some f \<Rightarrow> Inr f))
                 (\<lambda>port.
                    let base = [''host'' \<mapsto> CfgStr host, ''port'' \<mapsto> CfgNum port, ''tls'' \<mapsto> CfgBool tls];
                        creds = (case userinfo of
                                   None \<Rightarrow> base
                                 | Some ui \<Rightarrow>
                                     if ui = [] then base
                                     else decoded_credentials env ui (base(''auth'' \<mapsto> CfgStr ''basic'')))
                    in try_bind (fold (es_option env) (query_pairs query) (Inr (es_path path creds)))
                         (driver_config ''elasticsearch''))))"

text \<open>The sidecar driver: what it needs of an engine's manifest.\<close>

record url_manifest =
  um_id :: string
  um_name :: string
  um_schemes :: "string list"
  um_port :: nat
  um_path_key :: string

definition strict_decode :: "url_env \<Rightarrow> string \<Rightarrow> config_error + string" where
  "strict_decode env s =
     (case pct_bytes_strict s of
        None \<Rightarrow> Inl (InvalidUrl ''bad percent escape'')
      | Some b \<Rightarrow> if ue_utf8 env b then Inr b else Inl (InvalidUrl ''percent escape is not UTF-8''))"

definition strict_field :: "url_env \<Rightarrow> string \<Rightarrow> string option \<Rightarrow> config_values \<Rightarrow> config_error + config_values" where
  "strict_field env k v vs =
     (case v of None \<Rightarrow> Inr vs | Some s \<Rightarrow> try_bind (strict_decode env s) (\<lambda>d. Inr (vs(k \<mapsto> CfgStr d))))"

definition parse_sidecar_url :: "url_env \<Rightarrow> url_manifest \<Rightarrow> string \<Rightarrow> config_error + connection_config" where
  "parse_sidecar_url env m url =
     (case split_once_text ''://'' url of
        None \<Rightarrow> Inl (InvalidUrl ''expected scheme://'')
      | Some (scheme, rest) \<Rightarrow>
          if scheme \<notin> set (um_schemes m) then Inl (InvalidUrl (''`'' @ scheme @ ''` is not a '' @ um_name m @ '' URL''))
          else
            let (authority, path0) = split_or (split_once_char (CHR ''/'') rest) rest;
                path = takeWhile (\<lambda>c. c \<noteq> CHR ''?'' \<and> c \<noteq> CHR ''#'') (case path0 of None \<Rightarrow> [] | Some p \<Rightarrow> p);
                (userinfo, host_port) = split_userinfo authority;
                (user, password) = (case userinfo of
                                      None \<Rightarrow> ([], None)
                                    | Some ui \<Rightarrow> split_or (split_once_char (CHR '':'') ui) ui)
            in try_bind (strict_field env ''user'' (if user = [] then None else Some user) (\<lambda>_. None)) (\<lambda>vs1.
               try_bind (strict_field env ''password'' password vs1) (\<lambda>vs2.
               try_bind (case rsplit_once_char (CHR '':'') host_port of
                           None \<Rightarrow> Inr (host_port, um_port m)
                         | Some (h, p) \<Rightarrow>
                             (case parse_u16 p of
                                None \<Rightarrow> Inl (InvalidUrl ''port is not a number'')
                              | Some n \<Rightarrow> Inr (h, n))) (\<lambda>(host, port).
               if host = [] then Inl (InvalidUrl ''missing host'')
               else try_bind (strict_field env (um_path_key m) (if path = [] then None else Some path)
                      (vs2(''host'' \<mapsto> CfgStr host, ''port'' \<mapsto> CfgNum (show_nat port))))
                      (driver_config (um_id m))))))"

definition oracle_manifest :: url_manifest where
  "oracle_manifest = \<lparr>um_id = ''oracle'', um_name = ''Oracle'', um_schemes = [''oracle''], um_port = 1521,
     um_path_key = ''service''\<rparr>"

text \<open>Which driver a URL is for.\<close>

definition driver_for_url :: "string \<Rightarrow> string option" where
  "driver_for_url url =
     (let begins = (\<lambda>p. starts_with url p)
      in if url = '':memory:'' \<or> begins ''sqlite://'' then Some ''sqlite''
         else if begins ''postgres://'' \<or> begins ''postgresql://'' then Some ''postgres''
         else if begins ''redis://'' \<or> begins ''rediss://'' then Some ''redis''
         else if begins ''mongodb://'' \<or> begins ''mongodb+srv://'' then Some ''mongodb''
         else if begins ''mysql://'' \<or> begins ''mariadb://'' then Some ''mysql''
         else if begins ''elasticsearch://'' \<or> begins ''http://'' \<or> begins ''https://'' then Some ''elasticsearch''
         else if begins ''oracle://'' then Some ''oracle''
         else None)"

section \<open>The connection dialog\<close>

record engine =
  en_id :: string
  en_scheme :: string
  en_aliases :: "string list"
  en_tls_scheme :: "string option"
  en_port :: "nat option"
  en_file :: bool

definition postgres_engine :: engine where
  "postgres_engine = \<lparr>en_id = ''postgres'', en_scheme = ''postgres://'', en_aliases = [''postgresql://''], en_tls_scheme = None,
     en_port = Some 5432, en_file = False\<rparr>"

definition mysql_engine :: engine where
  "mysql_engine = \<lparr>en_id = ''mysql'', en_scheme = ''mysql://'', en_aliases = [''mariadb://''], en_tls_scheme = None,
     en_port = Some 3306, en_file = False\<rparr>"

definition sqlite_engine :: engine where
  "sqlite_engine = \<lparr>en_id = ''sqlite'', en_scheme = ''sqlite://'', en_aliases = [], en_tls_scheme = None,
     en_port = None, en_file = True\<rparr>"

definition redis_engine :: engine where
  "redis_engine = \<lparr>en_id = ''redis'', en_scheme = ''redis://'', en_aliases = [''rediss://''], en_tls_scheme = None,
     en_port = Some 6379, en_file = False\<rparr>"

definition mongo_engine :: engine where
  "mongo_engine = \<lparr>en_id = ''mongo'', en_scheme = ''mongodb://'', en_aliases = [''mongodb+srv://''], en_tls_scheme = None,
     en_port = Some 27017, en_file = False\<rparr>"

definition elasticsearch_engine :: engine where
  "elasticsearch_engine = \<lparr>en_id = ''elasticsearch'', en_scheme = ''http://'', en_aliases = [''elasticsearch://''], en_tls_scheme = Some ''https://'',
     en_port = Some 9200, en_file = False\<rparr>"

definition ENGINES :: "engine list" where
  "ENGINES = [postgres_engine, mysql_engine, sqlite_engine, redis_engine, mongo_engine, elasticsearch_engine]"

lemmas engine_defs = postgres_engine_def mysql_engine_def sqlite_engine_def redis_engine_def mongo_engine_def elasticsearch_engine_def

text \<open>\<open>engine.rs\<close>.\<close>

definition canonical_driver_id :: "url_env \<Rightarrow> string \<Rightarrow> string option" where
  "canonical_driver_id env i =
     (let s = ue_lower env i
      in if starts_with s ''postgres'' \<or> s = ''pg'' \<or> s = ''psql'' then Some ''postgres''
         else if starts_with s ''mysql'' \<or> starts_with s ''maria'' then Some ''mysql''
         else if starts_with s ''sqlite'' then Some ''sqlite''
         else if starts_with s ''redis'' then Some ''redis''
         else if starts_with s ''mongo'' then Some ''mongo''
         else if starts_with s ''elastic'' \<or> starts_with s ''opensearch'' then Some ''elasticsearch''
         else None)"

definition engine_by_id :: "url_env \<Rightarrow> string \<Rightarrow> engine option" where
  "engine_by_id env i = Option.bind (canonical_driver_id env i) (\<lambda>key. find (\<lambda>e. en_id e = key) ENGINES)"

record url_fields =
  uf_engine :: string
  uf_host :: string
  uf_port :: string
  uf_database :: string
  uf_username :: string
  uf_password :: string
  uf_file :: string
  uf_tls :: bool
  uf_extras :: string

definition no_fields :: url_fields where
  "no_fields = \<lparr>uf_engine = [], uf_host = [], uf_port = [], uf_database = [], uf_username = [],
     uf_password = [], uf_file = [], uf_tls = False, uf_extras = []\<rparr>"

definition dialog_port :: "engine \<Rightarrow> string \<Rightarrow> nat option" where
  "dialog_port e port =
     (case parse_u16 (trim port) of Some n \<Rightarrow> if 0 < n then Some n else en_port e | None \<Rightarrow> en_port e)"

definition build_userinfo :: "url_fields \<Rightarrow> bool \<Rightarrow> string" where
  "build_userinfo f include_password =
     (let user = trim (uf_username f)
      in if user = [] then []
         else pct_encode unreserved user
              @ (if include_password \<and> uf_password f \<noteq> [] then '':'' @ pct_encode unreserved (uf_password f) else [])
              @ ''@'')"

definition build_url :: "url_env \<Rightarrow> url_fields \<Rightarrow> bool \<Rightarrow> string" where
  "build_url env f include_password =
     (case engine_by_id env (uf_engine f) of
        None \<Rightarrow> []
      | Some e \<Rightarrow>
          if en_file e then
            (let path = trim (uf_file f)
             in if path = [] then []
                else if path = '':memory:'' then path
                else if starts_with path ''/'' then en_scheme e @ path
                else en_scheme e @ ''/'' @ path)
          else
            (let host = trim (uf_host f); db = trim (uf_database f); extras = trim (uf_extras f)
             in if host = [] then []
                else (case en_tls_scheme e of Some tls \<Rightarrow> if uf_tls f then tls else en_scheme e | None \<Rightarrow> en_scheme e)
                  @ build_userinfo f include_password
                  @ (if CHR '':'' \<in> set host \<and> \<not> starts_with host ''['' then ''['' @ host @ '']'' else host)
                  @ (case dialog_port e (uf_port f) of None \<Rightarrow> [] | Some p \<Rightarrow> '':'' @ show_nat p)
                  @ (if db = [] then [] else ''/'' @ db)
                  @ (if extras = [] then [] else ''?'' @ extras)))"

definition engine_schemes :: "engine \<Rightarrow> string list" where
  "engine_schemes e = en_scheme e # en_aliases e @ (case en_tls_scheme e of None \<Rightarrow> [] | Some t \<Rightarrow> [t])"

text \<open>Decoding in the dialog: \<open>None\<close> is a panic.\<close>

definition dialog_decode :: "url_env \<Rightarrow> string \<Rightarrow> string option" where
  "dialog_decode env s = map_option (ue_lossy env) (pct_bytes_dialog s)"

definition read_userinfo :: "url_env \<Rightarrow> string option \<Rightarrow> url_fields \<Rightarrow> url_fields option" where
  "read_userinfo env userinfo f =
     (case userinfo of
        None \<Rightarrow> Some f
      | Some ui \<Rightarrow>
          (case split_once_char (CHR '':'') ui of
             None \<Rightarrow> map_option (\<lambda>u. f\<lparr>uf_username := u\<rparr>) (dialog_decode env ui)
           | Some (user, password) \<Rightarrow>
               Option.bind (dialog_decode env user) (\<lambda>u.
                 map_option (\<lambda>p. f\<lparr>uf_username := u, uf_password := p\<rparr>) (dialog_decode env password))))"

definition read_host_port :: "string \<Rightarrow> url_fields \<Rightarrow> url_fields" where
  "read_host_port rest f =
     (case strip_prefix ''['' rest of
        Some stripped \<Rightarrow>
          (case split_once_char (CHR '']'') stripped of
             None \<Rightarrow> f
           | Some (h, tail) \<Rightarrow>
               (case strip_prefix '':'' tail of
                  None \<Rightarrow> f\<lparr>uf_host := h\<rparr>
                | Some port \<Rightarrow> f\<lparr>uf_host := h, uf_port := port\<rparr>))
      | None \<Rightarrow>
          (case rsplit_once_char (CHR '':'') rest of
             Some (host, port) \<Rightarrow> f\<lparr>uf_host := host, uf_port := port\<rparr>
           | None \<Rightarrow> f\<lparr>uf_host := rest\<rparr>))"

definition dialog_parse_url :: "url_env \<Rightarrow> string \<Rightarrow> url_fields option" where
  "dialog_parse_url env url =
     (let trimmed = trim url; low = ue_lower env trimmed
      in if low = '':memory:'' then Some (no_fields\<lparr>uf_engine := ''sqlite'', uf_file := '':memory:''\<rparr>)
         else
           (case find (\<lambda>e. list_ex (\<lambda>s. starts_with low s) (engine_schemes e)) ENGINES of
              None \<Rightarrow> Some no_fields
            | Some e \<Rightarrow>
                let f0 = no_fields\<lparr>uf_engine := en_id e\<rparr>
                in (case split_once_text ''://'' trimmed of
                      None \<Rightarrow> Some f0
                    | Some (scheme, rest) \<Rightarrow>
                        let f1 = f0\<lparr>uf_tls := (en_tls_scheme e = Some (ue_lower env scheme @ ''://''))\<rparr>
                        in if en_file e then Some (f1\<lparr>uf_file := rest\<rparr>)
                           else
                             let (rest1, extras) = split_or (split_once_char (CHR ''?'') rest) rest;
                                 f2 = f1\<lparr>uf_extras := (case extras of None \<Rightarrow> [] | Some x \<Rightarrow> x)\<rparr>;
                                 (rest2, db) = split_or (split_once_char (CHR ''/'') rest1) rest1;
                                 (userinfo, hostport) = split_userinfo rest2
                             in Option.bind (case db of None \<Rightarrow> Some [] | Some d \<Rightarrow> dialog_decode env d) (\<lambda>d.
                                map_option (read_host_port hostport) (read_userinfo env userinfo (f2\<lparr>uf_database := d\<rparr>))))))"

section \<open>What the dialog writes it reads back\<close>

definition graphic :: "string \<Rightarrow> bool" where
  "graphic s = list_all (\<lambda>c. 33 \<le> bval c \<and> bval c \<le> 126) s"

text \<open>
  What is relied on of \<open>str::to_lowercase\<close>: ASCII texts.  (Of others it depends on the context: a
  final sigma.)
\<close>

abbreviation ascii_text :: "string \<Rightarrow> bool" where
  "ascii_text s \<equiv> list_all (\<lambda>c. bval c < 128) s"

definition lower_law :: "url_env \<Rightarrow> bool" where
  "lower_law env = (\<forall>s. ascii_text s \<longrightarrow> ue_lower env s = map ascii_lower s)"

text \<open>
  Fields the dialog can hold: a host without delimiters, a database without percent sign or question
  mark, both of graphic characters; a user and a password of any valid text, no password without a
  user; an explicit port; and no TLS switch for an engine that has none.
\<close>

definition dialog_fields_ok :: "url_env \<Rightarrow> engine \<Rightarrow> nat \<Rightarrow> url_fields \<Rightarrow> bool" where
  "dialog_fields_ok env e port f \<longleftrightarrow>
     e \<in> set ENGINES \<and> \<not> en_file e \<and> uf_engine f = en_id e
     \<and> graphic (uf_host f) \<and> uf_host f \<noteq> [] \<and> set (uf_host f) \<inter> set ''/?@:[]#'' = {}
     \<and> graphic (uf_database f) \<and> set (uf_database f) \<inter> set ''%?'' = {} \<and> ue_lossy env (uf_database f) = uf_database f
     \<and> graphic (uf_extras f)
     \<and> trim (uf_username f) = uf_username f \<and> ue_lossy env (uf_username f) = uf_username f
     \<and> ue_lossy env (uf_password f) = uf_password f \<and> (uf_username f = [] \<longrightarrow> uf_password f = [])
     \<and> uf_port f = show_nat port \<and> 0 < port \<and> port < 65536
     \<and> uf_file f = [] \<and> (uf_tls f \<longrightarrow> en_tls_scheme e \<noteq> None)"

lemma lower_ascii: "lower_law env \<Longrightarrow> ascii_text s \<Longrightarrow> ue_lower env s = map ascii_lower s"
  by (simp add: lower_law_def)

definition url_scheme :: "engine \<Rightarrow> bool \<Rightarrow> string" where
  "url_scheme e tls =
     (case en_tls_scheme e of Some t \<Rightarrow> if tls then t else en_scheme e | None \<Rightarrow> en_scheme e)"

text \<open>The engines one by one: the scheme the dialog writes leads back to its engine.\<close>

definition leads_back :: "string \<Rightarrow> engine \<Rightarrow> bool \<Rightarrow> bool" where
  "leads_back s e tls \<longleftrightarrow>
     CHR '':'' \<notin> set s \<and> list_all is_ascii_lower s \<and> s \<noteq> []
     \<and> url_scheme e tls = s @ ''://'' \<and> (en_tls_scheme e = Some (s @ ''://'')) = tls
     \<and> (\<forall>x. find (\<lambda>e'. list_ex (\<lambda>p. starts_with (s @ ''://'' @ x) p) (engine_schemes e')) ENGINES = Some e)"

lemma postgres_leads_back: "leads_back ''postgres'' postgres_engine False"
  unfolding leads_back_def ENGINES_def
  by (intro conjI) (simp_all add: engine_defs url_scheme_def engine_schemes_def, code_simp?)

lemma mysql_leads_back: "leads_back ''mysql'' mysql_engine False"
  unfolding leads_back_def ENGINES_def
  by (intro conjI) (simp_all add: engine_defs url_scheme_def engine_schemes_def, code_simp?)

lemma redis_leads_back: "leads_back ''redis'' redis_engine False"
  unfolding leads_back_def ENGINES_def
  by (intro conjI) (simp_all add: engine_defs url_scheme_def engine_schemes_def, code_simp?)

lemma mongo_leads_back: "leads_back ''mongodb'' mongo_engine False"
  unfolding leads_back_def ENGINES_def
  by (intro conjI) (simp_all add: engine_defs url_scheme_def engine_schemes_def, code_simp?)

lemma http_leads_back: "leads_back ''http'' elasticsearch_engine False"
  unfolding leads_back_def ENGINES_def
  by (intro conjI) (simp_all add: engine_defs url_scheme_def engine_schemes_def, code_simp?)

lemma https_leads_back: "leads_back ''https'' elasticsearch_engine True"
  unfolding leads_back_def ENGINES_def
  by (intro conjI) (simp_all add: engine_defs url_scheme_def engine_schemes_def, code_simp?)

lemma engine_leads_back:
  assumes "e \<in> set ENGINES" "\<not> en_file e" "tls \<longrightarrow> en_tls_scheme e \<noteq> None"
  shows "\<exists>s. leads_back s e tls"
proof -
  have "\<not> tls" if "e \<in> {postgres_engine, mysql_engine, redis_engine, mongo_engine}"
    using assms(3) that by (auto simp: engine_defs)
  moreover have "e \<noteq> sqlite_engine" using assms(2) by (auto simp: engine_defs)
  moreover have "e \<in> {postgres_engine, mysql_engine, sqlite_engine, redis_engine, mongo_engine, elasticsearch_engine}"
    using assms(1) by (simp add: ENGINES_def)
  ultimately show ?thesis
    using postgres_leads_back mysql_leads_back redis_leads_back mongo_leads_back http_leads_back https_leads_back
    by (cases tls) auto
qed

lemma postgres_by_id: "ue_lower env ''postgres'' = ''postgres'' \<Longrightarrow> engine_by_id env ''postgres'' = Some postgres_engine"
  by (simp add: engine_by_id_def canonical_driver_id_def ENGINES_def engine_defs)

lemma mysql_by_id: "ue_lower env ''mysql'' = ''mysql'' \<Longrightarrow> engine_by_id env ''mysql'' = Some mysql_engine"
  by (simp add: engine_by_id_def canonical_driver_id_def ENGINES_def engine_defs)

lemma redis_by_id: "ue_lower env ''redis'' = ''redis'' \<Longrightarrow> engine_by_id env ''redis'' = Some redis_engine"
  by (simp add: engine_by_id_def canonical_driver_id_def ENGINES_def engine_defs)

lemma mongo_by_id: "ue_lower env ''mongo'' = ''mongo'' \<Longrightarrow> engine_by_id env ''mongo'' = Some mongo_engine"
  by (simp add: engine_by_id_def canonical_driver_id_def ENGINES_def engine_defs)

lemma elasticsearch_by_id: "ue_lower env ''elasticsearch'' = ''elasticsearch'' \<Longrightarrow> engine_by_id env ''elasticsearch'' = Some elasticsearch_engine"
  by (simp add: engine_by_id_def canonical_driver_id_def ENGINES_def engine_defs)

lemma sqlite_by_id: "ue_lower env ''sqlite'' = ''sqlite'' \<Longrightarrow> engine_by_id env ''sqlite'' = Some sqlite_engine"
  by (simp add: engine_by_id_def canonical_driver_id_def ENGINES_def engine_defs)

lemma lower_case_ascii:
  assumes "list_all is_ascii_lower s"
  shows "list_all (\<lambda>c. bval c < 128) s \<and> map ascii_lower s = s"
  using assms by (induction s) (auto simp: is_ascii_lower_def is_ascii_upper_def in_interval_def ascii_lower_def)

lemma ids_lower:
  "list_all is_ascii_lower ''postgres''" "list_all is_ascii_lower ''mysql''" "list_all is_ascii_lower ''sqlite''"
  "list_all is_ascii_lower ''redis''" "list_all is_ascii_lower ''mongo''" "list_all is_ascii_lower ''elasticsearch''"
  by code_simp+

lemma lower_lower:
  assumes "lower_law env" "list_all is_ascii_lower s"
  shows "ue_lower env s = s"
  using lower_ascii [OF assms(1), of s] lower_case_ascii [OF assms(2)] by simp

lemma engine_found:
  assumes "lower_law env" "e \<in> set ENGINES"
  shows "engine_by_id env (en_id e) = Some e"
proof -
  note low = ids_lower [THEN lower_lower [OF assms(1)]]
  have "e \<in> {postgres_engine, mysql_engine, sqlite_engine, redis_engine, mongo_engine, elasticsearch_engine}"
    using assms(2) by (simp add: ENGINES_def)
  moreover have "en_id postgres_engine = ''postgres''" "en_id mysql_engine = ''mysql''" "en_id sqlite_engine = ''sqlite''"
    "en_id redis_engine = ''redis''" "en_id mongo_engine = ''mongo''" "en_id elasticsearch_engine = ''elasticsearch''"
    by (simp_all add: engine_defs)
  ultimately show ?thesis
    using postgres_by_id mysql_by_id sqlite_by_id redis_by_id mongo_by_id elasticsearch_by_id low by auto
qed

definition graphic_char :: "char \<Rightarrow> bool" where
  "graphic_char c = (33 \<le> bval c \<and> bval c \<le> 126)"

lemma graphic_list_all: "graphic s = list_all graphic_char s"
  by (simp add: graphic_def graphic_char_def [abs_def])

lemma graphic_char_solid: "graphic_char c \<Longrightarrow> bval c < 128 \<and> \<not> ws_single (bval c)"
  by (auto simp: graphic_char_def ws_single_def)

lemma trim_ends:
  assumes "s \<noteq> []" "graphic_char (hd s)" "graphic_char (last s)"
  shows "trim s = s"
proof -
  have "ws_len s = 0" using assms(1,2) graphic_char_solid ws_len_ascii by (cases s) auto
  then have "trim_start s = s" by (simp add: trim_start.simps [of s])
  moreover obtain z t where z: "rev s = z # t" using assms(1) by (cases "rev s") auto
  then have "s = rev t @ [z]" by (metis rev.simps(2) rev_rev_ident)
  then have "graphic_char z" using assms(3) by simp
  then have "ws_len_rev (rev s) = 0" unfolding z using graphic_char_solid [of z]
    by (cases "z # t" rule: ws_len_rev.cases) (auto simp: ws_pair_def ws_triple_def)
  then have "trim_rev (rev s) = rev s" by (simp add: trim_rev.simps [of "rev s"])
  ultimately show ?thesis by (simp add: trim_def trim_end_def)
qed

lemma trim_graphic: "graphic s \<Longrightarrow> trim s = s"
  using trim_ends [of s] by (cases "s = []") (auto simp: graphic_list_all list_all_iff)

lemma digits_graphic: "graphic (show_nat n)" "show_nat n \<noteq> []"
  using show_nat_digits [of n]
  by (auto simp: graphic_list_all list_all_iff graphic_char_def is_ascii_digit_def in_interval_def)

lemma dialog_port_shown: "0 < port \<Longrightarrow> port < 65536 \<Longrightarrow> dialog_port e (show_nat port) = Some port"
  using parse_unsigned_show [of port 16] by (simp add: dialog_port_def trim_graphic digits_graphic parse_u16_def)

lemma alnum_not: "is_ascii_alphanumeric c \<Longrightarrow> c \<notin> set ''/?@:[]#''"
proof -
  have "list_all (\<lambda>c. \<not> is_ascii_alphanumeric c) ''/?@:[]#''" by code_simp
  then show "is_ascii_alphanumeric c \<Longrightarrow> c \<notin> set ''/?@:[]#''" unfolding list_all_iff by blast
qed

lemma encoded_clean: "set (pct_encode unreserved s) \<inter> set ''/?@:[]#'' = {}"
  using pct_encode_set [of _ s] alnum_not by (fastforce simp: unreserved_def)

lemma digit_clean: "set (show_nat n) \<inter> set ''/?@:[]#'' = {}"
  using show_nat_digits(1) [of n] alnum_not by (fastforce simp: list_all_iff is_ascii_alphanumeric_def)

lemma dialog_decode_encoded [simp]: "dialog_decode env (pct_encode unreserved s) = Some (ue_lossy env s)"
  by (simp add: dialog_decode_def unreserved_round_trip)

lemma dialog_plain: "CHR ''%'' \<notin> set s \<Longrightarrow> pct_bytes_dialog s = Some s"
  by (induction s rule: pct_bytes_dialog.induct) auto

text \<open>The parts of the URL after the scheme.\<close>

definition url_authority :: "url_fields \<Rightarrow> string" where
  "url_authority f = build_userinfo f True @ uf_host f @ '':'' @ uf_port f"

definition url_path :: "url_fields \<Rightarrow> string" where
  "url_path f = (if uf_database f = [] then [] else ''/'' @ uf_database f)"

definition url_query :: "url_fields \<Rightarrow> string" where
  "url_query f = (if uf_extras f = [] then [] else ''?'' @ uf_extras f)"

lemma build_url_parts:
  assumes "lower_law env" "dialog_fields_ok env e port f"
  shows "build_url env f True = url_scheme e (uf_tls f) @ url_authority f @ url_path f @ url_query f"
proof -
  note ok = assms(2) [unfolded dialog_fields_ok_def]
  have "trim (uf_host f) = uf_host f" "trim (uf_database f) = uf_database f" "trim (uf_extras f) = uf_extras f"
    using ok trim_graphic by auto
  moreover have "CHR '':'' \<notin> set (uf_host f)" using ok by auto
  moreover have "dialog_port e (uf_port f) = Some port" using ok dialog_port_shown by auto
  ultimately show ?thesis using engine_found [OF assms(1), of e] ok
    by (simp add: build_url_def url_scheme_def url_authority_def url_path_def url_query_def)
qed

lemma credentials_read:
  assumes "dialog_fields_ok env e port f" "uf_username f \<noteq> []"
  shows "\<exists>ui. ui \<noteq> [] \<and> split_userinfo (url_authority f) = (Some ui, uf_host f @ '':'' @ uf_port f)
    \<and> split_or (split_once_char (CHR '':'') ui) ui
        = (pct_encode unreserved (uf_username f),
           if uf_password f = [] then None else Some (pct_encode unreserved (uf_password f)))"
proof -
  note ok = assms(1) [unfolded dialog_fields_ok_def]
  define hp where "hp = uf_host f @ '':'' @ uf_port f"
  have hp: "CHR ''@'' \<notin> set hp" using ok digit_clean [of port] by (auto simp: hp_def)
  have colon: "CHR '':'' \<notin> set (pct_encode unreserved s)" for s using encoded_clean [of s] by auto
  define ui where "ui = pct_encode unreserved (uf_username f)
    @ (if uf_password f \<noteq> [] then CHR '':'' # pct_encode unreserved (uf_password f) else [])"
  have "url_authority f = ui @ CHR ''@'' # hp"
    using ok assms(2) by (simp add: url_authority_def build_userinfo_def ui_def hp_def)
  with rsplit_once_last [OF hp, of ui] have s: "split_userinfo (url_authority f) = (Some ui, hp)"
    by (simp add: split_userinfo_def)
  moreover have "ui \<noteq> []" using assms(2) by (cases "uf_username f") (auto simp: ui_def)
  moreover have "split_or (split_once_char (CHR '':'') ui) ui
      = (pct_encode unreserved (uf_username f), if uf_password f = [] then None else Some (pct_encode unreserved (uf_password f)))"
    using split_once_first [OF colon] split_once_absent [OF colon] by (simp add: ui_def split_or_def)
  ultimately show ?thesis unfolding hp_def by blast
qed

lemma userinfo_read:
  assumes "dialog_fields_ok env e port f" "uf_username g = []" "uf_password g = []"
  shows "case split_userinfo (url_authority f) of (userinfo, hostport) \<Rightarrow>
    hostport = uf_host f @ '':'' @ uf_port f
    \<and> read_userinfo env userinfo g = Some (g\<lparr>uf_username := uf_username f, uf_password := uf_password f\<rparr>)"
proof -
  note ok = assms(1) [unfolded dialog_fields_ok_def]
  define hp where "hp = uf_host f @ '':'' @ uf_port f"
  have hp: "CHR ''@'' \<notin> set hp" using ok digit_clean [of port] by (auto simp: hp_def)
  have colon: "CHR '':'' \<notin> set (pct_encode unreserved s)" for s using encoded_clean [of s] by auto
  show ?thesis
  proof (cases "uf_username f = []")
    case True
    with ok have "build_userinfo f True = []" "uf_password f = []" by (simp_all add: build_userinfo_def)
    have "url_authority f = hp" using \<open>build_userinfo f True = []\<close> by (simp add: url_authority_def hp_def)
    with rsplit_once_absent [OF hp] have "split_userinfo (url_authority f) = (None, hp)" by (simp add: split_userinfo_def)
    moreover have "g\<lparr>uf_username := [], uf_password := []\<rparr> = g" using assms(2,3) by (cases g) simp
    ultimately show ?thesis using True \<open>uf_password f = []\<close> by (simp add: read_userinfo_def hp_def)
  next
    case False
    from credentials_read [OF assms(1) False] obtain ui where
      s: "split_userinfo (url_authority f) = (Some ui, uf_host f @ '':'' @ uf_port f)"
      and c: "split_or (split_once_char (CHR '':'') ui) ui = (pct_encode unreserved (uf_username f),
           if uf_password f = [] then None else Some (pct_encode unreserved (uf_password f)))" by blast
    have "read_userinfo env (Some ui) g = Some (g\<lparr>uf_username := uf_username f, uf_password := uf_password f\<rparr>)"
    proof (cases "uf_password f = []")
      case True
      with c have "split_once_char (CHR '':'') ui = None" "ui = pct_encode unreserved (uf_username f)"
        by (auto simp: split_or_def split: option.splits)
      moreover have "g\<lparr>uf_username := u, uf_password := []\<rparr> = g\<lparr>uf_username := u\<rparr>" for u using assms(3) by (cases g) simp
      ultimately show ?thesis using True ok by (simp add: read_userinfo_def)
    next
      case False
      with c have "split_once_char (CHR '':'') ui = Some (pct_encode unreserved (uf_username f), pct_encode unreserved (uf_password f))"
        by (auto simp: split_or_def split: option.splits)
      with ok show ?thesis by (simp add: read_userinfo_def)
    qed
    with s show ?thesis by simp
  qed
qed

lemma host_port_read:
  assumes "dialog_fields_ok env e port f"
  shows "read_host_port (uf_host f @ '':'' @ uf_port f) g = g\<lparr>uf_host := uf_host f, uf_port := uf_port f\<rparr>"
proof -
  note ok = assms [unfolded dialog_fields_ok_def]
  have "CHR '':'' \<notin> set (uf_port f)" using ok digit_clean [of port] by auto
  from rsplit_once_last [OF this, of "uf_host f"] have "rsplit_once_char (CHR '':'') (uf_host f @ '':'' @ uf_port f) = Some (uf_host f, uf_port f)"
    by simp
  moreover have "strip_prefix ''['' (uf_host f @ '':'' @ uf_port f) = None"
    using ok by (cases "uf_host f") (auto simp: strip_prefix_def)
  ultimately show ?thesis by (simp add: read_host_port_def)
qed

lemma url_trimmed:
  assumes "lower_law env" "dialog_fields_ok env e port f" "leads_back s e (uf_tls f)"
  shows "trim (build_url env f True) = build_url env f True"
proof (rule trim_ends)
  note ok = assms(2) [unfolded dialog_fields_ok_def]
  have b: "build_url env f True = s @ ''://'' @ url_authority f @ url_path f @ url_query f"
    using build_url_parts [OF assms(1,2)] assms(3) by (simp add: leads_back_def)
  obtain c r where s: "s = c # r" "is_ascii_lower c" using assms(3) by (cases s) (auto simp: leads_back_def)
  show "build_url env f True \<noteq> []" using b s by simp
  show "graphic_char (hd (build_url env f True))"
    using b s by (auto simp: graphic_char_def is_ascii_lower_def in_interval_def)
  have "last (build_url env f True) \<in> set (uf_port f) \<union> set (uf_database f) \<union> set (uf_extras f)"
    using b ok digits_graphic(2) [of port] by (auto simp: url_authority_def url_path_def url_query_def)
  then show "graphic_char (last (build_url env f True))"
    using ok digits_graphic(1) [of port] by (auto simp: graphic_list_all list_all_iff)
qed

lemma encoded_ascii: "ascii_text (pct_encode unreserved s)"
  unfolding list_all_iff
proof
  fix c assume "c \<in> set (pct_encode unreserved s)"
  then have "is_ascii_alphanumeric c \<or> c \<in> set ''%-._~''"
    using pct_encode_set [of c s] by (auto simp: unreserved_def)
  then show "bval c < 128"
    by (auto simp: is_ascii_alphanumeric_def is_ascii_alphabetic_def is_ascii_lower_def is_ascii_upper_def
        is_ascii_digit_def in_interval_def bval_def)
qed

lemma graphic_ascii: "graphic s \<Longrightarrow> ascii_text s"
  by (auto simp: graphic_def list_all_iff)

lemma ascii_append: "ascii_text (s @ t) = (ascii_text s \<and> ascii_text t)"
  by simp

lemma url_ascii:
  assumes "lower_law env" "dialog_fields_ok env e port f" "leads_back s e (uf_tls f)"
  shows "ascii_text (build_url env f True)"
proof -
  note ok = assms(2) [unfolded dialog_fields_ok_def]
  have b: "build_url env f True = s @ ''://'' @ url_authority f @ url_path f @ url_query f"
    using build_url_parts [OF assms(1,2)] assms(3) by (simp add: leads_back_def)
  have seps: "ascii_text ''://''" "ascii_text ''@''" "ascii_text '':''" "ascii_text ''/''" "ascii_text ''?''" "ascii_text []"
    by code_simp+
  have s: "ascii_text s" using assms(3) lower_case_ascii by (simp add: leads_back_def)
  have port: "ascii_text (uf_port f)" using digits_graphic(1) [of port] ok graphic_ascii by metis
  have parts: "ascii_text (uf_host f)" "ascii_text (uf_database f)" "ascii_text (uf_extras f)"
    using ok graphic_ascii by blast+
  have "ascii_text (build_userinfo f True)"
    unfolding build_userinfo_def Let_def by (simp only: ascii_append encoded_ascii seps if_splits simp_thms split: if_split)
  then have "ascii_text (url_authority f)" unfolding url_authority_def by (simp only: ascii_append parts port seps simp_thms)
  moreover have "ascii_text (url_path f)" "ascii_text (url_query f)"
    unfolding url_path_def url_query_def by (simp_all only: ascii_append parts seps simp_thms split: if_split)
  ultimately show ?thesis unfolding b by (simp only: ascii_append s seps simp_thms)
qed

lemma url_rest_splits:
  assumes "dialog_fields_ok env e port f"
  shows "split_or (split_once_char (CHR ''?'') (url_authority f @ url_path f @ url_query f)) (url_authority f @ url_path f @ url_query f)
      = (url_authority f @ url_path f, if uf_extras f = [] then None else Some (uf_extras f))"
    and "split_or (split_once_char (CHR ''/'') (url_authority f @ url_path f)) (url_authority f @ url_path f)
      = (url_authority f, if uf_database f = [] then None else Some (uf_database f))"
proof -
  note ok = assms [unfolded dialog_fields_ok_def]
  have q: "CHR ''?'' \<notin> set (url_authority f @ url_path f)" and sl: "CHR ''/'' \<notin> set (url_authority f)"
    using ok encoded_clean [of "uf_username f"] encoded_clean [of "uf_password f"] digit_clean [of port]
    by (auto simp: url_authority_def build_userinfo_def url_path_def Let_def)
  show "split_or (split_once_char (CHR ''?'') (url_authority f @ url_path f @ url_query f)) (url_authority f @ url_path f @ url_query f)
      = (url_authority f @ url_path f, if uf_extras f = [] then None else Some (uf_extras f))"
    using split_once_first [OF q, of "uf_extras f"] split_once_absent [OF q] by (simp add: url_query_def split_or_def)
  show "split_or (split_once_char (CHR ''/'') (url_authority f @ url_path f)) (url_authority f @ url_path f)
      = (url_authority f, if uf_database f = [] then None else Some (uf_database f))"
    using split_once_first [OF sl, of "uf_database f"] split_once_absent [OF sl] by (simp add: url_path_def split_or_def)
qed

text \<open>
  C20.  What the connection dialog writes into the URL field it reads back into the same fields: any
  user and password, with whatever delimiters, the host and port, a database with slashes, the TLS
  switch and the extra options.
\<close>

theorem dialog_url_roundtrip:
  assumes "lower_law env" "dialog_fields_ok env e port f"
  shows "dialog_parse_url env (build_url env f True) = Some f"
proof -
  note ok = assms(2) [unfolded dialog_fields_ok_def]
  obtain s where s: "leads_back s e (uf_tls f)" using engine_leads_back [of e "uf_tls f"] ok by auto
  define rest where "rest = url_authority f @ url_path f @ url_query f"
  have b: "build_url env f True = s @ ''://'' @ rest"
    using build_url_parts [OF assms] s by (simp add: leads_back_def rest_def)
  have sl: "list_all is_ascii_lower s" "CHR '':'' \<notin> set s" using s by (auto simp: leads_back_def)
  have "ascii_text (s @ ''://'' @ rest)" using url_ascii [OF assms s] unfolding b .
  moreover have "map ascii_lower ''://'' = ''://''" by code_simp
  ultimately have low: "ue_lower env (build_url env f True) = s @ ''://'' @ map ascii_lower rest"
    using lower_ascii [OF assms(1)] lower_case_ascii [OF sl(1)] unfolding b by simp
  note query = url_rest_splits(1) [OF assms(2), folded rest_def] and path = url_rest_splits(2) [OF assms(2)]
  have db: "dialog_decode env (uf_database f) = Some (uf_database f)"
    using ok dialog_plain [of "uf_database f"] by (auto simp: dialog_decode_def)
  have colon: "s @ ''://'' @ x \<noteq> '':memory:''" for x using sl s by (cases s) (auto simp: leads_back_def)
  have scheme: "split_once_text ''://'' (s @ ''://'' @ rest) = Some (s, rest)" using split_scheme [OF sl(2), of rest] by simp
  define g where "g = no_fields\<lparr>uf_engine := en_id e, uf_tls := uf_tls f, uf_extras := uf_extras f, uf_database := uf_database f\<rparr>"
  obtain ui hp where up: "split_userinfo (url_authority f) = (ui, hp)" by fastforce
  with userinfo_read [OF assms(2), of g] have r: "hp = uf_host f @ '':'' @ uf_port f"
    "read_userinfo env ui g = Some (g\<lparr>uf_username := uf_username f, uf_password := uf_password f\<rparr>)"
    by (auto simp: g_def no_fields_def)
  have "dialog_parse_url env (build_url env f True) = map_option (read_host_port hp) (read_userinfo env ui g)"
    using url_trimmed [OF assms s] low colon [of "map ascii_lower rest"] s scheme lower_lower [OF assms(1) sl(1)] query path db up ok
    by (simp add: dialog_parse_url_def Let_def b leads_back_def g_def)
  also have "\<dots> = Some (g\<lparr>uf_username := uf_username f, uf_password := uf_password f, uf_host := uf_host f, uf_port := uf_port f\<rparr>)"
    using host_port_read [OF assms(2)] r by simp
  also have "\<dots> = Some f" using ok by (cases f) (simp add: g_def no_fields_def)
  finally show ?thesis .
qed

lemma dialog_url_roundtrip_witness:
  "\<exists>env. dialog_parse_url env (build_url env
     \<lparr>uf_engine = ''elasticsearch'', uf_host = ''db'', uf_port = show_nat 9201, uf_database = ''a/b'',
      uf_username = ''me'', uf_password = ''p@:/?#%'', uf_file = [], uf_tls = True, uf_extras = ''x=1''\<rparr> True)
   = Some \<lparr>uf_engine = ''elasticsearch'', uf_host = ''db'', uf_port = show_nat 9201, uf_database = ''a/b'',
      uf_username = ''me'', uf_password = ''p@:/?#%'', uf_file = [], uf_tls = True, uf_extras = ''x=1''\<rparr>"
proof -
  let ?env = "\<lparr>ue_float = Some, ue_lossy = (\<lambda>s. s), ue_utf8 = (\<lambda>s. True), ue_lower = map ascii_lower, ue_debug = (\<lambda>s. s)\<rparr>"
  have g: "graphic ''db''" "graphic ''a/b''" "graphic ''x=1''" "graphic ''me''" by code_simp+
  have "dialog_fields_ok ?env elasticsearch_engine 9201
     \<lparr>uf_engine = ''elasticsearch'', uf_host = ''db'', uf_port = show_nat 9201, uf_database = ''a/b'',
      uf_username = ''me'', uf_password = ''p@:/?#%'', uf_file = [], uf_tls = True, uf_extras = ''x=1''\<rparr>"
    using g trim_graphic [OF g(4)] by (simp add: dialog_fields_ok_def ENGINES_def engine_defs)
  from dialog_url_roundtrip [OF _ this] show ?thesis by (intro exI [of _ ?env]) (simp add: lower_law_def)
qed

section \<open>What the drivers read of it\<close>

text \<open>The front of \<open>parse_and_split_url\<close>: the client libraries of two drivers are arguments.\<close>

definition parse_connection_url ::
    "url_env \<Rightarrow> (string \<Rightarrow> string \<Rightarrow> config_error + connection_config) \<Rightarrow> url_manifest \<Rightarrow> string
     \<Rightarrow> (config_error + connection_config) option"
where
  "parse_connection_url env lib m url =
     map_option (\<lambda>d.
       if d = ''sqlite'' then parse_sqlite_url env url
       else if d = ''redis'' then parse_redis_url env url
       else if d = ''mongodb'' then parse_mongo_url env url
       else if d = ''elasticsearch'' then parse_es_url env url
       else if d = ''oracle'' then parse_sidecar_url env m url
       else lib d url) (driver_for_url url)"

text \<open>The rest of a URL the dialog wrote without extra options.\<close>

lemma plain_rest_splits:
  assumes "dialog_fields_ok env e port f" "uf_extras f = []"
  shows "split_or (split_once_char (CHR ''?'') (url_authority f @ url_path f)) (url_authority f @ url_path f)
      = (url_authority f @ url_path f, None)"
  using url_rest_splits(1) [OF assms(1)] assms(2) by (simp add: url_query_def)

lemma scheme_text:
  assumes "lower_law env" "dialog_fields_ok env e port f" "uf_extras f = []"
  shows "build_url env f True = url_scheme e (uf_tls f) @ url_authority f @ url_path f"
  using build_url_parts [OF assms(1,2)] assms(3) by (simp add: url_query_def)

lemma decoded_credentials_read:
  assumes "dialog_fields_ok env e port f"
    "split_or (split_once_char (CHR '':'') ui) ui
       = (pct_encode unreserved (uf_username f), if uf_password f = [] then None else Some (pct_encode unreserved (uf_password f)))"
  shows "decoded_credentials env ui vs = put_some ''password'' (if uf_password f = [] then None else Some (CfgStr (uf_password f)))
    (vs(''user'' \<mapsto> CfgStr (uf_username f)))"
proof -
  have "ue_lossy env (uf_username f) = uf_username f" "ue_lossy env (uf_password f) = uf_password f"
    using assms(1) by (auto simp: dialog_fields_ok_def)
  moreover have "pct_encode unreserved (uf_password f) = [] \<longleftrightarrow> uf_password f = []"
    by (cases "uf_password f") auto
  ultimately show ?thesis using assms(2)
    by (cases "split_once_char (CHR '':'') ui") (auto simp: decoded_credentials_def split_or_def unreserved_round_trip put_some_def split: if_splits)
qed

definition credentials_in :: "url_fields \<Rightarrow> config_values \<Rightarrow> bool" where
  "credentials_in f vs \<longleftrightarrow> vs ''user'' = Some (CfgStr (uf_username f))
     \<and> vs ''password'' = (if uf_password f = [] then None else Some (CfgStr (uf_password f)))"

lemma mongo_reads_dialog_url:
  assumes "lower_law env" "dialog_fields_ok env mongo_engine port f" "uf_extras f = []" "uf_username f \<noteq> []"
  shows "\<exists>vs. parse_mongo_url env (build_url env f True) = Inr \<lparr>cc_driver = ''mongodb'', cc_values = vs\<rparr>
    \<and> credentials_in f vs \<and> vs ''hosts'' = Some (CfgStr (uf_host f @ '':'' @ uf_port f))
    \<and> vs ''database'' = (if uf_database f = [] then None else Some (CfgStr (uf_database f)))"
proof -
  have "url_scheme mongo_engine (uf_tls f) = ''mongodb://''" by (simp add: url_scheme_def engine_defs)
  then have b: "build_url env f True = ''mongodb://'' @ url_authority f @ url_path f" using scheme_text [OF assms(1-3)] by simp
  obtain ui where ui: "split_userinfo (url_authority f) = (Some ui, uf_host f @ '':'' @ uf_port f)"
    "decoded_credentials env ui vs = put_some ''password'' (if uf_password f = [] then None else Some (CfgStr (uf_password f)))
       (vs(''user'' \<mapsto> CfgStr (uf_username f)))" for vs
    using credentials_read [OF assms(2,4)] decoded_credentials_read [OF assms(2)] by metis
  have host: "uf_host f \<noteq> []" using assms(2) by (simp add: dialog_fields_ok_def)
  have s1: "strip_prefix ''mongodb+srv://'' (build_url env f True) = None"
    and s2: "strip_prefix ''mongodb://'' (build_url env f True) = Some (url_authority f @ url_path f)"
    unfolding b by (simp_all add: strip_prefix_def)
  show ?thesis
    using plain_rest_splits [OF assms(2,3)] url_rest_splits(2) [OF assms(2)] ui host s1 s2
    by (simp add: parse_mongo_url_def query_pairs_def driver_config_def put_some_def credentials_in_def)
qed

lemma es_reads_dialog_url:
  assumes "lower_law env" "dialog_fields_ok env elasticsearch_engine port f" "uf_extras f = []" "uf_username f \<noteq> []"
    "ue_float env (uf_port f) = Some n"
  shows "\<exists>vs. parse_es_url env (build_url env f True) = Inr \<lparr>cc_driver = ''elasticsearch'', cc_values = vs\<rparr>
    \<and> credentials_in f vs \<and> vs ''host'' = Some (CfgStr (uf_host f)) \<and> vs ''port'' = Some (CfgNum n)
    \<and> vs ''tls'' = Some (CfgBool (uf_tls f))"
proof -
  define rest where "rest = url_authority f @ url_path f"
  have "url_scheme elasticsearch_engine (uf_tls f) = (if uf_tls f then ''https://'' else ''http://'')"
    by (simp add: url_scheme_def engine_defs)
  then have b: "build_url env f True = (if uf_tls f then ''https://'' else ''http://'') @ rest"
    using scheme_text [OF assms(1-3)] by (simp add: rest_def)
  have pre: "(case strip_prefix ''https://'' (build_url env f True) of
              Some r \<Rightarrow> Some (True, r)
            | None \<Rightarrow>
                (case strip_prefix ''http://'' (build_url env f True) of
                   Some r \<Rightarrow> Some (False, r)
                 | None \<Rightarrow> map_option (\<lambda>r. (False, r)) (strip_prefix ''elasticsearch://'' (build_url env f True))))
    = Some (uf_tls f, rest)"
    unfolding b by (cases "uf_tls f") (simp_all add: strip_prefix_def)
  obtain ui where ui: "ui \<noteq> []" "split_userinfo (url_authority f) = (Some ui, uf_host f @ '':'' @ uf_port f)"
    "decoded_credentials env ui vs = put_some ''password'' (if uf_password f = [] then None else Some (CfgStr (uf_password f)))
       (vs(''user'' \<mapsto> CfgStr (uf_username f)))" for vs
    using credentials_read [OF assms(2,4)] decoded_credentials_read [OF assms(2)] by metis
  have host: "uf_host f \<noteq> []" "CHR '':'' \<notin> set (uf_host f)" "CHR ''['' \<notin> set (uf_host f)"
    using assms(2) by (auto simp: dialog_fields_ok_def)
  then have "strip_prefix ''['' (uf_host f @ '':'' @ uf_port f) = None"
    by (cases "uf_host f") (auto simp: strip_prefix_def)
  with split_once_first [OF host(2), of "uf_port f"]
  have hp: "es_host_port (uf_host f @ '':'' @ uf_port f) = Inr (uf_host f, Some (uf_port f))"
    by (simp add: es_host_port_def split_or_def)
  show ?thesis
    unfolding parse_es_url_def pre
    using plain_rest_splits [OF assms(2,3), folded rest_def] url_rest_splits(2) [OF assms(2), folded rest_def] ui hp host(1) assms(5)
    by (simp add: Let_def query_pairs_def driver_config_def put_some_def credentials_in_def es_path_def)
qed

text \<open>
  C14.  From the dialog to the driver: the user and the password typed into the dialog, whatever
  delimiters they hold, are what the MongoDB and Elasticsearch drivers find in the URL, and so are
  the host and its port.
\<close>

theorem dialog_url_reaches_driver:
  assumes "lower_law env" "dialog_fields_ok env e port f" "e = mongo_engine \<or> e = elasticsearch_engine"
    "uf_extras f = []" "uf_username f \<noteq> []" "ue_float env (uf_port f) = Some n"
  shows "\<exists>cfg. parse_connection_url env lib m (build_url env f True) = Some (Inr cfg)
    \<and> cc_driver cfg = (if e = mongo_engine then ''mongodb'' else ''elasticsearch'')
    \<and> cc_values cfg ''user'' = Some (CfgStr (uf_username f))
    \<and> cc_values cfg ''password'' = (if uf_password f = [] then None else Some (CfgStr (uf_password f)))
    \<and> (if e = mongo_engine then cc_values cfg ''hosts'' = Some (CfgStr (uf_host f @ '':'' @ uf_port f))
       else cc_values cfg ''host'' = Some (CfgStr (uf_host f)) \<and> cc_values cfg ''port'' = Some (CfgNum n))"
proof -
  have ne: "mongo_engine \<noteq> elasticsearch_engine" by (simp add: engine_defs)
  have scheme: "build_url env f True = url_scheme e (uf_tls f) @ url_authority f @ url_path f"
    using scheme_text [OF assms(1,2,4)] .
  show ?thesis
  proof (cases "e = mongo_engine")
    case True
    then have "driver_for_url (build_url env f True) = Some ''mongodb''"
      unfolding scheme by (simp add: driver_for_url_def url_scheme_def engine_defs Let_def)
    with mongo_reads_dialog_url [of env port f] assms True show ?thesis
      by (fastforce simp: parse_connection_url_def credentials_in_def)
  next
    case False
    with assms(3) have e: "e = elasticsearch_engine" by blast
    then have "driver_for_url (build_url env f True) = Some ''elasticsearch''"
      unfolding scheme by (simp add: driver_for_url_def url_scheme_def engine_defs Let_def)
    with es_reads_dialog_url [of env port f n] assms e ne show ?thesis
      by (fastforce simp: parse_connection_url_def credentials_in_def)
  qed
qed

text \<open>A dialog's fields to apply the properties to.\<close>

definition plain_urls :: url_env where
  "plain_urls = \<lparr>ue_float = Some, ue_lossy = (\<lambda>s. s), ue_utf8 = (\<lambda>s. True), ue_lower = map ascii_lower, ue_debug = (\<lambda>s. s)\<rparr>"

lemma plain_urls_lower: "lower_law plain_urls"
  by (simp add: lower_law_def plain_urls_def)

lemma dialog_url_reaches_driver_witness:
  "\<exists>cfg. parse_connection_url plain_urls (\<lambda>d u. Inl (UnknownField [])) oracle_manifest (build_url plain_urls
     (no_fields\<lparr>uf_engine := ''mongo'', uf_host := ''db'', uf_port := show_nat 27017, uf_username := ''me'', uf_password := ''p@:/''\<rparr>) True)
     = Some (Inr cfg) \<and> cc_values cfg ''password'' = Some (CfgStr ''p@:/'')"
proof -
  let ?f = "no_fields\<lparr>uf_engine := ''mongo'', uf_host := ''db'', uf_port := show_nat 27017, uf_username := ''me'', uf_password := ''p@:/''\<rparr>"
  have g: "graphic ''db''" "graphic ''me''" by code_simp+
  have "graphic []" by (simp add: graphic_def)
  with g trim_graphic [OF g(2)] have "dialog_fields_ok plain_urls mongo_engine 27017 ?f"
    by (simp add: dialog_fields_ok_def ENGINES_def engine_defs no_fields_def plain_urls_def)
  from dialog_url_reaches_driver [OF plain_urls_lower this, of "show_nat 27017"] show ?thesis
    by (auto simp: no_fields_def plain_urls_def)
qed

lemma pct_encode_length: "length (pct_encode keep s) = length s + 2 * length (filter (\<lambda>c. \<not> keep c) s)"
proof (induction s)
  case (Cons c s)
  obtain a b where "hex_byte_upper c = [a, b]" using upper_pair by blast
  with Cons show ?case by simp
qed simp

lemma pct_encode_longer: "\<not> list_all keep s \<Longrightarrow> length s < length (pct_encode keep s)"
  by (auto simp: pct_encode_length list_all_iff filter_empty_conv)

text \<open>
  The Redis driver does not decode: the user and the password typed into the dialog reach it
  with their percent escapes, so that a password that has any reserved character is another one.
\<close>

theorem redis_keeps_escapes:
  assumes "lower_law env" "dialog_fields_ok env redis_engine port f" "uf_extras f = []" "uf_database f = []"
    "uf_username f \<noteq> []" "uf_password f \<noteq> []" "ue_float env (uf_port f) = Some n"
  shows "\<exists>cfg. parse_connection_url env lib m (build_url env f True) = Some (Inr cfg)
    \<and> cc_driver cfg = ''redis''
    \<and> cc_values cfg ''username'' = Some (CfgStr (pct_encode unreserved (uf_username f)))
    \<and> cc_values cfg ''password'' = Some (CfgStr (pct_encode unreserved (uf_password f)))
    \<and> (\<not> list_all unreserved (uf_password f) \<longrightarrow> cc_values cfg ''password'' \<noteq> Some (CfgStr (uf_password f)))"
proof -
  define rest where "rest = url_authority f"
  have "url_scheme redis_engine (uf_tls f) = ''redis://''" by (simp add: url_scheme_def engine_defs)
  then have b: "build_url env f True = ''redis://'' @ rest"
    using scheme_text [OF assms(1-3)] assms(4) by (simp add: rest_def url_path_def)
  have d: "driver_for_url (build_url env f True) = Some ''redis''" unfolding b by (simp add: driver_for_url_def Let_def)
  have s: "split_once_text ''://'' (build_url env f True) = Some (''redis'', rest)"
    unfolding b using split_scheme [of "''redis''" rest] by simp
  obtain ui where ui: "split_userinfo rest = (Some ui, uf_host f @ '':'' @ uf_port f)"
    "split_or (split_once_char (CHR '':'') ui) ui = (pct_encode unreserved (uf_username f), Some (pct_encode unreserved (uf_password f)))"
    using credentials_read [OF assms(2,5)] assms(6) by (auto simp: rest_def)
  have host: "uf_host f \<noteq> []" and port: "CHR '':'' \<notin> set (uf_port f)"
    using assms(2) digit_clean [of port] by (auto simp: dialog_fields_ok_def)
  have hp: "redis_host_port env (uf_host f @ '':'' @ uf_port f) = Inr (uf_host f, Some n)"
    using rsplit_once_last [OF port, of "uf_host f"] host assms(7) by (simp add: redis_host_port_def)
  have "CHR ''?'' \<notin> set rest" "CHR ''#'' \<notin> set rest" "CHR ''/'' \<notin> set rest"
    using assms(2) encoded_clean [of "uf_username f"] encoded_clean [of "uf_password f"] digit_clean [of port]
    by (auto simp: rest_def url_authority_def build_userinfo_def Let_def dialog_fields_ok_def)
  then have t: "takeWhile (\<lambda>c. c \<noteq> CHR ''?'' \<and> c \<noteq> CHR ''#'') rest = rest" "split_or (split_once_char (CHR ''/'') rest) rest = (rest, None)"
    by (auto simp: takeWhile_eq_all_conv split_once_absent split_or_def)
  have u: "pct_encode unreserved (uf_username f) \<noteq> []" using assms(5) by (cases "uf_username f") auto
  have "\<not> list_all unreserved (uf_password f) \<longrightarrow> pct_encode unreserved (uf_password f) \<noteq> uf_password f"
    by (metis pct_encode_longer nat_neq_iff)
  moreover have "parse_redis_url env (build_url env f True) = driver_config ''redis''
      ([''host'' \<mapsto> CfgStr (uf_host f), ''port'' \<mapsto> CfgNum n, ''tls'' \<mapsto> CfgBool False,
        ''username'' \<mapsto> CfgStr (pct_encode unreserved (uf_username f)),
        ''password'' \<mapsto> CfgStr (pct_encode unreserved (uf_password f)), ''db'' \<mapsto> CfgNum ''0''])"
    using host u by (simp add: parse_redis_url_def s t ui hp [simplified] redis_db_def put_some_def Let_def)
  ultimately show ?thesis using d by (simp add: parse_connection_url_def driver_config_def)
qed

lemma redis_keeps_escapes_witness:
  "\<exists>cfg. parse_connection_url plain_urls (\<lambda>d u. Inl (UnknownField [])) oracle_manifest (build_url plain_urls
     (no_fields\<lparr>uf_engine := ''redis'', uf_host := ''db'', uf_port := show_nat 6379, uf_username := ''me'', uf_password := ''p@ss''\<rparr>) True)
     = Some (Inr cfg) \<and> cc_values cfg ''password'' \<noteq> Some (CfgStr ''p@ss'')"
proof -
  let ?f = "no_fields\<lparr>uf_engine := ''redis'', uf_host := ''db'', uf_port := show_nat 6379, uf_username := ''me'', uf_password := ''p@ss''\<rparr>"
  have g: "graphic ''db''" "graphic ''me''" "\<not> unreserved (CHR ''@'')" by code_simp+
  have "graphic []" by (simp add: graphic_def)
  with g trim_graphic [OF g(2)] have "dialog_fields_ok plain_urls redis_engine 6379 ?f"
    by (simp add: dialog_fields_ok_def ENGINES_def engine_defs no_fields_def plain_urls_def)
  from redis_keeps_escapes [OF plain_urls_lower this, of "show_nat 6379"] g(3) show ?thesis
    by (auto simp: no_fields_def plain_urls_def)
qed

text \<open>
  Three things the dialog loses: a password without a user, which is the usual form for Redis; that a
  file path is relative; and the whole dialog, when a percent sign stands before an ASCII and a
  non-ASCII character.
\<close>

lemma dialog_drops_lone_password:
  assumes "trim (uf_username f) = []"
  shows "build_url env f True = build_url env (f\<lparr>uf_password := []\<rparr>) True"
  using assms by (simp add: build_url_def build_userinfo_def Let_def split: option.split)

lemma relative_path_becomes_absolute:
  "parse_sqlite_url env (en_scheme sqlite_engine @ ''/'' @ path) = driver_config ''sqlite'' [''path'' \<mapsto> CfgStr (''/'' @ path)]"
  by (simp add: parse_sqlite_url_def engine_defs strip_prefix_def)

lemma dialog_decode_panics: "dialog_decode env [CHR ''%'', CHR ''a'', CHR 0xC3, CHR 0xA9] = None"
proof -
  have "\<not> is_continuation (CHR ''a'')" "radix16 (CHR ''a'') (CHR 0xC3) = None" "\<not> is_continuation (CHR 0xC3)" "is_continuation (CHR 0xA9)"
    by code_simp+
  then show ?thesis by (simp add: dialog_decode_def)
qed

end
