(* ===== verification/Sidecar_Driver.thy ===== *)
theory Sidecar_Driver
  imports Sidecar_Process Connection_Urls "HOL-Library.AList"
begin

unbundle bit_operations_syntax

text \<open>
  The driver over the pipe (\<open>driver.rs\<close>, \<open>connection.rs\<close>, \<open>cursor.rs\<close> and \<open>canceller.rs\<close> of
  \<open>crates/datagrep-drv-sidecar\<close>): the handshake, the table of processes, the connect frame, queries
  and cursors.  What a call on the link returns is an argument; the readers that \<open>serde\<close> derives for
  the replies are arguments too.
\<close>

section \<open>Handshake\<close>

text \<open>Capabilities are the bits of a \<open>u32\<close>; eighteen are known.\<close>

definition known_caps :: "32 word" where
  "known_caps = 0x3FFFF"

definition caps_from_bits :: "32 word \<Rightarrow> 32 word option" where
  "caps_from_bits bits = (if bits AND known_caps = bits then Some bits else None)"

definition caps_contains :: "32 word \<Rightarrow> 32 word \<Rightarrow> bool" where
  "caps_contains a b = (a AND b = b)"

definition SERVER_CANCEL :: "32 word" where "SERVER_CANCEL = push_bit 4 1"
definition SCHEMA_DECLARED :: "32 word" where "SCHEMA_DECLARED = push_bit 7 1"
definition POSITIONAL_PARAMS :: "32 word" where "POSITIONAL_PARAMS = push_bit 13 1"

record engine_manifest =
  em_id :: string
  em_language :: language_id
  em_flags :: "32 word"

definition ORACLE :: engine_manifest where
  "ORACLE = \<lparr>em_id = ''oracle'', em_language = Unclassified,
     em_flags = SERVER_CANCEL OR SCHEMA_DECLARED OR POSITIONAL_PARAMS\<rparr>"

text \<open>The form \<open>serde\<close> derives for an enum: the name, or an object from the name to the content.\<close>

fun dialect_json :: "sql_dialect \<Rightarrow> json_value" where
  "dialect_json Postgres = JString ''Postgres''"
| "dialect_json Mysql = JString ''Mysql''"
| "dialect_json Sqlite = JString ''Sqlite''"
| "dialect_json Mssql = JString ''Mssql''"
| "dialect_json Clickhouse = JString ''Clickhouse''"
| "dialect_json Duckdb = JString ''Duckdb''"

fun language_json :: "language_id \<Rightarrow> json_value" where
  "language_json (LangSql d) = JObject [(''Sql'', dialect_json d)]"
| "language_json MongoShell = JString ''MongoShell''"
| "language_json RedisCli = JString ''RedisCli''"
| "language_json EsDsl = JString ''EsDsl''"
| "language_json Cypher = JString ''Cypher''"
| "language_json PartiQl = JString ''PartiQl''"
| "language_json Unclassified = JString ''Unclassified''"

record hello_reply =
  he_protocol :: nat
  he_engine :: string
  he_language :: json_value
  he_caps :: "32 word"

text \<open>
  The end of \<open>spawn\<close>: the hello call's result, \<open>None\<close> when it timed out.  A failure kills the process.
\<close>

definition hello_result ::
    "string \<Rightarrow> (json_value \<Rightarrow> string + hello_reply) \<Rightarrow> (db_error \<Rightarrow> string) \<Rightarrow> string \<Rightarrow> reply option \<Rightarrow> db_error + hello_reply"
where
  "hello_result engine read show_error tail r =
     try_bind
       (case r of
          Some (Inr (j, n)) \<Rightarrow>
            (case read j of Inr h \<Rightarrow> Inr h | Inl e \<Rightarrow> Inl (EProtocol (''bad hello reply: '' @ e)))
        | Some (Inl e) \<Rightarrow> Inl (EConnect (engine @ '' engine sidecar did not start: '' @ show_error e))
        | None \<Rightarrow> Inl (EConnect (engine @ '' engine sidecar did not answer within 5s: '' @ tail_excerpt tail)))
       (\<lambda>h. if he_protocol h = 1 then Inr h
            else Inl (EProtocol (''sidecar speaks protocol '' @ show_nat (he_protocol h) @ '', this build speaks 1..=1'')))"

definition check_handshake :: "wire_env \<Rightarrow> engine_manifest \<Rightarrow> hello_reply \<Rightarrow> db_error + unit" where
  "check_handshake env m h =
     (if he_engine h \<noteq> em_id m then
        Inl (EProtocol (''sidecar says it serves `'' @ he_engine h @ ''`, expected `'' @ em_id m @ ''`''))
      else if he_language h \<noteq> language_json (em_language m) then
        Inl (EProtocol (''sidecar declares language '' @ wn_json env (he_language h) @ '', the app pins ''
          @ wn_json env (language_json (em_language m))))
      else (case caps_from_bits (he_caps h) of
              Some caps \<Rightarrow>
                if caps_contains (em_flags m) caps then Inr ()
                else Inl (EProtocol (''sidecar claims capabilities 0x'' @ show_hex (unat (he_caps h))
                  @ '' beyond the manifest's 0x'' @ show_hex (unat (em_flags m))))
            | None \<Rightarrow> Inl (EProtocol (''sidecar claims capabilities 0x'' @ show_hex (unat (he_caps h))
                  @ '' beyond the manifest's 0x'' @ show_hex (unat (em_flags m))))))"

text \<open>
  The table of processes by the fingerprint of their configuration, held weakly: an entry is the
  process, whether a connection still holds it and whether it lives.
\<close>

record engine_process =
  ep_hello :: hello_reply
  ep_held :: bool
  ep_alive :: bool

type_synonym process_table = "(nat \<times> engine_process) list"

definition process_for ::
    "wire_env \<Rightarrow> engine_manifest \<Rightarrow> nat \<Rightarrow> db_error + engine_process \<Rightarrow> process_table \<Rightarrow> (db_error + engine_process) \<times> process_table"
where
  "process_for env m fingerprint spawned procs =
     (let held = filter (\<lambda>(k, p). ep_held p) procs
      in case (case map_of held fingerprint of Some p \<Rightarrow> if ep_alive p then Some p else None | None \<Rightarrow> None) of
           Some p \<Rightarrow> (Inr p, held)
         | None \<Rightarrow>
             (case try_bind spawned (\<lambda>p. try_bind (check_handshake env m (ep_hello p)) (\<lambda>_. Inr p)) of
                Inl e \<Rightarrow> (Inl e, held)
              | Inr p \<Rightarrow> (Inr p, (fingerprint, p) # filter (\<lambda>(k, q). k \<noteq> fingerprint) held)))"

text \<open>The capabilities of a connection.\<close>

definition connection_caps :: "engine_manifest \<Rightarrow> hello_reply \<Rightarrow> 32 word" where
  "connection_caps m h = em_flags m AND (he_caps h AND known_caps)"

definition hello_within :: "engine_manifest \<Rightarrow> hello_reply \<Rightarrow> bool" where
  "hello_within m h \<longleftrightarrow> he_engine h = em_id m \<and> he_language h = language_json (em_language m)
     \<and> caps_contains (em_flags m) (he_caps h)"

lemma check_handshake_within: "check_handshake env m h = Inr () \<Longrightarrow> hello_within m h"
  by (auto simp: check_handshake_def hello_within_def caps_from_bits_def split: if_splits option.splits)

definition table_within :: "engine_manifest \<Rightarrow> process_table \<Rightarrow> bool" where
  "table_within m procs = list_all (\<lambda>(k, p). hello_within m (ep_hello p)) procs"

lemma caps_meet: "caps_contains a b \<Longrightarrow> caps_contains a (a AND (b AND c))"
  by (simp add: caps_contains_def ac_simps)

text \<open>
  C19.  A sidecar may narrow what the manifest grants and never widen it: whatever the processes say,
  every process handed out serves the manifest's engine and language and claims no capability
  beyond it, a connection's capabilities are the manifest's and the sidecar's, and the table keeps
  only such processes.
\<close>

theorem handshake_narrows:
  assumes "table_within m procs" "process_for env m fingerprint spawned procs = (r, procs')"
  shows "table_within m procs'
    \<and> (case r of
         Inr p \<Rightarrow> hello_within m (ep_hello p)
           \<and> caps_contains (em_flags m) (connection_caps m (ep_hello p))
           \<and> caps_contains (he_caps (ep_hello p)) (connection_caps m (ep_hello p))
       | Inl e \<Rightarrow> True)"
proof -
  have held: "table_within m (filter (\<lambda>(k, p). ep_held p) procs)"
    using assms(1) by (auto simp: table_within_def list_all_iff)
  have known: "hello_within m (ep_hello p)" if "map_of (filter (\<lambda>(k, p). ep_held p) procs) fingerprint = Some p" for p
    using held map_of_SomeD [OF that] by (auto simp: table_within_def list_all_iff)
  have caps: "caps_contains (em_flags m) (connection_caps m h)" "caps_contains (he_caps h) (connection_caps m h)" for h
    by (simp_all add: connection_caps_def caps_contains_def ac_simps)
  have fresh: "hello_within m (ep_hello p)"
    if "try_bind spawned (\<lambda>p. try_bind (check_handshake env m (ep_hello p)) (\<lambda>_. Inr p)) = Inr p" for p
    using that check_handshake_within by auto
  show ?thesis
    using assms(2) held known fresh caps
    by (auto simp: process_for_def Let_def table_within_def list_all_iff split: option.splits sum.splits if_splits)
qed

lemma handshake_narrows_witness:
  "hello_within ORACLE \<lparr>he_protocol = 1, he_engine = ''oracle'', he_language = JString ''Unclassified'', he_caps = SERVER_CANCEL\<rparr>"
proof -
  let ?h = "\<lparr>he_protocol = 1, he_engine = ''oracle'', he_language = JString ''Unclassified'', he_caps = SERVER_CANCEL\<rparr>"
  let ?p = "\<lparr>ep_hello = ?h, ep_held = True, ep_alive = True\<rparr>"
  have "process_for sample_wire ORACLE 7 (Inr ?p) [] = (Inr ?p, [(7, ?p)])"
    by (simp add: process_for_def check_handshake_def caps_from_bits_def caps_contains_def ORACLE_def known_caps_def
        SERVER_CANCEL_def SCHEMA_DECLARED_def POSITIONAL_PARAMS_def)
  from handshake_narrows [OF _ this] show ?thesis by (simp add: table_within_def)
qed

section \<open>The connect frame\<close>

definition config_json :: "(string \<times> config_value) list \<Rightarrow> (string \<times> json_value) list" where
  "config_json values =
     map (\<lambda>(k, v). (k, case v of CfgStr s \<Rightarrow> JString s | CfgNum n \<Rightarrow> JNumber (JFloat n) | CfgBool b \<Rightarrow> JBool b)) values"

text \<open>
  Secret fields leave the configuration and travel with the resolved secrets; the texts among them
  are what the process will redact.  A later entry of the same key replaces an earlier one.
\<close>

definition split_secrets ::
    "string list \<Rightarrow> (string \<times> config_value) list \<Rightarrow> (string \<times> string) list
     \<Rightarrow> (string \<times> json_value) list \<times> (string \<times> json_value) list"
where
  "split_secrets secret_keys values resolved =
     (let config = config_json values;
          own = filter (\<lambda>(k, v). k \<in> set secret_keys) config
      in (filter (\<lambda>(k, v). k \<notin> set secret_keys) config,
          fold (\<lambda>(k, s) acc. AList.update k (JString s) acc) resolved own))"

definition secret_values :: "(string \<times> json_value) list \<Rightarrow> string list" where
  "secret_values secrets = List.map_filter (\<lambda>(k, v). json_str v) secrets"

definition json_opt :: "('a \<Rightarrow> json_value) \<Rightarrow> 'a option \<Rightarrow> json_value" where
  "json_opt f v = (case v of None \<Rightarrow> JNull | Some x \<Rightarrow> f x)"

definition connect_params ::
    "nat \<Rightarrow> (string \<times> json_value) list \<times> (string \<times> json_value) list \<Rightarrow> nat option \<Rightarrow> string option \<Rightarrow> json_value"
where
  "connect_params conn cs timeout app =
     JObject [(''conn'', json_of_nat conn), (''config'', JObject (fst cs)), (''secrets'', JObject (snd cs)),
              (''connect_timeout_ms'', json_opt json_of_nat timeout), (''application_name'', json_opt JString app)]"

lemma update_keys: "set (AList.update k v xs) \<subseteq> insert (k, v) (set xs)" "(k, v) \<in> set (AList.update k v xs)"
  by (induction xs) auto

lemma update_keeps: "k' \<noteq> k \<Longrightarrow> (k', v') \<in> set xs \<Longrightarrow> (k', v') \<in> set (AList.update k v xs)"
  by (induction xs) auto

lemma fold_updates:
  assumes "distinct (map fst resolved)" "(k, s) \<in> set resolved"
  shows "(k, JString s) \<in> set (fold (\<lambda>(k, s) acc. AList.update k (JString s) acc) resolved acc)"
  using assms
proof (induction resolved arbitrary: acc)
  case (Cons x xs)
  have keep: "(k, JString s) \<in> set acc \<Longrightarrow> k \<notin> fst ` set ys
      \<Longrightarrow> (k, JString s) \<in> set (fold (\<lambda>(k, s) acc. AList.update k (JString s) acc) ys acc)" for ys acc
    by (induction ys arbitrary: acc) (auto simp: update_keeps)
  show ?case
  proof (cases "x = (k, s)")
    case True
    with Cons.prems keep [of "AList.update k (JString s) acc" xs] show ?thesis by (auto simp: update_keys)
  next
    case False
    with Cons show ?thesis by (cases x) auto
  qed
qed simp

text \<open>
  No field the schema marks secret is left in the configuration part of the connect frame, every
  other field is there unchanged, and every secret text resolved for the profile is among the
  texts the process redacts from errors and its error stream.
\<close>

theorem secrets_leave_config:
  assumes "split_secrets secret_keys values resolved = (config, secrets)" "distinct (map fst resolved)"
  shows "(\<forall>(k, v) \<in> set config. k \<notin> set secret_keys \<and> (k, v) \<in> set (config_json values))
    \<and> (\<forall>(k, v) \<in> set (config_json values). k \<in> set secret_keys \<or> (k, v) \<in> set config)
    \<and> (\<forall>(k, s) \<in> set resolved. (k, JString s) \<in> set secrets \<and> s \<in> set (secret_values secrets))"
proof -
  have c: "config = filter (\<lambda>(k, v). k \<notin> set secret_keys) (config_json values)"
    and s: "secrets = fold (\<lambda>(k, s) acc. AList.update k (JString s) acc) resolved
      (filter (\<lambda>(k, v). k \<in> set secret_keys) (config_json values))"
    using assms(1) by (auto simp: split_secrets_def Let_def)
  have "(k, JString t) \<in> set secrets" if "(k, t) \<in> set resolved" for k t
    unfolding s by (rule fold_updates [OF assms(2) that])
  moreover have "t \<in> set (secret_values secrets)" if "(k, JString t) \<in> set secrets" for k t
    using that by (force simp: secret_values_def List.map_filter_def)
  ultimately show ?thesis unfolding c by auto
qed

lemma secrets_leave_config_witness:
  "split_secrets [''password''] [(''host'', CfgStr ''db''), (''password'', CfgStr ''x'')] [(''password'', ''hunter2'')]
    = ([(''host'', JString ''db'')], [(''password'', JString ''hunter2'')])
   \<and> ''hunter2'' \<in> set (secret_values [(''password'', JString ''hunter2'')])"
proof -
  have e: "split_secrets [''password''] [(''host'', CfgStr ''db''), (''password'', CfgStr ''x'')] [(''password'', ''hunter2'')]
    = ([(''host'', JString ''db'')], [(''password'', JString ''hunter2'')])"
    by (simp add: split_secrets_def config_json_def)
  from secrets_leave_config [OF this] e show ?thesis by simp
qed

section \<open>Requests on a connection\<close>

text \<open>\<open>Link::call\<close> puts the connection into the parameters.\<close>

definition json_put :: "string \<Rightarrow> json_value \<Rightarrow> json_value \<Rightarrow> json_value" where
  "json_put k v j = (case j of JObject obj \<Rightarrow> JObject (AList.update k v obj) | _ \<Rightarrow> j)"

definition link_params :: "nat \<Rightarrow> json_value \<Rightarrow> json_value" where
  "link_params conn params = json_put ''conn'' (json_of_nat conn) params"

definition execute_params :: "wire_env \<Rightarrow> string \<Rightarrow> db_value list \<Rightarrow> exec_opts \<Rightarrow> json_value" where
  "execute_params env txt params opts =
     JObject [(''text'', JString txt), (''params'', JArray (map (encode_tagged env) params)),
              (''timeout_ms'', json_opt json_of_nat (opt_timeout opts)),
              (''row_limit'', json_opt json_of_nat (opt_row_limit opts)),
              (''read_only_assert'', JBool (opt_read_only_assert opts))]"

record sidecar_cursor =
  sc_id :: nat
  sc_shape :: shape
  sc_types :: "logical_type list"
  sc_stats :: cursor_stats
  sc_done :: bool
  sc_closed :: bool

definition cursor_new :: "nat \<Rightarrow> shape \<Rightarrow> sidecar_cursor" where
  "cursor_new cid sh =
     \<lparr>sc_id = cid, sc_shape = sh,
      sc_types = (case sh of ShTable schema \<Rightarrow> map fd_logical (rs_fields schema) | _ \<Rightarrow> []),
      sc_stats = \<lparr>cs_rows = 0, cs_bytes = 0, cs_batches = 0, cs_server_micros = None\<rparr>,
      sc_done = (cid = 0), sc_closed = False\<rparr>"

text \<open>
  \<open>execute\<close>: the call it makes, and what it returns for the call's answer, \<open>None\<close> when the backstop
  timeout fired; then a cancel is sent as well.
\<close>

definition execute_call :: "wire_env \<Rightarrow> nat \<Rightarrow> request \<Rightarrow> db_error + json_value" where
  "execute_call env conn req =
     (case req of
        Native txt params opts \<Rightarrow> Inr (link_params conn (execute_params env txt params opts))
      | Operation _ \<Rightarrow> Inl (EUnsupported ''generated operations on a sidecar engine''))"

definition execute_answer ::
    "(json_value \<Rightarrow> string + (nat \<times> wire_shape)) \<Rightarrow> reply option \<Rightarrow> (db_error + sidecar_cursor) \<times> bool"
where
  "execute_answer read r =
     (case r of
        None \<Rightarrow> (Inl ETimeout, True)
      | Some (Inl e) \<Rightarrow> (Inl e, False)
      | Some (Inr (j, n)) \<Rightarrow>
          (case read j of
             Inl e \<Rightarrow> (Inl (EProtocol (''bad execute reply: '' @ e)), False)
           | Inr (cid, sh) \<Rightarrow> (Inr (cursor_new cid (into_shape sh)), False)))"

section \<open>Cursors\<close>

definition fetch_params :: "nat \<Rightarrow> fetch_hint \<Rightarrow> json_value" where
  "fetch_params cid hint =
     JObject [(''cursor'', json_of_nat cid), (''max_rows'', json_of_nat (fh_max_rows hint)),
              (''max_bytes'', json_of_nat (fh_max_bytes hint)), (''target_ms'', json_of_nat (fh_target_ms hint))]"

definition decode_row :: "wire_env \<Rightarrow> logical_type list \<Rightarrow> json_value list \<Rightarrow> db_error + db_value list" where
  "decode_row env types row =
     (if length row \<noteq> length types then
        Inl (EProtocol (''row of '' @ show_nat (length row) @ '' cells for '' @ show_nat (length types) @ '' columns''))
      else (case try_map (\<lambda>(cell, ty). decode_cell env cell ty) (zip row types) of
              Inl e \<Rightarrow> Inl (EProtocol (''bad cell: '' @ e))
            | Inr cells \<Rightarrow> Inr cells))"

text \<open>\<open>next_batch\<close> for the answer \<open>r\<close> of the fetch; the reader gives the rows of the batch, if any.\<close>

definition next_batch ::
    "wire_env \<Rightarrow> (json_value \<Rightarrow> string + json_value list list option) \<Rightarrow> fetch_hint \<Rightarrow> reply \<Rightarrow> sidecar_cursor
     \<Rightarrow> (db_error + wire_batch option) \<times> sidecar_cursor"
where
  "next_batch env read hint r c =
     (if sc_closed c then (Inl EClosed, c)
      else if sc_done c then (Inr None, c)
      else
        (case r of
           Inl e \<Rightarrow> (Inl e, c)
         | Inr (j, bytes) \<Rightarrow>
             (case read j of
                Inl e \<Rightarrow> (Inl (EProtocol (''bad fetch reply: '' @ e)), c)
              | Inr None \<Rightarrow> (Inr None, c\<lparr>sc_done := True\<rparr>)
              | Inr (Some wire_rows) \<Rightarrow>
                  if max (fh_max_rows hint) 1 < length wire_rows then
                    (Inl (EProtocol (''sidecar returned '' @ show_nat (length wire_rows) @ '' rows for a ''
                       @ show_nat (fh_max_rows hint) @ ''-row fetch'')), c)
                  else
                    (case try_map (decode_row env (sc_types c)) wire_rows of
                       Inl e \<Rightarrow> (Inl e, c)
                     | Inr rows \<Rightarrow>
                         (Inr (Some \<lparr>wb_seq = cs_batches (sc_stats c), wb_payload = PRows rows, wb_deltas = [], wb_notices = []\<rparr>),
                          c\<lparr>sc_stats := (sc_stats c)\<lparr>cs_batches := cs_batches (sc_stats c) + 1,
                              cs_rows := cs_rows (sc_stats c) + length rows,
                              cs_bytes := cs_bytes (sc_stats c) + bytes\<rparr>\<rparr>)))))"

text \<open>
  \<open>close\<close>: whether a \<open>close_cursor\<close> is sent, the result for its answer (\<open>None\<close> when it took longer than
  the grace period, which kills the process), and whether it was killed.
\<close>

definition cursor_close :: "reply option \<Rightarrow> sidecar_cursor \<Rightarrow> (db_error + unit) \<times> bool \<times> bool \<times> sidecar_cursor" where
  "cursor_close r c =
     (let c' = c\<lparr>sc_closed := True\<rparr>
      in if sc_closed c \<or> sc_id c = 0 then (Inr (), False, False, c')
         else (case r of
                 Some (Inr _) \<Rightarrow> (Inr (), True, False, c')
               | Some (Inl e) \<Rightarrow> (Inl e, True, False, c')
               | None \<Rightarrow> (Inl ETimeout, True, True, c')))"

text \<open>The canceller: its kind, and its outcome when the cancel was sent and the requests settled or not.\<close>

definition canceller_kind :: "32 word \<Rightarrow> cancel_kind" where
  "canceller_kind flags = (if caps_contains flags SERVER_CANCEL then ServerSide else ClientAbandon)"

definition cancel_outcome_of :: "cancel_kind \<Rightarrow> db_error + unit \<Rightarrow> bool \<Rightarrow> (db_error + cancel_outcome) \<times> bool" where
  "cancel_outcome_of kind sent settled =
     (case sent of
        Inl e \<Rightarrow> (Inl e, False)
      | Inr _ \<Rightarrow>
          if settled then (Inr (if kind = ServerSide then CancelRequested else ClientAbandoned), False)
          else (Inr ClientAbandoned, True))"

section \<open>What a cursor delivers\<close>

text \<open>An untagged cell has the type of its column, or is null.\<close>

lemma plain_cell_type: "plain_cell env cell lg = Some v \<Longrightarrow> logical_type_of v = Some lg"
  by (auto simp: plain_cell_def decode_timestamp_def decode_interval_def decode_vector_def
      split: logical_type.splits option.splits if_splits list.splits bind_splits)

lemma decode_cell_type:
  assumes "decode_cell env cell lg = Inr v" "\<not> is_tagged cell"
  shows "v = VNull \<or> logical_type_of v = Some lg"
proof (cases "cell = JNull \<or> lg = LArray \<or> lg = LDocument")
  case True
  with assms show ?thesis by (auto simp: decode_cell.simps [of env cell lg] split: if_splits)
next
  case False
  with assms have "or_bad env cell lg (plain_cell env cell lg) = Inr v" by (simp add: decode_cell.simps [of env cell lg])
  then show ?thesis using plain_cell_type by (auto simp: or_bad_def split: option.splits)
qed

definition row_typed :: "wire_env \<Rightarrow> logical_type list \<Rightarrow> json_value list \<Rightarrow> db_value list \<Rightarrow> bool" where
  "row_typed env types cells row \<longleftrightarrow>
     length row = length types
     \<and> (\<forall>i < length types. \<not> is_tagged (cells ! i) \<longrightarrow> row ! i = VNull \<or> logical_type_of (row ! i) = Some (types ! i))"

lemma decode_row_typed: "decode_row env types cells = Inr row \<Longrightarrow> row_typed env types cells row"
  by (auto simp: decode_row_def row_typed_def try_map_Inr list_all2_conv_all_nth split: if_splits sum.splits
      dest!: decode_cell_type)

text \<open>
  C18.  A batch that a sidecar cursor delivers is well typed and no larger than asked for: each row has
  one value per declared column, of the column's type or null unless the sidecar tagged the cell
  with a type of its own, the batch is the next in sequence and the counters add up; when it is
  closed or has ended nothing is delivered.
\<close>

theorem sidecar_batch_typed:
  assumes "next_batch env read hint r c = (Inr (Some b), c')"
  shows "\<exists>j bytes wire_rows rows. r = Inr (j, bytes) \<and> read j = Inr (Some wire_rows) \<and> wb_payload b = PRows rows
    \<and> list_all2 (row_typed env (sc_types c)) wire_rows rows
    \<and> length rows \<le> max (fh_max_rows hint) 1
    \<and> wb_seq b = cs_batches (sc_stats c)
    \<and> cs_batches (sc_stats c') = cs_batches (sc_stats c) + 1
    \<and> cs_rows (sc_stats c') = cs_rows (sc_stats c) + length rows
    \<and> \<not> sc_closed c \<and> \<not> sc_done c \<and> sc_types c' = sc_types c"
proof -
  have typed: "list_all2 (row_typed env (sc_types c)) ws rows \<and> length rows = length ws"
    if "try_map (decode_row env (sc_types c)) ws = Inr rows" for ws rows
    using that unfolding try_map_Inr by (auto intro: list_all2_mono decode_row_typed dest: list_all2_lengthD)
  show ?thesis using assms
    by (auto simp: next_batch_def not_less split: if_splits sum.splits option.splits prod.splits dest!: typed)
qed

lemma sidecar_batch_typed_witness:
  "row_typed sample_wire [LI64, LStr] [JNumber (JPos 7), JNull] [VI64 7, VNull]"
proof -
  let ?sh = "ShTable \<lparr>rs_fields = [\<lparr>fd_name = ''n'', fd_logical = LI64, fd_flags = 0, fd_native = None\<rparr>,
    \<lparr>fd_name = ''s'', fd_logical = LStr, fd_flags = 0, fd_native = None\<rparr>], rs_identity = None\<rparr>"
  let ?hint = "\<lparr>fh_max_rows = 10, fh_max_bytes = 100, fh_target_ms = 5\<rparr>"
  let ?c = "cursor_new 3 ?sh"
  have d: "decode_row sample_wire [LI64, LStr] [JNumber (JPos 7), JNull] = Inr [VI64 7, VNull]"
    by (simp add: decode_row_def decode_cell.simps [of _ "JNumber n" for n] decode_cell.simps [of _ JNull] plain_cell_def or_bad_def)
  obtain b c' where n: "next_batch sample_wire (\<lambda>j. Inr (Some [[JNumber (JPos 7), JNull]])) ?hint (Inr (JNull, 20)) ?c = (Inr (Some b), c')"
    "wb_payload b = PRows [[VI64 7, VNull]]"
    using d by (simp add: next_batch_def cursor_new_def)
  from sidecar_batch_typed [OF n(1)] n(2) show ?thesis by (auto simp: cursor_new_def)
qed

text \<open>A cursor that is closed or done makes no further call and gives nothing more.\<close>

lemma closed_cursor: "sc_closed c \<Longrightarrow> next_batch env read hint r c = (Inl EClosed, c)"
  by (simp add: next_batch_def)

lemma cursor_ends:
  assumes "next_batch env read hint r c = (Inr None, c')"
  shows "next_batch env read hint' r' c' = (Inr None, c')"
  using assms by (auto simp: next_batch_def split: if_splits sum.splits option.splits prod.splits)

section \<open>Catalog\<close>

record object_node =
  on_path :: object_path
  on_kind :: object_kind
  on_has_children :: bool
  on_comment :: "string option"

record object_detail =
  od_node :: object_node
  od_schema :: "row_schema option"
  od_extra :: "(string \<times> string) list"

text \<open>What the readers give for a node and a description.\<close>

record wire_node =
  wo_path :: "string list"
  wo_kind :: object_kind
  wo_has_children :: bool
  wo_comment :: "string option"

record describe_reply =
  dr_node :: wire_node
  dr_fields :: "wire_field list option"
  dr_extra :: "(string \<times> string) list"

definition node_of_wire :: "wire_node \<Rightarrow> object_node" where
  "node_of_wire n =
     \<lparr>on_path = wo_path n, on_kind = wo_kind n, on_has_children = wo_has_children n, on_comment = wo_comment n\<rparr>"

definition detail_of_wire :: "describe_reply \<Rightarrow> object_detail" where
  "detail_of_wire d =
     \<lparr>od_node = node_of_wire (dr_node d),
      od_schema = map_option (\<lambda>fs. \<lparr>rs_fields = map field_of_wire fs, rs_identity = None\<rparr>) (dr_fields d),
      od_extra = dr_extra d\<rparr>"

definition children_params :: "nat \<Rightarrow> object_path \<Rightarrow> string option \<Rightarrow> nat \<Rightarrow> json_value" where
  "children_params conn parent prefix limit =
     link_params conn (JObject [(''path'', path_json parent), (''prefix'', json_opt JString prefix),
                                (''limit'', json_of_nat limit)])"

definition children_answer :: "(json_value \<Rightarrow> string + wire_node list) \<Rightarrow> reply \<Rightarrow> db_error + object_node list" where
  "children_answer read r =
     try_bind r (\<lambda>(j, n).
       case read j of
         Inl e \<Rightarrow> Inl (EProtocol (''bad children reply: '' @ e))
       | Inr items \<Rightarrow> Inr (map node_of_wire items))"

definition describe_answer :: "(json_value \<Rightarrow> string + describe_reply) \<Rightarrow> reply \<Rightarrow> db_error + object_detail" where
  "describe_answer read r =
     try_bind r (\<lambda>(j, n).
       case read j of
         Inl e \<Rightarrow> Inl (EProtocol (''bad describe reply: '' @ e))
       | Inr d \<Rightarrow> Inr (detail_of_wire d))"

end
