(* ===== verification/Pending_Edits.thy ===== *)
theory Pending_Edits
  imports Json_Data Safety_Api
begin

text \<open>
  Edits typed into the grid and not yet committed (\<open>ui/gtk4/src/model/editing.rs\<close>), the values,
  addresses and reports they are made of (\<open>mutation.rs\<close>).  The signal that announces a change has
  no effect on the state and is left out; a result that the sources return for redrawing is kept.
\<close>

section \<open>Values\<close>

datatype mutation_value = MStr string | MI64 int | MF64 f64 | MBool bool | MNull

text \<open>\<open>json!\<close> writes null for a double that is not finite.\<close>

fun abi_json :: "mutation_value \<Rightarrow> json_value" where
  "abi_json (MStr s) = JObject [(''Str'', JString s)]"
| "abi_json (MI64 i) = JObject [(''I64'', json_of_int i)]"
| "abi_json (MF64 d) = JObject [(''F64'', if d \<in> {''NaN'', ''inf'', ''-inf''} then JNull else JNumber (JFloat d))]"
| "abi_json (MBool b) = JObject [(''Bool'', JBool b)]"
| "abi_json MNull = JString ''Null''"

fun mv_display :: "mutation_value \<Rightarrow> string" where
  "mv_display (MStr s) = s"
| "mv_display (MI64 i) = show_int i"
| "mv_display (MF64 d) = d"
| "mv_display (MBool b) = (if b then ''true'' else ''false'')"
| "mv_display MNull = ''NULL''"

fun type_name :: "mutation_value \<Rightarrow> string" where
  "type_name (MStr _) = ''text''"
| "type_name (MI64 _) = ''a whole number''"
| "type_name (MF64 _) = ''a number''"
| "type_name (MBool _) = ''true or false''"
| "type_name MNull = ''empty''"

text \<open>The double nearest to an integer beyond \<open>i64\<close> is an argument.\<close>

fun mv_decode :: "(int \<Rightarrow> f64) \<Rightarrow> json_value \<Rightarrow> mutation_value option" where
  "mv_decode nearest (JString s) = Some (MStr s)"
| "mv_decode nearest JNull = Some MNull"
| "mv_decode nearest (JBool b) = Some (MBool b)"
| "mv_decode nearest (JNumber n) =
     (case number_i64 n of Some i \<Rightarrow> Some (MI64 i) | None \<Rightarrow> Some (MF64 (number_f64 nearest n)))"
| "mv_decode nearest _ = None"

text \<open>The message's quotation marks are U+201C and U+201D.\<close>

definition not_one :: "string \<Rightarrow> string \<Rightarrow> string \<Rightarrow> string" where
  "not_one holds t what =
     ''this field holds '' @ holds @ ''; '' @ [CHR 0xE2, CHR 0x80, CHR 0x9C] @ t
     @ [CHR 0xE2, CHR 0x80, CHR 0x9D] @ '' is '' @ what"

definition typed_like :: "(string \<Rightarrow> f64 option) \<Rightarrow> string \<Rightarrow> mutation_value option \<Rightarrow> string + mutation_value" where
  "typed_like parse_f64 t loaded =
     (let trimmed = trim t
      in case (case loaded of None \<Rightarrow> MNull | Some v \<Rightarrow> v) of
           MStr _ \<Rightarrow> Inr (MStr t)
         | MI64 _ \<Rightarrow>
             (case parse_signed 64 trimmed of
                Some i \<Rightarrow> Inr (MI64 i) | None \<Rightarrow> Inl (not_one ''a whole number'' t ''not one''))
         | MF64 _ \<Rightarrow>
             (case parse_f64 trimmed of
                Some d \<Rightarrow> Inr (MF64 d) | None \<Rightarrow> Inl (not_one ''a number'' t ''not one''))
         | MBool _ \<Rightarrow>
             (let low = map ascii_lower trimmed
              in if low \<in> set [''true'', ''yes'', ''1''] then Inr (MBool True)
                 else if low \<in> set [''false'', ''no'', ''0''] then Inr (MBool False)
                 else Inl (not_one ''true or false'' t ''neither''))
         | MNull \<Rightarrow>
             (if trimmed = ''true'' then Inr (MBool True)
              else if trimmed = ''false'' then Inr (MBool False)
              else (case parse_signed 64 trimmed of
                      Some i \<Rightarrow> Inr (MI64 i)
                    | None \<Rightarrow> (case parse_f64 trimmed of Some d \<Rightarrow> Inr (MF64 d) | None \<Rightarrow> Inr (MStr t)))))"

text \<open>
  An edit never retypes a field: text typed over a loaded value that is not null is refused or
  becomes a value of the same type.
\<close>

theorem edits_keep_type:
  assumes "typed_like parse_f64 t (Some v) = Inr w" "v \<noteq> MNull"
  shows "type_name w = type_name v"
  using assms by (cases v) (auto simp: typed_like_def Let_def split: option.splits if_splits)

lemma edits_keep_type_witness: "type_name (MBool True) = type_name (MBool False)"
proof -
  have "typed_like (\<lambda>_. None) ''YES'' (Some (MBool False)) = Inr (MBool True)" by code_simp
  from edits_keep_type [OF this] show ?thesis by simp
qed

section \<open>Addresses\<close>

type_synonym field_values = "(string \<times> mutation_value) list"

record editable_result =
  er_identity :: "string list"
  er_guard :: "string list"
  er_root :: string
  er_atomic_batch :: bool

record address =
  ad_id :: string
  ad_key :: field_values
  ad_expect :: field_values

text \<open>A field of the envelope that is there, can be shown and is not null.\<close>

definition envelope_value :: "(int \<Rightarrow> f64) \<Rightarrow> json_value \<Rightarrow> string \<Rightarrow> mutation_value option" where
  "envelope_value nearest envelope f =
     (case Option.bind (json_get envelope f) (mv_decode nearest) of
        Some MNull \<Rightarrow> None
      | r \<Rightarrow> r)"

definition unguarded :: "string \<Rightarrow> string" where
  "unguarded f =
     ''this document was loaded without `'' @ f @ ''`, so an edit to it could only be sent unguarded, ''
     @ ''and an unguarded write would overwrite whatever the server holds now''"

definition document_id :: "field_values \<Rightarrow> string" where
  "document_id key = join [CHR 0x01] (map (\<lambda>(f, v). f @ ''='' @ mv_display v) key)"

definition address_of :: "(int \<Rightarrow> f64) \<Rightarrow> editable_result \<Rightarrow> json_value \<Rightarrow> string + address" where
  "address_of nearest er envelope =
     (let key = List.map_filter (\<lambda>f. map_option (\<lambda>v. (f, v)) (envelope_value nearest envelope f)) (er_identity er)
      in if key = [] then
           Inl (''this row carries none of the fields that identify a document (''
             @ join '', '' (er_identity er) @ ''), so there is nothing to address a write to'')
         else try_bind
           (try_map (\<lambda>f. case envelope_value nearest envelope f of
                           None \<Rightarrow> Inl (unguarded f)
                         | Some v \<Rightarrow> Inr (f, v)) (er_guard er))
           (\<lambda>expect. Inr \<lparr>ad_id = document_id key, ad_key = key, ad_expect = expect\<rparr>))"

lemma address_guarded_all:
  assumes "address_of nearest er envelope = Inr a"
  shows "ad_key a \<noteq> [] \<and> map fst (ad_expect a) = er_guard er
    \<and> (\<forall>(f, v) \<in> set (ad_key a). f \<in> set (er_identity er) \<and> envelope_value nearest envelope f = Some v)
    \<and> (\<forall>(f, v) \<in> set (ad_expect a). envelope_value nearest envelope f = Some v \<and> v \<noteq> MNull)"
proof -
  have guard: "map fst es = fs \<and> (\<forall>(f, v) \<in> set es. envelope_value nearest envelope f = Some v)"
    if "try_map (\<lambda>f. case envelope_value nearest envelope f of None \<Rightarrow> Inl (unguarded f) | Some v \<Rightarrow> Inr (f, v)) fs = Inr es"
    for fs es
    using that unfolding try_map_Inr by (induction rule: list_all2_induct) (auto split: option.splits)
  have nonnull: "envelope_value nearest envelope f \<noteq> Some MNull" for f
    by (auto simp: envelope_value_def split: option.splits mutation_value.splits)
  define key where "key = List.map_filter (\<lambda>f. map_option (\<lambda>v. (f, v)) (envelope_value nearest envelope f)) (er_identity er)"
  from assms have k: "key \<noteq> []" "ad_key a = key"
    and e: "try_map (\<lambda>f. case envelope_value nearest envelope f of None \<Rightarrow> Inl (unguarded f) | Some v \<Rightarrow> Inr (f, v)) (er_guard er) = Inr (ad_expect a)"
    by (auto simp: address_of_def Let_def key_def [symmetric] split: if_splits)
  have "\<forall>(f, v) \<in> set key. f \<in> set (er_identity er) \<and> envelope_value nearest envelope f = Some v"
    by (auto simp: key_def List.map_filter_def)
  with k guard [OF e] nonnull show ?thesis by fastforce
qed

lemma address_guarded_key:
  "address_of nearest er envelope = Inr a \<Longrightarrow> ad_key a \<noteq> [] \<and> map fst (ad_expect a) = er_guard er"
  using address_guarded_all by blast

text \<open>
  No edit is addressed without its guard: an address names the document by at least one of its
  identity fields and expects every guard field, in order, at the value the row was loaded with.
\<close>

theorem address_guarded:
  assumes "address_of nearest er envelope = Inr a"
  shows "ad_key a \<noteq> [] \<and> map fst (ad_expect a) = er_guard er
    \<and> (\<forall>(f, v) \<in> set (ad_key a). f \<in> set (er_identity er) \<and> envelope_value nearest envelope f = Some v)
    \<and> (\<forall>(f, v) \<in> set (ad_expect a). envelope_value nearest envelope f = Some v \<and> v \<noteq> MNull)"
  using address_guarded_all [OF assms] .

lemma address_guarded_witness:
  "map fst (ad_expect \<lparr>ad_id = ''_id=a'', ad_key = [(''_id'', MStr ''a'')], ad_expect = [(''_seq_no'', MI64 7)]\<rparr>) = [''_seq_no'']"
proof -
  have "address_of (\<lambda>_. []) \<lparr>er_identity = [''_id'', ''_routing''], er_guard = [''_seq_no''], er_root = [], er_atomic_batch = False\<rparr>
      (JObject [(''_id'', JString ''a''), (''_seq_no'', JNumber (JPos 7))])
    = Inr \<lparr>ad_id = ''_id=a'', ad_key = [(''_id'', MStr ''a'')], ad_expect = [(''_seq_no'', MI64 7)]\<rparr>"
    by (simp add: address_of_def envelope_value_def json_get_def List.map_filter_def document_id_def)
  from address_guarded [OF this] show ?thesis by simp
qed

text \<open>The id is spelled from the displayed key, so a number and the text of it share one.\<close>

lemma ids_collide: "document_id [(''id'', MI64 1)] = document_id [(''id'', MStr ''1'')]"
  by code_simp

section \<open>Staged documents\<close>

datatype staged_state = StPending | StApplied | StConflicted | StFailed | StNotAttempted

record staged_field =
  sf_field :: string
  sf_value :: mutation_value
  sf_loaded :: "mutation_value option"

record staged_document =
  sd_id :: string
  sd_key :: field_values
  sd_expect :: field_values
  sd_row :: nat
  sd_sets :: "staged_field list"
  sd_is_delete :: bool
  sd_state :: staged_state
  sd_message :: string

record document_mutation =
  dm_path :: "string list"
  dm_key :: field_values
  dm_expect :: field_values
  dm_sets :: field_values
  dm_is_delete :: bool

definition is_pending :: "staged_document \<Rightarrow> bool" where
  "is_pending d = (sd_state d \<noteq> StApplied)"

definition is_conflicted :: "staged_document \<Rightarrow> bool" where
  "is_conflicted d = (sd_state d = StConflicted)"

definition value_of :: "staged_document \<Rightarrow> string \<Rightarrow> mutation_value option" where
  "value_of d f = map_option sf_value (find (\<lambda>s. sf_field s = f) (sd_sets d))"

definition mutation_of :: "staged_document \<Rightarrow> document_mutation" where
  "mutation_of d =
     \<lparr>dm_path = [], dm_key = sd_key d, dm_expect = sd_expect d,
      dm_sets = (if sd_is_delete d then [] else map (\<lambda>s. (sf_field s, sf_value s)) (sd_sets d)),
      dm_is_delete = sd_is_delete d\<rparr>"

definition title :: "staged_document \<Rightarrow> string" where
  "title d = join ''  '' (map (\<lambda>(f, v). f @ ''='' @ mv_display v) (sd_key d))"

section \<open>The set of edits\<close>

record pending_edits =
  pe_docs :: "staged_document list"
  pe_rows :: "nat \<rightharpoonup> string"

definition edits_new :: pending_edits where
  "edits_new = \<lparr>pe_docs = [], pe_rows = Map.empty\<rparr>"

definition index_of :: "pending_edits \<Rightarrow> string \<Rightarrow> nat option" where
  "index_of e i = find_index (\<lambda>d. sd_id d = i) (pe_docs e)"

definition index_of_row :: "pending_edits \<Rightarrow> nat \<Rightarrow> nat option" where
  "index_of_row e row = Option.bind (pe_rows e row) (index_of e)"

definition with_row :: "pending_edits \<Rightarrow> nat \<Rightarrow> staged_document option" where
  "with_row e row = Option.bind (pe_rows e row) (\<lambda>i. find (\<lambda>d. sd_id d = i) (pe_docs e))"

definition is_staged :: "pending_edits \<Rightarrow> nat \<Rightarrow> bool" where
  "is_staged e row = (with_row e row \<noteq> None)"

definition is_deleted :: "pending_edits \<Rightarrow> nat \<Rightarrow> bool" where
  "is_deleted e row = (case with_row e row of None \<Rightarrow> False | Some d \<Rightarrow> sd_is_delete d)"

definition pending :: "pending_edits \<Rightarrow> staged_document list" where
  "pending e = filter is_pending (pe_docs e)"

definition conflicted :: "pending_edits \<Rightarrow> staged_document list" where
  "conflicted e = filter is_conflicted (pe_docs e)"

definition fresh_document :: "address \<Rightarrow> nat \<Rightarrow> staged_document" where
  "fresh_document a row =
     \<lparr>sd_id = ad_id a, sd_key = ad_key a, sd_expect = ad_expect a, sd_row = row, sd_sets = [],
      sd_is_delete = False, sd_state = StPending, sd_message = []\<rparr>"

definition existing :: "pending_edits \<Rightarrow> address \<Rightarrow> nat \<Rightarrow> staged_document" where
  "existing e a row =
     (case index_of e (ad_id a) of Some k \<Rightarrow> pe_docs e ! k | None \<Rightarrow> fresh_document a row)"

definition put_document :: "pending_edits \<Rightarrow> staged_document \<Rightarrow> nat \<Rightarrow> pending_edits" where
  "put_document e d row =
     \<lparr>pe_docs = (case index_of e (sd_id d) of
                   Some k \<Rightarrow> (pe_docs e)[k := d] | None \<Rightarrow> pe_docs e @ [d]),
      pe_rows = (pe_rows e)(row \<mapsto> sd_id d)\<rparr>"

text \<open>The value a field was first typed over is kept when it is typed again.\<close>

definition set_field ::
  "string \<Rightarrow> mutation_value \<Rightarrow> mutation_value option \<Rightarrow> staged_field list \<Rightarrow> staged_field list" where
  "set_field f v loaded sets =
     (case find_index (\<lambda>s. sf_field s = f) sets of
        Some k \<Rightarrow> sets[k := (sets ! k)\<lparr>sf_value := v\<rparr>]
      | None \<Rightarrow> sets @ [\<lparr>sf_field = f, sf_value = v, sf_loaded = loaded\<rparr>])"

definition touch :: "staged_document \<Rightarrow> staged_document" where
  "touch d = d\<lparr>sd_state := StPending, sd_message := []\<rparr>"

definition stage ::
  "pending_edits \<Rightarrow> address \<Rightarrow> nat \<Rightarrow> string \<Rightarrow> mutation_value \<Rightarrow> mutation_value option \<Rightarrow> pending_edits" where
  "stage e a row f v loaded =
     (let d = existing e a row
      in put_document e (touch (d\<lparr>sd_sets := set_field f v loaded (sd_sets d)\<rparr>)) row)"

definition stage_delete :: "pending_edits \<Rightarrow> address \<Rightarrow> nat \<Rightarrow> pending_edits" where
  "stage_delete e a row = put_document e (touch ((existing e a row)\<lparr>sd_is_delete := True\<rparr>)) row"

definition drop_field :: "string \<Rightarrow> staged_document \<Rightarrow> staged_document" where
  "drop_field f d = d\<lparr>sd_sets := filter (\<lambda>s. sf_field s \<noteq> f) (sd_sets d)\<rparr>"

definition unstage :: "pending_edits \<Rightarrow> nat \<Rightarrow> string \<Rightarrow> pending_edits" where
  "unstage e row f =
     (case index_of_row e row of
        None \<Rightarrow> e
      | Some k \<Rightarrow>
          (let d = drop_field f (pe_docs e ! k)
           in if sd_sets d = [] \<and> \<not> sd_is_delete d
              then \<lparr>pe_docs = remove_at k (pe_docs e), pe_rows = (pe_rows e)(row := None)\<rparr>
              else e\<lparr>pe_docs := (pe_docs e)[k := d]\<rparr>))"

definition discard_row :: "pending_edits \<Rightarrow> nat \<Rightarrow> pending_edits" where
  "discard_row e row =
     \<lparr>pe_docs = (case index_of_row e row of Some k \<Rightarrow> remove_at k (pe_docs e) | None \<Rightarrow> pe_docs e),
      pe_rows = (pe_rows e)(row := None)\<rparr>"

definition discard_all :: "pending_edits \<Rightarrow> pending_edits" where
  "discard_all e = (if pe_docs e = [] then e else edits_new)"

text \<open>The documents taken out and the empty set left behind.\<close>

definition take_all :: "pending_edits \<Rightarrow> staged_document list \<times> pending_edits" where
  "take_all e = (pe_docs e, edits_new)"

definition restore_all :: "pending_edits \<Rightarrow> staged_document list \<Rightarrow> pending_edits" where
  "restore_all e ds = \<lparr>pe_docs = ds, pe_rows = map_of (rev (map (\<lambda>d. (sd_row d, sd_id d)) ds))\<rparr>"

definition rebase :: "pending_edits \<Rightarrow> string \<Rightarrow> field_values \<Rightarrow> pending_edits \<times> nat option" where
  "rebase e i expect =
     (case index_of e i of
        None \<Rightarrow> (e, None)
      | Some k \<Rightarrow>
          (e\<lparr>pe_docs := (pe_docs e)[k := touch ((pe_docs e ! k)\<lparr>sd_expect := expect\<rparr>)]\<rparr>,
           Some (sd_row (pe_docs e ! k))))"

definition discard_by_id :: "pending_edits \<Rightarrow> string \<Rightarrow> pending_edits \<times> nat option" where
  "discard_by_id e i =
     (case index_of e i of
        None \<Rightarrow> (e, None)
      | Some k \<Rightarrow>
          (let row = sd_row (pe_docs e ! k)
           in (\<lparr>pe_docs = remove_at k (pe_docs e), pe_rows = (pe_rows e)(row := None)\<rparr>, Some row)))"

record staged_counts =
  sc_pending :: nat
  sc_written :: nat
  sc_updates :: nat
  sc_deletes :: nat
  sc_conflicts :: nat

text \<open>The counters are \<open>u32\<close>; a batch of four thousand million documents is not reached.\<close>

fun count_document :: "staged_document \<Rightarrow> staged_counts \<Rightarrow> staged_counts" where
  "count_document d c =
     (let c1 = (if is_pending d then
                  let c0 = c\<lparr>sc_pending := sc_pending c + 1\<rparr>
                  in if sd_is_delete d then c0\<lparr>sc_deletes := sc_deletes c0 + 1\<rparr>
                     else c0\<lparr>sc_updates := sc_updates c0 + 1\<rparr>
                else c\<lparr>sc_written := sc_written c + 1\<rparr>)
      in if is_conflicted d then c1\<lparr>sc_conflicts := sc_conflicts c1 + 1\<rparr> else c1)"

definition counts :: "pending_edits \<Rightarrow> staged_counts" where
  "counts e = fold count_document (pe_docs e) \<lparr>sc_pending = 0, sc_written = 0, sc_updates = 0, sc_deletes = 0, sc_conflicts = 0\<rparr>"

section \<open>Reports\<close>

definition member_text :: "json_value \<Rightarrow> string \<Rightarrow> string" where
  "member_text j k = (case Option.bind (json_get j k) json_str of Some s \<Rightarrow> s | None \<Rightarrow> [])"

definition member_flag :: "json_value \<Rightarrow> string \<Rightarrow> bool" where
  "member_flag j k = (Option.bind (json_get j k) json_bool = Some True)"

definition member_count :: "json_value \<Rightarrow> string \<Rightarrow> nat" where
  "member_count j k = (case Option.bind (json_get j k) json_u64 of Some n \<Rightarrow> n mod 2 ^ 32 | None \<Rightarrow> 0)"

definition member_strings :: "json_value \<Rightarrow> string \<Rightarrow> string list" where
  "member_strings j k =
     (case Option.bind (json_get j k) json_array of
        Some js \<Rightarrow> List.map_filter json_str js
      | None \<Rightarrow> [])"

definition read_editable :: "json_value \<Rightarrow> editable_result" where
  "read_editable j =
     \<lparr>er_identity = member_strings j ''identity'', er_guard = member_strings j ''guard'',
      er_root = member_text j ''root'', er_atomic_batch = member_flag j ''atomic_batch''\<rparr>"

datatype mutation_outcome = MoApplied | MoFailed | MoNotAttempted

record mutation_row =
  mr_op :: string
  mr_index :: string
  mr_document_id :: string
  mr_routing :: string
  mr_outcome :: mutation_outcome
  mr_seq_no :: "int option"
  mr_primary_term :: "int option"
  mr_conflict :: bool
  mr_error_code :: string
  mr_error :: string
  mr_forced_refresh :: bool

record mutation_notice =
  mn_severity :: string
  mn_code :: string
  mn_message :: string

record mutation_report =
  rp_rows :: "mutation_row list"
  rp_notices :: "mutation_notice list"
  rp_applied :: nat
  rp_failed :: nat
  rp_not_attempted :: nat
  rp_conflicts :: nat

definition is_clean :: "mutation_report \<Rightarrow> bool" where
  "is_clean r = (rp_failed r = 0 \<and> rp_not_attempted r = 0)"

definition outcome_of :: "string \<Rightarrow> mutation_outcome" where
  "outcome_of s = (if s = ''applied'' then MoApplied else if s = ''not attempted'' then MoNotAttempted else MoFailed)"

definition decode_report_row :: "json_value \<Rightarrow> mutation_row" where
  "decode_report_row j =
     \<lparr>mr_op = (if member_text j ''op'' = [] then ''?'' else member_text j ''op''),
      mr_index = member_text j ''_index'', mr_document_id = member_text j ''_id'',
      mr_routing = member_text j ''_routing'', mr_outcome = outcome_of (member_text j ''outcome''),
      mr_seq_no = Option.bind (json_get j ''_seq_no'') json_i64,
      mr_primary_term = Option.bind (json_get j ''_primary_term'') json_i64,
      mr_conflict = member_flag j ''conflict'', mr_error_code = member_text j ''error_code'',
      mr_error = member_text j ''error'', mr_forced_refresh = member_flag j ''forced_refresh''\<rparr>"

definition decode_notice :: "json_value \<Rightarrow> mutation_notice option" where
  "decode_notice j =
     (if member_text j ''message'' = [] then None
      else Some \<lparr>mn_severity = (if member_text j ''severity'' = [] then ''info'' else member_text j ''severity''),
                 mn_code = member_text j ''code'', mn_message = member_text j ''message''\<rparr>)"

text \<open>The library's parser is an argument; it answers with its error's text.\<close>

definition decode_report :: "(string \<Rightarrow> string + json_value) \<Rightarrow> string \<Rightarrow> string + mutation_report" where
  "decode_report from_str text =
     (case from_str text of
        Inl err \<Rightarrow> Inl (''the mutation report was not an object: '' @ err)
      | Inr j \<Rightarrow>
          if json_object j = None then Inl (''the mutation report was not an object: '' @ text)
          else (let rows = Option.bind (json_get j ''rows'') json_array;
                    notices = Option.bind (json_get j ''notices'') json_array;
                    summary = (case json_get j ''summary'' of Some s \<Rightarrow> s | None \<Rightarrow> JNull)
                in Inr \<lparr>rp_rows = (case rows of Some rs \<Rightarrow> map decode_report_row rs | None \<Rightarrow> []),
                        rp_notices = (case notices of Some ns \<Rightarrow> List.map_filter decode_notice ns | None \<Rightarrow> []),
                        rp_applied = member_count summary ''applied'', rp_failed = member_count summary ''failed'',
                        rp_not_attempted = member_count summary ''not_attempted'',
                        rp_conflicts = member_count summary ''conflicts''\<rparr>))"

text \<open>What one row of a report makes of the document at its position.\<close>

definition fold_row :: "mutation_row \<Rightarrow> staged_document \<Rightarrow> staged_document" where
  "fold_row r d =
     (case mr_outcome r of
        MoApplied \<Rightarrow> d\<lparr>sd_state := StApplied, sd_message := []\<rparr>
      | MoNotAttempted \<Rightarrow> d\<lparr>sd_state := StNotAttempted, sd_message := []\<rparr>
      | MoFailed \<Rightarrow> d\<lparr>sd_state := if mr_conflict r then StConflicted else StFailed,
                      sd_message := if mr_error r = [] then ''the write failed'' else mr_error r\<rparr>)"

definition apply_row :: "string \<times> mutation_row \<Rightarrow> pending_edits \<Rightarrow> pending_edits" where
  "apply_row p e =
     (case index_of e (fst p) of
        None \<Rightarrow> e
      | Some k \<Rightarrow> e\<lparr>pe_docs := (pe_docs e)[k := fold_row (snd p) (pe_docs e ! k)]\<rparr>)"

definition apply_report :: "pending_edits \<Rightarrow> mutation_report \<Rightarrow> string list \<Rightarrow> pending_edits \<times> bool" where
  "apply_report e report committed =
     (if length (rp_rows report) \<noteq> length committed then (e, False)
      else (fold apply_row (zip committed (rp_rows report)) e, True))"

section \<open>Conflicts\<close>

datatype server_value = SvValue mutation_value | SvNested string | SvMissing

definition sv_decode :: "(int \<Rightarrow> f64) \<Rightarrow> json_value \<Rightarrow> server_value" where
  "sv_decode nearest j =
     (case mv_decode nearest j of
        Some v \<Rightarrow> SvValue v
      | None \<Rightarrow> SvNested (case j of JArray _ \<Rightarrow> ''an array'' | JObject _ \<Rightarrow> ''an object''
                           | _ \<Rightarrow> ''a value this view cannot show''))"

fun sv_mutation_value :: "server_value \<Rightarrow> mutation_value option" where
  "sv_mutation_value (SvValue v) = Some v"
| "sv_mutation_value _ = None"

record server_document =
  sv_found :: bool
  sv_error :: string
  sv_envelope :: "string \<rightharpoonup> server_value"
  sv_fields :: "string \<rightharpoonup> server_value"

definition server_map :: "(int \<Rightarrow> f64) \<Rightarrow> json_value \<Rightarrow> string \<Rightarrow> (string \<rightharpoonup> server_value)" where
  "server_map nearest j k =
     (case Option.bind (json_get j k) json_object of
        Some members \<Rightarrow> (\<lambda>f. map_option (sv_decode nearest) (map_of members f))
      | None \<Rightarrow> Map.empty)"

definition decode_all ::
  "(int \<Rightarrow> f64) \<Rightarrow> (string \<Rightarrow> string + json_value) \<Rightarrow> string \<Rightarrow> string + server_document list" where
  "decode_all nearest from_str text =
     (case from_str text of
        Inl err \<Rightarrow> Inl (''the re-read was not a document list: '' @ err)
      | Inr j \<Rightarrow>
          (case Option.bind (json_get j ''documents'') json_array of
             None \<Rightarrow> Inl (''the re-read was not a document list: '' @ text)
           | Some ds \<Rightarrow> Inr (map (\<lambda>d. \<lparr>sv_found = member_flag d ''found'', sv_error = member_text d ''error'',
                sv_envelope = server_map nearest d ''envelope'', sv_fields = server_map nearest d ''fields''\<rparr>) ds)))"

record conflict_field =
  cf_name :: string
  cf_loaded :: "mutation_value option"
  cf_server :: server_value
  cf_typed :: mutation_value

definition moved_underneath :: "conflict_field \<Rightarrow> bool" where
  "moved_underneath c =
     (case cf_server c of
        SvValue now \<Rightarrow> cf_loaded c \<noteq> Some now
      | SvNested _ \<Rightarrow> True
      | SvMissing \<Rightarrow> cf_loaded c \<noteq> None)"

record conflict_document =
  cd_id :: string
  cd_title :: string
  cd_fields :: "conflict_field list"
  cd_is_delete :: bool
  cd_rebase_guard :: field_values
  cd_can_rebase :: bool
  cd_gone :: bool
  cd_error :: string

definition contested :: "conflict_document \<Rightarrow> nat" where
  "contested d = length (filter moved_underneath (cd_fields d))"

text \<open>Collecting options: one that is missing makes the whole missing.\<close>

fun collect_options :: "'a option list \<Rightarrow> 'a list option" where
  "collect_options [] = Some []"
| "collect_options (None # xs) = None"
| "collect_options (Some x # xs) = map_option ((#) x) (collect_options xs)"

definition rebase_guard_of :: "editable_result \<Rightarrow> server_document \<Rightarrow> field_values" where
  "rebase_guard_of er now =
     (case collect_options (map (\<lambda>f. map_option (\<lambda>v. (f, v))
            (Option.bind (sv_envelope now f) sv_mutation_value)) (er_guard er)) of
        Some guard \<Rightarrow> if sv_found now \<and> guard \<noteq> [] then guard else []
      | None \<Rightarrow> [])"

definition review_document :: "editable_result \<Rightarrow> staged_document \<times> server_document \<Rightarrow> conflict_document" where
  "review_document er p =
     (let staged = fst p; now = snd p; guard = rebase_guard_of er now
      in \<lparr>cd_id = sd_id staged, cd_title = title staged,
          cd_fields = map (\<lambda>s. \<lparr>cf_name = sf_field s, cf_loaded = sf_loaded s,
             cf_server = (case sv_fields now (sf_field s) of Some v \<Rightarrow> v | None \<Rightarrow> SvMissing),
             cf_typed = sf_value s\<rparr>) (sd_sets staged),
          cd_is_delete = sd_is_delete staged, cd_rebase_guard = guard, cd_can_rebase = (guard \<noteq> []),
          cd_gone = (\<not> sv_found now \<and> sv_error now = []), cd_error = sv_error now\<rparr>)"

definition build_review ::
  "staged_document list \<Rightarrow> server_document list \<Rightarrow> editable_result \<Rightarrow> conflict_document list" where
  "build_review ds server er = map (review_document er) (zip ds server)"

definition review_find :: "conflict_document list \<Rightarrow> string \<Rightarrow> conflict_document option" where
  "review_find ds i = find (\<lambda>d. cd_id d = i) ds"

text \<open>\<open>resolve_conflict\<close> of the window: the edit is discarded, or staged again under the version
  the review was shown, or left alone when there is none.\<close>

definition resolve_conflict ::
  "conflict_document list \<Rightarrow> pending_edits \<Rightarrow> string \<Rightarrow> bool \<Rightarrow> pending_edits \<times> bool" where
  "resolve_conflict review e i rebasing =
     (if \<not> rebasing then (fst (discard_by_id e i), True)
      else case review_find review i of
             Some d \<Rightarrow> if cd_can_rebase d then (fst (rebase e i (cd_rebase_guard d)), True) else (e, False)
           | None \<Rightarrow> (e, False))"

section \<open>The batch sent to the engine\<close>

definition pairs :: "field_values \<Rightarrow> json_value" where
  "pairs fvs = JArray (map (\<lambda>(f, v). JArray [JArray [JObject [(''Field'', JString f)]], abi_json v]) fvs)"

definition mutation_json :: "document_mutation \<Rightarrow> json_value" where
  "mutation_json m =
     (let body = [(''path'', JArray (map JString (dm_path m))), (''key'', pairs (dm_key m)),
                  (''expect'', pairs (dm_expect m))]
      in if dm_is_delete m then JObject [(''Delete'', JObject body)]
         else JObject [(''Update'', JObject (body @ [(''sets'', pairs (dm_sets m))]))])"

text \<open>What is sent is text; \<open>to_text\<close> is the printer of \<open>serde_json\<close>.\<close>

definition mutation_batch_json :: "(json_value \<Rightarrow> string) \<Rightarrow> document_mutation list \<Rightarrow> string" where
  "mutation_batch_json to_text ms = to_text (JObject [(''mutations'', JArray (map mutation_json ms))])"

definition document_address_batch_json :: "(json_value \<Rightarrow> string) \<Rightarrow> field_values list \<Rightarrow> string" where
  "document_address_batch_json to_text keys =
     to_text (JObject [(''documents'', JArray (map (\<lambda>k. JObject [(''key'', pairs k)]) keys))])"

text \<open>
  The engine's side: what \<open>serde\<close> derives for the mutations of \<open>crates/datagrep-api/src/request.rs\<close>.
  A value is its tag and its content; tags the grid never writes are read by \<open>rest\<close>.  The text is
  parsed by \<open>from_str\<close>; \<open>None\<close> stands for the refusal of \<open>datagrep_mutate\<close>, whether it is the parser
  that fails or the shape.
\<close>

definition read_tagged :: "(int \<Rightarrow> f64) \<Rightarrow> (json_value \<Rightarrow> db_value option) \<Rightarrow> json_value \<Rightarrow> db_value option" where
  "read_tagged nearest rest j =
     (case j of
        JString s \<Rightarrow> if s = ''Null'' then Some VNull else rest j
      | JObject [(tag, x)] \<Rightarrow>
          if tag = ''Str'' then map_option VStr (json_str x)
          else if tag = ''I64'' then map_option VI64 (json_i64 x)
          else if tag = ''F64'' then (case x of JNumber n \<Rightarrow> Some (VF64 (number_f64 nearest n)) | _ \<Rightarrow> None)
          else if tag = ''Bool'' then map_option VBool (json_bool x)
          else rest j
      | _ \<Rightarrow> rest j)"

definition read_segment :: "json_value \<Rightarrow> path_seg option" where
  "read_segment j =
     (case j of
        JObject [(tag, x)] \<Rightarrow>
          if tag = ''Field'' then map_option PField (json_str x)
          else if tag = ''Index'' then map_option PIndex (json_u64 x) else None
      | _ \<Rightarrow> None)"

definition read_list :: "(json_value \<Rightarrow> 'a option) \<Rightarrow> json_value \<Rightarrow> 'a list option" where
  "read_list f j = Option.bind (json_array j) (\<lambda>js. collect_options (map f js))"

definition read_pair ::
  "(int \<Rightarrow> f64) \<Rightarrow> (json_value \<Rightarrow> db_value option) \<Rightarrow> json_value \<Rightarrow> (path_seg list \<times> db_value) option" where
  "read_pair nearest rest j =
     (case j of
        JArray [p, v] \<Rightarrow> Option.bind (read_list read_segment p) (\<lambda>path.
                           map_option (\<lambda>x. (path, x)) (read_tagged nearest rest v))
      | _ \<Rightarrow> None)"

definition read_member :: "(json_value \<Rightarrow> 'a option) \<Rightarrow> 'a option \<Rightarrow> json_value \<Rightarrow> string \<Rightarrow> 'a option" where
  "read_member f missing j k = (case json_get j k of Some x \<Rightarrow> f x | None \<Rightarrow> missing)"

definition read_mutation ::
  "(int \<Rightarrow> f64) \<Rightarrow> (json_value \<Rightarrow> db_value option) \<Rightarrow> json_value \<Rightarrow> mutation option" where
  "read_mutation nearest rest j =
     (let ps = read_list (read_pair nearest rest);
          path_of = (\<lambda>b. read_member (read_list json_str) None b ''path'');
          key_of = (\<lambda>b. read_member ps None b ''key'');
          expect_of = (\<lambda>b. read_member ps (Some []) b ''expect'')
      in case j of
           JObject [(tag, b)] \<Rightarrow>
             if tag = ''Update'' then
               Option.bind (path_of b) (\<lambda>path. Option.bind (key_of b) (\<lambda>key.
                 Option.bind (read_member ps None b ''sets'') (\<lambda>sets.
                   map_option (MUpdate path key sets) (expect_of b))))
             else if tag = ''Insert'' then
               Option.bind (path_of b) (\<lambda>path.
                 map_option (MInsert path) (read_member (read_tagged nearest rest) None b ''doc''))
             else if tag = ''Delete'' then
               Option.bind (path_of b) (\<lambda>path. Option.bind (key_of b) (\<lambda>key.
                 map_option (MDelete path key) (expect_of b)))
             else None
         | _ \<Rightarrow> None)"

definition read_batch ::
  "(int \<Rightarrow> f64) \<Rightarrow> (json_value \<Rightarrow> db_value option) \<Rightarrow> (string \<Rightarrow> string + json_value) \<Rightarrow> string
   \<Rightarrow> mutation list option" where
  "read_batch nearest rest from_str text =
     (case from_str text of
        Inl err \<Rightarrow> None
      | Inr j \<Rightarrow> read_member (read_list (read_mutation nearest rest)) None j ''mutations'')"

text \<open>What a staged document asks of the engine, when \<open>f\<close> is what becomes of its doubles.\<close>

fun engine_value :: "(f64 \<Rightarrow> f64) \<Rightarrow> mutation_value \<Rightarrow> db_value" where
  "engine_value f (MStr s) = VStr s"
| "engine_value f (MI64 i) = VI64 i"
| "engine_value f (MF64 d) = VF64 (f d)"
| "engine_value f (MBool b) = VBool b"
| "engine_value f MNull = VNull"

definition engine_pairs :: "(f64 \<Rightarrow> f64) \<Rightarrow> field_values \<Rightarrow> (path_seg list \<times> db_value) list" where
  "engine_pairs f fvs = map (\<lambda>(k, v). ([PField k], engine_value f v)) fvs"

definition asked_of_engine :: "(f64 \<Rightarrow> f64) \<Rightarrow> staged_document \<Rightarrow> mutation" where
  "asked_of_engine f d =
     (if sd_is_delete d then MDelete [] (engine_pairs f (sd_key d)) (engine_pairs f (sd_expect d))
      else MUpdate [] (engine_pairs f (sd_key d))
             (engine_pairs f (map (\<lambda>s. (sf_field s, sf_value s)) (sd_sets d))) (engine_pairs f (sd_expect d)))"

text \<open>Values JSON text can carry: integers of 64 bits, finite doubles that the reader takes, texts.\<close>

fun sendable :: "(f64 \<Rightarrow> f64 option) \<Rightarrow> mutation_value \<Rightarrow> bool" where
  "sendable reread (MI64 i) = (- (2 ^ 63) \<le> i \<and> i < 2 ^ 63)"
| "sendable reread (MF64 d) = (d \<notin> {''NaN'', ''inf'', ''-inf''} \<and> reread d \<noteq> None)"
| "sendable reread (MStr s) = utf8 s"
| "sendable reread _ = True"

definition sendable_pairs :: "(f64 \<Rightarrow> f64 option) \<Rightarrow> field_values \<Rightarrow> bool" where
  "sendable_pairs reread fvs = (\<forall>(k, v) \<in> set fvs. utf8 k \<and> sendable reread v)"

definition document_values :: "staged_document \<Rightarrow> field_values" where
  "document_values d = sd_key d @ sd_expect d @ map (\<lambda>s. (sf_field s, sf_value s)) (sd_sets d)"

lemma collect_options_map: "(\<And>x. x \<in> set xs \<Longrightarrow> f x = Some (g x)) \<Longrightarrow> collect_options (map f xs) = Some (map g xs)"
  by (induction xs) auto

lemma read_tagged_abi:
  "sendable reread v \<Longrightarrow> read_tagged nearest rest (map_doubles f (abi_json v)) = Some (engine_value f v)"
  by (cases v) (simp_all add: read_tagged_def)

lemma read_pairs:
  assumes "sendable_pairs reread fvs"
  shows "read_list (read_pair nearest rest) (map_doubles f (pairs fvs)) = Some (engine_pairs f fvs)"
proof -
  have "read_pair nearest rest (map_doubles f (JArray [JArray [JObject [(''Field'', JString k)]], abi_json v]))
      = Some ([PField k], engine_value f v)" if "(k, v) \<in> set fvs" for k v
    using that assms read_tagged_abi [of reread v nearest rest f]
    by (auto simp: sendable_pairs_def read_pair_def read_list_def read_segment_def)
  then show ?thesis
    by (auto simp: read_list_def pairs_def engine_pairs_def comp_def split_beta intro!: collect_options_map)
qed

lemma sendable_document:
  "sendable_pairs reread (document_values d) \<longleftrightarrow>
     sendable_pairs reread (sd_key d) \<and> sendable_pairs reread (sd_expect d)
     \<and> sendable_pairs reread (map (\<lambda>s. (sf_field s, sf_value s)) (sd_sets d))"
  by (auto simp: sendable_pairs_def document_values_def)

lemma read_mutation_of:
  assumes "sendable_pairs reread (document_values d)"
  shows "read_mutation nearest rest (map_doubles f (mutation_json (mutation_of d))) = Some (asked_of_engine f d)"
  using assms read_pairs [of reread _ nearest rest f] unfolding sendable_document
  by (simp add: read_mutation_def mutation_json_def mutation_of_def asked_of_engine_def Let_def
      read_member_def json_get_def read_list_def [of json_str])

text \<open>The batch is within what the reader takes: well formed and eight levels deep.\<close>

lemma utf8_names:
  "utf8 ''Field''" "utf8 ''Str''" "utf8 ''I64''" "utf8 ''F64''" "utf8 ''Bool''" "utf8 ''Null''" "utf8 ''mutations''"
  "utf8 ''Update''" "utf8 ''Delete''" "utf8 ''path''" "utf8 ''key''" "utf8 ''expect''" "utf8 ''sets''"
  by code_simp+

lemma abi_plain: "sendable reread v \<Longrightarrow> plain_json reread (abi_json v)"
  by (cases v) (simp_all add: json_of_int_def nat_less_iff utf8_names del: utf8.simps)

lemma abi_depth: "json_depth (abi_json v) \<le> 1"
  by (cases v) (simp_all add: json_of_int_def)

lemma pair_plain:
  assumes "utf8 k" "sendable reread v"
  shows "plain_json reread (JArray [JArray [JObject [(''Field'', JString k)]], abi_json v])
    \<and> json_depth (JArray [JArray [JObject [(''Field'', JString k)]], abi_json v]) \<le> 3"
  using assms abi_plain [OF assms(2)] abi_depth [of v] by (simp add: utf8_names del: utf8.simps)

lemma pairs_plain:
  assumes "sendable_pairs reread fvs"
  shows "plain_json reread (pairs fvs)" "json_depth (pairs fvs) \<le> 4"
proof -
  have one: "plain_json reread j \<and> json_depth j \<le> 3"
    if j: "j \<in> set (map (\<lambda>(f, v). JArray [JArray [JObject [(''Field'', JString f)]], abi_json v]) fvs)" for j
  proof -
    from j obtain f v where fv: "(f, v) \<in> set fvs" "j = JArray [JArray [JObject [(''Field'', JString f)]], abi_json v]" by auto
    with assms have "utf8 f" "sendable reread v" by (auto simp: sendable_pairs_def)
    from pair_plain [OF this] show ?thesis unfolding fv(2) .
  qed
  show "plain_json reread (pairs fvs)" using one by (simp only: pairs_def plain_json.simps list_all_iff) blast
  have "foldr max (map json_depth (map (\<lambda>(f, v). JArray [JArray [JObject [(''Field'', JString f)]], abi_json v]) fvs)) 0 \<le> 3"
    using one by (simp only: json_depth_list) blast
  then show "json_depth (pairs fvs) \<le> 4" by (simp only: pairs_def json_depth.simps)
qed

lemma mutation_plain:
  assumes "sendable_pairs reread (document_values d)"
  shows "plain_json reread (mutation_json (mutation_of d)) \<and> json_depth (mutation_json (mutation_of d)) \<le> 6"
proof -
  note parts = assms [unfolded sendable_document]
  show ?thesis
    using parts [THEN conjunct1, THEN pairs_plain(1)] parts [THEN conjunct1, THEN pairs_plain(2)]
      parts [THEN conjunct2, THEN conjunct1, THEN pairs_plain(1)] parts [THEN conjunct2, THEN conjunct1, THEN pairs_plain(2)]
      parts [THEN conjunct2, THEN conjunct2, THEN pairs_plain(1)] parts [THEN conjunct2, THEN conjunct2, THEN pairs_plain(2)]
    by (simp add: mutation_json_def mutation_of_def Let_def utf8_names del: utf8.simps)
qed

text \<open>The batch as the parser gets it.\<close>

lemma batch_plain:
  assumes "\<And>m. m \<in> set ms \<Longrightarrow> plain_json reread (mutation_json m) \<and> json_depth (mutation_json m) \<le> 6"
  shows "plain_json reread (JObject [(''mutations'', JArray (map mutation_json ms))])"
    "json_depth (JObject [(''mutations'', JArray (map mutation_json ms))]) \<le> 127"
proof -
  show "plain_json reread (JObject [(''mutations'', JArray (map mutation_json ms))])"
    using assms by (simp add: list_all_iff utf8_names del: utf8.simps)
  have "foldr max (map json_depth (map mutation_json ms)) 0 \<le> 6"
    using assms by (simp only: json_depth_list) auto
  then show "json_depth (JObject [(''mutations'', JArray (map mutation_json ms))]) \<le> 127" by simp
qed

lemma sent_batch_is_read:
  assumes "json_text_law to_text from_str reread"
    and "\<And>d. d \<in> set (pending e) \<Longrightarrow> sendable_pairs reread (document_values d)"
  shows "read_batch nearest rest from_str (mutation_batch_json to_text (map mutation_of (pending e)))
    = Some (map (asked_of_engine (\<lambda>d. the (reread d))) (pending e))"
proof -
  let ?j = "JObject [(''mutations'', JArray (map mutation_json (map mutation_of (pending e))))]"
  have "plain_json reread (mutation_json m) \<and> json_depth (mutation_json m) \<le> 6"
    if "m \<in> set (map mutation_of (pending e))" for m
    using that mutation_plain [OF assms(2)] by auto
  then have "from_str (to_text ?j) = Inr (map_doubles (\<lambda>d. the (reread d)) ?j)"
    by (intro assms(1) [unfolded json_text_law_def, rule_format] batch_plain)
  then show ?thesis
    using read_mutation_of [OF assms(2)]
    by (simp add: read_batch_def mutation_batch_json_def read_member_def json_get_def read_list_def
        comp_def collect_options_map)
qed

text \<open>
  C39.  The batch is sent as text and parsed by the engine.  What the engine reads there is exactly
  the edits that are staged, in order: each document by its key, guarded by what it was loaded
  with, with the typed fields of an update and without any field for a delete.  Texts, integers and
  booleans arrive as they were; a double arrives as the one the parser reads back from its printed
  form, which need not be the same.
\<close>

theorem batch_reaches_engine:
  assumes "json_text_law to_text from_str reread"
    and "\<And>d. d \<in> set (pending e) \<Longrightarrow> sendable_pairs reread (document_values d)"
  shows "read_batch nearest rest from_str (mutation_batch_json to_text (map mutation_of (pending e)))
    = Some (map (asked_of_engine (\<lambda>d. the (reread d))) (pending e))"
  using assms by (rule sent_batch_is_read)

definition sample_edits :: pending_edits where
  "sample_edits =
     stage_delete (stage edits_new \<lparr>ad_id = ''a'', ad_key = [(''_id'', MStr ''a'')], ad_expect = [(''_seq_no'', MI64 41)]\<rparr> 0
       ''n'' (MI64 3) None) \<lparr>ad_id = ''b'', ad_key = [(''_id'', MStr ''b'')], ad_expect = [(''_seq_no'', MI64 7)]\<rparr> 1"

lemma batch_reaches_engine_witness:
  "read_batch (\<lambda>_. []) (\<lambda>_. None) marked_read (mutation_batch_json marked_json (map mutation_of (pending sample_edits)))
   = Some [MUpdate [] [([PField ''_id''], VStr ''a'')] [([PField ''n''], VI64 3)] [([PField ''_seq_no''], VI64 41)],
           MDelete [] [([PField ''_id''], VStr ''b'')] [([PField ''_seq_no''], VI64 7)]]"
proof -
  have ok: "\<forall>d \<in> set (pending sample_edits). list_all (\<lambda>(k, v). utf8 k \<and> sendable Some v) (document_values d)" by code_simp
  have "map (asked_of_engine (\<lambda>d. the (Some d))) (pending sample_edits)
    = [MUpdate [] [([PField ''_id''], VStr ''a'')] [([PField ''n''], VI64 3)] [([PField ''_seq_no''], VI64 41)],
       MDelete [] [([PField ''_id''], VStr ''b'')] [([PField ''_seq_no''], VI64 7)]]" by code_simp
  then show ?thesis using ok by (subst batch_reaches_engine [OF marked_json_law]) (auto simp: sendable_pairs_def list_all_iff)
qed

text \<open>
  The word \<open>nan\<close> typed into an empty cell is a number to \<open>f64::from_str\<close>; the batch with it is not one
  the engine reads, so no edit of the batch is written.
\<close>

lemma utf8_id: "utf8 ''_id''" "utf8 ''c''" "utf8 ''n''"
  by code_simp+

lemma nan_blocks_batch:
  assumes "parse_f64 ''nan'' = Some ''NaN''" and law: "json_text_law to_text from_str reread"
  shows "\<exists>v. typed_like parse_f64 ''nan'' None = Inr v
    \<and> read_batch nearest rest from_str (mutation_batch_json to_text (map mutation_of (pending
        (stage sample_edits \<lparr>ad_id = ''c'', ad_key = [(''_id'', MStr ''c'')], ad_expect = []\<rparr> 2 ''n'' v None)))) = None"
proof -
  let ?e = "stage sample_edits \<lparr>ad_id = ''c'', ad_key = [(''_id'', MStr ''c'')], ad_expect = []\<rparr> 2 ''n'' (MF64 ''NaN'') None"
  let ?m = "\<lparr>dm_path = [], dm_key = [(''_id'', MStr ''c'')], dm_expect = [], dm_sets = [(''n'', MF64 ''NaN'')], dm_is_delete = False\<rparr>"
  let ?f = "\<lambda>d. the (reread d)"
  let ?j = "JObject [(''mutations'', JArray (map mutation_json (map mutation_of (pending ?e))))]"
  have t: "trim ''nan'' = ''nan''" "parse_signed 64 ''nan'' = None" by code_simp+
  have a: "typed_like parse_f64 ''nan'' None = Inr (MF64 ''NaN'')"
    using assms by (simp add: typed_like_def Let_def t)
  have b: "map mutation_of (pending ?e) = map mutation_of (pending sample_edits) @ [?m]" by code_simp
  have n: "collect_options (xs @ [None]) = None" for xs :: "mutation option list"
    by (induction xs rule: collect_options.induct) auto
  have "list_all (\<lambda>d. list_all (\<lambda>(k, v). utf8 k \<and> sendable reread v) (document_values d)) (pending sample_edits)"
    by code_simp
  then have "\<forall>d \<in> set (pending sample_edits). sendable_pairs reread (document_values d)"
    by (simp add: list_all_iff sendable_pairs_def)
  moreover have "plain_json reread (mutation_json ?m) \<and> json_depth (mutation_json ?m) \<le> 6"
    by (simp add: mutation_json_def Let_def pairs_def utf8_names utf8_id del: utf8.simps)
  ultimately have "plain_json reread (mutation_json m) \<and> json_depth (mutation_json m) \<le> 6"
    if "m \<in> set (map mutation_of (pending ?e))" for m
    using that mutation_plain unfolding b by (auto simp del: utf8.simps plain_json.simps json_depth.simps)
  then have "from_str (to_text ?j) = Inr (map_doubles ?f ?j)"
    by (intro law [unfolded json_text_law_def, rule_format] batch_plain)
  moreover have "read_mutation nearest rest (map_doubles ?f (mutation_json ?m)) = None"
    by (simp add: read_mutation_def mutation_json_def Let_def read_member_def json_get_def read_list_def
        pairs_def read_pair_def read_segment_def read_tagged_def)
  ultimately have "read_batch nearest rest from_str (mutation_batch_json to_text (map mutation_of (pending ?e))) = None"
    unfolding b
    by (simp add: read_batch_def mutation_batch_json_def read_member_def json_get_def
        read_list_def [of "read_mutation nearest rest"] comp_def n del: collect_options.simps)
  with a show ?thesis by blast
qed

text \<open>
  A double whose printed form is read back as another one is written as that other one, and nothing
  on the way notices.
\<close>

lemma reread_double_is_written:
  assumes "json_text_law to_text from_str reread"
    and "\<And>d. d \<in> set (pending e) \<Longrightarrow> sendable_pairs reread (document_values d)"
    and "x \<in> set (pending e)" "\<not> sd_is_delete x" "s \<in> set (sd_sets x)" "sf_value s = MF64 d" "reread d = Some d'"
  shows "\<exists>ms key sets guard. read_batch nearest rest from_str (mutation_batch_json to_text (map mutation_of (pending e))) = Some ms
    \<and> MUpdate [] key sets guard \<in> set ms \<and> ([PField (sf_field s)], VF64 d') \<in> set sets"
  using assms(3-7) sent_batch_is_read [OF assms(1,2)]
  by (force simp: asked_of_engine_def engine_pairs_def image_iff)

section \<open>Edits as a map\<close>

text \<open>The abstract view: documents by id and rows by number.\<close>

definition staged :: "pending_edits \<Rightarrow> string \<Rightarrow> staged_document option" where
  "staged e i = find (\<lambda>d. sd_id d = i) (pe_docs e)"

definition ids_distinct :: "pending_edits \<Rightarrow> bool" where
  "ids_distinct e = distinct (map sd_id (pe_docs e))"

lemma find_key_index:
  "find (\<lambda>x. key x = i) xs = map_option ((!) xs) (find_index (\<lambda>x. key x = i) xs)"
  by (induction xs) (auto simp: option.map_comp comp_def)

lemma find_key_update:
  "find_index (\<lambda>x. key x = i) xs = Some k \<Longrightarrow> key y = i
   \<Longrightarrow> find (\<lambda>x. key x = j) (xs[k := y]) = (if j = i then Some y else find (\<lambda>x. key x = j) xs)"
  by (induction xs arbitrary: k) (auto split: if_splits)

lemma find_key_remove:
  "find_index (\<lambda>x. key x = i) xs = Some k \<Longrightarrow> distinct (map key xs)
   \<Longrightarrow> find (\<lambda>x. key x = j) (remove_at k xs) = (if j = i then None else find (\<lambda>x. key x = j) xs)"
  by (induction xs arbitrary: k) (auto simp: remove_at_def find_None_iff image_iff split: if_splits)

lemma find_key_append:
  "\<forall>x \<in> set xs. key x \<noteq> key y
   \<Longrightarrow> find (\<lambda>x. key x = j) (xs @ [y]) = (if j = key y then Some y else find (\<lambda>x. key x = j) xs)"
  by (induction xs) auto

lemma keys_update:
  "find_index (\<lambda>x. key x = i) xs = Some k \<Longrightarrow> key y = i \<Longrightarrow> map key (xs[k := y]) = map key xs"
  by (induction xs arbitrary: k) (auto split: if_splits)

lemma distinct_remove_at: "distinct (map key xs) \<Longrightarrow> distinct (map key (remove_at k xs))"
  unfolding remove_at_def map_append take_map [symmetric] drop_map [symmetric]
  by (simp add: set_take_disj_set_drop_if_distinct)

lemma staged_index: "staged e i = map_option ((!) (pe_docs e)) (index_of e i)"
  by (simp add: staged_def index_of_def find_key_index)

lemma index_of_None: "index_of e i = None \<longleftrightarrow> staged e i = None"
  by (simp add: staged_index)

lemma index_of_Some: "index_of e i = Some k \<Longrightarrow> staged e i = Some (pe_docs e ! k) \<and> sd_id (pe_docs e ! k) = i"
  using find_index_bound [of "\<lambda>d. sd_id d = i" "pe_docs e" k] by (simp add: staged_index index_of_def)

lemma staged_Some: "staged e i = Some d \<Longrightarrow> sd_id d = i \<and> d \<in> set (pe_docs e)"
  unfolding staged_def by (auto simp: find_Some_iff)

lemma staged_None: "staged e i = None \<longleftrightarrow> i \<notin> sd_id ` set (pe_docs e)"
  by (auto simp: staged_def find_None_iff)

lemma staged_member: "ids_distinct e \<Longrightarrow> d \<in> set (pe_docs e) \<Longrightarrow> staged e (sd_id d) = Some d"
proof -
  assume "ids_distinct e" "d \<in> set (pe_docs e)"
  moreover have "distinct (map sd_id xs) \<Longrightarrow> d \<in> set xs \<Longrightarrow> find (\<lambda>x. sd_id x = sd_id d) xs = Some d" for xs
    by (induction xs) (auto simp: image_iff)
  ultimately show ?thesis by (simp add: staged_def ids_distinct_def)
qed

lemma staged_update:
  "index_of e i = Some k \<Longrightarrow> sd_id d = i
   \<Longrightarrow> staged (e\<lparr>pe_docs := (pe_docs e)[k := d]\<rparr>) = (staged e)(i \<mapsto> d)
     \<and> ids_distinct (e\<lparr>pe_docs := (pe_docs e)[k := d]\<rparr>) = ids_distinct e"
  by (auto simp: staged_def index_of_def ids_distinct_def find_key_update keys_update)

lemma staged_remove:
  "index_of e i = Some k \<Longrightarrow> ids_distinct e
   \<Longrightarrow> staged \<lparr>pe_docs = remove_at k (pe_docs e), pe_rows = r\<rparr> = (staged e)(i := None)
     \<and> ids_distinct \<lparr>pe_docs = remove_at k (pe_docs e), pe_rows = r\<rparr>"
  by (auto simp: staged_def index_of_def ids_distinct_def find_key_remove distinct_remove_at)

lemma touch_simps [simp]:
  "sd_id (touch d) = sd_id d" "sd_key (touch d) = sd_key d" "sd_expect (touch d) = sd_expect d"
  "sd_row (touch d) = sd_row d" "sd_sets (touch d) = sd_sets d"
  "sd_is_delete (touch d) = sd_is_delete d" "sd_state (touch d) = StPending"
  by (simp_all add: touch_def)

lemma drop_field_simps [simp]:
  "sd_id (drop_field f d) = sd_id d" "sd_key (drop_field f d) = sd_key d"
  "sd_expect (drop_field f d) = sd_expect d" "sd_row (drop_field f d) = sd_row d"
  by (simp_all add: drop_field_def)

lemma fold_row_simps [simp]:
  "sd_id (fold_row r d) = sd_id d" "sd_key (fold_row r d) = sd_key d"
  "sd_expect (fold_row r d) = sd_expect d" "sd_row (fold_row r d) = sd_row d"
  "sd_sets (fold_row r d) = sd_sets d" "sd_is_delete (fold_row r d) = sd_is_delete d"
  by (simp_all add: fold_row_def split: mutation_outcome.split)

lemma fresh_document_simps [simp]:
  "sd_id (fresh_document a row) = ad_id a" "sd_key (fresh_document a row) = ad_key a"
  "sd_expect (fresh_document a row) = ad_expect a" "sd_row (fresh_document a row) = row"
  by (simp_all add: fresh_document_def)

lemma existing_staged:
  "existing e a row = (case staged e (ad_id a) of Some d \<Rightarrow> d | None \<Rightarrow> fresh_document a row)"
  by (auto simp: existing_def staged_index split: option.split)

lemma existing_id [simp]: "sd_id (existing e a row) = ad_id a"
  by (auto simp: existing_staged dest: staged_Some split: option.split)

lemma staged_put:
  "staged (put_document e d row) = (staged e)(sd_id d \<mapsto> d)
   \<and> ids_distinct (put_document e d row) = ids_distinct e"
proof (cases "index_of e (sd_id d)")
  case None
  then have "sd_id d \<notin> sd_id ` set (pe_docs e)" unfolding index_of_None staged_None .
  then have "\<forall>x \<in> set (pe_docs e). sd_id x \<noteq> sd_id d" by (metis imageI)
  with None show ?thesis
    by (auto simp: put_document_def staged_def ids_distinct_def find_key_append fun_eq_iff)
next
  case (Some k)
  from staged_update [OF this refl] Some show ?thesis
    by (simp add: put_document_def staged_def ids_distinct_def fun_eq_iff)
qed

section \<open>Traces\<close>

datatype edit_event =
    EvStage address nat string mutation_value "mutation_value option"
  | EvDelete address nat
  | EvUnstage nat string
  | EvDiscardRow nat
  | EvDiscardAll
  | EvDiscardId string
  | EvRebase string field_values
  | EvReport mutation_report "string list"

fun edit_step :: "edit_event \<Rightarrow> pending_edits \<Rightarrow> pending_edits" where
  "edit_step (EvStage a row f v loaded) e = stage e a row f v loaded"
| "edit_step (EvDelete a row) e = stage_delete e a row"
| "edit_step (EvUnstage row f) e = unstage e row f"
| "edit_step (EvDiscardRow row) e = discard_row e row"
| "edit_step EvDiscardAll e = discard_all e"
| "edit_step (EvDiscardId i) e = fst (discard_by_id e i)"
| "edit_step (EvRebase i expect) e = fst (rebase e i expect)"
| "edit_step (EvReport report committed) e = fst (apply_report e report committed)"

text \<open>What the operations promise, over rows and documents by id.\<close>

type_synonym edit_map = "(nat \<rightharpoonup> string) \<times> (string \<rightharpoonup> staged_document)"

definition spec_touch :: "address \<Rightarrow> nat \<Rightarrow> (staged_document \<Rightarrow> staged_document) \<Rightarrow> edit_map \<Rightarrow> edit_map" where
  "spec_touch a row f m =
     ((fst m)(row \<mapsto> ad_id a),
      (snd m)(ad_id a \<mapsto> touch (f (case snd m (ad_id a) of Some d \<Rightarrow> d | None \<Rightarrow> fresh_document a row))))"

definition spec_row :: "string \<times> mutation_row \<Rightarrow> (string \<rightharpoonup> staged_document) \<Rightarrow> (string \<rightharpoonup> staged_document)" where
  "spec_row p m = m(fst p := map_option (fold_row (snd p)) (m (fst p)))"

fun spec_step :: "edit_event \<Rightarrow> edit_map \<Rightarrow> edit_map" where
  "spec_step (EvStage a row f v loaded) m =
     spec_touch a row (\<lambda>d. d\<lparr>sd_sets := set_field f v loaded (sd_sets d)\<rparr>) m"
| "spec_step (EvDelete a row) m = spec_touch a row (\<lambda>d. d\<lparr>sd_is_delete := True\<rparr>) m"
| "spec_step (EvUnstage row f) (rows, docs) =
     (case Option.bind (rows row) docs of
        None \<Rightarrow> (rows, docs)
      | Some d \<Rightarrow>
          if sd_sets (drop_field f d) = [] \<and> \<not> sd_is_delete d then (rows(row := None), docs(sd_id d := None))
          else (rows, docs(sd_id d \<mapsto> drop_field f d)))"
| "spec_step (EvDiscardRow row) (rows, docs) =
     (rows(row := None), case rows row of None \<Rightarrow> docs | Some i \<Rightarrow> docs(i := None))"
| "spec_step EvDiscardAll (rows, docs) = (if docs = Map.empty then rows else Map.empty, Map.empty)"
| "spec_step (EvDiscardId i) (rows, docs) =
     (case docs i of None \<Rightarrow> (rows, docs) | Some d \<Rightarrow> (rows(sd_row d := None), docs(i := None)))"
| "spec_step (EvRebase i expect) (rows, docs) =
     (rows, case docs i of None \<Rightarrow> docs | Some d \<Rightarrow> docs(i \<mapsto> touch (d\<lparr>sd_expect := expect\<rparr>)))"
| "spec_step (EvReport report committed) (rows, docs) =
     (rows, if length (rp_rows report) \<noteq> length committed then docs
            else fold spec_row (zip committed (rp_rows report)) docs)"

definition edit_abs :: "pending_edits \<Rightarrow> edit_map" where
  "edit_abs e = (pe_rows e, staged e)"

lemma apply_row_abs:
  "edit_abs (apply_row p e) = (pe_rows e, spec_row p (staged e)) \<and> ids_distinct (apply_row p e) = ids_distinct e"
proof (cases "index_of e (fst p)")
  case None
  moreover from None have "staged e (fst p) = None" by (simp only: index_of_None)
  ultimately show ?thesis by (simp add: apply_row_def edit_abs_def spec_row_def fun_upd_idem)
next
  case (Some k)
  then have "staged e (fst p) = Some (pe_docs e ! k)" "sd_id (pe_docs e ! k) = fst p" by (auto dest: index_of_Some)
  with staged_update [OF Some, of "fold_row (snd p) (pe_docs e ! k)"] Some show ?thesis
    by (simp add: apply_row_def edit_abs_def spec_row_def)
qed

lemma apply_rows_abs:
  "edit_abs (fold apply_row ps e) = (pe_rows e, fold spec_row ps (staged e))
   \<and> ids_distinct (fold apply_row ps e) = ids_distinct e"
proof (induction ps arbitrary: e)
  case (Cons p ps)
  from Cons.IH [of "apply_row p e"] apply_row_abs [of p e] show ?case by (auto simp: edit_abs_def)
qed (simp add: edit_abs_def)

lemma index_of_row_staged:
  "index_of_row e row = Some k \<Longrightarrow> \<exists>i. pe_rows e row = Some i \<and> index_of e i = Some k
     \<and> staged e i = Some (pe_docs e ! k) \<and> sd_id (pe_docs e ! k) = i"
  unfolding index_of_row_def by (cases "pe_rows e row") (auto dest: index_of_Some)

lemma index_of_row_None: "index_of_row e row = None \<Longrightarrow> Option.bind (pe_rows e row) (staged e) = None"
  unfolding index_of_row_def by (cases "pe_rows e row") (auto simp: index_of_None)

lemma unstage_abs:
  assumes "ids_distinct e"
  shows "edit_abs (unstage e row f) = spec_step (EvUnstage row f) (edit_abs e) \<and> ids_distinct (unstage e row f)"
proof (cases "index_of_row e row")
  case None
  with assms show ?thesis by (simp add: unstage_def edit_abs_def index_of_row_None)
next
  case (Some k)
  then obtain i where i: "pe_rows e row = Some i" "index_of e i = Some k"
    "staged e i = Some (pe_docs e ! k)" "sd_id (pe_docs e ! k) = i" using index_of_row_staged by blast
  have u: "staged (e\<lparr>pe_docs := (pe_docs e)[k := drop_field f (pe_docs e ! k)]\<rparr>)
      = (staged e)(i \<mapsto> drop_field f (pe_docs e ! k))
    \<and> ids_distinct (e\<lparr>pe_docs := (pe_docs e)[k := drop_field f (pe_docs e ! k)]\<rparr>)"
    using staged_update [OF i(2), of "drop_field f (pe_docs e ! k)"] i(4) assms by simp
  have del: "sd_is_delete (drop_field f (pe_docs e ! k)) = sd_is_delete (pe_docs e ! k)" by (simp add: drop_field_def)
  from u i staged_remove [OF i(2) assms, of "(pe_rows e)(row := None)"] Some show ?thesis
    by (simp add: unstage_def edit_abs_def Let_def del)
qed

lemma edit_step_abs:
  assumes "ids_distinct e"
  shows "edit_abs (edit_step ev e) = spec_step ev (edit_abs e) \<and> ids_distinct (edit_step ev e)"
proof (cases ev)
  case (EvStage a row f v l)
  with assms staged_put [of e "touch ((existing e a row)\<lparr>sd_sets := set_field f v l (sd_sets (existing e a row))\<rparr>)" row]
  show ?thesis
    by (simp add: stage_def Let_def edit_abs_def spec_touch_def existing_staged [symmetric] put_document_def)
next
  case (EvDelete a row)
  with assms staged_put [of e "touch ((existing e a row)\<lparr>sd_is_delete := True\<rparr>)" row] show ?thesis
    by (simp add: stage_delete_def edit_abs_def spec_touch_def existing_staged [symmetric] put_document_def)
next
  case (EvUnstage row f)
  with unstage_abs [OF assms] show ?thesis by simp
next
  case (EvDiscardRow row)
  show ?thesis
  proof (cases "index_of_row e row")
    case None
    then have "(case pe_rows e row of None \<Rightarrow> staged e | Some i \<Rightarrow> (staged e)(i := None)) = staged e"
      using index_of_row_None [OF None] by (auto split: option.split)
    with None assms EvDiscardRow show ?thesis
      by (simp add: discard_row_def edit_abs_def) (simp add: staged_def ids_distinct_def fun_eq_iff)
  next
    case (Some k)
    with EvDiscardRow index_of_row_staged [OF Some] staged_remove [OF _ assms, of _ k "(pe_rows e)(row := None)"]
    show ?thesis by (auto simp: discard_row_def edit_abs_def)
  qed
next
  case EvDiscardAll
  moreover have "staged e = Map.empty \<longleftrightarrow> pe_docs e = []"
    by (cases "pe_docs e") (auto simp: staged_def fun_eq_iff)
  moreover have "staged edits_new = Map.empty" by (simp add: staged_def edits_new_def fun_eq_iff)
  ultimately show ?thesis using assms
    by (auto simp: discard_all_def edit_abs_def edits_new_def ids_distinct_def)
next
  case (EvDiscardId i)
  with assms staged_remove [OF _ assms, of i] show ?thesis
    by (auto simp: discard_by_id_def edit_abs_def index_of_None Let_def dest!: index_of_Some split: option.split)
next
  case (EvRebase i expect)
  show ?thesis
  proof (cases "index_of e i")
    case None
    moreover from None have "staged e i = None" unfolding index_of_None .
    ultimately show ?thesis using assms EvRebase by (simp add: rebase_def edit_abs_def)
  next
    case (Some k)
    with index_of_Some [OF Some] staged_update [OF Some, of "touch ((pe_docs e ! k)\<lparr>sd_expect := expect\<rparr>)"]
    show ?thesis using assms EvRebase by (simp add: rebase_def edit_abs_def)
  qed
next
  case (EvReport report committed)
  with assms apply_rows_abs [of "zip committed (rp_rows report)" e] show ?thesis
    by (simp add: apply_report_def edit_abs_def)
qed

lemma edit_steps_abs:
  "ids_distinct e \<Longrightarrow> edit_abs (fold edit_step evs e) = fold spec_step evs (edit_abs e) \<and> ids_distinct (fold edit_step evs e)"
  by (induction evs arbitrary: e) (auto simp: edit_step_abs)

lemma edits_new_distinct [simp]: "ids_distinct edits_new"
  by (simp add: ids_distinct_def edits_new_def)

lemma edit_abs_new: "edit_abs edits_new = (Map.empty, Map.empty)"
  by (simp add: edit_abs_def edits_new_def staged_def fun_eq_iff)

text \<open>
  C21.  Whatever is typed, discarded, re-applied or reported, the list of staged documents and its
  table of rows behave as one map from document to its edit.
\<close>

theorem edits_refine_map:
  "edit_abs (fold edit_step evs edits_new) = fold spec_step evs (Map.empty, Map.empty)
   \<and> distinct (map sd_id (pe_docs (fold edit_step evs edits_new)))"
  using edit_steps_abs [OF edits_new_distinct, of evs] by (simp add: edit_abs_new ids_distinct_def)

section \<open>Rows\<close>

text \<open>
  The grid addresses a document through its row.  While every row keeps naming one document, the
  table leads from the row of each staged document to that document.
\<close>

fun addressed_by :: "(nat \<Rightarrow> string) \<Rightarrow> edit_event \<Rightarrow> bool" where
  "addressed_by doc_of (EvStage a row f v loaded) = (ad_id a = doc_of row)"
| "addressed_by doc_of (EvDelete a row) = (ad_id a = doc_of row)"
| "addressed_by doc_of _ = True"

definition rows_agree :: "(nat \<Rightarrow> string) \<Rightarrow> edit_map \<Rightarrow> bool" where
  "rows_agree doc_of m \<longleftrightarrow>
     (\<forall>r i. fst m r = Some i \<longrightarrow> doc_of r = i)
     \<and> (\<forall>i d. snd m i = Some d \<longrightarrow> sd_id d = i \<and> doc_of (sd_row d) = i \<and> fst m (sd_row d) = Some i)"

lemma rows_agree_map:
  assumes "rows_agree doc_of (rows, docs)"
    and "\<And>i d. docs' i = Some d \<Longrightarrow> \<exists>d0. docs i = Some d0 \<and> sd_id d = sd_id d0 \<and> sd_row d = sd_row d0"
  shows "rows_agree doc_of (rows, docs')"
  using assms(1) unfolding rows_agree_def by (fastforce dest: assms(2))

lemma rows_agree_drop:
  assumes "rows_agree doc_of (rows, docs)" "doc_of row = i"
  shows "rows_agree doc_of (rows(row := None), docs(i := None))"
  using assms unfolding rows_agree_def by (auto split: if_splits)

lemma rows_agree_touch:
  assumes m: "rows_agree doc_of m" and "ad_id a = doc_of row"
    and f: "\<And>d. sd_id (f d) = sd_id d \<and> sd_row (f d) = sd_row d"
  shows "rows_agree doc_of (spec_touch a row f m)"
  using m assms(2) unfolding rows_agree_def spec_touch_def
  by (auto simp: f split: if_splits option.split)

lemma spec_rows_kept:
  "fold spec_row ps docs i = Some d \<Longrightarrow> \<exists>d0. docs i = Some d0 \<and> sd_id d = sd_id d0 \<and> sd_row d = sd_row d0"
proof (induction ps arbitrary: docs)
  case (Cons p ps)
  from Cons.IH [of "spec_row p docs"] Cons.prems show ?case
    by (auto simp: spec_row_def split: if_splits)
qed simp

lemma rows_agree_step:
  assumes "rows_agree doc_of m" "addressed_by doc_of ev"
  shows "rows_agree doc_of (spec_step ev m)"
proof (cases m)
  case (Pair rows docs)
  note agree = assms(1) [unfolded Pair]
  have id: "sd_id d = i" "doc_of (sd_row d) = i" if "docs i = Some d" for i d
    using agree that by (auto simp: rows_agree_def)
  show ?thesis
  proof (cases ev)
    case (EvStage a row f v l)
    with assms show ?thesis by (auto intro: rows_agree_touch)
  next
    case (EvDelete a row)
    with assms show ?thesis by (auto intro: rows_agree_touch)
  next
    case (EvUnstage row f)
    show ?thesis
    proof (cases "Option.bind (rows row) docs")
      case None
      with EvUnstage Pair agree show ?thesis by simp
    next
      case (Some d)
      then obtain i where i: "rows row = Some i" "docs i = Some d" by (auto simp: bind_eq_Some_conv)
      then have "doc_of row = sd_id d" using agree id by (auto simp: rows_agree_def)
      with i id(1) EvUnstage Pair agree Some show ?thesis
        by (auto intro!: rows_agree_drop elim!: rows_agree_map split: if_splits)
    qed
  next
    case (EvDiscardRow row)
    show ?thesis
    proof (cases "rows row")
      case None
      with EvDiscardRow Pair agree show ?thesis by (simp add: fun_upd_idem)
    next
      case (Some i)
      moreover from Some agree have "doc_of row = i" by (auto simp: rows_agree_def)
      ultimately show ?thesis using EvDiscardRow Pair agree by (auto intro: rows_agree_drop)
    qed
  next
    case EvDiscardAll
    with Pair agree show ?thesis by (auto simp: rows_agree_def)
  next
    case (EvDiscardId i)
    with Pair agree id show ?thesis by (auto intro: rows_agree_drop split: option.split)
  next
    case (EvRebase i expect)
    with Pair agree show ?thesis by (auto elim!: rows_agree_map split: option.split if_splits)
  next
    case (EvReport report committed)
    with Pair agree show ?thesis by (auto elim!: rows_agree_map dest: spec_rows_kept)
  qed
qed

lemma rows_agree_steps:
  "rows_agree doc_of m \<Longrightarrow> \<forall>ev \<in> set evs. addressed_by doc_of ev \<Longrightarrow> rows_agree doc_of (fold spec_step evs m)"
  by (induction evs arbitrary: m) (auto simp: rows_agree_step)

lemma with_row_staged: "with_row e row = Option.bind (pe_rows e row) (staged e)"
  by (cases "pe_rows e row") (simp_all add: with_row_def staged_def)

lemma rows_agree_found:
  assumes "rows_agree doc_of (edit_abs e)" "ids_distinct e" "d \<in> set (pe_docs e)"
  shows "with_row e (sd_row d) = Some d"
proof -
  from assms(1) have "\<forall>i d. staged e i = Some d \<longrightarrow> pe_rows e (sd_row d) = Some i"
    by (simp add: rows_agree_def edit_abs_def)
  with staged_member [OF assms(2,3)] have "pe_rows e (sd_row d) = Some (sd_id d)" by blast
  with staged_member [OF assms(2,3)] show ?thesis by (simp add: with_row_staged)
qed

lemma rows_distinct:
  assumes "rows_agree doc_of (edit_abs e)" "ids_distinct e"
  shows "distinct (map sd_row (pe_docs e))"
proof -
  have "inj_on sd_row (set (pe_docs e))"
  proof (rule inj_onI)
    fix d d'
    assume d: "d \<in> set (pe_docs e)" "d' \<in> set (pe_docs e)" and eq: "sd_row d = sd_row d'"
    from rows_agree_found [OF assms d(1)] rows_agree_found [OF assms d(2)] have "Some d = Some d'"
      unfolding eq by (rule trans [OF sym])
    then show "d = d'" by simp
  qed
  moreover have "distinct (pe_docs e)" using assms(2) by (simp add: ids_distinct_def distinct_map)
  ultimately show ?thesis by (simp add: distinct_map)
qed

text \<open>
  C29.  As long as a row of the grid goes on naming the same document, every staged document is the
  one its row shows, and it still is after the result was parked under its tab and brought back;
  a row of a restored result shows no document but the one it showed before.
\<close>

theorem staged_row_found:
  assumes "\<And>ev. ev \<in> set evs \<Longrightarrow> addressed_by doc_of ev"
    and "e = fold edit_step evs edits_new"
    and "r = restore_all e' (fst (take_all e))"
  shows "(\<forall>d \<in> set (pe_docs e). with_row e (sd_row d) = Some d \<and> with_row r (sd_row d) = Some d)
    \<and> (\<forall>row d. with_row r row = Some d \<longrightarrow> with_row e row = Some d)"
proof -
  have d: "ids_distinct e" and "edit_abs e = fold spec_step evs (Map.empty, Map.empty)"
    using edits_refine_map [of evs] by (simp_all add: assms(2) ids_distinct_def)
  moreover have "rows_agree doc_of (Map.empty, Map.empty)" by (simp add: rows_agree_def)
  ultimately have agree: "rows_agree doc_of (edit_abs e)" using assms(1) by (simp add: rows_agree_steps)
  note found = rows_agree_found [OF agree d]
  have docs: "pe_docs r = pe_docs e" "pe_rows r = map_of (rev (map (\<lambda>d. (sd_row d, sd_id d)) (pe_docs e)))"
    by (simp_all add: assms(3) restore_all_def take_all_def)
  have "distinct (map fst (map (\<lambda>d. (sd_row d, sd_id d)) (pe_docs e)))"
    using rows_distinct [OF agree d] by (simp add: comp_def)
  then have rows: "pe_rows r = map_of (map (\<lambda>d. (sd_row d, sd_id d)) (pe_docs e))"
    by (subst docs(2), subst map_of_inject_set) (simp_all flip: rev_map)
  have "with_row r row = Some x \<Longrightarrow> x \<in> set (pe_docs e) \<and> sd_row x = row" for row x
  proof -
    assume "with_row r row = Some x"
    then obtain i where i: "pe_rows r row = Some i" "staged r i = Some x"
      by (auto simp: with_row_staged bind_eq_Some_conv)
    from i(1) obtain y where y: "y \<in> set (pe_docs e)" "sd_row y = row" "sd_id y = i"
      unfolding rows by (auto dest!: map_of_SomeD)
    with staged_member [OF d y(1)] i(2) docs show "x \<in> set (pe_docs e) \<and> sd_row x = row"
      by (simp add: staged_def)
  qed
  moreover have "with_row r (sd_row x) = Some x" if "x \<in> set (pe_docs e)" for x
  proof -
    have "pe_rows r (sd_row x) = Some (sd_id x)"
      unfolding rows using that rows_distinct [OF agree d]
      by (intro map_of_is_SomeI) (auto simp: comp_def)
    with staged_member [OF d that] docs show ?thesis by (simp add: with_row_staged staged_def)
  qed
  ultimately show ?thesis using found by blast
qed

lemma staged_row_found_witness:
  "with_row (restore_all edits_new (fst (take_all sample_edits))) 1 = with_row sample_edits 1 \<and> pe_docs sample_edits \<noteq> []"
proof -
  let ?evs = "[EvStage \<lparr>ad_id = ''a'', ad_key = [(''_id'', MStr ''a'')], ad_expect = [(''_seq_no'', MI64 41)]\<rparr> 0 ''n'' (MI64 3) None,
    EvDelete \<lparr>ad_id = ''b'', ad_key = [(''_id'', MStr ''b'')], ad_expect = [(''_seq_no'', MI64 7)]\<rparr> 1]"
  have run: "sample_edits = fold edit_step ?evs edits_new" by (simp add: sample_edits_def)
  have "\<exists>d \<in> set (pe_docs sample_edits). sd_row d = 1" "pe_docs sample_edits \<noteq> []" by code_simp+
  moreover have "addressed_by (\<lambda>r. if r = 0 then ''a'' else ''b'') ev" if "ev \<in> set ?evs" for ev
    using that by auto
  note staged_row_found [OF this run refl, of edits_new]
  ultimately show ?thesis by auto
qed

lemma spec_rows_other: "i \<notin> fst ` set ps \<Longrightarrow> fold spec_row ps docs i = docs i"
  by (induction ps arbitrary: docs) (auto simp: spec_row_def)

lemma spec_rows_at:
  "distinct ids \<Longrightarrow> length ids = length rs \<Longrightarrow> k < length ids
   \<Longrightarrow> fold spec_row (zip ids rs) docs (ids ! k) = map_option (fold_row (rs ! k)) (docs (ids ! k))"
proof (induction ids rs arbitrary: k docs rule: list_induct2')
  case (4 i ids r rs)
  show ?case
  proof (cases k)
    case 0
    have "i \<notin> fst ` set (zip ids rs)" using 4 by (auto dest: set_zip_leftD)
    with 0 show ?thesis by (simp add: spec_rows_other) (simp add: spec_row_def)
  next
    case (Suc j)
    with 4 have "ids ! j \<noteq> i" by auto
    with Suc 4 show ?thesis by (simp add: spec_row_def)
  qed
qed simp_all

text \<open>
  A report is folded in by position: each document that was committed takes the outcome at its
  place, every other document is left as it is, and a report of another length changes nothing.
\<close>

theorem report_folds_by_position:
  assumes "distinct committed"
  shows "if length (rp_rows report) = length committed
    then snd (apply_report e report committed)
      \<and> (\<forall>k < length committed. staged (fst (apply_report e report committed)) (committed ! k)
            = map_option (fold_row (rp_rows report ! k)) (staged e (committed ! k)))
      \<and> (\<forall>i. i \<notin> set committed \<longrightarrow> staged (fst (apply_report e report committed)) i = staged e i)
    else apply_report e report committed = (e, False)"
proof (cases "length (rp_rows report) = length committed")
  case True
  have "staged (fold apply_row (zip committed (rp_rows report)) e) = fold spec_row (zip committed (rp_rows report)) (staged e)"
    using apply_rows_abs [of "zip committed (rp_rows report)" e] by (simp add: edit_abs_def)
  moreover have "i \<notin> fst ` set (zip committed (rp_rows report))" if "i \<notin> set committed" for i
    using that by (auto dest: set_zip_leftD)
  ultimately show ?thesis using True assms
    by (simp add: apply_report_def spec_rows_at spec_rows_other)
qed (simp add: apply_report_def)

definition sample_row :: "mutation_outcome \<Rightarrow> bool \<Rightarrow> mutation_row" where
  "sample_row outcome conflict =
     \<lparr>mr_op = ''update'', mr_index = [], mr_document_id = [], mr_routing = [], mr_outcome = outcome,
      mr_seq_no = None, mr_primary_term = None, mr_conflict = conflict, mr_error_code = [],
      mr_error = [], mr_forced_refresh = False\<rparr>"

definition sample_report :: "mutation_row list \<Rightarrow> mutation_report" where
  "sample_report rows =
     \<lparr>rp_rows = rows, rp_notices = [], rp_applied = 0, rp_failed = 0, rp_not_attempted = 0, rp_conflicts = 0\<rparr>"

lemma report_folds_by_position_witness:
  "staged (fst (apply_report sample_edits (sample_report [sample_row MoFailed True, sample_row MoApplied False]) [''a'', ''b''])) ''a''
   = map_option (fold_row (sample_row MoFailed True)) (staged sample_edits ''a'')
   \<and> staged sample_edits ''a'' \<noteq> None"
proof -
  have "staged sample_edits ''a'' \<noteq> None" by code_simp
  moreover have "distinct [''a'', ''b'']" by simp
  note report_folds_by_position [OF this, of "sample_report [sample_row MoFailed True, sample_row MoApplied False]" sample_edits]
  then have "\<forall>k < 2. staged (fst (apply_report sample_edits (sample_report [sample_row MoFailed True, sample_row MoApplied False]) [''a'', ''b''])) ([''a'', ''b''] ! k)
      = map_option (fold_row ([sample_row MoFailed True, sample_row MoApplied False] ! k)) (staged sample_edits ([''a'', ''b''] ! k))"
    by (simp add: sample_report_def)
  from this [rule_format, of 0] have "staged (fst (apply_report sample_edits (sample_report [sample_row MoFailed True, sample_row MoApplied False]) [''a'', ''b''])) ''a''
    = map_option (fold_row (sample_row MoFailed True)) (staged sample_edits ''a'')" by simp
  ultimately show ?thesis by simp
qed

section \<open>Edits made in the grid\<close>

text \<open>
  \<open>ui/gtk4/src/model/result.rs\<close>.  A result that may be edited has an \<open>editable\<close> block.  The field and the
  loaded value come from the window of rows around the cell; the envelope of the row is the text the
  engine keeps for it, parsed, or the parser's complaint.
\<close>

definition EDIT_REFUSED :: string where
  "EDIT_REFUSED = ''this result is not editable on this connection''"

definition address_row ::
  "(int \<Rightarrow> f64) \<Rightarrow> editable_result option \<Rightarrow> (string + json_value) option \<Rightarrow> string + address" where
  "address_row nearest editable envelope =
     (case envelope of
        None \<Rightarrow> Inl ''this row carries no document envelope, so datagrep cannot tell which document it is''
      | Some (Inl err) \<Rightarrow> Inl (''this row's document envelope did not decode: '' @ err)
      | Some (Inr j) \<Rightarrow>
          (case editable of Some er \<Rightarrow> address_of nearest er j | None \<Rightarrow> Inl EDIT_REFUSED))"

record grid_env =
  gr_nearest :: "int \<Rightarrow> f64"
  gr_parse_f64 :: "string \<Rightarrow> f64 option"
  gr_editable :: "editable_result option"
  gr_envelope :: "nat \<Rightarrow> (string + json_value) option"
  gr_field_name :: "nat \<Rightarrow> nat \<Rightarrow> string option"
  gr_loaded :: "nat \<Rightarrow> nat \<Rightarrow> mutation_value option"

definition stage_edit ::
  "grid_env \<Rightarrow> pending_edits \<Rightarrow> nat \<Rightarrow> nat \<Rightarrow> string \<Rightarrow> pending_edits \<times> (string + unit)" where
  "stage_edit g e row col typed =
     (if gr_editable g = None then (e, Inl EDIT_REFUSED)
      else case gr_field_name g row col of
             None \<Rightarrow> (e, Inl ''this column is not one of the fields the row was read under'')
           | Some field \<Rightarrow>
               (let loaded = gr_loaded g row col
                in if (case loaded of Some v \<Rightarrow> mv_display v = typed | None \<Rightarrow> False)
                   then (unstage e row field, Inr ())
                   else case typed_like (gr_parse_f64 g) typed loaded of
                          Inl why \<Rightarrow> (e, Inl (''`'' @ field @ ''`: '' @ why))
                        | Inr v \<Rightarrow>
                            (case address_row (gr_nearest g) (gr_editable g) (gr_envelope g row) of
                               Inl why \<Rightarrow> (e, Inl why)
                             | Inr a \<Rightarrow> (stage e a row field v loaded, Inr ()))))"

definition stage_delete_at :: "grid_env \<Rightarrow> pending_edits \<Rightarrow> nat \<Rightarrow> pending_edits \<times> (string + unit)" where
  "stage_delete_at g e row =
     (if gr_editable g = None then (e, Inl EDIT_REFUSED)
      else case address_row (gr_nearest g) (gr_editable g) (gr_envelope g row) of
             Inl why \<Rightarrow> (e, Inl why)
           | Inr a \<Rightarrow> (stage_delete e a row, Inr ()))"

text \<open>
  What the user and the engine do to the edits of one result.  A review is of documents that were in
  conflict when it was asked for and of what the server answered then.
\<close>

datatype grid_event =
    GridEdit nat nat string
  | GridDelete nat
  | GridDiscardRow nat
  | GridDiscardAll
  | GridResolve "staged_document list" "server_document list" string bool
  | GridReport mutation_report "string list"

fun grid_step :: "grid_env \<Rightarrow> grid_event \<Rightarrow> pending_edits \<Rightarrow> pending_edits" where
  "grid_step g (GridEdit row col typed) e = fst (stage_edit g e row col typed)"
| "grid_step g (GridDelete row) e = fst (stage_delete_at g e row)"
| "grid_step g (GridDiscardRow row) e = discard_row e row"
| "grid_step g GridDiscardAll e = discard_all e"
| "grid_step g (GridResolve ds server i rebasing) e =
     (case gr_editable g of
        None \<Rightarrow> e
      | Some er \<Rightarrow> fst (resolve_conflict (build_review ds server er) e i rebasing))"
| "grid_step g (GridReport report committed) e = fst (apply_report e report committed)"

text \<open>A document as it may be sent: a key, and every guard field in its place.\<close>

definition guarded :: "editable_result \<Rightarrow> staged_document \<Rightarrow> bool" where
  "guarded er d \<longleftrightarrow> sd_key d \<noteq> [] \<and> map fst (sd_expect d) = er_guard er"

definition all_guarded :: "editable_result \<Rightarrow> pending_edits \<Rightarrow> bool" where
  "all_guarded er e \<longleftrightarrow> (\<forall>d \<in> set (pe_docs e). guarded er d)"

lemma guarded_simps [simp]:
  "guarded er (touch d) = guarded er d" "guarded er (drop_field f d) = guarded er d"
  "guarded er (fold_row r d) = guarded er d" "guarded er (d\<lparr>sd_sets := s\<rparr>) = guarded er d"
  "guarded er (d\<lparr>sd_is_delete := b\<rparr>) = guarded er d"
  by (simp_all add: guarded_def)

lemma guarded_put: "all_guarded er e \<Longrightarrow> guarded er d \<Longrightarrow> all_guarded er (put_document e d row)"
  by (auto simp: all_guarded_def put_document_def dest: set_update_subset_insert [THEN subsetD] split: option.splits)

lemma guarded_existing:
  assumes "all_guarded er e" "address_of nearest er j = Inr a"
  shows "guarded er (existing e a row)"
proof (cases "staged e (ad_id a)")
  case None
  with assms(2) show ?thesis
    using address_guarded_key [OF assms(2)] by (simp add: existing_staged guarded_def)
next
  case (Some d)
  with assms(1) show ?thesis by (auto simp: existing_staged all_guarded_def dest: staged_Some)
qed

lemma guarded_remove: "all_guarded er e \<Longrightarrow> all_guarded er \<lparr>pe_docs = remove_at k (pe_docs e), pe_rows = r\<rparr>"
  using set_remove_at by (fastforce simp: all_guarded_def)

lemma guarded_update: "all_guarded er e \<Longrightarrow> guarded er d \<Longrightarrow> all_guarded er (e\<lparr>pe_docs := (pe_docs e)[k := d]\<rparr>)"
  by (auto simp: all_guarded_def dest: set_update_subset_insert [THEN subsetD])

lemma guarded_nth: "all_guarded er e \<Longrightarrow> index_of e i = Some k \<Longrightarrow> guarded er (pe_docs e ! k)"
  unfolding all_guarded_def index_of_def by (drule find_index_bound) (auto intro: nth_mem)

lemma guarded_nth_row: "all_guarded er e \<Longrightarrow> index_of_row e row = Some k \<Longrightarrow> guarded er (pe_docs e ! k)"
  by (blast dest: index_of_row_staged guarded_nth)

lemma collect_options_keys:
  "collect_options (map (\<lambda>f. map_option (\<lambda>v. (f, v)) (g f)) fs) = Some ps \<Longrightarrow> map fst ps = fs"
proof (induction fs arbitrary: ps)
  case (Cons f fs)
  from Cons.prems Cons.IH show ?case by (cases "g f") auto
qed simp

lemma rebase_guard_fields: "rebase_guard_of er now \<noteq> [] \<Longrightarrow> map fst (rebase_guard_of er now) = er_guard er"
  by (auto simp: rebase_guard_of_def collect_options_keys split: option.splits if_splits)

lemma guarded_step:
  assumes "gr_editable g = Some er" "all_guarded er e"
  shows "all_guarded er (grid_step g ev e)"
proof (cases ev)
  case (GridEdit row col typed)
  have un: "all_guarded er (unstage e row f)" for f
    using assms(2)
    by (auto simp: unstage_def Let_def guarded_nth_row intro: guarded_remove guarded_update split: option.split)
  have st: "all_guarded er (stage e a row f v l)" if "address_row (gr_nearest g) (gr_editable g) (gr_envelope g row) = Inr a" for a f v l
    using that assms
    by (auto simp: address_row_def stage_def Let_def intro!: guarded_put guarded_existing split: option.splits sum.splits)
  from un st assms GridEdit show ?thesis
    by (simp add: stage_edit_def Let_def split: option.split sum.split)
next
  case (GridDelete row)
  with assms show ?thesis
    by (auto simp: stage_delete_at_def address_row_def stage_delete_def
        intro!: guarded_put guarded_existing split: option.splits sum.splits)
next
  case (GridDiscardRow row)
  with assms show ?thesis
    using guarded_remove [OF assms(2)] by (auto simp: discard_row_def all_guarded_def split: option.split)
next
  case GridDiscardAll
  with assms show ?thesis by (auto simp: discard_all_def edits_new_def all_guarded_def)
next
  case (GridResolve ds server i rebasing)
  have "all_guarded er (fst (discard_by_id e i))"
    using guarded_remove [OF assms(2)] assms(2) by (auto simp: discard_by_id_def Let_def split: option.split)
  moreover have "all_guarded er (fst (rebase e i (cd_rebase_guard d)))"
    if "review_find (build_review ds server er) i = Some d" "cd_can_rebase d" for d
  proof -
    from that obtain now where g: "cd_rebase_guard d = rebase_guard_of er now" "rebase_guard_of er now \<noteq> []"
      by (auto simp: review_find_def find_Some_iff build_review_def review_document_def Let_def)
    have "guarded er (touch (x\<lparr>sd_expect := cd_rebase_guard d\<rparr>))" if "guarded er x" for x
      using that rebase_guard_fields [OF g(2)] g(1) by (simp add: guarded_def)
    with assms(2) show ?thesis
      by (auto simp: rebase_def guarded_nth intro!: guarded_update split: option.split)
  qed
  ultimately show ?thesis using assms GridResolve by (auto simp: resolve_conflict_def split: option.split)
next
  case (GridReport report committed)
  have "all_guarded er (fold apply_row ps e)" for ps
    using assms(2)
  proof (induction ps arbitrary: e)
    case (Cons p ps)
    from Cons.prems have "all_guarded er (apply_row p e)"
      by (auto simp: apply_row_def guarded_nth intro!: guarded_update split: option.split)
    with Cons.IH show ?case by simp
  qed simp
  with GridReport assms show ?thesis by (simp add: apply_report_def)
qed

text \<open>
  C10.  No write is sent unguarded: whatever was typed, deleted, resolved or reported before, each
  mutation of the next batch names its document by a key and carries one expected value for each
  guard field of the result, in order; a result that is not editable sends nothing.
\<close>

theorem no_unguarded_mutation:
  "case gr_editable g of
     None \<Rightarrow> pending (fold (grid_step g) evs edits_new) = []
   | Some er \<Rightarrow> \<forall>m \<in> set (map mutation_of (pending (fold (grid_step g) evs edits_new))).
       dm_key m \<noteq> [] \<and> map fst (dm_expect m) = er_guard er"
proof (cases "gr_editable g")
  case (Some er)
  have "all_guarded er (fold (grid_step g) evs e)" if "all_guarded er e" for e
    using that by (induction evs arbitrary: e) (auto intro: guarded_step [OF Some])
  from this [of edits_new] have "all_guarded er (fold (grid_step g) evs edits_new)"
    by (simp add: all_guarded_def edits_new_def)
  with Some show ?thesis by (auto simp: all_guarded_def pending_def mutation_of_def guarded_def)
next
  case None
  have step: "pe_docs e = [] \<Longrightarrow> pe_docs (grid_step g ev e) = []" for ev e
  proof (cases ev)
    case (GridReport report committed)
    have "pe_docs e = [] \<Longrightarrow> pe_docs (fold apply_row ps e) = []" for ps
      by (induction ps arbitrary: e) (auto simp: apply_row_def split: option.split)
    then show "pe_docs e = [] \<Longrightarrow> pe_docs (grid_step g ev e) = []" using GridReport by (simp add: apply_report_def)
  qed (use None in \<open>simp_all add: stage_edit_def stage_delete_at_def discard_row_def discard_all_def remove_at_def
      split: option.split\<close>)
  have "pe_docs e = [] \<Longrightarrow> pe_docs (fold (grid_step g) evs e) = []" for e
    by (induction evs arbitrary: e) (auto simp: step)
  then show ?thesis using None by (simp add: pending_def edits_new_def)
qed

definition sample_editable :: editable_result where
  "sample_editable = \<lparr>er_identity = [''_id''], er_guard = [''_seq_no'', ''_primary_term''], er_root = [], er_atomic_batch = False\<rparr>"

definition sample_grid :: grid_env where
  "sample_grid =
     \<lparr>gr_nearest = (\<lambda>_. []), gr_parse_f64 = (\<lambda>_. None), gr_editable = Some sample_editable,
      gr_envelope = (\<lambda>row. Some (Inr (JObject ((''_id'', JString [char_of row]) # (''_seq_no'', JNumber (JPos 41))
        # (if row = 97 then [(''_primary_term'', JNumber (JPos 3))] else []))))),
      gr_field_name = (\<lambda>row col. Some ''n''), gr_loaded = (\<lambda>row col. Some (MI64 1))\<rparr>"

text \<open>The first row carries its guard, the second does not and is refused.\<close>

lemma no_unguarded_mutation_witness:
  "map (\<lambda>m. map fst (dm_expect m)) (map mutation_of (pending
     (fold (grid_step sample_grid) [GridEdit 97 0 ''2'', GridEdit 98 0 ''3''] edits_new)))
   = [[''_seq_no'', ''_primary_term'']]"
proof -
  let ?e = "fold (grid_step sample_grid) [GridEdit 97 0 ''2'', GridEdit 98 0 ''3''] edits_new"
  have one: "length (pending ?e) = 1" by code_simp
  then obtain d where d: "pending ?e = [d]" by (auto simp: length_Suc_conv)
  have "gr_editable sample_grid = Some sample_editable" by (simp add: sample_grid_def)
  with no_unguarded_mutation [of sample_grid "[GridEdit 97 0 ''2'', GridEdit 98 0 ''3'']"]
  have "\<forall>m \<in> set (map mutation_of (pending ?e)). map fst (dm_expect m) = er_guard sample_editable" by simp
  then show ?thesis unfolding d by (simp add: sample_editable_def)
qed

section \<open>Counts and limits\<close>

lemma count_documents:
  "sc_pending (fold count_document ds c) = sc_pending c + length (filter is_pending ds)
   \<and> sc_written (fold count_document ds c) = sc_written c + length (filter (\<lambda>d. \<not> is_pending d) ds)
   \<and> sc_updates (fold count_document ds c) + sc_deletes (fold count_document ds c)
       = sc_updates c + sc_deletes c + length (filter is_pending ds)
   \<and> sc_conflicts (fold count_document ds c) = sc_conflicts c + length (filter is_conflicted ds)"
  by (induction ds arbitrary: c) (auto simp: Let_def)

lemma counts_add_up:
  "sc_pending (counts e) = length (pending e) \<and> sc_pending (counts e) + sc_written (counts e) = length (pe_docs e)
   \<and> sc_updates (counts e) + sc_deletes (counts e) = sc_pending (counts e)
   \<and> sc_conflicts (counts e) = length (conflicted e) \<and> sc_conflicts (counts e) \<le> sc_pending (counts e)"
proof -
  have "length (filter is_conflicted ds) \<le> length (filter is_pending ds)" for ds
    by (induction ds) (auto simp: is_conflicted_def is_pending_def)
  with count_documents [of "pe_docs e"] show ?thesis
    by (simp add: counts_def pending_def conflicted_def sum_length_filter_compl)
qed

text \<open>
  A value typed while its document is being written is marked as written with it: the commit sends
  the first value, the report applies to the document as it is then, and nothing is left to send.
\<close>

definition flight_address :: address where
  "flight_address = \<lparr>ad_id = ''a'', ad_key = [(''_id'', MStr ''a'')], ad_expect = [(''_seq_no'', MI64 41)]\<rparr>"

lemma edit_in_flight_lost:
  "let e0 = stage edits_new flight_address 0 ''n'' (MI64 1) None;
       sent = map mutation_of (pending e0);
       e1 = stage e0 flight_address 0 ''n'' (MI64 2) None;
       e2 = fst (apply_report e1 (sample_report [sample_row MoApplied False]) (map sd_id (pending e0)))
   in map dm_sets sent = [[(''n'', MI64 1)]] \<and> pending e2 = []
      \<and> map_option (\<lambda>d. value_of d ''n'') (with_row e2 0) = Some (Some (MI64 2))"
  by code_simp

text \<open>
  A guard the server answers with null is a guard to the review, while the same null in a row's
  envelope is no guard.
\<close>

lemma rebase_takes_null_guard:
  "let er = \<lparr>er_identity = [''_id''], er_guard = [''_seq_no''], er_root = [], er_atomic_batch = False\<rparr>;
       j = JObject [(''_id'', JString ''a''), (''_seq_no'', JNull)];
       now = \<lparr>sv_found = True, sv_error = [], sv_envelope = server_map (\<lambda>_. []) (JObject [(''envelope'', j)]) ''envelope'',
              sv_fields = Map.empty\<rparr>
   in address_of (\<lambda>_. []) er j = Inl (unguarded ''_seq_no'') \<and> rebase_guard_of er now = [(''_seq_no'', MNull)]"
  by code_simp

text \<open>Two rows whose keys display alike share one staged document, so an edit of the second is sent
  to the first.\<close>

lemma edit_reaches_other_document:
  "let e = stage (stage edits_new \<lparr>ad_id = document_id [(''_id'', MI64 1)], ad_key = [(''_id'', MI64 1)], ad_expect = []\<rparr> 0 ''n'' MNull None)
             \<lparr>ad_id = document_id [(''_id'', MStr ''1'')], ad_key = [(''_id'', MStr ''1'')], ad_expect = []\<rparr> 1 ''n'' (MBool True) None
   in map (\<lambda>m. (dm_key m, dm_sets m)) (map mutation_of (pending e)) = [([(''_id'', MI64 1)], [(''n'', MBool True)])]"
  by code_simp

end
