(* ===== verification/Spec2Isabelle.thy ===== *)
theory Spec2Isabelle
  imports Sql_Lexical Sql_Classifier Sql_Splitter Sql_Highlight Sql_References Languages Api_Value Safety_Props
    Row_Formats Store_Refinement Query_Mgr Core_Api Export
    Mysql_Sql Postgres_Sql Sqlite_Driver Sidecar_Driver Pending_Edits
begin

text \<open>
  A verification development of datagrep, a database client in Rust: a core library
  (\<open>crates/datagrep-core\<close>) over an interface of drivers (\<open>crates/datagrep-api\<close>), with the
  language support of every database it speaks (\<open>crates/datagrep-lang\<close>).

  \<^bold>\<open>Parts and how they interact.\<close>  A script is split into statements and each is classified as
  a read or a write by its language.  The safety gate asks those classifiers what an operation
  needs under the connection's safety level and admits it, or hands out a challenge whose
  answer becomes single-use grants.  An admitted query gives a cursor; the feeder pulls batches
  from it over a bounded channel with adaptive fetch hints; the result store converts them to
  columns, keeps them within a shared memory budget, spills the oldest to a file and serves
  windows of rows; sinks write rows as CSV, Markdown, SQL or JSON.

  \<^bold>\<open>Theories.\<close>
  \<^item> \<open>DG_Prelude\<close>: the pieces of the standard library the sources use, over byte strings.
  \<^item> \<open>Sql_Lexer\<close>, \<open>Sql_Words\<close>, \<open>Sql_Classifier\<close>, \<open>Sql_Splitter\<close>, \<open>Sql_Highlight\<close>,
    \<open>Sql_References\<close>: \<open>datagrep-lang/src/sql\<close>, one theory a file.  \<open>Sql_Lexical\<close> states the lexical
    grammar over the text alone and shows that the lexer follows it; the classifier is characterised
    by the conditions under which it answers read, the splitter by a reference that cuts at code
    semicolons.
  \<^item> \<open>Directives\<close>, \<open>Redis_Lang\<close>, \<open>Es_Lang\<close>, \<open>Mongo_Parser\<close>, \<open>Mongo_Lang\<close>, \<open>Languages\<close>:
    the other languages and the registry; \<open>Languages\<close> states the span contract of a language
    as a locale and interprets it for each splitter.
  \<^item> \<open>Api_Value\<close>, \<open>Safety_Api\<close>, \<open>Driver_Api\<close>: values, documents and field paths; levels,
    requests and errors; shapes, payloads and batches (\<open>datagrep-api/src\<close>).
  \<^item> \<open>Safety_Gate\<close>, \<open>Safety_Props\<close>: \<open>datagrep-core/src/safety.rs\<close> with time as an argument,
    and its runs: admissions are justified by clearances, clearances are single use, the tables
    stay bounded.
  \<^item> \<open>Value_Text\<close>, \<open>Batch_Converter\<close>: \<open>convert.rs\<close>; \<open>Row_Formats\<close>: \<open>format/*.rs\<close>.
  \<^item> \<open>Feeder\<close>: \<open>feeder.rs\<close> as a state machine over the events its awaits wake on.
  \<^item> \<open>Budget\<close>: the counters of \<open>store.rs\<close> at the grain of their atomic instructions, any number
    of leases interleaved.  \<open>Result_Store\<close>: the writer of \<open>store.rs\<close> and \<open>spill.rs\<close>;
    \<open>Store_Refinement\<close>: the store refines the list of the rows it received.
  \<^item> \<open>Session_Pool\<close>: \<open>session.rs\<close>, the task that owns a driver connection and the pool at the
    grain of its critical sections, with dials that outlive their callers and the shutdown that
    cancels every connection.  \<open>Query_Mgr\<close>: \<open>query.rs\<close>, the table of queries and the
    supervisor that turns store states into events.  \<open>Export\<close>: \<open>export.rs\<close>, the drive loop.
  \<^item> \<open>Sql_Pieces\<close>: texts put together from code, placeholders and quoted pieces, and how the chunk
    lexer reads them.  \<open>Mysql_Sql\<close>, \<open>Postgres_Sql\<close>, \<open>Sqlite_Sql\<close>: the statements the SQL drivers
    compile (\<open>datagrep-drv-mysql/src/sql.rs\<close>, \<open>datagrep-drv-postgres/src/sql.rs\<close>,
    \<open>datagrep-drv-sqlite/src/compile.rs\<close>), closed under the lexer of their dialect.
    \<open>Sqlite_Driver\<close>: the worker that owns a SQLite connection, over the library as a parameter.
  \<^item> \<open>Url_Text\<close>, \<open>Connection_Urls\<close>: percent coding and redaction of URLs, and a URL from the
    connection dialog to the driver's configuration.
  \<^item> \<open>Json_Data\<close>: JSON values.  \<open>Sidecar_Wire\<close>, \<open>Sidecar_Process\<close>, \<open>Sidecar_Driver\<close>:
    \<open>datagrep-drv-sidecar/src\<close>: frames and values on the pipe, the request table under any
    interleaving of its tasks, and the driver's handshake, connect frame and cursors.
  \<^item> \<open>Pending_Edits\<close>: edits staged in the grid of the GTK front end (\<open>ui/gtk4/src/model/editing.rs\<close>,
    \<open>mutation.rs\<close>, \<open>ui/conflict.rs\<close>): their addresses and guards, the batch and how the engine
    reads it, reports and conflict reviews; the set of edits refines a map.
  \<^item> \<open>Core_Api\<close>: \<open>api.rs\<close> with the registries it holds; composes profiles, sessions and gates.

  \<^bold>\<open>Conventions.\<close>  A text is its list of bytes, so an index is a byte offset as in Rust and
  \<open>str_slice\<close> is \<open>None\<close> where Rust panics on a character boundary.  Errors are values of a sum
  or option.  Machine integers are numbers with their wrap-around or saturation written out.
  Parsers that recurse on a position carry fuel linear in the text, and the theorems state
  that it is never exhausted.  Waiting for an event is a result of its own (\<open>None\<close>), and the
  events that end the wait are an argument.

  \<^bold>\<open>Parameters.\<close>  Arrow (memory size, IPC writer and reader), the JSON codec, identifier quoting
  by a driver, and the floating-point quotients of the feeder's adaptation are arguments.  What
  is relied on is a named hypothesis.  \<open>ipc_law\<close>: the IPC reader reads back a batch that has the
  schema its writer was opened with, and nothing is said of others.  \<open>json_text_law\<close>: \<open>serde_json\<close>
  reads back the text of a well-formed value, each double as \<open>reread\<close> says.  \<open>lower_law\<close>: lowercasing
  a text of ASCII characters lowercases each; nothing is said of others.

  SQLite is a record of the calls the worker makes.  \<open>transactional\<close> is the documented behaviour of
  \<open>BEGIN\<close>, \<open>COMMIT\<close>, \<open>ROLLBACK\<close> and of the statements that insert, update or delete, and nothing is
  said of other texts; \<open>pragma_law\<close> is that of the read-only pragma.

  \<^bold>\<open>Not modelled.\<close>  What the drivers send over wire protocols of client libraries, the FFI
  and CLI front ends, the widgets of the GTK and the Swift, C++ and Go user interfaces, tunnels and secrets (system
  services), and the asynchronous traits of \<open>driver.rs\<close>, which have no bodies.
\<close>

end
